(* ===== verification/Prelude.thy ===== *)
theory Prelude
  imports Main "HOL-Library.Word" "HOL-Library.Sublist"
begin

text \<open>
  Shared vocabulary of the development: the integer widths and result type the Rust code uses,
  the part of the Rust standard library its text handling rests on (\<^verbatim>\<open>str::trim\<close>,
  \<^verbatim>\<open>split\<close>, \<^verbatim>\<open>strip_prefix\<close>, \<^verbatim>\<open>join\<close>,
  decimal printing and parsing), and the generic lemmas the component theories share.

  A Rust \<^verbatim>\<open>str\<close> is modelled by the list of its UTF-8 bytes.  The functions that look at
  character classes (\<open>trim\<close>, \<open>split_whitespace\<close>, \<open>has_control\<close>) recognise the encoded form of
  every character of the class, the ones outside ASCII included.
\<close>

named_theorems text_simps \<open>rewriting rules for the string library\<close>
named_theorems number_simps \<open>decimal printing and parsing\<close>
named_theorems component_inv \<open>preservation facts of the component invariants\<close>

type_synonym u32 = "32 word"
type_synonym u64 = "64 word"
type_synonym i32 = "32 word"
type_synonym ('e, 'a) result = "'e + 'a"

section \<open>Results and options\<close>

definition and_then :: "('e, 'a) result \<Rightarrow> ('a \<Rightarrow> ('e, 'b) result) \<Rightarrow> ('e, 'b) result" where
  "and_then r f = (case r of Inl e \<Rightarrow> Inl e | Inr x \<Rightarrow> f x)"

definition ok_or :: "'a option \<Rightarrow> 'e \<Rightarrow> ('e, 'a) result" where
  "ok_or x e = (case x of None \<Rightarrow> Inl e | Some v \<Rightarrow> Inr v)"

definition nth_opt :: "'a list \<Rightarrow> nat \<Rightarrow> 'a option" where
  "nth_opt xs i = (if i < length xs then Some (xs ! i) else None)"

lemma and_then_simps [simp]:
  "and_then (Inl e) f = Inl e" "and_then (Inr x) f = f x"
  by (simp_all add: and_then_def)

lemma and_then_Inr_conv: "and_then r f = Inr y \<longleftrightarrow> (\<exists>x. r = Inr x \<and> f x = Inr y)"
  by (cases r) simp_all

lemma ok_or_simps [simp]: "ok_or None e = Inl e" "ok_or (Some v) e = Inr v"
  by (simp_all add: ok_or_def)

lemma nth_opt_simps [simp]:
  "nth_opt [] i = None"
  "nth_opt (x # xs) 0 = Some x"
  "nth_opt (x # xs) (Suc i) = nth_opt xs i"
  by (simp_all add: nth_opt_def)

lemma nth_opt_numeral [simp]: "nth_opt (x # xs) (numeral k) = nth_opt xs (pred_numeral k)"
  by (simp add: numeral_eq_Suc)

lemma nth_opt_SomeD: "nth_opt xs i = Some x \<Longrightarrow> i < length xs \<and> xs ! i = x"
  by (auto simp: nth_opt_def split: if_splits)

text \<open>\<open>collect\<close> on an iterator of results: the first error, or all the values.\<close>

fun collect_results :: "('e, 'a) result list \<Rightarrow> ('e, 'a list) result" where
  "collect_results [] = Inr []"
| "collect_results (r # rs) =
     (case r of Inl e \<Rightarrow> Inl e
      | Inr x \<Rightarrow> (case collect_results rs of Inl e \<Rightarrow> Inl e | Inr xs \<Rightarrow> Inr (x # xs)))"

fun collect_options :: "'a option list \<Rightarrow> 'a list option" where
  "collect_options [] = Some []"
| "collect_options (r # rs) =
     (case r of None \<Rightarrow> None
      | Some x \<Rightarrow> (case collect_options rs of None \<Rightarrow> None | Some xs \<Rightarrow> Some (x # xs)))"

lemma map_of_filter_key: "map_of (filter (\<lambda>(w, _). P w) xs) w = (if P w then map_of xs w else None)"
  by (induction xs) auto

lemma collect_results_map_Inr [simp]: "collect_results (map (\<lambda>x. Inr (f x)) xs) = Inr (map f xs)"
  by (induction xs) simp_all

lemma collect_options_map:
  "(\<And>x. x \<in> set xs \<Longrightarrow> f x = Some (g x)) \<Longrightarrow> collect_options (map f xs) = Some (map g xs)"
  by (induction xs) auto

lemma collect_options_SomeD:
  "collect_options rs = Some xs \<Longrightarrow> rs = map Some xs"
  by (induction rs arbitrary: xs) (auto split: option.splits)

section \<open>Bytes and characters\<close>

abbreviation byte :: "char \<Rightarrow> nat" where
  "byte c \<equiv> of_char c"

definition is_ascii_digit :: "char \<Rightarrow> bool" where
  "is_ascii_digit c \<longleftrightarrow> 48 \<le> byte c \<and> byte c \<le> 57"

definition is_ascii_alphabetic :: "char \<Rightarrow> bool" where
  "is_ascii_alphabetic c \<longleftrightarrow> 65 \<le> byte c \<and> byte c \<le> 90 \<or> 97 \<le> byte c \<and> byte c \<le> 122"

definition is_ascii_alphanumeric :: "char \<Rightarrow> bool" where
  "is_ascii_alphanumeric c \<longleftrightarrow> is_ascii_alphabetic c \<or> is_ascii_digit c"

definition is_whitespace :: "char \<Rightarrow> bool" where
  "is_whitespace c \<longleftrightarrow> 9 \<le> byte c \<and> byte c \<le> 13 \<or> byte c = 32"

definition is_control :: "char \<Rightarrow> bool" where
  "is_control c \<longleftrightarrow> byte c < 32 \<or> byte c = 127"

text \<open>\<^verbatim>\<open>char::is_control\<close> on some character: an ASCII control byte or one of U+0080 to U+009F.\<close>

fun has_control :: "string \<Rightarrow> bool" where
  "has_control [] = False"
| "has_control [c] = is_control c"
| "has_control (c # d # r) \<longleftrightarrow>
     is_control c \<or> byte c = 194 \<and> 128 \<le> byte d \<and> byte d \<le> 159 \<or> has_control (d # r)"

definition ascii_lower_char :: "char \<Rightarrow> char" where
  "ascii_lower_char c = (if 65 \<le> byte c \<and> byte c \<le> 90 then char_of (byte c + 32) else c)"

definition to_ascii_lowercase :: "string \<Rightarrow> string" where
  "to_ascii_lowercase = map ascii_lower_char"

lemma to_ascii_lowercase_id: "list_all (\<lambda>c. byte c < 65 \<or> 90 < byte c) s \<Longrightarrow> to_ascii_lowercase s = s"
  by (induction s) (auto simp: to_ascii_lowercase_def ascii_lower_char_def)

definition quote_char :: char where "quote_char = char_of (34::nat)"
definition squote_char :: char where "squote_char = char_of (39::nat)"
definition backslash_char :: char where "backslash_char = char_of (92::nat)"
definition newline_char :: char where "newline_char = char_of (10::nat)"
definition return_char :: char where "return_char = char_of (13::nat)"
definition tab_char :: char where "tab_char = char_of (9::nat)"
definition nul_char :: char where "nul_char = char_of (0::nat)"

lemma digit_not_whitespace: "is_ascii_digit c \<Longrightarrow> \<not> is_whitespace c"
  by (simp add: is_ascii_digit_def is_whitespace_def)

section \<open>Slices and searching\<close>

definition strip_prefix :: "string \<Rightarrow> string \<Rightarrow> string option" where
  "strip_prefix p s = (if take (length p) s = p then Some (drop (length p) s) else None)"

definition strip_suffix :: "string \<Rightarrow> string \<Rightarrow> string option" where
  "strip_suffix p s =
     (if length p \<le> length s \<and> drop (length s - length p) s = p
      then Some (take (length s - length p) s) else None)"

definition starts_with :: "'a list \<Rightarrow> 'a list \<Rightarrow> bool" where
  "starts_with s p \<longleftrightarrow> take (length p) s = p"

definition ends_with :: "'a list \<Rightarrow> 'a list \<Rightarrow> bool" where
  "ends_with s p \<longleftrightarrow> length p \<le> length s \<and> drop (length s - length p) s = p"

text \<open>
  \<^verbatim>\<open>char::is_whitespace\<close> is the Unicode property \<open>White_Space\<close>.  \<open>ws_len\<close> is the number of bytes of
  the white space character a string starts with, and 0 when it starts with none; \<open>ws_len_end\<close> is the
  same for the end of a string, given in reverse.
\<close>

definition wide_space :: "char \<Rightarrow> char \<Rightarrow> char \<Rightarrow> bool" where
  "wide_space a b c \<longleftrightarrow>
     byte a = 225 \<and> byte b = 154 \<and> byte c = 128
     \<or> byte a = 226 \<and> byte b = 128
       \<and> (128 \<le> byte c \<and> byte c \<le> 138 \<or> byte c = 168 \<or> byte c = 169 \<or> byte c = 175)
     \<or> byte a = 226 \<and> byte b = 129 \<and> byte c = 159
     \<or> byte a = 227 \<and> byte b = 128 \<and> byte c = 128"

definition narrow_space :: "char \<Rightarrow> char \<Rightarrow> bool" where
  "narrow_space a b \<longleftrightarrow> byte a = 194 \<and> (byte b = 133 \<or> byte b = 160)"

fun ws_len :: "string \<Rightarrow> nat" where
  "ws_len [] = 0"
| "ws_len [a] = (if is_whitespace a then 1 else 0)"
| "ws_len [a, b] = (if is_whitespace a then 1 else if narrow_space a b then 2 else 0)"
| "ws_len (a # b # c # r) =
     (if is_whitespace a then 1 else if narrow_space a b then 2 else if wide_space a b c then 3 else 0)"

fun ws_len_end :: "string \<Rightarrow> nat" where
  "ws_len_end [] = 0"
| "ws_len_end [a] = (if is_whitespace a then 1 else 0)"
| "ws_len_end [b, a] = (if is_whitespace b then 1 else if narrow_space a b then 2 else 0)"
| "ws_len_end (c # b # a # r) =
     (if is_whitespace c then 1 else if narrow_space b c then 2 else if wide_space a b c then 3 else 0)"

lemma ws_len_pos:
  "0 < ws_len s \<Longrightarrow> length s - ws_len s < length s"
  "0 < ws_len_end s \<Longrightarrow> length s - ws_len_end s < length s"
  by (cases s; simp)+

function trim_start :: "string \<Rightarrow> string" where
  "trim_start s = (if ws_len s = 0 then s else trim_start (drop (ws_len s) s))"
  by pat_completeness auto
termination by (relation "measure length") (auto simp: ws_len_pos)

declare trim_start.simps [simp del]

function trim_end_rev :: "string \<Rightarrow> string" where
  "trim_end_rev r = (if ws_len_end r = 0 then r else trim_end_rev (drop (ws_len_end r) r))"
  by pat_completeness auto
termination by (relation "measure length") (auto simp: ws_len_pos)

declare trim_end_rev.simps [simp del]

definition trim_end :: "string \<Rightarrow> string" where
  "trim_end s = rev (trim_end_rev (rev s))"

definition trim :: "string \<Rightarrow> string" where
  "trim s = trim_end (trim_start s)"

definition slice :: "'a list \<Rightarrow> nat \<Rightarrow> nat \<Rightarrow> 'a list" where
  "slice s i j = take (j - i) (drop i s)"

fun split_on :: "char \<Rightarrow> string \<Rightarrow> string list" where
  "split_on c [] = [[]]"
| "split_on c (x # xs) =
     (if x = c then [] # split_on c xs
      else (case split_on c xs of [] \<Rightarrow> [[x]] | w # ws \<Rightarrow> (x # w) # ws))"

definition split_once :: "char \<Rightarrow> string \<Rightarrow> (string \<times> string) option" where
  "split_once c s =
     (case dropWhile (\<lambda>x. x \<noteq> c) s of [] \<Rightarrow> None | _ # r \<Rightarrow> Some (takeWhile (\<lambda>x. x \<noteq> c) s, r))"

function split_whitespace_acc :: "string \<Rightarrow> string \<Rightarrow> string list" where
  "split_whitespace_acc w [] = (if w = [] then [] else [w])"
| "split_whitespace_acc w (x # xs) =
     (if 0 < ws_len (x # xs)
      then (if w = [] then [] else [w]) @ split_whitespace_acc [] (drop (ws_len (x # xs)) (x # xs))
      else split_whitespace_acc (w @ [x]) xs)"
  by pat_completeness auto
termination by (relation "measure (\<lambda>(w, s). length s)") (auto simp: drop_Cons')

definition split_whitespace :: "string \<Rightarrow> string list" where
  "split_whitespace s = split_whitespace_acc [] s"

fun join :: "string \<Rightarrow> string list \<Rightarrow> string" where
  "join sep [] = []"
| "join sep [w] = w"
| "join sep (w # v # ws) = w @ sep @ join sep (v # ws)"

lemma join_Cons: "ws \<noteq> [] \<Longrightarrow> join sep (w # ws) = w @ sep @ join sep ws"
  by (cases ws) simp_all

lemma strip_prefix_append [simp, text_simps]: "strip_prefix p (p @ s) = Some s"
  by (simp add: strip_prefix_def)

lemma strip_prefix_SomeD: "strip_prefix p s = Some r \<Longrightarrow> s = p @ r"
  by (auto simp: strip_prefix_def split: if_splits) (metis append_take_drop_id)

lemma strip_suffix_append [simp, text_simps]: "strip_suffix p (s @ p) = Some s"
  by (simp add: strip_suffix_def)

lemma strip_suffix_SomeD: "strip_suffix p s = Some r \<Longrightarrow> s = r @ p"
  by (auto simp: strip_suffix_def split: if_splits) (metis append_take_drop_id)

lemma strip_suffix_last:
  "p \<noteq> [] \<Longrightarrow> s \<noteq> [] \<Longrightarrow> last s \<noteq> last p \<Longrightarrow> strip_suffix p s = None"
  by (metis last_appendR option.exhaust strip_suffix_SomeD)

lemma starts_with_Nil [simp]: "starts_with s []"
  by (simp add: starts_with_def)

lemma starts_with_Cons [simp]:
  "starts_with (x # s) (y # p) \<longleftrightarrow> x = y \<and> starts_with s p"
  "\<not> starts_with [] (y # p)"
  by (simp_all add: starts_with_def)

lemma starts_with_prefix: "starts_with s p \<longleftrightarrow> prefix p s"
  by (metis append_eq_conv_conj prefix_def starts_with_def take_is_prefix)

subsection \<open>Splitting undoes joining\<close>

lemma split_on_nonempty [simp]: "split_on c s \<noteq> []"
  by (induction s) (auto split: list.splits)

lemma split_on_no_sep: "c \<notin> set s \<Longrightarrow> split_on c s = [s]"
  by (induction s) auto

lemma split_on_append:
  "c \<notin> set w \<Longrightarrow> split_on c (w @ c # s) = w # split_on c s"
  by (induction w) auto

lemma split_on_join [text_simps]:
  "ws \<noteq> [] \<Longrightarrow> (\<And>w. w \<in> set ws \<Longrightarrow> c \<notin> set w) \<Longrightarrow> split_on c (join [c] ws) = ws"
proof (induction ws)
  case (Cons w ws)
  then show ?case
    by (cases ws) (auto simp: split_on_no_sep split_on_append)
qed simp

lemma split_once_append [text_simps]:
  "c \<notin> set w \<Longrightarrow> split_once c (w @ c # s) = Some (w, s)"
proof -
  assume "c \<notin> set w"
  then have "dropWhile (\<lambda>x. x \<noteq> c) (w @ c # s) = c # s"
    and "takeWhile (\<lambda>x. x \<noteq> c) (w @ c # s) = w"
    by (induction w) auto
  then show ?thesis by (simp add: split_once_def)
qed

lemma split_once_None [text_simps]: "c \<notin> set w \<Longrightarrow> split_once c w = None"
proof -
  assume "c \<notin> set w"
  then have "dropWhile (\<lambda>x. x \<noteq> c) w = []" by (induction w) auto
  then show ?thesis by (simp only: split_once_def list.case)
qed

subsection \<open>White space\<close>

text \<open>A string without white space, and a nonempty one that is also ASCII.\<close>

definition ws_free :: "string \<Rightarrow> bool" where
  "ws_free w \<longleftrightarrow> (\<forall>k. ws_len (drop k w) = 0)"

definition word_ok :: "string \<Rightarrow> bool" where
  "word_ok w \<longleftrightarrow> w \<noteq> [] \<and> list_all (\<lambda>c. byte c < 128 \<and> \<not> is_whitespace c) w"

lemma ws_free_Nil [simp]: "ws_free []"
  by (simp add: ws_free_def)

lemma ws_free_Cons: "ws_free (x # w) \<longleftrightarrow> ws_len (x # w) = 0 \<and> ws_free w"
  unfolding ws_free_def by (metis drop0 drop_Suc_Cons not0_implies_Suc)

lemma ws_len_ascii: "byte a < 128 \<Longrightarrow> \<not> is_whitespace a \<Longrightarrow> ws_len (a # r) = 0"
  by (cases "a # r" rule: ws_len.cases) (auto simp: narrow_space_def wide_space_def)

lemma ws_len_end_ascii: "byte a < 128 \<Longrightarrow> \<not> is_whitespace a \<Longrightarrow> ws_len_end (a # r) = 0"
  by (cases "a # r" rule: ws_len_end.cases) (auto simp: narrow_space_def wide_space_def)

lemma ws_len_append: "0 < ws_len s \<Longrightarrow> ws_len (s @ r) = ws_len s"
  by (cases s rule: ws_len.cases; cases r; cases "tl r") (auto split: if_splits)

lemma ws_len_before_ascii: "byte c < 128 \<Longrightarrow> x # w = s \<Longrightarrow> ws_len (s @ c # r) = ws_len s"
  by (cases s rule: ws_len.cases; cases r) (auto simp: narrow_space_def wide_space_def split: if_splits)

lemma word_ok_ws_free: "word_ok w \<Longrightarrow> ws_free w \<and> w \<noteq> []"
proof -
  have "list_all (\<lambda>c. byte c < 128 \<and> \<not> is_whitespace c) v \<Longrightarrow> ws_free v" for v
    by (induction v) (auto simp: ws_free_Cons ws_len_ascii)
  then show "word_ok w \<Longrightarrow> ?thesis" by (auto simp: word_ok_def)
qed

lemma ws_free_prefix: "ws_free (a @ b) \<Longrightarrow> ws_free a"
proof (induction a)
  case (Cons x a)
  then show ?case using ws_len_append [of "x # a" b] by (auto simp: ws_free_Cons)
qed simp

lemma split_whitespace_acc_word:
  assumes "ws_free w" "r = [] \<or> byte (hd r) < 128"
  shows "split_whitespace_acc v (w @ r) = split_whitespace_acc (v @ w) r"
  using assms(1)
proof (induction w arbitrary: v)
  case (Cons x w)
  have "ws_len (x # w @ r) = 0"
    using Cons(2) assms(2) ws_len_before_ascii [OF _ refl, of "hd r" x w "tl r"] by (cases r) (auto simp: ws_free_Cons)
  then show ?case using Cons by (simp add: ws_free_Cons)
qed simp

lemma split_whitespace_single [text_simps]: "ws_free w \<Longrightarrow> w \<noteq> [] \<Longrightarrow> split_whitespace w = [w]"
  using split_whitespace_acc_word [of w "[]" "[]"] by (simp add: split_whitespace_def)

lemma ws_len_space: "ws_len (CHR '' '' # s) = 1"
  by (cases "CHR '' '' # s" rule: ws_len.cases) (auto simp: is_whitespace_def)

lemma split_whitespace_Cons [text_simps]:
  assumes "ws_free w" "w \<noteq> []" shows "split_whitespace (w @ '' '' @ s) = w # split_whitespace s"
  using split_whitespace_acc_word [OF assms(1), of "'' '' @ s" "[]"] assms
  by (simp add: split_whitespace_def ws_len_space)

lemma split_whitespace_join [text_simps]:
  "(\<And>w. w \<in> set ws \<Longrightarrow> ws_free w \<and> w \<noteq> []) \<Longrightarrow> split_whitespace (join '' '' ws) = ws"
proof (induction ws)
  case Nil
  then show ?case by (simp add: split_whitespace_def)
next
  case (Cons w ws)
  then show ?case
    by (cases ws) (use split_whitespace_Cons in \<open>auto simp: split_whitespace_single\<close>)
qed

lemma split_whitespace_acc_words:
  "ws_free v \<Longrightarrow> (\<forall>k<length v. ws_len (drop k v @ s) = 0) \<Longrightarrow> w \<in> set (split_whitespace_acc v s) \<Longrightarrow>
     ws_free w \<and> w \<noteq> []"
proof (induction v s rule: split_whitespace_acc.induct)
  case (2 v x xs)
  show ?case
  proof (cases "0 < ws_len (x # xs)")
    case True
    then show ?thesis using 2(1) [OF True] 2(3,5) by (auto split: if_splits)
  next
    case False
    have k: "\<forall>k<length (v @ [x]). ws_len (drop k (v @ [x]) @ xs) = 0"
      using 2(4) False by (auto simp: less_Suc_eq)
    have "ws_free (v @ [x])"
    proof (unfold ws_free_def, intro allI)
      fix k
      show "ws_len (drop k (v @ [x])) = 0"
        using k ws_len_append [of "drop k (v @ [x])" xs] by (cases "k < length (v @ [x])") force+
    qed
    then show ?thesis using 2(2) [OF False _ k] 2(5) False by simp
  qed
qed (auto split: if_splits)

lemma split_whitespace_words: "w \<in> set (split_whitespace s) \<Longrightarrow> ws_free w \<and> w \<noteq> []"
  using split_whitespace_acc_words [of "[]" s w] by (simp add: split_whitespace_def)

lemma ws_len_le: "ws_len s \<le> length s"
  by (cases s rule: ws_len.cases) auto

lemma ws_len_rev: "0 < ws_len_end (rev w) \<Longrightarrow> \<exists>k. 0 < ws_len (drop k w)"
proof -
  assume a: "0 < ws_len_end (rev w)"
  consider "w = []" | x where "w = [x]" | x y where "w = [x, y]" | u x y z where "w = u @ [x, y, z]"
  proof (cases w rule: rev_cases)
    case (snoc u z)
    then show ?thesis
    proof (cases u rule: rev_cases)
      case (snoc u' y)
      then show ?thesis using that \<open>w = u @ [z]\<close> by (cases u' rule: rev_cases) auto
    qed (use that in auto)
  qed (use that in auto)
  then show ?thesis
  proof cases
    case (2 x)
    then show ?thesis using a by (intro exI [of _ 0]) (auto split: if_splits)
  next
    case (3 x y)
    then show ?thesis using a
      by (cases "is_whitespace y") (auto split: if_splits intro: exI [of _ 0] exI [of _ 1])
  next
    case (4 u x y z)
    have d: "drop (length u) w = [x, y, z]" "drop (length u + 1) w = [y, z]" "drop (length u + 2) w = [z]"
      using 4 by auto
    show ?thesis using a d 4
      by (cases "is_whitespace z"; cases "narrow_space y z")
         (force intro: exI [of _ "length u + 2"] exI [of _ "length u + 1"] exI [of _ "length u"] split: if_splits)+
  qed (use a in simp)
qed

lemma trim_fixed: "ws_len s = 0 \<Longrightarrow> ws_len_end (rev s) = 0 \<Longrightarrow> trim s = s"
  by (simp add: trim_def trim_end_def trim_start.simps [of s] trim_end_rev.simps [of "rev s"])

lemma trim_Nil [simp]: "trim [] = []"
  by (simp add: trim_fixed)

lemma ws_free_ends: "ws_free w \<Longrightarrow> ws_len w = 0" "ws_free w \<Longrightarrow> ws_len_end (rev w) = 0"
  using ws_len_rev [of w] by (auto simp: ws_free_def dest: spec [of _ 0])

lemma trim_ws_free: "ws_free w \<Longrightarrow> trim w = w"
  by (simp add: trim_fixed ws_free_ends)

lemma ws_len_end_before_ascii: "byte c < 128 \<Longrightarrow> s \<noteq> [] \<Longrightarrow> ws_len_end (s @ c # r) = ws_len_end s"
  by (cases s rule: ws_len_end.cases; cases r) (auto simp: narrow_space_def wide_space_def)

lemma join_snoc: "ws \<noteq> [] \<Longrightarrow> join sep (ws @ [w]) = join sep ws @ sep @ w"
proof (induction ws)
  case (Cons v ws)
  then show ?case by (cases ws) simp_all
qed simp

text \<open>Words joined by single spaces have nothing to trim.\<close>

lemma trim_join [text_simps]:
  assumes "\<And>w. w \<in> set ws \<Longrightarrow> ws_free w \<and> w \<noteq> []"
  shows "trim (join '' '' ws) = join '' '' ws"
proof (rule trim_fixed)
  show "ws_len (join '' '' ws) = 0"
  proof (cases ws)
    case (Cons w ws')
    then show ?thesis
      using assms [of w] ws_free_ends(1) [of w] ws_len_before_ascii [OF _ refl, of "CHR '' ''" "hd w" "tl w"]
      by (cases ws') auto
  qed simp
  show "ws_len_end (rev (join '' '' ws)) = 0"
  proof (cases ws rule: rev_cases)
    case (snoc ws' w)
    then show ?thesis
      using assms [of w] ws_free_ends(2) [of w] ws_len_end_before_ascii [of "CHR '' ''" "rev w"]
      by (cases "ws' = []") (auto simp: join_snoc)
  qed simp
qed

lemma trim_word [text_simps]: "word_ok w \<Longrightarrow> trim w = w"
  by (simp add: trim_ws_free word_ok_ws_free)

text \<open>Trimming never removes an ASCII character that is not white space.\<close>

lemma ws_len_end_keeps: "byte c < 128 \<Longrightarrow> \<not> is_whitespace c \<Longrightarrow> ws_len_end (r @ [c]) \<le> length r"
proof (cases r)
  case (Cons x r')
  then show ?thesis if "byte c < 128" "\<not> is_whitespace c"
    using that by (cases r'; cases "tl r'") (simp_all add: narrow_space_def wide_space_def)
qed simp

lemma trim_end_rev_keeps: "byte c < 128 \<Longrightarrow> \<not> is_whitespace c \<Longrightarrow> trim_end_rev (r @ [c]) \<noteq> []"
proof (induction "length r" arbitrary: r rule: less_induct)
  case less
  show ?case
  proof (cases "ws_len_end (r @ [c]) = 0")
    case True
    then show ?thesis by (simp add: trim_end_rev.simps [of "r @ [c]"])
  next
    case False
    let ?n = "ws_len_end (r @ [c])"
    have n: "?n \<le> length r" using ws_len_end_keeps less by blast
    then have "trim_end_rev (r @ [c]) = trim_end_rev (drop ?n r @ [c])" using False by (simp add: trim_end_rev.simps [of "r @ [c]"])
    then show ?thesis using less(1) [of "drop ?n r"] less(2,3) False n by simp
  qed
qed

lemma trim_nonempty: "s \<noteq> [] \<Longrightarrow> byte (hd s) < 128 \<Longrightarrow> \<not> is_whitespace (hd s) \<Longrightarrow> trim s \<noteq> []"
proof (cases s)
  case (Cons c r)
  assume "byte (hd s) < 128" "\<not> is_whitespace (hd s)"
  then show ?thesis using Cons trim_end_rev_keeps [of c "rev r"] ws_len_ascii [of c r]
    by (simp add: trim_def trim_end_def trim_start.simps [of "c # r"])
qed simp

section \<open>Decimal numbers\<close>

definition digit_char :: "nat \<Rightarrow> char" where
  "digit_char d = char_of (48 + d mod 10)"

definition digit_val :: "char \<Rightarrow> nat" where
  "digit_val c = byte c - 48"

fun show_nat :: "nat \<Rightarrow> string" where
  "show_nat n = (if n < 10 then [digit_char n] else show_nat (n div 10) @ [digit_char n])"

declare show_nat.simps [simp del]

definition digits_value :: "string \<Rightarrow> nat" where
  "digits_value s = foldl (\<lambda>a c. a * 10 + digit_val c) 0 s"

definition all_digits :: "string \<Rightarrow> bool" where
  "all_digits s \<longleftrightarrow> s \<noteq> [] \<and> list_all is_ascii_digit s"

text \<open>\<^verbatim>\<open>str::parse\<close> at an unsigned type of the given width: an optional plus
  sign, at least one digit, and \<open>None\<close> when the value does not fit.\<close>

definition parse_uint :: "nat \<Rightarrow> string \<Rightarrow> nat option" where
  "parse_uint bits s =
     (let d = (case s of [] \<Rightarrow> [] | c # cs \<Rightarrow> if c = CHR ''+'' then cs else s)
      in if all_digits d \<and> digits_value d < 2 ^ bits then Some (digits_value d) else None)"

definition parse_u32 :: "string \<Rightarrow> u32 option" where
  "parse_u32 s = map_option of_nat (parse_uint 32 s)"

definition parse_u64 :: "string \<Rightarrow> u64 option" where
  "parse_u64 s = map_option of_nat (parse_uint 64 s)"

definition show_u32 :: "u32 \<Rightarrow> string" where
  "show_u32 w = show_nat (unat w)"

definition show_u64 :: "u64 \<Rightarrow> string" where
  "show_u64 w = show_nat (unat w)"

lemma byte_digit_char [simp]: "byte (digit_char d) = 48 + d mod 10"
proof -
  have "(48 + d mod 10) mod 256 = 48 + d mod 10"
    by (rule mod_less) (use mod_less_divisor [of 10 d] in linarith)
  then show ?thesis by (simp add: digit_char_def)
qed

lemma digit_val_digit_char [simp]: "digit_val (digit_char d) = d mod 10"
  by (simp add: digit_val_def)

lemma is_ascii_digit_digit_char [simp]: "is_ascii_digit (digit_char d)"
proof -
  have "d mod 10 < 10" by simp
  then show ?thesis by (simp add: is_ascii_digit_def)
qed

lemma all_digits_show_nat [simp, number_simps]: "all_digits (show_nat n)"
proof (induction n rule: show_nat.induct)
  case (1 n)
  then show ?case by (subst show_nat.simps) (auto simp: all_digits_def)
qed

lemma show_nat_nonempty [simp]: "show_nat n \<noteq> []"
  using all_digits_show_nat all_digits_def by blast

lemma digits_value_snoc: "digits_value (s @ [c]) = digits_value s * 10 + digit_val c"
  by (simp add: digits_value_def)

lemma digits_value_show_nat [simp, number_simps]: "digits_value (show_nat n) = n"
proof (induction n rule: show_nat.induct)
  case (1 n)
  show ?case
  proof (cases "n < 10")
    case True
    then show ?thesis by (subst show_nat.simps) (simp add: digits_value_def)
  next
    case False
    then show ?thesis
      using 1 by (subst show_nat.simps) (simp add: digits_value_snoc)
  qed
qed

lemma show_nat_inj: "show_nat m = show_nat n \<Longrightarrow> m = n"
  by (metis digits_value_show_nat)

lemma all_digits_no_plus: "all_digits (c # cs) \<Longrightarrow> c \<noteq> CHR ''+''"
  by (auto simp: all_digits_def is_ascii_digit_def)

lemma parse_uint_digits:
  assumes "all_digits s"
  shows "parse_uint bits s = (if digits_value s < 2 ^ bits then Some (digits_value s) else None)"
proof -
  obtain c cs where s: "s = c # cs"
    using assms by (cases s) (auto simp: all_digits_def)
  then have "c \<noteq> CHR ''+''"
    using assms all_digits_no_plus by blast
  then show ?thesis
    using assms by (simp add: parse_uint_def s)
qed

lemma parse_uint_show_nat [number_simps]: "n < 2 ^ bits \<Longrightarrow> parse_uint bits (show_nat n) = Some n"
  by (simp add: parse_uint_digits)

lemma parse_uint_bound: "parse_uint bits s = Some n \<Longrightarrow> n < 2 ^ bits"
  by (auto simp: parse_uint_def Let_def split: if_splits)

lemma parse_u32_show_u32 [simp, number_simps]: "parse_u32 (show_u32 w) = Some w"
proof -
  have "unat w < 2 ^ 32"
    using unsigned_less [of w] by simp
  then show ?thesis
    by (simp only: parse_u32_def show_u32_def parse_uint_show_nat option.map of_nat_unat ucast_id)
qed

lemma parse_u64_show_u64 [simp, number_simps]: "parse_u64 (show_u64 w) = Some w"
proof -
  have "unat w < 2 ^ 64"
    using unsigned_less [of w] by simp
  then show ?thesis
    by (simp only: parse_u64_def show_u64_def parse_uint_show_nat option.map of_nat_unat ucast_id)
qed

lemma all_digits_show_u32 [simp]: "all_digits (show_u32 w)"
  by (simp add: show_u32_def)

lemma all_digits_show_u64 [simp]: "all_digits (show_u64 w)"
  by (simp add: show_u64_def)

lemma all_digits_word_ok: "all_digits s \<Longrightarrow> word_ok s"
  by (auto simp: all_digits_def word_ok_def list_all_iff digit_not_whitespace) (auto simp: is_ascii_digit_def)

section \<open>Debug formatting of strings\<close>

text \<open>The \<^verbatim>\<open>{:?}\<close> form of a string: quoted, with the escapes of \<^verbatim>\<open>str::escape_debug\<close> for ASCII.\<close>

definition hex_char :: "nat \<Rightarrow> char" where
  "hex_char d = char_of (if d < 10 then 48 + d else 87 + d)"

definition escape_debug_char :: "char \<Rightarrow> string" where
  "escape_debug_char c =
     (if c = quote_char \<or> c = backslash_char then [backslash_char, c]
      else if c = newline_char then [backslash_char, CHR ''n'']
      else if c = return_char then [backslash_char, CHR ''r'']
      else if c = tab_char then [backslash_char, CHR ''t'']
      else if c = nul_char then [backslash_char, CHR ''0'']
      else if byte c < 16 then [backslash_char] @ ''u{'' @ [hex_char (byte c)] @ ''}''
      else if byte c < 32 \<or> byte c = 127
      then [backslash_char] @ ''u{'' @ [hex_char (byte c div 16), hex_char (byte c mod 16)] @ ''}''
      else [c])"

definition debug_str :: "string \<Rightarrow> string" where
  "debug_str s = [quote_char] @ concat (map escape_debug_char s) @ [quote_char]"

definition usize_max :: nat where "usize_max = 2 ^ 64 - 1"
definition isize_max :: nat where "isize_max = 2 ^ 63 - 1"

definition usize_saturating_add :: "nat \<Rightarrow> nat \<Rightarrow> nat" where
  "usize_saturating_add a b = min (a + b) usize_max"

section \<open>Checked and saturating arithmetic\<close>

text \<open>\<^verbatim>\<open>checked_add\<close>, \<^verbatim>\<open>checked_mul\<close>, \<^verbatim>\<open>saturating_add\<close>, \<^verbatim>\<open>saturating_sub\<close> and
  \<^verbatim>\<open>saturating_mul\<close> of the unsigned integer types.\<close>

definition checked_add :: "'a::len word \<Rightarrow> 'a word \<Rightarrow> 'a word option" where
  "checked_add a b = (if unat a + unat b < 2 ^ LENGTH('a) then Some (a + b) else None)"

definition checked_mul :: "'a::len word \<Rightarrow> 'a word \<Rightarrow> 'a word option" where
  "checked_mul a b = (if unat a * unat b < 2 ^ LENGTH('a) then Some (a * b) else None)"

definition saturating_add :: "'a::len word \<Rightarrow> 'a word \<Rightarrow> 'a word" where
  "saturating_add a b = (if unat a + unat b < 2 ^ LENGTH('a) then a + b else - 1)"

definition saturating_sub :: "'a::len word \<Rightarrow> 'a word \<Rightarrow> 'a word" where
  "saturating_sub a b = (if a < b then 0 else a - b)"

definition saturating_mul :: "'a::len word \<Rightarrow> 'a word \<Rightarrow> 'a word" where
  "saturating_mul a b = (if unat a * unat b < 2 ^ LENGTH('a) then a * b else - 1)"

lemma unat_add_fits: "unat a + unat b < 2 ^ LENGTH('a) \<Longrightarrow> unat (a + b) = unat a + unat b"
  for a b :: "'a::len word"
  by (simp add: unat_word_ariths)

lemma unat_mul_fits: "unat a * unat b < 2 ^ LENGTH('a) \<Longrightarrow> unat (a * b) = unat a * unat b"
  for a b :: "'a::len word"
  by (simp add: unat_word_ariths)

lemma checked_add_Some [number_simps]:
  "checked_add a b = Some c \<longleftrightarrow> unat c = unat a + unat b"
  for a b c :: "'a::len word"
proof
  assume "unat c = unat a + unat b"
  moreover have "unat c < 2 ^ LENGTH('a)" by (rule unsigned_less)
  ultimately show "checked_add a b = Some c"
    by (simp add: checked_add_def unat_add_fits word_unat_eq_iff)
qed (auto simp: checked_add_def unat_add_fits split: if_splits)

lemma checked_mul_Some [number_simps]:
  "checked_mul a b = Some c \<longleftrightarrow> unat c = unat a * unat b"
  for a b c :: "'a::len word"
proof
  assume "unat c = unat a * unat b"
  moreover have "unat c < 2 ^ LENGTH('a)" by (rule unsigned_less)
  ultimately show "checked_mul a b = Some c"
    by (simp add: checked_mul_def unat_mul_fits word_unat_eq_iff)
qed (auto simp: checked_mul_def unat_mul_fits split: if_splits)

lemma checked_add_None [number_simps]:
  "checked_add a b = None \<longleftrightarrow> 2 ^ LENGTH('a) \<le> unat a + unat b"
  for a b :: "'a::len word"
  by (simp add: checked_add_def not_less)

lemma checked_mul_None [number_simps]:
  "checked_mul a b = None \<longleftrightarrow> 2 ^ LENGTH('a) \<le> unat a * unat b"
  for a b :: "'a::len word"
  by (simp add: checked_mul_def not_less)

lemma unat_saturating_add [number_simps]:
  "unat (saturating_add a b) = min (unat a + unat b) (2 ^ LENGTH('a) - 1)"
  for a b :: "'a::len word"
  by (auto simp: saturating_add_def unat_add_fits unsigned_minus_1_eq_mask mask_eq_exp_minus_1 min_def)

lemma unat_saturating_sub [number_simps]: "unat (saturating_sub a b) = unat a - unat b"
  by (auto simp: saturating_sub_def word_less_nat_alt unat_sub_if')

end
