(* ===== verification/Interfaces.thy ===== *)
theory Interfaces
  imports Prelude
begin

text \<open>
  The contracts several components share, as locales: a textual codec (print and parse), a state
  machine with an invariant, and a bounded byte log.  Each is interpreted on the model's own
  definitions in the theory of the component that provides it.
\<close>

section \<open>Print and parse\<close>

locale text_codec =
  fixes print :: "'a \<Rightarrow> string"
    and parse :: "string \<Rightarrow> ('e, 'a) result"
    and valid :: "'a \<Rightarrow> bool"
  assumes parse_print: "valid x \<Longrightarrow> parse (print x) = Inr x"
begin

lemma print_inj: "valid x \<Longrightarrow> valid y \<Longrightarrow> print x = print y \<Longrightarrow> x = y"
  by (metis parse_print sum.inject(2))

lemma reparse: "parse s = Inr x \<Longrightarrow> valid x \<Longrightarrow> parse (print x) = parse s"
  by (simp add: parse_print)

lemma parse_all_print_all:
  "list_all valid xs \<Longrightarrow> collect_results (map parse (map print xs)) = Inr xs"
  by (induction xs) (simp_all add: parse_print)

end

section \<open>Machines with an invariant\<close>

locale invariant_machine =
  fixes init :: "'s \<Rightarrow> bool"
    and step :: "'s \<Rightarrow> 's \<Rightarrow> bool"
    and inv :: "'s \<Rightarrow> bool"
  assumes inv_init: "init s \<Longrightarrow> inv s"
    and inv_step: "inv s \<Longrightarrow> step s t \<Longrightarrow> inv t"
begin

lemma rtranclp_inv: "step\<^sup>*\<^sup>* s t \<Longrightarrow> inv s \<Longrightarrow> inv t"
  by (induction rule: rtranclp_induct) (auto intro: inv_step)

lemma reachable_inv: "init s \<Longrightarrow> step\<^sup>*\<^sup>* s t \<Longrightarrow> inv t"
  by (rule rtranclp_inv) (auto intro: inv_init)

lemma relpowp_inv: "init s \<Longrightarrow> (step ^^ k) s t \<Longrightarrow> inv t"
  by (rule reachable_inv) (auto dest: relpowp_imp_rtranclp)

end

section \<open>Bounded byte logs\<close>

text \<open>
  What a client of an output buffer relies on: the buffer keeps the most recent
  \<open>capacity\<close> bytes of everything written to it, in order, and reports whether older
  bytes were dropped.
\<close>

definition last_n :: "nat \<Rightarrow> 'a list \<Rightarrow> 'a list" where
  "last_n n xs = drop (length xs - n) xs"

lemma length_last_n [simp]: "length (last_n n xs) = min n (length xs)"
  by (simp add: last_n_def)

lemma last_n_all [simp]: "length xs \<le> n \<Longrightarrow> last_n n xs = xs"
  by (simp add: last_n_def)

lemma last_n_0 [simp]: "last_n 0 xs = []"
  by (simp add: last_n_def)

lemma last_n_append: "last_n n (last_n n xs @ ys) = last_n n (xs @ ys)"
  by (cases "length xs \<le> n") (simp_all add: last_n_def add.commute)

lemma last_n_append_right: "n \<le> length ys \<Longrightarrow> last_n n (xs @ ys) = last_n n ys"
  by (auto simp: last_n_def drop_append)

lemma last_n_last_n: "m \<le> n \<Longrightarrow> last_n m (last_n n xs) = last_n m xs"
  by (cases "length xs \<le> n") (simp_all add: last_n_def)

locale bounded_log =
  fixes max_capacity :: nat
    and empty_log :: "nat \<Rightarrow> 'b"
    and push :: "'b \<Rightarrow> 'a list \<Rightarrow> 'b"
    and contents :: "'b \<Rightarrow> 'a list"
    and dropped :: "'b \<Rightarrow> bool"
    and capacity :: "'b \<Rightarrow> nat"
    and wf :: "'b \<Rightarrow> bool"
  assumes wf_empty: "n \<le> max_capacity \<Longrightarrow> wf (empty_log n)"
    and capacity_empty: "capacity (empty_log n) = n"
    and contents_empty: "contents (empty_log n) = []"
    and dropped_empty: "\<not> dropped (empty_log n)"
    and wf_push: "wf b \<Longrightarrow> wf (push b xs)"
    and capacity_push: "wf b \<Longrightarrow> capacity (push b xs) = capacity b"
    and contents_push: "wf b \<Longrightarrow> contents (push b xs) = last_n (capacity b) (contents b @ xs)"
    and dropped_push:
      "wf b \<Longrightarrow> dropped (push b xs) \<longleftrightarrow> dropped b \<or> capacity b < length (contents b @ xs)"
begin

definition push_all :: "'b \<Rightarrow> 'a list list \<Rightarrow> 'b" where
  "push_all b xss = foldl push b xss"

lemma wf_push_all: "wf b \<Longrightarrow> wf (push_all b xss) \<and> capacity (push_all b xss) = capacity b"
  by (induction xss arbitrary: b) (auto simp: push_all_def wf_push capacity_push)

lemma contents_push_all:
  "wf b \<Longrightarrow> length (contents b) \<le> capacity b \<Longrightarrow>
   contents (push_all b xss) = last_n (capacity b) (contents b @ concat xss)"
proof (induction xss arbitrary: b)
  case Nil
  then show ?case by (simp add: push_all_def)
next
  case (Cons xs xss)
  have "contents (push_all (push b xs) xss) =
      last_n (capacity b) (last_n (capacity b) (contents b @ xs) @ concat xss)"
    using Cons by (simp add: wf_push capacity_push contents_push)
  then show ?case
    using Cons.prems by (simp add: push_all_def last_n_append)
qed

lemma dropped_push_all:
  "wf b \<Longrightarrow> length (contents b) \<le> capacity b \<Longrightarrow>
   dropped (push_all b xss) \<longleftrightarrow> dropped b \<or> capacity b < length (contents b @ concat xss)"
proof (induction xss arbitrary: b)
  case Nil
  then show ?case by (simp add: push_all_def)
next
  case (Cons xs xss)
  have "dropped (push_all (push b xs) xss) \<longleftrightarrow>
      dropped (push b xs) \<or> capacity b < length (last_n (capacity b) (contents b @ xs) @ concat xss)"
    using Cons by (simp add: wf_push capacity_push contents_push)
  then show ?case
    using Cons.prems by (auto simp: push_all_def dropped_push)
qed

lemma contents_from_empty:
  "n \<le> max_capacity \<Longrightarrow> contents (push_all (empty_log n) xss) = last_n n (concat xss)"
  using contents_push_all [of "empty_log n" xss]
  by (simp add: wf_empty capacity_empty contents_empty)

lemma dropped_from_empty:
  "n \<le> max_capacity \<Longrightarrow> dropped (push_all (empty_log n) xss) \<longleftrightarrow> n < length (concat xss)"
  using dropped_push_all [of "empty_log n" xss]
  by (simp add: wf_empty capacity_empty contents_empty dropped_empty)

end

section \<open>Dictionaries\<close>

text \<open>
  What the clients of an ordered map rely on: lookup after insertion and removal, and an invariant
  every operation keeps.  The two bulk operations are the loops the program runs over it.
\<close>

locale dict =
  fixes empty_dict :: 'm
    and get :: "'m \<Rightarrow> 'k \<Rightarrow> 'v option"
    and put :: "'k \<Rightarrow> 'v \<Rightarrow> 'm \<Rightarrow> 'm"
    and del :: "'k \<Rightarrow> 'm \<Rightarrow> 'm"
    and inv :: "'m \<Rightarrow> bool"
  assumes inv_empty: "inv empty_dict"
    and get_empty: "get empty_dict k = None"
    and inv_put: "inv m \<Longrightarrow> inv (put k v m)"
    and get_put: "inv m \<Longrightarrow> get (put k v m) k' = (if k' = k then Some v else get m k')"
    and inv_del: "inv m \<Longrightarrow> inv (del k m)"
    and get_del: "inv m \<Longrightarrow> get (del k m) k' = (if k' = k then None else get m k')"
begin

definition put_all :: "'m \<Rightarrow> ('k \<times> 'v) list \<Rightarrow> 'm" where
  "put_all m kvs = foldl (\<lambda>m (k, v). put k v m) m kvs"

definition del_all :: "'m \<Rightarrow> 'k list \<Rightarrow> 'm" where
  "del_all m ks = foldl (\<lambda>m k. del k m) m ks"

lemma inv_put_all: "inv m \<Longrightarrow> inv (put_all m kvs)"
  unfolding put_all_def by (induction kvs arbitrary: m) (auto simp: inv_put split_beta)

lemma get_put_all:
  "inv m \<Longrightarrow> get (put_all m kvs) k = (case map_of (rev kvs) k of Some v \<Rightarrow> Some v | None \<Rightarrow> get m k)"
  unfolding put_all_def
  by (induction kvs arbitrary: m) (auto simp: inv_put get_put split_beta map_add_def split: option.splits)

lemma inv_del_all: "inv m \<Longrightarrow> inv (del_all m ks)"
  unfolding del_all_def by (induction ks arbitrary: m) (auto simp: inv_del)

lemma get_del_all: "inv m \<Longrightarrow> get (del_all m ks) k = (if k \<in> set ks then None else get m k)"
  unfolding del_all_def by (induction ks arbitrary: m) (auto simp: inv_del get_del)

end

end
