(* ===== verification/Ids.thy ===== *)
theory Ids
  imports Interfaces
begin

text \<open>
  Entity identifiers (\<^verbatim>\<open>crates/cue-core/src/id.rs\<close>): the numbered ids of jobs, crons, chains
  and scripts, the content hash of a scope, their printed forms and \<^verbatim>\<open>FromStr\<close>
  parsers.  The 32 bytes of a scope hash are an 8-bit word list.
\<close>

datatype job_id = JobId u32
datatype cron_id = CronId u32
datatype chain_id = ChainId u32
datatype script_id = ScriptId u32
datatype scope_hash = ScopeHash "8 word list"

record parse_id_error =
  pie_kind :: string
  pie_input :: string

datatype entity_ref = JobRef job_id | CronRef cron_id | ScopeRef scope_hash

fun show_job_id :: "job_id \<Rightarrow> string" where
  "show_job_id (JobId n) = ''J'' @ show_u32 n"

fun show_cron_id :: "cron_id \<Rightarrow> string" where
  "show_cron_id (CronId n) = ''C'' @ show_u32 n"

fun show_chain_id :: "chain_id \<Rightarrow> string" where
  "show_chain_id (ChainId n) = ''CH'' @ show_u32 n"

fun show_script_id :: "script_id \<Rightarrow> string" where
  "show_script_id (ScriptId n) = ''R'' @ show_u32 n"

definition hex_digit :: "nat \<Rightarrow> char" where
  "hex_digit d = char_of (if d < 10 then 48 + d else 87 + d)"

definition hex_byte :: "8 word \<Rightarrow> string" where
  "hex_byte b = [hex_digit (unat b div 16), hex_digit (unat b mod 16)]"

text \<open>The display form shows the first four bytes.\<close>

fun show_scope_hash :: "scope_hash \<Rightarrow> string" where
  "show_scope_hash (ScopeHash bs) = ''S@'' @ concat (map hex_byte (take 4 bs))"

fun show_entity_ref :: "entity_ref \<Rightarrow> string" where
  "show_entity_ref (JobRef i) = show_job_id i"
| "show_entity_ref (CronRef i) = show_cron_id i"
| "show_entity_ref (ScopeRef h) = show_scope_hash h"

definition show_parse_id_error :: "parse_id_error \<Rightarrow> string" where
  "show_parse_id_error e = ''invalid '' @ pie_kind e @ '' id '' @ pie_input e"

definition parse_prefixed_id :: "string \<Rightarrow> string \<Rightarrow> string \<Rightarrow> (parse_id_error, u32) result" where
  "parse_prefixed_id input pre kind =
     (let err = \<lparr>pie_kind = kind, pie_input = input\<rparr>
      in case strip_prefix pre input of
           None \<Rightarrow> Inl err
         | Some digits \<Rightarrow>
             if digits = [] \<or> \<not> list_all is_ascii_digit digits then Inl err
             else ok_or (parse_u32 digits) err)"

definition parse_job_id :: "string \<Rightarrow> (parse_id_error, job_id) result" where
  "parse_job_id input = map_sum id JobId (parse_prefixed_id input ''J'' ''job'')"

definition parse_cron_id :: "string \<Rightarrow> (parse_id_error, cron_id) result" where
  "parse_cron_id input = map_sum id CronId (parse_prefixed_id input ''C'' ''cron'')"

definition parse_chain_id :: "string \<Rightarrow> (parse_id_error, chain_id) result" where
  "parse_chain_id input = map_sum id ChainId (parse_prefixed_id input ''CH'' ''chain'')"

definition parse_script_id :: "string \<Rightarrow> (parse_id_error, script_id) result" where
  "parse_script_id input = map_sum id ScriptId (parse_prefixed_id input ''R'' ''script'')"

text \<open>Ids are ordered by their number, as the derived \<^verbatim>\<open>Ord\<close> has it.\<close>

instantiation job_id :: linorder
begin

fun less_eq_job_id :: "job_id \<Rightarrow> job_id \<Rightarrow> bool" where
  "less_eq_job_id (JobId a) (JobId b) = (a \<le> b)"

fun less_job_id :: "job_id \<Rightarrow> job_id \<Rightarrow> bool" where
  "less_job_id (JobId a) (JobId b) = (a < b)"

instance
proof
  fix x y z :: job_id
  show "(x < y) = (x \<le> y \<and> \<not> y \<le> x)" by (cases x; cases y) auto
  show "x \<le> x" by (cases x) auto
  show "x \<le> y \<Longrightarrow> y \<le> z \<Longrightarrow> x \<le> z" by (cases x; cases y; cases z) auto
  show "x \<le> y \<Longrightarrow> y \<le> x \<Longrightarrow> x = y" by (cases x; cases y) auto
  show "x \<le> y \<or> y \<le> x" by (cases x; cases y) auto
qed

end

lemmas parse_id_defs = parse_job_id_def parse_cron_id_def parse_chain_id_def parse_script_id_def

section \<open>Round trips\<close>

lemma parse_prefixed_id_show: "parse_prefixed_id (p @ show_u32 n) p k = Inr n"
  using all_digits_show_u32 [of n]
  by (auto simp: parse_prefixed_id_def Let_def all_digits_def)

interpretation job_codec: text_codec show_job_id parse_job_id "\<lambda>_. True"
proof
  show "parse_job_id (show_job_id x) = Inr x" for x
    using parse_prefixed_id_show [of "''J''"] by (cases x) (simp add: parse_job_id_def)
qed

interpretation cron_codec: text_codec show_cron_id parse_cron_id "\<lambda>_. True"
proof
  show "parse_cron_id (show_cron_id x) = Inr x" for x
    using parse_prefixed_id_show [of "''C''"] by (cases x) (simp add: parse_cron_id_def)
qed

interpretation chain_codec: text_codec show_chain_id parse_chain_id "\<lambda>_. True"
proof
  show "parse_chain_id (show_chain_id x) = Inr x" for x
    using parse_prefixed_id_show [of "''CH''"] by (cases x) (simp add: parse_chain_id_def)
qed

interpretation script_codec: text_codec show_script_id parse_script_id "\<lambda>_. True"
proof
  show "parse_script_id (show_script_id x) = Inr x" for x
    using parse_prefixed_id_show [of "''R''"] by (cases x) (simp add: parse_script_id_def)
qed

lemma parse_prefixed_id_Inr_conv:
  "parse_prefixed_id s p k = Inr n \<longleftrightarrow>
   (\<exists>d. s = p @ d \<and> all_digits d \<and> digits_value d < 2 ^ 32 \<and> n = of_nat (digits_value d))"
  (is "?l \<longleftrightarrow> ?r")
proof
  assume ?l
  then obtain d where "strip_prefix p s = Some d" "all_digits d" "parse_u32 d = Some n"
    by (auto simp: parse_prefixed_id_def Let_def all_digits_def ok_or_def
             split: option.splits if_splits)
  then show ?r
    by (auto dest!: strip_prefix_SomeD simp: parse_u32_def parse_uint_digits split: if_splits)
next
  assume ?r
  then show ?l
    by (auto simp: parse_prefixed_id_def Let_def parse_u32_def parse_uint_digits all_digits_def)
qed

lemma parse_prefixed_id_error:
  "parse_prefixed_id s p k = Inl e \<Longrightarrow> e = \<lparr>pie_kind = k, pie_input = s\<rparr>"
  by (auto simp: parse_prefixed_id_def Let_def ok_or_def split: option.splits if_splits)

lemma show_u32_head_digit:
  "\<exists>c cs. show_u32 n = c # cs \<and> is_ascii_digit c"
  using all_digits_show_u32 [of n] by (cases "show_u32 n") (auto simp: all_digits_def)

lemma not_digit_letters [simp]:
  "\<not> is_ascii_digit CHR ''H''" "\<not> is_ascii_digit CHR ''J''"
  "\<not> is_ascii_digit CHR ''C''" "\<not> is_ascii_digit CHR ''R''"
  by (simp_all add: is_ascii_digit_def)

text \<open>A chain id such as \<open>CH7\<close> starts with the prefix of a cron id, and is still no cron id.\<close>

lemma chain_id_not_cron_id: "\<exists>e. parse_cron_id (show_chain_id c) = Inl e"
  by (cases c) (simp add: parse_cron_id_def parse_prefixed_id_def strip_prefix_def)

lemma cron_id_not_chain_id: "\<exists>e. parse_chain_id (show_cron_id c) = Inl e"
proof (cases c)
  case (CronId n)
  obtain d ds where d: "show_u32 n = d # ds" "is_ascii_digit d"
    using show_u32_head_digit by blast
  then have "d \<noteq> CHR ''H''"
    by auto
  then show ?thesis
    using CronId d by (simp add: parse_chain_id_def parse_prefixed_id_def strip_prefix_def)
qed

text \<open>
  Identifiers round-trip and their spellings do not overlap: every job, cron, chain and
  script id is parsed back from its printed form, a string is accepted as a job id exactly when
  it is \<open>J\<close> followed by digits whose value fits 32 bits (so \<open>J+1\<close>, \<open>J\<close> and an overflowing
  number are errors that carry the input), and a printed chain id is never taken for a cron id
  or the other way round.
\<close>

theorem id_text_roundtrip:
  "parse_job_id (show_job_id j) = Inr j
   \<and> parse_cron_id (show_cron_id c) = Inr c
   \<and> parse_chain_id (show_chain_id h) = Inr h
   \<and> parse_script_id (show_script_id r) = Inr r
   \<and> (parse_job_id s = Inr (JobId n) \<longleftrightarrow>
        (\<exists>d. s = ''J'' @ d \<and> all_digits d \<and> digits_value d < 2 ^ 32
             \<and> n = of_nat (digits_value d)))
   \<and> ((\<exists>n. parse_job_id s = Inr n) \<or> parse_job_id s = Inl \<lparr>pie_kind = ''job'', pie_input = s\<rparr>)
   \<and> (\<exists>e. parse_cron_id (show_chain_id h) = Inl e)
   \<and> (\<exists>e. parse_chain_id (show_cron_id c) = Inl e)"
proof -
  have "parse_job_id s = Inr (JobId n) \<longleftrightarrow> parse_prefixed_id s ''J'' ''job'' = Inr n"
    by (cases "parse_prefixed_id s ''J'' ''job''") (auto simp: parse_job_id_def)
  then have a: "parse_job_id s = Inr (JobId n) \<longleftrightarrow>
      (\<exists>d. s = ''J'' @ d \<and> all_digits d \<and> digits_value d < 2 ^ 32
           \<and> n = of_nat (digits_value d))"
    by (simp only: parse_prefixed_id_Inr_conv)
  have b: "(\<exists>n. parse_job_id s = Inr n)
      \<or> parse_job_id s = Inl \<lparr>pie_kind = ''job'', pie_input = s\<rparr>"
    by (cases "parse_prefixed_id s ''J'' ''job''")
       (auto simp: parse_job_id_def dest: parse_prefixed_id_error)
  show ?thesis
    using a b job_codec.parse_print cron_codec.parse_print chain_codec.parse_print
      script_codec.parse_print chain_id_not_cron_id cron_id_not_chain_id
    by simp
qed

end
