(* ===== verification/Pipeline.thy ===== *)
theory Pipeline
  imports Ids
begin

text \<open>
  Job plans and chains (\<^verbatim>\<open>crates/cue-core/src/pipeline.rs\<close>): the processes of one job, the
  tree that composes jobs, their printed forms, and the guess whether a command wants the
  foreground.
\<close>

datatype pipe_op = PipeStdoutOp | PipeStdoutStderrOp | PipeStderrOnlyOp

record pipe_segment =
  ps_command :: "string list"
  ps_pipe_to_next :: "pipe_op option"

record pipeline =
  segments :: "pipe_segment list"

datatype job_plan =
    PipelinePlan pipeline
  | AndPlan job_plan job_plan
  | OrPlan job_plan job_plan

datatype serial_op = Then | Always
datatype parallel_op = AllOp | RaceOp

datatype chain_node =
    Leaf job_plan
  | Serial chain_node serial_op chain_node
  | Parallel chain_node parallel_op chain_node

datatype chain_status = ChainRunning | ChainDone | ChainFailed | ChainAborted_status

definition simple_pipeline :: "string list \<Rightarrow> pipeline" where
  "simple_pipeline command =
     \<lparr>segments = [\<lparr>ps_command = command, ps_pipe_to_next = None\<rparr>]\<rparr>"

fun show_pipe_op :: "pipe_op \<Rightarrow> string" where
  "show_pipe_op PipeStdoutOp = ''|>''"
| "show_pipe_op PipeStdoutStderrOp = ''|&>''"
| "show_pipe_op PipeStderrOnlyOp = ''|!>''"

fun show_serial_op :: "serial_op \<Rightarrow> string" where
  "show_serial_op Then = ''->''"
| "show_serial_op Always = ''~>''"

fun show_parallel_op :: "parallel_op \<Rightarrow> string" where
  "show_parallel_op AllOp = ''|||''"
| "show_parallel_op RaceOp = ''|?|''"

definition show_segment :: "pipe_segment \<Rightarrow> string" where
  "show_segment s =
     (case ps_pipe_to_next s of
        Some op \<Rightarrow> join '' '' (ps_command s) @ '' '' @ show_pipe_op op
      | None \<Rightarrow> join '' '' (ps_command s))"

text \<open>The loop writes a blank before every segment but the first.\<close>

fun show_segments_from :: "nat \<Rightarrow> pipe_segment list \<Rightarrow> string" where
  "show_segments_from idx [] = []"
| "show_segments_from idx (s # ss) =
     (if idx > 0 then '' '' else []) @ show_segment s @ show_segments_from (Suc idx) ss"

definition show_pipeline :: "pipeline \<Rightarrow> string" where
  "show_pipeline p = show_segments_from 0 (segments p)"

fun show_job_plan :: "job_plan \<Rightarrow> string" where
  "show_job_plan (PipelinePlan p) = show_pipeline p"
| "show_job_plan (AndPlan l r) = show_job_plan l @ '' && '' @ show_job_plan r"
| "show_job_plan (OrPlan l r) = show_job_plan l @ '' || '' @ show_job_plan r"

fun show_chain_node :: "chain_node \<Rightarrow> string" where
  "show_chain_node (Leaf p) = show_job_plan p"
| "show_chain_node (Serial l op r) =
     show_chain_node l @ '' '' @ show_serial_op op @ '' '' @ show_chain_node r"
| "show_chain_node (Parallel l op r) =
     show_chain_node l @ '' '' @ show_parallel_op op @ '' '' @ show_chain_node r"

text \<open>
  \<^verbatim>\<open>Path::file_name\<close> on Unix: the last component that is neither empty nor
  \<^verbatim>\<open>.\<close>, unless it is \<^verbatim>\<open>..\<close>.
\<close>

definition path_file_name :: "string \<Rightarrow> string option" where
  "path_file_name p =
     (let cs = filter (\<lambda>c. c \<noteq> [] \<and> c \<noteq> ''.'') (split_on (CHR ''/'') p)
      in if cs = [] \<or> last cs = ''..'' then None else Some (last cs))"

definition command_prefers_foreground :: "string list \<Rightarrow> bool" where
  "command_prefers_foreground command_line =
     (case command_line of
        [] \<Rightarrow> False
      | command_word # args \<Rightarrow>
          let command = (case path_file_name command_word of Some n \<Rightarrow> n | None \<Rightarrow> command_word)
          in if command \<in> set [''vim'', ''nvim'', ''vi'', ''nano'', ''less'', ''more'', ''man'',
                 ''top'', ''htop'', ''watch'', ''fzf'', ''tig'', ''lazygit'', ''tmux'', ''zellij'']
             then True
             else if command \<in> set [''bash'', ''zsh'', ''sh'', ''fish'']
             then args = [] \<or> ''-i'' \<in> set args \<or> ''--interactive'' \<in> set args \<or> ''-l'' \<in> set args
             else if command \<in> set [''python'', ''python3'', ''node'', ''ipython'', ''bpython'', ''irb'']
             then args = [] \<or> hd args = ''-i'' \<or> hd args = ''--interactive''
             else command \<in> set [''ssh'', ''psql'', ''mysql'', ''sqlite3''])"

definition simple_plan :: "string list \<Rightarrow> job_plan" where
  "simple_plan command = PipelinePlan (simple_pipeline command)"

fun first_command :: "job_plan \<Rightarrow> string list" where
  "first_command (PipelinePlan p) = (case segments p of [] \<Rightarrow> [] | s # _ \<Rightarrow> ps_command s)"
| "first_command (AndPlan l r) = first_command l"
| "first_command (OrPlan l r) = first_command l"

fun collect_pipelines :: "job_plan \<Rightarrow> pipeline list \<Rightarrow> pipeline list" where
  "collect_pipelines (PipelinePlan p) acc = acc @ [p]"
| "collect_pipelines (AndPlan l r) acc = collect_pipelines r (collect_pipelines l acc)"
| "collect_pipelines (OrPlan l r) acc = collect_pipelines r (collect_pipelines l acc)"

definition pipelines :: "job_plan \<Rightarrow> pipeline list" where
  "pipelines p = collect_pipelines p []"

fun leaf_count :: "chain_node \<Rightarrow> nat" where
  "leaf_count (Leaf _) = 1"
| "leaf_count (Serial l _ r) = leaf_count l + leaf_count r"
| "leaf_count (Parallel l _ r) = leaf_count l + leaf_count r"

lemma leaf_count_pos [simp]: "0 < leaf_count n"
  by (induction n) auto

lemma leaf_count_neq_0 [simp]: "leaf_count n \<noteq> 0"
  using leaf_count_pos [of n] by linarith

lemma collect_pipelines_append:
  "collect_pipelines p (xs @ ys) = xs @ collect_pipelines p ys"
  by (induction p arbitrary: ys) simp_all

lemma pipelines_simps [simp]:
  "pipelines (PipelinePlan p) = [p]"
  "pipelines (AndPlan l r) = pipelines l @ pipelines r"
  "pipelines (OrPlan l r) = pipelines l @ pipelines r"
  using collect_pipelines_append [of r "collect_pipelines l []" "[]"]
  by (simp_all add: pipelines_def)

lemma first_command_pipelines:
  "first_command p = first_command (PipelinePlan (hd (pipelines p)))"
proof (induction p)
  case (AndPlan l r)
  moreover have "pipelines l \<noteq> []" by (induction l) simp_all
  ultimately show ?case by simp
next
  case (OrPlan l r)
  moreover have "pipelines l \<noteq> []" by (induction l) simp_all
  ultimately show ?case by simp
qed simp

lemma show_segments_from_join:
  "show_segments_from (Suc n) ss = concat (map (\<lambda>s. '' '' @ show_segment s) ss)"
  by (induction ss arbitrary: n) simp_all

lemma show_pipeline_join: "show_pipeline p = join '' '' (map show_segment (segments p))"
proof -
  have "show_segments_from 0 ss = join '' '' (map show_segment ss)" for ss
  proof (induction ss)
    case (Cons s ss)
    then show ?case
      by (cases ss) (simp_all add: show_segments_from_join)
  qed simp
  then show ?thesis by (simp add: show_pipeline_def)
qed

end
