(* ===== verification/Chain.thy ===== *)
theory Chain
  imports Pipeline
begin

text \<open>
  The pure chain scheduler (\<^verbatim>\<open>crates/cue-core/src/chain.rs\<close>): flattening a chain tree into
  numbered leaves, the leaves that may start at once, and the transition a terminal leaf
  triggers.  A \<^verbatim>\<open>HashMap<usize, LeafStatus>\<close> is a partial map; the vectors the code
  pushes to are threaded as the last argument, as the \<^verbatim>\<open>&mut\<close> parameters are.
\<close>

definition EXIT_CODE_UNAVAILABLE :: i32 where
  "EXIT_CODE_UNAVAILABLE = -1"

datatype leaf_status = LPending | LRunning | LDone i32 | LFailed i32 | LCancelled

fun leaf_is_terminal :: "leaf_status \<Rightarrow> bool" where
  "leaf_is_terminal (LDone _) = True"
| "leaf_is_terminal (LFailed _) = True"
| "leaf_is_terminal LCancelled = True"
| "leaf_is_terminal _ = False"

type_synonym statuses = "nat \<rightharpoonup> leaf_status"

record flat_leaf =
  fl_index :: nat
  fl_plan :: job_plan
  fl_pipeline_text :: string

definition flat_leaf_command :: "flat_leaf \<Rightarrow> string list" where
  "flat_leaf_command l = first_command (fl_plan l)"

record chain_transition =
  newly_ready :: "nat list"
  to_cancel :: "nat list"

definition empty_transition :: chain_transition where
  "empty_transition = \<lparr>newly_ready = [], to_cancel = []\<rparr>"

definition push_ready :: "nat \<Rightarrow> chain_transition \<Rightarrow> chain_transition" where
  "push_ready i t = t\<lparr>newly_ready := newly_ready t @ [i]\<rparr>"

definition push_cancel :: "nat \<Rightarrow> chain_transition \<Rightarrow> chain_transition" where
  "push_cancel i t = t\<lparr>to_cancel := to_cancel t @ [i]\<rparr>"

fun flatten_leaves_inner :: "chain_node \<Rightarrow> flat_leaf list \<Rightarrow> flat_leaf list" where
  "flatten_leaves_inner (Leaf plan) out =
     out @ [\<lparr>fl_index = length out, fl_plan = plan, fl_pipeline_text = show_job_plan plan\<rparr>]"
| "flatten_leaves_inner (Serial l _ r) out = flatten_leaves_inner r (flatten_leaves_inner l out)"
| "flatten_leaves_inner (Parallel l _ r) out = flatten_leaves_inner r (flatten_leaves_inner l out)"

definition flatten_leaves :: "chain_node \<Rightarrow> flat_leaf list" where
  "flatten_leaves node = flatten_leaves_inner node []"

fun initially_ready_inner :: "chain_node \<Rightarrow> nat \<Rightarrow> nat list \<Rightarrow> nat list" where
  "initially_ready_inner (Leaf _) offset ready = ready @ [offset]"
| "initially_ready_inner (Serial l _ _) offset ready = initially_ready_inner l offset ready"
| "initially_ready_inner (Parallel l _ r) offset ready =
     initially_ready_inner r (offset + leaf_count l) (initially_ready_inner l offset ready)"

definition initially_ready :: "chain_node \<Rightarrow> nat list" where
  "initially_ready node = initially_ready_inner node 0 []"

definition all_indices_succeeded :: "nat list \<Rightarrow> statuses \<Rightarrow> bool" where
  "all_indices_succeeded indices st = list_all (\<lambda>i. st i = Some (LDone 0)) indices"

fun all_leaves_terminal :: "chain_node \<Rightarrow> nat \<Rightarrow> statuses \<Rightarrow> bool" where
  "all_leaves_terminal (Leaf _) offset st =
     (case st offset of Some s \<Rightarrow> leaf_is_terminal s | None \<Rightarrow> False)"
| "all_leaves_terminal (Serial l _ r) offset st =
     (all_leaves_terminal l offset st \<and> all_leaves_terminal r (offset + leaf_count l) st)"
| "all_leaves_terminal (Parallel l _ r) offset st =
     (all_leaves_terminal l offset st \<and> all_leaves_terminal r (offset + leaf_count l) st)"

definition is_chain_terminal :: "chain_node \<Rightarrow> statuses \<Rightarrow> bool" where
  "is_chain_terminal node st = all_leaves_terminal node 0 st"

fun all_leaves_succeeded :: "chain_node \<Rightarrow> nat \<Rightarrow> statuses \<Rightarrow> bool" where
  "all_leaves_succeeded (Leaf _) offset st = (st offset = Some (LDone 0))"
| "all_leaves_succeeded (Serial l _ r) offset st =
     (all_leaves_succeeded l offset st \<and> all_leaves_succeeded r (offset + leaf_count l) st)"
| "all_leaves_succeeded (Parallel l _ r) offset st =
     (all_leaves_succeeded l offset st \<and> all_leaves_succeeded r (offset + leaf_count l) st)"

fun mark_ready :: "chain_node \<Rightarrow> nat \<Rightarrow> statuses \<Rightarrow> chain_transition \<Rightarrow> chain_transition" where
  "mark_ready (Leaf _) offset st t =
     (if st offset = Some LPending \<or> st offset = None then push_ready offset t else t)"
| "mark_ready (Serial l _ _) offset st t = mark_ready l offset st t"
| "mark_ready (Parallel l _ r) offset st t =
     mark_ready r (offset + leaf_count l) st (mark_ready l offset st t)"

fun mark_cancelled :: "chain_node \<Rightarrow> nat \<Rightarrow> statuses \<Rightarrow> chain_transition \<Rightarrow> chain_transition" where
  "mark_cancelled (Leaf _) offset st t =
     (if st offset = Some LPending \<or> st offset = None then push_cancel offset t else t)"
| "mark_cancelled (Serial l _ r) offset st t =
     mark_cancelled r (offset + leaf_count l) st (mark_cancelled l offset st t)"
| "mark_cancelled (Parallel l _ r) offset st t =
     mark_cancelled r (offset + leaf_count l) st (mark_cancelled l offset st t)"

text \<open>The race loop: push every index of the losing range that has a status and is not terminal.\<close>

fun cancel_unfinished :: "nat list \<Rightarrow> statuses \<Rightarrow> chain_transition \<Rightarrow> chain_transition" where
  "cancel_unfinished [] st t = t"
| "cancel_unfinished (i # is) st t =
     cancel_unfinished is st
       (if (case st i of None \<Rightarrow> True | Some s \<Rightarrow> leaf_is_terminal s) then t else push_cancel i t)"

fun advance_inner ::
  "chain_node \<Rightarrow> nat \<Rightarrow> nat \<Rightarrow> statuses \<Rightarrow> chain_transition \<Rightarrow> chain_transition" where
  "advance_inner (Leaf _) offset fin st t = t"
| "advance_inner (Serial l op r) offset fin st t =
     (let left_count = leaf_count l; right_offset = offset + left_count
      in if offset \<le> fin \<and> fin < offset + left_count then
           let t1 = advance_inner l offset fin st t
           in if all_leaves_terminal l offset st then
                (case op of
                   Then \<Rightarrow>
                     if all_leaves_succeeded l offset st
                     then mark_ready r right_offset st t1
                     else mark_cancelled r right_offset st t1
                 | Always \<Rightarrow> mark_ready r right_offset st t1)
              else t1
         else advance_inner r right_offset fin st t)"
| "advance_inner (Parallel l op r) offset fin st t =
     (let left_count = leaf_count l; right_offset = offset + left_count;
          t1 = (if fin < right_offset then advance_inner l offset fin st t
                else advance_inner r right_offset fin st t)
      in if op = RaceOp then
           let right_count = leaf_count r;
               left_ok = all_indices_succeeded [offset..<offset + left_count] st;
               right_ok = all_indices_succeeded [right_offset..<right_offset + right_count] st
           in if left_ok \<or> right_ok then
                cancel_unfinished
                  (if left_ok then [right_offset..<right_offset + right_count]
                   else [offset..<offset + left_count]) st t1
              else t1
         else t1)"

definition advance_chain :: "chain_node \<Rightarrow> nat \<Rightarrow> statuses \<Rightarrow> chain_transition" where
  "advance_chain node fin st = advance_inner node 0 fin st empty_transition"

fun aggregate_from :: "nat list \<Rightarrow> statuses \<Rightarrow> i32 \<Rightarrow> i32" where
  "aggregate_from [] st last_code = last_code"
| "aggregate_from (i # is) st last_code =
     (case st i of
        Some (LDone code) \<Rightarrow> aggregate_from is st code
      | Some (LFailed code) \<Rightarrow> code
      | Some LCancelled \<Rightarrow> EXIT_CODE_UNAVAILABLE
      | Some LPending \<Rightarrow> EXIT_CODE_UNAVAILABLE
      | Some LRunning \<Rightarrow> EXIT_CODE_UNAVAILABLE
      | None \<Rightarrow> EXIT_CODE_UNAVAILABLE)"

definition aggregate_chain_exit_code :: "chain_node \<Rightarrow> statuses \<Rightarrow> i32" where
  "aggregate_chain_exit_code node st = aggregate_from [0..<leaf_count node] st 0"

section \<open>What the recursions compute\<close>

definition leaf_range :: "chain_node \<Rightarrow> nat \<Rightarrow> nat set" where
  "leaf_range n off = {off..<off + leaf_count n}"

definition terminal_at :: "statuses \<Rightarrow> nat \<Rightarrow> bool" where
  "terminal_at st i \<longleftrightarrow> (case st i of Some s \<Rightarrow> leaf_is_terminal s | None \<Rightarrow> False)"

definition pending_at :: "statuses \<Rightarrow> nat \<Rightarrow> bool" where
  "pending_at st i \<longleftrightarrow> st i = Some LPending \<or> st i = None"

definition unfinished_at :: "statuses \<Rightarrow> nat \<Rightarrow> bool" where
  "unfinished_at st i \<longleftrightarrow> (case st i of Some s \<Rightarrow> \<not> leaf_is_terminal s | None \<Rightarrow> False)"

lemma leaf_range_simps [simp]:
  "leaf_range (Leaf p) off = {off}"
  "leaf_range (Serial l sop r) off = leaf_range l off \<union> leaf_range r (off + leaf_count l)"
  "leaf_range (Parallel l pop r) off = leaf_range l off \<union> leaf_range r (off + leaf_count l)"
  by (auto simp: leaf_range_def)

lemma leaf_range_mem: "i \<in> leaf_range n off \<longleftrightarrow> off \<le> i \<and> i < off + leaf_count n"
  by (auto simp: leaf_range_def)

lemma finite_leaf_range [simp]: "finite (leaf_range n off)"
  by (simp add: leaf_range_def)

lemma terminal_not_pending: "terminal_at st i \<Longrightarrow> \<not> pending_at st i"
  by (auto simp: terminal_at_def pending_at_def split: option.splits)

lemma done_terminal: "st i = Some (LDone c) \<Longrightarrow> terminal_at st i"
  by (simp add: terminal_at_def)

lemma all_leaves_terminal_iff:
  "all_leaves_terminal n off st \<longleftrightarrow> (\<forall>i\<in>leaf_range n off. terminal_at st i)"
  by (induction n arbitrary: off) (auto simp: terminal_at_def ball_Un)

lemma all_leaves_succeeded_iff:
  "all_leaves_succeeded n off st \<longleftrightarrow> (\<forall>i\<in>leaf_range n off. st i = Some (LDone 0))"
  by (induction n arbitrary: off) (auto simp: ball_Un)

lemma is_chain_terminal_iff:
  "is_chain_terminal n st \<longleftrightarrow> (\<forall>i<leaf_count n. terminal_at st i)"
  by (auto simp: is_chain_terminal_def all_leaves_terminal_iff leaf_range_def)

lemma all_indices_succeeded_iff:
  "all_indices_succeeded [off..<off + leaf_count n] st \<longleftrightarrow>
   (\<forall>i\<in>leaf_range n off. st i = Some (LDone 0))"
  by (simp add: all_indices_succeeded_def list_all_iff leaf_range_def)

subsection \<open>Flattening and the initially ready leaves\<close>

fun leaf_plans :: "chain_node \<Rightarrow> job_plan list" where
  "leaf_plans (Leaf p) = [p]"
| "leaf_plans (Serial l _ r) = leaf_plans l @ leaf_plans r"
| "leaf_plans (Parallel l _ r) = leaf_plans l @ leaf_plans r"

lemma length_leaf_plans [simp]: "length (leaf_plans n) = leaf_count n"
  by (induction n) simp_all

lemma upt_split: "[off..<off + (a + b)] = [off..<off + a] @ [off + a..<off + a + b]"
  using upt_add_eq_append [of off "off + a" b] by (simp add: add.assoc)

definition number_leaves :: "nat \<Rightarrow> job_plan list \<Rightarrow> flat_leaf list" where
  "number_leaves off ps =
     map (\<lambda>(i, p). \<lparr>fl_index = i, fl_plan = p, fl_pipeline_text = show_job_plan p\<rparr>)
       (zip [off..<off + length ps] ps)"

lemma number_leaves_append:
  "number_leaves off (ps @ qs) = number_leaves off ps @ number_leaves (off + length ps) qs"
proof -
  have "[off..<off + length (ps @ qs)] =
      [off..<off + length ps] @ [off + length ps..<off + length ps + length qs]"
    by (simp add: upt_split)
  then show ?thesis by (simp add: number_leaves_def)
qed

lemma length_number_leaves [simp]: "length (number_leaves off ps) = length ps"
  by (simp add: number_leaves_def)

lemma flatten_leaves_inner_eq:
  "flatten_leaves_inner n out = out @ number_leaves (length out) (leaf_plans n)"
proof (induction n arbitrary: out)
  case (Leaf p)
  then show ?case by (simp add: number_leaves_def)
qed (simp_all add: number_leaves_append)

lemma flatten_leaves_eq: "flatten_leaves n = number_leaves 0 (leaf_plans n)"
  by (simp add: flatten_leaves_def flatten_leaves_inner_eq)

text \<open>The leaves with no serial predecessor, left to right.\<close>

fun root_leaves :: "chain_node \<Rightarrow> nat \<Rightarrow> nat list" where
  "root_leaves (Leaf _) off = [off]"
| "root_leaves (Serial l _ _) off = root_leaves l off"
| "root_leaves (Parallel l _ r) off = root_leaves l off @ root_leaves r (off + leaf_count l)"

lemma initially_ready_inner_eq: "initially_ready_inner n off acc = acc @ root_leaves n off"
  by (induction n arbitrary: off acc) simp_all

lemma initially_ready_eq: "initially_ready n = root_leaves n 0"
  by (simp add: initially_ready_def initially_ready_inner_eq)

lemma root_leaves_range: "set (root_leaves n off) \<subseteq> leaf_range n off"
  by (induction n arbitrary: off) (auto simp: subset_iff)

lemma root_leaves_nonempty [simp]: "root_leaves n off \<noteq> []"
  by (induction n arbitrary: off) simp_all

lemma root_leaves_first: "hd (root_leaves n off) = off"
  by (induction n arbitrary: off) simp_all

lemma sorted_root_leaves: "sorted_wrt (<) (root_leaves n off)"
proof (induction n arbitrary: off)
  case (Parallel l pop r)
  have "x < y" if "x \<in> set (root_leaves l off)" "y \<in> set (root_leaves r (off + leaf_count l))" for x y
    using that root_leaves_range [of l off] root_leaves_range [of r "off + leaf_count l"]
    by (force simp: leaf_range_def)
  then show ?case
    using Parallel by (simp add: sorted_wrt_append)
qed simp_all

lemma distinct_root_leaves: "distinct (root_leaves n off)"
  using sorted_root_leaves [of n off] strict_sorted_iff by blast

subsection \<open>The transition of a finished leaf\<close>

lemma mark_ready_eq:
  "mark_ready n off st t =
   t\<lparr>newly_ready := newly_ready t @ filter (pending_at st) (root_leaves n off)\<rparr>"
  by (induction n arbitrary: off t) (simp_all add: push_ready_def pending_at_def)

lemma mark_cancelled_eq:
  "mark_cancelled n off st t =
   t\<lparr>to_cancel := to_cancel t @ filter (pending_at st) [off..<off + leaf_count n]\<rparr>"
proof (induction n arbitrary: off t)
  case (Leaf p)
  then show ?case by (simp add: push_cancel_def pending_at_def)
next
  case (Serial l sop r)
  then show ?case by (simp add: upt_split)
next
  case (Parallel l pop r)
  then show ?case by (simp add: upt_split)
qed

lemma cancel_unfinished_eq:
  "cancel_unfinished is st t = t\<lparr>to_cancel := to_cancel t @ filter (unfinished_at st) is\<rparr>"
  by (induction "is" arbitrary: t) (auto simp: push_cancel_def unfinished_at_def split: option.splits)

text \<open>The leaves one call adds to each of the two vectors.\<close>

fun ready_after :: "chain_node \<Rightarrow> nat \<Rightarrow> nat \<Rightarrow> statuses \<Rightarrow> nat list" where
  "ready_after (Leaf _) off fin st = []"
| "ready_after (Serial l op r) off fin st =
     (if fin \<in> leaf_range l off then
        ready_after l off fin st @
        (if all_leaves_terminal l off st \<and> (op = Always \<or> all_leaves_succeeded l off st)
         then filter (pending_at st) (root_leaves r (off + leaf_count l)) else [])
      else ready_after r (off + leaf_count l) fin st)"
| "ready_after (Parallel l op r) off fin st =
     (if fin < off + leaf_count l then ready_after l off fin st
      else ready_after r (off + leaf_count l) fin st)"

fun cancel_after :: "chain_node \<Rightarrow> nat \<Rightarrow> nat \<Rightarrow> statuses \<Rightarrow> nat list" where
  "cancel_after (Leaf _) off fin st = []"
| "cancel_after (Serial l op r) off fin st =
     (if fin \<in> leaf_range l off then
        cancel_after l off fin st @
        (if all_leaves_terminal l off st \<and> op = Then \<and> \<not> all_leaves_succeeded l off st
         then filter (pending_at st) [off + leaf_count l..<off + leaf_count l + leaf_count r] else [])
      else cancel_after r (off + leaf_count l) fin st)"
| "cancel_after (Parallel l op r) off fin st =
     (if fin < off + leaf_count l then cancel_after l off fin st
      else cancel_after r (off + leaf_count l) fin st) @
     (if op = RaceOp \<and> all_leaves_succeeded l off st
      then filter (unfinished_at st) [off + leaf_count l..<off + leaf_count l + leaf_count r]
      else if op = RaceOp \<and> all_leaves_succeeded r (off + leaf_count l) st
      then filter (unfinished_at st) [off..<off + leaf_count l] else [])"

lemma advance_inner_eq:
  "advance_inner n off fin st t =
   t\<lparr>newly_ready := newly_ready t @ ready_after n off fin st,
     to_cancel := to_cancel t @ cancel_after n off fin st\<rparr>"
proof (induction n arbitrary: off t)
  case (Leaf p)
  then show ?case by simp
next
  case (Serial l op r)
  then show ?case
    by (cases op) (simp_all add: Let_def leaf_range_mem mark_ready_eq mark_cancelled_eq)
next
  case (Parallel l op r)
  then show ?case
    by (simp add: Let_def cancel_unfinished_eq all_indices_succeeded_iff all_leaves_succeeded_iff)
qed

lemma advance_chain_ready [simp]: "newly_ready (advance_chain n fin st) = ready_after n 0 fin st"
  by (simp add: advance_chain_def advance_inner_eq empty_transition_def)

lemma advance_chain_cancel [simp]: "to_cancel (advance_chain n fin st) = cancel_after n 0 fin st"
  by (simp add: advance_chain_def advance_inner_eq empty_transition_def)

lemma ready_after_range:
  "i \<in> set (ready_after n off fin st) \<Longrightarrow> i \<in> leaf_range n off \<and> pending_at st i"
proof (induction n arbitrary: off)
  case (Serial l op r)
  then show ?case
    using root_leaves_range [of r "off + leaf_count l"] by (auto split: if_splits)
next
  case (Parallel l op r)
  then show ?case by (auto split: if_splits)
qed simp

lemma cancel_after_range:
  "i \<in> set (cancel_after n off fin st) \<Longrightarrow> i \<in> leaf_range n off \<and> \<not> terminal_at st i"
proof (induction n arbitrary: off)
  case (Serial l op r)
  then show ?case
    by (auto simp: leaf_range_mem dest: terminal_not_pending split: if_splits)
next
  case (Parallel l op r)
  then show ?case
    by (auto simp: leaf_range_mem unfinished_at_def terminal_at_def
             split: if_splits option.splits)
qed simp

lemma aggregate_from_zero:
  "(\<And>i. i \<in> set is \<Longrightarrow> st i = Some (LDone 0)) \<Longrightarrow> aggregate_from is st 0 = 0"
  by (induction "is") simp_all

lemma aggregate_from_first_failure:
  assumes "\<And>j. j \<in> set is \<Longrightarrow> \<exists>c. st j = Some (LDone c)" "st i = Some (LFailed code)"
  shows "aggregate_from (is @ i # js) st c0 = code"
  using assms by (induction "is" arbitrary: c0) force+

end
