(* ===== verification/ChainExec.thy ===== *)
theory ChainExec
  imports Chain
begin

text \<open>
  Executing a chain.  A leaf's \<^emph>\<open>gates\<close> are the leaves its serial operators put before it; the
  execution machine applies, to the map of leaf statuses, what the scheduler applies when a leaf
  ends: record the result, cancel the transition's \<open>to_cancel\<close> leaves, start its
  \<open>newly_ready\<close> ones (the scheduler adds waiting for resources and processes that cannot be
  killed, see the theory ChainQueue).
  The theorems: no leaf starts before its gates (ordering), every execution is finite, chains
  whose serial operators have plain left operands always complete, and the others can stall.
\<close>

section \<open>Gates\<close>

fun gate :: "chain_node \<Rightarrow> nat \<Rightarrow> nat \<Rightarrow> nat set" where
  "gate (Leaf _) off i = {}"
| "gate (Serial l _ r) off i =
     (if i < off + leaf_count l then gate l off i
      else leaf_range l off \<union> gate r (off + leaf_count l) i)"
| "gate (Parallel l _ r) off i =
     (if i < off + leaf_count l then gate l off i else gate r (off + leaf_count l) i)"

fun success_gate :: "chain_node \<Rightarrow> nat \<Rightarrow> nat \<Rightarrow> nat set" where
  "success_gate (Leaf _) off i = {}"
| "success_gate (Serial l op r) off i =
     (if i < off + leaf_count l then success_gate l off i
      else (if op = Then then leaf_range l off else {}) \<union> success_gate r (off + leaf_count l) i)"
| "success_gate (Parallel l _ r) off i =
     (if i < off + leaf_count l then success_gate l off i
      else success_gate r (off + leaf_count l) i)"

definition gates_open :: "chain_node \<Rightarrow> nat \<Rightarrow> statuses \<Rightarrow> nat \<Rightarrow> bool" where
  "gates_open n off st i \<longleftrightarrow>
     (\<forall>j\<in>gate n off i. terminal_at st j) \<and> (\<forall>j\<in>success_gate n off i. st j = Some (LDone 0))"

lemma gates_open_Serial:
  "gates_open (Serial l op r) off st i \<longleftrightarrow>
   (if i < off + leaf_count l then gates_open l off st i
    else (\<forall>j\<in>leaf_range l off. terminal_at st j)
       \<and> (op = Then \<longrightarrow> (\<forall>j\<in>leaf_range l off. st j = Some (LDone 0)))
       \<and> gates_open r (off + leaf_count l) st i)"
  by (auto simp: gates_open_def)

lemma gates_open_Parallel:
  "gates_open (Parallel l op r) off st i \<longleftrightarrow>
   (if i < off + leaf_count l then gates_open l off st i
    else gates_open r (off + leaf_count l) st i)"
  by (simp add: gates_open_def)

lemma root_no_gate: "i \<in> set (root_leaves n off) \<Longrightarrow> gate n off i = {} \<and> success_gate n off i = {}"
proof (induction n arbitrary: off)
  case (Serial l op r)
  then show ?case using root_leaves_range [of l off] by (auto simp: leaf_range_mem)
next
  case (Parallel l op r)
  then show ?case
    using root_leaves_range [of l off] root_leaves_range [of r "off + leaf_count l"]
    by (auto simp: leaf_range_mem subset_iff)
qed simp

lemma no_gate_root:
  "i \<in> leaf_range n off \<Longrightarrow> gate n off i = {} \<Longrightarrow> i \<in> set (root_leaves n off)"
proof (induction n arbitrary: off)
  case (Serial l op r)
  moreover have "leaf_range l off \<noteq> {}"
    by (auto simp: leaf_range_def)
  ultimately show ?case by (auto simp: leaf_range_mem split: if_splits)
next
  case (Parallel l op r)
  then show ?case by (auto simp: leaf_range_mem split: if_splits)
qed simp

lemma gates_open_root: "i \<in> set (root_leaves n off) \<Longrightarrow> gates_open n off st i"
  by (simp add: gates_open_def root_no_gate)

lemma ready_after_gates:
  "fin \<in> leaf_range n off \<Longrightarrow> gates_open n off st fin \<Longrightarrow>
   i \<in> set (ready_after n off fin st) \<Longrightarrow> gates_open n off st i"
proof (induction n arbitrary: off)
  case (Serial l op r)
  let ?o = "off + leaf_count l"
  show ?case
  proof (cases "fin \<in> leaf_range l off")
    case True
    then have lt: "fin < ?o" by (simp add: leaf_range_mem)
    consider "i \<in> set (ready_after l off fin st)"
      | "all_leaves_terminal l off st" "op = Always \<or> all_leaves_succeeded l off st"
        "i \<in> set (root_leaves r ?o)"
      using Serial.prems(3) True by (auto split: if_splits)
    then show ?thesis
    proof cases
      case 1
      then have "gates_open l off st i"
        using Serial.IH(1) Serial.prems(2) True lt by (simp add: gates_open_Serial)
      then show ?thesis
        using ready_after_range [OF 1] by (simp add: gates_open_Serial leaf_range_mem)
    next
      case 2
      then have "\<not> i < ?o"
        using root_leaves_range [of r ?o] by (auto simp: leaf_range_mem subset_iff)
      then show ?thesis
        using 2 gates_open_root [OF 2(3)]
        by (auto simp: gates_open_Serial all_leaves_terminal_iff all_leaves_succeeded_iff)
    qed
  next
    case False
    then have fr: "fin \<in> leaf_range r ?o" "\<not> fin < ?o"
      using Serial.prems(1) by (auto simp: leaf_range_mem)
    have ir: "i \<in> set (ready_after r ?o fin st)"
      using Serial.prems(3) False by simp
    then have "gates_open r ?o st i"
      using Serial.IH(2) [OF fr(1) _ ir] Serial.prems(2) fr(2) by (simp add: gates_open_Serial)
    then show ?thesis
      using Serial.prems(2) fr(2) ready_after_range [OF ir]
      by (simp add: gates_open_Serial leaf_range_mem)
  qed
next
  case (Parallel l op r)
  let ?o = "off + leaf_count l"
  show ?case
  proof (cases "fin < ?o")
    case True
    then have "fin \<in> leaf_range l off" "i \<in> set (ready_after l off fin st)"
      using Parallel.prems by (simp_all add: leaf_range_mem)
    then show ?thesis
      using Parallel.IH(1) Parallel.prems(2) True ready_after_range [of i l off fin st]
      by (simp add: gates_open_Parallel leaf_range_mem)
  next
    case False
    then have "fin \<in> leaf_range r ?o" "i \<in> set (ready_after r ?o fin st)"
      using Parallel.prems by (simp_all add: leaf_range_mem)
    then show ?thesis
      using Parallel.IH(2) Parallel.prems(2) False ready_after_range [of i r ?o fin st]
      by (simp add: gates_open_Parallel leaf_range_mem)
  qed
qed simp

section \<open>The execution machine\<close>

definition start_statuses :: "chain_node \<Rightarrow> statuses" where
  "start_statuses n = (\<lambda>i. if i \<in> set (initially_ready n) then Some LRunning
                           else if i < leaf_count n then Some LPending else None)"

definition apply_transition :: "chain_transition \<Rightarrow> statuses \<Rightarrow> statuses" where
  "apply_transition t st = (\<lambda>i. if i \<in> set (newly_ready t) then Some LRunning
                                else if i \<in> set (to_cancel t) then Some LCancelled else st i)"

definition finish_leaf :: "chain_node \<Rightarrow> nat \<Rightarrow> leaf_status \<Rightarrow> statuses \<Rightarrow> statuses" where
  "finish_leaf n i s st = (let st1 = st(i \<mapsto> s) in apply_transition (advance_chain n i st1) st1)"

definition cancel_whole :: "chain_node \<Rightarrow> statuses \<Rightarrow> statuses" where
  "cancel_whole n st = (\<lambda>i. if i < leaf_count n \<and> \<not> terminal_at st i then Some LCancelled else st i)"

text \<open>A running leaf ends (with an exit status, or cancelled by the user), or the user cancels
  the whole chain.\<close>

inductive chain_step :: "chain_node \<Rightarrow> statuses \<Rightarrow> statuses \<Rightarrow> bool" for n where
  finish: "st i = Some LRunning \<Longrightarrow> leaf_is_terminal s \<Longrightarrow> i < leaf_count n \<Longrightarrow>
     chain_step n st (finish_leaf n i s st)"
| cancel: "\<not> is_chain_terminal n st \<Longrightarrow> chain_step n st (cancel_whole n st)"

inductive_cases chain_stepE: "chain_step n st st'"

lemma finish_leaf_eq:
  "finish_leaf n i s st =
   (let st1 = st(i \<mapsto> s)
    in (\<lambda>j. if j \<in> set (ready_after n 0 i st1) then Some LRunning
            else if j \<in> set (cancel_after n 0 i st1) then Some LCancelled else st1 j))"
  by (simp add: finish_leaf_def apply_transition_def Let_def cong: if_cong)

lemma finish_leaf_keeps_terminal:
  assumes "terminal_at st j" "st i = Some LRunning"
  shows "finish_leaf n i s st j = st j"
proof -
  let ?st1 = "st(i \<mapsto> s)"
  have "j \<noteq> i" using assms by (auto simp: terminal_at_def)
  then have t: "terminal_at ?st1 j" using assms by (simp add: terminal_at_def)
  then have "j \<notin> set (ready_after n 0 i ?st1)" "j \<notin> set (cancel_after n 0 i ?st1)"
    using ready_after_range cancel_after_range terminal_not_pending by blast+
  then show ?thesis using \<open>j \<noteq> i\<close> by (simp add: finish_leaf_eq Let_def)
qed

lemma finish_leaf_self:
  assumes "leaf_is_terminal s"
  shows "finish_leaf n i s st i = Some s"
proof -
  let ?st1 = "st(i \<mapsto> s)"
  have t: "terminal_at ?st1 i" using assms by (simp add: terminal_at_def)
  then have "i \<notin> set (ready_after n 0 i ?st1)" "i \<notin> set (cancel_after n 0 i ?st1)"
    using ready_after_range cancel_after_range terminal_not_pending by blast+
  then show ?thesis by (simp add: finish_leaf_eq Let_def)
qed

lemma chain_step_keeps_terminal:
  "chain_step n st st' \<Longrightarrow> terminal_at st j \<Longrightarrow> st' j = st j"
  by (auto elim!: chain_stepE simp: finish_leaf_keeps_terminal cancel_whole_def)

section \<open>Ordering: gates are open for every started leaf\<close>

definition started :: "leaf_status option \<Rightarrow> bool" where
  "started s \<longleftrightarrow> (case s of Some LRunning \<Rightarrow> True | Some (LDone _) \<Rightarrow> True
                        | Some (LFailed _) \<Rightarrow> True | _ \<Rightarrow> False)"

definition order_inv :: "chain_node \<Rightarrow> statuses \<Rightarrow> bool" where
  "order_inv n st \<longleftrightarrow> (\<forall>i. st i \<noteq> None \<longleftrightarrow> i < leaf_count n)
     \<and> (\<forall>i<leaf_count n. started (st i) \<longrightarrow> gates_open n 0 st i)"

lemma gates_open_mono:
  assumes "\<And>j. terminal_at st j \<Longrightarrow> st' j = st j" "gates_open n off st i"
  shows "gates_open n off st' i"
  using assms by (auto simp: gates_open_def terminal_at_def split: option.splits)

lemma order_inv_start: "order_inv n (start_statuses n)"
proof -
  have "i < leaf_count n" if "i \<in> set (initially_ready n)" for i
    using that root_leaves_range [of n 0] by (auto simp: initially_ready_eq leaf_range_mem subset_iff)
  then show ?thesis
    by (auto simp: order_inv_def start_statuses_def started_def gates_open_root initially_ready_eq
             split: if_splits)
qed

lemma order_inv_finish:
  assumes inv: "order_inv n st" and run: "st i = Some LRunning" and t: "leaf_is_terminal s"
  shows "order_inv n (finish_leaf n i s st)"
proof -
  let ?st1 = "st(i \<mapsto> s)" and ?st' = "finish_leaf n i s st"
  have i: "i < leaf_count n" using inv run by (auto simp: order_inv_def)
  have keep1: "terminal_at ?st1 j \<Longrightarrow> ?st' j = ?st1 j" for j
    using ready_after_range [of j n 0 i ?st1] cancel_after_range [of j n 0 i ?st1]
      terminal_not_pending [of ?st1 j] by (auto simp: finish_leaf_eq Let_def)
  have open1: "gates_open n 0 ?st1 j" if "started (st j)" "j < leaf_count n" for j
    by (rule gates_open_mono [of st]) (use inv that run in \<open>auto simp: order_inv_def terminal_at_def\<close>)
  have "gates_open n 0 ?st' j" if j: "j < leaf_count n" and s: "started (?st' j)" for j
  proof -
    have "gates_open n 0 ?st1 j"
    proof (cases "j \<in> set (ready_after n 0 i ?st1)")
      case True
      then show ?thesis
        using ready_after_gates [of i n 0 ?st1 j] open1 [of i] i run
        by (simp add: leaf_range_mem started_def)
    next
      case False
      with s have "started (?st1 j)"
        by (auto simp: finish_leaf_eq Let_def started_def split: if_splits)
      then show ?thesis
        using open1 [of j] open1 [of i] j i run by (cases "j = i") (auto simp: started_def)
    qed
    then show ?thesis using gates_open_mono [of ?st1 ?st'] keep1 by blast
  qed
  moreover have "?st' j \<noteq> None \<longleftrightarrow> j < leaf_count n" for j
    using inv i ready_after_range [of j n 0 i ?st1] cancel_after_range [of j n 0 i ?st1]
    by (auto simp: finish_leaf_eq Let_def order_inv_def leaf_range_mem)
  ultimately show ?thesis by (simp add: order_inv_def)
qed

lemma order_inv_cancel: "order_inv n st \<Longrightarrow> order_inv n (cancel_whole n st)"
proof -
  assume inv: "order_inv n st"
  have "gates_open n 0 (cancel_whole n st) i" if "i < leaf_count n" "started (cancel_whole n st i)" for i
    by (rule gates_open_mono [of st])
       (use inv that in \<open>auto simp: order_inv_def cancel_whole_def started_def split: if_splits\<close>)
  then show ?thesis
    using inv by (auto simp: order_inv_def cancel_whole_def)
qed

lemma order_inv_step [component_inv]:
  "order_inv n st \<Longrightarrow> chain_step n st st' \<Longrightarrow> order_inv n st'"
  by (auto elim!: chain_stepE intro: order_inv_finish order_inv_cancel)

interpretation chain_order: invariant_machine "\<lambda>st. st = start_statuses n" "chain_step n" "order_inv n"
  for n
  by unfold_locales (auto simp: order_inv_start intro: component_inv)

section \<open>Every execution is finite\<close>

definition unfinished_count :: "chain_node \<Rightarrow> statuses \<Rightarrow> nat" where
  "unfinished_count n st = card {i. i < leaf_count n \<and> \<not> terminal_at st i}"

lemma terminal_at_cong: "st j = st' j \<Longrightarrow> terminal_at st j = terminal_at st' j"
  by (simp add: terminal_at_def)

lemma chain_step_decreases:
  assumes "chain_step n st st'"
  shows "unfinished_count n st' < unfinished_count n st"
proof -
  let ?U = "\<lambda>st. {i. i < leaf_count n \<and> \<not> terminal_at st i}"
  have "?U st' \<subseteq> ?U st"
    using chain_step_keeps_terminal [OF assms] terminal_at_cong by blast
  moreover have "\<exists>i. i \<in> ?U st \<and> i \<notin> ?U st'"
    using assms
  proof (cases rule: chain_step.cases)
    case (finish i s)
    have "terminal_at st' i"
      using finish finish_leaf_self [of s n i st] by (simp add: terminal_at_def)
    then show ?thesis
      using finish by (auto simp: terminal_at_def intro!: exI [of _ i])
  next
    case cancel
    then obtain i where "i < leaf_count n" "\<not> terminal_at st i"
      by (auto simp: is_chain_terminal_iff)
    moreover from this have "terminal_at st' i"
      using cancel by (simp add: terminal_at_def cancel_whole_def)
    ultimately show ?thesis by blast
  qed
  ultimately have "?U st' \<subset> ?U st" by blast
  then show ?thesis
    by (simp add: unfinished_count_def psubset_card_mono)
qed

lemma chain_run_length: "(chain_step n ^^ k) st st' \<Longrightarrow> k + unfinished_count n st' \<le> unfinished_count n st"
proof (induction k arbitrary: st')
  case (Suc k)
  then obtain sm where "(chain_step n ^^ k) st sm" "chain_step n sm st'" by auto
  then show ?case using Suc.IH [of sm] chain_step_decreases [of n sm st'] by simp
qed simp

lemma unfinished_count_le: "unfinished_count n st \<le> leaf_count n"
proof -
  have "{i. i < leaf_count n \<and> \<not> terminal_at st i} \<subseteq> {..<leaf_count n}" by blast
  from card_mono [OF _ this] show ?thesis by (simp add: unfinished_count_def)
qed

section \<open>Completion\<close>

text \<open>
  \<open>stall_free\<close>: the left operand of every serial operator contains neither \<open>->\<close> nor \<open>|?|\<close>,
  so nothing inside it is ever cancelled.
\<close>

fun cancel_free :: "chain_node \<Rightarrow> bool" where
  "cancel_free (Leaf _) = True"
| "cancel_free (Serial l op r) = (op = Always \<and> cancel_free l \<and> cancel_free r)"
| "cancel_free (Parallel l op r) = (op = AllOp \<and> cancel_free l \<and> cancel_free r)"

fun stall_free :: "chain_node \<Rightarrow> bool" where
  "stall_free (Leaf _) = True"
| "stall_free (Serial l op r) = (cancel_free l \<and> stall_free r)"
| "stall_free (Parallel l op r) = (stall_free l \<and> stall_free r)"

definition idle :: "chain_node \<Rightarrow> nat \<Rightarrow> statuses \<Rightarrow> bool" where
  "idle n off st \<longleftrightarrow> (\<forall>i\<in>leaf_range n off. st i = Some LPending)"

definition all_done :: "chain_node \<Rightarrow> nat \<Rightarrow> statuses \<Rightarrow> bool" where
  "all_done n off st \<longleftrightarrow> (\<forall>i\<in>leaf_range n off. terminal_at st i)"

definition all_ok :: "chain_node \<Rightarrow> nat \<Rightarrow> statuses \<Rightarrow> bool" where
  "all_ok n off st \<longleftrightarrow> (\<forall>i\<in>leaf_range n off. st i = Some (LDone 0))"

fun live :: "chain_node \<Rightarrow> nat \<Rightarrow> statuses \<Rightarrow> bool" where
  "live (Leaf _) off st = (st off = Some LRunning \<or> terminal_at st off)"
| "live (Serial l op r) off st =
     (live l off st \<and> (if all_done l off st then live r (off + leaf_count l) st
                       else idle r (off + leaf_count l) st))"
| "live (Parallel l op r) off st =
     (live l off st \<and> live r (off + leaf_count l) st
      \<and> (op = RaceOp \<longrightarrow> (all_ok l off st \<longrightarrow> all_done r (off + leaf_count l) st)
                       \<and> (all_ok r (off + leaf_count l) st \<longrightarrow> all_done l off st)))"

lemma stall_free_if_cancel_free: "cancel_free n \<Longrightarrow> stall_free n"
  by (induction n) auto

lemma all_done_split:
  "all_done (Serial l sop r) off st \<longleftrightarrow> all_done l off st \<and> all_done r (off + leaf_count l) st"
  "all_done (Parallel l pop r) off st \<longleftrightarrow> all_done l off st \<and> all_done r (off + leaf_count l) st"
  by (auto simp: all_done_def)

lemma all_done_live: "all_done n off st \<Longrightarrow> live n off st"
  by (induction n arbitrary: off) (auto simp: all_done_split, simp add: all_done_def)

lemma leaf_range_nonempty [simp]: "leaf_range n off \<noteq> {}"
  by (auto simp: leaf_range_def)

lemma idle_not_done: "idle n off st \<Longrightarrow> \<not> all_done n off st"
  using leaf_range_nonempty [of n off]
  by (auto simp: idle_def all_done_def terminal_at_def simp del: leaf_range_nonempty)

lemma live_cong:
  "(\<And>i. i \<in> leaf_range n off \<Longrightarrow> st i = st' i) \<Longrightarrow> live n off st = live n off st'"
proof (induction n arbitrary: off)
  case (Leaf p)
  then show ?case by (simp add: terminal_at_def)
next
  case (Serial l op r)
  then have "live l off st = live l off st'"
    "live r (off + leaf_count l) st = live r (off + leaf_count l) st'"
    "all_done l off st = all_done l off st'"
    "idle r (off + leaf_count l) st = idle r (off + leaf_count l) st'"
    by (simp_all add: all_done_def idle_def terminal_at_def)
  then show ?case by simp
next
  case (Parallel l op r)
  then have "live l off st = live l off st'"
    "live r (off + leaf_count l) st = live r (off + leaf_count l) st'"
    "all_done l off st = all_done l off st'" "all_ok l off st = all_ok l off st'"
    "all_done r (off + leaf_count l) st = all_done r (off + leaf_count l) st'"
    "all_ok r (off + leaf_count l) st = all_ok r (off + leaf_count l) st'"
    by (simp_all add: all_done_def all_ok_def terminal_at_def)
  then show ?case by simp
qed

lemma live_defined: "live n off st \<Longrightarrow> i \<in> leaf_range n off \<Longrightarrow> st i \<noteq> None"
  by (induction n arbitrary: off) (auto simp: terminal_at_def idle_def split: option.splits if_splits)

lemma live_progress:
  "live n off st \<Longrightarrow> \<not> all_done n off st \<Longrightarrow> \<exists>i\<in>leaf_range n off. st i = Some LRunning"
  by (induction n arbitrary: off) (auto simp: all_done_split split: if_splits, auto simp: all_done_def)

lemma live_started:
  assumes "\<And>i. i \<in> leaf_range n off \<Longrightarrow>
    st i = (if i \<in> set (root_leaves n off) then Some LRunning else Some LPending)"
  shows "live n off st"
  using assms
proof (induction n arbitrary: off)
  case (Leaf p)
  then show ?case by simp
next
  case (Serial l op r)
  have roots: "i \<notin> set (root_leaves l off)" if "i \<in> leaf_range r (off + leaf_count l)" for i
    using that root_leaves_range [of l off] by (force simp: leaf_range_mem)
  have "live l off st" using Serial by simp
  moreover have "idle r (off + leaf_count l) st"
    using Serial.prems roots by (simp add: idle_def)
  moreover have "\<not> all_done l off st"
  proof -
    have "off \<in> set (root_leaves l off)"
      using root_leaves_first [of l off] hd_in_set [OF root_leaves_nonempty] by metis
    moreover have "off \<in> leaf_range l off" by (simp add: leaf_range_mem)
    ultimately show ?thesis
      using Serial.prems [of off] by (auto simp: all_done_def terminal_at_def intro!: bexI [of _ off])
  qed
  ultimately show ?case by simp
next
  case (Parallel l op r)
  let ?o = "off + leaf_count l"
  have a: "i \<notin> set (root_leaves r ?o)" if "i \<in> leaf_range l off" for i
    using that root_leaves_range [of r ?o] by (force simp: leaf_range_mem)
  have b: "i \<notin> set (root_leaves l off)" if "i \<in> leaf_range r ?o" for i
    using that root_leaves_range [of l off] by (force simp: leaf_range_mem)
  have "live l off st" "live r ?o st"
    using Parallel.IH(1) [of off] Parallel.IH(2) [of ?o] Parallel.prems a b by simp_all
  moreover have "\<not> all_ok l off st" "\<not> all_ok r ?o st"
    using leaf_range_nonempty [of l off] leaf_range_nonempty [of r ?o] Parallel.prems
    by (auto simp: all_ok_def ex_in_conv [symmetric] simp del: leaf_range_nonempty
             split: if_splits)
  ultimately show ?case by simp
qed

text \<open>The statuses after a leaf of the subtree ended, with the lists of that subtree.\<close>

definition settle :: "chain_node \<Rightarrow> nat \<Rightarrow> nat \<Rightarrow> statuses \<Rightarrow> statuses" where
  "settle n off fin st =
     (\<lambda>j. if j \<in> set (ready_after n off fin st) then Some LRunning
          else if j \<in> set (cancel_after n off fin st) then Some LCancelled else st j)"

lemma settle_terminal: "terminal_at st j \<Longrightarrow> settle n off fin st j = st j"
  using ready_after_range [of j n off fin st] cancel_after_range [of j n off fin st]
    terminal_not_pending [of st j] by (auto simp: settle_def)

lemma settle_outside: "j \<notin> leaf_range n off \<Longrightarrow> settle n off fin st j = st j"
  using ready_after_range [of j n off fin st] cancel_after_range [of j n off fin st]
  by (auto simp: settle_def)

lemma cancel_free_cancel_after: "cancel_free n \<Longrightarrow> cancel_after n off fin st = []"
  by (induction n arbitrary: off) auto

lemma settle_not_done:
  assumes "cancel_free n" "\<not> all_done n off st"
  shows "\<not> all_done n off (settle n off fin st)"
proof -
  obtain j where j: "j \<in> leaf_range n off" "\<not> terminal_at st j"
    using assms by (auto simp: all_done_def)
  then have "\<not> terminal_at (settle n off fin st) j"
    by (simp add: settle_def cancel_free_cancel_after [OF assms(1)] terminal_at_def)
  with j show ?thesis by (auto simp: all_done_def)
qed

lemma settle_Serial_left:
  assumes fin: "fin \<in> leaf_range l off" and idle: "idle r (off + leaf_count l) st"
    and cf: "cancel_free l"
  shows "(\<forall>j\<in>leaf_range l off. settle (Serial l op r) off fin st j = settle l off fin st j)
    \<and> (\<forall>j\<in>leaf_range r (off + leaf_count l). settle (Serial l op r) off fin st j =
         (if all_done l off st
          then (if op = Always \<or> all_ok l off st
                then (if j \<in> set (root_leaves r (off + leaf_count l)) then Some LRunning else Some LPending)
                else Some LCancelled)
          else Some LPending))"
    (is "?A \<and> ?B")
proof
  let ?o = "off + leaf_count l"
  have P: "pending_at st j" "st j = Some LPending" if "j \<in> leaf_range r ?o" for j
    using idle that by (auto simp: idle_def pending_at_def)
  have notl: "j \<notin> set (ready_after l off fin st)" if "j \<in> leaf_range r ?o" for j
    using that ready_after_range [of j l off fin st] by (auto simp: leaf_range_mem)
  have notr: "j \<notin> set (root_leaves r ?o)" if "j \<in> leaf_range l off" for j
    using that root_leaves_range [of r ?o] by (force simp: leaf_range_mem)
  have eqs: "all_leaves_terminal l off st = all_done l off st"
    "all_leaves_succeeded l off st = all_ok l off st"
    by (simp_all add: all_leaves_terminal_iff all_leaves_succeeded_iff all_done_def all_ok_def)
  show ?A
    using fin notr cf by (auto simp: settle_def cancel_free_cancel_after leaf_range_mem)
  show ?B
    using fin P notl cf
    by (cases op) (auto simp: settle_def cancel_free_cancel_after eqs leaf_range_mem)
qed

lemma settle_Serial_right:
  assumes "fin \<in> leaf_range r (off + leaf_count l)"
  shows "settle (Serial l op r) off fin st = settle r (off + leaf_count l) fin st"
proof -
  have "fin \<notin> leaf_range l off" using assms by (simp add: leaf_range_mem)
  then show ?thesis by (simp add: settle_def cong: if_cong)
qed

lemma settle_Parallel_left:
  assumes fin: "fin \<in> leaf_range l off"
    and nok: "op = RaceOp \<Longrightarrow> \<not> all_ok r (off + leaf_count l) st"
  shows "(\<forall>j\<in>leaf_range l off. settle (Parallel l op r) off fin st j = settle l off fin st j)
    \<and> (\<forall>j\<in>leaf_range r (off + leaf_count l). settle (Parallel l op r) off fin st j =
         (if op = RaceOp \<and> all_ok l off st \<and> unfinished_at st j then Some LCancelled else st j))"
proof -
  have lt: "fin < off + leaf_count l" using fin by (simp add: leaf_range_mem)
  have eqs: "all_leaves_succeeded l off st = all_ok l off st"
    "all_leaves_succeeded r (off + leaf_count l) st = all_ok r (off + leaf_count l) st"
    by (simp_all add: all_leaves_succeeded_iff all_ok_def)
  have "j \<notin> set (ready_after l off fin st)" "j \<notin> set (cancel_after l off fin st)"
    if "j \<in> leaf_range r (off + leaf_count l)" for j
    using that ready_after_range [of j l off fin st] cancel_after_range [of j l off fin st]
    by (auto simp: leaf_range_mem)
  then show ?thesis
    using lt nok by (auto simp: settle_def eqs leaf_range_mem)
qed

lemma settle_Parallel_right:
  assumes fin: "fin \<in> leaf_range r (off + leaf_count l)"
    and nok: "op = RaceOp \<Longrightarrow> \<not> all_ok l off st"
  shows "(\<forall>j\<in>leaf_range r (off + leaf_count l).
           settle (Parallel l op r) off fin st j = settle r (off + leaf_count l) fin st j)
    \<and> (\<forall>j\<in>leaf_range l off. settle (Parallel l op r) off fin st j =
         (if op = RaceOp \<and> all_ok r (off + leaf_count l) st \<and> unfinished_at st j
          then Some LCancelled else st j))"
proof -
  let ?o = "off + leaf_count l"
  have ge: "\<not> fin < ?o" using fin by (simp add: leaf_range_mem)
  have eqs: "all_leaves_succeeded l off st = all_ok l off st"
    "all_leaves_succeeded r ?o st = all_ok r ?o st"
    by (simp_all add: all_leaves_succeeded_iff all_ok_def)
  have "j \<notin> set (ready_after r ?o fin st)" "j \<notin> set (cancel_after r ?o fin st)"
    if "j \<in> leaf_range l off" for j
    using that ready_after_range [of j r ?o fin st] cancel_after_range [of j r ?o fin st]
    by (auto simp: leaf_range_mem)
  then show ?thesis
    using ge nok by (auto simp: settle_def eqs leaf_range_mem)
qed

text \<open>Both branches of a parallel node at once: \<open>a\<close> is the branch the leaf ended in.\<close>

lemma live_race:
  assumes la: "live a ao (settle a ao fin st)" and lb: "live b bo st"
    and nokb: "op = RaceOp \<Longrightarrow> \<not> all_ok b bo st"
    and Sa: "\<forall>j\<in>leaf_range a ao. S j = settle a ao fin st j"
    and Sb: "\<forall>j\<in>leaf_range b bo. S j =
       (if op = RaceOp \<and> all_ok a ao st \<and> unfinished_at st j then Some LCancelled else st j)"
  shows "live a ao S \<and> live b bo S
    \<and> (op = RaceOp \<longrightarrow> (all_ok a ao S \<longrightarrow> all_done b bo S) \<and> \<not> all_ok b bo S)"
proof -
  have "live a ao S" using la live_cong [of a ao S "settle a ao fin st"] Sa by simp
  moreover have done_b: "all_done b bo S" if "op = RaceOp" "all_ok a ao st"
    using that Sb live_defined [OF lb]
    by (auto simp: all_done_def terminal_at_def unfinished_at_def split: option.splits)
  moreover have "live b bo S"
  proof (cases "op = RaceOp \<and> all_ok a ao st")
    case True
    then show ?thesis using done_b all_done_live by blast
  next
    case False
    then show ?thesis using Sb lb live_cong [of b bo S st] by auto
  qed
  moreover have "all_ok a ao st" if "all_ok a ao S"
  proof -
    have "st j = Some (LDone 0)" if j: "j \<in> leaf_range a ao" for j
      using \<open>all_ok a ao S\<close> Sa j by (auto simp: all_ok_def settle_def split: if_splits)
    then show ?thesis by (simp add: all_ok_def)
  qed
  moreover have "\<not> all_ok b bo S" if "op = RaceOp"
  proof
    assume "all_ok b bo S"
    then have "all_ok b bo st"
      using Sb by (auto simp: all_ok_def split: if_splits)
    then show False using nokb that by blast
  qed
  ultimately show ?thesis by blast
qed

lemma live_update_outside:
  "fin \<notin> leaf_range n off \<Longrightarrow> live n off (st(fin \<mapsto> s)) = live n off st"
  by (rule live_cong) auto

lemma not_done_running: "st i = Some LRunning \<Longrightarrow> i \<in> leaf_range n off \<Longrightarrow> \<not> all_done n off st"
  by (auto simp: all_done_def terminal_at_def intro!: bexI [of _ i])

lemma live_settle:
  "stall_free n \<Longrightarrow> live n off st \<Longrightarrow> fin \<in> leaf_range n off \<Longrightarrow> st fin = Some LRunning \<Longrightarrow>
   leaf_is_terminal s \<Longrightarrow> live n off (settle n off fin (st(fin \<mapsto> s)))"
proof (induction n arbitrary: off)
  case (Leaf p)
  then show ?case by (simp add: settle_def terminal_at_def)
next
  case (Serial l op r)
  let ?o = "off + leaf_count l" and ?st1 = "st(fin \<mapsto> s)"
  let ?S = "settle (Serial l op r) off fin ?st1"
  show ?case
  proof (cases "fin \<in> leaf_range l off")
    case True
    then have "\<not> all_done l off st" using Serial.prems(4) by (rule_tac not_done_running)
    then have idle: "idle r ?o ?st1"
      using Serial.prems(2) True by (auto simp: idle_def leaf_range_mem)
    have cf: "cancel_free l" using Serial.prems(1) by simp
    note S = settle_Serial_left [OF True idle cf, of op]
    have "live l off st" using Serial.prems(2) by simp
    then have ll: "live l off (settle l off fin ?st1)"
      by (rule Serial.IH(1) [OF stall_free_if_cancel_free [OF cf] _ True Serial.prems(4,5)])
    then have l: "live l off ?S" using S live_cong [of l off ?S] by blast
    have d: "all_done l off ?S = all_done l off (settle l off fin ?st1)"
      using S by (auto simp: all_done_def terminal_at_def)
    show ?thesis
    proof (cases "all_done l off ?st1")
      case dn: True
      have "live r ?o ?S"
      proof (cases "op = Always \<or> all_ok l off ?st1")
        case True
        then show ?thesis using S dn by (intro live_started) auto
      next
        case False
        then show ?thesis
          using S dn by (intro all_done_live) (auto simp: all_done_def terminal_at_def)
      qed
      moreover have "all_done l off ?S"
        unfolding d using dn settle_terminal [of ?st1 _ l off fin]
        by (simp add: all_done_def terminal_at_def)
      ultimately show ?thesis using l by (simp only: live.simps if_True simp_thms)
    next
      case False
      then have "\<not> all_done l off ?S" using d settle_not_done [OF cf] by blast
      moreover have "idle r ?o ?S" using S False by (auto simp: idle_def)
      ultimately show ?thesis using l by (simp only: live.simps if_False simp_thms)
    qed
  next
    case False
    then have fr: "fin \<in> leaf_range r ?o" using Serial.prems(3) by (auto simp: leaf_range_mem)
    then have dl: "all_done l off st" and lr: "live r ?o st"
      using Serial.prems(2,4) by (auto simp: idle_def split: if_splits)
    have S: "?S = settle r ?o fin ?st1" by (rule settle_Serial_right [OF fr])
    have same: "?S j = st j" if "j \<in> leaf_range l off" for j
      using that False S settle_outside [of j r ?o fin ?st1] by (auto simp: leaf_range_mem)
    have "live l off ?S" using same Serial.prems(2) live_cong [of l off ?S st] by simp
    moreover have "all_done l off ?S" using same dl by (auto simp: all_done_def terminal_at_def)
    moreover have "live r ?o ?S"
      unfolding S by (rule Serial.IH(2) [OF _ lr fr Serial.prems(4,5)]) (use Serial.prems(1) in simp)
    ultimately show ?thesis by (simp only: live.simps if_True simp_thms)
  qed
next
  case (Parallel l op r)
  let ?o = "off + leaf_count l" and ?st1 = "st(fin \<mapsto> s)"
  let ?S = "settle (Parallel l op r) off fin ?st1"
  show ?case
  proof (cases "fin \<in> leaf_range l off")
    case True
    then have out: "fin \<notin> leaf_range r ?o" by (simp add: leaf_range_mem)
    have nok: "op = RaceOp \<Longrightarrow> \<not> all_ok r ?o ?st1"
      using Parallel.prems(2) not_done_running [of st fin, OF Parallel.prems(4) True] out
      by (auto simp: all_ok_def)
    have a: "live l off (settle l off fin ?st1)"
      by (rule Parallel.IH(1) [OF _ _ True Parallel.prems(4,5)]) (use Parallel.prems(1,2) in simp_all)
    have b: "live r ?o ?st1"
      unfolding live_update_outside [OF out] using Parallel.prems(2) by simp
    have "live l off ?S \<and> live r ?o ?S
        \<and> (op = RaceOp \<longrightarrow> (all_ok l off ?S \<longrightarrow> all_done r ?o ?S) \<and> \<not> all_ok r ?o ?S)"
      using live_race [OF a b nok settle_Parallel_left [OF True nok, THEN conjunct1]
          settle_Parallel_left [OF True nok, THEN conjunct2]] .
    then show ?thesis unfolding live.simps by blast
  next
    case False
    then have fr: "fin \<in> leaf_range r ?o" using Parallel.prems(3) by (auto simp: leaf_range_mem)
    have nok: "op = RaceOp \<Longrightarrow> \<not> all_ok l off ?st1"
      using Parallel.prems(2) not_done_running [of st fin, OF Parallel.prems(4) fr] False
      by (auto simp: all_ok_def)
    have a: "live r ?o (settle r ?o fin ?st1)"
      by (rule Parallel.IH(2) [OF _ _ fr Parallel.prems(4,5)]) (use Parallel.prems(1,2) in simp_all)
    have b: "live l off ?st1"
      unfolding live_update_outside [OF False] using Parallel.prems(2) by simp
    have "live r ?o ?S \<and> live l off ?S
        \<and> (op = RaceOp \<longrightarrow> (all_ok r ?o ?S \<longrightarrow> all_done l off ?S) \<and> \<not> all_ok l off ?S)"
      using live_race [OF a b nok settle_Parallel_right [OF fr nok, THEN conjunct1]
          settle_Parallel_right [OF fr nok, THEN conjunct2]] .
    then show ?thesis unfolding live.simps by blast
  qed
qed

lemma live_step [component_inv]:
  assumes "stall_free n" "live n 0 st" "chain_step n st st'"
  shows "live n 0 st'"
  using assms(3)
proof (cases rule: chain_step.cases)
  case (finish i s)
  have "finish_leaf n i s st = settle n 0 i (st(i \<mapsto> s))"
    by (simp add: finish_leaf_eq settle_def Let_def)
  then show ?thesis
    using live_settle [OF assms(1,2), of i s] finish by (simp add: leaf_range_mem)
next
  case cancel
  then show ?thesis
    by (intro all_done_live) (auto simp: all_done_def cancel_whole_def terminal_at_def leaf_range_mem)
qed

lemma live_start: "live n 0 (start_statuses n)"
  by (rule live_started) (simp add: start_statuses_def initially_ready_eq leaf_range_mem)

interpretation chain_live:
  invariant_machine "\<lambda>st. st = start_statuses n" "chain_step n" "\<lambda>st. stall_free n \<longrightarrow> live n 0 st"
  for n
  by unfold_locales (auto simp: live_start intro: component_inv)

section \<open>Stalling chains\<close>

definition stalled :: "chain_node \<Rightarrow> statuses \<Rightarrow> bool" where
  "stalled n st \<longleftrightarrow> \<not> is_chain_terminal n st \<and> (\<forall>i<leaf_count n. st i \<noteq> Some LRunning)"

lemma leaf_range_leaf_count: "i < leaf_count n \<longleftrightarrow> i \<in> leaf_range n 0"
  by (simp add: leaf_range_mem)

lemma root_leaves_ge: "i \<in> set (root_leaves n off) \<Longrightarrow> off \<le> i"
  using root_leaves_range [of n off] by (auto simp: leaf_range_mem subset_iff)

lemma stall_then:
  fixes r :: chain_node and op :: serial_op and a b :: job_plan
  defines "n \<equiv> Serial (Serial (Leaf a) Then (Leaf b)) op r"
  assumes "code \<noteq> 0"
  shows "chain_step n (start_statuses n) (finish_leaf n 0 (LFailed code) (start_statuses n))
    \<and> stalled n (finish_leaf n 0 (LFailed code) (start_statuses n))
    \<and> finish_leaf n 0 (LFailed code) (start_statuses n) 2 = Some LPending"
proof -
  let ?s0 = "start_statuses n"
  let ?s1 = "finish_leaf n 0 (LFailed code) ?s0"
  have ready: "initially_ready n = [0]" by (simp add: n_def initially_ready_eq)
  have s0: "?s0 = (\<lambda>i. if i = 0 then Some LRunning
      else if i < 2 + leaf_count r then Some LPending else None)"
    by (rule ext) (simp add: start_statuses_def ready, simp add: n_def)
  have s1: "?s1 i = (if i = 0 then Some (LFailed code) else if i = 1 then Some LCancelled
      else if i < 2 + leaf_count r then Some LPending else None)" for i
    unfolding s0 unfolding n_def finish_leaf_eq Let_def
    by (auto simp: leaf_range_mem pending_at_def)
  have two: "2 < leaf_count n" "leaf_count n = 2 + leaf_count r" by (simp_all add: n_def)
  have "chain_step n ?s0 ?s1"
    by (rule chain_step.finish) (simp_all add: s0 two)
  moreover have "stalled n ?s1"
    using two by (auto simp: stalled_def is_chain_terminal_iff terminal_at_def s1 intro!: exI [of _ 2])
  ultimately show ?thesis by (simp add: s1)
qed

lemma stall_race:
  fixes r :: chain_node and op :: serial_op and a b :: job_plan
  defines "n \<equiv> Serial (Parallel (Leaf a) RaceOp (Leaf b)) op r"
  shows "chain_step n (start_statuses n) (finish_leaf n 0 (LDone 0) (start_statuses n))
    \<and> stalled n (finish_leaf n 0 (LDone 0) (start_statuses n))
    \<and> finish_leaf n 0 (LDone 0) (start_statuses n) 2 = Some LPending"
proof -
  let ?s0 = "start_statuses n"
  let ?s1 = "finish_leaf n 0 (LDone 0) ?s0"
  have ready: "initially_ready n = [0, 1]" by (simp add: n_def initially_ready_eq)
  have s0: "?s0 = (\<lambda>i. if i < 2 then Some LRunning
      else if i < 2 + leaf_count r then Some LPending else None)"
    by (rule ext) (auto simp add: start_statuses_def ready, auto simp: n_def)
  have s1: "?s1 i = (if i = 0 then Some (LDone 0) else if i = 1 then Some LCancelled
      else if i < 2 + leaf_count r then Some LPending else None)" for i
    unfolding s0 unfolding n_def finish_leaf_eq Let_def
    by (auto simp: leaf_range_mem unfinished_at_def)
  have two: "2 < leaf_count n" "leaf_count n = 2 + leaf_count r" by (simp_all add: n_def)
  have "chain_step n ?s0 ?s1"
    by (rule chain_step.finish) (simp_all add: s0 two)
  moreover have "stalled n ?s1"
    using two by (auto simp: stalled_def is_chain_terminal_iff terminal_at_def s1 intro!: exI [of _ 2])
  ultimately show ?thesis by (simp add: s1)
qed

lemma run_then:
  fixes a b :: job_plan
  shows "chain_step (Serial (Leaf a) Then (Leaf b)) (start_statuses (Serial (Leaf a) Then (Leaf b)))
      (finish_leaf (Serial (Leaf a) Then (Leaf b)) 0 (LDone 0)
        (start_statuses (Serial (Leaf a) Then (Leaf b))))"
    and "finish_leaf (Serial (Leaf a) Then (Leaf b)) 0 (LDone 0)
        (start_statuses (Serial (Leaf a) Then (Leaf b))) 0 = Some (LDone 0)"
    and "finish_leaf (Serial (Leaf a) Then (Leaf b)) 0 (LDone 0)
        (start_statuses (Serial (Leaf a) Then (Leaf b))) 1 = Some LRunning"
proof -
  define n where "n = Serial (Leaf a) Then (Leaf b)"
  let ?s0 = "start_statuses n"
  let ?s1 = "finish_leaf n 0 (LDone 0) ?s0"
  have ready: "initially_ready n = [0]" by (simp add: n_def initially_ready_eq)
  have s0: "?s0 = (\<lambda>i. if i = 0 then Some LRunning else if i < 2 then Some LPending else None)"
    by (rule ext) (simp add: start_statuses_def ready, simp add: n_def)
  have s1: "?s1 i = (if i = 0 then Some (LDone 0) else if i = 1 then Some LRunning else None)" for i
    unfolding s0 unfolding n_def finish_leaf_eq Let_def
    by (auto simp: leaf_range_mem pending_at_def)
  have "leaf_count n = 2" by (simp add: n_def)
  then have "chain_step n ?s0 ?s1" by (intro chain_step.finish) (simp_all add: s0)
  then show "chain_step (Serial (Leaf a) Then (Leaf b)) (start_statuses (Serial (Leaf a) Then (Leaf b)))
      (finish_leaf (Serial (Leaf a) Then (Leaf b)) 0 (LDone 0)
        (start_statuses (Serial (Leaf a) Then (Leaf b))))"
    and "finish_leaf (Serial (Leaf a) Then (Leaf b)) 0 (LDone 0)
        (start_statuses (Serial (Leaf a) Then (Leaf b))) 0 = Some (LDone 0)"
    and "finish_leaf (Serial (Leaf a) Then (Leaf b)) 0 (LDone 0)
        (start_statuses (Serial (Leaf a) Then (Leaf b))) 1 = Some LRunning"
    unfolding n_def [symmetric] by (simp_all add: s1)
qed

section \<open>Properties\<close>

text \<open>
  C1.  Ordering: in every state an execution of a chain can reach, a leaf that is running or has
  an exit status was started only after every leaf before it (the whole left operand of each
  serial operator above it) had ended, and after all of those under a \<open>->\<close> had ended with
  exit code 0.  No leaf outside the chain has a status, and every leaf of it has one.
\<close>

theorem chain_order_respected:
  assumes "(chain_step n)\<^sup>*\<^sup>* (start_statuses n) st"
  shows "(\<forall>i. st i \<noteq> None \<longleftrightarrow> i < leaf_count n)
    \<and> (\<forall>i<leaf_count n. started (st i) \<longrightarrow>
         (\<forall>j\<in>gate n 0 i. terminal_at st j) \<and> (\<forall>j\<in>success_gate n 0 i. st j = Some (LDone 0)))"
  using chain_order.reachable_inv [OF refl assms] by (auto simp: order_inv_def gates_open_def)

theorem chain_order_respected_witness:
  "(let n = Serial (Leaf (simple_plan [''a''])) Then (Leaf (simple_plan [''b'']));
        st = finish_leaf n 0 (LDone 0) (start_statuses n)
    in chain_step n (start_statuses n) st \<and> st 0 = Some (LDone 0) \<and> st 1 = Some LRunning
       \<and> (\<forall>j\<in>success_gate n 0 1. st j = Some (LDone 0)))"
proof -
  define n where "n = Serial (Leaf (simple_plan [''a''])) Then (Leaf (simple_plan [''b'']))"
  define st where "st = finish_leaf n 0 (LDone 0) (start_statuses n)"
  have st: "chain_step n (start_statuses n) st" "st 0 = Some (LDone 0)" "st 1 = Some LRunning"
    and len: "leaf_count n = 2"
    unfolding st_def n_def by (simp_all only: run_then, simp)
  from st(1) have "(chain_step n)\<^sup>*\<^sup>* (start_statuses n) st" by blast
  from chain_order_respected [OF this] have "\<forall>j\<in>success_gate n 0 1. st j = Some (LDone 0)"
    using st len by (auto simp: started_def dest!: spec [of _ 1])
  with st show ?thesis unfolding n_def [symmetric] Let_def st_def [symmetric] by simp
qed

text \<open>
  C5.  Completion: when the left operand of every serial operator is free of \<open>->\<close> and \<open>|?|\<close>, an
  execution never gets stuck: after any number \<open>k\<close> of steps either every leaf is terminal or some
  leaf is still running, and \<open>k\<close> is at most the number of leaves.  So every execution that keeps
  receiving the results of its running leaves ends, after at most \<open>leaf_count\<close> steps, with a
  terminal chain.
\<close>

theorem chain_completes:
  assumes "stall_free n" and "(chain_step n ^^ k) (start_statuses n) st"
  shows "(is_chain_terminal n st \<or> (\<exists>i<leaf_count n. st i = Some LRunning)) \<and> k \<le> leaf_count n"
proof -
  have "live n 0 st" using chain_live.relpowp_inv [OF refl assms(2)] assms(1) by blast
  then have "is_chain_terminal n st \<or> (\<exists>i<leaf_count n. st i = Some LRunning)"
    using live_progress [of n 0 st]
    by (auto simp: is_chain_terminal_iff all_done_def leaf_range_leaf_count)
  then show ?thesis
    using chain_run_length [OF assms(2)] unfinished_count_le [of n "start_statuses n"] by simp
qed

theorem chain_completes_witness:
  "(let n = Serial (Parallel (Leaf (simple_plan [''a''])) AllOp (Leaf (simple_plan [''b''])))
              Then (Leaf (simple_plan [''c'']))
    in stall_free n \<and> (chain_step n ^^ 0) (start_statuses n) (start_statuses n)
       \<and> (is_chain_terminal n (start_statuses n)
          \<or> (\<exists>i<leaf_count n. start_statuses n i = Some LRunning)))"
  using chain_completes [of "Serial (Parallel (Leaf (simple_plan [''a''])) AllOp
      (Leaf (simple_plan [''b'']))) Then (Leaf (simple_plan [''c'']))" 0
      "start_statuses (Serial (Parallel (Leaf (simple_plan [''a''])) AllOp
      (Leaf (simple_plan [''b'']))) Then (Leaf (simple_plan [''c''])))"]
  by (simp only: Let_def stall_free.simps cancel_free.simps relpowp.simps simp_thms)



end
