(* ===== verification/RingBuffer.thy ===== *)
theory RingBuffer
  imports Interfaces
begin

text \<open>
  The byte ring buffer that caps process output in memory
  (\<^verbatim>\<open>crates/cue-daemon/src/ring_buffer.rs\<close>).  \<open>usize\<close> values are naturals; the one addition that
  saturates in the source saturates at \<open>usize_max\<close> here, and the size a \<open>Vec\<close> can have is at most
  \<open>isize_max\<close>.  The buffer interprets the interface \<open>bounded_log\<close>, from which its behaviour over any
  sequence of writes follows.
\<close>

definition DEFAULT_CAPACITY :: nat where "DEFAULT_CAPACITY = 1048576"

record ring_buffer =
  rb_data :: "8 word list"
  rb_head :: nat
  rb_len :: nat
  rb_capacity :: nat
  rb_overflowed :: bool

definition ring_new :: "nat \<Rightarrow> ring_buffer" where
  "ring_new capacity =
     \<lparr>rb_data = replicate capacity 0, rb_head = 0, rb_len = 0, rb_capacity = capacity,
      rb_overflowed = False\<rparr>"

definition ring_default :: ring_buffer where
  "ring_default = ring_new DEFAULT_CAPACITY"

text \<open>The body of the copy loop, and the whole \<^verbatim>\<open>push\<close>.\<close>

definition push_byte :: "ring_buffer \<Rightarrow> 8 word \<Rightarrow> ring_buffer" where
  "push_byte rb b =
     rb\<lparr>rb_data := (rb_data rb)[rb_head rb := b],
        rb_head := (rb_head rb + 1) mod rb_capacity rb,
        rb_len := (if rb_len rb < rb_capacity rb then rb_len rb + 1 else rb_len rb)\<rparr>"

definition push :: "ring_buffer \<Rightarrow> 8 word list \<Rightarrow> ring_buffer" where
  "push rb bytes =
     (if bytes = [] then rb
      else if rb_capacity rb = 0 then rb\<lparr>rb_overflowed := True\<rparr>
      else
        let rb1 = (if rb_capacity rb < usize_saturating_add (rb_len rb) (length bytes)
                   then rb\<lparr>rb_overflowed := True\<rparr> else rb);
            src = (if rb_capacity rb < length bytes
                   then drop (length bytes - rb_capacity rb) bytes else bytes)
        in foldl push_byte rb1 src)"

definition as_bytes :: "ring_buffer \<Rightarrow> 8 word list" where
  "as_bytes rb =
     (if rb_len rb = 0 then []
      else let start = (if rb_len rb < rb_capacity rb then 0 else rb_head rb)
           in map (\<lambda>i. rb_data rb ! ((start + i) mod rb_capacity rb)) [0..<rb_len rb])"

definition tail_with_truncation :: "ring_buffer \<Rightarrow> nat \<Rightarrow> 8 word list \<times> bool" where
  "tail_with_truncation rb n0 =
     (let n = min n0 (rb_len rb)
      in if n = 0 then ([], rb_overflowed rb \<or> 0 < rb_len rb)
         else let all = as_bytes rb; truncated_by_limit = n < length all
              in (drop (length all - n) all, rb_overflowed rb \<or> truncated_by_limit))"

section \<open>Invariant\<close>

definition ring_wf :: "ring_buffer \<Rightarrow> bool" where
  "ring_wf rb \<longleftrightarrow> length (rb_data rb) = rb_capacity rb \<and> rb_len rb \<le> rb_capacity rb
     \<and> (rb_capacity rb = 0 \<or> rb_head rb < rb_capacity rb)
     \<and> (rb_len rb < rb_capacity rb \<longrightarrow> rb_head rb = rb_len rb)
     \<and> rb_capacity rb \<le> isize_max"

lemma ring_wf_new: "n \<le> isize_max \<Longrightarrow> ring_wf (ring_new n)"
  by (auto simp: ring_wf_def ring_new_def)

lemma ring_wf_overflowed [simp]: "ring_wf (rb\<lparr>rb_overflowed := x\<rparr>) = ring_wf rb"
  by (simp add: ring_wf_def)

lemma as_bytes_overflowed [simp]: "as_bytes (rb\<lparr>rb_overflowed := x\<rparr>) = as_bytes rb"
  by (simp add: as_bytes_def)

lemma length_as_bytes [simp]: "length (as_bytes rb) = rb_len rb"
  by (simp add: as_bytes_def Let_def)

lemma push_byte_wf: "ring_wf rb \<Longrightarrow> 0 < rb_capacity rb \<Longrightarrow> ring_wf (push_byte rb b)"
  by (auto simp: ring_wf_def push_byte_def mod_Suc)

lemma push_byte_simps [simp]:
  "rb_capacity (push_byte rb b) = rb_capacity rb"
  "rb_overflowed (push_byte rb b) = rb_overflowed rb"
  by (simp_all add: push_byte_def)

lemma nth_as_bytes:
  "i < rb_len rb \<Longrightarrow> as_bytes rb ! i =
     rb_data rb ! (((if rb_len rb < rb_capacity rb then 0 else rb_head rb) + i) mod rb_capacity rb)"
  by (auto simp: as_bytes_def Let_def)

lemma mod_cycle:
  fixes h c i :: nat
  assumes "h < c" "i < c - 1"
  shows "((h + 1) mod c + i) mod c = (h + (i + 1)) mod c" "(h + (i + 1)) mod c \<noteq> h"
proof -
  show "((h + 1) mod c + i) mod c = (h + (i + 1)) mod c"
    by (metis add.assoc add.commute mod_add_left_eq)
  show "(h + (i + 1)) mod c \<noteq> h"
  proof (cases "h + (i + 1) < c")
    case False
    then have "(h + (i + 1)) mod c = h + (i + 1) - c" using assms by (simp add: mod_if)
    then show ?thesis using assms False by simp
  qed simp
qed

lemma as_bytes_push_byte:
  assumes wf: "ring_wf rb" and cap: "0 < rb_capacity rb"
  shows "as_bytes (push_byte rb b) = last_n (rb_capacity rb) (as_bytes rb @ [b])"
proof (cases "rb_len rb < rb_capacity rb")
  case True
  then have head: "rb_head rb = rb_len rb" using wf by (simp add: ring_wf_def)
  show ?thesis
  proof (rule nth_equalityI)
    show "length (as_bytes (push_byte rb b)) = length (last_n (rb_capacity rb) (as_bytes rb @ [b]))"
      using True by (simp add: push_byte_def)
    fix i assume "i < length (as_bytes (push_byte rb b))"
    then have i: "i < rb_len rb + 1" "i < rb_capacity rb" using True by (simp_all add: push_byte_def)
    have wrap: "Suc (rb_len rb) mod rb_capacity rb = 0" if "\<not> Suc (rb_len rb) < rb_capacity rb"
      using that True by (simp add: mod_Suc)
    have "as_bytes (push_byte rb b) ! i = (rb_data rb)[rb_len rb := b] ! i"
      using i wrap True wf by (subst nth_as_bytes) (auto simp: push_byte_def head ring_wf_def)
    also have "\<dots> = (as_bytes rb @ [b]) ! i"
      using i True wf by (auto simp: nth_append nth_as_bytes ring_wf_def less_Suc_eq)
    finally show "as_bytes (push_byte rb b) ! i = last_n (rb_capacity rb) (as_bytes rb @ [b]) ! i"
      using True by simp
  qed
next
  case False
  let ?c = "rb_capacity rb" and ?h = "rb_head rb"
  have full: "rb_len rb = ?c" and h: "?h < ?c" and d: "length (rb_data rb) = ?c"
    using wf False cap by (auto simp: ring_wf_def)
  have "as_bytes (push_byte rb b) = tl (as_bytes rb) @ [b]"
  proof (rule nth_equalityI)
    show "length (as_bytes (push_byte rb b)) = length (tl (as_bytes rb) @ [b])"
      using False full cap by (simp add: push_byte_def)
    fix i assume "i < length (as_bytes (push_byte rb b))"
    then have i: "i < ?c" using full by (simp add: push_byte_def)
    have n: "as_bytes (push_byte rb b) ! i = (rb_data rb)[?h := b] ! (((?h + 1) mod ?c + i) mod ?c)"
      using i full by (subst nth_as_bytes) (auto simp: push_byte_def)
    show "as_bytes (push_byte rb b) ! i = (tl (as_bytes rb) @ [b]) ! i"
    proof (cases "i < ?c - 1")
      case True
      have "as_bytes rb ! (i + 1) = rb_data rb ! ((?h + (i + 1)) mod ?c)"
        using True full by (subst nth_as_bytes) auto
      then show ?thesis
        using n True full mod_cycle [OF h True] by (simp add: nth_append nth_tl)
    next
      case last: False
      then have "((?h + 1) mod ?c + i) mod ?c = (?h + 1 + i) mod ?c" by (simp add: mod_add_left_eq)
      also have "?h + 1 + i = ?h + ?c" using last i by simp
      finally show ?thesis using n last i full h d by (simp add: nth_append)
    qed
  qed
  then show ?thesis using full cap by (simp add: last_n_def drop_Suc)
qed

lemma foldl_push_byte:
  "ring_wf rb \<Longrightarrow> 0 < rb_capacity rb \<Longrightarrow>
   ring_wf (foldl push_byte rb bs) \<and> rb_capacity (foldl push_byte rb bs) = rb_capacity rb
   \<and> rb_overflowed (foldl push_byte rb bs) = rb_overflowed rb
   \<and> as_bytes (foldl push_byte rb bs) = last_n (rb_capacity rb) (as_bytes rb @ bs)"
proof (induction bs arbitrary: rb)
  case Nil
  then show ?case by (simp add: ring_wf_def)
next
  case (Cons b bs)
  then show ?case
    using last_n_append [of "rb_capacity rb" "as_bytes rb @ [b]" bs]
    by (simp add: push_byte_wf as_bytes_push_byte)
qed

lemma push_spec:
  assumes "ring_wf rb"
  shows "ring_wf (push rb bs) \<and> rb_capacity (push rb bs) = rb_capacity rb
    \<and> as_bytes (push rb bs) = last_n (rb_capacity rb) (as_bytes rb @ bs)
    \<and> (rb_overflowed (push rb bs) \<longleftrightarrow>
         rb_overflowed rb \<or> rb_capacity rb < length (as_bytes rb @ bs))"
proof (cases "bs = [] \<or> rb_capacity rb = 0")
  case True
  moreover have "length (as_bytes rb) \<le> rb_capacity rb" using assms by (simp add: ring_wf_def)
  ultimately show ?thesis using assms by (cases "bs = []") (simp_all add: push_def, simp add: as_bytes_def)
next
  case False
  let ?c = "rb_capacity rb"
  let ?rb1 = "if ?c < usize_saturating_add (rb_len rb) (length bs) then rb\<lparr>rb_overflowed := True\<rparr> else rb"
  let ?src = "if ?c < length bs then drop (length bs - ?c) bs else bs"
  have wf1: "ring_wf ?rb1" "0 < rb_capacity ?rb1" "rb_capacity ?rb1 = ?c" "as_bytes ?rb1 = as_bytes rb"
    using assms False by auto
  have src: "last_n ?c (as_bytes rb @ ?src) = last_n ?c (as_bytes rb @ bs)"
    using last_n_append_right [of ?c bs "as_bytes rb"] last_n_append_right [of ?c "last_n ?c bs" "as_bytes rb"]
    by (auto simp: last_n_def [of ?c bs, symmetric] last_n_last_n)
  have small: "?c < usize_max" using assms by (simp add: ring_wf_def isize_max_def usize_max_def)
  have "push rb bs = foldl push_byte ?rb1 ?src" using False by (simp add: push_def Let_def)
  then show ?thesis
    using foldl_push_byte [OF wf1(1,2), of ?src] wf1(3,4) src small
    by (auto simp: usize_saturating_add_def)
qed

interpretation ring: bounded_log isize_max ring_new push as_bytes rb_overflowed rb_capacity ring_wf
proof unfold_locales
  show "rb_capacity (ring_new n) = n" "as_bytes (ring_new n) = []" "\<not> rb_overflowed (ring_new n)" for n
    by (simp_all add: ring_new_def as_bytes_def)
qed (use push_spec ring_wf_new in auto)

lemma tail_with_truncation_eq:
  "tail_with_truncation rb m =
     (last_n m (as_bytes rb), rb_overflowed rb \<or> m < rb_len rb)"
  by (auto simp: tail_with_truncation_def Let_def last_n_def min_def)

section \<open>Properties\<close>

text \<open>
  C6.  Whatever sequence of writes a job's output buffer receives, it holds exactly the last
  \<open>capacity\<close> bytes of the concatenated output in order, and \<^verbatim>\<open>tail_with_truncation n\<close> returns the
  last \<open>min n capacity\<close> bytes of the whole output together with a flag that is true exactly when
  output was omitted.
\<close>

theorem output_tail_exact:
  assumes "n \<le> isize_max"
  shows "tail_with_truncation (foldl push (ring_new n) chunks) m =
      (last_n (min m n) (concat chunks), min m n < length (concat chunks))
    \<and> as_bytes (foldl push (ring_new n) chunks) = last_n n (concat chunks)"
proof -
  have fold: "ring.push_all = foldl push" by (simp add: ring.push_all_def fun_eq_iff)
  have c: "as_bytes (foldl push (ring_new n) chunks) = last_n n (concat chunks)"
    "rb_overflowed (foldl push (ring_new n) chunks) = (n < length (concat chunks))"
    using ring.contents_from_empty [OF assms] ring.dropped_from_empty [OF assms] by (simp_all add: fold)
  have len: "rb_len (foldl push (ring_new n) chunks) = min n (length (concat chunks))"
    using length_as_bytes [of "foldl push (ring_new n) chunks"] unfolding c by simp
  have "last_n m (last_n n (concat chunks)) = last_n (min m n) (concat chunks)"
    by (cases "m \<le> n") (auto simp: last_n_last_n min_def)
  then show ?thesis by (auto simp: tail_with_truncation_eq c len)
qed

theorem output_tail_exact_witness:
  "(3::nat) \<le> isize_max
   \<and> tail_with_truncation (foldl push (ring_new 3) [[1, 2], [3, 4, 5]]) 2 = ([4, 5], True)"
  using output_tail_exact [of 3 "[[1, 2], [3, 4, 5]]" 2]
  by (simp add: isize_max_def last_n_def)

end
