(* ===== verification/CommandSpec.thy ===== *)
theory CommandSpec
  imports Prelude
begin

text \<open>
  The table of daemon commands and mode parameters and the lookups over it
  (\<^verbatim>\<open>crates/cue-core/src/command_spec.rs\<close>), including the edit distance behind the suggestions for a
  mistyped command, proved to be the cost of a cheapest alignment.
\<close>

datatype command_category = JobCategory | CronCategory | ScopeCategory | SystemCategory
datatype command_id_kind = IdJob | IdCron | IdJobOrCron
datatype command_arg_kind =
    ArgChain | ArgCron | ArgId command_id_kind | ArgTail command_id_kind | ArgText
  | ArgTargetText command_id_kind | ArgOptionalId command_id_kind | ArgOptionalText | ArgEmpty

definition accepts_job :: "command_id_kind \<Rightarrow> bool" where
  "accepts_job k \<longleftrightarrow> k = IdJob \<or> k = IdJobOrCron"

definition accepts_cron :: "command_id_kind \<Rightarrow> bool" where
  "accepts_cron k \<longleftrightarrow> k = IdCron \<or> k = IdJobOrCron"

fun id_kind_display :: "command_id_kind \<Rightarrow> string" where
  "id_kind_display IdJob = ''J<n>''"
| "id_kind_display IdCron = ''C<n>''"
| "id_kind_display IdJobOrCron = ''J<n> or C<n>''"

fun first_example :: "command_id_kind \<Rightarrow> string" where
  "first_example IdCron = ''C1''"
| "first_example _ = ''J1''"

record command_spec =
  spec_name :: string
  category :: command_category
  arg_kind :: command_arg_kind
  usage :: string
  spec_detail :: string
  documented :: bool

datatype mode_param_value_kind = StringValue | BoolValue

record mode_param_spec =
  mps_name :: string
  commands :: "string list"
  value_kind :: mode_param_value_kind
  value_hint :: string
  mps_detail :: string

definition MODE_PARAM_SPECS :: "mode_param_spec list" where
  "MODE_PARAM_SPECS = [
     \<lparr>mps_name = ''cwd'', commands = [''run'', ''cron''], value_kind = StringValue,
      value_hint = ''/path'', mps_detail = ''Run from this working directory without changing the session cwd''\<rparr>,
     \<lparr>mps_name = ''wrapper'', commands = [''run'', ''cron''], value_kind = BoolValue,
      value_hint = ''true'', mps_detail = ''Override the runtime wrapper for this invocation''\<rparr>,
     \<lparr>mps_name = ''scope'', commands = [''run'', ''cron''], value_kind = BoolValue,
      value_hint = ''true'', mps_detail = ''Allow run jobs to update the chain scope''\<rparr>,
     \<lparr>mps_name = ''pty'', commands = [''run''], value_kind = BoolValue,
      value_hint = ''false'', mps_detail = ''Run the job without allocating a PTY''\<rparr>,
     \<lparr>mps_name = ''sandbox'', commands = [''run''], value_kind = StringValue,
      value_hint = ''overlay'', mps_detail = ''Run the job inside an opt-in sandbox''\<rparr>,
     \<lparr>mps_name = ''sandbox.upper'', commands = [''run''], value_kind = StringValue,
      value_hint = ''tmpfs'', mps_detail = ''Use tmpfs or a directory path for the overlay sandbox upperdir''\<rparr>,
     \<lparr>mps_name = ''need.<resource>'', commands = [''run''], value_kind = StringValue,
      value_hint = ''1'', mps_detail = ''Declare a provider-owned resource need quantity''\<rparr>]"

definition COMMAND_SPECS :: "command_spec list" where
  "COMMAND_SPECS = [
     \<lparr>spec_name = ''run'', category = JobCategory, arg_kind = ArgChain,
      usage = '':run <command>'', spec_detail = ''Run a command chain as durable job(s)'', documented = True\<rparr>,
     \<lparr>spec_name = ''cron'', category = CronCategory, arg_kind = ArgCron,
      usage = '':cron <schedule> <command>'', spec_detail = ''Register a scheduled command chain'', documented = True\<rparr>,
     \<lparr>spec_name = ''kill'', category = JobCategory, arg_kind = ArgId IdJobOrCron,
      usage = '':kill <id>'', spec_detail = ''Stop a running job or remove a cron entry'', documented = True\<rparr>,
     \<lparr>spec_name = ''retry'', category = JobCategory, arg_kind = ArgId IdJob,
      usage = '':retry J<n>'', spec_detail = ''Rerun a failed job from its original start scope'', documented = True\<rparr>,
     \<lparr>spec_name = ''out'', category = JobCategory, arg_kind = ArgId IdJob,
      usage = '':out J<n>'', spec_detail = ''Read a stdout snapshot'', documented = True\<rparr>,
     \<lparr>spec_name = ''tail'', category = JobCategory, arg_kind = ArgTail IdJob,
      usage = '':tail J<n> [bytes]'', spec_detail = ''Follow live stdout, optionally capped to bytes'', documented = True\<rparr>,
     \<lparr>spec_name = ''err'', category = JobCategory, arg_kind = ArgId IdJob,
      usage = '':err J<n>'', spec_detail = ''Read stderr or merged PTY output'', documented = True\<rparr>,
     \<lparr>spec_name = ''fg'', category = JobCategory, arg_kind = ArgId IdJob,
      usage = '':fg J<n>'', spec_detail = ''Attach to a running PTY job and claim control'', documented = True\<rparr>,
     \<lparr>spec_name = ''watch'', category = JobCategory, arg_kind = ArgId IdJob,
      usage = '':watch J<n>'', spec_detail = ''Observe a running PTY job without taking control'', documented = True\<rparr>,
     \<lparr>spec_name = ''wait'', category = JobCategory, arg_kind = ArgId IdJob,
      usage = '':wait J<n>'', spec_detail = ''Wait until a job reaches a terminal state'', documented = True\<rparr>,
     \<lparr>spec_name = ''send'', category = JobCategory, arg_kind = ArgTargetText IdJob,
      usage = '':send J<n> <input>'', spec_detail = ''Write stdin to a running job'', documented = True\<rparr>,
     \<lparr>spec_name = ''cancel'', category = JobCategory, arg_kind = ArgId IdJob,
      usage = '':cancel J<n>'', spec_detail = ''Cancel a pending or running job'', documented = True\<rparr>,
     \<lparr>spec_name = ''pause'', category = CronCategory, arg_kind = ArgId IdCron,
      usage = '':pause C<n>'', spec_detail = ''Pause a scheduled cron entry'', documented = True\<rparr>,
     \<lparr>spec_name = ''resume'', category = CronCategory, arg_kind = ArgId IdCron,
      usage = '':resume C<n>'', spec_detail = ''Resume a paused cron entry'', documented = True\<rparr>,
     \<lparr>spec_name = ''log'', category = JobCategory, arg_kind = ArgOptionalId IdJobOrCron,
      usage = '':log [id]'', spec_detail = ''Show historical job and cron activity'', documented = True\<rparr>,
     \<lparr>spec_name = ''jobs'', category = JobCategory, arg_kind = ArgEmpty,
      usage = '':jobs'', spec_detail = ''List known jobs'', documented = True\<rparr>,
     \<lparr>spec_name = ''crons'', category = CronCategory, arg_kind = ArgEmpty,
      usage = '':crons'', spec_detail = ''List persisted cron entries'', documented = True\<rparr>,
     \<lparr>spec_name = ''scopes'', category = ScopeCategory, arg_kind = ArgEmpty,
      usage = '':scopes'', spec_detail = ''List known scope snapshots'', documented = True\<rparr>,
     \<lparr>spec_name = ''providers'', category = SystemCategory, arg_kind = ArgEmpty,
      usage = '':providers'', spec_detail = ''List registered resource providers and their keys'', documented = True\<rparr>,
     \<lparr>spec_name = ''resources'', category = SystemCategory, arg_kind = ArgEmpty,
      usage = '':resources'', spec_detail = ''Show resource provider capacity snapshots'', documented = True\<rparr>,
     \<lparr>spec_name = ''env'', category = ScopeCategory, arg_kind = ArgOptionalText,
      usage = '':env [subcommand]'', spec_detail = ''Inspect or update the current session environment'', documented = True\<rparr>,
     \<lparr>spec_name = ''cd'', category = ScopeCategory, arg_kind = ArgOptionalText,
      usage = '':cd <path>'', spec_detail = ''Move the current session working directory'', documented = True\<rparr>,
     \<lparr>spec_name = ''scope'', category = ScopeCategory, arg_kind = ArgOptionalText,
      usage = '':scope list'', spec_detail = ''List scope snapshots'', documented = True\<rparr>,
     \<lparr>spec_name = ''help'', category = SystemCategory, arg_kind = ArgOptionalText,
      usage = '':help [topic]'', spec_detail = ''Show command and mode help'', documented = True\<rparr>,
     \<lparr>spec_name = ''config'', category = SystemCategory, arg_kind = ArgOptionalText,
      usage = '':config [subcommand]'', spec_detail = ''Inspect runtime configuration'', documented = True\<rparr>,
     \<lparr>spec_name = ''wrap'', category = SystemCategory, arg_kind = ArgOptionalText,
      usage = '':wrap [on|off|status]'', spec_detail = ''Override or inspect the runtime wrapper'', documented = True\<rparr>,
     \<lparr>spec_name = ''pty'', category = SystemCategory, arg_kind = ArgOptionalText,
      usage = '':pty [on|off|status]'', spec_detail = (''Override or inspect this session'' @ [squote_char] @ ''s PTY default''), documented = True\<rparr>,
     \<lparr>spec_name = ''clear'', category = SystemCategory, arg_kind = ArgEmpty,
      usage = '':clear'', spec_detail = ''Clear the frontend input/output view'', documented = True\<rparr>,
     \<lparr>spec_name = ''quit'', category = SystemCategory, arg_kind = ArgEmpty,
      usage = '':quit'', spec_detail = ''Quit the frontend'', documented = True\<rparr>,
     \<lparr>spec_name = ''exit'', category = SystemCategory, arg_kind = ArgEmpty,
      usage = '':exit'', spec_detail = ''Alias for :quit'', documented = True\<rparr>]"

definition applies_to :: "mode_param_spec \<Rightarrow> string \<Rightarrow> bool" where
  "applies_to s command \<longleftrightarrow> command \<in> set (commands s)"

definition command_spec_of :: "string \<Rightarrow> command_spec option" where
  "command_spec_of n = find (\<lambda>s. spec_name s = n) COMMAND_SPECS"

definition mode_param_spec_of :: "string \<Rightarrow> mode_param_spec option" where
  "mode_param_spec_of n = find (\<lambda>s. mps_name s = n) MODE_PARAM_SPECS"

definition mode_param_spec_for_command :: "string \<Rightarrow> string \<Rightarrow> mode_param_spec option" where
  "mode_param_spec_for_command command n =
     find (\<lambda>s. mps_name s = n \<and> applies_to s command) MODE_PARAM_SPECS"

definition mode_param_specs_for_command :: "string \<Rightarrow> mode_param_spec list" where
  "mode_param_specs_for_command command = filter (\<lambda>s. applies_to s command) MODE_PARAM_SPECS"

definition command_names :: "string list" where
  "command_names = map spec_name COMMAND_SPECS"

definition accepts_mode_params :: "command_spec \<Rightarrow> bool" where
  "accepts_mode_params s \<longleftrightarrow> mode_param_specs_for_command (spec_name s) \<noteq> []"

definition visible_in_category :: "command_spec \<Rightarrow> command_category \<Rightarrow> bool" where
  "visible_in_category s c \<longleftrightarrow>
     category s = c
     \<or> (arg_kind s = ArgId IdJobOrCron \<or> arg_kind s = ArgOptionalId IdJobOrCron)
       \<and> (c = JobCategory \<or> c = CronCategory)"

section \<open>Edit distance\<close>

text \<open>The characters of a UTF-8 string, each with its continuation bytes.\<close>

definition is_continuation :: "char \<Rightarrow> bool" where
  "is_continuation c \<longleftrightarrow> 128 \<le> byte c \<and> byte c < 192"

function utf8_chars :: "string \<Rightarrow> string list" where
  "utf8_chars [] = []"
| "utf8_chars (c # cs) = (c # takeWhile is_continuation cs) # utf8_chars (dropWhile is_continuation cs)"
  by pat_completeness auto
termination by (relation "measure length") (auto simp: le_imp_less_Suc length_dropWhile_le)

definition set_cell :: "nat list list \<Rightarrow> nat \<Rightarrow> nat \<Rightarrow> nat \<Rightarrow> nat list list" where
  "set_cell dp i j v = dp[i := (dp ! i)[j := v]]"

definition dp_init :: "nat \<Rightarrow> nat \<Rightarrow> nat list list" where
  "dp_init m n =
     (let dp0 = replicate (m + 1) (replicate (n + 1) 0);
          dp1 = foldl (\<lambda>dp i. set_cell dp i 0 i) dp0 [0..<m + 1]
      in foldl (\<lambda>dp j. set_cell dp 0 j j) dp1 [0..<n + 1])"

definition dp_cell :: "'a list \<Rightarrow> 'a list \<Rightarrow> nat \<Rightarrow> nat list list \<Rightarrow> nat \<Rightarrow> nat list list" where
  "dp_cell a b i dp j =
     (let cost = (if a ! (i - 1) = b ! (j - 1) then 0 else 1)
      in set_cell dp i j
           (min (min (dp ! (i - 1) ! j + 1) (dp ! i ! (j - 1) + 1)) (dp ! (i - 1) ! (j - 1) + cost)))"

definition edit_distance_chars :: "'a list \<Rightarrow> 'a list \<Rightarrow> nat" where
  "edit_distance_chars a b =
     (let dp = foldl (\<lambda>dp i. foldl (dp_cell a b i) dp [1..<length b + 1])
                 (dp_init (length a) (length b)) [1..<length a + 1]
      in dp ! length a ! length b)"

definition edit_distance :: "string \<Rightarrow> string \<Rightarrow> nat" where
  "edit_distance a b = edit_distance_chars (utf8_chars a) (utf8_chars b)"

text \<open>
  \<open>None\<close> is the panic of \<^verbatim>\<open>&name[..1.min(name.len())]\<close> when the first character of the name takes
  more than one byte, so that byte 1 is not a character boundary.
\<close>

definition command_suggestions :: "string \<Rightarrow> string list option" where
  "command_suggestions n =
     (if n \<noteq> [] \<and> 128 \<le> byte (hd n) then None
      else Some (map spec_name
        (filter (\<lambda>s. starts_with (spec_name s) (take 1 n) \<or> edit_distance n (spec_name s) \<le> 2)
           COMMAND_SPECS)))"

section \<open>Alignments\<close>

text \<open>
  The specification: \<open>alignment a b n\<close> holds when \<open>a\<close> can be turned into \<open>b\<close> with deletions,
  insertions and substitutions of total cost \<open>n\<close>.
\<close>

inductive alignment :: "'a list \<Rightarrow> 'a list \<Rightarrow> nat \<Rightarrow> bool" where
  stop: "alignment [] [] 0"
| delete: "alignment a b n \<Longrightarrow> alignment (x # a) b (n + 1)"
| insert: "alignment a b n \<Longrightarrow> alignment a (y # b) (n + 1)"
| subst: "alignment a b n \<Longrightarrow> alignment (x # a) (y # b) (n + (if x = y then 0 else 1))"

inductive_cases alignment_NilE: "alignment [] b n"
inductive_cases alignment_ConsE: "alignment (x # a) b n"

fun lev :: "'a list \<Rightarrow> 'a list \<Rightarrow> nat" where
  "lev [] b = length b"
| "lev a [] = length a"
| "lev (x # a) (y # b) =
     min (min (lev a (y # b) + 1) (lev (x # a) b + 1)) (lev a b + (if x = y then 0 else 1))"

lemma lev_Nil2 [simp]: "lev a [] = length a"
  by (cases a) simp_all

lemma alignment_Nil_left: "alignment [] b (length b)"
  by (induction b) (auto intro: alignment.intros alignment.insert [of "[]", simplified])

lemma alignment_Nil_right: "alignment a [] (length a)"
  by (induction a) (auto intro: alignment.intros alignment.delete [of _ "[]", simplified])

lemma alignment_lev: "alignment a b (lev a b)"
proof (induction a b rule: lev.induct)
  case (3 x a y b)
  show ?case
    using alignment.delete [OF "3.IH"(1), of x] alignment.insert [OF "3.IH"(2), of y]
      alignment.subst [OF "3.IH"(3), of x y]
    by (simp add: min_def split: if_splits)
qed (simp_all add: alignment_Nil_left alignment_Nil_right del: lev.simps(2) list.size)

lemma lev_Cons_left: "lev (x # a) b \<le> lev a b + 1"
  by (cases b) simp_all

lemma lev_Cons_right: "lev a (y # b) \<le> lev a b + 1"
  by (cases a) simp_all

lemma lev_least: "alignment a b n \<Longrightarrow> lev a b \<le> n"
proof (induction rule: alignment.induct)
  case (delete a b n x)
  then show ?case using lev_Cons_left [of x a b] by linarith
next
  case (insert a b n y)
  then show ?case using lev_Cons_right [of a y b] by linarith
qed auto

lemma alignment_append:
  "alignment a b n \<Longrightarrow> alignment c d m \<Longrightarrow> alignment (a @ c) (b @ d) (n + m)"
proof (induction rule: alignment.induct)
  case (delete a b n x)
  then show ?case using alignment.delete [of "a @ c" "b @ d" "n + m" x] by simp
next
  case (insert a b n y)
  then show ?case using alignment.insert [of "a @ c" "b @ d" "n + m" y] by simp
next
  case (subst a b n x y)
  then show ?case using alignment.subst [of "a @ c" "b @ d" "n + m" x y] by (auto simp: add.commute add.left_commute split: if_splits)
qed simp

lemma alignment_rev: "alignment a b n \<Longrightarrow> alignment (rev a) (rev b) n"
proof (induction rule: alignment.induct)
  case (delete a b n x)
  then show ?case using alignment_append [OF delete.IH alignment.delete [OF alignment.stop, of x]] by simp
next
  case (insert a b n y)
  then show ?case using alignment_append [OF insert.IH alignment.insert [OF alignment.stop, of y]] by simp
next
  case (subst a b n x y)
  then show ?case using alignment_append [OF subst.IH alignment.subst [OF alignment.stop, of x y]] by simp
qed (simp add: alignment.stop)

lemma lev_rev: "lev (rev a) (rev b) = lev a b"
  by (metis alignment_lev alignment_rev lev_least antisym rev_rev_ident)

section \<open>The table\<close>

definition dp_shape :: "nat \<Rightarrow> nat \<Rightarrow> nat list list \<Rightarrow> bool" where
  "dp_shape m n dp \<longleftrightarrow> length dp = m + 1 \<and> (\<forall>i\<le>m. length (dp ! i) = n + 1)"

lemma dp_shape_set_cell: "dp_shape m n dp \<Longrightarrow> dp_shape m n (set_cell dp i j v)"
  by (cases "i \<le> m") (auto simp: dp_shape_def set_cell_def nth_list_update)

lemma set_cell_nth:
  "dp_shape m n dp \<Longrightarrow> i \<le> m \<Longrightarrow> j \<le> n \<Longrightarrow> i' \<le> m \<Longrightarrow>
   set_cell dp i j v ! i' ! j' = (if i' = i \<and> j' = j then v else dp ! i' ! j')"
  by (auto simp: dp_shape_def set_cell_def nth_list_update)

lemma dp_column:
  "k \<le> m + 1 \<Longrightarrow> dp_shape m n dp \<Longrightarrow>
   dp_shape m n (foldl (\<lambda>dp i. set_cell dp i 0 i) dp [0..<k])
   \<and> (\<forall>i\<le>m. \<forall>j. foldl (\<lambda>dp i. set_cell dp i 0 i) dp [0..<k] ! i ! j
        = (if j = 0 \<and> i < k then i else dp ! i ! j))"
  by (induction k) (auto simp: dp_shape_set_cell set_cell_nth)

lemma dp_row:
  "k \<le> n + 1 \<Longrightarrow> dp_shape m n dp \<Longrightarrow>
   dp_shape m n (foldl (\<lambda>dp j. set_cell dp 0 j j) dp [0..<k])
   \<and> (\<forall>i\<le>m. \<forall>j. foldl (\<lambda>dp j. set_cell dp 0 j j) dp [0..<k] ! i ! j
        = (if i = 0 \<and> j < k then j else dp ! i ! j))"
  by (induction k) (auto simp: dp_shape_set_cell set_cell_nth)

lemma dp_init_spec:
  "dp_shape m n (dp_init m n) \<and> (\<forall>i\<le>m. dp_init m n ! i ! 0 = i) \<and> (\<forall>j\<le>n. dp_init m n ! 0 ! j = j)"
proof -
  have "dp_shape m n (replicate (m + 1) (replicate (n + 1) 0))"
    by (auto simp: dp_shape_def nth_append simp del: replicate.simps)
  from dp_column [OF le_refl this] dp_row [OF le_refl, of m n] show ?thesis
    by (auto simp: dp_init_def Let_def simp del: upt_Suc replicate.simps)
qed

text \<open>The value every cell has to have.\<close>

abbreviation dval :: "'a list \<Rightarrow> 'a list \<Rightarrow> nat \<Rightarrow> nat \<Rightarrow> nat" where
  "dval a b i j \<equiv> lev (rev (take i a)) (rev (take j b))"

lemma dval_Suc:
  "i < length a \<Longrightarrow> j < length b \<Longrightarrow> dval a b (Suc i) (Suc j) =
     min (min (dval a b i (Suc j) + 1) (dval a b (Suc i) j + 1))
       (dval a b i j + (if a ! i = b ! j then 0 else 1))"
  by (simp add: take_Suc_conv_app_nth)

definition dp_filled :: "'a list \<Rightarrow> 'a list \<Rightarrow> nat \<Rightarrow> nat \<Rightarrow> nat list list \<Rightarrow> bool" where
  "dp_filled a b i k dp \<longleftrightarrow> dp_shape (length a) (length b) dp
     \<and> (\<forall>i'\<le>length a. dp ! i' ! 0 = i')
     \<and> (\<forall>i'<i. \<forall>j\<le>length b. dp ! i' ! j = dval a b i' j)
     \<and> (\<forall>j\<le>k. dp ! i ! j = dval a b i j)"

lemma dp_cell_step:
  assumes "dp_filled a b (Suc i) k dp" "i < length a" "k < length b"
  shows "dp_filled a b (Suc i) (Suc k) (dp_cell a b (Suc i) dp (Suc k))"
proof -
  have sh: "dp_shape (length a) (length b) dp" using assms(1) by (simp add: dp_filled_def)
  note nth = set_cell_nth [OF sh, of "Suc i" "Suc k"]
  have v: "dp ! i ! Suc k = dval a b i (Suc k)" "dp ! Suc i ! k = dval a b (Suc i) k" "dp ! i ! k = dval a b i k"
    using assms by (auto simp: dp_filled_def)
  show ?thesis
    using assms sh v
    by (auto simp: dp_cell_def Let_def dp_filled_def dp_shape_set_cell nth le_Suc_eq dval_Suc)
qed

lemma dp_inner:
  assumes "dp_filled a b (Suc i) 0 dp" "i < length a"
  shows "k \<le> length b \<Longrightarrow> dp_filled a b (Suc i) k (foldl (dp_cell a b (Suc i)) dp [1..<k + 1])"
  using assms by (induction k) (auto intro: dp_cell_step)

lemma dp_next_row:
  assumes "dp_filled a b i (length b) dp" "i < length a"
  shows "dp_filled a b (Suc i) 0 dp"
  using assms by (auto simp: dp_filled_def less_Suc_eq)

lemma dp_outer:
  assumes "dp_filled a b 0 (length b) dp"
  shows "m \<le> length a \<Longrightarrow> dp_filled a b m (length b)
    (foldl (\<lambda>dp i. foldl (dp_cell a b i) dp [1..<length b + 1]) dp [1..<m + 1])"
proof (induction m)
  case (Suc m)
  then have "dp_filled a b (Suc m) 0 (foldl (\<lambda>dp i. foldl (dp_cell a b i) dp [1..<length b + 1]) dp [1..<m + 1])"
    by (intro dp_next_row) auto
  from dp_inner [OF this, of "length b"] Suc.prems show ?case by simp
qed (use assms in simp)

lemma edit_distance_chars_lev: "edit_distance_chars a b = lev a b"
proof -
  have "dp_filled a b 0 (length b) (dp_init (length a) (length b))"
    using dp_init_spec [of "length a" "length b"] by (auto simp: dp_filled_def)
  from dp_outer [OF this le_refl] show ?thesis
    by (simp add: edit_distance_chars_def Let_def dp_filled_def lev_rev)
qed

section \<open>Properties\<close>

text \<open>
  C33.  The table-based edit distance is the Levenshtein distance: it is the cost of some
  alignment of the characters of the two strings, and no alignment is cheaper.
\<close>

theorem edit_distance_optimal:
  "alignment (utf8_chars a) (utf8_chars b) (edit_distance a b)
   \<and> (\<nexists>n. n < edit_distance a b \<and> alignment (utf8_chars a) (utf8_chars b) n)"
  using alignment_lev [of "utf8_chars a" "utf8_chars b"] lev_least [of "utf8_chars a" "utf8_chars b"]
  by (auto simp: edit_distance_def edit_distance_chars_lev not_less [symmetric])

end
