(* ===== verification/BTree.thy ===== *)
theory BTree
  imports Interfaces "HOL-Library.List_Lexorder" "HOL-Library.Char_ord"
begin

text \<open>
  The standard library's \<^verbatim>\<open>BTreeMap\<close> as the program uses it: an association list sorted by key.
  Strings are compared byte by byte, as Rust compares them.  The map interprets the interface
  \<open>dict\<close>; sortedness makes the representation canonical, so equal contents are equal values, as
  \<^verbatim>\<open>PartialEq\<close> on \<^verbatim>\<open>BTreeMap\<close> has it.
\<close>

type_synonym ('k, 'v) btree = "('k \<times> 'v) list"

fun bt_insert :: "'k::linorder \<Rightarrow> 'v \<Rightarrow> ('k, 'v) btree \<Rightarrow> ('k, 'v) btree" where
  "bt_insert k v [] = [(k, v)]"
| "bt_insert k v ((k', v') # m) =
     (if k < k' then (k, v) # (k', v') # m
      else if k = k' then (k, v) # m
      else (k', v') # bt_insert k v m)"

definition bt_get :: "('k, 'v) btree \<Rightarrow> 'k \<Rightarrow> 'v option" where
  "bt_get m k = map_of m k"

definition bt_remove :: "'k \<Rightarrow> ('k, 'v) btree \<Rightarrow> ('k, 'v) btree" where
  "bt_remove k m = filter (\<lambda>(k', _). k' \<noteq> k) m"

definition bt_contains :: "('k, 'v) btree \<Rightarrow> 'k \<Rightarrow> bool" where
  "bt_contains m k \<longleftrightarrow> k \<in> set (map fst m)"

definition bt_keys :: "('k, 'v) btree \<Rightarrow> 'k list" where
  "bt_keys m = map fst m"

definition bt_wf :: "('k::linorder, 'v) btree \<Rightarrow> bool" where
  "bt_wf m \<longleftrightarrow> sorted_wrt (<) (map fst m)"

definition bt_from_list :: "('k::linorder \<times> 'v) list \<Rightarrow> ('k, 'v) btree" where
  "bt_from_list kvs = foldl (\<lambda>m (k, v). bt_insert k v m) [] kvs"

lemma bt_wf_Nil [simp]: "bt_wf []"
  by (simp add: bt_wf_def)

lemma bt_wf_Cons: "bt_wf ((k, v) # m) \<longleftrightarrow> (\<forall>k'\<in>fst ` set m. k < k') \<and> bt_wf m"
  by (simp add: bt_wf_def)

lemma keys_bt_insert [simp]: "fst ` set (bt_insert k v m) = insert k (fst ` set m)"
  by (induction k v m rule: bt_insert.induct) (auto simp: image_iff)

lemma bt_wf_insert [simp]: "bt_wf m \<Longrightarrow> bt_wf (bt_insert k v m)"
  by (induction k v m rule: bt_insert.induct) (auto simp: bt_wf_Cons dest: order.strict_trans)

lemma bt_wf_remove [simp]: "bt_wf m \<Longrightarrow> bt_wf (bt_remove k m)"
  by (induction m) (auto simp: bt_wf_Cons bt_remove_def)

lemma bt_get_insert [simp]: "bt_get (bt_insert k v m) k' = (if k' = k then Some v else bt_get m k')"
  by (induction k v m rule: bt_insert.induct) (auto simp: bt_get_def)

lemma bt_get_remove [simp]: "bt_get (bt_remove k m) k' = (if k' = k then None else bt_get m k')"
  by (induction m) (auto simp: bt_get_def bt_remove_def)

lemma bt_get_Nil [simp]: "bt_get [] k = None"
  by (simp add: bt_get_def)

lemma bt_contains_iff: "bt_contains m k \<longleftrightarrow> bt_get m k \<noteq> None"
  by (simp add: bt_contains_def bt_get_def map_of_eq_None_iff)

lemma bt_wf_distinct: "bt_wf m \<Longrightarrow> distinct (map fst m)"
  by (simp add: bt_wf_def strict_sorted_iff)

lemma map_of_rev: "distinct (map fst m) \<Longrightarrow> map_of (rev m) k = map_of m k"
  by (induction m) (auto simp: map_add_def map_of_eq_None_iff [symmetric] split: option.splits)

lemma bt_get_Some_iff: "bt_wf m \<Longrightarrow> bt_get m k = Some v \<longleftrightarrow> (k, v) \<in> set m"
  by (simp add: bt_get_def bt_wf_distinct)

text \<open>The representation is canonical.\<close>

lemma bt_ext:
  assumes "bt_wf a" "bt_wf b" "\<And>k. bt_get a k = bt_get b k"
  shows "a = b"
proof -
  have "set a = set b"
    using bt_get_Some_iff [OF assms(1)] bt_get_Some_iff [OF assms(2)] assms(3) by auto
  moreover have "inj_on fst (set a)"
    using bt_wf_distinct [OF assms(1)] by (simp add: distinct_map)
  ultimately show ?thesis
    using assms(1,2) by (intro map_sorted_distinct_set_unique [of fst]) (auto simp: bt_wf_def strict_sorted_iff)
qed

interpretation btree: dict "[]" bt_get bt_insert bt_remove bt_wf
  by unfold_locales auto

lemma bt_from_list_eq: "bt_from_list kvs = btree.put_all [] kvs"
  by (simp add: bt_from_list_def btree.put_all_def)

lemma bt_wf_from_list [simp]: "bt_wf (bt_from_list kvs)"
  by (simp add: bt_from_list_eq btree.inv_put_all)

lemma bt_get_from_list: "bt_get (bt_from_list kvs) k = map_of (rev kvs) k"
  by (simp add: bt_from_list_eq btree.get_put_all split: option.splits)

end
