(* ===== verification/Resource.thy ===== *)
theory Resource
  imports BTree Ids
begin

text \<open>
  Resource scheduling types (\<^verbatim>\<open>crates/cue-core/src/resource.rs\<close>): quantities with checked
  arithmetic, their textual form, the \<^verbatim>\<open>Need\<close> of a job, the units and snapshots a provider reports,
  reservations and rejections.  \<^verbatim>\<open>SystemTime\<close> is a count of nanoseconds since the epoch; the clock
  is an argument of the constructors that read it.
\<close>

datatype provider_id = ProviderId (pid_str: string)
datatype reservation_id = ReservationId (rid_str: string)

text \<open>Provider ids are ordered as their strings.\<close>

instantiation provider_id :: linorder
begin

fun less_eq_provider_id :: "provider_id \<Rightarrow> provider_id \<Rightarrow> bool" where
  "less_eq_provider_id (ProviderId a) (ProviderId b) = (a \<le> b)"

fun less_provider_id :: "provider_id \<Rightarrow> provider_id \<Rightarrow> bool" where
  "less_provider_id (ProviderId a) (ProviderId b) = (a < b)"

instance
proof
  fix x y z :: provider_id
  show "(x < y) = (x \<le> y \<and> \<not> y \<le> x)" by (cases x; cases y) auto
  show "x \<le> x" by (cases x) auto
  show "x \<le> y \<Longrightarrow> y \<le> z \<Longrightarrow> x \<le> z" by (cases x; cases y; cases z) auto
  show "x \<le> y \<Longrightarrow> y \<le> x \<Longrightarrow> x = y" by (cases x; cases y) auto
  show "x \<le> y \<or> y \<le> x" by (cases x; cases y) auto
qed

end

datatype resource_quantity = Count u64 | Bytes u64

section \<open>Quantities\<close>

fun quantity_checked_add :: "resource_quantity \<Rightarrow> resource_quantity \<Rightarrow> resource_quantity option" where
  "quantity_checked_add (Count a) (Count b) = map_option Count (checked_add a b)"
| "quantity_checked_add (Bytes a) (Bytes b) = map_option Bytes (checked_add a b)"
| "quantity_checked_add _ _ = None"

fun quantity_saturating_sub :: "resource_quantity \<Rightarrow> resource_quantity \<Rightarrow> resource_quantity option" where
  "quantity_saturating_sub (Count a) (Count b) = Some (Count (saturating_sub a b))"
| "quantity_saturating_sub (Bytes a) (Bytes b) = Some (Bytes (saturating_sub a b))"
| "quantity_saturating_sub _ _ = None"

fun quantity_as_bytes :: "resource_quantity \<Rightarrow> u64 option" where
  "quantity_as_bytes (Bytes n) = Some n"
| "quantity_as_bytes (Count _) = None"

fun quantity_as_count :: "resource_quantity \<Rightarrow> u64 option" where
  "quantity_as_count (Count n) = Some n"
| "quantity_as_count (Bytes _) = None"

fun flavour :: "resource_quantity \<Rightarrow> string" where
  "flavour (Count _) = ''count''"
| "flavour (Bytes _) = ''bytes''"

definition KIB :: u64 where "KIB = 1024"
definition MIB :: u64 where "MIB = 1024 * KIB"
definition GIB :: u64 where "GIB = 1024 * MIB"
definition TIB :: u64 where "TIB = 1024 * GIB"
definition PIB :: u64 where "PIB = 1024 * TIB"
definition KB :: u64 where "KB = 1000"
definition MB :: u64 where "MB = 1000 * KB"
definition GB :: u64 where "GB = 1000 * MB"
definition TB :: u64 where "TB = 1000 * GB"
definition PB :: u64 where "PB = 1000 * TB"

definition is_multiple_of :: "u64 \<Rightarrow> u64 \<Rightarrow> bool" where
  "is_multiple_of a b \<longleftrightarrow> (if b = 0 then a = 0 else a mod b = 0)"

definition format_bytes_iec :: "u64 \<Rightarrow> string" where
  "format_bytes_iec bytes =
     (if bytes = 0 then ''0B''
      else if is_multiple_of bytes TIB then show_u64 (bytes div TIB) @ ''TiB''
      else if is_multiple_of bytes GIB then show_u64 (bytes div GIB) @ ''GiB''
      else if is_multiple_of bytes MIB then show_u64 (bytes div MIB) @ ''MiB''
      else if is_multiple_of bytes KIB then show_u64 (bytes div KIB) @ ''KiB''
      else show_u64 bytes @ ''B'')"

fun show_quantity :: "resource_quantity \<Rightarrow> string" where
  "show_quantity (Count n) = show_u64 n"
| "show_quantity (Bytes n) = format_bytes_iec n"

datatype parse_quantity_reason = QEmpty | InvalidNumber | InvalidSuffix string | QOverflow

record parse_quantity_error =
  pq_input :: string
  pq_reason :: parse_quantity_reason

definition unit_multiplier :: "string \<Rightarrow> u64 option" where
  "unit_multiplier suf =
     (if suf \<in> set [''B'', ''b''] then Some 1
      else if suf \<in> set [''KiB'', ''Ki'', ''kiB'', ''ki''] then Some KIB
      else if suf \<in> set [''MiB'', ''Mi'', ''miB'', ''mi''] then Some MIB
      else if suf \<in> set [''GiB'', ''Gi'', ''giB'', ''gi''] then Some GIB
      else if suf \<in> set [''TiB'', ''Ti'', ''tiB'', ''ti''] then Some TIB
      else if suf \<in> set [''PiB'', ''Pi'', ''piB'', ''pi''] then Some PIB
      else if suf \<in> set [''KB'', ''kB'', ''K'', ''k''] then Some KB
      else if suf \<in> set [''MB'', ''M''] then Some MB
      else if suf \<in> set [''GB'', ''G''] then Some GB
      else if suf \<in> set [''TB'', ''T''] then Some TB
      else if suf \<in> set [''PB'', ''P''] then Some PB
      else None)"

definition number_char :: "char \<Rightarrow> bool" where
  "number_char ch \<longleftrightarrow> is_ascii_digit ch \<or> ch = CHR ''_''"

definition parse_quantity :: "string \<Rightarrow> (parse_quantity_error, resource_quantity) result" where
  "parse_quantity input =
     (let trimmed = trim input;
          fail = \<lambda>r. Inl \<lparr>pq_input = input, pq_reason = r\<rparr>
      in if trimmed = [] then fail QEmpty
         else
           let num_part = takeWhile number_char trimmed;
               suf = trim (dropWhile number_char trimmed)
           in if num_part = [] then fail InvalidNumber
              else (case parse_u64 (filter (\<lambda>c. c \<noteq> CHR ''_'') num_part) of
                      None \<Rightarrow> fail InvalidNumber
                    | Some value \<Rightarrow>
                        if suf = [] then Inr (Count value)
                        else (case unit_multiplier suf of
                                None \<Rightarrow> fail (InvalidSuffix suf)
                              | Some multiplier \<Rightarrow>
                                  (case checked_mul value multiplier of
                                     None \<Rightarrow> fail QOverflow
                                   | Some bytes \<Rightarrow> Inr (Bytes bytes)))))"

section \<open>Needs\<close>

text \<open>The map a \<^verbatim>\<open>Need\<close> wraps.\<close>

type_synonym need = "(string, resource_quantity) btree"

definition need_from_pairs :: "(string \<times> resource_quantity) list \<Rightarrow> need" where
  "need_from_pairs kvs = bt_from_list kvs"

definition need_insert :: "string \<Rightarrow> resource_quantity \<Rightarrow> need \<Rightarrow> need" where
  "need_insert k v n = bt_insert k v n"

definition need_get :: "need \<Rightarrow> string \<Rightarrow> resource_quantity option" where
  "need_get n k = bt_get n k"

definition need_contains :: "need \<Rightarrow> string \<Rightarrow> bool" where
  "need_contains n k = bt_contains n k"

definition need_is_empty :: "need \<Rightarrow> bool" where
  "need_is_empty n \<longleftrightarrow> n = []"

fun need_select_from :: "need \<Rightarrow> string list \<Rightarrow> need \<Rightarrow> need" where
  "need_select_from n [] out = out"
| "need_select_from n (k # ks) out =
     need_select_from n ks (case bt_get n k of Some v \<Rightarrow> bt_insert k v out | None \<Rightarrow> out)"

definition need_select :: "need \<Rightarrow> string list \<Rightarrow> need" where
  "need_select n selected = need_select_from n selected []"

section \<open>Units, snapshots, reservations and rejections\<close>

record resource_unit =
  unit_id :: string
  attrs :: "(string, resource_quantity) btree"

definition unit_new :: "string \<Rightarrow> resource_unit" where
  "unit_new i = \<lparr>unit_id = i, attrs = []\<rparr>"

definition with_attr :: "string \<Rightarrow> resource_quantity \<Rightarrow> resource_unit \<Rightarrow> resource_unit" where
  "with_attr k v u = u\<lparr>attrs := bt_insert k v (attrs u)\<rparr>"

record snapshot =
  snap_provider_id :: provider_id
  units :: "resource_unit list"
  captured_at :: int

definition snapshot_at :: "provider_id \<Rightarrow> resource_unit list \<Rightarrow> int \<Rightarrow> snapshot" where
  "snapshot_at p us t = \<lparr>snap_provider_id = p, units = us, captured_at = t\<rparr>"

record reservation =
  res_id :: reservation_id
  res_job_id :: job_id
  res_provider_id :: provider_id
  res_env :: "(string, string) btree"
  res_info :: "(string, resource_quantity) btree"
  acquired_at :: int

definition reservation_new :: "int \<Rightarrow> reservation_id \<Rightarrow> job_id \<Rightarrow> provider_id \<Rightarrow> reservation" where
  "reservation_new now i j p =
     \<lparr>res_id = i, res_job_id = j, res_provider_id = p, res_env = [], res_info = [], acquired_at = now\<rparr>"

definition with_env :: "(string, string) btree \<Rightarrow> reservation \<Rightarrow> reservation" where
  "with_env e r = r\<lparr>res_env := e\<rparr>"

definition with_info :: "(string, resource_quantity) btree \<Rightarrow> reservation \<Rightarrow> reservation" where
  "with_info i r = r\<lparr>res_info := i\<rparr>"

record reject =
  rej_reason :: string
  rej_needed :: "resource_quantity option"
  rej_available :: "resource_quantity option"
  rej_key :: "string option"

definition reject_new :: "string \<Rightarrow> reject" where
  "reject_new r = \<lparr>rej_reason = r, rej_needed = None, rej_available = None, rej_key = None\<rparr>"

definition with_demand :: "string \<Rightarrow> resource_quantity \<Rightarrow> reject \<Rightarrow> reject" where
  "with_demand k q r = r\<lparr>rej_key := Some k, rej_needed := Some q\<rparr>"

definition with_available :: "resource_quantity \<Rightarrow> reject \<Rightarrow> reject" where
  "with_available q r = r\<lparr>rej_available := Some q\<rparr>"

text \<open>
  \<^verbatim>\<open>unix_millis\<close>, which is also what the serde helper writes: whole milliseconds of the distance
  from the epoch, with the sign of the direction, truncated to 64 bits.
\<close>

definition unix_millis :: "int \<Rightarrow> 64 word" where
  "unix_millis t =
     (if 0 \<le> t then word_of_int (t div 1000000) else - word_of_int ((- t) div 1000000))"

section \<open>Arithmetic\<close>

fun amount :: "resource_quantity \<Rightarrow> nat" where
  "amount (Count n) = unat n"
| "amount (Bytes n) = unat n"

lemma quantity_eq_iff: "a = b \<longleftrightarrow> flavour a = flavour b \<and> amount a = amount b"
  by (cases a; cases b) (auto simp: word_unat_eq_iff)

lemma quantity_checked_add_Some:
  "quantity_checked_add a b = Some c \<longleftrightarrow>
     flavour a = flavour b \<and> flavour c = flavour a \<and> amount c = amount a + amount b"
  by (cases a; cases b; cases c) (auto simp: number_simps)

lemma quantity_checked_add_None:
  "quantity_checked_add a b = None \<longleftrightarrow> flavour a \<noteq> flavour b \<or> 2 ^ 64 \<le> amount a + amount b"
  by (cases a; cases b) (auto simp: number_simps)

lemma quantity_saturating_sub_Some:
  "quantity_saturating_sub a b = Some c \<longleftrightarrow>
     flavour a = flavour b \<and> flavour c = flavour a \<and> amount c = amount a - amount b"
  by (cases a; cases b; cases c) (auto simp: unat_saturating_sub word_unat_eq_iff)

section \<open>Text\<close>

lemmas unit_values = KIB_def MIB_def GIB_def TIB_def PIB_def KB_def MB_def GB_def TB_def PB_def

lemma number_char_digit: "is_ascii_digit c \<Longrightarrow> number_char c"
  by (simp add: number_char_def)

lemma parse_quantity_digits:
  assumes "all_digits d" and "sf \<noteq> [] \<Longrightarrow> \<not> number_char (hd sf)" and "word_ok (d @ sf)"
    and "digits_value d < 2 ^ 64"
  shows "parse_quantity (d @ sf) =
    (if sf = [] then Inr (Count (of_nat (digits_value d)))
     else case unit_multiplier sf of
       None \<Rightarrow> Inl \<lparr>pq_input = d @ sf, pq_reason = InvalidSuffix sf\<rparr>
     | Some m \<Rightarrow> (case checked_mul (of_nat (digits_value d)) m of
          None \<Rightarrow> Inl \<lparr>pq_input = d @ sf, pq_reason = QOverflow\<rparr>
        | Some b \<Rightarrow> Inr (Bytes b)))"
proof -
  have d: "d \<noteq> []" "\<forall>c\<in>set d. is_ascii_digit c" using assms(1) by (auto simp: all_digits_def list_all_iff)
  have tw: "takeWhile number_char (d @ sf) = d" "dropWhile number_char (d @ sf) = sf"
    using d assms(2) by (cases sf; auto simp: takeWhile_append2 dropWhile_append2 number_char_digit)+
  have fl: "filter (\<lambda>c. c \<noteq> CHR ''_'') d = d"
    using d(2) by (auto simp: filter_id_conv is_ascii_digit_def)
  have "sf \<noteq> [] \<Longrightarrow> word_ok sf" using assms(3) by (auto simp: word_ok_def)
  then have ts: "trim sf = sf" using trim_word [of sf]
    by (cases "sf = []") simp_all
  have pu: "parse_u64 d = Some (of_nat (digits_value d))"
    using assms(1,4) by (simp add: parse_u64_def parse_uint_digits)
  show ?thesis
    unfolding parse_quantity_def trim_word [OF assms(3)] Let_def tw fl ts pu
    using d(1) by (simp split: option.splits)
qed

lemma unat_div_mult:
  fixes b u :: u64
  assumes "is_multiple_of b u" "u \<noteq> 0"
  shows "checked_mul (b div u) u = Some b"
proof -
  have "unat b mod unat u = 0" using assms by (simp add: is_multiple_of_def word_unat_eq_iff unat_mod_distrib)
  then show ?thesis unfolding checked_mul_Some unat_div_distrib by (simp add: minus_mod_eq_div_mult [symmetric])
qed

lemma parse_scaled:
  assumes "unit_multiplier sf = Some u" "checked_mul a u = Some b"
    and "sf \<noteq> []" "\<not> number_char (hd sf)" "word_ok sf"
  shows "parse_quantity (show_u64 a @ sf) = Inr (Bytes b)"
proof -
  have "word_ok (show_u64 a)" by (rule all_digits_word_ok) simp
  then have w: "word_ok (show_u64 a @ sf)" using assms(5) by (auto simp: word_ok_def)
  have v: "digits_value (show_u64 a) = unat a" by (simp add: show_u64_def)
  have "unat a < 2 ^ 64" using unsigned_less [of a] by simp
  then show ?thesis
    using assms(1-4) by (subst parse_quantity_digits) (auto simp: v w)
qed

lemma iec_suffixes:
  "unit_multiplier ''TiB'' = Some TIB" "unit_multiplier ''GiB'' = Some GIB"
  "unit_multiplier ''MiB'' = Some MIB" "unit_multiplier ''KiB'' = Some KIB" "unit_multiplier ''B'' = Some 1"
  by (simp_all add: unit_multiplier_def)

lemma iec_words:
  "sf \<in> set [''TiB'', ''GiB'', ''MiB'', ''KiB'', ''B''] \<Longrightarrow> sf \<noteq> [] \<and> \<not> number_char (hd sf) \<and> word_ok sf"
  by (auto simp: number_char_def is_ascii_digit_def word_ok_def is_whitespace_def)

lemma units_nonzero: "TIB \<noteq> 0" "GIB \<noteq> 0" "MIB \<noteq> 0" "KIB \<noteq> 0"
  by (simp_all add: unit_values)

interpretation quantity_codec: text_codec show_quantity parse_quantity "\<lambda>_. True"
proof
  fix q :: resource_quantity
  show "parse_quantity (show_quantity q) = Inr q"
  proof (cases q)
    case (Count n)
    have "unat n < 2 ^ 64" using unsigned_less [of n] by simp
    then show ?thesis
      using parse_quantity_digits [of "show_u64 n" "[]"] all_digits_word_ok [of "show_u64 n"]
      by (simp add: Count) (simp add: show_u64_def)
  next
    case (Bytes n)
    have "char_of (48::nat) = CHR ''0''" by code_simp
    then have zero: "parse_quantity ''0B'' = Inr (Bytes 0)"
      using parse_scaled [of "''B''" 1 0 0] iec_words [of "''B''"]
      by (simp add: iec_suffixes checked_mul_def show_u64_def show_nat.simps digit_char_def)
    have one: "checked_mul n 1 = Some n" by (simp add: checked_mul_Some)
    have sc: "is_multiple_of n u \<Longrightarrow> parse_quantity (show_u64 (n div u) @ sf) = Inr (Bytes n)"
      if "unit_multiplier sf = Some u" "sf \<in> set [''TiB'', ''GiB'', ''MiB'', ''KiB'', ''B'']" "u \<noteq> 0" for sf u
      using parse_scaled [OF that(1) unat_div_mult] that(3) iec_words [OF that(2)] by blast
    have plain: "parse_quantity (show_u64 n @ ''B'') = Inr (Bytes n)"
      using parse_scaled [OF iec_suffixes(5) one] iec_words [of "''B''"] by simp
    note scaled = sc [OF iec_suffixes(1)] sc [OF iec_suffixes(2)] sc [OF iec_suffixes(3)] sc [OF iec_suffixes(4)]
    show ?thesis
      by (simp add: Bytes format_bytes_iec_def zero plain scaled units_nonzero)
  qed
qed

lemma need_select_from_get:
  "bt_wf out \<Longrightarrow> bt_wf (need_select_from n ks out) \<and>
   bt_get (need_select_from n ks out) k =
     (if k \<in> set ks \<and> bt_get n k \<noteq> None then bt_get n k else bt_get out k)"
  by (induction n ks out rule: need_select_from.induct) (auto split: option.splits)

lemma need_select_get:
  "need_get (need_select n ks) k = (if k \<in> set ks then need_get n k else None)"
  using need_select_from_get [of "[]" n ks k] by (auto simp: need_select_def need_get_def)

lemma need_select_wf: "bt_wf (need_select n ks)"
  using need_select_from_get [of "[]" n ks] by (simp add: need_select_def)

section \<open>Properties\<close>

text \<open>
   Quantities are exact: a resource quantity parses back from its display form (the largest
  exact IEC unit, or a plain count); adding two quantities gives the exact sum, and nothing exactly
  when the flavours differ or the sum does not fit 64 bits; subtraction stops at zero and never
  mixes flavours.
\<close>

theorem quantities_exact:
  "parse_quantity (show_quantity q) = Inr q
   \<and> (quantity_checked_add a b = None \<longleftrightarrow> \<not> (flavour a = flavour b \<and> amount a + amount b < 2 ^ 64))
   \<and> (quantity_checked_add a b = Some c \<longleftrightarrow>
        flavour a = flavour b \<and> flavour c = flavour a \<and> amount c = amount a + amount b)
   \<and> (quantity_saturating_sub a b = Some c \<longleftrightarrow>
        flavour a = flavour b \<and> flavour c = flavour a \<and> amount c = amount a - amount b)"
  using quantity_codec.parse_print quantity_checked_add_None quantity_checked_add_Some
    quantity_saturating_sub_Some by (simp add: not_less)

end
