(* ===== verification/Job.thy ===== *)
theory Job
  imports Resource Pipeline
begin

text \<open>
  Jobs and per-invocation parameters: \<^verbatim>\<open>crates/cue-core/src/job.rs\<close> (launch options, status),
  \<^verbatim>\<open>process_status.rs\<close> (exit codes), \<^verbatim>\<open>command.rs\<close> (mode parameters), \<^verbatim>\<open>mode.rs\<close> and
  \<^verbatim>\<open>event_channel.rs\<close>.  Paths are strings.
\<close>

section \<open>Job state\<close>

datatype sandbox_mode = Overlay
datatype sandbox_upper = Directory string | Tmpfs

record sandbox_settings =
  sb_mode :: sandbox_mode
  sb_upper :: "sandbox_upper option"

record launch_options =
  lo_pty :: "bool option"
  lo_needs :: need
  lo_sandbox :: "sandbox_settings option"

definition default_launch_options :: launch_options where
  "default_launch_options = \<lparr>lo_pty = None, lo_needs = [], lo_sandbox = None\<rparr>"

datatype cancel_reason = UserCancel | ChainAborted | Timeout
datatype job_status = Pending | Running | Done | Failed | Killed | Cancelled cancel_reason

fun job_is_terminal :: "job_status \<Rightarrow> bool" where
  "job_is_terminal Done = True"
| "job_is_terminal Failed = True"
| "job_is_terminal Killed = True"
| "job_is_terminal (Cancelled _) = True"
| "job_is_terminal _ = False"

fun job_label :: "job_status \<Rightarrow> string" where
  "job_label Pending = ''pending''"
| "job_label Running = ''running''"
| "job_label Done = ''done''"
| "job_label Failed = ''failed''"
| "job_label Killed = ''killed''"
| "job_label (Cancelled _) = ''cancelled''"

text \<open>What \<^verbatim>\<open>std::process::ExitStatus\<close> exposes on Unix.\<close>

record exit_status =
  es_code :: "i32 option"
  es_signal :: "i32 option"

definition exit_code_from_status :: "exit_status \<Rightarrow> i32 \<Rightarrow> i32" where
  "exit_code_from_status status unavailable_exit_code =
     (case es_code status of
        Some code \<Rightarrow> code
      | None \<Rightarrow> (case es_signal status of Some signal \<Rightarrow> 128 + signal | None \<Rightarrow> unavailable_exit_code))"

section \<open>Modes and mode parameters\<close>

datatype mode = JobMode | CronMode

fun mode_next :: "mode \<Rightarrow> mode" where
  "mode_next JobMode = CronMode"
| "mode_next CronMode = JobMode"

fun mode_indicator :: "mode \<Rightarrow> string" where
  "mode_indicator JobMode = map char_of [0xE2::nat, 0x9A, 0xA1] @ '' JOB''"
| "mode_indicator CronMode = map char_of [0xE2::nat, 0x8F, 0xB0] @ '' CRON''"

fun mode_default_command :: "mode \<Rightarrow> string" where
  "mode_default_command JobMode = ''run''"
| "mode_default_command CronMode = ''cron''"

fun show_mode :: "mode \<Rightarrow> string" where
  "show_mode JobMode = ''Job''"
| "show_mode CronMode = ''Cron''"

datatype param_value = PStr string | PBool bool

type_synonym mode_params = "(string, param_value) btree"

definition mp_get :: "mode_params \<Rightarrow> string \<Rightarrow> param_value option" where
  "mp_get mp k = bt_get mp k"

definition mp_insert :: "string \<Rightarrow> param_value \<Rightarrow> mode_params \<Rightarrow> mode_params" where
  "mp_insert k v mp = bt_insert k v mp"

definition mp_cwd :: "mode_params \<Rightarrow> string option" where
  "mp_cwd mp = (case mp_get mp ''cwd'' of Some (PStr s) \<Rightarrow> Some s | _ \<Rightarrow> None)"

definition mp_wrapper_enabled :: "mode_params \<Rightarrow> bool option" where
  "mp_wrapper_enabled mp = (case mp_get mp ''wrapper'' of Some (PBool b) \<Rightarrow> Some b | _ \<Rightarrow> None)"

definition mp_scope :: "mode_params \<Rightarrow> bool option" where
  "mp_scope mp = (case mp_get mp ''scope'' of Some (PBool b) \<Rightarrow> Some b | _ \<Rightarrow> None)"

definition mp_pty_enabled :: "mode_params \<Rightarrow> bool" where
  "mp_pty_enabled mp = (case mp_get mp ''pty'' of Some (PBool b) \<Rightarrow> b | _ \<Rightarrow> True)"

definition collect_need :: "string \<times> param_value \<Rightarrow> need \<Rightarrow> need" where
  "collect_need kv out =
     (case strip_prefix ''need.'' (fst kv) of
        None \<Rightarrow> out
      | Some suf \<Rightarrow>
          if suf = [] then out
          else (case snd kv of
                  PStr s \<Rightarrow> (case parse_quantity s of Inr q \<Rightarrow> bt_insert suf q out | Inl _ \<Rightarrow> out)
                | PBool _ \<Rightarrow> out))"

definition mp_needs :: "mode_params \<Rightarrow> need" where
  "mp_needs mp = need_from_pairs (fold collect_need mp [])"

section \<open>Event channels\<close>

datatype event_channel = Jobs | Crons | Scopes | System | Output job_id

definition show_event_channel :: "event_channel \<Rightarrow> string" where
  "show_event_channel c =
     (case c of Jobs \<Rightarrow> ''jobs'' | Crons \<Rightarrow> ''crons'' | Scopes \<Rightarrow> ''scopes'' | System \<Rightarrow> ''system''
      | Output j \<Rightarrow> ''output:'' @ show_job_id j)"

datatype parse_event_channel_error = ParseEventChannelError string

definition parse_event_channel :: "string \<Rightarrow> (parse_event_channel_error, event_channel) result" where
  "parse_event_channel input =
     (if input = ''jobs'' then Inr Jobs
      else if input = ''crons'' then Inr Crons
      else if input = ''scopes'' then Inr Scopes
      else if input = ''system'' then Inr System
      else case strip_prefix ''output:'' input of
             None \<Rightarrow> Inl (ParseEventChannelError input)
           | Some i \<Rightarrow> (case parse_job_id i of
                           Inr j \<Rightarrow> Inr (Output j)
                         | Inl _ \<Rightarrow> Inl (ParseEventChannelError input)))"

definition parse_channel_list :: "string list \<Rightarrow> (parse_event_channel_error, event_channel list) result" where
  "parse_channel_list channels = collect_results (map parse_event_channel channels)"

section \<open>Lemmas\<close>

lemma mode_next_next [simp]: "mode_next (mode_next m) = m"
  by (cases m) simp_all

lemma collect_need_wf: "bt_wf out \<Longrightarrow> bt_wf (collect_need kv out)"
  by (auto simp: collect_need_def split: option.splits param_value.splits sum.splits)

text \<open>The quantity a single parameter contributes under a key.\<close>

definition need_of :: "param_value \<Rightarrow> resource_quantity option" where
  "need_of v = (case v of PStr s \<Rightarrow> (case parse_quantity s of Inr q \<Rightarrow> Some q | Inl _ \<Rightarrow> None) | PBool _ \<Rightarrow> None)"

lemma bt_get_collect_need:
  "x \<noteq> [] \<Longrightarrow> bt_get (collect_need (k, v) out) x =
     (if k = ''need.'' @ x \<and> need_of v \<noteq> None then need_of v else bt_get out x)"
  by (auto simp: collect_need_def need_of_def strip_prefix_append [of "''need.''", simplified]
           dest!: strip_prefix_SomeD split: option.splits param_value.splits sum.splits if_splits)

lemma collect_needs_get:
  "distinct (map fst mp) \<Longrightarrow> x \<noteq> [] \<Longrightarrow> bt_get (fold collect_need mp out) x =
     (case map_of mp (''need.'' @ x) of
        Some v \<Rightarrow> (if need_of v \<noteq> None then need_of v else bt_get out x)
      | None \<Rightarrow> bt_get out x)"
proof (induction mp arbitrary: out)
  case (Cons kv mp)
  obtain k v where kv: "kv = (k, v)" by (cases kv)
  have "k \<notin> fst ` set mp" using Cons.prems(1) kv by simp
  then have "map_of mp k = None" by (simp add: map_of_eq_None_iff)
  then show ?case
    using Cons.IH [of "collect_need kv out"] Cons.prems
    by (auto simp: kv bt_get_collect_need split: option.splits)
qed simp

lemma collect_needs_no_empty:
  "bt_get out [] = None \<Longrightarrow> bt_get (fold collect_need mp out) [] = None"
  by (induction mp arbitrary: out)
     (auto simp: collect_need_def split: option.splits param_value.splits sum.splits)

lemma collect_needs_wf: "bt_wf out \<Longrightarrow> bt_wf (fold collect_need mp out)"
  by (induction mp arbitrary: out) (simp_all add: collect_need_wf)

lemma bt_from_list_id: "bt_wf m \<Longrightarrow> bt_from_list m = m"
  by (rule bt_ext) (simp_all add: bt_get_from_list, simp add: bt_get_def bt_wf_distinct map_of_rev)

interpretation channel_codec: text_codec show_event_channel parse_event_channel "\<lambda>_. True"
proof
  show "parse_event_channel (show_event_channel c) = Inr c" for c
    using job_codec.parse_print
    by (cases c) (simp_all add: show_event_channel_def parse_event_channel_def strip_prefix_def)
qed

section \<open>Properties\<close>

text \<open>
  The needs of an invocation are exactly its well-formed \<^verbatim>\<open>need.X=q\<close> string parameters: for every
  resource name \<open>X\<close> the need of \<open>X\<close> is the quantity that the value of the parameter
  \<^verbatim>\<open>need.X\<close> spells, there is none for the empty name, for a boolean value, for a malformed
  quantity or for a parameter that is absent, and the result is a canonical sorted map.
\<close>

theorem needs_of_params:
  assumes "bt_wf mp"
  shows "need_get (mp_needs mp) x =
      (if x = [] then None
       else case mp_get mp (''need.'' @ x) of
              Some (PStr s) \<Rightarrow> (case parse_quantity s of Inr q \<Rightarrow> Some q | Inl _ \<Rightarrow> None)
            | _ \<Rightarrow> None)
    \<and> bt_wf (mp_needs mp)"
proof -
  have n: "mp_needs mp = fold collect_need mp []"
    by (simp add: mp_needs_def need_from_pairs_def bt_from_list_id collect_needs_wf)
  show ?thesis
    using collect_needs_get [OF bt_wf_distinct [OF assms], of x "[]"] collect_needs_no_empty [of "[]" mp]
    by (auto simp: n need_get_def mp_get_def bt_get_def [of mp] need_of_def collect_needs_wf
             split: option.splits param_value.splits sum.splits)
qed

theorem needs_of_params_witness:
  "need_get (mp_needs [(''need.gpu'', PStr ''2'')]) ''gpu'' = Some (Count 2)"
proof -
  have "char_of (50::nat) = CHR ''2''" by code_simp
  then have "parse_quantity ''2'' = Inr (Count 2)"
    using quantity_codec.parse_print [of "Count 2"] by (simp add: show_u64_def show_nat.simps digit_char_def)
  moreover have "bt_wf [(''need.gpu'', PStr ''2'')]" by (simp add: bt_wf_def)
  ultimately show ?thesis
    using needs_of_params [of "[(''need.gpu'', PStr ''2'')]" "''gpu''"]
    by (simp add: mp_get_def bt_get_def)
qed

end
