(* ===== verification/Scope.thy ===== *)
theory Scope
  imports BTree Ids
begin

text \<open>
  Scopes and word expansion: the immutable environment snapshots of
  \<^verbatim>\<open>crates/cue-core/src/scope.rs\<close> and the tilde and variable expansion of
  \<^verbatim>\<open>crates/cue-daemon/src/word_expansion.rs\<close>.  The hash function (blake3, a third-party crate) is the
  argument \<open>blake3\<close>, from bytes to the 32 bytes of a digest; the theorem that needs it to have no
  collision says so.
\<close>

record env_snapshot =
  env :: "(string, string) btree"
  cwd :: string

record env_delta =
  d_set :: "(string, string) btree"
  d_unset :: "string list"
  d_cwd :: "string option"

record scope =
  sc_hash :: scope_hash
  sc_parent :: "scope_hash option"
  sc_delta :: "env_delta option"
  sc_snapshot :: "env_snapshot option"

definition canonical_bytes :: "env_snapshot \<Rightarrow> string" where
  "canonical_bytes s = concat (map (\<lambda>(k, v). k @ ''='' @ v @ [nul_char]) (env s)) @ cwd s"

definition compute_hash :: "(string \<Rightarrow> 8 word list) \<Rightarrow> env_snapshot \<Rightarrow> scope_hash" where
  "compute_hash blake3 s = ScopeHash (blake3 (canonical_bytes s))"

definition apply_delta :: "env_snapshot \<Rightarrow> env_delta \<Rightarrow> env_snapshot" where
  "apply_delta s d =
     (let e1 = foldl (\<lambda>e k. bt_remove k e) (env s) (d_unset d);
          e2 = foldl (\<lambda>e (k, v). bt_insert k v e) e1 (d_set d)
      in \<lparr>env = e2, cwd = (case d_cwd d of Some c \<Rightarrow> c | None \<Rightarrow> cwd s)\<rparr>)"

definition scope_root :: "(string \<Rightarrow> 8 word list) \<Rightarrow> env_snapshot \<Rightarrow> scope" where
  "scope_root blake3 s =
     \<lparr>sc_hash = compute_hash blake3 s, sc_parent = None, sc_delta = None, sc_snapshot = Some s\<rparr>"

definition scope_fork :: "(string \<Rightarrow> 8 word list) \<Rightarrow> scope_hash \<Rightarrow> env_snapshot \<Rightarrow> env_delta \<Rightarrow> scope" where
  "scope_fork blake3 parent_hash parent_snapshot d =
     (let new_snapshot = apply_delta parent_snapshot d
      in \<lparr>sc_hash = compute_hash blake3 new_snapshot, sc_parent = Some parent_hash,
          sc_delta = Some d, sc_snapshot = Some new_snapshot\<rparr>)"

section \<open>Word expansion\<close>

definition lookup_env :: "env_snapshot option \<Rightarrow> string \<Rightarrow> string option" where
  "lookup_env snap k = (case snap of None \<Rightarrow> None | Some s \<Rightarrow> bt_get (env s) k)"

definition is_var_start :: "char \<Rightarrow> bool" where
  "is_var_start c \<longleftrightarrow> c = CHR ''_'' \<or> is_ascii_alphabetic c"

definition is_var_continue :: "char \<Rightarrow> bool" where
  "is_var_continue c \<longleftrightarrow> c = CHR ''_'' \<or> is_ascii_alphanumeric c"

definition is_valid_var_name :: "string \<Rightarrow> bool" where
  "is_valid_var_name n = (case n of [] \<Rightarrow> False | c # cs \<Rightarrow> is_var_start c \<and> list_all is_var_continue cs)"

text \<open>\<^verbatim>\<open>PathBuf::join\<close> on Unix.\<close>

definition path_join :: "string \<Rightarrow> string \<Rightarrow> string" where
  "path_join base rest =
     (if starts_with rest ''/'' then rest
      else if base = [] \<or> last base = CHR ''/'' then base @ rest
      else base @ ''/'' @ rest)"

definition expand_tilde :: "string \<Rightarrow> env_snapshot option \<Rightarrow> string" where
  "expand_tilde word snap =
     (case lookup_env snap ''HOME'' of
        None \<Rightarrow> word
      | Some home \<Rightarrow>
          if word = ''~'' then home
          else case strip_prefix ''~/'' word of
                 None \<Rightarrow> word
               | Some rest \<Rightarrow> path_join home rest)"

definition or_default :: "string option \<Rightarrow> string" where
  "or_default v = (case v of Some s \<Rightarrow> s | None \<Rightarrow> [])"

text \<open>The loop over the remaining characters; each call consumes at least one.\<close>

function expand_vars :: "env_snapshot option \<Rightarrow> string \<Rightarrow> string" where
  "expand_vars snap [] = []"
| "expand_vars snap (ch # cs) =
     (if ch = backslash_char \<and> cs \<noteq> [] \<and> hd cs = CHR ''$'' then CHR ''$'' # expand_vars snap (tl cs)
      else if ch = CHR ''$'' then
        (case cs of
           [] \<Rightarrow> CHR ''$'' # expand_vars snap cs
         | c # cs' \<Rightarrow>
             if c = CHR ''{'' then
               (let name = takeWhile (\<lambda>c. c \<noteq> CHR ''}'') cs';
                    rest = dropWhile (\<lambda>c. c \<noteq> CHR ''}'') cs';
                    closed = (rest \<noteq> [])
                in if closed \<and> is_valid_var_name name
                   then or_default (lookup_env snap name) @ expand_vars snap (drop 1 rest)
                   else ''${'' @ name @ (if closed then ''}'' else []) @ expand_vars snap (drop 1 rest))
             else if is_var_start c then
               (let name = c # takeWhile is_var_continue cs'
                in or_default (lookup_env snap name) @ expand_vars snap (dropWhile is_var_continue cs'))
             else CHR ''$'' # expand_vars snap cs)
      else ch # expand_vars snap cs)"
  by pat_completeness auto
termination
  by (relation "measure (length \<circ> snd)")
     (auto simp: le_imp_less_Suc length_dropWhile_le less_Suc_eq_le le_SucI le_diff_conv
           intro: le_trans [OF length_dropWhile_le])

definition expand_word :: "string \<Rightarrow> env_snapshot option \<Rightarrow> string" where
  "expand_word word snap = expand_vars snap (expand_tilde word snap)"

definition expand_command_line :: "string list \<Rightarrow> env_snapshot option \<Rightarrow> string list" where
  "expand_command_line command_line snap = map (\<lambda>w. expand_word w snap) command_line"

section \<open>Deltas\<close>

lemma apply_delta_env:
  "env (apply_delta s d) = btree.put_all (btree.del_all (env s) (d_unset d)) (d_set d)"
  by (simp add: apply_delta_def Let_def btree.put_all_def btree.del_all_def)

lemma apply_delta_wf: "bt_wf (env s) \<Longrightarrow> bt_wf (env (apply_delta s d))"
  by (simp add: apply_delta_env btree.inv_put_all btree.inv_del_all)

lemma apply_delta_get:
  "bt_wf (env s) \<Longrightarrow> bt_wf (d_set d) \<Longrightarrow>
   bt_get (env (apply_delta s d)) k =
     (case bt_get (d_set d) k of
        Some v \<Rightarrow> Some v
      | None \<Rightarrow> if k \<in> set (d_unset d) then None else bt_get (env s) k)"
  by (simp add: apply_delta_env btree.get_put_all btree.get_del_all btree.inv_del_all map_of_rev
      bt_wf_distinct bt_get_def [of "d_set d"] split: option.split)

section \<open>Content addresses\<close>

definition snapshot_ok :: "env_snapshot \<Rightarrow> bool" where
  "snapshot_ok s \<longleftrightarrow>
     (\<forall>(k, v)\<in>set (env s). CHR ''='' \<notin> set k \<and> nul_char \<notin> set k \<and> nul_char \<notin> set v)
     \<and> nul_char \<notin> set (cwd s)"

lemma append_sep_inject:
  "c \<notin> set a \<Longrightarrow> c \<notin> set b \<Longrightarrow> a @ c # x = b @ c # y \<longleftrightarrow> a = b \<and> x = y"
proof (induction a arbitrary: b)
  case Nil
  then show ?case by (cases b) auto
next
  case (Cons e a)
  then show ?case by (cases b) auto
qed

lemma entries_inject:
  "\<lbrakk>\<forall>(k, v)\<in>set a. CHR ''='' \<notin> set k \<and> nul_char \<notin> set v;
    \<forall>(k, v)\<in>set b. CHR ''='' \<notin> set k \<and> nul_char \<notin> set v;
    nul_char \<notin> set c; nul_char \<notin> set d;
    concat (map (\<lambda>(k, v). k @ ''='' @ v @ [nul_char]) a) @ c
      = concat (map (\<lambda>(k, v). k @ ''='' @ v @ [nul_char]) b) @ d\<rbrakk> \<Longrightarrow> a = b \<and> c = d"
proof (induction a arbitrary: b)
  case Nil
  then show ?case by (cases b) auto
next
  case (Cons e a)
  obtain k v where e: "e = (k, v)" by (cases e)
  show ?case
  proof (cases b)
    case Nil
    then show ?thesis using Cons.prems e by auto
  next
    case (Cons f b')
    obtain k' v' where f: "f = (k', v')" by (cases f)
    from Cons.prems(5) have eq: "k @ CHR ''='' # v @ nul_char # concat (map (\<lambda>(k, v). k @ ''='' @ v @ [nul_char]) a) @ c
        = k' @ CHR ''='' # v' @ nul_char # concat (map (\<lambda>(k, v). k @ ''='' @ v @ [nul_char]) b') @ d"
      by (simp add: e f Cons)
    then have "k = k'" "v @ nul_char # concat (map (\<lambda>(k, v). k @ ''='' @ v @ [nul_char]) a) @ c
        = v' @ nul_char # concat (map (\<lambda>(k, v). k @ ''='' @ v @ [nul_char]) b') @ d"
      using Cons.prems(1,2) append_sep_inject [of "CHR ''=''" k k'] by (auto simp: e f Cons)
    then have "k = k'" "v = v'" "concat (map (\<lambda>(k, v). k @ ''='' @ v @ [nul_char]) a) @ c
        = concat (map (\<lambda>(k, v). k @ ''='' @ v @ [nul_char]) b') @ d"
      using Cons.prems(1,2) append_sep_inject [of nul_char v v'] by (auto simp: e f Cons)
    then show ?thesis using Cons.IH [of b'] Cons.prems by (auto simp: e f Cons)
  qed
qed

lemma canonical_bytes_inj:
  assumes "snapshot_ok a" "snapshot_ok b" "canonical_bytes a = canonical_bytes b"
  shows "a = b"
proof -
  have "env a = env b \<and> cwd a = cwd b"
    using assms by (intro entries_inject) (auto simp: snapshot_ok_def canonical_bytes_def)
  then show ?thesis by simp
qed

section \<open>Expansion\<close>

text \<open>Writing a text literally: a dollar sign is preceded by a backslash.\<close>

definition escape_dollar :: "string \<Rightarrow> string" where
  "escape_dollar s = concat (map (\<lambda>c. if c = CHR ''$'' then [backslash_char, CHR ''$''] else [c]) s)"

lemma backslash_not_dollar [simp]: "backslash_char \<noteq> CHR ''$''" "CHR ''$'' \<noteq> backslash_char"
proof -
  have "byte backslash_char \<noteq> byte CHR ''$''" by (simp add: backslash_char_def)
  then show "backslash_char \<noteq> CHR ''$''" "CHR ''$'' \<noteq> backslash_char" by metis+
qed

lemma escape_dollar_head: "escape_dollar s \<noteq> [] \<Longrightarrow> hd (escape_dollar s) \<noteq> CHR ''$''"
  by (cases s) (auto simp: escape_dollar_def)

lemma expand_escape_dollar: "expand_vars snap (escape_dollar s) = s"
proof (induction s)
  case (Cons c s)
  show ?case
  proof (cases "c = CHR ''$''")
    case True
    have "escape_dollar (c # s) = backslash_char # CHR ''$'' # escape_dollar s"
      by (simp add: escape_dollar_def True)
    then show ?thesis using Cons True by simp
  next
    case False
    have "escape_dollar (c # s) = c # escape_dollar s" by (simp add: escape_dollar_def False)
    then show ?thesis using Cons False escape_dollar_head [of s] by auto
  qed
qed (simp add: escape_dollar_def)

lemma expand_plain: "CHR ''$'' \<notin> set s \<Longrightarrow> expand_vars snap s = s"
proof (induction s)
  case (Cons c s)
  then show ?case by (cases s) auto
qed simp

lemma var_start_not_brace: "is_var_start c \<Longrightarrow> c \<noteq> CHR ''{'' \<and> is_var_continue c"
  by (auto simp: is_var_start_def is_var_continue_def is_ascii_alphabetic_def is_ascii_alphanumeric_def)

lemma expand_bare:
  assumes "is_valid_var_name n" "rest = [] \<or> \<not> is_var_continue (hd rest)"
  shows "expand_vars snap (CHR ''$'' # n @ rest) = or_default (lookup_env snap n) @ expand_vars snap rest"
proof -
  obtain c cs where n: "n = c # cs" and c: "is_var_start c" "list_all is_var_continue cs"
    using assms(1) by (cases n) (auto simp: is_valid_var_name_def)
  have "takeWhile is_var_continue (cs @ rest) = cs" "dropWhile is_var_continue (cs @ rest) = rest"
    using c(2) assms(2) by (cases rest; auto simp: list_all_iff)+
  then show ?thesis using c(1) var_start_not_brace [OF c(1)] by (simp add: n Let_def)
qed

lemma valid_name_no_brace: "is_valid_var_name n \<Longrightarrow> \<forall>c\<in>set n. c \<noteq> CHR ''}''"
proof -
  have "\<not> is_var_continue CHR ''}''"
    by (simp add: is_var_continue_def is_ascii_alphanumeric_def is_ascii_alphabetic_def is_ascii_digit_def)
  moreover assume "is_valid_var_name n"
  then have "\<forall>c\<in>set n. is_var_continue c"
    using var_start_not_brace by (cases n) (auto simp: is_valid_var_name_def list_all_iff)
  ultimately show ?thesis by metis
qed

lemma expand_braced:
  assumes "is_valid_var_name n"
  shows "expand_vars snap (CHR ''$'' # CHR ''{'' # n @ CHR ''}'' # rest) =
    or_default (lookup_env snap n) @ expand_vars snap rest"
proof -
  have "takeWhile (\<lambda>c. c \<noteq> CHR ''}'') (n @ CHR ''}'' # rest) = n"
    "dropWhile (\<lambda>c. c \<noteq> CHR ''}'') (n @ CHR ''}'' # rest) = CHR ''}'' # rest"
    using valid_name_no_brace [OF assms] by (simp_all add: takeWhile_append2 dropWhile_append2)
  then show ?thesis using assms by (simp add: Let_def)
qed

lemma expand_literal_prefix:
  "CHR ''$'' \<notin> set s \<Longrightarrow> s = [] \<or> last s \<noteq> backslash_char \<Longrightarrow>
   expand_vars snap (s @ t) = s @ expand_vars snap t"
proof (induction s)
  case (Cons c s)
  then show ?case by (cases s) auto
qed simp

section \<open>Properties\<close>

text \<open>
  A forked scope is its parent with the delta applied: set variables have the new
  value, unset ones that are not set again are gone, the others and the directory (unless the
  delta changes it) are inherited; its parent link is the scope it was forked from and its hash is
  that of its own snapshot.
\<close>

theorem fork_applies_delta:
  assumes "bt_wf (env s)" "bt_wf (d_set d)"
  shows "\<exists>t. sc_snapshot (scope_fork blake3 h s d) = Some t
    \<and> sc_hash (scope_fork blake3 h s d) = compute_hash blake3 t
    \<and> sc_parent (scope_fork blake3 h s d) = Some h
    \<and> bt_wf (env t) \<and> cwd t = (case d_cwd d of Some c \<Rightarrow> c | None \<Rightarrow> cwd s)
    \<and> (\<forall>k. bt_get (env t) k =
         (case bt_get (d_set d) k of
            Some v \<Rightarrow> Some v
          | None \<Rightarrow> if k \<in> set (d_unset d) then None else bt_get (env s) k))"
  using apply_delta_get [OF assms] apply_delta_wf [OF assms(1)]
  by (simp add: scope_fork_def Let_def, simp add: apply_delta_def Let_def)

theorem fork_applies_delta_witness:
  "\<exists>t. sc_snapshot (scope_fork (\<lambda>_. []) (ScopeHash []) \<lparr>env = [(''A'', ''1'')], cwd = ''/''\<rparr>
      \<lparr>d_set = [(''B'', ''2'')], d_unset = [''A''], d_cwd = None\<rparr>) = Some t
    \<and> cwd t = ''/'' \<and> bt_get (env t) ''A'' = None \<and> bt_get (env t) ''B'' = Some ''2''"
  using fork_applies_delta [of "\<lparr>env = [(''A'', ''1'')], cwd = ''/''\<rparr>"
      "\<lparr>d_set = [(''B'', ''2'')], d_unset = [''A''], d_cwd = None\<rparr>" "\<lambda>_. []" "ScopeHash []"]
  by (force simp: bt_wf_def bt_get_def)

text \<open>
  Scopes are content-addressed: when the hash function does not collide on the two byte
  strings at hand, two snapshots have the same hash exactly when they are equal, provided no
  variable name contains an equals sign and no name, value or directory contains a NUL byte
  (what the operating system guarantees of an environment).
\<close>

theorem snapshot_hash_inj:
  assumes "snapshot_ok a" "snapshot_ok b"
    and "blake3 (canonical_bytes a) = blake3 (canonical_bytes b) \<Longrightarrow> canonical_bytes a = canonical_bytes b"
  shows "compute_hash blake3 a = compute_hash blake3 b \<longleftrightarrow> a = b"
  using canonical_bytes_inj [OF assms(1,2)] assms(3) by (auto simp: compute_hash_def)

theorem snapshot_hash_inj_witness:
  "compute_hash (map (word_of_nat \<circ> of_char)) \<lparr>env = [(''A'', ''1'')], cwd = ''/''\<rparr>
   \<noteq> compute_hash (map (word_of_nat \<circ> of_char)) \<lparr>env = [], cwd = ''A=1/''\<rparr>"
proof -
  have len: "length (canonical_bytes \<lparr>env = [(''A'', ''1'')], cwd = ''/''\<rparr>) = 5"
    "length (canonical_bytes \<lparr>env = [], cwd = ''A=1/''\<rparr>) = 4" by (simp_all add: canonical_bytes_def)
  have nul: "nul_char \<notin> set ''A1/=''"
    by (simp add: nul_char_def) code_simp
  show ?thesis
    by (subst snapshot_hash_inj) (use nul len in \<open>auto simp: snapshot_ok_def dest: map_eq_imp_length_eq\<close>)
qed

text \<open>
  Variable expansion is one pass and complete for quoting: a text written with every dollar
  sign escaped expands to itself whatever the environment, so every argument can be passed
  literally; \<open>$NAME\<close> and \<open>${NAME}\<close> after a literal prefix are replaced by the variable's value (the
  empty text when it is unset), the value itself is not expanded again, and expansion continues
  after the reference.
\<close>

theorem expansion_one_pass:
  assumes "is_valid_var_name n" and "CHR ''$'' \<notin> set lit" and "lit = [] \<or> last lit \<noteq> backslash_char"
  shows "expand_vars snap (escape_dollar s) = s
    \<and> expand_vars snap (lit @ ''${'' @ n @ ''}'' @ rest)
        = lit @ or_default (lookup_env snap n) @ expand_vars snap rest
    \<and> (rest = [] \<or> \<not> is_var_continue (hd rest) \<longrightarrow>
        expand_vars snap (lit @ ''$'' @ n @ rest) = lit @ or_default (lookup_env snap n) @ expand_vars snap rest)"
  using expand_escape_dollar expand_braced [OF assms(1)] expand_bare [OF assms(1)]
    expand_literal_prefix [OF assms(2,3)] by simp

theorem expansion_one_pass_witness:
  "expand_vars (Some \<lparr>env = [(''X'', ''$Y'')], cwd = ''/''\<rparr>) ''a${X}b'' = ''a$Yb''"
proof -
  have "CHR ''a'' \<noteq> backslash_char"
  proof
    assume "CHR ''a'' = backslash_char"
    then have "byte CHR ''a'' = byte backslash_char" by simp
    then show False by (simp add: backslash_char_def)
  qed
  then show ?thesis
    using expansion_one_pass [of "''X''" "''a''" "Some \<lparr>env = [(''X'', ''$Y'')], cwd = ''/''\<rparr>" "[]" "''b''"]
    by (simp add: is_valid_var_name_def is_var_start_def is_ascii_alphabetic_def lookup_env_def bt_get_def
        or_default_def)
qed

end
