(* ===== verification/Storage.thy ===== *)
theory Storage
  imports Scope
begin

text \<open>
  The scope tables of the SQLite store (\<^verbatim>\<open>crates/cue-daemon/src/storage.rs\<close>): which scopes may be
  persisted, the statements that insert, read, list and sweep them, and the migration that purges
  scopes with credential-like variable names.  A database is the contents of its tables,
  restricted to the columns these statements read or write; a JSON column that does not decode is
  \<open>Corrupt\<close>.  SQLite itself is not modelled: the argument \<open>sql\<close> says whether the statements of a call
  succeed, and a call whose statements fail leaves the tables as they were (statements and
  transactions are atomic).
\<close>

datatype 'a json_cell = Json 'a | Corrupt

record scope_row =
  row_hash :: scope_hash
  row_parent :: "scope_hash option"
  row_delta :: "env_delta json_cell option"
  row_snap :: "env_snapshot json_cell option"

record job_ref =
  jr_scope :: "scope_hash option"
  jr_start :: "scope_hash option"
  jr_end :: "scope_hash option"

record cron_ref =
  cr_scope :: "scope_hash option"
  cr_enabled :: bool
  cr_status :: string

record database =
  scopes_t :: "scope_row list"
  jobs_t :: "job_ref list"
  crons_t :: "cron_ref list"
  sessions_t :: "scope_hash option list"
  scope_head_t :: "scope_hash list"

definition empty_db :: database where
  "empty_db = \<lparr>scopes_t = [], jobs_t = [], crons_t = [], sessions_t = [], scope_head_t = []\<rparr>"

datatype storage_error = SqlError | CorruptRow | UnmarkedReference scope_hash

section \<open>Sensitive names\<close>

definition ascii_upper_char :: "char \<Rightarrow> char" where
  "ascii_upper_char c = (if 97 \<le> byte c \<and> byte c \<le> 122 then char_of (byte c - 32) else c)"

definition to_ascii_uppercase :: "string \<Rightarrow> string" where
  "to_ascii_uppercase s = map ascii_upper_char s"

fun split_by :: "(char \<Rightarrow> bool) \<Rightarrow> string \<Rightarrow> string list" where
  "split_by sep [] = [[]]"
| "split_by sep (c # cs) =
     (if sep c then [] # split_by sep cs
      else case split_by sep cs of [] \<Rightarrow> [[c]] | w # ws \<Rightarrow> (c # w) # ws)"

definition contains_text :: "string \<Rightarrow> string \<Rightarrow> bool" where
  "contains_text p s \<longleftrightarrow> list_ex (\<lambda>n. take (length p) (drop n s) = p) [0..<length s + 1]"

definition is_sensitive_env_name :: "string \<Rightarrow> bool" where
  "is_sensitive_env_name name =
     (let words = map to_ascii_uppercase
            (filter (\<lambda>w. w \<noteq> []) (split_by (\<lambda>c. \<not> is_ascii_alphanumeric c) name));
          compact = concat words;
          has_word = (\<lambda>c. c \<in> set words)
      in if list_ex has_word
           [''TOKEN'', ''SECRET'', ''PASSWORD'', ''PASSWD'', ''PASS'', ''CREDENTIAL'', ''CREDENTIALS'',
            ''AUTH'', ''AUTHORIZATION'', ''OAUTH'', ''COOKIE'', ''DSN'', ''PASSPHRASE'']
         then True
         else if ends_with compact ''TOKEN'' \<or> ends_with compact ''SECRET''
           \<or> contains_text ''PASSWORD'' compact \<or> ends_with compact ''CREDENTIAL''
           \<or> ends_with compact ''CREDENTIALS'' \<or> ends_with compact ''COOKIE''
           \<or> contains_text ''APIKEY'' compact \<or> contains_text ''ACCESSKEY'' compact
           \<or> contains_text ''PRIVATEKEY'' compact
         then True
         else
           let names_database = list_ex (\<lambda>b. contains_text b compact)
                 [''DATABASE'', ''REDIS'', ''MONGO'', ''MONGODB'', ''POSTGRES'', ''POSTGRESQL''];
               names_connection_locator =
                 list_ex (\<lambda>w. w \<in> set [''URL'', ''URI'', ''CONNECTIONSTRING'']) words
                 \<or> contains_text ''CONNECTIONSTRING'' compact
           in names_database \<and> names_connection_locator)"

definition snapshot_sensitive :: "env_snapshot \<Rightarrow> bool" where
  "snapshot_sensitive s \<longleftrightarrow> list_ex is_sensitive_env_name (bt_keys (env s))"

definition delta_sensitive :: "env_delta \<Rightarrow> bool" where
  "delta_sensitive d \<longleftrightarrow> list_ex is_sensitive_env_name (bt_keys (d_set d))"

definition scope_contains_sensitive_environment :: "scope \<Rightarrow> bool" where
  "scope_contains_sensitive_environment sc \<longleftrightarrow>
     (case sc_snapshot sc of Some s \<Rightarrow> snapshot_sensitive s | None \<Rightarrow> False)
     \<or> (case sc_delta sc of Some d \<Rightarrow> delta_sensitive d | None \<Rightarrow> False)"

definition persisted_scope_has_sensitive_environment ::
    "env_delta json_cell option \<Rightarrow> env_snapshot json_cell option \<Rightarrow> bool" where
  "persisted_scope_has_sensitive_environment delta snap \<longleftrightarrow>
     (case delta of None \<Rightarrow> False | Some Corrupt \<Rightarrow> True | Some (Json d) \<Rightarrow> delta_sensitive d)
     \<or> (case snap of None \<Rightarrow> False | Some Corrupt \<Rightarrow> True | Some (Json s) \<Rightarrow> snapshot_sensitive s)"

section \<open>Scope statements\<close>

datatype scope_persistence = Persisted | VolatileSensitiveEnvironment | VolatileParent

fun is_volatile :: "scope_persistence \<Rightarrow> bool" where
  "is_volatile Persisted = False"
| "is_volatile _ = True"

fun persistence_reason :: "scope_persistence \<Rightarrow> string" where
  "persistence_reason Persisted = ''persisted''"
| "persistence_reason VolatileSensitiveEnvironment = ''sensitive_environment''"
| "persistence_reason VolatileParent = ''unpersisted_parent''"

definition scope_hashes :: "database \<Rightarrow> scope_hash set" where
  "scope_hashes db = set (map row_hash (scopes_t db))"

definition scope_to_row :: "scope \<Rightarrow> scope_row" where
  "scope_to_row sc =
     \<lparr>row_hash = sc_hash sc, row_parent = sc_parent sc,
      row_delta = map_option Json (sc_delta sc), row_snap = map_option Json (sc_snapshot sc)\<rparr>"

definition insert_or_ignore :: "scope_row \<Rightarrow> database \<Rightarrow> database" where
  "insert_or_ignore r db =
     (if row_hash r \<in> scope_hashes db then db else db\<lparr>scopes_t := scopes_t db @ [r]\<rparr>)"

definition insert_scope ::
    "bool \<Rightarrow> database \<Rightarrow> scope \<Rightarrow> (storage_error, scope_persistence) result \<times> database" where
  "insert_scope sql db sc =
     (if scope_contains_sensitive_environment sc then (Inr VolatileSensitiveEnvironment, db)
      else if \<not> sql then (Inl SqlError, db)
      else if (case sc_parent sc of Some p \<Rightarrow> p \<notin> scope_hashes db | None \<Rightarrow> False)
      then (Inr VolatileParent, db)
      else (Inr Persisted, insert_or_ignore (scope_to_row sc) db))"

definition is_persisted_scope :: "bool \<Rightarrow> database \<Rightarrow> scope_hash \<Rightarrow> (storage_error, bool) result" where
  "is_persisted_scope sql db h = (if sql then Inr (h \<in> scope_hashes db) else Inl SqlError)"

definition durable_scope_reference ::
    "bool \<Rightarrow> database \<Rightarrow> scope_hash option \<Rightarrow> (storage_error, scope_hash option) result" where
  "durable_scope_reference sql db sc =
     (case sc of
        None \<Rightarrow> Inr None
      | Some h \<Rightarrow> and_then (is_persisted_scope sql db h) (\<lambda>p. Inr (if p then Some h else None)))"

fun blob_ok :: "scope_hash \<Rightarrow> bool" where
  "blob_ok (ScopeHash bs) = (length bs = 32)"

definition decode_cell :: "'a json_cell option \<Rightarrow> (storage_error, 'a option) result" where
  "decode_cell c = (case c of None \<Rightarrow> Inr None | Some (Json x) \<Rightarrow> Inr (Some x) | Some Corrupt \<Rightarrow> Inl CorruptRow)"

definition scope_from_row_parts :: "scope_row \<Rightarrow> (storage_error, scope) result" where
  "scope_from_row_parts r =
     (if \<not> blob_ok (row_hash r) \<or> (case row_parent r of Some p \<Rightarrow> \<not> blob_ok p | None \<Rightarrow> False)
      then Inl CorruptRow
      else and_then (decode_cell (row_delta r)) (\<lambda>d.
           and_then (decode_cell (row_snap r)) (\<lambda>s.
             Inr \<lparr>sc_hash = row_hash r, sc_parent = row_parent r, sc_delta = d, sc_snapshot = s\<rparr>)))"

definition get_scope :: "bool \<Rightarrow> database \<Rightarrow> scope_hash \<Rightarrow> (storage_error, scope option) result" where
  "get_scope sql db h =
     (if \<not> sql then Inl SqlError
      else case find (\<lambda>r. row_hash r = h) (scopes_t db) of
             None \<Rightarrow> Inr None
           | Some r \<Rightarrow> map_sum id Some (scope_from_row_parts r))"

definition list_scopes :: "bool \<Rightarrow> database \<Rightarrow> (storage_error, scope list) result" where
  "list_scopes sql db =
     (if sql then collect_results (map scope_from_row_parts (scopes_t db)) else Inl SqlError)"

text \<open>The hashes that the job, cron and session rows refer to.\<close>

definition durable_references :: "database \<Rightarrow> scope_hash set" where
  "durable_references db =
     {h. Some h \<in> set (map jr_scope (jobs_t db) @ map jr_start (jobs_t db) @ map jr_end (jobs_t db)
           @ map cr_scope (crons_t db) @ sessions_t db)}"

lemma durable_references_code [code]:
  "durable_references db =
     \<Union> (set_option ` set (map jr_scope (jobs_t db) @ map jr_start (jobs_t db) @ map jr_end (jobs_t db)
           @ map cr_scope (crons_t db) @ sessions_t db))"
  by (auto simp: durable_references_def elem_set) force+

definition sweep_scopes ::
    "bool \<Rightarrow> database \<Rightarrow> scope_hash set \<Rightarrow> (storage_error, nat) result \<times> database" where
  "sweep_scopes sql db reachable =
     (if \<not> sql then (Inl SqlError, db)
      else case find (\<lambda>r. row_hash r \<notin> reachable \<and> row_hash r \<in> durable_references db) (scopes_t db) of
             Some r \<Rightarrow> (Inl (UnmarkedReference (row_hash r)), db)
           | None \<Rightarrow>
               (Inr (length (filter (\<lambda>r. row_hash r \<notin> reachable) (scopes_t db))),
                db\<lparr>scope_head_t := filter (\<lambda>h. h \<in> reachable) (scope_head_t db),
                   scopes_t := filter (\<lambda>r. row_hash r \<in> reachable) (scopes_t db)\<rparr>))"

section \<open>The purge of sensitive scopes\<close>

definition purge_pass :: "scope_row list \<Rightarrow> scope_hash set \<Rightarrow> scope_hash set" where
  "purge_pass rows purged =
     fold (\<lambda>r P. if (case row_parent r of Some p \<Rightarrow> p \<in> P | None \<Rightarrow> False) then insert (row_hash r) P else P)
       rows purged"

lemma purge_pass_mono: "P \<subseteq> purge_pass rows P"
  unfolding purge_pass_def by (induction rows arbitrary: P) (auto, blast)

lemma purge_pass_bound: "purge_pass rows P \<subseteq> P \<union> row_hash ` set rows"
proof (induction rows arbitrary: P)
  case (Cons r rows)
  let ?P = "if (case row_parent r of Some p \<Rightarrow> p \<in> P | None \<Rightarrow> False) then insert (row_hash r) P else P"
  have "purge_pass (r # rows) P = purge_pass rows ?P" by (simp add: purge_pass_def)
  then show ?case using Cons [of ?P] by auto
qed (simp add: purge_pass_def)

function purge_loop :: "scope_row list \<Rightarrow> scope_hash set \<Rightarrow> scope_hash set" where
  "purge_loop rows P =
     (let P' = purge_pass rows P in if card P' = card P then P' else purge_loop rows P')"
  by pat_completeness auto
termination
proof (relation "measure (\<lambda>(rows, P). card (row_hash ` set rows - P))", goal_cases)
  case (2 rows P P')
  then have ne: "P' \<noteq> P" and sub: "P \<subseteq> P'" "P' \<subseteq> P \<union> row_hash ` set rows"
    using purge_pass_mono purge_pass_bound by auto
  then have "row_hash ` set rows - P' \<subset> row_hash ` set rows - P" by blast
  then show ?case by (simp add: psubset_card_mono)
qed simp

declare purge_loop.simps [simp del]

record purge_report =
  removed_scopes :: nat
  cleared_job_rows :: nat
  cleared_crons :: nat
  disabled_scope_crons :: nat

definition clear_ref :: "scope_hash set \<Rightarrow> scope_hash option \<Rightarrow> scope_hash option" where
  "clear_ref P r = (case r of Some h \<Rightarrow> if h \<in> P then None else Some h | None \<Rightarrow> None)"

definition in_ref :: "scope_hash set \<Rightarrow> scope_hash option \<Rightarrow> bool" where
  "in_ref P r = (case r of Some h \<Rightarrow> h \<in> P | None \<Rightarrow> False)"

definition paused_status :: string where
  "paused_status = [quote_char] @ ''paused'' @ [quote_char]"

definition purged_hashes :: "database \<Rightarrow> scope_hash set" where
  "purged_hashes db =
     purge_loop (scopes_t db)
       (set (map row_hash (filter
          (\<lambda>r. persisted_scope_has_sensitive_environment (row_delta r) (row_snap r)) (scopes_t db))))"

definition purge_sensitive_scope_history ::
    "bool \<Rightarrow> database \<Rightarrow> (storage_error, purge_report) result \<times> database" where
  "purge_sensitive_scope_history sql db =
     (if \<not> sql then (Inl SqlError, db)
      else
        let P = purged_hashes db
        in if P = {}
           then (Inr \<lparr>removed_scopes = 0, cleared_job_rows = 0, cleared_crons = 0, disabled_scope_crons = 0\<rparr>, db)
           else
             let touched = (\<lambda>j. in_ref P (jr_scope j) \<or> in_ref P (jr_start j) \<or> in_ref P (jr_end j));
                 in_cron = (\<lambda>c. in_ref P (cr_scope c))
             in (Inr \<lparr>removed_scopes = length (filter (\<lambda>r. row_hash r \<in> P) (scopes_t db)),
                      cleared_job_rows = length (filter touched (jobs_t db)),
                      cleared_crons = length (filter in_cron (crons_t db)),
                      disabled_scope_crons = length (filter (\<lambda>c. cr_enabled c \<and> in_cron c) (crons_t db))\<rparr>,
                 db\<lparr>jobs_t := map (\<lambda>j. j\<lparr>jr_scope := clear_ref P (jr_scope j),
                                          jr_start := clear_ref P (jr_start j),
                                          jr_end := clear_ref P (jr_end j)\<rparr>) (jobs_t db),
                    crons_t := map (\<lambda>c. if in_cron c then \<lparr>cr_scope = None, cr_enabled = False,
                                          cr_status = paused_status\<rparr> else c) (crons_t db),
                    scope_head_t := filter (\<lambda>h. h \<notin> P) (scope_head_t db),
                    scopes_t := filter (\<lambda>r. row_hash r \<notin> P) (scopes_t db)\<rparr>))"

section \<open>The durable invariant\<close>

definition row_sensitive :: "scope_row \<Rightarrow> bool" where
  "row_sensitive r = persisted_scope_has_sensitive_environment (row_delta r) (row_snap r)"

definition no_secrets :: "database \<Rightarrow> bool" where
  "no_secrets db \<longleftrightarrow> (\<forall>r\<in>set (scopes_t db). \<not> row_sensitive r)"

definition parents_present :: "database \<Rightarrow> bool" where
  "parents_present db \<longleftrightarrow>
     (\<forall>r\<in>set (scopes_t db). \<forall>p. row_parent r = Some p \<longrightarrow> p \<in> scope_hashes db)"

lemma row_sensitive_scope_to_row [simp]:
  "row_sensitive (scope_to_row sc) = scope_contains_sensitive_environment sc"
  by (auto simp: row_sensitive_def scope_to_row_def scope_contains_sensitive_environment_def
      persisted_scope_has_sensitive_environment_def split: option.splits)

lemma scope_hashes_insert_or_ignore [simp]:
  "scope_hashes (insert_or_ignore r db) = insert (row_hash r) (scope_hashes db)"
  by (auto simp: insert_or_ignore_def scope_hashes_def)

lemma insert_scope_no_secrets [component_inv]:
  "no_secrets db \<Longrightarrow> no_secrets (snd (insert_scope sql db sc))"
  by (auto simp: insert_scope_def insert_or_ignore_def no_secrets_def)

lemma insert_scope_parents [component_inv]:
  "parents_present db \<Longrightarrow> parents_present (snd (insert_scope sql db sc))"
  by (auto simp: insert_scope_def insert_or_ignore_def parents_present_def scope_hashes_def scope_to_row_def
      split: option.splits)

lemma insert_scope_distinct [component_inv]:
  "distinct (map row_hash (scopes_t db)) \<Longrightarrow> distinct (map row_hash (scopes_t (snd (insert_scope sql db sc))))"
  by (auto simp: insert_scope_def insert_or_ignore_def scope_hashes_def)

lemma insert_scope_refs [simp]:
  "durable_references (snd (insert_scope sql db sc)) = durable_references db"
  by (auto simp: insert_scope_def insert_or_ignore_def durable_references_def)

lemma insert_scope_hashes:
  "insert_scope sql db sc = (Inr Persisted, db') \<Longrightarrow> sc_hash sc \<in> scope_hashes db'"
  by (auto simp: insert_scope_def scope_to_row_def split: if_splits)

lemma sweep_no_secrets [component_inv]: "no_secrets db \<Longrightarrow> no_secrets (snd (sweep_scopes sql db R))"
  by (auto simp: sweep_scopes_def no_secrets_def split: option.splits)

lemma sweep_ok:
  assumes "sweep_scopes sql db R = (Inr n, db')"
  shows "scopes_t db' = filter (\<lambda>r. row_hash r \<in> R) (scopes_t db)"
    and "durable_references db \<inter> scope_hashes db \<subseteq> R"
    and "durable_references db' = durable_references db"
    and "n = length (scopes_t db) - length (scopes_t db')"
proof -
  have f: "find (\<lambda>r. row_hash r \<notin> R \<and> row_hash r \<in> durable_references db) (scopes_t db) = None"
    and d: "db' = db\<lparr>scope_head_t := filter (\<lambda>h. h \<in> R) (scope_head_t db),
                   scopes_t := filter (\<lambda>r. row_hash r \<in> R) (scopes_t db)\<rparr>"
    and n: "n = length (filter (\<lambda>r. row_hash r \<notin> R) (scopes_t db))"
    using assms by (auto simp: sweep_scopes_def split: if_splits option.splits)
  show "scopes_t db' = filter (\<lambda>r. row_hash r \<in> R) (scopes_t db)"
    "durable_references db' = durable_references db"
    by (simp_all add: d durable_references_def)
  show "durable_references db \<inter> scope_hashes db \<subseteq> R"
    using f by (auto simp: find_None_iff scope_hashes_def)
  show "n = length (scopes_t db) - length (scopes_t db')"
    using sum_length_filter_compl [of "\<lambda>r. row_hash r \<in> R" "scopes_t db"] by (simp add: d n)
qed

lemma sweep_error: "sweep_scopes sql db R = (Inl e, db') \<Longrightarrow> db' = db"
  by (auto simp: sweep_scopes_def split: if_splits option.splits)

section \<open>What the purge removes\<close>

definition child_of :: "scope_row list \<Rightarrow> (scope_hash \<times> scope_hash) set" where
  "child_of rows = {(row_hash r, p) | r p. r \<in> set rows \<and> row_parent r = Some p}"

definition descendants :: "scope_row list \<Rightarrow> scope_hash set \<Rightarrow> scope_hash set" where
  "descendants rows P = {h. \<exists>s\<in>P. (h, s) \<in> (child_of rows)\<^sup>*}"

lemma descendants_mono: "P \<subseteq> Q \<Longrightarrow> descendants rows P \<subseteq> descendants rows Q"
  by (auto simp: descendants_def)

lemma descendants_idem: "descendants rows (descendants rows P) = descendants rows P"
  by (auto simp: descendants_def intro: rtrancl_trans)

lemma purge_pass_sound:
  "set rows \<subseteq> set all \<Longrightarrow> P \<subseteq> descendants all Q \<Longrightarrow> purge_pass rows P \<subseteq> descendants all Q"
proof (induction rows arbitrary: P)
  case (Cons r rows)
  let ?P = "if (case row_parent r of Some p \<Rightarrow> p \<in> P | None \<Rightarrow> False) then insert (row_hash r) P else P"
  have "row_hash r \<in> descendants all Q" if par: "row_parent r = Some p" "p \<in> P" for p
  proof -
    obtain s where "s \<in> Q" "(p, s) \<in> (child_of all)\<^sup>*"
      using par(2) Cons.prems(2) by (auto simp: descendants_def)
    moreover have "(row_hash r, p) \<in> child_of all"
      using par(1) Cons.prems(1) by (auto simp: child_of_def)
    ultimately show ?thesis by (auto simp: descendants_def intro: converse_rtrancl_into_rtrancl)
  qed
  then have "?P \<subseteq> descendants all Q" using Cons.prems(2) by (auto split: option.splits)
  then show ?case using Cons.IH [of ?P] Cons.prems(1) by (simp add: purge_pass_def)
qed (simp add: purge_pass_def)

lemma purge_pass_complete:
  "r \<in> set rows \<Longrightarrow> row_parent r = Some p \<Longrightarrow> p \<in> P \<Longrightarrow> row_hash r \<in> purge_pass rows P"
proof (induction rows arbitrary: P)
  case (Cons r' rows)
  let ?P = "if (case row_parent r' of Some p \<Rightarrow> p \<in> P | None \<Rightarrow> False) then insert (row_hash r') P else P"
  have e: "purge_pass (r' # rows) P = purge_pass rows ?P" by (simp add: purge_pass_def)
  show ?case
  proof (cases "r' = r")
    case True
    then have "row_hash r \<in> ?P" using Cons.prems by simp
    then show ?thesis unfolding e using purge_pass_mono by blast
  next
    case False
    then show ?thesis unfolding e using Cons by auto
  qed
qed simp

lemma purge_loop_descendants: "finite P \<Longrightarrow> purge_loop rows P = descendants rows P"
proof (induction rows P rule: purge_loop.induct)
  case (1 rows P)
  define P' where "P' = purge_pass rows P"
  have sub: "P \<subseteq> P'" "P' \<subseteq> descendants rows P"
    using purge_pass_mono purge_pass_sound [of rows rows P P] by (auto simp: P'_def descendants_def)
  have fin: "finite P'" using "1.prems" purge_pass_bound [of rows P] finite_subset unfolding P'_def by blast
  show ?case
  proof (cases "card P' = card P")
    case True
    then have eq: "P' = P" using sub(1) fin by (metis card_subset_eq)
    have "h \<in> P" if "(h, s) \<in> (child_of rows)\<^sup>*" "s \<in> P" for h s
      using that
    proof (induction rule: converse_rtrancl_induct)
      case (step y z)
      then obtain r where "r \<in> set rows" "row_hash r = y" "row_parent r = Some z"
        by (auto simp: child_of_def)
      then show ?case using purge_pass_complete [of r rows z P] step.IH step.prems eq by (simp add: P'_def)
    qed
    then have "descendants rows P \<subseteq> P" by (auto simp: descendants_def)
    then show ?thesis using True eq sub(2) by (subst purge_loop.simps) (auto simp: P'_def Let_def)
  next
    case False
    then have "purge_loop rows P = descendants rows P'"
      using "1.IH" [OF P'_def] fin by (subst purge_loop.simps) (simp add: P'_def Let_def)
    also have "\<dots> = descendants rows P"
      using sub descendants_mono [OF sub(1)] descendants_mono [OF sub(2)] descendants_idem by blast
    finally show ?thesis .
  qed
qed

lemma purged_hashes_eq:
  "purged_hashes db = descendants (scopes_t db) {row_hash r | r. r \<in> set (scopes_t db) \<and> row_sensitive r}"
proof -
  have "set (map row_hash (filter (\<lambda>r. persisted_scope_has_sensitive_environment (row_delta r) (row_snap r))
      (scopes_t db))) = {row_hash r | r. r \<in> set (scopes_t db) \<and> row_sensitive r}"
    by (auto simp: row_sensitive_def)
  then show ?thesis unfolding purged_hashes_def by (simp add: purge_loop_descendants)
qed

lemma purge_success:
  assumes "purge_sensitive_scope_history sql db = (Inr rep, db')"
  shows "scopes_t db' = filter (\<lambda>r. row_hash r \<notin> purged_hashes db) (scopes_t db)"
    and "jobs_t db' = map (\<lambda>j. j\<lparr>jr_scope := clear_ref (purged_hashes db) (jr_scope j),
           jr_start := clear_ref (purged_hashes db) (jr_start j),
           jr_end := clear_ref (purged_hashes db) (jr_end j)\<rparr>) (jobs_t db)"
    and "crons_t db' = map (\<lambda>c. if in_ref (purged_hashes db) (cr_scope c)
           then \<lparr>cr_scope = None, cr_enabled = False, cr_status = paused_status\<rparr> else c) (crons_t db)"
proof -
  have id: "clear_ref {} x = x" "\<not> in_ref {} x" for x
    by (cases x; simp add: clear_ref_def in_ref_def)+
  show "scopes_t db' = filter (\<lambda>r. row_hash r \<notin> purged_hashes db) (scopes_t db)"
    "jobs_t db' = map (\<lambda>j. j\<lparr>jr_scope := clear_ref (purged_hashes db) (jr_scope j),
           jr_start := clear_ref (purged_hashes db) (jr_start j),
           jr_end := clear_ref (purged_hashes db) (jr_end j)\<rparr>) (jobs_t db)"
    "crons_t db' = map (\<lambda>c. if in_ref (purged_hashes db) (cr_scope c)
           then \<lparr>cr_scope = None, cr_enabled = False, cr_status = paused_status\<rparr> else c) (crons_t db)"
    using assms by (cases "purged_hashes db = {}";
        auto simp: purge_sensitive_scope_history_def Let_def id split: if_splits)+
qed

section \<open>Properties\<close>



end
