(* ===== verification/ScopeStore.thy ===== *)
theory ScopeStore
  imports Storage "HOL-Library.AList"
begin

text \<open>
  The scope store actor (\<^verbatim>\<open>crates/cue-daemon/src/actor/scope_store.rs\<close>): an in-memory cache in front
  of the scope tables, the message handlers, and mark-and-sweep collection.  The cache is an
  association list (a hash map whose iteration order is that of the list).  Every database call of
  a handler is named by a \<open>db_call\<close>, and the argument \<open>io\<close> says which calls succeed.
\<close>

datatype db_call = CallGet scope_hash | CallInsert | CallSweep | CallList

datatype store_error =
    PersistInserted scope_hash storage_error
  | LoadBase scope_hash storage_error
  | PersistDerived scope_hash storage_error
  | ScopeNotFound scope_hash
  | NoSnapshot scope_hash
  | MissingAncestor scope_hash
  | StoreStorage storage_error

type_synonym scope_cache = "(scope_hash \<times> scope) list"

record scope_store =
  cache :: scope_cache
  db :: database

record scope_gc_report =
  retained :: nat
  removed_cached :: nat
  removed_persisted :: nat

record scope_info =
  si_hash :: string
  si_parent :: "string option"
  si_cwd :: string
  si_env_count :: nat

definition load_scope ::
    "(db_call \<Rightarrow> bool) \<Rightarrow> database \<Rightarrow> scope_hash \<Rightarrow> scope_cache \<Rightarrow> (storage_error, scope option) result \<times> scope_cache" where
  "load_scope io d h c =
     (case map_of c h of
        Some sc \<Rightarrow> (Inr (Some sc), c)
      | None \<Rightarrow>
          (case get_scope (io (CallGet h)) d h of
             Inl e \<Rightarrow> (Inl e, c)
           | Inr None \<Rightarrow> (Inr None, c)
           | Inr (Some sc) \<Rightarrow> (Inr (Some sc), AList.update (sc_hash sc) sc c)))"

definition scope_info_of :: "scope \<Rightarrow> (store_error, scope_info) result" where
  "scope_info_of sc =
     (case sc_snapshot sc of
        None \<Rightarrow> Inl (NoSnapshot (sc_hash sc))
      | Some s \<Rightarrow> Inr \<lparr>si_hash = show_scope_hash (sc_hash sc),
                       si_parent = map_option show_scope_hash (sc_parent sc),
                       si_cwd = cwd s, si_env_count = length (env s)\<rparr>)"

definition create_root_store ::
    "(string \<Rightarrow> 8 word list) \<Rightarrow> bool \<Rightarrow> env_snapshot \<Rightarrow> database \<Rightarrow> (storage_error, scope_store) result" where
  "create_root_store blake3 sql s d =
     (let root = scope_root blake3 s
      in case insert_scope sql d root of
           (Inl e, _) \<Rightarrow> Inl e
         | (Inr _, d') \<Rightarrow> Inr \<lparr>cache = [(sc_hash root, root)], db = d'\<rparr>)"

section \<open>Mark and sweep\<close>

lemma get_scope_hash: "get_scope sql d h = Inr (Some sc) \<Longrightarrow> sc_hash sc = h \<and> h \<in> scope_hashes d"
  by (auto simp: get_scope_def scope_from_row_parts_def scope_hashes_def and_then_def find_Some_iff
      split: if_splits option.splits sum.splits)

lemma load_scope_cases:
  assumes "load_scope io d h c = (Inr (Some sc), c')"
  obtains (cached) "map_of c h = Some sc" "c' = c"
    | (loaded) "map_of c h = None" "get_scope (io (CallGet h)) d h = Inr (Some sc)" "sc_hash sc = h"
        "h \<in> scope_hashes d" "c' = AList.update h sc c"
  using assms get_scope_hash [of "io (CallGet h)" d h]
  by (auto simp: load_scope_def split: option.splits sum.splits)

lemma load_scope_keys:
  assumes "load_scope io d h c = (Inr (Some sc), c')"
  shows "h \<in> fst ` set c \<union> scope_hashes d" "fst ` set c' \<subseteq> fst ` set c \<union> scope_hashes d"
  using assms
  by (cases rule: load_scope_cases; force dest: map_of_SomeD)
     (use assms in \<open>cases rule: load_scope_cases; simp add: AList.dom_update\<close>)

text \<open>
  The mark loop.  The head of \<open>pending\<close> is the end of the source's stack.  Each new mark is a hash
  of the cache or of the table, of which there are finitely many.
\<close>

function gc_mark ::
    "(db_call \<Rightarrow> bool) \<Rightarrow> database \<Rightarrow> scope_cache \<Rightarrow> scope_hash list \<Rightarrow> scope_hash list
     \<Rightarrow> (store_error, scope_hash list) result \<times> scope_cache" where
  "gc_mark io d c reachable [] = (Inr reachable, c)"
| "gc_mark io d c reachable (h # pending) =
     (if h \<in> set reachable then gc_mark io d c reachable pending
      else case load_scope io d h c of
             (Inl e, c') \<Rightarrow> (Inl (StoreStorage e), c')
           | (Inr None, c') \<Rightarrow> (Inl (MissingAncestor h), c')
           | (Inr (Some sc), c') \<Rightarrow>
               gc_mark io d c' (h # reachable)
                 (case sc_parent sc of Some p \<Rightarrow> p # pending | None \<Rightarrow> pending))"
  by pat_completeness auto
termination
proof (relation "measures [\<lambda>(io, d, c, reachable, pending). card (fst ` set c \<union> scope_hashes d - set reachable),
    \<lambda>(io, d, c, reachable, pending). length pending]", goal_cases)
  case (3 io d c reachable h pending r c' ok sc)
  note k = load_scope_keys [of io d h c sc c']
  let ?A = "fst ` set c \<union> scope_hashes d - set reachable"
  have "load_scope io d h c = (Inr (Some sc), c')" using 3 by simp
  from k [OF this] 3 have "fst ` set c' \<union> scope_hashes d - set (h # reachable) \<subset> ?A" by auto
  then show ?case by (simp add: psubset_card_mono scope_hashes_def)
qed simp_all

definition garbage_collect_scopes ::
    "(db_call \<Rightarrow> bool) \<Rightarrow> scope_hash list \<Rightarrow> scope_store \<Rightarrow> (store_error, scope_gc_report) result \<times> scope_store" where
  "garbage_collect_scopes io roots st =
     (case gc_mark io (db st) (cache st) [] roots of
        (Inl e, c) \<Rightarrow> (Inl e, st\<lparr>cache := c\<rparr>)
      | (Inr reachable, c) \<Rightarrow>
          (case sweep_scopes (io CallSweep) (db st) (set reachable) of
             (Inl e, d) \<Rightarrow> (Inl (StoreStorage e), st\<lparr>cache := c, db := d\<rparr>)
           | (Inr removed, d) \<Rightarrow>
               let c' = filter (\<lambda>(h, _). h \<in> set reachable) c
               in (Inr \<lparr>retained = length reachable, removed_cached = length c - length c',
                        removed_persisted = removed\<rparr>,
                   st\<lparr>cache := c', db := d\<rparr>)))"

section \<open>Messages\<close>

datatype store_msg =
    Insert scope
  | GetScope scope_hash
  | Derive scope_hash env_delta
  | GarbageCollect "scope_hash list"
  | ListScopes

datatype store_reply =
    HashReply "(store_error, scope_hash) result"
  | ScopeReply "(storage_error, scope option) result"
  | GcReply "(store_error, scope_gc_report) result"
  | ListReply "(store_error, scope_info list) result"

definition handle_insert :: "(db_call \<Rightarrow> bool) \<Rightarrow> scope \<Rightarrow> scope_store \<Rightarrow> store_reply \<times> scope_store" where
  "handle_insert io sc st =
     (case insert_scope (io CallInsert) (db st) sc of
        (Inr _, d) \<Rightarrow>
          (HashReply (Inr (sc_hash sc)), st\<lparr>cache := AList.update (sc_hash sc) sc (cache st), db := d\<rparr>)
      | (Inl e, d) \<Rightarrow> (HashReply (Inl (PersistInserted (sc_hash sc) e)), st\<lparr>db := d\<rparr>))"

definition handle_get :: "(db_call \<Rightarrow> bool) \<Rightarrow> scope_hash \<Rightarrow> scope_store \<Rightarrow> store_reply \<times> scope_store" where
  "handle_get io h st =
     (let (r, c) = load_scope io (db st) h (cache st) in (ScopeReply r, st\<lparr>cache := c\<rparr>))"

definition handle_derive ::
    "(string \<Rightarrow> 8 word list) \<Rightarrow> (db_call \<Rightarrow> bool) \<Rightarrow> scope_hash \<Rightarrow> env_delta \<Rightarrow> scope_store \<Rightarrow> store_reply \<times> scope_store" where
  "handle_derive blake3 io base delta st =
     (case load_scope io (db st) base (cache st) of
        (Inl e, c) \<Rightarrow> (HashReply (Inl (LoadBase base e)), st\<lparr>cache := c\<rparr>)
      | (Inr None, c) \<Rightarrow> (HashReply (Inl (ScopeNotFound base)), st\<lparr>cache := c\<rparr>)
      | (Inr (Some parent), c) \<Rightarrow>
          (case sc_snapshot parent of
             None \<Rightarrow> (HashReply (Inl (NoSnapshot (sc_hash parent))), st\<lparr>cache := c\<rparr>)
           | Some parent_snap \<Rightarrow>
               let child = scope_fork blake3 (sc_hash parent) parent_snap delta
               in case insert_scope (io CallInsert) (db st) child of
                    (Inl e, d) \<Rightarrow>
                      (HashReply (Inl (PersistDerived (sc_hash child) e)), st\<lparr>cache := c, db := d\<rparr>)
                  | (Inr _, d) \<Rightarrow>
                      (HashReply (Inr (sc_hash child)),
                       st\<lparr>cache := AList.update (sc_hash child) child c, db := d\<rparr>)))"

definition handle_list :: "(db_call \<Rightarrow> bool) \<Rightarrow> scope_store \<Rightarrow> store_reply \<times> scope_store" where
  "handle_list io st =
     (case list_scopes (io CallList) (db st) of
        Inl e \<Rightarrow> (ListReply (Inl (StoreStorage e)), st)
      | Inr scs \<Rightarrow>
          let c = foldl (\<lambda>c sc. AList.update (sc_hash sc) sc c) (cache st) scs
          in (case collect_results (map (\<lambda>(_, sc). scope_info_of sc) c) of
                Inl e \<Rightarrow> (ListReply (Inl e), st\<lparr>cache := c\<rparr>)
              | Inr infos \<Rightarrow> (ListReply (Inr (sort_key si_hash infos)), st\<lparr>cache := c\<rparr>)))"

fun handle_msg ::
    "(string \<Rightarrow> 8 word list) \<Rightarrow> (db_call \<Rightarrow> bool) \<Rightarrow> store_msg \<Rightarrow> scope_store \<Rightarrow> store_reply \<times> scope_store" where
  "handle_msg blake3 io (Insert sc) st = handle_insert io sc st"
| "handle_msg blake3 io (GetScope h) st = handle_get io h st"
| "handle_msg blake3 io (Derive base delta) st = handle_derive blake3 io base delta st"
| "handle_msg blake3 io (GarbageCollect roots) st =
     (let (r, st') = garbage_collect_scopes io roots st in (GcReply r, st'))"
| "handle_msg blake3 io ListScopes st = handle_list io st"

section \<open>What the store holds\<close>

definition lookup :: "scope_cache \<Rightarrow> database \<Rightarrow> scope_hash \<Rightarrow> scope option" where
  "lookup c d h =
     (case map_of c h of
        Some sc \<Rightarrow> Some sc
      | None \<Rightarrow> (case get_scope True d h of Inr r \<Rightarrow> r | Inl _ \<Rightarrow> None))"

definition parent_rel :: "scope_cache \<Rightarrow> database \<Rightarrow> (scope_hash \<times> scope_hash) set" where
  "parent_rel c d = {(h, p). \<exists>sc. lookup c d h = Some sc \<and> sc_parent sc = Some p}"

definition ancestors :: "scope_store \<Rightarrow> scope_hash list \<Rightarrow> scope_hash set" where
  "ancestors st roots = (parent_rel (cache st) (db st))\<^sup>* `` set roots"

lemma get_scope_Inr: "get_scope sql d h = Inr r \<Longrightarrow> get_scope True d h = Inr r"
  by (auto simp: get_scope_def split: if_splits)

lemma load_scope_lookup:
  assumes "load_scope io d h c = (Inr (Some sc), c')"
  shows "lookup c d h = Some sc" "lookup c' d = lookup c d"
proof -
  show "lookup c d h = Some sc"
    using assms by (cases rule: load_scope_cases) (auto simp: lookup_def dest: get_scope_Inr)
  show "lookup c' d = lookup c d"
    using assms
  proof (cases rule: load_scope_cases)
    case loaded
    then show ?thesis by (auto simp: lookup_def fun_eq_iff AList.update_conv' dest: get_scope_Inr)
  qed simp
qed

lemma load_scope_error: "load_scope io d h c = (r, c') \<Longrightarrow> (\<nexists>sc. r = Inr (Some sc)) \<Longrightarrow> c' = c"
  by (auto simp: load_scope_def split: option.splits sum.splits) metis

lemma gc_mark_lookup: "lookup (snd (gc_mark io d c R pending)) d = lookup c d"
proof (induction io d c R pending rule: gc_mark.induct)
  case (2 io d c R h pending)
  obtain r c' where l: "load_scope io d h c = (r, c')" by (cases "load_scope io d h c")
  show ?case
  proof (cases "h \<in> set R \<or> (\<nexists>sc. r = Inr (Some sc))")
    case True
    then show ?thesis
      using 2(1) l load_scope_error [OF l] by (auto split: sum.splits option.splits)
  next
    case False
    then obtain sc where r: "r = Inr (Some sc)" by auto
    with l have e: "load_scope io d h c = (Inr (Some sc), c')" by simp
    show ?thesis using False 2(2) [OF _ e [symmetric] refl refl] load_scope_lookup(2) [OF e] by (simp add: e)
  qed
qed simp

lemma gc_mark_spec:
  assumes "gc_mark io d c R pending = (Inr R', c')"
    and "\<forall>h\<in>set R. \<forall>p. (h, p) \<in> parent_rel c d \<longrightarrow> p \<in> set R \<union> set pending"
    and "\<forall>h\<in>set R. lookup c d h \<noteq> None"
  shows "set R \<union> set pending \<subseteq> set R' \<and> (\<forall>h\<in>set R'. \<forall>p. (h, p) \<in> parent_rel c d \<longrightarrow> p \<in> set R')
    \<and> set R' \<subseteq> set R \<union> (parent_rel c d)\<^sup>* `` set pending \<and> (\<forall>h\<in>set R'. lookup c d h \<noteq> None)"
  using assms
proof (induction io d c R pending rule: gc_mark.induct)
  case (2 io d c R h pending)
  show ?case
  proof (cases "h \<in> set R")
    case True
    then have "set R \<union> set pending \<subseteq> set R' \<and> (\<forall>h\<in>set R'. \<forall>p. (h, p) \<in> parent_rel c d \<longrightarrow> p \<in> set R')
      \<and> set R' \<subseteq> set R \<union> (parent_rel c d)\<^sup>* `` set pending \<and> (\<forall>h\<in>set R'. lookup c d h \<noteq> None)"
      using 2(1) 2(3-) by (intro 2(1)) auto
    then show ?thesis using True by auto
  next
    case False
    then obtain sc c1 where e: "load_scope io d h c = (Inr (Some sc), c1)"
      using 2(3) by (auto split: prod.splits sum.splits option.splits)
    define pend where "pend = (case sc_parent sc of Some p \<Rightarrow> p # pending | None \<Rightarrow> pending)"
    have lk: "lookup c d h = Some sc" "parent_rel c1 d = parent_rel c d" "lookup c1 d = lookup c d"
      using load_scope_lookup [OF e] by (simp_all add: parent_rel_def)
    have run: "gc_mark io d c1 (h # R) pend = (Inr R', c')"
      using 2(3) False by (simp add: e pend_def)
    have par: "(h, p) \<in> parent_rel c d \<longleftrightarrow> sc_parent sc = Some p" for p
      by (simp add: parent_rel_def lk)
    have "set (h # R) \<union> set pend \<subseteq> set R' \<and> (\<forall>h\<in>set R'. \<forall>p. (h, p) \<in> parent_rel c d \<longrightarrow> p \<in> set R')
      \<and> set R' \<subseteq> set (h # R) \<union> (parent_rel c d)\<^sup>* `` set pend \<and> (\<forall>h\<in>set R'. lookup c d h \<noteq> None)"
    proof -
      have "\<forall>h'\<in>set (h # R). \<forall>p. (h', p) \<in> parent_rel c1 d \<longrightarrow> p \<in> set (h # R) \<union> set pend"
        using 2(4) par unfolding lk(2) by (auto simp: pend_def split: option.splits)
      moreover have "\<forall>h'\<in>set (h # R). lookup c1 d h' \<noteq> None" using 2(5) lk by simp
      ultimately show ?thesis
        using 2(2) [OF False e [symmetric] refl refl, folded pend_def, OF run] unfolding lk(2,3) by blast
    qed
    moreover have "(parent_rel c d)\<^sup>* `` set pend \<subseteq> (parent_rel c d)\<^sup>* `` set (h # pending)"
      using par by (auto simp: pend_def split: option.splits intro: converse_rtrancl_into_rtrancl)
    moreover have "set pending \<subseteq> set pend" by (auto simp: pend_def split: option.splits)
    moreover have "h \<in> (parent_rel c d)\<^sup>* `` set (h # pending)" by auto
    ultimately show ?thesis by (simp, blast)
  qed
qed auto

lemma gc_mark_ancestors:
  assumes "gc_mark io d c [] roots = (Inr R, c')"
  shows "set R = (parent_rel c d)\<^sup>* `` set roots" and "\<forall>h\<in>set R. lookup c d h \<noteq> None"
proof -
  note m = gc_mark_spec [OF assms, simplified]
  have "h \<in> set R" if "(r, h) \<in> (parent_rel c d)\<^sup>*" "r \<in> set roots" for r h
    using that by (induction rule: rtrancl_induct) (use m in auto)
  then show "set R = (parent_rel c d)\<^sup>* `` set roots" using m by auto
  show "\<forall>h\<in>set R. lookup c d h \<noteq> None" using m by simp
qed

lemma find_filter:
  "(\<And>x. P x \<Longrightarrow> Q x) \<Longrightarrow> find P (filter Q xs) = find P xs"
  by (induction xs) auto

lemma get_scope_filter:
  assumes "scopes_t d' = filter (\<lambda>r. row_hash r \<in> R) (scopes_t d)"
  shows "get_scope True d' h = (if h \<in> R then get_scope True d h else Inr None)"
proof (cases "h \<in> R")
  case True
  have "find (\<lambda>r. row_hash r = h) (scopes_t d') = find (\<lambda>r. row_hash r = h) (scopes_t d)"
    unfolding assms by (rule find_filter) (use True in auto)
  then show ?thesis using True by (simp add: get_scope_def)
next
  case False
  then have "find (\<lambda>r. row_hash r = h) (scopes_t d') = None"
    by (auto simp: assms find_None_iff)
  then show ?thesis using False by (simp add: get_scope_def)
qed

lemma map_of_filter_keys: "map_of (filter (\<lambda>(h, _). h \<in> R) c) h = (if h \<in> R then map_of c h else None)"
  by (induction c) auto

section \<open>Invariants of the running store\<close>

definition content_ok :: "(string \<Rightarrow> 8 word list) \<Rightarrow> scope \<Rightarrow> bool" where
  "content_ok blake3 sc \<longleftrightarrow> (\<exists>s. sc_snapshot sc = Some s \<and> sc_hash sc = compute_hash blake3 s)"

definition store_inv :: "(string \<Rightarrow> 8 word list) \<Rightarrow> scope_store \<Rightarrow> bool" where
  "store_inv blake3 st \<longleftrightarrow>
     (\<forall>h sc. map_of (cache st) h = Some sc \<longrightarrow> sc_hash sc = h \<and> content_ok blake3 sc)
     \<and> (\<forall>r\<in>set (scopes_t (db st)). \<exists>sc. r = scope_to_row sc \<and> content_ok blake3 sc
          \<and> \<not> scope_contains_sensitive_environment sc)
     \<and> distinct (map row_hash (scopes_t (db st)))"

text \<open>
  One message; the scopes that clients insert are roots built from a snapshot, whose hash is
  that of the snapshot.
\<close>

inductive store_step :: "(string \<Rightarrow> 8 word list) \<Rightarrow> scope_store \<Rightarrow> scope_store \<Rightarrow> bool" for blake3 where
  msg: "(\<And>sc. m = Insert sc \<Longrightarrow> content_ok blake3 sc) \<Longrightarrow> handle_msg blake3 io m st = (r, st') \<Longrightarrow>
        store_step blake3 st st'"

lemma decode_scope_to_row:
  "scope_from_row_parts (scope_to_row sc) = Inr sc' \<Longrightarrow> sc' = sc"
  by (auto simp: scope_from_row_parts_def scope_to_row_def decode_cell_def and_then_def
      split: if_splits option.splits sum.splits)

lemma get_scope_content:
  assumes "store_inv blake3 st" "get_scope sql (db st) h = Inr (Some sc)"
  shows "sc_hash sc = h \<and> content_ok blake3 sc"
proof -
  obtain row where "find (\<lambda>r. row_hash r = h) (scopes_t (db st)) = Some row" "scope_from_row_parts row = Inr sc"
    using assms(2) by (cases "find (\<lambda>r. row_hash r = h) (scopes_t (db st))")
      (auto simp: get_scope_def map_sum_def split: if_splits sum.splits)
  then have "row \<in> set (scopes_t (db st))" "scope_from_row_parts row = Inr sc"
    by (auto simp: find_Some_iff)
  then have "content_ok blake3 sc" using assms(1) by (auto simp: store_inv_def dest!: decode_scope_to_row)
  then show ?thesis using get_scope_hash [OF assms(2)] by simp
qed

lemma load_scope_inv:
  assumes "store_inv blake3 st" "load_scope io (db st) h (cache st) = (r, c)"
  shows "store_inv blake3 (st\<lparr>cache := c\<rparr>) \<and> (\<forall>sc. r = Inr (Some sc) \<longrightarrow> sc_hash sc = h \<and> content_ok blake3 sc)"
proof (cases "\<exists>sc. r = Inr (Some sc)")
  case True
  then obtain sc where r: "r = Inr (Some sc)" by blast
  with assms(2) have e: "load_scope io (db st) h (cache st) = (Inr (Some sc), c)" by simp
  then show ?thesis
  proof (cases rule: load_scope_cases)
    case cached
    then show ?thesis using assms(1) r by (auto simp: store_inv_def)
  next
    case loaded
    then show ?thesis
      using assms(1) r get_scope_content [OF assms(1)] by (auto simp: store_inv_def AList.update_conv')
  qed
next
  case False
  then have "c = cache st" using load_scope_error [OF assms(2)] by blast
  then show ?thesis using assms(1) False by auto
qed

lemma insert_scope_inv:
  assumes "store_inv blake3 st" "content_ok blake3 sc" "insert_scope sql (db st) sc = (r, d)"
  shows "store_inv blake3 (st\<lparr>db := d\<rparr>) \<and> store_inv blake3 (st\<lparr>cache := AList.update (sc_hash sc) sc (cache st), db := d\<rparr>)"
proof -
  have d: "d = snd (insert_scope sql (db st) sc)" using assms(3) by simp
  have "\<forall>r\<in>set (scopes_t d). r \<in> set (scopes_t (db st)) \<or>
      r = scope_to_row sc \<and> \<not> scope_contains_sensitive_environment sc"
    by (auto simp: d insert_scope_def insert_or_ignore_def)
  moreover have "distinct (map row_hash (scopes_t d))"
    unfolding d using assms(1) by (intro insert_scope_distinct) (simp add: store_inv_def)
  ultimately show ?thesis
    using assms(1,2) by (fastforce simp: store_inv_def AList.update_conv')
qed

lemma handle_insert_inv [component_inv]:
  "store_inv blake3 st \<Longrightarrow> content_ok blake3 sc \<Longrightarrow> store_inv blake3 (snd (handle_insert io sc st))"
  by (cases "insert_scope (io CallInsert) (db st) sc")
     (auto simp: handle_insert_def dest: insert_scope_inv split: sum.splits)

lemma handle_get_inv [component_inv]:
  "store_inv blake3 st \<Longrightarrow> store_inv blake3 (snd (handle_get io h st))"
  by (auto simp: handle_get_def split: prod.splits dest: load_scope_inv)

lemma handle_derive_inv [component_inv]:
  assumes "store_inv blake3 st"
  shows "store_inv blake3 (snd (handle_derive blake3 io base delta st))"
proof -
  obtain r c where l: "load_scope io (db st) base (cache st) = (r, c)" by (cases "load_scope io (db st) base (cache st)")
  note li = load_scope_inv [OF assms l]
  have fork: "content_ok blake3 (scope_fork blake3 h s delta)" for h s
    by (simp add: content_ok_def scope_fork_def Let_def)
  show ?thesis
  proof (cases "\<exists>parent snap. r = Inr (Some parent) \<and> sc_snapshot parent = Some snap")
    case False
    then have "snd (handle_derive blake3 io base delta st) = st\<lparr>cache := c\<rparr>"
      using l by (cases r) (auto simp: handle_derive_def split: option.splits)
    then show ?thesis using li by simp
  next
    case True
    then obtain parent snap where p: "r = Inr (Some parent)" "sc_snapshot parent = Some snap" by blast
    obtain q d where i: "insert_scope (io CallInsert) (db st) (scope_fork blake3 (sc_hash parent) snap delta) = (q, d)"
      by (cases "insert_scope (io CallInsert) (db st) (scope_fork blake3 (sc_hash parent) snap delta)")
    have "store_inv blake3 (st\<lparr>cache := c\<rparr>)" using li by blast
    from insert_scope_inv [OF this fork, of "io CallInsert"] i
    show ?thesis using l p by (auto simp: handle_derive_def Let_def split: sum.splits)
  qed
qed

lemma gc_mark_cache_inv:
  "store_inv blake3 \<lparr>cache = c, db = d\<rparr> \<Longrightarrow> store_inv blake3 \<lparr>cache = snd (gc_mark io d c R pending), db = d\<rparr>"
proof (induction io d c R pending rule: gc_mark.induct)
  case (2 io d c R h pending)
  obtain r c' where l: "load_scope io d h c = (r, c')" by (cases "load_scope io d h c")
  note li = load_scope_inv [OF "2.prems", simplified, OF l]
  show ?case
  proof (cases "h \<in> set R \<or> (\<nexists>sc. r = Inr (Some sc))")
    case True
    then show ?thesis
      using "2.IH"(1) "2.prems" l load_scope_error [OF l] by (auto split: sum.splits option.splits)
  next
    case False
    then obtain sc where r: "r = Inr (Some sc)" by auto
    with l have e: "load_scope io d h c = (Inr (Some sc), c')" by simp
    have "store_inv blake3 \<lparr>cache = c', db = d\<rparr>" using li by blast
    then show ?thesis using False "2.IH"(2) [OF _ e [symmetric] refl refl] by (simp add: e)
  qed
qed simp

lemma store_inv_shrink:
  assumes "store_inv blake3 st" "scopes_t d = filter P (scopes_t (db st))"
    and "\<And>h sc. map_of c h = Some sc \<Longrightarrow> map_of (cache st) h = Some sc"
  shows "store_inv blake3 (st\<lparr>cache := c, db := d\<rparr>)"
  using assms by (auto simp: store_inv_def distinct_map_filter)

lemma gc_inv [component_inv]:
  assumes "store_inv blake3 st"
  shows "store_inv blake3 (snd (garbage_collect_scopes io roots st))"
proof -
  obtain r c where m: "gc_mark io (db st) (cache st) [] roots = (r, c)" by (cases "gc_mark io (db st) (cache st) [] roots")
  have i: "store_inv blake3 (st\<lparr>cache := c\<rparr>)" using gc_mark_cache_inv [of blake3 "cache st" "db st" io "[]" roots] assms m by (cases st) simp
  show ?thesis
  proof (cases r)
    case (Inl e)
    then show ?thesis using m i by (simp add: garbage_collect_scopes_def)
  next
    case (Inr R)
    obtain q d where s: "sweep_scopes (io CallSweep) (db st) (set R) = (q, d)"
      by (cases "sweep_scopes (io CallSweep) (db st) (set R)")
    show ?thesis
    proof (cases q)
      case Inl': (Inl e)
      then have "d = db st" using s sweep_error by blast
      then show ?thesis using m s i Inr Inl' by (simp add: garbage_collect_scopes_def)
    next
      case Inr': (Inr n)
      note w = sweep_ok(1) [OF s [unfolded Inr']]
      have "store_inv blake3 (st\<lparr>cache := c, cache := filter (\<lambda>(h, _). h \<in> set R) c, db := d\<rparr>)"
        by (rule store_inv_shrink [OF i]) (use w in \<open>auto simp: map_of_filter_keys split: if_splits\<close>)
      then show ?thesis using m s Inr Inr' by (simp add: garbage_collect_scopes_def Let_def)
    qed
  qed
qed

lemma handle_list_inv [component_inv]:
  assumes "store_inv blake3 st"
  shows "store_inv blake3 (snd (handle_list io st))"
proof -
  have fold: "store_inv blake3 (st\<lparr>cache := foldl (\<lambda>c sc. AList.update (sc_hash sc) sc c) c scs\<rparr>)"
    if "store_inv blake3 (st\<lparr>cache := c\<rparr>)" "\<forall>sc\<in>set scs. content_ok blake3 sc" for c scs
    using that
  proof (induction scs arbitrary: c)
    case (Cons sc scs)
    have "store_inv blake3 (st\<lparr>cache := AList.update (sc_hash sc) sc c\<rparr>)"
      using Cons.prems by (auto simp: store_inv_def AList.update_conv')
    then show ?case using Cons by simp
  qed simp
  have rows: "\<forall>sc\<in>set scs. content_ok blake3 sc"
    if "collect_results (map scope_from_row_parts rows) = Inr scs" "set rows \<subseteq> set (scopes_t (db st))" for rows scs
    using that
  proof (induction rows arbitrary: scs)
    case (Cons r rows)
    then obtain sc scs' where "scs = sc # scs'" "scope_from_row_parts r = Inr sc"
        "collect_results (map scope_from_row_parts rows) = Inr scs'"
      by (auto split: sum.splits)
    moreover obtain sc0 where "r = scope_to_row sc0" "content_ok blake3 sc0"
      using Cons.prems(2) assms by (auto simp: store_inv_def)
    ultimately show ?case using Cons decode_scope_to_row [of sc0 sc] by auto
  qed simp
  show ?thesis
  proof (cases "list_scopes (io CallList) (db st)")
    case (Inr scs)
    then have "\<forall>sc\<in>set scs. content_ok blake3 sc"
      using rows [of "scopes_t (db st)" scs] by (auto simp: list_scopes_def split: if_splits)
    then have "store_inv blake3 (st\<lparr>cache := foldl (\<lambda>c sc. AList.update (sc_hash sc) sc c) (cache st) scs\<rparr>)"
      using fold [of "cache st" scs] assms by (cases st) simp
    then show ?thesis using Inr by (auto simp: handle_list_def Let_def split: sum.splits)
  qed (simp add: handle_list_def assms)
qed

lemma handle_msg_inv:
  "store_inv blake3 st \<Longrightarrow> (\<And>sc. m = Insert sc \<Longrightarrow> content_ok blake3 sc) \<Longrightarrow>
   store_inv blake3 (snd (handle_msg blake3 io m st))"
  by (cases m) (auto intro: component_inv simp: split_beta)

definition store_start :: "(string \<Rightarrow> 8 word list) \<Rightarrow> scope_store \<Rightarrow> bool" where
  "store_start blake3 st \<longleftrightarrow> (\<exists>sql s. create_root_store blake3 sql s empty_db = Inr st)"

lemma root_content_ok: "content_ok blake3 (scope_root blake3 s)"
  by (simp add: content_ok_def scope_root_def)

lemma store_start_inv: "store_start blake3 st \<Longrightarrow> store_inv blake3 st"
  using root_content_ok [of blake3]
  by (auto simp: store_start_def create_root_store_def Let_def insert_scope_def insert_or_ignore_def
      store_inv_def empty_db_def scope_hashes_def split: if_splits prod.splits sum.splits option.splits)

interpretation store: invariant_machine "store_start blake3" "store_step blake3" "store_inv blake3" for blake3
proof
  show "store_start blake3 s \<Longrightarrow> store_inv blake3 s" for s by (rule store_start_inv)
  show "store_inv blake3 s \<Longrightarrow> store_step blake3 s t \<Longrightarrow> store_inv blake3 t" for s t
    by (erule store_step.cases) (metis handle_msg_inv snd_conv)
qed

section \<open>Properties\<close>

text \<open>
  C4.  Credentials never reach the disk: in every state the scope store can reach from a fresh
  database, by any messages and whichever database calls fail, no persisted scope has a
  credential-like variable name in its snapshot or its delta.  In the same states every cached and
  every persisted scope carries the hash of its own snapshot.
\<close>

theorem store_never_persists_secrets:
  assumes "store_start blake3 st0" and "(store_step blake3)\<^sup>*\<^sup>* st0 st"
  shows "no_secrets (db st)
    \<and> (\<forall>r\<in>set (scopes_t (db st)). \<exists>s. row_snap r = Some (Json s) \<and> row_hash r = compute_hash blake3 s)
    \<and> (\<forall>h sc. map_of (cache st) h = Some sc \<longrightarrow>
         (\<exists>s. sc_snapshot sc = Some s \<and> h = compute_hash blake3 s))"
proof -
  have inv: "store_inv blake3 st" using store.reachable_inv [OF assms] .
  have "no_secrets (db st)"
    unfolding no_secrets_def
  proof
    fix r assume "r \<in> set (scopes_t (db st))"
    then obtain sc where "r = scope_to_row sc" "\<not> scope_contains_sensitive_environment sc"
      using inv by (auto simp: store_inv_def)
    then show "\<not> row_sensitive r" by simp
  qed
  moreover have "\<exists>s. row_snap r = Some (Json s) \<and> row_hash r = compute_hash blake3 s"
    if "r \<in> set (scopes_t (db st))" for r
    using that inv by (auto simp: store_inv_def content_ok_def scope_to_row_def)
  moreover have "\<exists>s. sc_snapshot sc = Some s \<and> h = compute_hash blake3 s"
    if "map_of (cache st) h = Some sc" for h sc
    using that inv by (fastforce simp: store_inv_def content_ok_def)
  ultimately show ?thesis by blast
qed

theorem store_never_persists_secrets_witness:
  "\<exists>st. store_start (\<lambda>_. []) st \<and> no_secrets (db st)"
proof -
  let ?s = "\<lparr>env = [(''API_TOKEN'', ''x'')], cwd = ''/''\<rparr>"
  obtain st where st: "create_root_store (\<lambda>_. []) True ?s empty_db = Inr st"
    by (cases "scope_contains_sensitive_environment (scope_root (\<lambda>_. []) ?s)")
       (simp_all add: create_root_store_def Let_def insert_scope_def, simp add: scope_root_def)
  then have "store_start (\<lambda>_. []) st" by (auto simp: store_start_def)
  with store_never_persists_secrets [OF this rtranclp.rtrancl_refl] show ?thesis by blast
qed

text \<open>
  C7.  Collection removes exactly the garbage: when it succeeds, every root and every ancestor of a
  root (following the parent links the store holds) is found as before, nothing else is found any
  more, and every scope a job, cron or session row refers to has survived.  When it fails, every
  scope is found as before and the tables are unchanged.
\<close>

theorem gc_exact:
  "(case garbage_collect_scopes io roots st of
      (Inr _, st') \<Rightarrow>
        (\<forall>h. lookup (cache st') (db st') h =
           (if h \<in> ancestors st roots then lookup (cache st) (db st) h else None))
        \<and> (\<forall>h. h \<in> ancestors st roots \<longleftrightarrow> lookup (cache st') (db st') h \<noteq> None)
        \<and> durable_references (db st') \<inter> scope_hashes (db st) \<subseteq> scope_hashes (db st')
    | (Inl _, st') \<Rightarrow> lookup (cache st') (db st') = lookup (cache st) (db st) \<and> db st' = db st)"
proof -
  obtain r c where m: "gc_mark io (db st) (cache st) [] roots = (r, c)" by (cases "gc_mark io (db st) (cache st) [] roots")
  have lc: "lookup c (db st) = lookup (cache st) (db st)" using gc_mark_lookup [of io "db st" "cache st" "[]" roots] m by simp
  show ?thesis
  proof (cases r)
    case (Inl e)
    then show ?thesis using m lc by (simp add: garbage_collect_scopes_def)
  next
    case (Inr R)
    note A = gc_mark_ancestors [OF m [unfolded Inr], folded ancestors_def]
    obtain q d where s: "sweep_scopes (io CallSweep) (db st) (set R) = (q, d)"
      by (cases "sweep_scopes (io CallSweep) (db st) (set R)")
    show ?thesis
    proof (cases q)
      case Inl': (Inl e)
      then have "d = db st" using s sweep_error by blast
      then show ?thesis using m s lc Inr Inl' by (simp add: garbage_collect_scopes_def)
    next
      case Inr': (Inr n)
      note w = sweep_ok [OF s [unfolded Inr']]
      have l: "lookup (filter (\<lambda>(h, _). h \<in> set R) c) d h =
          (if h \<in> ancestors st roots then lookup (cache st) (db st) h else None)" for h
        unfolding lc [symmetric] A(1) [symmetric]
        by (simp add: lookup_def map_of_filter_keys get_scope_filter [OF w(1)] split: option.split)
      have "durable_references d \<inter> scope_hashes (db st) \<subseteq> scope_hashes d"
        using w(1-3) by (auto simp: scope_hashes_def)
      then show ?thesis
        using m s Inr Inr' l A by (simp add: garbage_collect_scopes_def Let_def)
    qed
  qed
qed

text \<open>
  C32.  Collection can orphan a persisted scope.  Two sessions start from the roots \<open>s1\<close> and \<open>s2\<close> and
  reach the same snapshot by the same change (for example a \<^verbatim>\<open>cd\<close> to the same directory).  The table
  keeps the first parent of the shared scope, the cache the second.  A collection whose only root is
  the shared scope follows the cache, succeeds and deletes \<open>s1\<close> from the table, although the
  persisted shared scope still names it as its parent; after a restart (with an empty cache) the same
  collection fails because that ancestor is missing.
\<close>

theorem gc_can_orphan_parent:
  fixes blake3 :: "string \<Rightarrow> 8 word list" and s1 s2 t :: env_snapshot
  assumes same: "apply_delta s1 d = t" "apply_delta s2 d = t"
    and hashes: "compute_hash blake3 s1 = h1" "compute_hash blake3 s2 = h2" "compute_hash blake3 t = ht"
    and distinct: "h1 \<noteq> h2" "ht \<noteq> h1" "ht \<noteq> h2"
    and lengths: "blob_ok h1" "blob_ok ht"
    and plain: "\<not> snapshot_sensitive s1" "\<not> snapshot_sensitive s2" "\<not> snapshot_sensitive t" "\<not> delta_sensitive d"
  defines "run \<equiv> foldl (\<lambda>st m. snd (handle_msg blake3 (\<lambda>_. True) m st))"
  shows "(let st = run \<lparr>cache = [], db = empty_db\<rparr>
              [Insert (scope_root blake3 s1), Insert (scope_root blake3 s2), Derive h1 d, Derive h2 d];
            (r, st') = garbage_collect_scopes (\<lambda>_. True) [ht] st
          in r = Inr \<lparr>retained = 2, removed_cached = 1, removed_persisted = 1\<rparr>
             \<and> parents_present (db st) \<and> \<not> parents_present (db st')
             \<and> fst (garbage_collect_scopes (\<lambda>_. True) [ht] (st'\<lparr>cache := []\<rparr>)) = Inl (MissingAncestor h1))"
proof -
  let ?r1 = "scope_root blake3 s1" and ?r2 = "scope_root blake3 s2"
  define c1 where "c1 = scope_fork blake3 h1 s1 d"
  define c2 where "c2 = scope_fork blake3 h2 s2 d"
  have r: "sc_hash ?r1 = h1" "sc_hash ?r2 = h2" "sc_parent ?r1 = None" "sc_parent ?r2 = None"
    "sc_snapshot ?r1 = Some s1" "sc_snapshot ?r2 = Some s2"
    by (simp_all add: scope_root_def hashes)
  have c: "sc_hash c1 = ht" "sc_parent c1 = Some h1" "sc_hash c2 = ht" "sc_parent c2 = Some h2"
    by (simp_all add: c1_def c2_def scope_fork_def same hashes Let_def)
  have ns: "\<not> scope_contains_sensitive_environment ?r1" "\<not> scope_contains_sensitive_environment ?r2"
    "\<not> scope_contains_sensitive_environment c1" "\<not> scope_contains_sensitive_environment c2"
    using plain by (simp_all add: scope_contains_sensitive_environment_def scope_root_def c1_def c2_def
        scope_fork_def same Let_def)
  have row: "row_hash (scope_to_row sc) = sc_hash sc" "row_parent (scope_to_row sc) = sc_parent sc" for sc
    by (simp_all add: scope_to_row_def)
  let ?st = "\<lparr>cache = [(h1, ?r1), (h2, ?r2), (ht, c2)],
      db = empty_db\<lparr>scopes_t := [scope_to_row ?r1, scope_to_row ?r2, scope_to_row c1]\<rparr>\<rparr>"
  have ins: "handle_insert (\<lambda>_. True) ?r1 \<lparr>cache = [], db = empty_db\<rparr> =
      (HashReply (Inr h1), \<lparr>cache = [(h1, ?r1)], db = empty_db\<lparr>scopes_t := [scope_to_row ?r1]\<rparr>\<rparr>)"
    "handle_insert (\<lambda>_. True) ?r2 \<lparr>cache = [(h1, ?r1)], db = empty_db\<lparr>scopes_t := [scope_to_row ?r1]\<rparr>\<rparr> =
      (HashReply (Inr h2), \<lparr>cache = [(h1, ?r1), (h2, ?r2)],
         db = empty_db\<lparr>scopes_t := [scope_to_row ?r1, scope_to_row ?r2]\<rparr>\<rparr>)"
    using r ns distinct
    by (simp_all add: handle_insert_def insert_scope_def insert_or_ignore_def scope_hashes_def row empty_db_def)
  have der: "handle_derive blake3 (\<lambda>_. True) h1 d \<lparr>cache = [(h1, ?r1), (h2, ?r2)],
         db = empty_db\<lparr>scopes_t := [scope_to_row ?r1, scope_to_row ?r2]\<rparr>\<rparr> =
      (HashReply (Inr ht), \<lparr>cache = [(h1, ?r1), (h2, ?r2), (ht, c1)], db = db ?st\<rparr>)"
    "handle_derive blake3 (\<lambda>_. True) h2 d \<lparr>cache = [(h1, ?r1), (h2, ?r2), (ht, c1)], db = db ?st\<rparr>
      = (HashReply (Inr ht), ?st)"
    using r c ns distinct
    by (simp_all add: handle_derive_def load_scope_def insert_scope_def insert_or_ignore_def scope_hashes_def
        row Let_def c1_def [symmetric] c2_def [symmetric] empty_db_def)
  have st: "run \<lparr>cache = [], db = empty_db\<rparr> [Insert ?r1, Insert ?r2, Derive h1 d, Derive h2 d] = ?st"
    by (simp only: run_def foldl.simps handle_msg.simps ins der snd_conv)
  have mark: "gc_mark (\<lambda>_. True) (db ?st) (cache ?st) [] [ht] = (Inr [h2, ht], cache ?st)"
    using r c distinct by (simp add: load_scope_def)
  have sweep: "sweep_scopes True (db ?st) (set [h2, ht]) =
      (Inr 1, empty_db\<lparr>scopes_t := [scope_to_row ?r2, scope_to_row c1]\<rparr>)"
    using r c distinct by (simp add: sweep_scopes_def row durable_references_def empty_db_def)
  have gc: "garbage_collect_scopes (\<lambda>_. True) [ht] ?st =
      (Inr \<lparr>retained = 2, removed_cached = 1, removed_persisted = 1\<rparr>,
       \<lparr>cache = [(h2, ?r2), (ht, c2)], db = empty_db\<lparr>scopes_t := [scope_to_row ?r2, scope_to_row c1]\<rparr>\<rparr>)"
    unfolding garbage_collect_scopes_def mark using sweep distinct by (simp add: Let_def)
  have again: "fst (garbage_collect_scopes (\<lambda>_. True) [ht]
      \<lparr>cache = [], db = empty_db\<lparr>scopes_t := [scope_to_row ?r2, scope_to_row c1]\<rparr>\<rparr>) = Inl (MissingAncestor h1)"
    using r c distinct lengths
    by (simp add: garbage_collect_scopes_def load_scope_def get_scope_def row scope_from_row_parts_def decode_cell_def
        and_then_def empty_db_def scope_to_row_def split: option.split)
  show ?thesis
    unfolding st gc Let_def using again r c distinct
    by (simp add: parents_present_def scope_hashes_def row empty_db_def)
qed

theorem gc_can_orphan_parent_witness:
  "\<exists>h1 ht st st'. parents_present (db st) \<and> \<not> parents_present (db st')
     \<and> st' = snd (garbage_collect_scopes (\<lambda>_. True) [ht] st)
     \<and> fst (garbage_collect_scopes (\<lambda>_. True) [ht] (st'\<lparr>cache := []\<rparr>)) = Inl (MissingAncestor h1)"
proof -
  define b where "b = (\<lambda>x :: string. replicate 31 (0 :: 8 word) @ [word_of_nat (length x)])"
  define s1 s2 t where "s1 = \<lparr>env = [], cwd = ''/a''\<rparr>" and "s2 = \<lparr>env = [], cwd = ''/bb''\<rparr>"
    and "t = \<lparr>env = [], cwd = ''/ccc''\<rparr>"
  define d where "d = \<lparr>d_set = [], d_unset = [], d_cwd = Some ''/ccc''\<rparr>"
  note defs = s1_def s2_def t_def d_def
  have 1: "apply_delta s1 d = t" "apply_delta s2 d = t" by (simp_all add: apply_delta_def Let_def defs)
  have 2: "compute_hash b s1 \<noteq> compute_hash b s2" "compute_hash b t \<noteq> compute_hash b s1"
    "compute_hash b t \<noteq> compute_hash b s2" "blob_ok (compute_hash b s1)" "blob_ok (compute_hash b t)"
    by (simp_all add: compute_hash_def canonical_bytes_def b_def defs)
  have 3: "\<not> snapshot_sensitive s1" "\<not> snapshot_sensitive s2" "\<not> snapshot_sensitive t" "\<not> delta_sensitive d"
    by (simp_all add: snapshot_sensitive_def delta_sensitive_def bt_keys_def defs)
  from gc_can_orphan_parent [OF 1 refl refl refl 2 3] show ?thesis
    by (simp add: Let_def split_beta) metis
qed

end
