(* ===== verification/Registry.thy ===== *)
theory Registry
  imports Resource "HOL-Library.AList" "HOL-Library.Multiset"
begin

text \<open>
  The provider registry (\<^verbatim>\<open>crates/cue-daemon/src/resource/registry.rs\<close>, \<^verbatim>\<open>provider.rs\<close>): routing of
  resource keys to providers, reservation across providers with roll-back, release per job.  A
  provider (a trait object) is a record of its operations over a state of type \<open>'s\<close>; the registry
  holds the current state of every provider.  What the registry relies on is the locale
  \<open>provider_contract\<close>, which the NVIDIA provider of the next theory satisfies.
\<close>

record reserve_request =
  rr_job :: job_id
  rr_need :: need

record reject_group =
  rg_provider :: provider_id
  rg_reject :: reject

record tracked_grant =
  tg_provider :: provider_id
  tg_grant :: reservation

record 's provider =
  p_id :: provider_id
  p_keys :: "string list"
  p_probe :: "'s \<Rightarrow> snapshot \<times> 's"
  p_reserve :: "reserve_request \<Rightarrow> 's \<Rightarrow> (reject, reservation) result \<times> 's"
  p_release :: "reservation_id \<Rightarrow> 's \<Rightarrow> 's"

record 's registry =
  providers :: "'s provider list"
  by_id :: "(provider_id, 's provider) btree"
  key_to_provider :: "(string \<times> provider_id) list"
  reservations :: "(job_id \<times> tracked_grant list) list"
  pstate :: "provider_id \<Rightarrow> 's"

datatype registry_error = DuplicateProviderId provider_id | KeyClaimedTwice string provider_id provider_id

definition show_reject_group :: "reject_group \<Rightarrow> string" where
  "show_reject_group g = pid_str (rg_provider g) @ '': '' @ rej_reason (rg_reject g)"

section \<open>Construction\<close>

fun duplicate_window :: "'s provider list \<Rightarrow> provider_id option" where
  "duplicate_window (p # q # ps) = (if p_id p = p_id q then Some (p_id p) else duplicate_window (q # ps))"
| "duplicate_window _ = None"

fun claim_keys ::
    "provider_id \<Rightarrow> string list \<Rightarrow> (string \<times> provider_id) list \<Rightarrow> (registry_error, (string \<times> provider_id) list) result" where
  "claim_keys i [] t = Inr t"
| "claim_keys i (k # ks) t =
     (case map_of t k of
        Some existing \<Rightarrow> Inl (KeyClaimedTwice k existing i)
      | None \<Rightarrow> claim_keys i ks (AList.update k i t))"

fun route_keys ::
    "'s provider list \<Rightarrow> (string \<times> provider_id) list \<Rightarrow> (registry_error, (string \<times> provider_id) list) result" where
  "route_keys [] t = Inr t"
| "route_keys (p # ps) t = and_then (claim_keys (p_id p) (p_keys p) t) (route_keys ps)"

definition from_providers :: "(provider_id \<Rightarrow> 's) \<Rightarrow> 's provider list \<Rightarrow> (registry_error, 's registry) result" where
  "from_providers st ps =
     (let sorted_ps = sort_key p_id ps
      in case duplicate_window sorted_ps of
           Some i \<Rightarrow> Inl (DuplicateProviderId i)
         | None \<Rightarrow>
             and_then (route_keys sorted_ps []) (\<lambda>t.
               Inr \<lparr>providers = sorted_ps, by_id = bt_from_list (map (\<lambda>p. (p_id p, p)) sorted_ps),
                    key_to_provider = t, reservations = [], pstate = st\<rparr>))"

definition registry_empty :: "(provider_id \<Rightarrow> 's) \<Rightarrow> 's registry" where
  "registry_empty st = \<lparr>providers = [], by_id = [], key_to_provider = [], reservations = [], pstate = st\<rparr>"

definition provider_ids :: "'s registry \<Rightarrow> provider_id list" where
  "provider_ids R = map p_id (providers R)"

definition key_routes :: "'s registry \<Rightarrow> (string \<times> provider_id) list" where
  "key_routes R = sort_key fst (key_to_provider R)"

definition provider_for_key :: "'s registry \<Rightarrow> string \<Rightarrow> provider_id option" where
  "provider_for_key R k = map_of (key_to_provider R) k"

fun probe_all :: "'s provider list \<Rightarrow> (provider_id \<Rightarrow> 's) \<Rightarrow> (provider_id \<times> snapshot) list \<times> (provider_id \<Rightarrow> 's)" where
  "probe_all [] st = ([], st)"
| "probe_all (p # ps) st =
     (let (snap, s) = p_probe p (st (p_id p)); (rest, st') = probe_all ps (st(p_id p := s))
      in ((p_id p, snap) # rest, st'))"

definition registry_snapshot :: "'s registry \<Rightarrow> (provider_id \<times> snapshot) list \<times> 's registry" where
  "registry_snapshot R =
     (let (snaps, st) = probe_all (providers R) (pstate R) in (snaps, R\<lparr>pstate := st\<rparr>))"

section \<open>Reservation\<close>

text \<open>\<open>RoutePanic\<close> is the \<^verbatim>\<open>expect\<close> on the lookup of a routed provider.\<close>

datatype reserve_error = Rejected reject_group | RoutePanic provider_id

fun release_all ::
    "(provider_id, 's provider) btree \<Rightarrow> tracked_grant list \<Rightarrow> (provider_id \<Rightarrow> 's) \<Rightarrow> (provider_id \<Rightarrow> 's)" where
  "release_all ps [] st = st"
| "release_all ps (tg # tgs) st =
     release_all ps tgs
       (case bt_get ps (tg_provider tg) of
          Some p \<Rightarrow> st(tg_provider tg := p_release p (res_id (tg_grant tg)) (st (tg_provider tg)))
        | None \<Rightarrow> st)"

definition push_key ::
    "(string \<times> provider_id) list \<Rightarrow> (provider_id, string list) btree \<Rightarrow> string \<Rightarrow> (provider_id, string list) btree" where
  "push_key routes m k =
     (case map_of routes k of
        Some i \<Rightarrow> bt_insert i ((case bt_get m i of Some ks \<Rightarrow> ks | None \<Rightarrow> []) @ [k]) m
      | None \<Rightarrow> m)"

definition group_keys :: "(string \<times> provider_id) list \<Rightarrow> string list \<Rightarrow> (provider_id, string list) btree" where
  "group_keys routes ks = foldl (push_key routes) [] ks"

fun reserve_loop ::
    "(provider_id, 's provider) btree \<Rightarrow> job_id \<Rightarrow> need \<Rightarrow> (provider_id \<times> string list) list
     \<Rightarrow> tracked_grant list \<Rightarrow> (provider_id \<Rightarrow> 's)
     \<Rightarrow> (reserve_error, tracked_grant list) result \<times> (provider_id \<Rightarrow> 's)" where
  "reserve_loop ps job need [] acquired st = (Inr acquired, st)"
| "reserve_loop ps job need ((i, keys) # rest) acquired st =
     (case bt_get ps i of
        None \<Rightarrow> (Inl (RoutePanic i), st)
      | Some p \<Rightarrow>
          (case p_reserve p \<lparr>rr_job = job, rr_need = need_select need keys\<rparr> (st i) of
             (Inr grant, s) \<Rightarrow>
               reserve_loop ps job need rest (acquired @ [\<lparr>tg_provider = i, tg_grant = grant\<rparr>]) (st(i := s))
           | (Inl rej, s) \<Rightarrow>
               (Inl (Rejected \<lparr>rg_provider = i, rg_reject = rej\<rparr>),
                release_all ps (rev acquired) (st(i := s)))))"

definition try_reserve ::
    "job_id \<Rightarrow> need \<Rightarrow> 's registry \<Rightarrow> (reserve_error, reservation list) result \<times> 's registry" where
  "try_reserve job need R =
     (if need_is_empty need then (Inr [], R)
      else
        let unknown = filter (\<lambda>k. map_of (key_to_provider R) k = None) (bt_keys need)
        in if unknown \<noteq> [] then
             let key = hd unknown;
                 rej = reject_new (''unknown resource key: '' @ join '', '' unknown)
             in (Inl (Rejected \<lparr>rg_provider = ProviderId ''core'',
                        rg_reject = (case need_get need key of Some q \<Rightarrow> with_demand key q rej | None \<Rightarrow> rej)\<rparr>), R)
           else
             (case reserve_loop (by_id R) job need (group_keys (key_to_provider R) (bt_keys need)) [] (pstate R) of
                (Inl e, st) \<Rightarrow> (Inl e, R\<lparr>pstate := st\<rparr>)
              | (Inr acquired, st) \<Rightarrow>
                  (Inr (map tg_grant acquired),
                   R\<lparr>pstate := st,
                     reservations := AList.update job
                       ((case map_of (reservations R) job of Some v \<Rightarrow> v | None \<Rightarrow> []) @ acquired)
                       (reservations R)\<rparr>)))"

definition registry_release :: "job_id \<Rightarrow> 's registry \<Rightarrow> nat \<times> 's registry" where
  "registry_release job R =
     (let to_release = (case map_of (reservations R) job of Some v \<Rightarrow> v | None \<Rightarrow> [])
      in (length to_release,
          R\<lparr>reservations := AList.delete job (reservations R),
            pstate := release_all (by_id R) to_release (pstate R)\<rparr>))"

definition active_reservation_count :: "'s registry \<Rightarrow> nat" where
  "active_reservation_count R = sum_list (map (length \<circ> snd) (reservations R))"

section \<open>The provider contract\<close>

text \<open>
  \<open>res\<close> is the provider's table of live reservations and \<open>holds\<close> says that a job has one.  A grant
  changes at most the entry of its own id, which is new when the job held nothing; a rejection
  changes nothing; a release drops exactly the entry.
\<close>

locale provider_contract =
  fixes p :: "'s provider"
    and res :: "'s \<Rightarrow> reservation_id \<Rightarrow> 'u option"
    and holds :: "'s \<Rightarrow> job_id \<Rightarrow> bool"
  assumes grant_frame: "p_reserve p req s = (Inr g, s') \<Longrightarrow> i \<noteq> res_id g \<Longrightarrow> res s' i = res s i"
    and grant_fresh: "p_reserve p req s = (Inr g, s') \<Longrightarrow> \<not> holds s (rr_job req) \<Longrightarrow> res s (res_id g) = None"
    and reject_frame: "p_reserve p req s = (Inl r, s') \<Longrightarrow> res s' = res s"
    and release_drop: "res (p_release p i s) = (res s)(i := None)"
begin

lemma undo:
  assumes "p_reserve p req s = (Inr g, s')" "\<not> holds s (rr_job req)"
  shows "res (p_release p (res_id g) s') = res s"
  using grant_frame [OF assms(1)] grant_fresh [OF assms] by (auto simp: release_drop)

end

definition providers_ok ::
    "(provider_id, 's provider) btree \<Rightarrow> ('s \<Rightarrow> reservation_id \<Rightarrow> 'u option) \<Rightarrow> ('s \<Rightarrow> job_id \<Rightarrow> bool) \<Rightarrow> bool" where
  "providers_ok ps res holds \<longleftrightarrow> (\<forall>i p. bt_get ps i = Some p \<longrightarrow> provider_contract p res holds)"

lemma release_all_res:
  assumes "providers_ok ps res holds" "distinct (map tg_provider A)" "\<forall>tg\<in>set A. bt_get ps (tg_provider tg) \<noteq> None"
  shows "res (release_all ps A st i) =
    (case find (\<lambda>tg. tg_provider tg = i) A of
       Some tg \<Rightarrow> (res (st i))(res_id (tg_grant tg) := None) | None \<Rightarrow> res (st i))"
  using assms(2,3)
proof (induction A arbitrary: st)
  case (Cons tg A)
  obtain p where p: "bt_get ps (tg_provider tg) = Some p" using Cons.prems by auto
  have drop: "res (p_release p x s) = (res s)(x := None)" for x s
    using assms(1) p provider_contract.release_drop by (metis providers_ok_def)
  have none: "find (\<lambda>tg. tg_provider tg = tg_provider tg0) A = None" if "tg0 = tg" for tg0
    using Cons.prems(1) that by (auto simp: find_None_iff image_iff)
  show ?case using Cons p drop none by (auto split: option.splits)
qed simp

text \<open>What holds of the grants acquired so far: releasing each gives the original table back.\<close>

definition acquired_inv ::
    "(provider_id, 's provider) btree \<Rightarrow> ('s \<Rightarrow> reservation_id \<Rightarrow> 'u option) \<Rightarrow> (provider_id \<Rightarrow> 's)
     \<Rightarrow> tracked_grant list \<Rightarrow> (provider_id \<Rightarrow> 's) \<Rightarrow> bool" where
  "acquired_inv ps res st0 A st \<longleftrightarrow>
     distinct (map tg_provider A) \<and> (\<forall>tg\<in>set A. bt_get ps (tg_provider tg) \<noteq> None)
     \<and> (\<forall>tg\<in>set A. (res (st (tg_provider tg)))(res_id (tg_grant tg) := None) = res (st0 (tg_provider tg)))
     \<and> (\<forall>i. i \<notin> tg_provider ` set A \<longrightarrow> res (st i) = res (st0 i))"

lemma release_all_restores:
  assumes "providers_ok ps res holds" "acquired_inv ps res st0 A st"
  shows "res (release_all ps A st i) = res (st0 i)"
proof (cases "find (\<lambda>tg. tg_provider tg = i) A")
  case None
  then have "i \<notin> tg_provider ` set A" by (auto simp: find_None_iff)
  then show ?thesis
    using assms None release_all_res [OF assms(1), of A st i] by (simp add: acquired_inv_def)
next
  case (Some tg)
  then have "tg \<in> set A" "tg_provider tg = i" by (auto simp: find_Some_iff)
  then show ?thesis
    using assms Some release_all_res [OF assms(1), of A st i] by (auto simp: acquired_inv_def)
qed

lemma acquired_inv_rev: "acquired_inv ps res st0 (rev A) st = acquired_inv ps res st0 A st"
  by (simp add: acquired_inv_def rev_map [symmetric])

lemma reserve_loop_spec:
  assumes ok: "providers_ok ps res holds"
  shows "acquired_inv ps res st0 A st \<Longrightarrow> distinct (map fst items) \<Longrightarrow>
    fst ` set items \<inter> tg_provider ` set A = {} \<Longrightarrow> \<forall>i\<in>fst ` set items. bt_get ps i \<noteq> None \<Longrightarrow>
    \<forall>i\<in>fst ` set items. st i = st0 i \<and> \<not> holds (st0 i) job \<Longrightarrow>
    (case reserve_loop ps job need items A st of
       (Inl (Rejected _), st') \<Rightarrow> \<forall>i. res (st' i) = res (st0 i)
     | (Inl (RoutePanic _), _) \<Rightarrow> False
     | (Inr A', st') \<Rightarrow> acquired_inv ps res st0 A' st' \<and> map tg_provider A' = map tg_provider A @ map fst items)"
proof (induction items arbitrary: A st)
  case Nil
  then show ?case by simp
next
  case (Cons item items)
  obtain i keys where item: "item = (i, keys)" by (cases item)
  obtain p where p: "bt_get ps i = Some p" using Cons.prems(4) by (auto simp: item)
  then have pc: "provider_contract p res holds" using ok by (auto simp: providers_ok_def)
  let ?req = "\<lparr>rr_job = job, rr_need = need_select need keys\<rparr>"
  obtain r s where call: "p_reserve p ?req (st i) = (r, s)" by (cases "p_reserve p ?req (st i)")
  have st: "st i = st0 i" "\<not> holds (st0 i) job" "i \<notin> tg_provider ` set A"
    using Cons.prems(3,5) by (auto simp: item)
  show ?case
  proof (cases r)
    case (Inl rej)
    have "res s = res (st i)"
      using call Inl by (simp add: provider_contract.reject_frame [OF pc])
    then have "acquired_inv ps res st0 A (st(i := s))"
      using Cons.prems(1) st by (auto simp: acquired_inv_def)
    then have "acquired_inv ps res st0 (rev A) (st(i := s))" by (simp add: acquired_inv_rev)
    then show ?thesis
      using release_all_restores [OF ok] by (simp add: item p call Inl)
  next
    case (Inr g)
    let ?A = "A @ [\<lparr>tg_provider = i, tg_grant = g\<rparr>]"
    have "res (p_release p (res_id g) s) = res (st i)"
      using provider_contract.undo [OF pc] call Inr st by simp
    then have undo: "(res s)(res_id g := None) = res (st0 i)"
      using provider_contract.release_drop [OF pc] st(1) by metis
    have inv: "acquired_inv ps res st0 ?A (st(i := s))"
      using Cons.prems(1) st undo p by (auto simp: acquired_inv_def)
    have "fst ` set items \<inter> tg_provider ` set ?A = {}" "distinct (map fst items)"
      "\<forall>i\<in>fst ` set items. bt_get ps i \<noteq> None"
      "\<forall>j\<in>fst ` set items. (st(i := s)) j = st0 j \<and> \<not> holds (st0 j) job"
      using Cons.prems(2-5) by (auto simp: item)
    note IH = Cons.IH [OF inv this(2,1,3,4)]
    have eq: "reserve_loop ps job need (item # items) A st = reserve_loop ps job need items ?A (st(i := s))"
      "map tg_provider A @ map fst (item # items) = map tg_provider ?A @ map fst items"
      by (simp_all add: item p call Inr)
    show ?thesis unfolding eq by (rule IH)
  qed
qed

section \<open>Routing\<close>

lemma duplicate_window_None:
  "sorted (map p_id ps) \<Longrightarrow> duplicate_window ps = None \<longleftrightarrow> distinct (map p_id ps)"
proof (induction ps rule: duplicate_window.induct)
  case (1 p q ps)
  then show ?case by (auto dest: order.antisym)
qed auto

lemma claim_keys_spec:
  "claim_keys i ks t = Inr t' \<Longrightarrow>
   distinct ks \<and> set ks \<inter> dom (map_of t) = {} \<and> map_of t' = (\<lambda>k. if k \<in> set ks then Some i else map_of t k)"
proof (induction i ks t rule: claim_keys.induct)
  case (2 i k ks t)
  then show ?case by (auto simp: AList.update_conv' fun_eq_iff split: option.splits if_splits)
qed auto

lemma claim_keys_ok:
  "distinct ks \<Longrightarrow> set ks \<inter> dom (map_of t) = {} \<Longrightarrow> \<exists>t'. claim_keys i ks t = Inr t'"
proof (induction i ks t rule: claim_keys.induct)
  case (2 i k ks t)
  then have "map_of t k = None" "set ks \<inter> dom (map_of (AList.update k i t)) = {}"
    by (auto simp: AList.update_conv' dom_def)
  then show ?case using 2 by simp
qed simp

lemma route_keys_spec:
  "route_keys ps t = Inr t' \<Longrightarrow>
   distinct (concat (map p_keys ps)) \<and> set (concat (map p_keys ps)) \<inter> dom (map_of t) = {}
   \<and> (\<forall>k i. map_of t' k = Some i \<longleftrightarrow> (\<exists>p\<in>set ps. k \<in> set (p_keys p) \<and> p_id p = i) \<or> map_of t k = Some i)"
proof (induction ps arbitrary: t)
  case (Cons p ps)
  then obtain t1 where c: "claim_keys (p_id p) (p_keys p) t = Inr t1" and r: "route_keys ps t1 = Inr t'"
    by (auto simp: and_then_def split: sum.splits)
  note s = claim_keys_spec [OF c]
  have d: "dom (map_of t1) = set (p_keys p) \<union> dom (map_of t)" using s by (auto simp: dom_def)
  from Cons.IH [OF r] s d show ?case by (auto split: if_splits)
qed simp

lemma group_keys_snoc: "group_keys t (ks @ [k]) = push_key t (group_keys t ks) k"
  by (simp add: group_keys_def)

lemma group_keys_get:
  "bt_wf (group_keys t ks) \<and> bt_get (group_keys t ks) i =
     (let mine = filter (\<lambda>k. map_of t k = Some i) ks in if mine = [] then None else Some mine)"
proof (induction ks rule: rev_induct)
  case Nil
  then show ?case by (simp add: group_keys_def)
next
  case (snoc k ks)
  then show ?case
    by (auto simp: group_keys_snoc push_key_def Let_def split: option.splits if_splits)
qed

definition registry_ok :: "'s registry \<Rightarrow> bool" where
  "registry_ok R \<longleftrightarrow> (\<forall>k i. map_of (key_to_provider R) k = Some i \<longrightarrow> bt_get (by_id R) i \<noteq> None)"

lemma bt_from_list_has: "(\<exists>v. bt_get (bt_from_list kvs) k = Some v) \<longleftrightarrow> k \<in> fst ` set kvs"
  using map_of_eq_None_iff [of "rev kvs" k] by (auto simp: bt_get_from_list)

lemma from_providers_ok: "from_providers st ps = Inr R \<Longrightarrow> registry_ok R"
  by (auto simp: from_providers_def registry_ok_def Let_def and_then_def bt_from_list_has image_image
      split: option.splits sum.splits dest!: route_keys_spec)

lemma group_items:
  "items = group_keys t ks \<Longrightarrow> distinct (map fst items) \<and> (\<forall>i\<in>fst ` set items. \<exists>k. map_of t k = Some i)"
proof
  assume i: "items = group_keys t ks"
  have wf: "bt_wf items" using group_keys_get i by blast
  then show "distinct (map fst items)" by (rule bt_wf_distinct)
  show "\<forall>i\<in>fst ` set items. \<exists>k. map_of t k = Some i"
  proof
    fix j assume "j \<in> fst ` set items"
    then have "bt_contains items j" by (simp add: bt_contains_def)
    then have "bt_get items j \<noteq> None" by (simp only: bt_contains_iff simp_thms)
    then show "\<exists>k. map_of t k = Some j"
      using group_keys_get [of t ks j] i by (auto simp: Let_def filter_empty_conv split: if_splits)
  qed
qed

lemma try_reserve_cases:
  assumes ok: "providers_ok (by_id R) res holds" "registry_ok R" and fresh: "\<And>i. \<not> holds (pstate R i) job"
  shows "case try_reserve job need R of
      (Inl (Rejected _), R') \<Rightarrow> R'\<lparr>pstate := pstate R\<rparr> = R \<and> (\<forall>i. res (pstate R' i) = res (pstate R i))
    | (Inl (RoutePanic _), _) \<Rightarrow> False
    | (Inr gs, R') \<Rightarrow> gs = [] \<and> need = [] \<and> R' = R \<or> (\<exists>A. gs = map tg_grant A \<and> by_id R' = by_id R
         \<and> map tg_provider A = bt_keys (group_keys (key_to_provider R) (bt_keys need))
         \<and> acquired_inv (by_id R) res (pstate R) A (pstate R')
         \<and> reservations R' = AList.update job ((case map_of (reservations R) job of Some v \<Rightarrow> v | None \<Rightarrow> []) @ A)
             (reservations R))"
proof -
  let ?items = "group_keys (key_to_provider R) (bt_keys need)"
  let ?loop = "reserve_loop (by_id R) job need ?items [] (pstate R)"
  have inv0: "acquired_inv (by_id R) res (pstate R) [] (pstate R)" by (simp add: acquired_inv_def)
  have "\<forall>i\<in>fst ` set ?items. bt_get (by_id R) i \<noteq> None"
    using group_items [OF refl, of "key_to_provider R" "bt_keys need"] ok(2) by (auto simp: registry_ok_def)
  then have loop: "case ?loop of (Inl (Rejected _), st') \<Rightarrow> \<forall>i. res (st' i) = res (pstate R i)
     | (Inl (RoutePanic _), _) \<Rightarrow> False
     | (Inr A', st') \<Rightarrow> acquired_inv (by_id R) res (pstate R) A' st' \<and> map tg_provider A' = map tg_provider ([] :: tracked_grant list) @ map fst ?items"
    using reserve_loop_spec [OF ok(1) inv0, of ?items job need] fresh
      group_items [OF refl, of "key_to_provider R" "bt_keys need"] by simp
  show ?thesis
    using loop by (auto simp: try_reserve_def Let_def need_is_empty_def bt_keys_def
        split: prod.splits sum.splits reserve_error.splits)
qed

lemma route_keys_ok:
  "distinct (concat (map p_keys ps)) \<Longrightarrow> set (concat (map p_keys ps)) \<inter> dom (map_of t) = {} \<Longrightarrow>
   \<exists>t'. route_keys ps t = Inr t'"
proof (induction ps arbitrary: t)
  case (Cons p ps)
  then obtain t1 where c: "claim_keys (p_id p) (p_keys p) t = Inr t1"
    using claim_keys_ok [of "p_keys p" t "p_id p"] by auto
  have "dom (map_of t1) = set (p_keys p) \<union> dom (map_of t)"
    using claim_keys_spec [OF c] by (auto simp: dom_def)
  then have "set (concat (map p_keys ps)) \<inter> dom (map_of t1) = {}" using Cons.prems by auto
  then show ?case using Cons c by (simp add: and_then_def)
qed simp

lemma claim_keys_error: "claim_keys i ks t = Inl e \<Longrightarrow> \<exists>k a b. e = KeyClaimedTwice k a b"
  by (induction i ks t rule: claim_keys.induct) (auto split: option.splits)

lemma route_keys_error: "route_keys ps t = Inl e \<Longrightarrow> \<exists>k a b. e = KeyClaimedTwice k a b"
  by (induction ps t rule: route_keys.induct) (auto simp: and_then_def split: sum.splits dest: claim_keys_error)

lemma distinct_concat_sort:
  "distinct (concat (map f (sort_key g xs))) \<longleftrightarrow> distinct (concat (map f xs))"
proof -
  have "mset (concat (map f (sort_key g xs))) = mset (concat (map f xs))"
    by (simp add: mset_concat flip: sum_mset_sum_list)
  then show ?thesis by (rule mset_eq_imp_distinct_iff)
qed

section \<open>Properties\<close>

text \<open>
  Building a registry succeeds exactly when the provider ids are distinct and no key is
  claimed twice, and a failure names the right cause; on success the providers are kept sorted by id,
  no job holds anything, and every key is routed to the one provider that claims it.
\<close>

theorem from_providers_correct:
  "(case from_providers st ps of
      Inr R \<Rightarrow>
        distinct (map p_id ps) \<and> distinct (concat (map p_keys ps))
        \<and> sorted (map p_id (providers R)) \<and> set (providers R) = set ps \<and> active_reservation_count R = 0
        \<and> (\<forall>k i. provider_for_key R k = Some i \<longleftrightarrow> (\<exists>p\<in>set ps. k \<in> set (p_keys p) \<and> p_id p = i))
    | Inl (DuplicateProviderId _) \<Rightarrow> \<not> distinct (map p_id ps)
    | Inl (KeyClaimedTwice _ _ _) \<Rightarrow> distinct (map p_id ps) \<and> \<not> distinct (concat (map p_keys ps)))"
proof -
  let ?s = "sort_key p_id ps"
  have ids: "duplicate_window ?s = None \<longleftrightarrow> distinct (map p_id ps)"
    using duplicate_window_None [of ?s] mset_eq_imp_distinct_iff [of "map p_id ?s" "map p_id ps"] by simp
  show ?thesis
  proof (cases "duplicate_window ?s")
    case (Some i)
    then show ?thesis using ids by (auto simp: from_providers_def Let_def)
  next
    case None
    show ?thesis
    proof (cases "route_keys ?s []")
      case (Inl e)
      then obtain k a b where "e = KeyClaimedTwice k a b" using route_keys_error by blast
      moreover have "\<not> distinct (concat (map p_keys ps))"
        using route_keys_ok [of ?s "[]"] Inl by (auto simp: distinct_concat_sort)
      ultimately show ?thesis using None Inl ids by (simp add: from_providers_def Let_def and_then_def)
    next
      case (Inr t)
      then show ?thesis
        using None ids route_keys_spec [OF Inr]
        by (simp add: from_providers_def Let_def and_then_def provider_for_key_def active_reservation_count_def
            distinct_concat_sort)
    qed
  qed
qed

text \<open>
  C3.  Reservation is all or nothing.  For a registry built by \<^verbatim>\<open>from_providers\<close> over providers that keep
  the provider contract, and a job that holds nothing: a rejected request leaves every provider's
  table of reservations and the registry's bookkeeping as they were; the routing lookup never
  panics; and after a successful request one \<^verbatim>\<open>release\<close> of the job drops as many grants as were
  returned, gives every provider its original table back and forgets the job, leaving all other jobs'
  entries.
\<close>

theorem reserve_all_or_nothing:
  assumes "providers_ok (by_id R) res holds" and "registry_ok R"
    and "\<And>i. \<not> holds (pstate R i) job" and "map_of (reservations R) job = None"
  shows "case try_reserve job need R of
      (Inl (Rejected _), R') \<Rightarrow> R'\<lparr>pstate := pstate R\<rparr> = R \<and> (\<forall>i. res (pstate R' i) = res (pstate R i))
    | (Inl (RoutePanic _), _) \<Rightarrow> False
    | (Inr gs, R') \<Rightarrow>
        (case registry_release job R' of
           (n, R'') \<Rightarrow> n = length gs \<and> (\<forall>i. res (pstate R'' i) = res (pstate R i))
             \<and> map_of (reservations R'') = map_of (reservations R))"
proof (cases "try_reserve job need R")
  case (Pair r R')
  note c = try_reserve_cases [OF assms(1,2,3), of need, unfolded Pair]
  show ?thesis
  proof (cases r)
    case (Inl e)
    then show ?thesis using c Pair by (cases e) simp_all
  next
    case (Inr gs)
    from c Inr consider "gs = []" "R' = R" | A where "gs = map tg_grant A" "by_id R' = by_id R"
        "acquired_inv (by_id R) res (pstate R) A (pstate R')"
        "reservations R' = AList.update job A (reservations R)"
      using assms(4) by auto
    then show ?thesis
    proof cases
      case 1
      then show ?thesis
        using Pair Inr assms(4) by (simp add: registry_release_def Let_def AList.delete_conv' fun_upd_idem)
    next
      case 2
      have "map_of (AList.delete job (AList.update job A (reservations R))) = map_of (reservations R)"
        using assms(4) by (simp add: AList.delete_conv' AList.update_conv' fun_upd_idem)
      then show ?thesis
        using Pair Inr 2 release_all_restores [OF assms(1) 2(3)]
        by (simp add: registry_release_def Let_def AList.update_conv')
    qed
  qed
qed

text \<open>
  A successful reservation covers the need exactly: the providers are asked in increasing
  order of their ids, each exactly once and for exactly the keys routed to it, and every key of the
  need is part of the request to its own provider with the quantity that was asked for.
\<close>

theorem reserve_covers_need:
  fixes R :: "'s registry" and need :: need
  shows "let groups = group_keys (key_to_provider R) (bt_keys need) in
    sorted_wrt (<) (map fst groups)
    \<and> (\<forall>(i, ks)\<in>set groups. ks = filter (\<lambda>k. provider_for_key R k = Some i) (bt_keys need) \<and> ks \<noteq> [])
    \<and> (\<forall>k i. k \<in> set (bt_keys need) \<and> provider_for_key R k = Some i \<longrightarrow>
         (\<exists>ks. (i, ks) \<in> set groups \<and> need_get (need_select need ks) k = need_get need k))
    \<and> (\<forall>(i, ks)\<in>set groups. \<forall>k. k \<notin> set ks \<longrightarrow> need_get (need_select need ks) k = None)"
proof -
  define groups where "groups = group_keys (key_to_provider R) (bt_keys need)"
  have g: "bt_wf groups" "\<And>i. bt_get groups i = (let mine = filter (\<lambda>k. provider_for_key R k = Some i) (bt_keys need)
      in if mine = [] then None else Some mine)"
    using group_keys_get unfolding groups_def provider_for_key_def by blast+
  have mem: "(i, ks) \<in> set groups \<longleftrightarrow> ks = filter (\<lambda>k. provider_for_key R k = Some i) (bt_keys need) \<and> ks \<noteq> []" for i ks
    using bt_get_Some_iff [OF g(1), of i ks] g(2) [of i] by (auto simp: Let_def split: if_splits)
  have "sorted_wrt (<) (map fst groups)" using g(1) by (simp add: bt_wf_def)
  moreover have "\<exists>ks. (i, ks) \<in> set groups \<and> need_get (need_select need ks) k = need_get need k"
    if "k \<in> set (bt_keys need)" "provider_for_key R k = Some i" for k i
    using that by (intro exI [of _ "filter (\<lambda>k. provider_for_key R k = Some i) (bt_keys need)"])
      (auto simp: mem need_select_get filter_empty_conv)
  moreover have "\<forall>(i, ks)\<in>set groups. \<forall>k. k \<notin> set ks \<longrightarrow> need_get (need_select need ks) k = None"
    by (simp add: need_select_get split_beta)
  ultimately show ?thesis unfolding groups_def [symmetric] Let_def by (auto simp: mem)
qed

theorem reserve_covers_need_witness:
  "need_get (need_select [(''gpu'', Count 1), (''lic'', Count 2)] [''lic'']) ''lic'' = Some (Count 2)
   \<and> map fst (group_keys [(''gpu'', ProviderId ''b''), (''lic'', ProviderId ''a'')] [''gpu'', ''lic''])
       = [ProviderId ''a'', ProviderId ''b'']"
proof -
  define R :: "unit registry" where
    "R = (registry_empty (\<lambda>_. ()))\<lparr>key_to_provider := [(''gpu'', ProviderId ''b''), (''lic'', ProviderId ''a'')]\<rparr>"
  let ?n = "[(''gpu'', Count 1), (''lic'', Count 2)]"
  have g: "group_keys (key_to_provider R) (bt_keys ?n) = [(ProviderId ''a'', [''lic'']), (ProviderId ''b'', [''gpu''])]"
    by (simp add: R_def group_keys_def push_key_def bt_keys_def bt_get_def)
  have "need_get (need_select ?n [''lic'']) ''lic'' = need_get ?n ''lic''"
    using reserve_covers_need [of R ?n, unfolded g Let_def]
    by (auto simp: bt_keys_def R_def provider_for_key_def dest!: spec [of _ "''lic''"])
  then show ?thesis using g by (simp add: need_get_def bt_get_def R_def bt_keys_def)
qed

end
