(* ===== verification/Nvidia.thy ===== *)
theory Nvidia
  imports Registry
begin

text \<open>
  The NVIDIA resource provider (\<^verbatim>\<open>crates/cue-daemon/src/resource/nvidia.rs\<close>): selection of GPUs by
  effective free memory and the table of reservations.  NVML, a driver library, is what the field
  \<open>device\<close> of the state answers; \<open>clock\<close> is the monotonic time in milliseconds.  Both belong to the
  environment: the operations read them and do not change them.
\<close>

record gpu_sample =
  gs_index :: u32
  total_mem :: u64
  free_mem :: u64

record gpu_reservation =
  gr_index :: u32
  gr_bytes :: u64
  gr_exclusive :: bool

record nvidia_config =
  nv_id :: provider_id
  gpu_key :: string
  gpu_mem_key :: string
  safety_margin_bytes :: u64
  probe_ttl :: nat

record nvidia_state =
  cached :: "(nat \<times> gpu_sample list) option"
  nv_reservations :: "(reservation_id \<times> gpu_reservation list) list"
  clock :: nat
  device :: "(string, gpu_sample list) result"

definition probe_samples :: "nvidia_config \<Rightarrow> nvidia_state \<Rightarrow> (string, gpu_sample list) result \<times> nvidia_state" where
  "probe_samples cfg s =
     (case cached s of
        Some (sampled_at, samples) \<Rightarrow>
          if clock s - sampled_at < probe_ttl cfg then (Inr samples, s)
          else (case device s of
                  Inl e \<Rightarrow> (Inl e, s)
                | Inr samples' \<Rightarrow> (Inr samples', s\<lparr>cached := Some (clock s, samples')\<rparr>))
      | None \<Rightarrow>
          (case device s of
             Inl e \<Rightarrow> (Inl e, s)
           | Inr samples' \<Rightarrow> (Inr samples', s\<lparr>cached := Some (clock s, samples')\<rparr>)))"

definition add_unit :: "u32 \<Rightarrow> gpu_reservation \<Rightarrow> u64 \<times> bool \<Rightarrow> u64 \<times> bool" where
  "add_unit index u acc =
     (if gr_index u = index then (saturating_add (fst acc) (gr_bytes u), snd acc \<or> gr_exclusive u) else acc)"

definition reserved_for_index :: "nvidia_state \<Rightarrow> u32 \<Rightarrow> u64 \<times> bool" where
  "reserved_for_index s index = fold (fold (add_unit index)) (map snd (nv_reservations s)) (0, False)"

definition effective_free :: "nvidia_config \<Rightarrow> gpu_sample \<Rightarrow> nvidia_state \<Rightarrow> u64 option" where
  "effective_free cfg sample s =
     (let (reserved, exclusive) = reserved_for_index s (gs_index sample)
      in if exclusive then None
         else Some (saturating_sub (min (free_mem sample) (saturating_sub (total_mem sample) reserved))
                     (safety_margin_bytes cfg)))"

text \<open>The selection loop, with its early exit.\<close>

fun select_gpus ::
    "nvidia_config \<Rightarrow> nvidia_state \<Rightarrow> u64 \<Rightarrow> nat \<Rightarrow> gpu_sample list \<Rightarrow> u32 list \<Rightarrow> u64 \<Rightarrow> u32 list \<times> u64" where
  "select_gpus cfg s mem needed [] selected maxf = (selected, maxf)"
| "select_gpus cfg s mem needed (sample # rest) selected maxf =
     (case effective_free cfg sample s of
        None \<Rightarrow> select_gpus cfg s mem needed rest selected maxf
      | Some ef \<Rightarrow>
          let maxf' = max maxf ef
          in if mem \<le> ef then
               (let selected' = selected @ [gs_index sample]
                in if length selected' = needed then (selected', maxf')
                   else select_gpus cfg s mem needed rest selected' maxf')
             else select_gpus cfg s mem needed rest selected maxf')"

definition grant_id :: "nvidia_config \<Rightarrow> job_id \<Rightarrow> reservation_id" where
  "grant_id cfg j = ReservationId (pid_str (nv_id cfg) @ ''-'' @ show_job_id j)"

definition needed_gpus :: "nat \<Rightarrow> u64 \<Rightarrow> nat" where
  "needed_gpus gpu_count mem = (if 0 < gpu_count then gpu_count else if 0 < mem then 1 else 0)"

definition gpu_count_of :: "nvidia_config \<Rightarrow> need \<Rightarrow> (reject, nat) result" where
  "gpu_count_of cfg need =
     (case need_get need (gpu_key cfg) of
        Some (Count n) \<Rightarrow> Inr (unat n)
      | Some other \<Rightarrow> Inl (reject_new (gpu_key cfg @ '' must be a count, got '' @ show_quantity other))
      | None \<Rightarrow> Inr 0)"

definition mem_per_gpu_of :: "nvidia_config \<Rightarrow> need \<Rightarrow> (reject, u64) result" where
  "mem_per_gpu_of cfg need =
     (case need_get need (gpu_mem_key cfg) of
        Some (Bytes b) \<Rightarrow> Inr b
      | Some other \<Rightarrow> Inl (reject_new (gpu_mem_key cfg @ '' must be bytes, got '' @ show_quantity other))
      | None \<Rightarrow> Inr 0)"

definition waiting_reject :: "nvidia_config \<Rightarrow> nat \<Rightarrow> u64 \<Rightarrow> u64 \<Rightarrow> reject" where
  "waiting_reject cfg needed mem maxf =
     (let r = reject_new (''waiting GPU: need '' @ show_nat needed @ '' x '' @ show_quantity (Bytes mem)
                @ '', max effective free '' @ show_quantity (Bytes maxf))
      in if 0 < mem then with_available (Bytes maxf) (with_demand (gpu_mem_key cfg) (Bytes mem) r) else r)"

definition granted :: "nvidia_config \<Rightarrow> reserve_request \<Rightarrow> u64 \<Rightarrow> u32 list \<Rightarrow> nvidia_state \<Rightarrow> reservation" where
  "granted cfg req mem selected s =
     \<lparr>res_id = grant_id cfg (rr_job req), res_job_id = rr_job req, res_provider_id = nv_id cfg,
      res_env = bt_insert ''CUDA_VISIBLE_DEVICES'' (join '','' (map show_u32 selected))
                  (bt_insert ''CUDA_DEVICE_ORDER'' ''PCI_BUS_ID'' []),
      res_info =
        (let info = bt_insert (gpu_key cfg) (Count (word_of_nat (length selected))) []
         in if 0 < mem
            then bt_insert (gpu_mem_key cfg) (Bytes (saturating_mul mem (word_of_nat (length selected)))) info
            else info),
      acquired_at = int (clock s)\<rparr>"

definition reserve_inner ::
    "nvidia_config \<Rightarrow> reserve_request \<Rightarrow> nvidia_state \<Rightarrow> (reject, reservation) result \<times> nvidia_state" where
  "reserve_inner cfg req s =
     (case gpu_count_of cfg (rr_need req) of
        Inl e \<Rightarrow> (Inl e, s)
      | Inr gpu_count \<Rightarrow>
          (case mem_per_gpu_of cfg (rr_need req) of
             Inl e \<Rightarrow> (Inl e, s)
           | Inr mem \<Rightarrow>
               let needed = needed_gpus gpu_count mem
               in if needed = 0
                  then (Inr (reservation_new (int (clock s)) (grant_id cfg (rr_job req)) (rr_job req) (nv_id cfg)), s)
                  else
                    (case probe_samples cfg s of
                       (Inl e, s1) \<Rightarrow> (Inl (reject_new (''NVML probe failed: '' @ e)), s1)
                     | (Inr samples, s1) \<Rightarrow>
                         let ordered = sort_key (\<lambda>x. - int (unat (gs_index x))) samples;
                             (selected, maxf) = select_gpus cfg s1 mem needed ordered [] 0
                         in if length selected < needed then (Inl (waiting_reject cfg needed mem maxf), s1)
                            else
                              let exclusive = (mem = 0 \<and> need_contains (rr_need req) (gpu_key cfg));
                                  us = map (\<lambda>i. \<lparr>gr_index = i, gr_bytes = mem, gr_exclusive = exclusive\<rparr>) selected
                              in (Inr (granted cfg req mem selected s1),
                                  s1\<lparr>nv_reservations :=
                                       AList.update (grant_id cfg (rr_job req)) us (nv_reservations s1)\<rparr>))))"

definition nvidia_release :: "reservation_id \<Rightarrow> nvidia_state \<Rightarrow> nvidia_state" where
  "nvidia_release g s = s\<lparr>nv_reservations := AList.delete g (nv_reservations s)\<rparr>"

definition sample_unit :: "nvidia_config \<Rightarrow> nvidia_state \<Rightarrow> gpu_sample \<Rightarrow> resource_unit" where
  "sample_unit cfg s sample =
     (let (reserved_mem, exclusive) = reserved_for_index s (gs_index sample);
          u = with_attr ''reserved_mem'' (Bytes reserved_mem)
                (with_attr ''free_mem'' (Bytes (free_mem sample))
                  (with_attr ''total_mem'' (Bytes (total_mem sample)) (unit_new (show_u32 (gs_index sample)))));
          u1 = (case effective_free cfg sample s of
                  Some ef \<Rightarrow> with_attr ''effective_free_mem'' (Bytes ef) u | None \<Rightarrow> u)
      in if exclusive then with_attr ''exclusive'' (Count 1) u1 else u1)"

definition nvidia_probe :: "nvidia_config \<Rightarrow> nvidia_state \<Rightarrow> snapshot \<times> nvidia_state" where
  "nvidia_probe cfg s =
     (let (r, s1) = probe_samples cfg s;
          samples = (case r of Inr x \<Rightarrow> x | Inl _ \<Rightarrow> [])
      in (snapshot_at (nv_id cfg) (map (sample_unit cfg s1) samples) (int (clock s1)), s1))"

definition nvidia_provider :: "nvidia_config \<Rightarrow> nvidia_state provider" where
  "nvidia_provider cfg =
     \<lparr>p_id = nv_id cfg, p_keys = [gpu_key cfg, gpu_mem_key cfg], p_probe = nvidia_probe cfg,
      p_reserve = reserve_inner cfg, p_release = nvidia_release\<rparr>"

definition nvidia_holds :: "nvidia_config \<Rightarrow> nvidia_state \<Rightarrow> job_id \<Rightarrow> bool" where
  "nvidia_holds cfg s j \<longleftrightarrow> map_of (nv_reservations s) (grant_id cfg j) \<noteq> None"

section \<open>The contract\<close>

lemma probe_samples_res [simp]: "nv_reservations (snd (probe_samples cfg s)) = nv_reservations s"
  by (auto simp: probe_samples_def split: option.splits sum.splits)

lemma reserve_inner_cases:
  assumes "reserve_inner cfg req s = (r, s')"
  obtains (reject) rej where "r = Inl rej" "nv_reservations s' = nv_reservations s"
  | (empty) g where "r = Inr g" "s' = s" "res_id g = grant_id cfg (rr_job req)"
      "gpu_count_of cfg (rr_need req) = Inr 0" "mem_per_gpu_of cfg (rr_need req) = Inr 0"
  | (grant) cnt mem samples s1 selected maxf us where "gpu_count_of cfg (rr_need req) = Inr cnt"
      "mem_per_gpu_of cfg (rr_need req) = Inr mem" "0 < needed_gpus cnt mem"
      "probe_samples cfg s = (Inr samples, s1)"
      "select_gpus cfg s1 mem (needed_gpus cnt mem) (sort_key (\<lambda>x. - int (unat (gs_index x))) samples) [] 0
         = (selected, maxf)"
      "needed_gpus cnt mem \<le> length selected" "r = Inr (granted cfg req mem selected s1)"
      "us = map (\<lambda>i. \<lparr>gr_index = i, gr_bytes = mem, gr_exclusive = (mem = 0 \<and> need_contains (rr_need req) (gpu_key cfg))\<rparr>) selected"
      "s' = s1\<lparr>nv_reservations := AList.update (grant_id cfg (rr_job req)) us (nv_reservations s)\<rparr>"
proof (cases "gpu_count_of cfg (rr_need req)")
  case (Inl e)
  then show thesis using assms reject by (auto simp: reserve_inner_def)
next
  case c: (Inr cnt)
  show thesis
  proof (cases "mem_per_gpu_of cfg (rr_need req)")
    case (Inl e)
    then show thesis using assms c reject by (auto simp: reserve_inner_def)
  next
    case m: (Inr mem)
    let ?n = "needed_gpus cnt mem"
    show thesis
    proof (cases "?n = 0")
      case True
      then have "cnt = 0" "mem = 0" by (auto simp: needed_gpus_def word_gt_0 split: if_splits)
      then show thesis
        using assms c m empty by (auto simp: reserve_inner_def needed_gpus_def reservation_new_def)
    next
      case False
      obtain q s1 where p: "probe_samples cfg s = (q, s1)" by (cases "probe_samples cfg s")
      then have s1: "nv_reservations s1 = nv_reservations s" using probe_samples_res [of cfg s] by simp
      show thesis
      proof (cases q)
        case (Inl e)
        then show thesis using assms c m False p s1 reject by (auto simp: reserve_inner_def)
      next
        case q: (Inr samples)
        obtain selected maxf where sel: "select_gpus cfg s1 mem ?n
            (sort_key (\<lambda>x. - int (unat (gs_index x))) samples) [] 0 = (selected, maxf)"
          by (cases "select_gpus cfg s1 mem ?n (sort_key (\<lambda>x. - int (unat (gs_index x))) samples) [] 0")
        show thesis
        proof (cases "length selected < ?n")
          case True
          then show thesis
            using assms c m False p q sel s1 reject by (auto simp: reserve_inner_def)
        next
          case enough: False
          show thesis
          proof (rule grant [OF c m _ p [unfolded q] sel _ _ refl])
            show "0 < ?n" "?n \<le> length selected" using False enough by simp_all
            show "r = Inr (granted cfg req mem selected s1)"
              using assms c m False p q sel enough by (simp add: reserve_inner_def Let_def)
            show "s' = s1\<lparr>nv_reservations := AList.update (grant_id cfg (rr_job req))
                (map (\<lambda>i. \<lparr>gr_index = i, gr_bytes = mem,
                   gr_exclusive = (mem = 0 \<and> need_contains (rr_need req) (gpu_key cfg))\<rparr>) selected) (nv_reservations s)\<rparr>"
              using assms c m False p q sel enough s1 by (simp add: reserve_inner_def Let_def)
          qed
        qed
      qed
    qed
  qed
qed

interpretation nvidia: provider_contract "nvidia_provider cfg" "\<lambda>s. map_of (nv_reservations s)" "nvidia_holds cfg"
  for cfg
proof
  fix req s g s' i
  assume a: "p_reserve (nvidia_provider cfg) req s = (Inr g, s')"
  then have a': "reserve_inner cfg req s = (Inr g, s')" by (simp add: nvidia_provider_def)
  then show "i \<noteq> res_id g \<Longrightarrow> map_of (nv_reservations s') i = map_of (nv_reservations s) i"
    by (cases rule: reserve_inner_cases) (auto simp: granted_def AList.update_conv')
  from a' show "\<not> nvidia_holds cfg s (rr_job req) \<Longrightarrow> map_of (nv_reservations s) (res_id g) = None"
    by (cases rule: reserve_inner_cases) (auto simp: granted_def nvidia_holds_def)
next
  fix req s r s'
  assume "p_reserve (nvidia_provider cfg) req s = (Inl r, s')"
  then have "reserve_inner cfg req s = (Inl r, s')" by (simp add: nvidia_provider_def)
  then show "map_of (nv_reservations s') = map_of (nv_reservations s)"
    by (cases rule: reserve_inner_cases) auto
next
  show "map_of (nv_reservations (p_release (nvidia_provider cfg) i s)) = (map_of (nv_reservations s))(i := None)" for i s
    by (simp add: nvidia_provider_def nvidia_release_def AList.delete_conv')
qed

section \<open>Selection\<close>

definition eligible :: "nvidia_config \<Rightarrow> nvidia_state \<Rightarrow> u64 \<Rightarrow> gpu_sample \<Rightarrow> bool" where
  "eligible cfg s mem sample \<longleftrightarrow> (case effective_free cfg sample s of Some ef \<Rightarrow> mem \<le> ef | None \<Rightarrow> False)"

lemma select_gpus_take:
  "length selected < needed \<Longrightarrow>
   fst (select_gpus cfg s mem needed xs selected maxf) =
     take needed (selected @ map gs_index (filter (eligible cfg s mem) xs))"
proof (induction cfg s mem needed xs selected maxf rule: select_gpus.induct)
  case (2 cfg s mem needed sample rest selected maxf)
  show ?case
  proof (cases "effective_free cfg sample s")
    case None
    then show ?thesis using 2 by (simp add: eligible_def)
  next
    case (Some ef)
    show ?thesis
    proof (cases "mem \<le> ef \<and> length (selected @ [gs_index sample]) = needed")
      case True
      then show ?thesis using Some by (auto simp: eligible_def Let_def)
    next
      case False
      then show ?thesis using 2 Some by (auto simp: eligible_def Let_def)
    qed
  qed
qed simp

text \<open>The bytes that the live reservations hold on a GPU, without saturation.\<close>

definition units_on :: "nvidia_state \<Rightarrow> u32 \<Rightarrow> gpu_reservation list" where
  "units_on s i = filter (\<lambda>u. gr_index u = i) (concat (map snd (nv_reservations s)))"

definition reserved_bytes :: "nvidia_state \<Rightarrow> u32 \<Rightarrow> nat" where
  "reserved_bytes s i = sum_list (map (unat \<circ> gr_bytes) (units_on s i))"

lemma fold_add_unit:
  "unat (fst (fold (add_unit i) us acc)) =
     min (unat (fst acc) + sum_list (map (unat \<circ> gr_bytes) (filter (\<lambda>u. gr_index u = i) us))) (2 ^ 64 - 1)
   \<and> (snd (fold (add_unit i) us acc) \<longleftrightarrow> snd acc \<or> (\<exists>u\<in>set us. gr_index u = i \<and> gr_exclusive u))"
proof (induction us arbitrary: acc)
  case Nil
  have "unat (fst acc) < 2 ^ 64" using unsigned_less [of "fst acc"] by simp
  then show ?case by simp
next
  case (Cons u us)
  then show ?case by (auto simp: add_unit_def unat_saturating_add min_def)
qed

lemma fold_concat: "fold (fold f) xss acc = fold f (concat xss) acc"
  by (induction xss arbitrary: acc) simp_all

lemma reserved_for_index_eq:
  "unat (fst (reserved_for_index s i)) = min (reserved_bytes s i) (2 ^ 64 - 1)
   \<and> (snd (reserved_for_index s i) \<longleftrightarrow> (\<exists>u\<in>set (units_on s i). gr_exclusive u))"
  unfolding reserved_for_index_def fold_concat reserved_bytes_def units_on_def
  using fold_add_unit [of i "concat (map snd (nv_reservations s))" "(0, False)"] by auto

lemma eligible_sound:
  assumes "eligible cfg s mem sample" "0 < mem"
  shows "reserved_bytes s (gs_index sample) + unat mem + unat (safety_margin_bytes cfg) \<le> unat (total_mem sample)
    \<and> unat mem + unat (safety_margin_bytes cfg) \<le> unat (free_mem sample)
    \<and> (\<nexists>u. u \<in> set (units_on s (gs_index sample)) \<and> gr_exclusive u)"
proof -
  let ?r = "reserved_for_index s (gs_index sample)"
  have ex: "\<not> snd ?r"
    using assms(1) by (auto simp: eligible_def effective_free_def Let_def split_beta split: if_splits)
  then have "mem \<le> saturating_sub (min (free_mem sample) (saturating_sub (total_mem sample) (fst ?r))) (safety_margin_bytes cfg)"
    using assms(1) by (simp add: eligible_def effective_free_def Let_def split_beta)
  then have "unat mem \<le> min (unat (free_mem sample)) (unat (total_mem sample) - unat (fst ?r)) - unat (safety_margin_bytes cfg)"
    by (simp add: word_le_nat_alt unat_saturating_sub min_def split: if_splits)
  moreover have "0 < unat mem" using assms(2) by (simp add: word_less_nat_alt)
  moreover have "unat (total_mem sample) < 2 ^ 64" using unsigned_less [of "total_mem sample"] by simp
  ultimately show ?thesis
    using ex reserved_for_index_eq [of s "gs_index sample"] by auto
qed

lemma probe_samples_same:
  "units_on (snd (probe_samples cfg s)) i = units_on s i"
  "effective_free cfg x (snd (probe_samples cfg s)) = effective_free cfg x s"
  by (simp_all add: units_on_def effective_free_def reserved_for_index_def)

section \<open>Properties\<close>

text \<open>
  C29.  GPU memory is never over-committed: when the provider grants a request for \<open>mem\<close> bytes per GPU,
  it has picked exactly as many different GPUs as asked for (one when only memory is asked for) and
  recorded them under the grant's id; on each of them nothing is reserved exclusively, and the memory
  already reserved plus the request plus the safety margin fits both the total and, without what is
  reserved, the free memory of the card.
\<close>

theorem gpu_memory_not_overcommitted:
  assumes "reserve_inner cfg req s = (Inr g, s')"
    and "gpu_count_of cfg (rr_need req) = Inr cnt" and "mem_per_gpu_of cfg (rr_need req) = Inr mem" and "0 < mem"
    and "fst (probe_samples cfg s) = Inr samples" and "distinct (map gs_index samples)"
  shows "\<exists>picked. set picked \<subseteq> set samples \<and> distinct (map gs_index picked) \<and> length picked = needed_gpus cnt mem
    \<and> map_of (nv_reservations s') (res_id g) =
        Some (map (\<lambda>x. \<lparr>gr_index = gs_index x, gr_bytes = mem, gr_exclusive = False\<rparr>) picked)
    \<and> (\<forall>x\<in>set picked. reserved_bytes s (gs_index x) + unat mem + unat (safety_margin_bytes cfg) \<le> unat (total_mem x)
         \<and> unat mem + unat (safety_margin_bytes cfg) \<le> unat (free_mem x)
         \<and> (\<nexists>u. u \<in> set (units_on s (gs_index x)) \<and> gr_exclusive u))"
  using assms(1)
proof (cases rule: reserve_inner_cases)
  case (grant cnt' mem' samples' s1 selected maxf us)
  have eqs: "cnt' = cnt" "mem' = mem" "samples' = samples" "s1 = snd (probe_samples cfg s)"
    using grant(1,2,4) assms(2,3,5) by auto
  define ordered where "ordered = sort_key (\<lambda>x. - int (unat (gs_index x))) samples"
  define el where "el = filter (eligible cfg s1 mem) ordered"
  have sel: "selected = take (needed_gpus cnt mem) (map gs_index el)"
    using grant(3,5) select_gpus_take [of "[]" "needed_gpus cnt mem" cfg s1 mem ordered 0]
    by (simp add: eqs ordered_def el_def)
  define picked where "picked = take (needed_gpus cnt mem) el"
  have picked: "selected = map gs_index picked" by (simp add: sel picked_def take_map)
  have len: "length picked = needed_gpus cnt mem"
    using grant(6) sel by (simp add: picked_def eqs)
  have sub: "set picked \<subseteq> set samples" "\<forall>x\<in>set picked. eligible cfg s mem x"
    using set_take_subset [of "needed_gpus cnt mem" el]
    by (auto simp: picked_def el_def ordered_def eqs eligible_def probe_samples_same)
  have "distinct (map gs_index ordered)"
    using assms(6) mset_eq_imp_distinct_iff [of "map gs_index ordered" "map gs_index samples"]
    by (simp add: ordered_def)
  then have dist: "distinct (map gs_index picked)"
    by (simp add: picked_def el_def take_map [symmetric] distinct_map_filter)
  have "mem \<noteq> 0" using assms(4) by auto
  moreover have "g = granted cfg req mem selected s1" using grant(7) by (simp add: eqs)
  ultimately have "map_of (nv_reservations s') (res_id g) =
      Some (map (\<lambda>x. \<lparr>gr_index = gs_index x, gr_bytes = mem, gr_exclusive = False\<rparr>) picked)"
    using grant(8,9) by (simp add: granted_def AList.update_conv' picked eqs)
  then show ?thesis using len sub dist eligible_sound [OF _ assms(4), of cfg s] by blast
next
  case (empty g)
  then show ?thesis using assms(3,4) by simp
qed simp

theorem gpu_memory_not_overcommitted_witness:
  "let cfg = \<lparr>nv_id = ProviderId ''n'', gpu_key = ''gpu'', gpu_mem_key = ''mem'', safety_margin_bytes = 10, probe_ttl = 0\<rparr>;
       gpu0 = \<lparr>gs_index = 0, total_mem = 100, free_mem = 90\<rparr>;
       s = \<lparr>cached = None, nv_reservations = [], clock = 0, device = Inr [gpu0]\<rparr>;
       req = \<lparr>rr_job = JobId 1, rr_need = [(''mem'', Bytes 50)]\<rparr>
   in \<exists>g s' picked. reserve_inner cfg req s = (Inr g, s') \<and> length picked = 1 \<and> set picked \<subseteq> {gpu0}
     \<and> map_of (nv_reservations s') (res_id g) =
        Some (map (\<lambda>x. \<lparr>gr_index = gs_index x, gr_bytes = 50, gr_exclusive = False\<rparr>) picked)"
proof -
  define cfg where "cfg = \<lparr>nv_id = ProviderId ''n'', gpu_key = ''gpu'', gpu_mem_key = ''mem'',
    safety_margin_bytes = 10, probe_ttl = 0\<rparr>"
  define gpu0 :: gpu_sample where "gpu0 = \<lparr>gs_index = 0, total_mem = 100, free_mem = 90\<rparr>"
  define s where "s = \<lparr>cached = None, nv_reservations = [], clock = 0, device = Inr [gpu0]\<rparr>"
  define req where "req = \<lparr>rr_job = JobId 1, rr_need = [(''mem'', Bytes 50)]\<rparr>"
  have c: "gpu_count_of cfg (rr_need req) = Inr 0" "mem_per_gpu_of cfg (rr_need req) = Inr 50"
    "probe_samples cfg s = (Inr [gpu0], s\<lparr>cached := Some (0, [gpu0])\<rparr>)"
    by (simp_all add: gpu_count_of_def mem_per_gpu_of_def cfg_def req_def need_get_def bt_get_def probe_samples_def s_def)
  have ef: "effective_free cfg gpu0 (s\<lparr>cached := Some (0, [gpu0])\<rparr>) = Some 80"
    by (simp add: effective_free_def reserved_for_index_def cfg_def gpu0_def s_def saturating_sub_def)
  obtain g s' where r: "reserve_inner cfg req s = (Inr g, s')"
    using c ef by (simp add: reserve_inner_def needed_gpus_def Let_def)
  have "needed_gpus 0 (50 :: u64) = 1" by (simp add: needed_gpus_def)
  then obtain picked where "set picked \<subseteq> {gpu0}" "length picked = 1"
      "map_of (nv_reservations s') (res_id g) =
        Some (map (\<lambda>x. \<lparr>gr_index = gs_index x, gr_bytes = 50, gr_exclusive = False\<rparr>) picked)"
    using gpu_memory_not_overcommitted [OF r c(1,2)] c(3) by auto
  then show ?thesis
    unfolding cfg_def [symmetric] gpu0_def [symmetric] s_def [symmetric] req_def [symmetric] Let_def
    using r by blast
qed

text \<open>
  The provider grants whenever it can: a well-typed request for at least one GPU, with a
  readable device, is granted exactly when enough cards are eligible, and otherwise rejected.
\<close>

theorem gpu_grant_iff_enough:
  assumes "gpu_count_of cfg (rr_need req) = Inr cnt" and "mem_per_gpu_of cfg (rr_need req) = Inr mem"
    and "0 < needed_gpus cnt mem" and "fst (probe_samples cfg s) = Inr samples"
  shows "(\<exists>g s'. reserve_inner cfg req s = (Inr g, s')) \<longleftrightarrow>
    needed_gpus cnt mem \<le> length (filter (eligible cfg s mem) samples)"
proof -
  let ?n = "needed_gpus cnt mem"
  obtain s1 where p: "probe_samples cfg s = (Inr samples, s1)" using assms(4) by (cases "probe_samples cfg s") auto
  then have s1: "s1 = snd (probe_samples cfg s)" by simp
  define ordered where "ordered = sort_key (\<lambda>x. - int (unat (gs_index x))) samples"
  obtain selected maxf where sel: "select_gpus cfg s1 mem ?n ordered [] 0 = (selected, maxf)"
    by (cases "select_gpus cfg s1 mem ?n ordered [] 0")
  have el: "eligible cfg s1 mem = eligible cfg s mem"
    by (simp add: eligible_def probe_samples_same s1 fun_eq_iff)
  have "mset (filter (eligible cfg s mem) ordered) = mset (filter (eligible cfg s mem) samples)"
    by (simp add: ordered_def)
  then have "length (filter (eligible cfg s mem) ordered) = length (filter (eligible cfg s mem) samples)"
    by (rule mset_eq_length)
  then have "length selected = min ?n (length (filter (eligible cfg s mem) samples))"
    using select_gpus_take [of "[]" ?n cfg s1 mem ordered 0] assms(3) by (simp add: sel el)
  then show ?thesis
    using assms p sel by (auto simp: reserve_inner_def Let_def ordered_def)
qed

theorem gpu_grant_iff_enough_witness:
  "let cfg = \<lparr>nv_id = ProviderId ''n'', gpu_key = ''gpu'', gpu_mem_key = ''mem'', safety_margin_bytes = 10, probe_ttl = 0\<rparr>;
       s = \<lparr>cached = None, nv_reservations = [], clock = 0, device = Inr []\<rparr>;
       req = \<lparr>rr_job = JobId 1, rr_need = [(''gpu'', Count 2)]\<rparr>
   in \<nexists>g s'. reserve_inner cfg req s = (Inr g, s')"
proof -
  define cfg where "cfg = \<lparr>nv_id = ProviderId ''n'', gpu_key = ''gpu'', gpu_mem_key = ''mem'',
    safety_margin_bytes = 10, probe_ttl = 0\<rparr>"
  define s :: nvidia_state where "s = \<lparr>cached = None, nv_reservations = [], clock = 0, device = Inr []\<rparr>"
  define req where "req = \<lparr>rr_job = JobId 1, rr_need = [(''gpu'', Count 2)]\<rparr>"
  have c: "gpu_count_of cfg (rr_need req) = Inr 2" "mem_per_gpu_of cfg (rr_need req) = Inr 0"
    "fst (probe_samples cfg s) = Inr []" "0 < needed_gpus 2 (0 :: u64)"
    by (simp_all add: gpu_count_of_def mem_per_gpu_of_def cfg_def req_def need_get_def bt_get_def
        probe_samples_def s_def needed_gpus_def)
  have "\<nexists>g s'. reserve_inner cfg req s = (Inr g, s')"
    using gpu_grant_iff_enough [OF c(1,2,4,3)] by (simp add: needed_gpus_def)
  then show ?thesis
    unfolding cfg_def [symmetric] s_def [symmetric] req_def [symmetric] Let_def by simp
qed

text \<open>
   An exclusive reservation does not keep memory reservations away: a request for one GPU without
  memory (which is recorded as exclusive) is granted the only card of the machine as long as no
  other exclusive reservation is on it, however much memory other jobs have already reserved there.
\<close>

theorem exclusive_gpu_can_be_shared:
  assumes "fst (probe_samples cfg s) = Inr [gpu0]" and "\<not> snd (reserved_for_index s (gs_index gpu0))"
    and "gpu_count_of cfg need = Inr 1" and "mem_per_gpu_of cfg need = Inr 0" and "need_contains need (gpu_key cfg)"
  shows "\<exists>g s'. reserve_inner cfg \<lparr>rr_job = j, rr_need = need\<rparr> s = (Inr g, s')
    \<and> map_of (nv_reservations s') (res_id g) =
        Some [\<lparr>gr_index = gs_index gpu0, gr_bytes = 0, gr_exclusive = True\<rparr>]
    \<and> (\<forall>i. i \<noteq> res_id g \<longrightarrow> map_of (nv_reservations s') i = map_of (nv_reservations s) i)"
proof -
  obtain s1 where p: "probe_samples cfg s = (Inr [gpu0], s1)" using assms(1) by (cases "probe_samples cfg s") auto
  then have s1: "s1 = snd (probe_samples cfg s)" by simp
  obtain ef where "effective_free cfg gpu0 s1 = Some ef"
    using assms(2) unfolding s1 probe_samples_same by (simp add: effective_free_def split_beta)
  then show ?thesis
    using assms(3-5) p probe_samples_res [of cfg s]
    by (simp add: reserve_inner_def needed_gpus_def Let_def granted_def AList.update_conv')
qed

theorem exclusive_gpu_can_be_shared_witness:
  "let cfg = \<lparr>nv_id = ProviderId ''n'', gpu_key = ''gpu'', gpu_mem_key = ''mem'', safety_margin_bytes = 0, probe_ttl = 0\<rparr>;
       gpu0 = \<lparr>gs_index = 0, total_mem = 100, free_mem = 100\<rparr>;
       s = \<lparr>cached = None,
             nv_reservations = [(ReservationId ''n-J1'', [\<lparr>gr_index = 0, gr_bytes = 100, gr_exclusive = False\<rparr>])],
             clock = 0, device = Inr [gpu0]\<rparr>
   in \<exists>g s'. reserve_inner cfg \<lparr>rr_job = JobId 2, rr_need = [(''gpu'', Count 1)]\<rparr> s = (Inr g, s')
     \<and> map_of (nv_reservations s') (res_id g) = Some [\<lparr>gr_index = 0, gr_bytes = 0, gr_exclusive = True\<rparr>]"
proof -
  define cfg where "cfg = \<lparr>nv_id = ProviderId ''n'', gpu_key = ''gpu'', gpu_mem_key = ''mem'',
    safety_margin_bytes = 0, probe_ttl = 0\<rparr>"
  define gpu0 :: gpu_sample where "gpu0 = \<lparr>gs_index = 0, total_mem = 100, free_mem = 100\<rparr>"
  define s :: nvidia_state where "s = \<lparr>cached = None,
    nv_reservations = [(ReservationId ''n-J1'', [\<lparr>gr_index = 0, gr_bytes = 100, gr_exclusive = False\<rparr>])],
    clock = 0, device = Inr [gpu0]\<rparr>"
  have c: "fst (probe_samples cfg s) = Inr [gpu0]" "\<not> snd (reserved_for_index s (gs_index gpu0))"
    "gpu_count_of cfg [(''gpu'', Count 1)] = Inr 1" "mem_per_gpu_of cfg [(''gpu'', Count 1)] = Inr 0"
    "need_contains [(''gpu'', Count 1)] (gpu_key cfg)"
    by (simp_all add: gpu_count_of_def mem_per_gpu_of_def cfg_def need_get_def bt_get_def probe_samples_def s_def
        reserved_for_index_def add_unit_def need_contains_def bt_contains_def gpu0_def)
  have "gs_index gpu0 = 0" by (simp add: gpu0_def)
  with exclusive_gpu_can_be_shared [OF c, of "JobId 2"] show ?thesis
    unfolding cfg_def [symmetric] gpu0_def [symmetric] s_def [symmetric] Let_def by auto
qed

section \<open>A registry of GPU providers\<close>

theorem reserve_all_or_nothing_witness:
  "\<exists>cfg R. from_providers (\<lambda>_. \<lparr>cached = None, nv_reservations = [], clock = 0, device = Inl ''no driver''\<rparr>)
       [nvidia_provider cfg] = Inr R
     \<and> (case try_reserve (JobId 1) [(''gpu'', Count 1)] R of
          (Inl (Rejected _), R') \<Rightarrow> \<forall>i. nv_reservations (pstate R' i) = [] | _ \<Rightarrow> False)"
proof -
  define cfg where "cfg = \<lparr>nv_id = ProviderId ''n'', gpu_key = ''gpu'', gpu_mem_key = ''mem'',
    safety_margin_bytes = 0, probe_ttl = 0\<rparr>"
  define s :: nvidia_state where "s = \<lparr>cached = None, nv_reservations = [], clock = 0, device = Inl ''no driver''\<rparr>"
  obtain R where R: "from_providers (\<lambda>_. s) [nvidia_provider cfg] = Inr R"
    by (simp add: from_providers_def Let_def and_then_def nvidia_provider_def cfg_def)
  then have R': "by_id R = [(ProviderId ''n'', nvidia_provider cfg)]" "pstate R = (\<lambda>_. s)" "reservations R = []"
    "key_to_provider R = [(''gpu'', ProviderId ''n''), (''mem'', ProviderId ''n'')]"
    by (auto simp: from_providers_def Let_def and_then_def bt_from_list_def nvidia_provider_def cfg_def)
  have ok: "providers_ok (by_id R) (\<lambda>s. map_of (nv_reservations s)) (nvidia_holds cfg)"
    by (auto simp: providers_ok_def R' bt_get_def nvidia.provider_contract_axioms split: if_splits)
  have fresh: "\<And>i. \<not> nvidia_holds cfg (pstate R i) (JobId 1)" "map_of (reservations R) (JobId 1) = None"
    by (simp_all add: R' nvidia_holds_def s_def)
  have "p_reserve (nvidia_provider cfg) \<lparr>rr_job = JobId 1, rr_need = need_select [(''gpu'', Count 1)] [''gpu'']\<rparr> s
      = (Inl (reject_new ''NVML probe failed: no driver''), s)"
    by (simp add: nvidia_provider_def reserve_inner_def gpu_count_of_def mem_per_gpu_of_def need_get_def bt_get_def
        need_select_def cfg_def s_def needed_gpus_def probe_samples_def)
  then obtain rg R1 where t: "try_reserve (JobId 1) [(''gpu'', Count 1)] R = (Inl (Rejected rg), R1)"
    by (simp add: try_reserve_def need_is_empty_def bt_keys_def R' group_keys_def push_key_def bt_get_def)
  have "map_of (nv_reservations (pstate R1 i)) = map_of []" for i
    using reserve_all_or_nothing [OF ok from_providers_ok [OF R] fresh, of "[(''gpu'', Count 1)]"]
    by (simp add: t R' s_def)
  then have "nv_reservations (pstate R1 i) = []" for i
    by (metis list.exhaust map_of.simps(1) map_of_eq_empty_iff)
  with R t show ?thesis unfolding s_def [symmetric] by (intro exI [of _ cfg] exI [of _ R]) simp
qed

end
