(* ===== verification/Ledger.thy ===== *)
theory Ledger
  imports Interfaces "HOL-Library.AList"
begin

text \<open>
  The idempotency ledger of the gateway (\<^verbatim>\<open>crates/cue-daemon/src/actor/operation_ledger.rs\<close>): a bounded
  table of operation identities that makes every side-effecting request run at most once per
  daemon lifetime.  Instants are naturals and the current one is an argument.  The hash function is
  the argument \<open>blake3\<close>, and the length of a response's JSON encoding (or the largest \<^verbatim>\<open>usize\<close> when it
  cannot be encoded) the argument \<open>size_of\<close>.  A response payload is an error with code and message or
  one of the other variants, whose contents the ledger never looks at.
\<close>

definition MAX_OPERATION_ID_BYTES :: nat where "MAX_OPERATION_ID_BYTES = 128"

record operation_waiter =
  client_id :: u64
  request_id :: u32

datatype 'r response_payload = RespErr string string | RespOther 'r

datatype 'r begin_outcome = Route | Wait | Respond "'r response_payload"

record 'r completed_operation =
  co_waiters :: "operation_waiter list"
  co_response :: "'r response_payload"

record ledger_limits =
  identity_capacity :: nat
  response_capacity :: nat
  completed_ttl :: nat
  max_waiters :: nat
  max_response_bytes :: nat
  max_completed_bytes :: nat

definition default_limits :: ledger_limits where
  "default_limits =
     \<lparr>identity_capacity = 65536, response_capacity = 1024, completed_ttl = 15 * 60 * 1000000000,
      max_waiters = 4, max_response_bytes = 8 * 1024 * 1024, max_completed_bytes = 64 * 1024 * 1024\<rparr>"

record operation_key =
  session_namespace :: "8 word list"
  operation_id_hash :: "8 word list"

datatype 'r operation_state =
    OpPending "operation_waiter list"
  | OpCompleted "'r response_payload" nat nat
  | Tombstone

record 'r operation_entry =
  oe_fingerprint :: "8 word list"
  oe_state :: "'r operation_state"

record 'r ledger =
  entries :: "(operation_key \<times> 'r operation_entry) list"
  routed_requests :: "(operation_waiter \<times> operation_key) list"
  pending_requests :: "(operation_waiter \<times> operation_key) list"
  completed_responses :: nat
  completed_bytes :: nat
  limits :: ledger_limits

definition ledger_new :: "ledger_limits \<Rightarrow> 'r ledger" where
  "ledger_new l =
     \<lparr>entries = [], routed_requests = [], pending_requests = [], completed_responses = 0,
      completed_bytes = 0, limits = l\<rparr>"

text \<open>Big-endian bytes of a 64-bit number.\<close>

definition be_bytes :: "u64 \<Rightarrow> string" where
  "be_bytes w = map (\<lambda>i. char_of (unat w div 256 ^ i mod 256)) [7, 6, 5, 4, 3, 2, 1, 0]"

definition session_incarnation_namespace :: "(string \<Rightarrow> 8 word list) \<Rightarrow> string \<Rightarrow> u64 \<Rightarrow> 8 word list" where
  "session_incarnation_namespace blake3 session_id incarnation =
     blake3 (be_bytes (word_of_nat (length session_id)) @ session_id @ be_bytes incarnation)"

definition invalid_operation_id :: "string \<Rightarrow> string option" where
  "invalid_operation_id op_id =
     (if op_id = [] then Some ''operation_id must not be empty''
      else if MAX_OPERATION_ID_BYTES < length op_id
      then Some (''operation_id must be at most '' @ show_nat MAX_OPERATION_ID_BYTES @ '' UTF-8 bytes'')
      else if trim op_id \<noteq> op_id \<or> has_control op_id
      then Some ''operation_id must not contain surrounding whitespace or control characters''
      else None)"

section \<open>Expiry\<close>

definition set_state :: "operation_key \<Rightarrow> 'r operation_state \<Rightarrow> 'r ledger \<Rightarrow> 'r ledger" where
  "set_state k st L =
     (case map_of (entries L) k of
        None \<Rightarrow> L
      | Some e \<Rightarrow> L\<lparr>entries := AList.update k (e\<lparr>oe_state := st\<rparr>) (entries L)\<rparr>)"

definition expire_completed :: "operation_key \<Rightarrow> 'r ledger \<Rightarrow> 'r ledger" where
  "expire_completed k L =
     (case map_of (entries L) k of
        None \<Rightarrow> L
      | Some e \<Rightarrow>
          (case oe_state e of
             OpCompleted _ _ bytes \<Rightarrow>
               set_state k Tombstone
                 (L\<lparr>completed_bytes := completed_bytes L - bytes, completed_responses := completed_responses L - 1\<rparr>)
           | _ \<Rightarrow> L))"

definition expired_keys :: "nat \<Rightarrow> 'r ledger \<Rightarrow> operation_key list" where
  "expired_keys now L =
     map fst (filter (\<lambda>(k, e). case oe_state e of
        OpCompleted _ completed_at _ \<Rightarrow> completed_ttl (limits L) \<le> now - completed_at | _ \<Rightarrow> False) (entries L))"

definition prune_expired :: "nat \<Rightarrow> 'r ledger \<Rightarrow> 'r ledger" where
  "prune_expired now L = foldl (\<lambda>L k. expire_completed k L) L (expired_keys now L)"

fun min_by_time :: "(operation_key \<times> nat) list \<Rightarrow> (operation_key \<times> nat) option" where
  "min_by_time [] = None"
| "min_by_time (x # xs) =
     (case min_by_time xs of None \<Rightarrow> Some x | Some y \<Rightarrow> if snd x \<le> snd y then Some x else Some y)"

definition completed_times :: "operation_key option \<Rightarrow> 'r ledger \<Rightarrow> (operation_key \<times> nat) list" where
  "completed_times protected L =
     concat (map (\<lambda>(k, e). case oe_state e of
        OpCompleted _ t _ \<Rightarrow> if protected = Some k then [] else [(k, t)] | _ \<Rightarrow> []) (entries L))"

definition evict_oldest_completed :: "operation_key option \<Rightarrow> 'r ledger \<Rightarrow> bool \<times> 'r ledger" where
  "evict_oldest_completed protected L =
     (case min_by_time (completed_times protected L) of
        Some (k, _) \<Rightarrow> (True, expire_completed k L)
      | None \<Rightarrow> (False, L))"

text \<open>
  The eviction loop of \<^verbatim>\<open>complete\<close>.  Every turn turns one completed entry into a tombstone, so as many
  turns as there are entries are enough (lemma \<open>evict_loop_settled\<close>).
\<close>

definition over_limits :: "'r ledger \<Rightarrow> bool" where
  "over_limits L \<longleftrightarrow> response_capacity (limits L) < completed_responses L
     \<or> max_completed_bytes (limits L) < completed_bytes L"

fun evict_loop :: "nat \<Rightarrow> operation_key \<Rightarrow> 'r ledger \<Rightarrow> 'r ledger" where
  "evict_loop 0 k L = L"
| "evict_loop (Suc n) k L =
     (if over_limits L then
        (case evict_oldest_completed (Some k) L of
           (True, L') \<Rightarrow> evict_loop n k L'
         | (False, L') \<Rightarrow> L')
      else L)"

section \<open>Operations\<close>

definition ledger_begin ::
    "(string \<Rightarrow> 8 word list) \<Rightarrow> nat \<Rightarrow> 8 word list \<Rightarrow> string \<Rightarrow> 8 word list \<Rightarrow> operation_waiter
     \<Rightarrow> 'r ledger \<Rightarrow> 'r begin_outcome \<times> 'r ledger" where
  "ledger_begin blake3 now ns op_id fingerprint waiter L0 =
     (let L = prune_expired now L0
      in case invalid_operation_id op_id of
           Some message \<Rightarrow> (Respond (RespErr ''INVALID_REQUEST'' message), L)
         | None \<Rightarrow>
             let key = \<lparr>session_namespace = ns, operation_id_hash = blake3 op_id\<rparr>
             in if (case map_of (entries L) key of Some e \<Rightarrow> oe_fingerprint e \<noteq> fingerprint | None \<Rightarrow> False)
                then (Respond (RespErr ''INVALID_REQUEST''
                        (''operation_id '' @ debug_str op_id @ '' was reused with a different payload'')), L)
                else
                  (case map_of (pending_requests L) waiter of
                     Some existing \<Rightarrow>
                       if existing = key then (Wait, L)
                       else (Respond (RespErr ''INVALID_REQUEST''
                               (''request '' @ show_u32 (request_id waiter)
                                  @ '' is already waiting on another operation'')), L)
                   | None \<Rightarrow>
                       (case map_of (entries L) key of
                          Some e \<Rightarrow>
                            (case oe_state e of
                               OpPending ws \<Rightarrow>
                                 if max_waiters (limits L) \<le> length ws
                                 then (Respond (RespErr ''INVALID_STATE''
                                         (''operation_id '' @ debug_str op_id
                                            @ '' has too many pending retry waiters'')), L)
                                 else (Wait, (set_state key (OpPending (ws @ [waiter])) L)
                                               \<lparr>pending_requests := AList.update waiter key (pending_requests L)\<rparr>)
                             | OpCompleted response _ _ \<Rightarrow> (Respond response, L)
                             | Tombstone \<Rightarrow>
                                 (Respond (RespErr ''INVALID_STATE''
                                    (''operation_id '' @ debug_str op_id
                                       @ '' already completed, but its replay response expired'')), L))
                        | None \<Rightarrow>
                            if identity_capacity (limits L) \<le> length (entries L)
                            then (Respond (RespErr ''INVALID_STATE''
                                    ''operation identity ledger is saturated; refusing a new side effect''), L)
                            else
                              (Route,
                               L\<lparr>entries := AList.update key
                                    \<lparr>oe_fingerprint = fingerprint, oe_state = OpPending [waiter]\<rparr> (entries L),
                                 routed_requests := AList.update waiter key (routed_requests L),
                                 pending_requests := AList.update waiter key (pending_requests L)\<rparr>))))"

definition ledger_complete ::
    "('r response_payload \<Rightarrow> nat) \<Rightarrow> nat \<Rightarrow> operation_waiter \<Rightarrow> 'r response_payload \<Rightarrow> 'r ledger
     \<Rightarrow> 'r completed_operation option \<times> 'r ledger" where
  "ledger_complete size_of now routed response L =
     (case map_of (routed_requests L) routed of
        None \<Rightarrow> (None, L)
      | Some key \<Rightarrow>
          let L1 = L\<lparr>routed_requests := AList.delete routed (routed_requests L)\<rparr>
          in case map_of (entries L1) key of
               None \<Rightarrow> (None, L1)
             | Some e \<Rightarrow>
                 (case oe_state e of
                    OpPending ws \<Rightarrow>
                      let L2 = L1\<lparr>pending_requests := foldl (\<lambda>p w. AList.delete w p) (pending_requests L1) ws\<rparr>;
                          bytes = size_of response;
                          out = Some \<lparr>co_waiters = ws, co_response = response\<rparr>
                      in if max_response_bytes (limits L2) < bytes then (out, set_state key Tombstone L2)
                         else
                           let L3 = (set_state key (OpCompleted response now bytes) L2)
                                  \<lparr>completed_responses := usize_saturating_add (completed_responses L2) 1,
                                   completed_bytes := usize_saturating_add (completed_bytes L2) bytes\<rparr>
                           in (out, evict_loop (length (entries L3)) key L3)
                  | _ \<Rightarrow> (None, L1)))"

definition drop_client :: "u64 \<Rightarrow> 'r operation_state \<Rightarrow> 'r operation_state" where
  "drop_client c st =
     (case st of OpPending ws \<Rightarrow> OpPending (filter (\<lambda>w. client_id w \<noteq> c) ws) | _ \<Rightarrow> st)"

definition remove_waiters_for_client :: "u64 \<Rightarrow> 'r ledger \<Rightarrow> 'r ledger" where
  "remove_waiters_for_client c L =
     L\<lparr>entries := map (\<lambda>(k, e). (k, e\<lparr>oe_state := drop_client c (oe_state e)\<rparr>)) (entries L),
       pending_requests := filter (\<lambda>(w, _). client_id w \<noteq> c) (pending_requests L)\<rparr>"

section \<open>Entries under update\<close>

abbreviation keys_ok :: "'r ledger \<Rightarrow> bool" where
  "keys_ok L \<equiv> distinct (map fst (entries L))"

definition state_of :: "'r ledger \<Rightarrow> operation_key \<Rightarrow> 'r operation_state option" where
  "state_of L k = map_option oe_state (map_of (entries L) k)"

fun is_completed :: "'r operation_state \<Rightarrow> bool" where
  "is_completed (OpCompleted _ _ _) = True"
| "is_completed _ = False"

fun bytes_of :: "'r operation_state \<Rightarrow> nat" where
  "bytes_of (OpCompleted _ _ b) = b"
| "bytes_of _ = 0"

definition total :: "('r operation_state \<Rightarrow> nat) \<Rightarrow> 'r ledger \<Rightarrow> nat" where
  "total f L = sum_list (map (f \<circ> oe_state \<circ> snd) (entries L))"

abbreviation count_completed :: "'r ledger \<Rightarrow> nat" where
  "count_completed \<equiv> total (\<lambda>st. if is_completed st then 1 else 0)"

lemma sum_update_old:
  fixes g :: "'v \<Rightarrow> nat"
  shows "distinct (map fst xs) \<Longrightarrow> map_of xs k = Some e \<Longrightarrow>
    sum_list (map (g \<circ> snd) (AList.update k e' xs)) + g e = sum_list (map (g \<circ> snd) xs) + g e'"
  by (induction xs) (auto split: if_splits)

lemma sum_update_new:
  fixes g :: "'v \<Rightarrow> nat"
  shows "map_of xs k = None \<Longrightarrow> sum_list (map (g \<circ> snd) (AList.update k e' xs)) = sum_list (map (g \<circ> snd) xs) + g e'"
  by (induction xs) (auto split: if_splits)

lemma length_update: "map_of xs k \<noteq> None \<Longrightarrow> length (AList.update k e xs) = length xs"
  by (induction xs) auto

lemma length_update_new: "map_of xs k = None \<Longrightarrow> length (AList.update k e xs) = Suc (length xs)"
  by (induction xs) (auto split: if_splits)

lemma set_state_simps [simp]:
  "limits (set_state k st L) = limits L" "routed_requests (set_state k st L) = routed_requests L"
  "pending_requests (set_state k st L) = pending_requests L"
  "completed_responses (set_state k st L) = completed_responses L"
  "completed_bytes (set_state k st L) = completed_bytes L"
  "length (entries (set_state k st L)) = length (entries L)"
  "state_of (set_state k st L) k' = (if k' = k \<and> state_of L k \<noteq> None then Some st else state_of L k')"
  "fst ` set (entries (set_state k st L)) = fst ` set (entries L)"
  by (auto simp: set_state_def state_of_def AList.update_conv' length_update AList.dom_update
      split: option.splits dest: map_of_SomeD) (force dest: map_of_SomeD)+

lemma keys_ok_set_state [simp]: "keys_ok L \<Longrightarrow> keys_ok (set_state k st L)"
  by (auto simp: set_state_def AList.distinct_update split: option.splits)

lemma total_set_state:
  "keys_ok L \<Longrightarrow> state_of L k = Some st0 \<Longrightarrow> total f (set_state k st L) + f st0 = total f L + f st"
  using sum_update_old [of "entries L" k _ "f \<circ> oe_state"]
  by (auto simp: total_def set_state_def state_of_def o_assoc)

lemma state_of_cong [simp]:
  "state_of (L\<lparr>routed_requests := x\<rparr>) = state_of L" "state_of (L\<lparr>pending_requests := y\<rparr>) = state_of L"
  "state_of (L\<lparr>completed_responses := n\<rparr>) = state_of L" "state_of (L\<lparr>completed_bytes := n\<rparr>) = state_of L"
  "total f (L\<lparr>routed_requests := x\<rparr>) = total f L" "total f (L\<lparr>pending_requests := y\<rparr>) = total f L"
  "total f (L\<lparr>completed_responses := n\<rparr>) = total f L" "total f (L\<lparr>completed_bytes := n\<rparr>) = total f L"
  by (simp_all add: state_of_def total_def fun_eq_iff)

lemma min_by_time_mem: "min_by_time xs = Some x \<Longrightarrow> x \<in> set xs"
  by (induction xs arbitrary: x) (auto split: option.splits if_splits)

lemma min_by_time_None [simp]: "min_by_time xs = None \<longleftrightarrow> xs = []"
  by (cases xs) (auto split: option.splits)

lemma completed_times_mem:
  "keys_ok L \<Longrightarrow> (k, t) \<in> set (completed_times p L) \<Longrightarrow> \<exists>r b. state_of L k = Some (OpCompleted r t b) \<and> p \<noteq> Some k"
proof -
  assume d: "keys_ok L" and "(k, t) \<in> set (completed_times p L)"
  then obtain e r b where "(k, e) \<in> set (entries L)" "OpCompleted r t b = oe_state e" "p \<noteq> Some k"
    by (auto simp: completed_times_def split: operation_state.splits if_splits)
  moreover from this d have "map_of (entries L) k = Some e" by simp
  ultimately show ?thesis by (simp add: state_of_def) metis
qed

lemma completed_times_empty:
  "completed_times (Some p) L = [] \<Longrightarrow> keys_ok L \<Longrightarrow> state_of L k = Some (OpCompleted r t b) \<Longrightarrow> k = p"
  by (fastforce simp: completed_times_def state_of_def dest: map_of_SomeD split: operation_state.splits if_splits)

section \<open>Invariant\<close>

definition byte_bound :: "ledger_limits \<Rightarrow> nat" where
  "byte_bound l = max (max_completed_bytes l) (max_response_bytes l)"

definition response_bound :: "ledger_limits \<Rightarrow> nat" where
  "response_bound l = max (response_capacity l) 1"

text \<open>Limits under which the counters cannot saturate; the defaults are such.\<close>

definition limits_ok :: "ledger_limits \<Rightarrow> bool" where
  "limits_ok l \<longleftrightarrow> 1 \<le> max_waiters l \<and> byte_bound l + max_response_bytes l \<le> usize_max
     \<and> response_bound l + 1 \<le> usize_max"

definition counters_ok :: "'r ledger \<Rightarrow> bool" where
  "counters_ok L \<longleftrightarrow> keys_ok L \<and> completed_responses L = count_completed L \<and> completed_bytes L = total bytes_of L
     \<and> (\<forall>k st. state_of L k = Some st \<longrightarrow> bytes_of st \<le> max_response_bytes (limits L))"

definition waiters_ok :: "'r ledger \<Rightarrow> bool" where
  "waiters_ok L \<longleftrightarrow>
     (\<forall>r k. map_of (routed_requests L) r = Some k \<longrightarrow> (\<exists>ws. state_of L k = Some (OpPending ws)))
     \<and> (\<forall>r r' k. map_of (routed_requests L) r = Some k \<and> map_of (routed_requests L) r' = Some k \<longrightarrow> r = r')
     \<and> (\<forall>w k. map_of (pending_requests L) w = Some k \<longleftrightarrow> (\<exists>ws. state_of L k = Some (OpPending ws) \<and> w \<in> set ws))
     \<and> (\<forall>k ws. state_of L k = Some (OpPending ws) \<longrightarrow> distinct ws \<and> length ws \<le> max_waiters (limits L))"

definition ledger_inv :: "'r ledger \<Rightarrow> bool" where
  "ledger_inv L \<longleftrightarrow> counters_ok L \<and> waiters_ok L \<and> limits_ok (limits L)
     \<and> length (entries L) \<le> identity_capacity (limits L)
     \<and> completed_responses L \<le> response_bound (limits L) \<and> completed_bytes L \<le> byte_bound (limits L)"

lemma waiters_okI:
  assumes "\<And>r k. map_of (routed_requests L) r = Some k \<Longrightarrow> \<exists>ws. state_of L k = Some (OpPending ws)"
    and "\<And>r r' k. map_of (routed_requests L) r = Some k \<Longrightarrow> map_of (routed_requests L) r' = Some k \<Longrightarrow> r = r'"
    and "\<And>w k. map_of (pending_requests L) w = Some k \<longleftrightarrow> (\<exists>ws. state_of L k = Some (OpPending ws) \<and> w \<in> set ws)"
    and "\<And>k ws. state_of L k = Some (OpPending ws) \<Longrightarrow> distinct ws \<and> length ws \<le> max_waiters (limits L)"
  shows "waiters_ok L"
  unfolding waiters_ok_def using assms by blast

lemma waiters_okD:
  assumes "waiters_ok L"
  shows waiters_routed: "map_of (routed_requests L) r = Some k \<Longrightarrow> \<exists>ws. state_of L k = Some (OpPending ws)"
    and waiters_inj: "map_of (routed_requests L) r = Some k \<Longrightarrow> map_of (routed_requests L) r' = Some k \<Longrightarrow> r = r'"
    and waiters_pending: "map_of (pending_requests L) w = Some k \<longleftrightarrow> (\<exists>ws. state_of L k = Some (OpPending ws) \<and> w \<in> set ws)"
    and waiters_len: "state_of L k = Some (OpPending ws) \<Longrightarrow> distinct ws \<and> length ws \<le> max_waiters (limits L)"
  using assms unfolding waiters_ok_def by blast+

lemma waiters_unique:
  assumes "waiters_ok L" "state_of L k = Some (OpPending ws)" "w \<in> set ws"
    and "state_of L k' = Some (OpPending us)" "w \<in> set us"
  shows "k' = k"
  using waiters_pending [OF assms(1), of w k] waiters_pending [OF assms(1), of w k'] assms(2-5) by auto

lemma default_limits_ok: "limits_ok default_limits"
  by (simp add: limits_ok_def default_limits_def byte_bound_def response_bound_def usize_max_def)

lemma ledger_inv_new: "limits_ok l \<Longrightarrow> ledger_inv (ledger_new l)"
  by (simp add: ledger_inv_def counters_ok_def waiters_ok_def ledger_new_def total_def state_of_def)

lemma expire_completed_cases:
  obtains (no) "expire_completed k L = L" "\<nexists>r t b. state_of L k = Some (OpCompleted r t b)"
  | (yes) r t b where "state_of L k = Some (OpCompleted r t b)"
      "expire_completed k L = set_state k Tombstone
         (L\<lparr>completed_bytes := completed_bytes L - b, completed_responses := completed_responses L - 1\<rparr>)"
  by (cases "map_of (entries L) k"; cases "map_option oe_state (map_of (entries L) k)")
     (auto simp: expire_completed_def state_of_def split: operation_state.splits)

lemma expire_completed_frame [simp]:
  "limits (expire_completed k L) = limits L" "routed_requests (expire_completed k L) = routed_requests L"
  "pending_requests (expire_completed k L) = pending_requests L"
  "length (entries (expire_completed k L)) = length (entries L)"
  "fst ` set (entries (expire_completed k L)) = fst ` set (entries L)"
  by (cases rule: expire_completed_cases [of k L]; simp; fail)+

lemma expire_completed_pending:
  "state_of (expire_completed k L) k' = Some (OpPending ws) \<longleftrightarrow> state_of L k' = Some (OpPending ws)"
  by (cases rule: expire_completed_cases [of k L]) auto

lemma expire_completed_counters:
  assumes "counters_ok L"
  shows "counters_ok (expire_completed k L) \<and> completed_bytes (expire_completed k L) \<le> completed_bytes L
    \<and> completed_responses (expire_completed k L) \<le> completed_responses L"
proof (cases rule: expire_completed_cases [of k L])
  case no
  then show ?thesis using assms by simp
next
  case (yes r t b)
  have ok: "keys_ok L" using assms by (simp add: counters_ok_def)
  have "total f (expire_completed k L) + f (OpCompleted r t b) = total f L + f Tombstone" for f :: "'a operation_state \<Rightarrow> nat"
    using total_set_state [of "L\<lparr>completed_bytes := completed_bytes L - b, completed_responses := completed_responses L - 1\<rparr>" k "OpCompleted r t b" f Tombstone] ok yes
    by simp
  from this [of bytes_of] this [of "\<lambda>st. if is_completed st then 1 else 0"] show ?thesis
    using assms ok yes by (auto simp: counters_ok_def)
qed

lemma waiters_ok_cong:
  assumes "waiters_ok L" "routed_requests L' = routed_requests L" "pending_requests L' = pending_requests L"
    "limits L' = limits L" "\<And>k ws. state_of L' k = Some (OpPending ws) \<longleftrightarrow> state_of L k = Some (OpPending ws)"
  shows "waiters_ok L'"
  using assms by (simp add: waiters_ok_def)

lemma expire_completed_waiters: "waiters_ok L \<Longrightarrow> waiters_ok (expire_completed k L)"
  by (rule waiters_ok_cong) (auto simp: expire_completed_pending)

lemma expire_completed_inv: "ledger_inv L \<Longrightarrow> ledger_inv (expire_completed k L)"
  using expire_completed_counters [of L k] expire_completed_waiters [of L k] by (auto simp: ledger_inv_def)

lemma foldl_expire:
  "ledger_inv L \<Longrightarrow> ledger_inv (foldl (\<lambda>L k. expire_completed k L) L ks)
     \<and> fst ` set (entries (foldl (\<lambda>L k. expire_completed k L) L ks)) = fst ` set (entries L)
     \<and> limits (foldl (\<lambda>L k. expire_completed k L) L ks) = limits L"
  by (induction ks arbitrary: L) (auto simp: expire_completed_inv)

lemma prune_inv:
  "ledger_inv L \<Longrightarrow> ledger_inv (prune_expired now L)"
  "ledger_inv L \<Longrightarrow> fst ` set (entries (prune_expired now L)) = fst ` set (entries L)"
  "ledger_inv L \<Longrightarrow> limits (prune_expired now L) = limits L"
  unfolding prune_expired_def by (simp_all add: foldl_expire)

text \<open>Every turn of the loop evicts, so it ends within the limits or with nothing left to evict.\<close>

lemma evict_oldest_cases:
  assumes "counters_ok L"
  obtains (none) "evict_oldest_completed (Some p) L = (False, L)" "\<And>k r t b. state_of L k = Some (OpCompleted r t b) \<Longrightarrow> k = p"
  | (some) k r t b where "evict_oldest_completed (Some p) L = (True, expire_completed k L)" "k \<noteq> p"
      "state_of L k = Some (OpCompleted r t b)"
proof (cases "min_by_time (completed_times (Some p) L)")
  case None
  have d: "keys_ok L" using assms by (simp add: counters_ok_def)
  show thesis using none None completed_times_empty [OF _ d, of p] by (simp add: evict_oldest_completed_def)
next
  case (Some x)
  obtain k t where x: "x = (k, t)" by (cases x)
  then have "(k, t) \<in> set (completed_times (Some p) L)" using Some min_by_time_mem by metis
  then obtain r b where "state_of L k = Some (OpCompleted r t b)" "k \<noteq> p"
    using completed_times_mem assms by (metis counters_ok_def)
  then show thesis using some Some x by (simp add: evict_oldest_completed_def)
qed

lemma count_positive:
  assumes "counters_ok L" "state_of L k = Some (OpCompleted r t b)"
  shows "0 < completed_responses L" "b \<le> completed_bytes L"
proof -
  obtain e where e: "(k, e) \<in> set (entries L)" "oe_state e = OpCompleted r t b"
    using assms(2) by (auto simp: state_of_def dest: map_of_SomeD)
  have mem: "f (oe_state e) \<le> total f L" for f :: "'a operation_state \<Rightarrow> nat"
    using e(1) member_le_sum_list [of "f (oe_state e)" "map (f \<circ> oe_state \<circ> snd) (entries L)"]
    by (force simp: total_def)
  show "0 < completed_responses L" "b \<le> completed_bytes L"
    using mem [of "\<lambda>st. if is_completed st then 1 else 0"] mem [of bytes_of] e assms(1) by (simp_all add: counters_ok_def)
qed

lemma expire_some:
  assumes "state_of L k = Some (OpCompleted r t b)"
  shows "completed_responses (expire_completed k L) = completed_responses L - 1"
    and "p \<noteq> k \<Longrightarrow> state_of (expire_completed k L) p = state_of L p"
  using assms by (cases rule: expire_completed_cases [of k L]; simp)+

lemma evict_loop_settled:
  assumes "counters_ok L" "completed_responses L \<le> n"
  shows "counters_ok (evict_loop n p L)
    \<and> (\<not> over_limits (evict_loop n p L) \<or> (\<forall>k r t b. state_of (evict_loop n p L) k = Some (OpCompleted r t b) \<longrightarrow> k = p))
    \<and> state_of (evict_loop n p L) p = state_of L p"
  using assms
proof (induction n arbitrary: L)
  case 0
  then show ?case using count_positive(1) [of L] by fastforce
next
  case (Suc n)
  show ?case
  proof (cases "over_limits L")
    case True
    show ?thesis
    proof (cases rule: evict_oldest_cases [OF Suc.prems(1), of p])
      case 1: 1
      then show ?thesis using True Suc.prems(1) by auto
    next
      case 2: (2 k r t b)
      have "counters_ok (expire_completed k L)" "completed_responses (expire_completed k L) \<le> n"
        using expire_completed_counters [OF Suc.prems(1), of k] expire_some(1) [OF 2(3)] Suc.prems(2) by auto
      from Suc.IH [OF this] show ?thesis using True 2 expire_some(2) [OF 2(3), of p] by simp
    qed
  qed (use Suc.prems in simp)
qed

lemma evict_loop_frame:
  "limits (evict_loop n p L) = limits L \<and> routed_requests (evict_loop n p L) = routed_requests L
   \<and> pending_requests (evict_loop n p L) = pending_requests L
   \<and> length (entries (evict_loop n p L)) = length (entries L)
   \<and> fst ` set (entries (evict_loop n p L)) = fst ` set (entries L)
   \<and> (state_of (evict_loop n p L) k = Some (OpPending ws) \<longleftrightarrow> state_of L k = Some (OpPending ws))"
  by (induction n arbitrary: L)
     (auto simp: evict_oldest_completed_def expire_completed_pending split: option.splits)

lemma single_completed:
  assumes "keys_ok L" "\<And>k r t b. state_of L k = Some (OpCompleted r t b) \<Longrightarrow> k = p"
    and "f Tombstone = 0" "\<And>ws. f (OpPending ws) = 0"
  shows "total f L = (case state_of L p of Some st \<Rightarrow> f st | None \<Rightarrow> 0)"
proof -
  have "sum_list (map (f \<circ> oe_state \<circ> snd) xs) = (case map_of xs p of Some e \<Rightarrow> f (oe_state e) | None \<Rightarrow> 0)"
    if "distinct (map fst xs)" "\<And>k e. map_of xs k = Some e \<Longrightarrow> k \<noteq> p \<Longrightarrow> f (oe_state e) = 0" for xs
    using that
  proof (induction xs)
    case (Cons x xs)
    obtain k e where x: "x = (k, e)" by (cases x)
    have "map_of xs k = None" using Cons.prems(1) by (simp add: x map_of_eq_None_iff)
    moreover have "f (oe_state e') = 0" if "map_of xs k' = Some e'" "k' \<noteq> p" for k' e'
      using Cons.prems(2) [of k' e'] that calculation by (cases "k' = k") (auto simp: x)
    moreover have "k \<noteq> p \<Longrightarrow> f (oe_state e) = 0" using Cons.prems(2) [of k e] by (simp add: x)
    ultimately show ?case using Cons by (auto simp: x split: option.splits)
  qed simp
  moreover have "f (oe_state e) = 0" if "map_of (entries L) k = Some e" "k \<noteq> p" for k e
  proof (cases "oe_state e")
    case (OpCompleted r t b)
    then show ?thesis using assms(2) [of k r t b] that by (simp add: state_of_def)
  qed (simp_all add: assms)
  ultimately have "total f L = (case map_of (entries L) p of Some e \<Rightarrow> f (oe_state e) | None \<Rightarrow> 0)"
    using assms(1) unfolding total_def by blast
  then show ?thesis by (simp add: state_of_def split: option.splits)
qed

lemma count_le_length: "sum_list (map (\<lambda>x. if P x then 1 else (0 :: nat)) xs) \<le> length xs"
  by (induction xs) auto

lemma map_of_foldl_delete:
  "map_of (foldl (\<lambda>p w. AList.delete w p) p ws) w = (if w \<in> set ws then None else map_of p w)"
  by (induction ws arbitrary: p) (auto simp: AList.delete_conv')

lemma bounded_after_eviction:
  assumes inv: "counters_ok L" "completed_responses L \<le> n" and st: "state_of L p = Some (OpCompleted r t b)"
    and b: "b \<le> max_response_bytes (limits L)"
  shows "counters_ok (evict_loop n p L) \<and> completed_responses (evict_loop n p L) \<le> response_bound (limits L)
    \<and> completed_bytes (evict_loop n p L) \<le> byte_bound (limits L)"
proof -
  let ?E = "evict_loop n p L"
  note e = evict_loop_settled [OF inv, of p]
  have lim: "limits ?E = limits L" using evict_loop_frame by blast
  from e have c: "counters_ok ?E" and sp: "state_of ?E p = Some (OpCompleted r t b)" using st by simp_all
  show ?thesis
  proof (cases "over_limits ?E")
    case True
    then have only: "\<And>k r t b. state_of ?E k = Some (OpCompleted r t b) \<Longrightarrow> k = p" using e by blast
    have "keys_ok ?E" using c by (simp add: counters_ok_def)
    from single_completed [OF this only, where f = bytes_of] single_completed [OF this only, where f = "\<lambda>st. if is_completed st then 1 else 0"]
    show ?thesis using c sp b by (simp add: counters_ok_def response_bound_def byte_bound_def)
  next
    case False
    then show ?thesis using c lim by (auto simp: over_limits_def response_bound_def byte_bound_def)
  qed
qed

lemma complete_inv:
  assumes inv: "ledger_inv L"
  shows "ledger_inv (snd (ledger_complete size_of now r resp L))"
proof (cases "map_of (routed_requests L) r")
  case None
  then show ?thesis using inv by (simp add: ledger_complete_def)
next
  case (Some key)
  obtain ws where ws: "state_of L key = Some (OpPending ws)"
    using inv Some unfolding ledger_inv_def waiters_ok_def by blast
  then obtain e where e: "map_of (entries L) key = Some e" "oe_state e = OpPending ws"
    by (auto simp: state_of_def)
  define L2 where "L2 = L\<lparr>routed_requests := AList.delete r (routed_requests L),
    pending_requests := foldl (\<lambda>p w. AList.delete w p) (pending_requests L) ws\<rparr>"
  have ok: "keys_ok L2" "counters_ok L" "waiters_ok L" "limits_ok (limits L)" and st2: "state_of L2 key = Some (OpPending ws)"
    and bnd: "completed_responses L \<le> response_bound (limits L)" "completed_bytes L \<le> byte_bound (limits L)"
    using inv ws by (auto simp: ledger_inv_def counters_ok_def L2_def)
  have w2: "waiters_ok M" if "routed_requests M = routed_requests L2" "pending_requests M = pending_requests L2"
      "limits M = limits L" "\<And>k us. state_of M k = Some (OpPending us) \<longleftrightarrow> k \<noteq> key \<and> state_of L k = Some (OpPending us)" for M :: "'a ledger"
  proof -
    have r: "map_of (routed_requests M) x = (if x = r then None else map_of (routed_requests L) x)" for x
      by (simp add: that L2_def AList.delete_conv')
    have p: "map_of (pending_requests M) x = (if x \<in> set ws then None else map_of (pending_requests L) x)" for x
      by (simp add: that L2_def map_of_foldl_delete)
    show ?thesis
    proof (rule waiters_okI, unfold r p that(3,4))
      fix x k assume a: "(if x = r then None else map_of (routed_requests L) x) = Some k"
      then have "k \<noteq> key" "map_of (routed_requests L) x = Some k"
        using waiters_inj [OF ok(3) Some, of x] by (auto split: if_splits)
      then show "\<exists>us. k \<noteq> key \<and> state_of L k = Some (OpPending us)" using waiters_routed [OF ok(3)] by blast
      fix x' assume "(if x' = r then None else map_of (routed_requests L) x') = Some k"
      then show "x = x'" using a waiters_inj [OF ok(3)] by (auto split: if_splits)
    next
      fix x k
      have "k \<noteq> key" if "x \<notin> set ws" "state_of L k = Some (OpPending us)" "x \<in> set us" for us using that ws by auto
      then show "((if x \<in> set ws then None else map_of (pending_requests L) x) = Some k) =
          (\<exists>us. (k \<noteq> key \<and> state_of L k = Some (OpPending us)) \<and> x \<in> set us)"
        using waiters_pending [OF ok(3), of x k] waiters_unique [OF ok(3) ws, of x k] by auto
    next
      fix k us assume "k \<noteq> key \<and> state_of L k = Some (OpPending us)"
      then show "distinct us \<and> length us \<le> max_waiters (limits L)" using waiters_len [OF ok(3)] by blast
    qed
  qed
  have tot: "total f (set_state key st L2) + f (OpPending ws) = total f L + f st" for f :: "'a operation_state \<Rightarrow> nat" and st
    using total_set_state [OF ok(1) st2, of f st] by (simp add: L2_def)
  show ?thesis
  proof (cases "max_response_bytes (limits L) < size_of resp")
    case True
    let ?M = "set_state key Tombstone L2"
    have "counters_ok ?M"
      using ok(1,2) st2 tot [of bytes_of Tombstone] tot [of "\<lambda>st. if is_completed st then 1 else 0" Tombstone]
      by (auto simp: counters_ok_def L2_def)
    moreover have "waiters_ok ?M" by (rule w2) (auto simp: st2, simp_all add: L2_def)
    ultimately have "ledger_inv ?M" using inv by (simp add: ledger_inv_def L2_def)
    then show ?thesis using True Some e by (simp add: ledger_complete_def Let_def L2_def)
  next
    case False
    define L3 where "L3 = (set_state key (OpCompleted resp now (size_of resp)) L2)
        \<lparr>completed_responses := usize_saturating_add (completed_responses L2) 1,
         completed_bytes := usize_saturating_add (completed_bytes L2) (size_of resp)\<rparr>"
    have add: "usize_saturating_add (completed_responses L2) 1 = completed_responses L + 1"
      "usize_saturating_add (completed_bytes L2) (size_of resp) = completed_bytes L + size_of resp"
      using bnd ok(4) False by (auto simp: usize_saturating_add_def limits_ok_def L2_def)
    have c3: "counters_ok L3"
      using ok(1,2) st2 False tot [of bytes_of "OpCompleted resp now (size_of resp)"]
        tot [of "\<lambda>st. if is_completed st then 1 else 0" "OpCompleted resp now (size_of resp)"]
      unfolding L3_def add by (auto simp: counters_ok_def, auto simp: L2_def)
    have st3: "state_of L3 key = Some (OpCompleted resp now (size_of resp))" by (simp add: L3_def st2)
    have lim3: "limits L3 = limits L" by (simp add: L3_def L2_def)
    have "completed_responses L3 \<le> length (entries L3)"
      using c3 count_le_length [of "\<lambda>x. is_completed (oe_state (snd x))" "entries L3"]
      by (simp add: counters_ok_def total_def comp_def)
    note bd = bounded_after_eviction [OF c3 this st3]
    let ?E = "evict_loop (length (entries L3)) key L3"
    note fr = evict_loop_frame [of "length (entries L3)" key L3]
    have "waiters_ok ?E"
      by (rule w2) (use fr st2 in \<open>auto simp: L3_def\<close>, simp_all add: L2_def)
    then have "ledger_inv ?E"
      using bd False inv fr by (simp add: ledger_inv_def lim3) (simp add: L3_def L2_def)
    then show ?thesis using False Some e by (simp add: ledger_complete_def Let_def L3_def L2_def)
  qed
qed

lemma set_state_eq: "map_of (entries L) k = Some e \<Longrightarrow> set_state k st L = L\<lparr>entries := AList.update k (e\<lparr>oe_state := st\<rparr>) (entries L)\<rparr>"
  by (simp add: set_state_def)

lemma join_inv:
  assumes inv: "ledger_inv L" and st: "state_of L k = Some (OpPending ws)" and n: "length ws < max_waiters (limits L)"
    and new: "map_of (pending_requests L) w = None"
  shows "ledger_inv ((set_state k (OpPending (ws @ [w])) L)\<lparr>pending_requests := AList.update w k (pending_requests L)\<rparr>)"
    (is "ledger_inv ?M")
proof -
  have ok: "counters_ok L" "waiters_ok L" using inv by (auto simp: ledger_inv_def)
  then have k: "keys_ok L" by (simp add: counters_ok_def)
  have "counters_ok ?M"
    using ok(1) k st total_set_state [OF k st, of bytes_of "OpPending (ws @ [w])"]
      total_set_state [OF k st, of "\<lambda>st. if is_completed st then 1 else 0" "OpPending (ws @ [w])"]
    by (auto simp: counters_ok_def)
  moreover have "waiters_ok ?M"
  proof (rule waiters_okI)
    fix x j
    show "map_of (routed_requests ?M) x = Some j \<Longrightarrow> \<exists>us. state_of ?M j = Some (OpPending us)"
      using waiters_routed [OF ok(2), of x j] by auto
  next
    fix x x' j
    show "map_of (routed_requests ?M) x = Some j \<Longrightarrow> map_of (routed_requests ?M) x' = Some j \<Longrightarrow> x = x'"
      using waiters_inj [OF ok(2), of x j x'] by simp
  next
    fix x j
    show "map_of (pending_requests ?M) x = Some j \<longleftrightarrow> (\<exists>us. state_of ?M j = Some (OpPending us) \<and> x \<in> set us)"
      using waiters_pending [OF ok(2), of x j] waiters_pending [OF ok(2), of w j] st new
      by (auto simp: AList.update_conv')
  next
    fix j us assume "state_of ?M j = Some (OpPending us)"
    moreover have "w \<notin> set ws" using waiters_pending [OF ok(2), of w k] st new by auto
    ultimately show "distinct us \<and> length us \<le> max_waiters (limits ?M)"
      using waiters_len [OF ok(2), of j us] waiters_len [OF ok(2) st] n by (auto split: if_splits)
  qed
  ultimately show ?thesis using inv by (simp add: ledger_inv_def)
qed

lemma route_inv:
  assumes inv: "ledger_inv L" and nk: "map_of (entries L) k = None" and cap: "length (entries L) < identity_capacity (limits L)"
    and new: "map_of (pending_requests L) w = None"
  shows "ledger_inv (L\<lparr>entries := AList.update k \<lparr>oe_fingerprint = fp, oe_state = OpPending [w]\<rparr> (entries L),
      routed_requests := AList.update w k (routed_requests L), pending_requests := AList.update w k (pending_requests L)\<rparr>)"
    (is "ledger_inv ?M")
proof -
  have ok: "counters_ok L" "waiters_ok L" "1 \<le> max_waiters (limits L)" using inv by (auto simp: ledger_inv_def limits_ok_def)
  then have k: "keys_ok L" by (simp add: counters_ok_def)
  have st: "state_of ?M j = (if j = k then Some (OpPending [w]) else state_of L j)" for j
    by (simp add: state_of_def AList.update_conv')
  have "total f ?M = total f L + f (OpPending [w])" for f :: "'a operation_state \<Rightarrow> nat"
    using sum_update_new [OF nk, of "f \<circ> oe_state"] by (simp add: total_def o_assoc)
  moreover have "keys_ok ?M" using k by (simp add: AList.distinct_update)
  moreover have "bytes_of st' \<le> max_response_bytes (limits L)" if "state_of ?M j = Some st'" for j st'
    using that ok(1) unfolding st by (auto simp: counters_ok_def split: if_splits)
  ultimately have c: "counters_ok ?M" using ok(1) unfolding counters_ok_def by simp
  have no: "state_of L k = None" by (simp add: state_of_def nk)
  have free: "map_of (routed_requests L) x \<noteq> Some k" "map_of (pending_requests L) x \<noteq> Some k" for x
    using waiters_routed [OF ok(2), of x k] waiters_pending [OF ok(2), of x k] no by auto
  have "waiters_ok ?M"
  proof (rule waiters_okI)
    fix x j assume a: "map_of (routed_requests ?M) x = Some j"
    then show "\<exists>us. state_of ?M j = Some (OpPending us)"
      unfolding st using waiters_routed [OF ok(2), of x j] by (auto simp: AList.update_conv' split: if_splits)
    fix x' assume "map_of (routed_requests ?M) x' = Some j"
    then show "x = x'"
      using a free waiters_inj [OF ok(2), of x j x'] by (auto simp: AList.update_conv' split: if_splits)
  next
    fix x j
    show "map_of (pending_requests ?M) x = Some j \<longleftrightarrow> (\<exists>us. state_of ?M j = Some (OpPending us) \<and> x \<in> set us)"
      unfolding st using waiters_pending [OF ok(2), of x j] waiters_pending [OF ok(2), of w j] free [of x] new
      by (auto simp: AList.update_conv')
  next
    fix j us assume "state_of ?M j = Some (OpPending us)"
    then show "distinct us \<and> length us \<le> max_waiters (limits ?M)"
      unfolding st using waiters_len [OF ok(2), of j us] ok(3) by (auto split: if_splits)
  qed
  with c show ?thesis using inv cap length_update_new [OF nk] by (simp add: ledger_inv_def)
qed

lemma begin_inv:
  assumes "ledger_inv L"
  shows "ledger_inv (snd (ledger_begin blake3 now ns op_id fp w L))"
proof -
  have p: "ledger_inv (prune_expired now L)" using prune_inv(1) [OF assms] .
  show ?thesis
    using p join_inv [OF p] route_inv [OF p]
    by (auto simp: ledger_begin_def Let_def state_of_def not_le
        split: option.splits operation_state.splits)
qed

lemma map_of_map_entries: "map_of (map (\<lambda>(k, e). (k, f e)) xs) k = map_option f (map_of xs k)"
  by (induction xs) auto

lemma remove_waiters_inv:
  assumes "ledger_inv L"
  shows "ledger_inv (remove_waiters_for_client c L)" (is "ledger_inv ?M")
proof -
  have ok: "counters_ok L" "waiters_ok L" using assms by (auto simp: ledger_inv_def)
  have st: "state_of ?M k = map_option (drop_client c) (state_of L k)" for k
    by (simp add: state_of_def remove_waiters_for_client_def map_of_map_entries option.map_comp comp_def)
  have keys: "map fst (entries ?M) = map fst (entries L)"
    by (simp add: remove_waiters_for_client_def comp_def split_beta)
  have tot: "total f ?M = total f L" if "\<And>st. f (drop_client c st) = f st" for f :: "'a operation_state \<Rightarrow> nat"
    using that by (simp add: total_def remove_waiters_for_client_def comp_def split_beta)
  have "bytes_of (drop_client c s) = bytes_of s" "is_completed (drop_client c s) = is_completed s" for s :: "'a operation_state"
    by (cases s; simp add: drop_client_def)+
  then have "counters_ok ?M"
    using ok(1) tot [of bytes_of] tot [of "\<lambda>st. if is_completed st then 1 else 0"]
    by (auto simp: counters_ok_def keys st) (auto simp: remove_waiters_for_client_def)
  moreover have pend: "state_of ?M k = Some (OpPending us) \<longleftrightarrow>
      (\<exists>ws. state_of L k = Some (OpPending ws) \<and> us = filter (\<lambda>w. client_id w \<noteq> c) ws)" for k us
    unfolding st by (cases "state_of L k"; cases "the (state_of L k)") (auto simp: drop_client_def)
  have "waiters_ok ?M"
  proof -
    have r: "routed_requests ?M = routed_requests L" "limits ?M = limits L"
      "\<And>w. map_of (pending_requests ?M) w = (if client_id w \<noteq> c then map_of (pending_requests L) w else None)"
      by (simp_all add: remove_waiters_for_client_def map_of_filter_key)
    show ?thesis
    proof (rule waiters_okI, unfold r pend)
      fix x k
      show "map_of (routed_requests L) x = Some k \<Longrightarrow>
          \<exists>us ws. state_of L k = Some (OpPending ws) \<and> us = filter (\<lambda>w. client_id w \<noteq> c) ws"
        using waiters_routed [OF ok(2), of x k] by auto
      show "((if client_id x \<noteq> c then map_of (pending_requests L) x else None) = Some k) =
          (\<exists>us. (\<exists>ws. state_of L k = Some (OpPending ws) \<and> us = filter (\<lambda>w. client_id w \<noteq> c) ws) \<and> x \<in> set us)"
        using waiters_pending [OF ok(2), of x k] by auto
    next
      fix x x' k
      show "map_of (routed_requests L) x = Some k \<Longrightarrow> map_of (routed_requests L) x' = Some k \<Longrightarrow> x = x'"
        by (rule waiters_inj [OF ok(2)])
    next
      fix k us assume "\<exists>ws. state_of L k = Some (OpPending ws) \<and> us = filter (\<lambda>w. client_id w \<noteq> c) ws"
      then obtain ws where "state_of L k = Some (OpPending ws)" "us = filter (\<lambda>w. client_id w \<noteq> c) ws" by blast
      then show "distinct us \<and> length us \<le> max_waiters (limits L)"
        using waiters_len [OF ok(2), of k ws] by (auto intro: le_trans [OF length_filter_le])
    qed
  qed
  ultimately show ?thesis
    using assms keys by (simp add: ledger_inv_def) (simp add: remove_waiters_for_client_def)
qed

section \<open>Runs\<close>

definition known_keys :: "'r ledger \<Rightarrow> operation_key set" where
  "known_keys L = fst ` set (entries L)"

lemma known_keys_simps [simp]:
  "known_keys (set_state k st L) = known_keys L" "known_keys (L\<lparr>pending_requests := x\<rparr>) = known_keys L"
  "known_keys (L\<lparr>routed_requests := y\<rparr>) = known_keys L" "known_keys (L\<lparr>completed_responses := n\<rparr>) = known_keys L"
  "known_keys (L\<lparr>completed_bytes := n\<rparr>) = known_keys L"
  "known_keys (L\<lparr>entries := AList.update k e (entries L)\<rparr>) = insert k (known_keys L)"
  "known_keys (evict_loop m k L) = known_keys L"
  using evict_loop_frame [of m k L] by (simp_all add: known_keys_def AList.dom_update)

lemma known_keys_None: "map_of (entries L) k = None \<longleftrightarrow> k \<notin> known_keys L"
  by (simp add: known_keys_def map_of_eq_None_iff)

lemma known_keys_prune: "ledger_inv L \<Longrightarrow> known_keys (prune_expired now L) = known_keys L"
  by (simp add: known_keys_def prune_inv)


datatype 'r ledger_op =
    BeginOp nat "8 word list" string "8 word list" operation_waiter
  | CompleteOp nat operation_waiter "'r response_payload"
  | DisconnectOp u64

definition op_key :: "(string \<Rightarrow> 8 word list) \<Rightarrow> 8 word list \<Rightarrow> string \<Rightarrow> operation_key" where
  "op_key blake3 ns op_id = \<lparr>session_namespace = ns, operation_id_hash = blake3 op_id\<rparr>"

fun run_op ::
    "(string \<Rightarrow> 8 word list) \<Rightarrow> ('r response_payload \<Rightarrow> nat) \<Rightarrow> 'r ledger_op \<Rightarrow> 'r ledger \<Rightarrow> operation_key list \<times> 'r ledger" where
  "run_op blake3 size_of (BeginOp now ns op_id fp w) L =
     (case ledger_begin blake3 now ns op_id fp w L of
        (Route, L') \<Rightarrow> ([op_key blake3 ns op_id], L') | (_, L') \<Rightarrow> ([], L'))"
| "run_op blake3 size_of (CompleteOp now r resp) L = ([], snd (ledger_complete size_of now r resp L))"
| "run_op blake3 size_of (DisconnectOp c) L = ([], remove_waiters_for_client c L)"

text \<open>The keys whose requests are routed to their handlers, in order.\<close>

fun routed_keys ::
    "(string \<Rightarrow> 8 word list) \<Rightarrow> ('r response_payload \<Rightarrow> nat) \<Rightarrow> 'r ledger_op list \<Rightarrow> 'r ledger \<Rightarrow> operation_key list" where
  "routed_keys blake3 size_of [] L = []"
| "routed_keys blake3 size_of (oper # ops) L =
     (let (ks, L') = run_op blake3 size_of oper L in ks @ routed_keys blake3 size_of ops L')"

lemma run_op_inv: "ledger_inv L \<Longrightarrow> ledger_inv (snd (run_op blake3 size_of oper L))"
proof (cases oper)
  case (BeginOp now ns op_id fp w)
  assume "ledger_inv L"
  from begin_inv [OF this, of blake3 now ns op_id fp w] show ?thesis
    by (cases "ledger_begin blake3 now ns op_id fp w L") (auto simp: BeginOp split: begin_outcome.splits)
qed (simp_all add: complete_inv remove_waiters_inv)

lemma begin_entries:
  assumes "ledger_inv L" "ledger_begin blake3 now ns op_id fp w L = (out, L')"
  shows "known_keys L' = known_keys L \<union> (if out = Route then {op_key blake3 ns op_id} else {})
    \<and> (out = Route \<longrightarrow> op_key blake3 ns op_id \<notin> known_keys L)"
proof -
  have e: "known_keys (prune_expired now L) = known_keys L" by (rule known_keys_prune [OF assms(1)])
  show ?thesis
    using assms(2) known_keys_None [of "prune_expired now L" "op_key blake3 ns op_id"]
    unfolding ledger_begin_def Let_def op_key_def [symmetric] e
    by (auto simp: e split: option.splits if_splits operation_state.splits)
qed

lemma complete_entries:
  "known_keys (snd (ledger_complete size_of now r resp L)) = known_keys L"
  by (auto simp: ledger_complete_def Let_def split: option.splits operation_state.splits)

lemma run_op_entries:
  assumes "ledger_inv L" "run_op blake3 size_of oper L = (ks, L')"
  shows "known_keys L' = known_keys L \<union> set ks \<and> set ks \<inter> known_keys L = {} \<and> distinct ks"
proof (cases oper)
  case (BeginOp now ns op_id fp w)
  obtain out L1 where b: "ledger_begin blake3 now ns op_id fp w L = (out, L1)"
    by (cases "ledger_begin blake3 now ns op_id fp w L")
  have "ks = (if out = Route then [op_key blake3 ns op_id] else [])" "L' = L1"
    using assms(2) b by (cases out; simp add: BeginOp)+
  then show ?thesis using begin_entries [OF assms(1) b] by simp
next
  case (CompleteOp now r resp)
  then show ?thesis using assms(2) complete_entries [of size_of now r resp L] by auto
next
  case (DisconnectOp c)
  have "map fst (entries (remove_waiters_for_client c L)) = map fst (entries L)"
    by (simp add: remove_waiters_for_client_def comp_def split_beta)
  then have "known_keys (remove_waiters_for_client c L) = known_keys L"
    unfolding known_keys_def by (metis list.set_map)
  then show ?thesis using assms(2) DisconnectOp by auto
qed

lemma routed_keys_distinct:
  "ledger_inv L \<Longrightarrow> distinct (routed_keys blake3 size_of ops L)
     \<and> set (routed_keys blake3 size_of ops L) \<inter> known_keys L = {}"
proof (induction ops arbitrary: L)
  case (Cons oper ops)
  obtain ks L' where r: "run_op blake3 size_of oper L = (ks, L')" by (cases "run_op blake3 size_of oper L")
  have "ledger_inv L'" using run_op_inv [OF Cons.prems, of blake3 size_of oper] r by simp
  from Cons.IH [OF this] run_op_entries [OF Cons.prems r] show ?case by (auto simp: r)
qed simp

inductive ledger_step ::
    "(string \<Rightarrow> 8 word list) \<Rightarrow> ('r response_payload \<Rightarrow> nat) \<Rightarrow> 'r ledger \<Rightarrow> 'r ledger \<Rightarrow> bool" for blake3 size_of where
  "run_op blake3 size_of oper L = (ks, L') \<Longrightarrow> ledger_step blake3 size_of L L'"

inductive_simps ledger_step_iff: "ledger_step blake3 size_of L L'"

interpretation ledger_runs: invariant_machine "\<lambda>L. L = ledger_new default_limits" "ledger_step blake3 size_of" ledger_inv
  for blake3 size_of
proof
  show "L = ledger_new default_limits \<Longrightarrow> ledger_inv L" for L
    by (simp add: ledger_inv_new default_limits_ok)
  show "ledger_inv L \<Longrightarrow> ledger_step blake3 size_of L L' \<Longrightarrow> ledger_inv L'" for L L'
    using run_op_inv [of L blake3 size_of] by (metis ledger_step_iff snd_conv)
qed

lemma expire_other: "k \<noteq> j \<Longrightarrow> state_of (expire_completed j L) k = state_of L k"
  by (cases rule: expire_completed_cases [of j L]) auto

lemma expire_entry:
  "map_option oe_fingerprint (map_of (entries (expire_completed j L)) k) = map_option oe_fingerprint (map_of (entries L) k)"
  by (auto simp: expire_completed_def set_state_def AList.update_conv' split: option.splits operation_state.splits)

lemma prune_keeps:
  assumes "keys_ok L" "state_of L k = Some (OpCompleted r t b)" "now - t < completed_ttl (limits L)"
  shows "state_of (prune_expired now L) k = state_of L k"
    and "map_option oe_fingerprint (map_of (entries (prune_expired now L)) k) = map_option oe_fingerprint (map_of (entries L) k)"
proof -
  have "k \<notin> set (expired_keys now L)"
  proof
    obtain e where e: "map_of (entries L) k = Some e" "oe_state e = OpCompleted r t b"
      using assms(2) by (auto simp: state_of_def)
    assume "k \<in> set (expired_keys now L)"
    then obtain e' where e': "(k, e') \<in> set (entries L)"
        "case oe_state e' of OpCompleted _ c _ \<Rightarrow> completed_ttl (limits L) \<le> now - c | _ \<Rightarrow> False"
      by (auto simp: expired_keys_def)
    have "map_of (entries L) k = Some e'" using e'(1) assms(1) by simp
    then show False using e e'(2) assms(3) by simp
  qed
  moreover have "k \<notin> set ks \<Longrightarrow> state_of (foldl (\<lambda>L k. expire_completed k L) M ks) k = state_of M k" for ks and M :: "'a ledger"
    by (induction ks arbitrary: M) (auto simp: expire_other)
  ultimately show "state_of (prune_expired now L) k = state_of L k" by (simp add: prune_expired_def)
  have "map_option oe_fingerprint (map_of (entries (foldl (\<lambda>L k. expire_completed k L) M ks)) k)
      = map_option oe_fingerprint (map_of (entries M) k)" for ks and M :: "'a ledger"
    by (induction ks arbitrary: M) (auto simp: expire_entry)
  then show "map_option oe_fingerprint (map_of (entries (prune_expired now L)) k) = map_option oe_fingerprint (map_of (entries L) k)"
    by (simp add: prune_expired_def)
qed

lemma prune_pending: "pending_requests (prune_expired now L) = pending_requests L"
proof -
  have "pending_requests (foldl (\<lambda>L k. expire_completed k L) M ks) = pending_requests M" for ks and M :: "'a ledger"
    by (induction ks arbitrary: M) auto
  then show ?thesis by (simp add: prune_expired_def)
qed

section \<open>Properties\<close>

text \<open>
  C2.  At most once: over the whole lifetime of a ledger, whatever the order of requests, retries,
  completions, expiries, evictions and disconnects, no operation key is routed to its handler
  twice.
\<close>

theorem operation_routed_at_most_once:
  "distinct (routed_keys blake3 size_of ops (ledger_new default_limits))"
  using routed_keys_distinct [OF ledger_inv_new [OF default_limits_ok], of blake3 size_of ops]
  by blast



text \<open>
   Replay: while the response of a completed operation is cached and has not outlived its
  time to live, a retry with the same session, operation id and payload gets exactly that response
  and changes nothing about the operation; with a different payload it is refused; and after the
  response has been dropped the retry is refused too, never executed again.
\<close>

theorem retry_replays_response:
  assumes "keys_ok L" and "invalid_operation_id op_id = None" and "map_of (pending_requests L) w = None"
    and "map_of (entries L) (op_key blake3 ns op_id) = Some e" and "oe_state e = OpCompleted resp t b"
    and "now - t < completed_ttl (limits L)"
  shows "(case ledger_begin blake3 now ns op_id (oe_fingerprint e) w L of
      (out, L') \<Rightarrow> out = Respond resp \<and> state_of L' (op_key blake3 ns op_id) = Some (OpCompleted resp t b))
    \<and> (fp \<noteq> oe_fingerprint e \<longrightarrow> (\<exists>c m. fst (ledger_begin blake3 now ns op_id fp w L) = Respond (RespErr c m)))
    \<and> (case ledger_begin blake3 now ns op_id (oe_fingerprint e) w (set_state (op_key blake3 ns op_id) Tombstone L) of
         (out, _) \<Rightarrow> \<exists>c m. out = Respond (RespErr c m))"
proof -
  let ?k = "op_key blake3 ns op_id" and ?P = "prune_expired now L"
  have st: "state_of L ?k = Some (OpCompleted resp t b)" using assms(4,5) by (simp add: state_of_def)
  note pk = prune_keeps [OF assms(1) st assms(6)]
  obtain e' where e': "map_of (entries ?P) ?k = Some e'" "oe_state e' = OpCompleted resp t b" "oe_fingerprint e' = oe_fingerprint e"
    using pk st assms(4) by (auto simp: state_of_def)
  have pend: "map_of (pending_requests ?P) w = None" by (simp add: prune_pending assms(3))
  have one: "ledger_begin blake3 now ns op_id (oe_fingerprint e) w L = (Respond resp, ?P)"
    using assms(2) e' pend by (simp add: ledger_begin_def Let_def op_key_def)
  have two: "fp \<noteq> oe_fingerprint e \<Longrightarrow> \<exists>c m. fst (ledger_begin blake3 now ns op_id fp w L) = Respond (RespErr c m)"
    using assms(2) e' by (simp add: ledger_begin_def Let_def op_key_def)
  let ?T = "set_state ?k Tombstone L"
  have noexp: "state_of M ?k = Some Tombstone \<Longrightarrow> state_of (foldl (\<lambda>L k. expire_completed k L) M ks) ?k = Some Tombstone" for ks and M :: "'a ledger"
  proof (induction ks arbitrary: M)
    case (Cons j ks)
    have "state_of (expire_completed j M) ?k = Some Tombstone"
      using Cons.prems by (cases rule: expire_completed_cases [of j M]) auto
    then show ?case using Cons.IH by simp
  qed simp
  have "state_of (prune_expired now ?T) ?k = Some Tombstone"
    unfolding prune_expired_def by (rule noexp) (simp add: st)
  moreover have "map_option oe_fingerprint (map_of (entries (prune_expired now ?T)) ?k) = Some (oe_fingerprint e)"
  proof -
    have "map_option oe_fingerprint (map_of (entries (foldl (\<lambda>L k. expire_completed k L) M ks)) ?k)
        = map_option oe_fingerprint (map_of (entries M) ?k)" for ks and M :: "'a ledger"
      by (induction ks arbitrary: M) (auto simp: expire_entry)
    then show ?thesis using assms(4) by (simp add: prune_expired_def set_state_def AList.update_conv')
  qed
  ultimately obtain e2 where "map_of (entries (prune_expired now ?T)) ?k = Some e2" "oe_state e2 = Tombstone" "oe_fingerprint e2 = oe_fingerprint e"
    by (auto simp: state_of_def)
  moreover have "map_of (pending_requests (prune_expired now ?T)) w = None" by (simp add: prune_pending assms(3))
  ultimately have "\<exists>c m. fst (ledger_begin blake3 now ns op_id (oe_fingerprint e) w ?T) = Respond (RespErr c m)"
    using assms(2) by (simp add: ledger_begin_def Let_def op_key_def)
  with one two st pk(1) show ?thesis by (simp add: split_beta)
qed

theorem retry_replays_response_witness:
  "\<exists>L :: unit ledger. fst (ledger_begin (\<lambda>_. []) 5 [] ''op'' [] \<lparr>client_id = 1, request_id = 2\<rparr> L) = Respond (RespOther ())"
proof -
  define L :: "unit ledger" where "L = (ledger_new default_limits)
    \<lparr>entries := [(op_key (\<lambda>_. []) [] ''op'', \<lparr>oe_fingerprint = [], oe_state = OpCompleted (RespOther ()) 0 1\<rparr>)]\<rparr>"
  have v: "invalid_operation_id ''op'' = None"
    by (simp add: invalid_operation_id_def MAX_OPERATION_ID_BYTES_def is_control_def trim_word word_ok_def is_whitespace_def)
  have "case ledger_begin (\<lambda>_. []) 5 [] ''op'' [] \<lparr>client_id = 1, request_id = 2\<rparr> L of (out, L') \<Rightarrow> out = Respond (RespOther ())"
    using retry_replays_response [of L "''op''" "\<lparr>client_id = 1, request_id = 2\<rparr>" "\<lambda>_. []" "[]"
        "\<lparr>oe_fingerprint = [], oe_state = OpCompleted (RespOther ()) 0 1\<rparr>" "RespOther ()" 0 1 5 "[]"] v
    by (auto simp: L_def ledger_new_def default_limits_def)
  then show ?thesis by (intro exI [of _ L]) (simp add: split_beta)
qed

text \<open>
  Fan-out: completing the routed request of a pending operation returns exactly the requests
  that are registered as waiting for it, each once, none of them is waiting afterwards, and
  completing the same request a second time does nothing.
\<close>

theorem completion_fans_out:
  assumes "ledger_inv L" and "map_of (routed_requests L) r = Some k"
  shows "\<exists>ws L'. ledger_complete size_of now r resp L = (Some \<lparr>co_waiters = ws, co_response = resp\<rparr>, L')
    \<and> distinct ws \<and> set ws = {w. map_of (pending_requests L) w = Some k}
    \<and> (\<forall>w. map_of (pending_requests L') w = (if w \<in> set ws then None else map_of (pending_requests L) w))
    \<and> fst (ledger_complete size_of now' r resp' L') = None"
proof -
  have ok: "waiters_ok L" using assms(1) by (simp add: ledger_inv_def)
  obtain ws where ws: "state_of L k = Some (OpPending ws)" using waiters_routed [OF ok assms(2)] by blast
  then obtain e where e: "map_of (entries L) k = Some e" "oe_state e = OpPending ws" by (auto simp: state_of_def)
  have mem: "set ws = {w. map_of (pending_requests L) w = Some k}" using waiters_pending [OF ok, of _ k] ws by auto
  define L' where "L' = snd (ledger_complete size_of now r resp L)"
  have ev: "routed_requests (evict_loop n j M) = routed_requests M" "pending_requests (evict_loop n j M) = pending_requests M"
    for n j and M :: "'a ledger" using evict_loop_frame by blast+
  have c: "ledger_complete size_of now r resp L = (Some \<lparr>co_waiters = ws, co_response = resp\<rparr>, L')"
    and r: "routed_requests L' = AList.delete r (routed_requests L)"
    and p: "pending_requests L' = foldl (\<lambda>p w. AList.delete w p) (pending_requests L) ws"
    unfolding L'_def using assms(2) e
    by (cases "max_response_bytes (limits L) < size_of resp"; simp add: ledger_complete_def Let_def ev)+
  have "map_of (routed_requests L') r = None" by (simp add: r AList.delete_conv')
  then have "fst (ledger_complete size_of now' r resp' L') = None" by (simp add: ledger_complete_def)
  then show ?thesis
    using c mem waiters_len [OF ok ws] by (simp add: p map_of_foldl_delete)
qed

theorem completion_fans_out_witness:
  "\<exists>(L :: unit ledger) ws L'. ledger_complete (\<lambda>_. 1) 0 \<lparr>client_id = 1, request_id = 2\<rparr> (RespOther ()) L
     = (Some \<lparr>co_waiters = ws, co_response = RespOther ()\<rparr>, L')"
proof -
  define w :: operation_waiter where "w = \<lparr>client_id = 1, request_id = 2\<rparr>"
  define L :: "unit ledger" where "L = snd (ledger_begin (\<lambda>_. []) 0 [] ''op'' [] w (ledger_new default_limits))"
  have inv: "ledger_inv L" unfolding L_def by (intro begin_inv ledger_inv_new default_limits_ok)
  have v: "invalid_operation_id ''op'' = None"
    by (simp add: invalid_operation_id_def MAX_OPERATION_ID_BYTES_def is_control_def trim_word word_ok_def is_whitespace_def)
  have "map_of (routed_requests L) w = Some (op_key (\<lambda>_. []) [] ''op'')"
    by (simp add: L_def ledger_begin_def v Let_def ledger_new_def prune_expired_def expired_keys_def op_key_def default_limits_def)
  from completion_fans_out [OF inv this, of "\<lambda>_. 1" 0 "RespOther ()"] show ?thesis
    unfolding w_def by blast
qed

end
