(* ===== verification/Tokenizer.thy ===== *)
theory Tokenizer
  imports Prelude
begin

text \<open>
  The tokenizer (\<^verbatim>\<open>crates/cue-daemon/src/parser/token.rs\<close> and \<^verbatim>\<open>tokenizer.rs\<close>).  The input is
  its list of UTF-8 bytes and positions are byte offsets.  An operation that may fail returns the
  error alone, because the source drops the tokenizer on the first error.
\<close>

section \<open>Tokens\<close>

datatype id_kind = KJob | KCron
datatype tok_value = VStr string | VBool bool

datatype token =
    Colon | CommandT string
  | ModeParenOpen | ModeParenClose | ParamEq | ParamValueT tok_value | Comma
  | SerialThen | SerialAlways | ParallelAll | ParallelRace | JobAnd | JobOr
  | PipeStdout | PipeAll | PipeStderr
  | GroupOpen | GroupClose
  | WordT string | IdRefT id_kind u32
  | WhitespaceT string | Newline | Eof

record span =
  sp_start :: nat
  sp_end :: nat

record spanned =
  tok :: token
  sp :: span

fun show_id_kind :: "id_kind \<Rightarrow> string" where
  "show_id_kind KJob = ''J''"
| "show_id_kind KCron = ''C''"

fun debug_value :: "tok_value \<Rightarrow> string" where
  "debug_value (VStr s) = ''Str('' @ debug_str s @ '')''"
| "debug_value (VBool b) = ''Bool('' @ (if b then ''true'' else ''false'') @ '')''"

fun show_token :: "token \<Rightarrow> string" where
  "show_token Colon = '':''"
| "show_token (CommandT s) = s"
| "show_token ModeParenOpen = ''(''"
| "show_token GroupOpen = ''(''"
| "show_token ModeParenClose = '')''"
| "show_token GroupClose = '')''"
| "show_token ParamEq = ''=''"
| "show_token (ParamValueT v) = debug_value v"
| "show_token Comma = '',''"
| "show_token SerialThen = ''->''"
| "show_token SerialAlways = ''~>''"
| "show_token ParallelAll = ''|||''"
| "show_token ParallelRace = ''|?|''"
| "show_token JobAnd = ''&&''"
| "show_token JobOr = ''||''"
| "show_token PipeStdout = ''|>''"
| "show_token PipeAll = ''|&>''"
| "show_token PipeStderr = ''|!>''"
| "show_token (WordT s) = s"
| "show_token (IdRefT k n) = show_id_kind k @ show_u32 n"
| "show_token (WhitespaceT s) = s"
| "show_token Newline = [backslash_char, CHR ''n'']"
| "show_token Eof = ''<EOF>''"

fun operator_text :: "token \<Rightarrow> string" where
  "operator_text SerialThen = ''->''"
| "operator_text SerialAlways = ''~>''"
| "operator_text ParallelAll = ''|||''"
| "operator_text ParallelRace = ''|?|''"
| "operator_text JobAnd = ''&&''"
| "operator_text JobOr = ''||''"
| "operator_text PipeStdout = ''|>''"
| "operator_text PipeAll = ''|&>''"
| "operator_text PipeStderr = ''|!>''"
| "operator_text _ = []"

section \<open>State\<close>

datatype operator_boundary = AnyBoundary | WhitespaceRequired
datatype token_class = CommandClass | OtherClass

record tokenize_error =
  te_pos :: nat
  te_message :: string

record tokenizer =
  tk_bytes :: string
  tk_pos :: nat
  tk_last :: "token_class option"
  tk_mode :: bool

definition tokenizer_new :: "string \<Rightarrow> tokenizer" where
  "tokenizer_new s = \<lparr>tk_bytes = s, tk_pos = 0, tk_last = None, tk_mode = False\<rparr>"

definition peek_at :: "tokenizer \<Rightarrow> nat \<Rightarrow> char option" where
  "peek_at t k = nth_opt (tk_bytes t) (tk_pos t + k)"

text \<open>The position a \<^verbatim>\<open>while\<close> loop over the bytes that satisfy \<open>P\<close> stops at.\<close>

definition skip_while :: "(char \<Rightarrow> bool) \<Rightarrow> string \<Rightarrow> nat \<Rightarrow> nat" where
  "skip_while P bs p = p + length (takeWhile P (drop p bs))"

definition is_ident_char :: "char \<Rightarrow> bool" where
  "is_ident_char c \<longleftrightarrow> is_ascii_alphanumeric c \<or> c = CHR ''_''"

definition is_blank :: "char \<Rightarrow> bool" where
  "is_blank c \<longleftrightarrow> c = CHR '' '' \<or> c = tab_char"

definition is_delimiter :: "char \<Rightarrow> bool" where
  "is_delimiter c \<longleftrightarrow>
     c \<in> {CHR '' '', tab_char, newline_char, CHR ''('', CHR '')'', CHR ''|'', quote_char}"

definition is_boundary_char :: "char \<Rightarrow> bool" where
  "is_boundary_char c \<longleftrightarrow> c \<in> {CHR '' '', tab_char, newline_char, return_char}"

definition is_operator_boundary_before :: "string \<Rightarrow> nat \<Rightarrow> bool" where
  "is_operator_boundary_before bs start \<longleftrightarrow> start = 0 \<or> is_boundary_char (bs ! (start - 1))"

definition is_operator_boundary_after :: "string \<Rightarrow> nat \<Rightarrow> bool" where
  "is_operator_boundary_after bs e \<longleftrightarrow> length bs \<le> e \<or> is_boundary_char (bs ! e)"

definition operator_has_required_whitespace :: "string \<Rightarrow> nat \<Rightarrow> nat \<Rightarrow> bool" where
  "operator_has_required_whitespace bs start len \<longleftrightarrow>
     is_operator_boundary_before bs start \<and> is_operator_boundary_after bs (start + len)"

definition missing_operator_whitespace_error :: "string \<Rightarrow> nat \<Rightarrow> string \<Rightarrow> nat \<Rightarrow> tokenize_error" where
  "missing_operator_whitespace_error bs start operator len =
     \<lparr>te_pos = start,
      te_message = ''cue chain operator `'' @ operator
        @ ''` must be surrounded by whitespace; quote it to pass it as an argument (saw `''
        @ slice bs start (min (start + len) (length bs)) @ ''`)''\<rparr>"

definition starts_with_operator :: "string \<Rightarrow> nat \<Rightarrow> (token \<times> operator_boundary) option" where
  "starts_with_operator bs p =
     (let tail = drop p bs
      in if length tail < 2 then None
         else if starts_with tail ''|&>'' then Some (PipeAll, AnyBoundary)
         else if starts_with tail ''|!>'' then Some (PipeStderr, AnyBoundary)
         else if starts_with tail ''|||'' then Some (ParallelAll, WhitespaceRequired)
         else if starts_with tail ''|?|'' then Some (ParallelRace, WhitespaceRequired)
         else if starts_with tail ''->'' then Some (SerialThen, WhitespaceRequired)
         else if starts_with tail ''~>'' then Some (SerialAlways, WhitespaceRequired)
         else if starts_with tail ''|>'' then Some (PipeStdout, AnyBoundary)
         else if starts_with tail ''&&'' then Some (JobAnd, AnyBoundary)
         else if starts_with tail ''||'' then Some (JobOr, AnyBoundary)
         else None)"

definition operator_len :: "string \<Rightarrow> nat \<Rightarrow> nat" where
  "operator_len bs p =
     (case find (starts_with (drop p bs))
             [''|&>'', ''|!>'', ''|||'', ''|?|'', ''->'', ''~>'', ''|>'', ''&&'', ''||''] of
        Some op \<Rightarrow> length op | None \<Rightarrow> 0)"

definition try_parse_value :: "string \<Rightarrow> tok_value option" where
  "try_parse_value s =
     (if s = ''true'' then Some (VBool True)
      else if s = ''false'' then Some (VBool False) else None)"

section \<open>UTF-8\<close>

text \<open>
  \<^verbatim>\<open>String::from_utf8\<close> accepts the well-formed UTF-8 byte strings, which are the language of this
  automaton: \<open>Q0\<close> between characters, \<open>Q1\<close>, \<open>Q2\<close> and \<open>Q3\<close> with that many continuation bytes to
  come, and the states after the lead bytes that restrict the next byte.
\<close>

datatype utf8_state = Q0 | Q1 | Q2 | Q3 | QE0 | QED | QF0 | QF4 | QBad

fun utf8_step :: "utf8_state \<Rightarrow> char \<Rightarrow> utf8_state" where
  "utf8_step Q0 c =
     (if byte c < 128 then Q0
      else if 194 \<le> byte c \<and> byte c \<le> 223 then Q1
      else if byte c = 224 then QE0
      else if byte c = 237 then QED
      else if 225 \<le> byte c \<and> byte c \<le> 239 then Q2
      else if byte c = 240 then QF0
      else if byte c = 244 then QF4
      else if 241 \<le> byte c \<and> byte c \<le> 243 then Q3
      else QBad)"
| "utf8_step Q1 c = (if 128 \<le> byte c \<and> byte c \<le> 191 then Q0 else QBad)"
| "utf8_step Q2 c = (if 128 \<le> byte c \<and> byte c \<le> 191 then Q1 else QBad)"
| "utf8_step Q3 c = (if 128 \<le> byte c \<and> byte c \<le> 191 then Q2 else QBad)"
| "utf8_step QE0 c = (if 160 \<le> byte c \<and> byte c \<le> 191 then Q1 else QBad)"
| "utf8_step QED c = (if 128 \<le> byte c \<and> byte c \<le> 159 then Q1 else QBad)"
| "utf8_step QF0 c = (if 144 \<le> byte c \<and> byte c \<le> 191 then Q2 else QBad)"
| "utf8_step QF4 c = (if 128 \<le> byte c \<and> byte c \<le> 143 then Q2 else QBad)"
| "utf8_step QBad c = QBad"

definition utf8_run :: "utf8_state \<Rightarrow> string \<Rightarrow> utf8_state" where
  "utf8_run = foldl utf8_step"

definition utf8_ok :: "string \<Rightarrow> bool" where
  "utf8_ok s \<longleftrightarrow> utf8_run Q0 s = Q0"

section \<open>Quoted strings\<close>

text \<open>
  The two loops over a quoted string, from the bytes after position \<open>p\<close>; the result is the
  collected text and the position after the closing quote.
\<close>

fun quoted_loop :: "nat \<Rightarrow> nat \<Rightarrow> string \<Rightarrow> string \<Rightarrow> (tokenize_error, string \<times> nat) result" where
  "quoted_loop start p acc [] = Inl \<lparr>te_pos = start, te_message = ''unterminated string''\<rparr>"
| "quoted_loop start p acc (c # rest) =
     (if c = quote_char then Inr (acc, p + 1)
      else if c = backslash_char then
        (case rest of
           [] \<Rightarrow> Inl \<lparr>te_pos = p + 1, te_message = ''unterminated escape''\<rparr>
         | d # rest' \<Rightarrow>
             quoted_loop start (p + 2)
               (acc @ (if d = quote_char then [quote_char]
                       else if d = backslash_char then [backslash_char]
                       else if d = CHR ''n'' then [newline_char]
                       else if d = CHR ''t'' then [tab_char]
                       else [backslash_char, d])) rest')
      else quoted_loop start (p + 1) (acc @ [c]) rest)"

fun single_quoted_loop :: "nat \<Rightarrow> nat \<Rightarrow> string \<Rightarrow> string \<Rightarrow> (tokenize_error, string \<times> nat) result" where
  "single_quoted_loop start p acc [] =
     Inl \<lparr>te_pos = start, te_message = ''unterminated single-quoted string''\<rparr>"
| "single_quoted_loop start p acc (c # rest) =
     (if c = squote_char then Inr (acc, p + 1)
      else single_quoted_loop start (p + 1) (acc @ [c]) rest)"

abbreviation other_at :: "nat \<Rightarrow> tokenizer \<Rightarrow> tokenizer" where
  "other_at p t \<equiv> t\<lparr>tk_pos := p, tk_last := Some OtherClass\<rparr>"

definition tokenize_quoted_string :: "tokenizer \<Rightarrow> (tokenize_error, token \<times> tokenizer) result" where
  "tokenize_quoted_string t =
     and_then (quoted_loop (tk_pos t) (tk_pos t + 1) [] (drop (tk_pos t + 1) (tk_bytes t))) (\<lambda>(s, p).
       if utf8_ok s then Inr (WordT s, other_at p t)
       else Inl \<lparr>te_pos = tk_pos t, te_message = ''invalid UTF-8 in string''\<rparr>)"

definition tokenize_single_quoted_string :: "tokenizer \<Rightarrow> (tokenize_error, token \<times> tokenizer) result" where
  "tokenize_single_quoted_string t =
     and_then (single_quoted_loop (tk_pos t) (tk_pos t + 1) [] (drop (tk_pos t + 1) (tk_bytes t))) (\<lambda>(s, p).
       if utf8_ok s then Inr (WordT s, other_at p t)
       else Inl \<lparr>te_pos = tk_pos t, te_message = ''invalid UTF-8 in single-quoted string''\<rparr>)"

section \<open>Operators and words\<close>

definition tokenize_pipe_or_parallel :: "tokenizer \<Rightarrow> (tokenize_error, token \<times> tokenizer) result" where
  "tokenize_pipe_or_parallel t =
     (let start = tk_pos t; bs = tk_bytes t; c1 = peek_at t 1; c2 = peek_at t 2
      in if c1 = Some CHR ''>'' then Inr (PipeStdout, other_at (start + 2) t)
         else if c1 = Some CHR ''&'' \<and> c2 = Some CHR ''>'' then Inr (PipeAll, other_at (start + 3) t)
         else if c1 = Some CHR ''!'' \<and> c2 = Some CHR ''>'' then Inr (PipeStderr, other_at (start + 3) t)
         else if c1 = Some CHR ''|'' \<and> c2 = Some CHR ''|'' then
           (if operator_has_required_whitespace bs start 3 then Inr (ParallelAll, other_at (start + 3) t)
            else Inl (missing_operator_whitespace_error bs start ''|||'' 3))
         else if c1 = Some CHR ''?'' \<and> c2 = Some CHR ''|'' then
           (if operator_has_required_whitespace bs start 3 then Inr (ParallelRace, other_at (start + 3) t)
            else Inl (missing_operator_whitespace_error bs start ''|?|'' 3))
         else if c1 = Some CHR ''|'' then Inr (JobOr, other_at (start + 2) t)
         else Inl \<lparr>te_pos = start,
                   te_message = ''bare `|` is not a cue-shell pipe operator; use `|>` for stdout pipes, `|&>` for stdout+stderr, or quote `|` to pass it as an argument''\<rparr>)"

definition try_id_kind :: "tokenizer \<Rightarrow> id_kind option" where
  "try_id_kind t =
     (let digit_next = (case peek_at t 1 of Some b \<Rightarrow> is_ascii_digit b | None \<Rightarrow> False)
      in if peek_at t 0 = Some CHR ''J'' \<and> digit_next then Some KJob
         else if peek_at t 0 = Some CHR ''C'' \<and> digit_next then Some KCron
         else None)"

text \<open>An id reference at the current position, with the position after it.\<close>

definition try_id_ref :: "tokenizer \<Rightarrow> (token \<times> nat) option" where
  "try_id_ref t =
     (case try_id_kind t of
        None \<Rightarrow> None
      | Some kind \<Rightarrow>
          let num_start = tk_pos t + 1;
              p = skip_while is_ascii_digit (tk_bytes t) num_start
          in if num_start < p \<and> (case nth_opt (tk_bytes t) p of Some b \<Rightarrow> \<not> is_ident_char b | None \<Rightarrow> True)
             then map_option (\<lambda>n. (IdRefT kind n, p)) (parse_u32 (slice (tk_bytes t) num_start p))
             else None)"

text \<open>The loop of a regular word, from position \<open>p\<close>.\<close>

function word_loop :: "string \<Rightarrow> bool \<Rightarrow> nat \<Rightarrow> (tokenize_error, nat) result" where
  "word_loop bs in_mode p =
     (if p < length bs \<and> \<not> is_delimiter (bs ! p)
         \<and> \<not> (in_mode \<and> (bs ! p = CHR ''='' \<or> bs ! p = CHR '',''))
      then (case starts_with_operator bs p of
              Some (op, boundary) \<Rightarrow>
                if boundary = WhitespaceRequired
                   \<and> \<not> operator_has_required_whitespace bs p (operator_len bs p)
                then Inl (missing_operator_whitespace_error bs p (operator_text op) (length (operator_text op)))
                else Inr p
            | None \<Rightarrow> word_loop bs in_mode (p + 1))
      else Inr p)"
  by pat_completeness auto
termination by (relation "measure (\<lambda>(bs, m, p). length bs - p)") auto

declare word_loop.simps [simp del]

definition tokenize_word :: "tokenizer \<Rightarrow> (tokenize_error, token \<times> tokenizer) result" where
  "tokenize_word t =
     (let start = tk_pos t; bs = tk_bytes t; c = bs ! start
      in case try_id_ref t of
           Some (token, p) \<Rightarrow> Inr (token, other_at p t)
         | None \<Rightarrow>
             if tk_mode t \<and> c = CHR ''='' then Inr (ParamEq, other_at (start + 1) t)
             else if tk_mode t \<and> c = CHR '','' then Inr (Comma, other_at (start + 1) t)
             else if c = quote_char then tokenize_quoted_string t
             else if c = squote_char then tokenize_single_quoted_string t
             else
               and_then (word_loop bs (tk_mode t) start) (\<lambda>p.
                 if p = start
                 then Inl \<lparr>te_pos = start, te_message = ''unexpected character '' @ [squote_char]
                                             @ slice bs start (start + 1) @ [squote_char]\<rparr>
                 else
                   let text = slice bs start p
                   in Inr (case (if tk_mode t then try_parse_value text else None) of
                             Some v \<Rightarrow> (ParamValueT v, other_at p t)
                           | None \<Rightarrow> (WordT text, other_at p t))))"

section \<open>One token\<close>

abbreviation spanned_at :: "token \<Rightarrow> nat \<Rightarrow> nat \<Rightarrow> spanned" where
  "spanned_at k a b \<equiv> \<lparr>tok = k, sp = \<lparr>sp_start = a, sp_end = b\<rparr>\<rparr>"

text \<open>The part of \<^verbatim>\<open>next_token\<close> after the newline and blank cases.\<close>

definition significant_token :: "tokenizer \<Rightarrow> (tokenize_error, token \<times> tokenizer) result" where
  "significant_token t =
     (let start = tk_pos t; bs = tk_bytes t; b = bs ! start; c1 = peek_at t 1
      in if b = CHR '':'' \<and> (start = 0 \<or> tk_last t = None) then
           (let p = skip_while is_ident_char bs (start + 1)
            in if start + 1 < p
               then Inr (CommandT (slice bs (start + 1) p), t\<lparr>tk_pos := p, tk_last := Some CommandClass\<rparr>)
               else Inr (Colon, other_at p t))
         else if b = CHR ''('' then
           (if tk_last t = Some CommandClass
            then Inr (ModeParenOpen, (other_at (start + 1) t)\<lparr>tk_mode := True\<rparr>)
            else Inr (GroupOpen, other_at (start + 1) t))
         else if b = CHR '')'' then
           (if tk_mode t then Inr (ModeParenClose, (other_at (start + 1) t)\<lparr>tk_mode := False\<rparr>)
            else Inr (GroupClose, other_at (start + 1) t))
         else if b = CHR ''-'' \<and> c1 = Some CHR ''>'' then
           (if operator_has_required_whitespace bs start 2 then Inr (SerialThen, other_at (start + 2) t)
            else Inl (missing_operator_whitespace_error bs start ''->'' 2))
         else if b = CHR ''~'' \<and> c1 = Some CHR ''>'' then
           (if operator_has_required_whitespace bs start 2 then Inr (SerialAlways, other_at (start + 2) t)
            else Inl (missing_operator_whitespace_error bs start ''~>'' 2))
         else if b = CHR ''&'' \<and> c1 = Some CHR ''&'' then Inr (JobAnd, other_at (start + 2) t)
         else if b = CHR ''|'' then tokenize_pipe_or_parallel t
         else tokenize_word t)"

definition next_token :: "tokenizer \<Rightarrow> (tokenize_error, spanned \<times> tokenizer) result" where
  "next_token t =
     (let start = tk_pos t; bs = tk_bytes t
      in if length bs \<le> start then Inr (spanned_at Eof start start, t)
         else if bs ! start = newline_char
         then Inr (spanned_at Newline start (start + 1), t\<lparr>tk_pos := start + 1, tk_last := None\<rparr>)
         else if bs ! start = return_char \<and> peek_at t 1 = Some newline_char
         then Inr (spanned_at Newline start (start + 2), t\<lparr>tk_pos := start + 2, tk_last := None\<rparr>)
         else if is_blank (bs ! start)
         then (let p = skip_while is_blank bs (start + 1)
               in Inr (spanned_at (WhitespaceT (slice bs start p)) start p, t\<lparr>tk_pos := p\<rparr>))
         else and_then (significant_token t) (\<lambda>(k, t'). Inr (spanned_at k start (tk_pos t'), t')))"

section \<open>What a token covers\<close>

fun unescape :: "string \<Rightarrow> string" where
  "unescape [] = []"
| "unescape (c # rest) =
     (if c = backslash_char then
        (case rest of
           [] \<Rightarrow> [c]
         | d # rest' \<Rightarrow>
             (if d = quote_char then [quote_char]
              else if d = backslash_char then [backslash_char]
              else if d = CHR ''n'' then [newline_char]
              else if d = CHR ''t'' then [tab_char]
              else [backslash_char, d]) @ unescape rest')
      else c # unescape rest)"

text \<open>The bytes \<open>x\<close> of the input are a spelling of the token.\<close>

fun spells :: "string \<Rightarrow> token \<Rightarrow> bool" where
  "spells x (CommandT c) \<longleftrightarrow> x = CHR '':'' # c \<and> c \<noteq> [] \<and> list_all is_ident_char c"
| "spells x (WordT w) \<longleftrightarrow>
     x = w \<or> x = squote_char # w @ [squote_char]
     \<or> (\<exists>body. x = quote_char # body @ [quote_char] \<and> w = unescape body)"
| "spells x (IdRefT k n) \<longleftrightarrow>
     (\<exists>d. x = show_id_kind k @ d \<and> all_digits d \<and> digits_value d = unat n)"
| "spells x (WhitespaceT w) \<longleftrightarrow> x = w \<and> list_all is_blank w"
| "spells x (ParamValueT v) \<longleftrightarrow> try_parse_value x = Some v"
| "spells x Newline \<longleftrightarrow> x = [newline_char] \<or> x = [return_char, newline_char]"
| "spells x Eof \<longleftrightarrow> x = []"
| "spells x k \<longleftrightarrow> x = show_token k"

lemma nth_opt_Some_iff: "nth_opt xs i = Some x \<longleftrightarrow> i < length xs \<and> xs ! i = x"
  by (auto simp: nth_opt_def)

lemma peek_at_Some: "peek_at t k = Some c \<longleftrightarrow> tk_pos t + k < length (tk_bytes t) \<and> tk_bytes t ! (tk_pos t + k) = c"
  by (auto simp: peek_at_def nth_opt_Some_iff)

lemma slice_Suc: "i < length xs \<Longrightarrow> i < j \<Longrightarrow> slice xs i j = xs ! i # slice xs (Suc i) j"
  by (simp add: slice_def Cons_nth_drop_Suc [symmetric] take_Cons')

lemma slice_empty [simp]: "slice xs i i = []"
  by (simp add: slice_def)

lemma slice_1: "i < length xs \<Longrightarrow> slice xs i (Suc i) = [xs ! i]"
  by (simp add: slice_Suc)

lemma slice_2: "Suc i < length xs \<Longrightarrow> slice xs i (Suc (Suc i)) = [xs ! i, xs ! Suc i]"
  by (simp add: slice_Suc)

lemma slice_3: "Suc (Suc i) < length xs \<Longrightarrow> slice xs i (Suc (Suc (Suc i))) = [xs ! i, xs ! Suc i, xs ! Suc (Suc i)]"
  by (simp add: slice_Suc)

lemma skip_while_spec:
  assumes "p \<le> length bs"
  shows "p \<le> skip_while P bs p" "skip_while P bs p \<le> length bs"
    "slice bs p (skip_while P bs p) = takeWhile P (drop p bs)" "list_all P (slice bs p (skip_while P bs p))"
proof -
  have l: "length (takeWhile P (drop p bs)) \<le> length bs - p"
    using length_takeWhile_le [of P "drop p bs"] by simp
  show "p \<le> skip_while P bs p" by (simp add: skip_while_def)
  show "skip_while P bs p \<le> length bs" using l assms by (simp add: skip_while_def)
  show s: "slice bs p (skip_while P bs p) = takeWhile P (drop p bs)"
    by (simp add: skip_while_def slice_def takeWhile_eq_take [symmetric])
  show "list_all P (slice bs p (skip_while P bs p))"
    unfolding s by (auto simp: list_all_iff dest: set_takeWhileD)
qed

lemma slice_app: "i \<le> j \<Longrightarrow> j \<le> k \<Longrightarrow> slice xs i j @ slice xs j k = slice xs i k"
proof -
  assume a: "i \<le> j" "j \<le> k"
  then have e: "k - i = (j - i) + (k - j)" by simp
  show ?thesis unfolding slice_def e take_add using a by simp
qed

lemma quoted_loop_spec:
  "quoted_loop start p acc rest = Inr (s, q) \<Longrightarrow>
     \<exists>body tail. rest = body @ quote_char # tail \<and> q = p + length body + 1 \<and> s = acc @ unescape body"
proof (induction start p acc rest rule: quoted_loop.induct)
  case (2 start p acc c rest)
  consider (quote) "c = quote_char" | (esc) d rest' where "c \<noteq> quote_char" "c = backslash_char" "rest = d # rest'"
    | (plain) "c \<noteq> quote_char" "c \<noteq> backslash_char"
    using 2 by (auto split: if_splits list.splits)
  then show ?case
  proof cases
    case quote
    then show ?thesis using 2 by (intro exI [of _ "[]"] exI [of _ rest]) auto
  next
    case (esc d rest')
    from 2(1) [OF esc(1,2,3)] 2(3) esc obtain body tail where
      "rest' = body @ quote_char # tail" "q = p + 2 + length body + 1" "s = acc @ unescape (c # d # body)"
      by auto
    then show ?thesis using esc by (intro exI [of _ "c # d # body"] exI [of _ tail]) auto
  next
    case plain
    from 2(2) [OF plain] 2(3) plain obtain body tail where
      "rest = body @ quote_char # tail" "q = p + 1 + length body + 1" "s = acc @ unescape (c # body)" by auto
    then show ?thesis using plain by (intro exI [of _ "c # body"] exI [of _ tail]) auto
  qed
qed simp

lemma single_quoted_loop_spec:
  "single_quoted_loop start p acc rest = Inr (s, q) \<Longrightarrow>
     \<exists>body tail. rest = body @ squote_char # tail \<and> q = p + length body + 1 \<and> s = acc @ body"
proof (induction start p acc rest rule: single_quoted_loop.induct)
  case (2 start p acc c rest)
  show ?case
  proof (cases "c = squote_char")
    case True
    then show ?thesis using 2 by (intro exI [of _ "[]"] exI [of _ rest]) auto
  next
    case False
    from 2(1) [OF False] 2(2) False obtain body tail where
      "rest = body @ squote_char # tail" "q = p + 1 + length body + 1" "s = acc @ c # body" by auto
    then show ?thesis by (intro exI [of _ "c # body"] exI [of _ tail]) auto
  qed
qed simp

lemma slice_of_rest:
  assumes "p < length bs" "drop (Suc p) bs = body @ c # tail"
  shows "slice bs p (p + 1 + length body + 1) = bs ! p # body @ [c]" "p + 1 + length body + 1 \<le> length bs"
proof -
  have d: "drop p bs = bs ! p # body @ c # tail" using assms by (metis Cons_nth_drop_Suc)
  then show "slice bs p (p + 1 + length body + 1) = bs ! p # body @ [c]" by (simp add: slice_def)
  have "length (drop p bs) = length body + length tail + 2" by (simp add: d)
  then show "p + 1 + length body + 1 \<le> length bs" using assms(1) by simp
qed

text \<open>A step of the tokenizer consumed a token: it moved forward over a spelling of it.\<close>

definition consumed :: "tokenizer \<Rightarrow> token \<Rightarrow> tokenizer \<Rightarrow> bool" where
  "consumed t k t' \<longleftrightarrow> tk_bytes t' = tk_bytes t \<and> tk_pos t < tk_pos t' \<and> tk_pos t' \<le> length (tk_bytes t)
     \<and> k \<noteq> Eof \<and> spells (slice (tk_bytes t) (tk_pos t) (tk_pos t')) k"

lemma quoted_consumed:
  assumes "tokenize_quoted_string t = Inr (k, t')" "tk_pos t < length (tk_bytes t)" "tk_bytes t ! tk_pos t = quote_char"
  shows "consumed t k t'"
proof -
  obtain s q where k: "k = WordT s" and t': "t' = other_at q t"
    and q: "quoted_loop (tk_pos t) (tk_pos t + 1) [] (drop (tk_pos t + 1) (tk_bytes t)) = Inr (s, q)"
    using assms(1) by (auto simp: tokenize_quoted_string_def and_then_def split: sum.splits if_splits)
  from quoted_loop_spec [OF q] obtain body tail where
    b: "drop (Suc (tk_pos t)) (tk_bytes t) = body @ quote_char # tail" "q = tk_pos t + 1 + length body + 1" "s = unescape body"
    by auto
  from slice_of_rest [OF assms(2) b(1)] b(2,3) k t' assms(3) show ?thesis
    unfolding consumed_def by auto
qed

lemma single_quoted_consumed:
  assumes "tokenize_single_quoted_string t = Inr (k, t')" "tk_pos t < length (tk_bytes t)" "tk_bytes t ! tk_pos t = squote_char"
  shows "consumed t k t'"
proof -
  obtain s q where k: "k = WordT s" and t': "t' = other_at q t"
    and q: "single_quoted_loop (tk_pos t) (tk_pos t + 1) [] (drop (tk_pos t + 1) (tk_bytes t)) = Inr (s, q)"
    using assms(1) by (auto simp: tokenize_single_quoted_string_def and_then_def split: sum.splits if_splits)
  from single_quoted_loop_spec [OF q] obtain body tail where
    b: "drop (Suc (tk_pos t)) (tk_bytes t) = body @ squote_char # tail" "q = tk_pos t + 1 + length body + 1" "s = body"
    by auto
  from slice_of_rest [OF assms(2) b(1)] b(2,3) k t' assms(3) show ?thesis
    unfolding consumed_def by auto
qed

lemma pipe_consumed:
  assumes "tokenize_pipe_or_parallel t = Inr (k, t')" "tk_pos t < length (tk_bytes t)" "tk_bytes t ! tk_pos t = CHR ''|''"
  shows "consumed t k t'"
  using assms
  by (auto simp: tokenize_pipe_or_parallel_def Let_def consumed_def peek_at_Some slice_2 slice_3 eval_nat_numeral
      split: if_splits)

lemma id_ref_consumed:
  assumes "try_id_ref t = Some (k, p)"
  shows "consumed t k (other_at p t)"
proof -
  obtain kind n where kind: "try_id_kind t = Some kind"
    and p: "p = skip_while is_ascii_digit (tk_bytes t) (tk_pos t + 1)" "tk_pos t + 1 < p"
    and n: "parse_u32 (slice (tk_bytes t) (tk_pos t + 1) p) = Some n" "k = IdRefT kind n"
    using assms by (auto simp: try_id_ref_def Let_def split: option.splits if_splits)
  from kind have h: "slice (tk_bytes t) (tk_pos t) (Suc (tk_pos t)) = show_id_kind kind" "tk_pos t + 1 \<le> length (tk_bytes t)"
    by (auto simp: try_id_kind_def Let_def peek_at_Some slice_1 split: if_splits option.splits)
  note sk = skip_while_spec [OF h(2), of is_ascii_digit, folded p(1)]
  let ?d = "slice (tk_bytes t) (tk_pos t + 1) p"
  have "?d \<noteq> []" using p(2) sk(2) by (simp add: slice_def)
  with sk(4) have d: "all_digits ?d" by (simp add: all_digits_def)
  then have "CHR ''+'' \<noteq> hd ?d" by (cases ?d) (auto simp: all_digits_def is_ascii_digit_def)
  with n d have v: "digits_value ?d = unat n"
    by (cases ?d) (auto simp: parse_u32_def parse_uint_def Let_def all_digits_def unat_of_nat split: if_splits)
  have "slice (tk_bytes t) (tk_pos t) p = show_id_kind kind @ ?d"
    using slice_app [of "tk_pos t" "tk_pos t + 1" p "tk_bytes t"] p(2) h(1) by simp
  then show ?thesis using p(2) sk(2) d v n(2) unfolding consumed_def by auto
qed

lemma word_loop_bounds: "word_loop bs m p = Inr q \<Longrightarrow> p \<le> length bs \<Longrightarrow> p \<le> q \<and> q \<le> length bs"
proof (induction bs m p rule: word_loop.induct)
  case (1 bs m p)
  show ?case
    using 1(2,3) 1(1) unfolding word_loop.simps [of bs m p] by (auto split: if_splits option.splits)
qed

lemma word_consumed:
  assumes "tokenize_word t = Inr (k, t')" "tk_pos t < length (tk_bytes t)"
  shows "consumed t k t'"
proof -
  let ?bs = "tk_bytes t" and ?p = "tk_pos t"
  consider (id) p where "try_id_ref t = Some (k, p)" "t' = other_at p t"
    | (eq) "?bs ! ?p = CHR ''=''" "k = ParamEq" "t' = other_at (?p + 1) t"
    | (comma) "?bs ! ?p = CHR '',''" "k = Comma" "t' = other_at (?p + 1) t"
    | (quoted) "?bs ! ?p = quote_char" "tokenize_quoted_string t = Inr (k, t')"
    | (single) "?bs ! ?p = squote_char" "tokenize_single_quoted_string t = Inr (k, t')"
    | (word) p where "word_loop ?bs (tk_mode t) ?p = Inr p" "p \<noteq> ?p" "t' = other_at p t"
        "k = WordT (slice ?bs ?p p) \<or> (\<exists>v. try_parse_value (slice ?bs ?p p) = Some v \<and> k = ParamValueT v)"
    using assms(1)
    by (auto simp: tokenize_word_def Let_def and_then_def split: option.splits if_splits sum.splits)
  then show ?thesis
  proof cases
    case (word p)
    then have "?p < p" "p \<le> length ?bs" using word_loop_bounds [OF word(1)] assms(2) by auto
    then show ?thesis using word(3,4) unfolding consumed_def by auto
  qed (use assms(2) id_ref_consumed quoted_consumed single_quoted_consumed in
      \<open>auto simp: consumed_def slice_1\<close>)
qed

lemma command_consumed:
  fixes t :: tokenizer
  defines "q \<equiv> skip_while is_ident_char (tk_bytes t) (Suc (tk_pos t))"
  assumes "tk_pos t < length (tk_bytes t)" "tk_bytes t ! tk_pos t = CHR '':''"
  shows "Suc (tk_pos t) < q \<Longrightarrow>
      consumed t (CommandT (slice (tk_bytes t) (Suc (tk_pos t)) q)) (t\<lparr>tk_pos := q, tk_last := l\<rparr>)"
    and "\<not> Suc (tk_pos t) < q \<Longrightarrow> consumed t Colon (t\<lparr>tk_pos := q, tk_last := l\<rparr>)"
proof -
  have le: "Suc (tk_pos t) \<le> length (tk_bytes t)" using assms(2) by simp
  note sk = skip_while_spec [OF le, of is_ident_char, folded q_def]
  have "Suc (tk_pos t) < q \<Longrightarrow> slice (tk_bytes t) (Suc (tk_pos t)) q \<noteq> []"
    using sk(2) by (simp add: slice_def)
  with sk(2,4) assms(2,3) show "Suc (tk_pos t) < q \<Longrightarrow>
      consumed t (CommandT (slice (tk_bytes t) (Suc (tk_pos t)) q)) (t\<lparr>tk_pos := q, tk_last := l\<rparr>)"
    by (simp add: consumed_def slice_Suc [of "tk_pos t" "tk_bytes t" q])
  show "\<not> Suc (tk_pos t) < q \<Longrightarrow> consumed t Colon (t\<lparr>tk_pos := q, tk_last := l\<rparr>)"
    using sk(1) assms(2,3) by (simp add: consumed_def slice_1 not_less order_antisym)
qed

lemma significant_consumed:
  assumes "significant_token t = Inr (k, t')" "tk_pos t < length (tk_bytes t)"
  shows "consumed t k t'"
proof -
  have one: "consumed t k t'"
    if "show_token k = [tk_bytes t ! tk_pos t]" "k \<in> {ModeParenOpen, ModeParenClose, GroupOpen, GroupClose}"
      "tk_bytes t' = tk_bytes t" "tk_pos t' = Suc (tk_pos t)"
    using that assms(2) by (auto simp: consumed_def slice_1)
  have two: "consumed t k t'"
    if "peek_at t 1 = Some d" "show_token k = [tk_bytes t ! tk_pos t, d]" "k \<in> {SerialThen, SerialAlways, JobAnd}"
      "tk_bytes t' = tk_bytes t" "tk_pos t' = Suc (Suc (tk_pos t))" for d
    using that by (auto simp: consumed_def peek_at_Some slice_2)
  show ?thesis
    using assms(1)
    apply (simp only: significant_token_def Let_def split: if_split_asm)
    subgoal using command_consumed(1) [OF assms(2)] by auto
    subgoal using command_consumed(2) [OF assms(2)] by auto
    subgoal by (rule one) auto
    subgoal by (rule one) auto
    subgoal by (rule one) auto
    subgoal by (rule one) auto
    subgoal by (rule two) auto
    subgoal by simp
    subgoal by (rule two) auto
    subgoal by simp
    subgoal by (rule two) auto
    subgoal using pipe_consumed assms(2) by blast
    subgoal using word_consumed assms(2) by blast
    done
qed

lemma next_token_cases:
  assumes "next_token t = Inr (s, t')"
  obtains (eof) "length (tk_bytes t) \<le> tk_pos t" "s = spanned_at Eof (tk_pos t) (tk_pos t)" "t' = t"
    | (token) "tk_pos t < length (tk_bytes t)" "consumed t (tok s) t'" "sp s = \<lparr>sp_start = tk_pos t, sp_end = tk_pos t'\<rparr>"
proof (cases "length (tk_bytes t) \<le> tk_pos t")
  case True
  then have "s = spanned_at Eof (tk_pos t) (tk_pos t) \<and> t' = t"
    using assms unfolding next_token_def Let_def by auto
  with True show thesis by (intro eof) auto
next
  case False
  let ?bs = "tk_bytes t" and ?p = "tk_pos t"
  let ?q = "skip_while is_blank ?bs (?p + 1)"
  have p: "?p < length ?bs" using False by simp
  note sk = skip_while_spec [of "?p + 1" ?bs is_blank]
  have le: "?p + 1 \<le> length ?bs" using p by simp
  have "slice ?bs ?p ?q = ?bs ! ?p # slice ?bs (?p + 1) ?q"
    using slice_Suc [OF p, of ?q] sk(1) [OF le] by simp
  with sk(1,2,4) [OF le] have b: "is_blank (?bs ! ?p) \<Longrightarrow> list_all is_blank (slice ?bs ?p ?q)" by simp
  have "consumed t (tok s) t' \<and> sp s = \<lparr>sp_start = ?p, sp_end = tk_pos t'\<rparr>"
    using assms False
    apply (simp only: next_token_def Let_def split: if_split_asm)
    subgoal by (auto simp: consumed_def slice_1)
    subgoal by (auto simp: consumed_def peek_at_Some slice_2)
    subgoal using b sk(1,2) [OF le] by (auto simp: consumed_def)
    subgoal using significant_consumed [OF _ p] by (auto simp: and_then_def split: sum.splits)
    done
  then show thesis using p token by blast
qed

section \<open>The whole input\<close>

function tokenize_loop :: "tokenizer \<Rightarrow> spanned list \<Rightarrow> (tokenize_error, spanned list) result" where
  "tokenize_loop t tokens =
     (case next_token t of
        Inl e \<Rightarrow> Inl e
      | Inr (s, t') \<Rightarrow> if tok s = Eof then Inr (tokens @ [s]) else tokenize_loop t' (tokens @ [s]))"
  by pat_completeness auto
termination
proof (relation "measure (\<lambda>(t, tokens). length (tk_bytes t) - tk_pos t)", goal_cases)
  case (2 t tokens r s t')
  then have "next_token t = Inr (s, t')" by simp
  then show ?case using 2(3) by (cases rule: next_token_cases) (auto simp: consumed_def)
qed simp

declare tokenize_loop.simps [simp del]

definition tokenize :: "string \<Rightarrow> (tokenize_error, spanned list) result" where
  "tokenize input = tokenize_loop (tokenizer_new input) []"

text \<open>The tokens cover the bytes from \<open>p\<close> to the end without a gap, and end with the one \<open>Eof\<close>.\<close>

fun tiles :: "string \<Rightarrow> nat \<Rightarrow> spanned list \<Rightarrow> bool" where
  "tiles bs p [] \<longleftrightarrow> False"
| "tiles bs p [s] \<longleftrightarrow> s = spanned_at Eof (length bs) (length bs) \<and> p = length bs"
| "tiles bs p (s # ss) \<longleftrightarrow>
     sp_start (sp s) = p \<and> p < sp_end (sp s) \<and> sp_end (sp s) \<le> length bs \<and> tok s \<noteq> Eof
     \<and> spells (slice bs p (sp_end (sp s))) (tok s) \<and> tiles bs (sp_end (sp s)) ss"

lemma tiles_Cons: "ss \<noteq> [] \<Longrightarrow> tiles bs p (s # ss) \<longleftrightarrow>
     sp_start (sp s) = p \<and> p < sp_end (sp s) \<and> sp_end (sp s) \<le> length bs \<and> tok s \<noteq> Eof
     \<and> spells (slice bs p (sp_end (sp s))) (tok s) \<and> tiles bs (sp_end (sp s)) ss"
  by (cases ss) auto

lemma tokenize_loop_tiles:
  "tokenize_loop t acc = Inr toks \<Longrightarrow> tk_pos t \<le> length (tk_bytes t) \<Longrightarrow>
     \<exists>new. toks = acc @ new \<and> tiles (tk_bytes t) (tk_pos t) new"
proof (induction t acc rule: tokenize_loop.induct)
  case (1 t acc)
  from 1(2) obtain s t' where n: "next_token t = Inr (s, t')"
    unfolding tokenize_loop.simps [of t acc] by (auto split: sum.splits)
  then show ?case
  proof (cases rule: next_token_cases)
    case eof
    then show ?thesis using 1(2,3) n unfolding tokenize_loop.simps [of t acc] by auto
  next
    case token
    then have k: "tok s \<noteq> Eof" "tk_bytes t' = tk_bytes t" "tk_pos t' \<le> length (tk_bytes t)"
      by (auto simp: consumed_def)
    have "tokenize_loop t' (acc @ [s]) = Inr toks"
      using 1(2) n k unfolding tokenize_loop.simps [of t acc] by simp
    from 1(1) [OF n refl k(1) this] k obtain new where
      "toks = acc @ s # new" "tiles (tk_bytes t) (tk_pos t') new" by auto
    moreover then have "new \<noteq> []" by auto
    ultimately show ?thesis using token k
      by (intro exI [of _ "s # new"]) (auto simp: tiles_Cons consumed_def)
  qed
qed

section \<open>UTF-8 through the tokenizer\<close>

lemma utf8_run_simps [simp]:
  "utf8_run q [] = q" "utf8_run q (c # s) = utf8_run (utf8_step q c) s"
  "utf8_run q (a @ b) = utf8_run (utf8_run q a) b"
  by (simp_all add: utf8_run_def)

lemma utf8_run_bad [simp]: "utf8_run QBad s = QBad"
  by (induction s) auto

lemma utf8_step_ascii: "byte c < 128 \<Longrightarrow> utf8_step q c = (if q = Q0 then Q0 else QBad)"
  by (cases q) auto

lemma utf8_ok_split: "utf8_ok (a @ c # b) \<Longrightarrow> byte c < 128 \<Longrightarrow> utf8_ok a \<and> utf8_ok b"
  by (auto simp: utf8_ok_def utf8_step_ascii split: if_splits)

lemma special_ascii [simp]:
  "byte quote_char = 34" "byte squote_char = 39" "byte backslash_char = 92" "byte newline_char = 10" "byte tab_char = 9"
  "byte return_char = 13"
  by (simp_all add: quote_char_def squote_char_def backslash_char_def newline_char_def tab_char_def return_char_def)

lemma utf8_unescape: "utf8_run q body = Q0 \<Longrightarrow> utf8_run q (unescape body) = Q0"
proof (induction body arbitrary: q rule: unescape.induct)
  case (2 c rest)
  show ?case
  proof (cases "c = backslash_char")
    case True
    then have q: "q = Q0" using 2(3) by (auto simp: utf8_step_ascii split: if_splits)
    show ?thesis
    proof (cases rest)
      case (Cons d rest')
      note step = 2(1) [OF True Cons]
      have "utf8_run (utf8_step Q0 d) rest' = Q0" using 2(3) True q Cons by (simp add: utf8_step_ascii)
      then show ?thesis using True q Cons step by (auto simp: utf8_step_ascii)
    qed (use True q in \<open>simp add: utf8_step_ascii\<close>)
  qed (use 2 in simp)
qed simp

lemma utf8_of_rest:
  assumes "utf8_ok bs" "p < length bs" "byte (bs ! p) < 128" "drop (Suc p) bs = body @ c # tail" "byte c < 128"
  shows "utf8_ok body"
proof -
  have "bs = take p bs @ bs ! p # body @ c # tail" using assms(2,4) by (metis id_take_nth_drop)
  then have "utf8_ok (take p bs @ bs ! p # (body @ c # tail))" using assms(1) by simp
  from utf8_ok_split [OF this assms(3)] have "utf8_ok (body @ c # tail)" by blast
  from utf8_ok_split [OF this assms(5)] show ?thesis by blast
qed

section \<open>Errors\<close>

definition operator_error :: "string \<Rightarrow> tokenize_error \<Rightarrow> bool" where
  "operator_error bs e \<longleftrightarrow>
     (\<exists>op. op \<in> {''->'', ''~>'', ''|||'', ''|?|''} \<and> starts_with (drop (te_pos e) bs) op
        \<and> \<not> operator_has_required_whitespace bs (te_pos e) (length op)
        \<and> e = missing_operator_whitespace_error bs (te_pos e) op (length op))"

definition bare_pipe_error :: "string \<Rightarrow> tokenize_error \<Rightarrow> bool" where
  "bare_pipe_error bs e \<longleftrightarrow>
     nth_opt bs (te_pos e) = Some CHR ''|''
     \<and> te_message e = ''bare `|` is not a cue-shell pipe operator; use `|>` for stdout pipes, `|&>` for stdout+stderr, or quote `|` to pass it as an argument''"

definition quote_error :: "string \<Rightarrow> tokenize_error \<Rightarrow> bool" where
  "quote_error bs e \<longleftrightarrow>
     nth_opt bs (te_pos e) = Some quote_char \<and> te_message e = ''unterminated string''
     \<or> nth_opt bs (te_pos e) = Some squote_char \<and> te_message e = ''unterminated single-quoted string''
     \<or> te_pos e = length bs \<and> te_message e = ''unterminated escape''"

definition expected_error :: "string \<Rightarrow> tokenize_error \<Rightarrow> bool" where
  "expected_error bs e \<longleftrightarrow> operator_error bs e \<or> bare_pipe_error bs e \<or> quote_error bs e"

lemma quoted_loop_error:
  "quoted_loop start p acc rest = Inl e \<Longrightarrow>
     e = \<lparr>te_pos = start, te_message = ''unterminated string''\<rparr>
     \<or> e = \<lparr>te_pos = p + length rest, te_message = ''unterminated escape''\<rparr>"
proof (induction start p acc rest rule: quoted_loop.induct)
  case (2 start p acc c rest)
  then show ?case by (cases rest) (auto split: if_splits)
qed simp

lemma single_quoted_loop_error:
  "single_quoted_loop start p acc rest = Inl e \<Longrightarrow>
     e = \<lparr>te_pos = start, te_message = ''unterminated single-quoted string''\<rparr>"
  by (induction start p acc rest rule: single_quoted_loop.induct) (auto split: if_splits)

lemma quoted_error:
  assumes "tokenize_quoted_string t = Inl e" "utf8_ok (tk_bytes t)" "tk_pos t < length (tk_bytes t)"
    "tk_bytes t ! tk_pos t = quote_char"
  shows "expected_error (tk_bytes t) e"
proof -
  let ?q = "quoted_loop (tk_pos t) (tk_pos t + 1) [] (drop (tk_pos t + 1) (tk_bytes t))"
  show ?thesis
  proof (cases ?q)
    case (Inl e')
    then show ?thesis using assms quoted_loop_error [OF Inl]
      by (auto simp: tokenize_quoted_string_def and_then_def expected_error_def quote_error_def nth_opt_def)
  next
    case (Inr x)
    then obtain s q where x: "?q = Inr (s, q)" by (cases x) auto
    from quoted_loop_spec [OF this] obtain body tail where
      b: "drop (Suc (tk_pos t)) (tk_bytes t) = body @ quote_char # tail" "s = unescape body" by auto
    have "utf8_ok body" using utf8_of_rest [OF assms(2,3) _ b(1)] assms(4) by simp
    then have "utf8_ok s" using utf8_unescape b(2) by (simp add: utf8_ok_def)
    then show ?thesis using assms(1) x by (simp add: tokenize_quoted_string_def and_then_def)
  qed
qed

lemma single_quoted_error:
  assumes "tokenize_single_quoted_string t = Inl e" "utf8_ok (tk_bytes t)" "tk_pos t < length (tk_bytes t)"
    "tk_bytes t ! tk_pos t = squote_char"
  shows "expected_error (tk_bytes t) e"
proof -
  let ?q = "single_quoted_loop (tk_pos t) (tk_pos t + 1) [] (drop (tk_pos t + 1) (tk_bytes t))"
  show ?thesis
  proof (cases ?q)
    case (Inl e')
    then show ?thesis using assms single_quoted_loop_error [OF Inl]
      by (auto simp: tokenize_single_quoted_string_def and_then_def expected_error_def quote_error_def nth_opt_def)
  next
    case (Inr x)
    then obtain s q where x: "?q = Inr (s, q)" by (cases x) auto
    from single_quoted_loop_spec [OF this] obtain body tail where
      b: "drop (Suc (tk_pos t)) (tk_bytes t) = body @ squote_char # tail" "s = body" by auto
    have "utf8_ok s" using utf8_of_rest [OF assms(2,3) _ b(1)] assms(4) b(2) by simp
    then show ?thesis using assms(1) x by (simp add: tokenize_single_quoted_string_def and_then_def)
  qed
qed

lemma te_pos_missing [simp]: "te_pos (missing_operator_whitespace_error bs p op n) = p"
  by (simp add: missing_operator_whitespace_error_def)

lemma operator_errorI:
  assumes "op \<in> {''->'', ''~>'', ''|||'', ''|?|''}" "starts_with (drop p bs) op" "n = length op"
    "\<not> operator_has_required_whitespace bs p n"
  shows "operator_error bs (missing_operator_whitespace_error bs p op n)"
  unfolding operator_error_def using assms by (intro exI [of _ op]) simp

lemma starts_with_Cons_nth:
  "starts_with (drop p bs) (c # s) \<longleftrightarrow> p < length bs \<and> bs ! p = c \<and> starts_with (drop (Suc p) bs) s"
  by (cases "p < length bs") (auto simp: starts_with_def Cons_nth_drop_Suc [symmetric])

lemma pipe_error:
  assumes "tokenize_pipe_or_parallel t = Inl e" "tk_pos t < length (tk_bytes t)" "tk_bytes t ! tk_pos t = CHR ''|''"
  shows "expected_error (tk_bytes t) e"
proof -
  have op: "expected_error (tk_bytes t) e"
    if "e = missing_operator_whitespace_error (tk_bytes t) (tk_pos t) [CHR ''|'', c, CHR ''|''] 3"
      "\<not> operator_has_required_whitespace (tk_bytes t) (tk_pos t) 3" "c = CHR ''|'' \<or> c = CHR ''?''"
      "peek_at t 1 = Some c" "peek_at t 2 = Some CHR ''|''" for c
  proof -
    have "starts_with (drop (tk_pos t) (tk_bytes t)) [CHR ''|'', c, CHR ''|'']"
      using that(4,5) assms(2,3) by (simp add: starts_with_Cons_nth peek_at_Some)
    from operator_errorI [OF _ this, of 3] that show ?thesis by (auto simp: expected_error_def)
  qed
  show ?thesis
    using assms(1)
    apply (simp only: tokenize_pipe_or_parallel_def Let_def split: if_split_asm)
    subgoal by simp
    subgoal by simp
    subgoal by simp
    subgoal by simp
    subgoal by (rule op) auto
    subgoal by simp
    subgoal by (rule op) auto
    subgoal by simp
    subgoal using assms(2,3) by (auto simp: expected_error_def bare_pipe_error_def nth_opt_def)
    done
qed

lemma operator_len_text:
  assumes "starts_with_operator bs p = Some (op, WhitespaceRequired)"
  shows "operator_len bs p = length (operator_text op)" "starts_with (drop p bs) (operator_text op)"
    "operator_text op \<in> {''->'', ''~>'', ''|||'', ''|?|''}"
  using assms
  by (auto simp: starts_with_operator_def operator_len_def Let_def split: if_splits)

lemma word_loop_error: "word_loop bs m p = Inl e \<Longrightarrow> operator_error bs e"
proof (induction bs m p rule: word_loop.induct)
  case (1 bs m p)
  let ?go = "p < length bs \<and> \<not> is_delimiter (bs ! p) \<and> \<not> (m \<and> (bs ! p = CHR ''='' \<or> bs ! p = CHR '',''))"
  have go: ?go
  proof (rule ccontr)
    assume "\<not> ?go"
    then have "word_loop bs m p = Inr p" unfolding word_loop.simps [of bs m p] by (rule if_not_P)
    then show False using 1(2) by simp
  qed
  show ?case
  proof (cases "starts_with_operator bs p")
    case None
    then show ?thesis using 1 go by (simp add: word_loop.simps [of bs m p])
  next
    case (Some x)
    obtain op b where x: "x = (op, b)" by (cases x)
    then have b: "b = WhitespaceRequired" and n: "\<not> operator_has_required_whitespace bs p (operator_len bs p)"
      and e: "e = missing_operator_whitespace_error bs p (operator_text op) (length (operator_text op))"
      using 1(2) go Some by (auto simp: word_loop.simps [of bs m p] split: if_splits)
    note ol = operator_len_text [OF Some [unfolded x b]]
    show ?thesis unfolding e by (rule operator_errorI) (use ol n in auto)
  qed
qed

text \<open>Where no other rule applies a word begins, so the word loop consumes at least one byte.\<close>

lemma word_loop_progress:
  assumes "word_loop bs m p = Inr q" "p < length bs" "\<not> is_delimiter (bs ! p)"
    and "m \<Longrightarrow> bs ! p \<noteq> CHR ''='' \<and> bs ! p \<noteq> CHR '',''" and "starts_with_operator bs p = None"
  shows "p < q"
proof -
  have "word_loop bs m (p + 1) = Inr q" using assms by (simp add: word_loop.simps [of bs m p])
  then show ?thesis using word_loop_bounds [of bs m "p + 1" q] assms(2) by simp
qed

lemma no_operator:
  assumes "bs ! p \<noteq> CHR ''|''" "\<not> (bs ! p = CHR ''-'' \<and> nth_opt bs (Suc p) = Some CHR ''>'')"
    "\<not> (bs ! p = CHR ''~'' \<and> nth_opt bs (Suc p) = Some CHR ''>'')"
    "\<not> (bs ! p = CHR ''&'' \<and> nth_opt bs (Suc p) = Some CHR ''&'')"
  shows "starts_with_operator bs p = None"
  using assms by (auto simp: starts_with_operator_def Let_def starts_with_Cons_nth nth_opt_def)

lemma word_error:
  assumes "tokenize_word t = Inl e" "utf8_ok (tk_bytes t)" "tk_pos t < length (tk_bytes t)"
    and "starts_with_operator (tk_bytes t) (tk_pos t) = None"
    and "tk_bytes t ! tk_pos t = quote_char \<or> \<not> is_delimiter (tk_bytes t ! tk_pos t)"
  shows "expected_error (tk_bytes t) e"
proof -
  let ?bs = "tk_bytes t" and ?p = "tk_pos t"
  have "(?bs ! ?p = quote_char \<and> tokenize_quoted_string t = Inl e)
    \<or> (?bs ! ?p = squote_char \<and> tokenize_single_quoted_string t = Inl e)
    \<or> word_loop ?bs (tk_mode t) ?p = Inl e
    \<or> (word_loop ?bs (tk_mode t) ?p = Inr ?p \<and> ?bs ! ?p \<noteq> quote_char
       \<and> (tk_mode t \<longrightarrow> ?bs ! ?p \<noteq> CHR ''='' \<and> ?bs ! ?p \<noteq> CHR '',''))"
    using assms(1)
    by (auto simp: tokenize_word_def Let_def and_then_def split: option.splits if_splits sum.splits)
  then show ?thesis
  proof (elim disjE)
    assume a: "word_loop ?bs (tk_mode t) ?p = Inr ?p \<and> ?bs ! ?p \<noteq> quote_char
       \<and> (tk_mode t \<longrightarrow> ?bs ! ?p \<noteq> CHR ''='' \<and> ?bs ! ?p \<noteq> CHR '','')"
    with word_loop_progress [of ?bs "tk_mode t" ?p ?p] assms(3,4,5) show ?thesis by auto
  qed (use assms(2,3) quoted_error single_quoted_error word_loop_error in \<open>auto simp: expected_error_def\<close>)
qed

lemma significant_error:
  assumes "significant_token t = Inl e" "utf8_ok (tk_bytes t)" "tk_pos t < length (tk_bytes t)"
    and "\<not> is_blank (tk_bytes t ! tk_pos t)" "tk_bytes t ! tk_pos t \<noteq> newline_char"
  shows "expected_error (tk_bytes t) e"
proof -
  let ?bs = "tk_bytes t" and ?p = "tk_pos t"
  have op: "expected_error ?bs e"
    if "e = missing_operator_whitespace_error ?bs ?p [c, CHR ''>''] 2" "?bs ! ?p = c"
      "\<not> operator_has_required_whitespace ?bs ?p 2" "c = CHR ''-'' \<or> c = CHR ''~''" "peek_at t 1 = Some CHR ''>''" for c
  proof -
    have "starts_with (drop ?p ?bs) [c, CHR ''>'']"
      using that(2,5) assms(3) by (simp add: starts_with_Cons_nth peek_at_Some)
    from operator_errorI [OF _ this, of 2] that show ?thesis by (auto simp: expected_error_def)
  qed
  show ?thesis
    using assms(1)
    apply (simp only: significant_token_def Let_def split: if_split_asm)
    subgoal by simp
    subgoal by simp
    subgoal by simp
    subgoal by simp
    subgoal by simp
    subgoal by simp
    subgoal by simp
    subgoal by (rule op) auto
    subgoal by simp
    subgoal by (rule op) auto
    subgoal by simp
    subgoal using pipe_error assms(3) by blast
    subgoal using assms(2-5) by (intro word_error no_operator) (auto simp: is_delimiter_def is_blank_def peek_at_def)
    done
qed

lemma next_token_error:
  assumes "next_token t = Inl e" "utf8_ok (tk_bytes t)"
  shows "expected_error (tk_bytes t) e"
proof -
  have "significant_token t = Inl e" "tk_pos t < length (tk_bytes t)"
    "\<not> is_blank (tk_bytes t ! tk_pos t)" "tk_bytes t ! tk_pos t \<noteq> newline_char"
    using assms(1) by (auto simp: next_token_def Let_def and_then_def split: if_splits sum.splits)
  then show ?thesis using significant_error assms(2) by blast
qed

lemma tokenize_loop_error:
  "tokenize_loop t acc = Inl e \<Longrightarrow> utf8_ok (tk_bytes t) \<Longrightarrow> expected_error (tk_bytes t) e"
proof (induction t acc rule: tokenize_loop.induct)
  case (1 t acc)
  show ?case
  proof (cases "next_token t")
    case (Inl e')
    then show ?thesis using 1(2,3) next_token_error by (simp add: tokenize_loop.simps [of t acc])
  next
    case (Inr x)
    obtain s t' where x: "x = (s, t')" by (cases x)
    have k: "tok s \<noteq> Eof" "tokenize_loop t' (acc @ [s]) = Inl e"
      using 1(2) Inr x by (auto simp: tokenize_loop.simps [of t acc] split: if_splits)
    have "tk_bytes t' = tk_bytes t" using Inr x k(1) by (auto simp: consumed_def elim: next_token_cases)
    then show ?thesis using 1(1) [OF Inr x [symmetric] k] 1(3) by simp
  qed
qed

section \<open>Token ends\<close>

text \<open>A position next to an ASCII byte, or at the end: in valid UTF-8 a character boundary.\<close>

definition clean_end :: "string \<Rightarrow> nat \<Rightarrow> bool" where
  "clean_end bs q \<longleftrightarrow> q = length bs \<or> byte (bs ! q) < 128 \<or> 0 < q \<and> byte (bs ! (q - 1)) < 128"

lemma word_loop_clean: "word_loop bs m p = Inr q \<Longrightarrow> p \<le> length bs \<Longrightarrow> clean_end bs q"
proof (induction bs m p rule: word_loop.induct)
  case (1 bs m p)
  have d: "is_delimiter c \<Longrightarrow> byte c < 128" for c by (auto simp: is_delimiter_def)
  have o: "starts_with_operator bs p \<noteq> None \<Longrightarrow> byte (bs ! p) < 128"
    by (rule ccontr) (auto simp: starts_with_operator_def Let_def starts_with_Cons_nth split: if_splits)
  show ?case
  proof (cases "p < length bs \<and> \<not> is_delimiter (bs ! p) \<and> \<not> (m \<and> (bs ! p = CHR ''='' \<or> bs ! p = CHR '',''))")
    case True
    then show ?thesis
    proof (cases "starts_with_operator bs p")
      case None
      have "word_loop bs m (p + 1) = Inr q" using 1(2) True None by (simp add: word_loop.simps [of bs m p])
      then show ?thesis using 1(1) [OF True None] True by simp
    next
      case (Some x)
      then have "q = p" using 1(2) True by (cases x) (auto simp: word_loop.simps [of bs m p] split: if_splits)
      then show ?thesis using o Some by (simp add: clean_end_def)
    qed
  next
    case False
    then have "q = p" using 1(2) unfolding word_loop.simps [of bs m p] by (simp only: if_False) simp
    then show ?thesis using False 1(3) d by (auto simp: clean_end_def)
  qed
qed

lemma quoted_clean:
  assumes "drop (Suc p) bs = body @ c # tail" "byte c < 128"
  shows "clean_end bs (p + 1 + length body + 1)"
proof -
  have "bs ! (p + 1 + length body) = drop (Suc p) bs ! length body"
    using arg_cong [OF assms(1), of length] by (subst nth_drop) auto
  then show ?thesis using assms by (simp add: clean_end_def nth_append)
qed

lemma word_clean:
  assumes "tokenize_word t = Inr (WordT w, t')" "tk_pos t < length (tk_bytes t)"
  shows "clean_end (tk_bytes t) (tk_pos t')"
proof -
  let ?bs = "tk_bytes t" and ?p = "tk_pos t"
  have "tokenize_quoted_string t = Inr (WordT w, t') \<or> tokenize_single_quoted_string t = Inr (WordT w, t')
    \<or> (\<exists>p. word_loop ?bs (tk_mode t) ?p = Inr p \<and> tk_pos t' = p)"
    using assms(1)
    by (auto simp: tokenize_word_def Let_def and_then_def try_id_ref_def split: option.splits if_splits sum.splits)
  then show ?thesis
  proof (elim disjE exE conjE)
    assume "tokenize_quoted_string t = Inr (WordT w, t')"
    then obtain s q where "quoted_loop ?p (?p + 1) [] (drop (?p + 1) ?bs) = Inr (s, q)" "tk_pos t' = q"
      by (auto simp: tokenize_quoted_string_def and_then_def split: sum.splits if_splits)
    with quoted_loop_spec quoted_clean [of ?p ?bs _ quote_char] show ?thesis by fastforce
  next
    assume "tokenize_single_quoted_string t = Inr (WordT w, t')"
    then obtain s q where "single_quoted_loop ?p (?p + 1) [] (drop (?p + 1) ?bs) = Inr (s, q)" "tk_pos t' = q"
      by (auto simp: tokenize_single_quoted_string_def and_then_def split: sum.splits if_splits)
    with single_quoted_loop_spec quoted_clean [of ?p ?bs _ squote_char] show ?thesis by fastforce
  qed (use word_loop_clean assms(2) in auto)
qed

lemma significant_word:
  assumes "significant_token t = Inr (WordT w, t')"
  shows "tokenize_word t = Inr (WordT w, t')"
  using assms
  by (auto simp: significant_token_def tokenize_pipe_or_parallel_def Let_def split: if_splits)

lemma spelling_last:
  assumes "spells x k" "x \<noteq> []" "\<And>w. k \<noteq> WordT w"
  shows "byte (last x) < 128"
proof -
  have id: "is_ident_char c \<Longrightarrow> byte c < 128" for c
    by (auto simp: is_ident_char_def is_ascii_alphanumeric_def is_ascii_alphabetic_def is_ascii_digit_def)
  show ?thesis
  proof (cases k)
    case (CommandT c)
    then show ?thesis using assms id by (auto simp: list_all_iff)
  next
    case (IdRefT i n)
    then obtain d where "x = show_id_kind i @ d" "all_digits d" using assms by auto
    then have "d \<noteq> []" "is_ascii_digit (last d)" by (auto simp: all_digits_def list_all_iff)
    then show ?thesis using \<open>x = show_id_kind i @ d\<close> by (simp add: is_ascii_digit_def)
  next
    case (WhitespaceT w)
    then have "is_blank (last x)" using assms by (auto simp: list_all_iff)
    then show ?thesis by (auto simp: is_blank_def)
  next
    case (ParamValueT v)
    then show ?thesis using assms by (auto simp: try_parse_value_def split: if_splits)
  qed (use assms in auto)
qed

lemma next_token_clean:
  assumes "next_token t = Inr (s, t')" "tok s \<noteq> Eof"
  shows "clean_end (tk_bytes t) (tk_pos t')"
  using assms(1)
proof (cases rule: next_token_cases)
  case token
  show ?thesis
  proof (cases "\<exists>w. tok s = WordT w")
    case True
    then obtain w where "significant_token t = Inr (WordT w, t')"
      using assms(1) token(1) by (auto simp: next_token_def Let_def and_then_def split: if_splits sum.splits)
    then show ?thesis using word_clean [OF significant_word token(1)] by blast
  next
    case False
    let ?x = "slice (tk_bytes t) (tk_pos t) (tk_pos t')"
    have c: "spells ?x (tok s)" "tk_pos t < tk_pos t'" "tk_pos t' \<le> length (tk_bytes t)" using token(2) by (auto simp: consumed_def)
    then have "?x \<noteq> []" by (simp add: slice_def)
    moreover have "last ?x = tk_bytes t ! (tk_pos t' - 1)"
      using c(2,3) \<open>?x \<noteq> []\<close> by (simp add: last_conv_nth slice_def)
    ultimately show ?thesis using spelling_last [OF c(1)] False c(2) by (auto simp: clean_end_def)
  qed
qed (use assms(2) in auto)

section \<open>Printing\<close>

text \<open>
  Text that the tokenizer reads back: words in double quotes with the quote and the backslash
  escaped, and operators, separated by single blanks.
\<close>

definition escape_char :: "char \<Rightarrow> string" where
  "escape_char c = (if c = quote_char \<or> c = backslash_char then [backslash_char, c] else [c])"

definition quote_word :: "string \<Rightarrow> string" where
  "quote_word w = quote_char # concat (map escape_char w) @ [quote_char]"

datatype lexeme = LWord string | LOp token

fun lex_text :: "lexeme \<Rightarrow> string" where
  "lex_text (LWord w) = quote_word w"
| "lex_text (LOp k) = operator_text k"

fun lex_tok :: "lexeme \<Rightarrow> token" where
  "lex_tok (LWord w) = WordT w"
| "lex_tok (LOp k) = k"

fun lex_ok :: "lexeme \<Rightarrow> bool" where
  "lex_ok (LWord w) = utf8_ok w"
| "lex_ok (LOp k) = (operator_text k \<noteq> [])"

fun lex_tokens :: "nat \<Rightarrow> lexeme list \<Rightarrow> spanned list" where
  "lex_tokens p [] = [spanned_at Eof p p]"
| "lex_tokens p [x] =
     [spanned_at (lex_tok x) p (p + length (lex_text x)),
      spanned_at Eof (p + length (lex_text x)) (p + length (lex_text x))]"
| "lex_tokens p (x # xs) =
     spanned_at (lex_tok x) p (p + length (lex_text x))
     # spanned_at (WhitespaceT '' '') (p + length (lex_text x)) (p + length (lex_text x) + 1)
     # lex_tokens (p + length (lex_text x) + 1) xs"

lemma quoted_loop_quote:
  "quoted_loop start p acc (concat (map escape_char w) @ quote_char # tail) =
     Inr (acc @ w, p + length (concat (map escape_char w)) + 1)"
proof (induction w arbitrary: p acc)
  case (Cons c w)
  have "quote_char \<noteq> backslash_char" by (simp add: quote_char_def backslash_char_def)
  then show ?case using Cons by (auto simp: escape_char_def)
qed simp

lemma drop_Suc_of_Cons: "drop p bs = c # rest \<Longrightarrow> p < length bs \<and> bs ! p = c \<and> drop (Suc p) bs = rest"
  by (metis drop_all drop_eq_Nil leI list.distinct(1) list.inject Cons_nth_drop_Suc)

lemma not_op_chars [simp]:
  "quote_char \<noteq> CHR '':''" "quote_char \<noteq> CHR ''(''" "quote_char \<noteq> CHR '')''" "quote_char \<noteq> CHR ''-''"
  "quote_char \<noteq> CHR ''~''" "quote_char \<noteq> CHR ''&''" "quote_char \<noteq> CHR ''|''" "quote_char \<noteq> CHR ''J''"
  "quote_char \<noteq> CHR ''C''" "quote_char \<noteq> newline_char" "quote_char \<noteq> return_char" "\<not> is_blank quote_char"
  "quote_char \<noteq> CHR ''=''" "quote_char \<noteq> CHR '',''" "newline_char \<noteq> CHR '' ''" "return_char \<noteq> CHR '' ''"
  by (code_simp)+

lemma op_chars [simp]:
  "\<not> is_blank CHR ''-''" "\<not> is_blank CHR ''~''" "\<not> is_blank CHR ''|''" "\<not> is_blank CHR ''&''"
  "CHR ''-'' \<noteq> newline_char" "CHR ''~'' \<noteq> newline_char" "CHR ''|'' \<noteq> newline_char" "CHR ''&'' \<noteq> newline_char"
  "CHR ''-'' \<noteq> return_char" "CHR ''~'' \<noteq> return_char" "CHR ''|'' \<noteq> return_char" "CHR ''&'' \<noteq> return_char"
  "CHR '' '' \<noteq> newline_char" "CHR '' '' \<noteq> return_char"
  by (code_simp)+

lemma operator_head:
  "operator_text k \<noteq> [] \<Longrightarrow> hd (operator_text k) \<in> {CHR ''-'', CHR ''~'', CHR ''|'', CHR ''&''}"
  by (cases k) auto

lemma next_token_quoted:
  assumes "drop (tk_pos t) (tk_bytes t) = quote_word w @ rest" "utf8_ok w"
  shows "next_token t = Inr (spanned_at (WordT w) (tk_pos t) (tk_pos t + length (quote_word w)),
           other_at (tk_pos t + length (quote_word w)) t)"
proof -
  have d: "tk_pos t < length (tk_bytes t)" "tk_bytes t ! tk_pos t = quote_char"
    "drop (Suc (tk_pos t)) (tk_bytes t) = concat (map escape_char w) @ quote_char # rest"
    using drop_Suc_of_Cons [of "tk_pos t" "tk_bytes t" quote_char] assms(1) by (auto simp: quote_word_def)
  have "peek_at t 0 = Some quote_char" using d by (simp add: peek_at_Some)
  then have n: "try_id_ref t = None" by (simp add: try_id_ref_def try_id_kind_def Let_def)
  have "tokenize_quoted_string t = Inr (WordT w, other_at (tk_pos t + length (quote_word w)) t)"
    using quoted_loop_quote [of "tk_pos t" "tk_pos t + 1" "[]" w rest] d(3) assms(2)
    by (simp add: tokenize_quoted_string_def and_then_def quote_word_def)
  then have "significant_token t = Inr (WordT w, other_at (tk_pos t + length (quote_word w)) t)"
    using d n by (simp add: significant_token_def tokenize_word_def Let_def)
  then show ?thesis using d by (simp add: next_token_def Let_def and_then_def)
qed

lemma next_token_operator:
  assumes "drop (tk_pos t) (tk_bytes t) = operator_text k @ rest" "operator_text k \<noteq> []"
    and "rest = [] \<or> hd rest = CHR '' ''" and "tk_pos t = 0 \<or> tk_bytes t ! (tk_pos t - 1) = CHR '' ''"
  shows "next_token t = Inr (spanned_at k (tk_pos t) (tk_pos t + length (operator_text k)),
           other_at (tk_pos t + length (operator_text k)) t)"
proof -
  let ?p = "tk_pos t" and ?bs = "tk_bytes t"
  have pk: "nth_opt ?bs (?p + i) = nth_opt (operator_text k @ rest) i" for i
  proof -
    have "nth_opt ?bs (?p + i) = nth_opt (drop ?p ?bs) i"
      by (auto simp: nth_opt_def less_diff_conv add.commute)
    then show ?thesis by (simp add: assms(1))
  qed
  have r: "nth_opt rest 0 = None \<or> nth_opt rest 0 = Some CHR '' ''"
    using assms(3) by (cases rest) (auto simp: nth_opt_def)
  have p: "?p < length ?bs" using assms(1,2) by (cases "?p < length ?bs") auto
  have b: "?bs ! ?p = hd (operator_text k)"
    using pk [of 0] p assms(2) by (cases "operator_text k") (auto simp: nth_opt_def)
  have ws: "operator_has_required_whitespace ?bs ?p (length (operator_text k))"
    using pk [of "length (operator_text k)"] r assms(4) nth_append_length_plus [of "operator_text k" rest 0]
    by (auto simp: operator_has_required_whitespace_def is_operator_boundary_before_def
        is_operator_boundary_after_def is_boundary_char_def nth_opt_def split: if_splits)
  have "significant_token t = Inr (k, other_at (?p + length (operator_text k)) t)"
    using assms(2) pk [of 1] pk [of 2] b ws r
    by (cases k) (auto simp: significant_token_def tokenize_pipe_or_parallel_def Let_def peek_at_def nth_opt_def
        numeral_2_eq_2 numeral_3_eq_3)
  moreover have "\<not> is_blank (?bs ! ?p)" "?bs ! ?p \<noteq> newline_char" "?bs ! ?p \<noteq> return_char"
    using operator_head [OF assms(2)] b by auto
  ultimately show ?thesis using p by (simp add: next_token_def Let_def and_then_def)
qed

lemma next_token_blank:
  assumes "drop (tk_pos t) (tk_bytes t) = CHR '' '' # rest" "rest \<noteq> []" "\<not> is_blank (hd rest)"
  shows "next_token t = Inr (spanned_at (WhitespaceT '' '') (tk_pos t) (tk_pos t + 1), t\<lparr>tk_pos := tk_pos t + 1\<rparr>)"
proof -
  have d: "tk_pos t < length (tk_bytes t)" "tk_bytes t ! tk_pos t = CHR '' ''" "drop (Suc (tk_pos t)) (tk_bytes t) = rest"
    using drop_Suc_of_Cons [OF assms(1)] by auto
  have "skip_while is_blank (tk_bytes t) (Suc (tk_pos t)) = Suc (tk_pos t)"
    using assms(2,3) d(3) by (cases rest) (auto simp: skip_while_def)
  then show ?thesis using d by (simp add: next_token_def Let_def is_blank_def slice_1)
qed

lemma next_token_lexeme:
  assumes "drop (tk_pos t) (tk_bytes t) = lex_text x @ rest" "lex_ok x"
    and "rest = [] \<or> hd rest = CHR '' ''" and "tk_pos t = 0 \<or> tk_bytes t ! (tk_pos t - 1) = CHR '' ''"
  shows "next_token t = Inr (spanned_at (lex_tok x) (tk_pos t) (tk_pos t + length (lex_text x)),
           other_at (tk_pos t + length (lex_text x)) t)"
  using assms next_token_quoted [of t _ rest] next_token_operator [of t _ rest] by (cases x) simp_all

lemma lexeme_head: "lex_ok x \<Longrightarrow> lex_text x \<noteq> [] \<and> \<not> is_blank (hd (lex_text x)) \<and> lex_tok x \<noteq> Eof"
proof (cases x)
  case (LOp k)
  then show "lex_ok x \<Longrightarrow> ?thesis" using operator_head [of k] by (cases "k = Eof") auto
qed (simp add: quote_word_def)

lemma join_head: "lex_ok x \<Longrightarrow> join '' '' (map lex_text (x # xs)) \<noteq> []
    \<and> hd (join '' '' (map lex_text (x # xs))) = hd (lex_text x)"
  using lexeme_head [of x] by (cases xs) auto

lemma tokenize_loop_lexemes:
  assumes "drop (tk_pos t) (tk_bytes t) = join '' '' (map lex_text xs)" "list_all lex_ok xs"
    "tk_pos t = 0 \<or> tk_bytes t ! (tk_pos t - 1) = CHR '' ''" "tk_pos t \<le> length (tk_bytes t)"
  shows "tokenize_loop t acc = Inr (acc @ lex_tokens (tk_pos t) xs)"
  using assms
proof (induction "tk_pos t" xs arbitrary: t acc rule: lex_tokens.induct)
  case 1
  then show ?case by (simp add: tokenize_loop.simps [of t] next_token_def Let_def)
next
  case (2 x)
  let ?t = "other_at (tk_pos t + length (lex_text x)) t"
  from 2 have n: "next_token t = Inr (spanned_at (lex_tok x) (tk_pos t) (tk_pos t + length (lex_text x)), ?t)"
    using next_token_lexeme [of t x "[]"] by simp
  have l: "length (tk_bytes t) = tk_pos t + length (lex_text x)"
    using arg_cong [OF 2(1), of length] 2(4) by simp
  then have e: "next_token ?t = Inr (spanned_at Eof (tk_pos ?t) (tk_pos ?t), ?t)" by (simp add: next_token_def Let_def)
  show ?case using 2 lexeme_head [of x] n e by (simp add: tokenize_loop.simps)
next
  case (3 x y ys)
  let ?p = "tk_pos t + length (lex_text x)"
  let ?rest = "CHR '' '' # join '' '' (map lex_text (y # ys))"
  let ?t1 = "other_at ?p t" let ?t2 = "?t1\<lparr>tk_pos := ?p + 1\<rparr>"
  have d: "drop (tk_pos t) (tk_bytes t) = lex_text x @ ?rest" using 3(2) by simp
  have n1: "next_token t = Inr (spanned_at (lex_tok x) (tk_pos t) ?p, ?t1)"
    by (rule next_token_lexeme [OF d]) (use 3 in auto)
  have d1: "drop ?p (tk_bytes t) = ?rest" using arg_cong [OF d, of "drop (length (lex_text x))"] by (simp add: add.commute)
  note h = join_head [of y ys] lexeme_head [of y]
  have n2: "next_token ?t1 = Inr (spanned_at (WhitespaceT '' '') ?p (?p + 1), ?t2)"
    using next_token_blank [of ?t1 "join '' '' (map lex_text (y # ys))"] d1 h 3(3) by simp
  note d2 = drop_Suc_of_Cons [OF d1]
  have "tokenize_loop ?t2 (acc @ [spanned_at (lex_tok x) (tk_pos t) ?p, spanned_at (WhitespaceT '' '') ?p (?p + 1)])
      = Inr ((acc @ [spanned_at (lex_tok x) (tk_pos t) ?p, spanned_at (WhitespaceT '' '') ?p (?p + 1)]) @ lex_tokens (tk_pos ?t2) (y # ys))"
    by (rule 3(1)) (use d2 3(3) in auto)
  then show ?case using n1 n2 lexeme_head [of x] 3(3) by (simp add: tokenize_loop.simps [of t] tokenize_loop.simps [of ?t1])
qed

lemma tokenize_lexemes:
  assumes "list_all lex_ok xs"
  shows "tokenize (join '' '' (map lex_text xs)) = Inr (lex_tokens 0 xs)"
  using tokenize_loop_lexemes [of "tokenizer_new (join '' '' (map lex_text xs))" xs "[]"] assms
  by (simp add: tokenize_def tokenizer_new_def)

text \<open>
  C11.  The tokenizer loses nothing: when it accepts an input, its tokens cover the bytes from the
  first to the last without gap or overlap, each token is spelled by the bytes it covers (a word by
  itself or by its quoted form), and the list ends with the only end marker.  It returns on every
  input.  When it refuses a valid UTF-8 input, the reason is an unspaced chain operator or a bare
  pipe at the reported position, or an unterminated quote or escape; the \<^verbatim>\<open>unexpected character\<close>
  and \<^verbatim>\<open>invalid UTF-8\<close> branches are unreachable.
\<close>

theorem tokenizer_lossless:
  assumes "utf8_ok input"
  shows "case tokenize input of Inr toks \<Rightarrow> tiles input 0 toks | Inl e \<Rightarrow> expected_error input e"
  using tokenize_loop_tiles [of "tokenizer_new input" "[]"] tokenize_loop_error [of "tokenizer_new input" "[]"] assms
  by (auto simp: tokenize_def tokenizer_new_def split: sum.splits)

theorem tokenizer_lossless_witness:
  "(case tokenize ''a|b'' of Inr toks \<Rightarrow> tiles ''a|b'' 0 toks | Inl e \<Rightarrow> expected_error ''a|b'' e)
   \<and> (case tokenize ''a -> b'' of Inr toks \<Rightarrow> tiles ''a -> b'' 0 toks | Inl e \<Rightarrow> expected_error ''a -> b'' e)"
  using tokenizer_lossless [of "''a|b''"] tokenizer_lossless [of "''a -> b''"]
  by (simp add: utf8_ok_def)

text \<open>
  A line ending of carriage return and newline is a line break only after a blank or a delimiter:
  a word swallows the carriage return.
\<close>

lemma crlf_glued_to_word:
  "map_sum id (map tok) (tokenize (''a'' @ [return_char, newline_char] @ ''b'')) =
     Inr [WordT (''a'' @ [return_char]), Newline, WordT ''b'', Eof]"
  "map_sum id (map tok) (tokenize (''a '' @ [return_char, newline_char] @ ''b'')) =
     Inr [WordT ''a'', WhitespaceT '' '', Newline, WordT ''b'', Eof]"
  by code_simp+

end
