(* ===== verification/Parser.thy ===== *)
theory Parser
  imports Tokenizer CommandSpec Pipeline
begin

text \<open>
  The recursive descent parser (\<^verbatim>\<open>crates/cue-daemon/src/parser/ast.rs\<close> and \<^verbatim>\<open>parse.rs\<close>).  Every
  index and every string slice of the source that can panic is an explicit \<open>ParsePanic\<close> of the model.
\<close>

section \<open>Syntax trees\<close>

record ast_segment =
  as_command :: "string list"
  as_pipe_to_next :: "pipe_op option"

datatype job_expr =
    EPipeline "ast_segment list"
  | EAnd job_expr job_expr
  | EOr job_expr job_expr

datatype ast_chain =
    ALeaf job_expr
  | ASerial serial_op ast_chain ast_chain
  | AParallel parallel_op ast_chain ast_chain

datatype argument =
    ArgumentChain ast_chain
  | ArgumentIdRef id_kind u32
  | ArgumentText string
  | ArgumentTailRef id_kind u32 "nat option"
  | ArgumentEmpty

datatype ast =
    AScript "(string \<times> ast \<times> span) list" span
  | ACommand string "(string \<times> tok_value) list" argument span
  | ABareInput argument span

datatype parse_error_kind =
    UnknownCommand | InvalidModeParam | UnexpectedToken | MissingArgument | InvalidIdRef
  | UnmatchedParen | InvalidCronSchedule

record parse_error =
  pe_span :: span
  pe_message :: string
  pe_kind :: parse_error_kind
  pe_suggestions :: "string list"

datatype parse_failure = ParseErr parse_error | ParsePanic

abbreviation span_of :: "nat \<Rightarrow> nat \<Rightarrow> span" where
  "span_of a b \<equiv> \<lparr>sp_start = a, sp_end = b\<rparr>"

abbreviation parse_err :: "span \<Rightarrow> string \<Rightarrow> parse_error_kind \<Rightarrow> string list \<Rightarrow> (parse_failure, 'a) result" where
  "parse_err s m k g \<equiv> Inl (ParseErr \<lparr>pe_span = s, pe_message = m, pe_kind = k, pe_suggestions = g\<rparr>)"

text \<open>Slicing a string at byte offsets that are not character boundaries panics.\<close>

definition is_char_boundary :: "string \<Rightarrow> nat \<Rightarrow> bool" where
  "is_char_boundary s i \<longleftrightarrow> i = length s \<or> i < length s \<and> \<not> is_continuation (s ! i)"

definition str_slice :: "string \<Rightarrow> nat \<Rightarrow> nat \<Rightarrow> (parse_failure, string) result" where
  "str_slice s i j =
     (if i \<le> j \<and> is_char_boundary s i \<and> is_char_boundary s j then Inr (slice s i j) else Inl ParsePanic)"

section \<open>Parser state\<close>

record parser =
  p_tokens :: "spanned list"
  p_pos :: nat
  p_input_len :: nat
  p_input :: string

definition peek :: "parser \<Rightarrow> token" where
  "peek p = (case nth_opt (p_tokens p) (p_pos p) of Some s \<Rightarrow> tok s | None \<Rightarrow> Eof)"

definition peek_span :: "parser \<Rightarrow> span" where
  "peek_span p =
     (case nth_opt (p_tokens p) (p_pos p) of Some s \<Rightarrow> sp s | None \<Rightarrow> span_of (p_input_len p) (p_input_len p))"

definition advance :: "parser \<Rightarrow> (parse_failure, spanned \<times> parser) result" where
  "advance p =
     (case nth_opt (p_tokens p) (p_pos p) of
        Some s \<Rightarrow> Inr (s, p\<lparr>p_pos := p_pos p + 1\<rparr>)
      | None \<Rightarrow> Inl ParsePanic)"

definition expect :: "token \<Rightarrow> parser \<Rightarrow> (parse_failure, spanned \<times> parser) result" where
  "expect k p =
     (if peek p = k then advance p
      else parse_err (peek_span p) (''expected '' @ show_token k @ '', found '' @ show_token (peek p))
             UnexpectedToken [])"

definition at_end :: "parser \<Rightarrow> bool" where
  "at_end p \<longleftrightarrow> peek p = Eof"

definition remaining :: "parser \<Rightarrow> nat" where
  "remaining p = length (p_tokens p) - p_pos p"

lemma and_then_cong [fundef_cong]:
  "x = y \<Longrightarrow> (\<And>v. y = Inr v \<Longrightarrow> f v = g v) \<Longrightarrow> and_then x f = and_then y g"
  by (cases y) (auto simp: and_then_def)

lemma advance_Inr: "advance p = Inr (s, p') \<Longrightarrow>
    p' = p\<lparr>p_pos := Suc (p_pos p)\<rparr> \<and> p_pos p < length (p_tokens p) \<and> s = p_tokens p ! p_pos p"
  by (auto simp: advance_def nth_opt_def split: option.splits if_splits)

lemma advance_remaining: "advance p = Inr (s, p') \<Longrightarrow> remaining p' < remaining p"
  using advance_Inr by (fastforce simp: remaining_def)

section \<open>The chain grammar\<close>

text \<open>The word a token stands for in a command, if it stands for one.\<close>

fun token_word :: "token \<Rightarrow> string option" where
  "token_word (WordT w) = Some w"
| "token_word (IdRefT k n) = Some (show_id_kind k @ show_u32 n)"
| "token_word (CommandT c) = Some ('':'' @ c)"
| "token_word _ = None"

function atom_loop :: "string list \<Rightarrow> parser \<Rightarrow> (parse_failure, string list \<times> parser) result" where
  "atom_loop words p =
     (case token_word (peek p) of
        Some w \<Rightarrow> and_then (advance p) (\<lambda>(_, p'). atom_loop (words @ [w]) p')
      | None \<Rightarrow> Inr (words, p))"
  by pat_completeness auto
termination by (relation "measure (\<lambda>(w, p). remaining p)") (auto dest: advance_remaining)

declare atom_loop.simps [simp del]

definition parse_atom_words :: "parser \<Rightarrow> (parse_failure, string list \<times> parser) result" where
  "parse_atom_words p =
     (if peek p = GroupOpen then
        and_then (advance p) (\<lambda>_.
          parse_err (peek_span p)
            ''cannot nest a chain group `(...)` inside a pipeline. Use `|>` for process pipes, `->` / `|||` for job chains.''
            UnexpectedToken
            [''use |> for piping between processes'', ''use -> for serial job chaining''])
      else atom_loop [] p)"

fun pipe_token :: "token \<Rightarrow> pipe_op option" where
  "pipe_token PipeStdout = Some PipeStdoutOp"
| "pipe_token PipeAll = Some PipeStdoutStderrOp"
| "pipe_token PipeStderr = Some PipeStderrOnlyOp"
| "pipe_token _ = None"

fun job_op_token :: "token \<Rightarrow> bool option" where
  "job_op_token JobAnd = Some True"
| "job_op_token JobOr = Some False"
| "job_op_token _ = None"

fun parallel_token :: "token \<Rightarrow> parallel_op option" where
  "parallel_token ParallelAll = Some AllOp"
| "parallel_token ParallelRace = Some RaceOp"
| "parallel_token _ = None"

fun serial_token :: "token \<Rightarrow> serial_op option" where
  "serial_token SerialThen = Some Then"
| "serial_token SerialAlways = Some Always"
| "serial_token _ = None"

lemma atom_loop_remaining: "atom_loop words p = Inr (ws, p') \<Longrightarrow> remaining p' \<le> remaining p"
proof (induction words p rule: atom_loop.induct)
  case (1 words p)
  show ?case
  proof (cases "token_word (peek p)")
    case None
    then show ?thesis using 1(2) by (simp add: atom_loop.simps [of words p])
  next
    case (Some w)
    then obtain s p1 where a: "advance p = Inr (s, p1)" "atom_loop (words @ [w]) p1 = Inr (ws, p')"
      using 1(2) by (auto simp: atom_loop.simps [of words p] and_then_def split: sum.splits)
    from 1(1) [OF Some a(1) refl a(2)] advance_remaining [OF a(1)] show ?thesis by simp
  qed
qed

lemma parse_atom_words_remaining: "parse_atom_words p = Inr (ws, p') \<Longrightarrow> remaining p' \<le> remaining p"
  using atom_loop_remaining by (auto simp: parse_atom_words_def and_then_def split: if_splits sum.splits)

function pipeline_loop ::
    "ast_segment list \<Rightarrow> string list \<Rightarrow> parser \<Rightarrow> (parse_failure, ast_segment list \<times> parser) result" where
  "pipeline_loop segs words p =
     (case pipe_token (peek p) of
        None \<Rightarrow>
          Inr ((if words = [] then segs else segs @ [\<lparr>as_command = words, as_pipe_to_next = None\<rparr>]), p)
      | Some op \<Rightarrow>
          and_then (advance p) (\<lambda>(_, p1).
          and_then (parse_atom_words p1) (\<lambda>(words', p2).
            pipeline_loop (segs @ [\<lparr>as_command = words, as_pipe_to_next = Some op\<rparr>]) words' p2)))"
  by pat_completeness auto
termination
  by (relation "measure (\<lambda>(g, w, p). remaining p)")
     (auto dest!: advance_remaining parse_atom_words_remaining)

declare pipeline_loop.simps [simp del]

definition parse_pipeline :: "parser \<Rightarrow> (parse_failure, job_expr \<times> parser) result" where
  "parse_pipeline p =
     and_then (parse_atom_words p) (\<lambda>(first, p1).
     and_then (pipeline_loop [] first p1) (\<lambda>(segs, p2).
       if segs = [] then parse_err (peek_span p2) ''expected command'' MissingArgument []
       else Inr (EPipeline segs, p2)))"

section \<open>Reading and yields\<close>

text \<open>The lexeme a token is for the chain grammar, if it is one.\<close>

definition lexeme_of :: "token \<Rightarrow> lexeme option" where
  "lexeme_of k =
     (case token_word k of
        Some w \<Rightarrow> Some (LWord w)
      | None \<Rightarrow> if operator_text k \<noteq> [] then Some (LOp k) else None)"

text \<open>The parser \<open>p\<close> comes to \<open>p'\<close> by consuming tokens for exactly these lexemes.\<close>

fun reads :: "parser \<Rightarrow> lexeme list \<Rightarrow> parser \<Rightarrow> bool" where
  "reads p [] p' \<longleftrightarrow> p' = p"
| "reads p (x # xs) p' \<longleftrightarrow> (\<exists>s q. advance p = Inr (s, q) \<and> lexeme_of (tok s) = Some x \<and> reads q xs p')"

lemma reads_append: "reads p (xs @ ys) p' \<longleftrightarrow> (\<exists>q. reads p xs q \<and> reads q ys p')"
  by (induction xs arbitrary: p) auto

lemma reads_remaining: "reads p xs p' \<Longrightarrow> remaining p' + length xs \<le> remaining p"
proof (induction xs arbitrary: p)
  case (Cons x xs)
  then obtain s q where "advance p = Inr (s, q)" "reads q xs p'" by auto
  then show ?case using Cons.IH [of q] advance_remaining [of p s q] by simp
qed simp

lemma reads_le: "reads p xs p' \<Longrightarrow> remaining p' \<le> remaining p"
  using reads_remaining by fastforce

lemma advance_peek: "advance p = Inr (s, q) \<Longrightarrow> tok s = peek p"
  by (auto simp: advance_def peek_def split: option.splits)

lemma advance_ok: "peek p \<noteq> Eof \<Longrightarrow> \<exists>s q. advance p = Inr (s, q) \<and> tok s = peek p"
  by (auto simp: advance_def peek_def split: option.splits)

lemma reads_single: "reads p [x] p' \<longleftrightarrow> (\<exists>s. advance p = Inr (s, p') \<and> lexeme_of (peek p) = Some x)"
  using advance_peek by fastforce

lemma lexeme_of_simps [simp]:
  "lexeme_of k = Some (LWord w) \<longleftrightarrow> token_word k = Some w"
  "lexeme_of k = Some (LOp k') \<longleftrightarrow> k = k' \<and> token_word k = None \<and> operator_text k \<noteq> []"
  by (auto simp: lexeme_of_def split: option.splits)

lemma token_word_op [simp]: "operator_text k \<noteq> [] \<Longrightarrow> token_word k = None"
  by (cases k) auto

definition pipe_tok :: "pipe_op \<Rightarrow> token" where
  "pipe_tok op = (case op of PipeStdoutOp \<Rightarrow> PipeStdout | PipeStdoutStderrOp \<Rightarrow> PipeAll | PipeStderrOnlyOp \<Rightarrow> PipeStderr)"

definition job_tok :: "bool \<Rightarrow> token" where "job_tok b = (if b then JobAnd else JobOr)"
definition parallel_tok :: "parallel_op \<Rightarrow> token" where
  "parallel_tok op = (case op of AllOp \<Rightarrow> ParallelAll | RaceOp \<Rightarrow> ParallelRace)"
definition serial_tok :: "serial_op \<Rightarrow> token" where
  "serial_tok op = (case op of Then \<Rightarrow> SerialThen | Always \<Rightarrow> SerialAlways)"

lemma op_tokens:
  "pipe_token k = Some po \<longleftrightarrow> k = pipe_tok po" "job_op_token k = Some b \<longleftrightarrow> k = job_tok b"
  "parallel_token k = Some pa \<longleftrightarrow> k = parallel_tok pa" "serial_token k = Some so \<longleftrightarrow> k = serial_tok so"
  by (cases k; auto simp: pipe_tok_def job_tok_def parallel_tok_def serial_tok_def
      split: pipe_op.splits parallel_op.splits serial_op.splits)+

lemma op_texts [simp]:
  "operator_text (pipe_tok po) \<noteq> []" "operator_text (job_tok b) \<noteq> []"
  "operator_text (parallel_tok pa) \<noteq> []" "operator_text (serial_tok so) \<noteq> []"
  by (auto simp: pipe_tok_def job_tok_def parallel_tok_def serial_tok_def
      split: pipe_op.splits parallel_op.splits serial_op.splits)

subsection \<open>Words and pipelines\<close>

lemma atom_loop_sound:
  "atom_loop words p = Inr (ws, p') \<Longrightarrow> \<exists>new. ws = words @ new \<and> reads p (map LWord new) p'"
proof (induction words p rule: atom_loop.induct)
  case (1 words p)
  show ?case
  proof (cases "token_word (peek p)")
    case None
    then show ?thesis using 1(2) by (simp add: atom_loop.simps [of words p])
  next
    case (Some w)
    then obtain s p1 where a: "advance p = Inr (s, p1)" "atom_loop (words @ [w]) p1 = Inr (ws, p')"
      using 1(2) by (auto simp: atom_loop.simps [of words p] and_then_def split: sum.splits)
    from 1(1) [OF Some a(1) refl a(2)] obtain new where
      "ws = words @ w # new" "reads p1 (map LWord new) p'" by auto
    then show ?thesis using a(1) Some advance_peek [OF a(1)] by (intro exI [of _ "w # new"]) auto
  qed
qed

lemma atom_loop_complete:
  "reads p (map LWord ws) p' \<Longrightarrow> token_word (peek p') = None \<Longrightarrow> atom_loop words p = Inr (words @ ws, p')"
proof (induction ws arbitrary: words p)
  case Nil
  then show ?case by (simp add: atom_loop.simps [of words p])
next
  case (Cons w ws)
  from Cons(2) obtain s q where q: "advance p = Inr (s, q)" "token_word (tok s) = Some w" "reads q (map LWord ws) p'"
    by auto
  show ?case
    using Cons.IH [OF q(3) Cons(3), of "words @ [w]"] q(1,2) advance_peek [OF q(1)]
    by (simp add: atom_loop.simps [of words p] and_then_def)
qed

definition follow_atom :: "token \<Rightarrow> bool" where
  "follow_atom k \<longleftrightarrow> token_word k = None \<and> k \<noteq> GroupOpen"

lemma parse_atom_words_sound: "parse_atom_words p = Inr (ws, p') \<Longrightarrow> reads p (map LWord ws) p'"
  using atom_loop_sound [of "[]"] by (auto simp: parse_atom_words_def and_then_def split: if_splits sum.splits)

lemma parse_atom_words_complete:
  assumes "reads p (map LWord ws) p'" "follow_atom (peek p')"
  shows "parse_atom_words p = Inr (ws, p')"
proof -
  have "peek p \<noteq> GroupOpen"
  proof (cases ws)
    case Nil
    then show ?thesis using assms by (auto simp: follow_atom_def)
  next
    case (Cons w ws')
    then show ?thesis using assms(1) advance_peek by fastforce
  qed
  then show ?thesis using atom_loop_complete [of p ws p' "[]"] assms by (simp add: parse_atom_words_def follow_atom_def)
qed

definition pipe_yield :: "ast_segment \<Rightarrow> lexeme list" where
  "pipe_yield g = (case as_pipe_to_next g of Some op \<Rightarrow> [LOp (pipe_tok op)] | None \<Rightarrow> [])"

lemma pipe_yield_simps [simp]:
  "as_pipe_to_next g = None \<Longrightarrow> pipe_yield g = []"
  "as_pipe_to_next g = Some op \<Longrightarrow> pipe_yield g = [LOp (pipe_tok op)]"
  by (simp_all add: pipe_yield_def)

fun segments_yield :: "ast_segment list \<Rightarrow> lexeme list" where
  "segments_yield [] = []"
| "segments_yield (g # gs) = map LWord (as_command g) @ pipe_yield g @ segments_yield gs"

text \<open>
  The segment lists the parser builds: every segment but the last has a pipe to the next one, and
  a last segment without a pipe is not empty.
\<close>

fun segments_ok :: "ast_segment list \<Rightarrow> bool" where
  "segments_ok [] = False"
| "segments_ok [g] \<longleftrightarrow> (as_pipe_to_next g = None \<longrightarrow> as_command g \<noteq> [])"
| "segments_ok (g # gs) \<longleftrightarrow> as_pipe_to_next g \<noteq> None \<and> segments_ok gs"

lemma segments_ok_Cons: "gs \<noteq> [] \<Longrightarrow> segments_ok (g # gs) \<longleftrightarrow> as_pipe_to_next g \<noteq> None \<and> segments_ok gs"
  by (cases gs) auto

text \<open>What the loop adds: a list of segments, possibly none when the pending words are none.\<close>

lemma pipeline_loop_sound:
  "pipeline_loop segs words p = Inr (out, p') \<Longrightarrow>
     \<exists>new. out = segs @ new \<and> (new = [] \<and> words = [] \<and> p' = p \<or>
       segments_ok new \<and> (\<exists>rest. segments_yield new = map LWord words @ rest \<and> reads p rest p'))"
proof (induction segs words p rule: pipeline_loop.induct)
  case (1 segs words p)
  show ?case
  proof (cases "pipe_token (peek p)")
    case None
    then show ?thesis using 1(2) by (auto simp: pipeline_loop.simps [of segs words p])
  next
    case (Some op)
    then obtain s p1 ws p2 where a: "advance p = Inr (s, p1)" "parse_atom_words p1 = Inr (ws, p2)"
      and l: "pipeline_loop (segs @ [\<lparr>as_command = words, as_pipe_to_next = Some op\<rparr>]) ws p2 = Inr (out, p')"
      using 1(2) by (auto simp: pipeline_loop.simps [of segs words p] and_then_def split: sum.splits)
    let ?g = "\<lparr>as_command = words, as_pipe_to_next = Some op\<rparr>"
    have k: "lexeme_of (tok s) = Some (LOp (pipe_tok op))" using Some a(1) advance_peek op_tokens(1) by simp
    note w = parse_atom_words_sound [OF a(2)]
    from 1(1) [OF Some a(1) refl a(2) refl l] obtain new where "out = (segs @ [?g]) @ new"
      and new: "new = [] \<and> ws = [] \<and> p' = p2 \<or>
        segments_ok new \<and> (\<exists>rest. segments_yield new = map LWord ws @ rest \<and> reads p2 rest p')" by blast
    then have out: "out = segs @ ?g # new" by simp
    from new show ?thesis
    proof (elim disjE conjE exE)
      assume "new = []" "ws = []" "p' = p2"
      then show ?thesis using out w a(1) k
        by (intro exI [of _ "[?g]"]) (auto intro!: exI [of _ "[LOp (pipe_tok op)]"])
    next
      fix rest assume n: "segments_ok new" "segments_yield new = map LWord ws @ rest" "reads p2 rest p'"
      then have "new \<noteq> []" by auto
      moreover have "reads p (LOp (pipe_tok op) # map LWord ws @ rest) p'"
        using a(1) k w n(3) by (auto simp: reads_append)
      ultimately show ?thesis using out n
        by (intro exI [of _ "?g # new"]) (auto simp: segments_ok_Cons)
    qed
  qed
qed

definition follow_pipeline :: "token \<Rightarrow> bool" where
  "follow_pipeline k \<longleftrightarrow> follow_atom k \<and> pipe_token k = None"

lemma pipe_tok_follows: "follow_atom (pipe_tok op)"
  by (cases op) (auto simp: follow_atom_def pipe_tok_def)

lemma pipeline_loop_complete:
  assumes "segments_ok new" "segments_yield new = map LWord words @ rest" "as_command (hd new) = words"
    "reads p rest p'" "follow_pipeline (peek p')"
  shows "pipeline_loop segs words p = Inr (segs @ new, p')"
  using assms
proof (induction new arbitrary: segs words rest p)
  case (Cons g gs)
  have w: "words = as_command g" and r: "rest = pipe_yield g @ segments_yield gs"
    using Cons(3,4) by auto
  show ?case
  proof (cases "as_pipe_to_next g")
    case None
    then have "gs = []" using Cons(2) by (cases gs) auto
    then have "p' = p" "words \<noteq> []" using r None Cons(2,5) w by auto
    moreover have "\<lparr>as_command = words, as_pipe_to_next = None\<rparr> = g" using w None by simp
    ultimately show ?thesis using Cons(6) \<open>gs = []\<close>
      by (simp add: pipeline_loop.simps [of segs words p] follow_pipeline_def)
  next
    case (Some op)
    then obtain s p1 where a: "advance p = Inr (s, p1)" "tok s = pipe_tok op" and r1: "reads p1 (segments_yield gs) p'"
      using r Cons(5) by auto
    have peek: "pipe_token (peek p) = Some op" using a advance_peek [OF a(1)] op_tokens(1) by simp
    have g: "\<lparr>as_command = words, as_pipe_to_next = Some op\<rparr> = g" using w Some by simp
    show ?thesis
    proof (cases gs)
      case Nil
      then have "parse_atom_words p1 = Inr ([], p')"
        using parse_atom_words_complete [of p1 "[]" p'] r1 Cons(6) by (auto simp: follow_pipeline_def)
      then show ?thesis using a(1) peek Nil g Cons(6)
        by (simp add: pipeline_loop.simps [of segs words p] pipeline_loop.simps [of _ "[]" p'] and_then_def follow_pipeline_def)
    next
      case (Cons h hs)
      obtain p2 where p2: "reads p1 (map LWord (as_command h)) p2"
        "reads p2 (pipe_yield h @ segments_yield hs) p'"
        using r1 Cons by (auto simp: reads_append)
      have f: "follow_atom (peek p2)"
      proof (cases "as_pipe_to_next h")
        case None
        then have "hs = []" using Cons.prems(1) Cons by (cases hs) auto
        then show ?thesis using p2(2) None Cons.prems(5) by (simp add: follow_pipeline_def)
      next
        case (Some op')
        then show ?thesis using p2(2) advance_peek pipe_tok_follows by fastforce
      qed
      have "pipeline_loop (segs @ [g]) (as_command h) p2 = Inr ((segs @ [g]) @ gs, p')"
        by (rule Cons.IH) (use Cons p2 Cons.prems in \<open>auto simp: segments_ok_Cons\<close>)
      then show ?thesis using a(1) peek g parse_atom_words_complete [OF p2(1) f]
        by (simp add: pipeline_loop.simps [of segs words p] and_then_def)
    qed
  qed
qed simp

fun job_yield :: "job_expr \<Rightarrow> lexeme list" where
  "job_yield (EPipeline segs) = segments_yield segs"
| "job_yield (EAnd l r) = job_yield l @ LOp JobAnd # job_yield r"
| "job_yield (EOr l r) = job_yield l @ LOp JobOr # job_yield r"

fun pipeline_ok :: "job_expr \<Rightarrow> bool" where
  "pipeline_ok (EPipeline segs) = segments_ok segs"
| "pipeline_ok _ = False"

lemma parse_pipeline_sound:
  assumes "parse_pipeline p = Inr (e, p')"
  shows "pipeline_ok e \<and> reads p (job_yield e) p'"
proof -
  obtain first p1 segs where a: "parse_atom_words p = Inr (first, p1)" "pipeline_loop [] first p1 = Inr (segs, p')"
    and e: "segs \<noteq> []" "e = EPipeline segs"
    using assms by (auto simp: parse_pipeline_def and_then_def split: sum.splits if_splits)
  from pipeline_loop_sound [OF a(2)] e(1) obtain rest where
    "segments_ok segs" "segments_yield segs = map LWord first @ rest" "reads p1 rest p'" by auto
  then show ?thesis using parse_atom_words_sound [OF a(1)] e(2) by (auto simp: reads_append)
qed

lemma parse_pipeline_complete:
  assumes "pipeline_ok e" "reads p (job_yield e) p'" "follow_pipeline (peek p')"
  shows "parse_pipeline p = Inr (e, p')"
proof -
  obtain segs where e: "e = EPipeline segs" "segments_ok segs" using assms(1) by (cases e) auto
  then obtain g gs where segs: "segs = g # gs" by (cases segs) auto
  let ?rest = "pipe_yield g @ segments_yield gs"
  obtain p1 where p1: "reads p (map LWord (as_command g)) p1" "reads p1 ?rest p'"
    using assms(2) e segs by (auto simp: reads_append)
  have "follow_atom (peek p1)"
  proof (cases "as_pipe_to_next g")
    case None
    then have "gs = []" using e(2) segs by (cases gs) auto
    then show ?thesis using p1(2) None assms(3) by (simp add: follow_pipeline_def)
  next
    case (Some op)
    then show ?thesis using p1(2) advance_peek pipe_tok_follows by fastforce
  qed
  moreover have "pipeline_loop [] (as_command g) p1 = Inr ([] @ segs, p')"
    by (rule pipeline_loop_complete [where rest = ?rest]) (use e segs p1 assms(3) in auto)
  ultimately show ?thesis using parse_atom_words_complete [OF p1(1)] e segs
    by (simp add: parse_pipeline_def and_then_def)
qed

section \<open>Left-associative operators\<close>

text \<open>
  The grammar levels above pipelines have one shape: operands separated by the operators of the
  level, combined to the left.  The locale states what a level relies on (its operand parser is
  sound and complete for the operand yields and stops in front of the level's operators) and
  proves soundness and completeness of the level.
\<close>

locale left_assoc_level =
  fixes op_of :: "token \<Rightarrow> 'op option" and op_tok :: "'op \<Rightarrow> token"
    and operand :: "parser \<Rightarrow> (parse_failure, 'a \<times> parser) result"
    and combine :: "'op \<Rightarrow> 'a \<Rightarrow> 'a \<Rightarrow> 'a"
    and loop :: "'a \<Rightarrow> parser \<Rightarrow> (parse_failure, 'a \<times> parser) result"
    and yield :: "'a \<Rightarrow> lexeme list" and operand_ok level_ok :: "'a \<Rightarrow> bool"
    and follow_operand :: "token \<Rightarrow> bool"
  assumes op_of: "op_of k = Some op \<longleftrightarrow> k = op_tok op"
    and op_text: "operator_text (op_tok op) \<noteq> []"
    and op_follows: "follow_operand (op_tok op)"
    and loop_eq: "loop left p =
      (case op_of (peek p) of
         None \<Rightarrow> Inr (left, p)
       | Some op \<Rightarrow> and_then (advance p) (\<lambda>(_, p1). and_then (operand p1) (\<lambda>(right, p2). loop (combine op left right) p2)))"
    and operand_sound: "operand p = Inr (a, p') \<Longrightarrow> operand_ok a \<and> reads p (yield a) p'"
    and operand_complete: "operand_ok a \<Longrightarrow> reads p (yield a) p' \<Longrightarrow> follow_operand (peek p') \<Longrightarrow> operand p = Inr (a, p')"
    and yield_combine: "yield (combine op l r) = yield l @ LOp (op_tok op) # yield r"
    and level_operand: "operand_ok a \<Longrightarrow> level_ok a"
    and level_combine: "level_ok l \<Longrightarrow> operand_ok r \<Longrightarrow> level_ok (combine op l r)"
    and level_cases: "level_ok b \<Longrightarrow> operand_ok b \<or> (\<exists>op l r. b = combine op l r \<and> level_ok l \<and> operand_ok r)"
begin

lemma loop_sound:
  "loop left p = Inr (b, p') \<Longrightarrow> level_ok left \<Longrightarrow>
     level_ok b \<and> (\<exists>rest. yield b = yield left @ rest \<and> reads p rest p')"
proof (induction "remaining p" arbitrary: left p rule: less_induct)
  case less
  show ?case
  proof (cases "op_of (peek p)")
    case None
    then show ?thesis using less(2,3) by (subst (asm) loop_eq) simp
  next
    case (Some op)
    then obtain s p1 r p2 where a: "advance p = Inr (s, p1)" "operand p1 = Inr (r, p2)"
      and l: "loop (combine op left r) p2 = Inr (b, p')"
      using less(2) by (subst (asm) loop_eq) (auto simp: and_then_def split: sum.splits)
    note o = operand_sound [OF a(2)]
    have "remaining p2 < remaining p" using advance_remaining [OF a(1)] reads_le o by fastforce
    from less(1) [OF this l] o less(3) level_combine obtain rest where
      rest: "level_ok b" "yield b = yield (combine op left r) @ rest" "reads p2 rest p'" by blast
    have "reads p (LOp (op_tok op) # yield r @ rest) p'"
      using a(1) Some advance_peek [OF a(1)] op_of op_text o rest(3) by (auto simp: reads_append)
    then show ?thesis using rest(1,2) by (auto simp: yield_combine)
  qed
qed

lemma level_sound:
  assumes "and_then (operand p) (\<lambda>(left, p1). loop left p1) = Inr (b, p')"
  shows "level_ok b \<and> reads p (yield b) p'"
proof -
  obtain a p1 where a: "operand p = Inr (a, p1)" "loop a p1 = Inr (b, p')"
    using assms by (auto simp: and_then_def split: sum.splits)
  note o = operand_sound [OF a(1)]
  from loop_sound [OF a(2)] o level_operand show ?thesis by (auto simp: reads_append)
qed

lemma level_reaches:
  assumes "level_ok b" "reads p (yield b) p'" "follow_operand (peek p')"
  shows "\<exists>a q. operand p = Inr (a, q) \<and> loop a q = loop b p'"
  using assms
proof (induction "length (yield b)" arbitrary: b p p' rule: less_induct)
  case less
  from level_cases [OF less(2)] show ?case
  proof (elim disjE exE conjE)
    assume "operand_ok b"
    from operand_complete [OF this less(3,4)] show ?thesis by blast
  next
    fix op l r assume b: "b = combine op l r" and l: "level_ok l" and r: "operand_ok r"
    from less(3) b obtain q s q1 where q: "reads p (yield l) q" "advance q = Inr (s, q1)"
      "tok s = op_tok op" "reads q1 (yield r) p'"
      by (auto simp: yield_combine reads_append)
    have "peek q = op_tok op" using advance_peek [OF q(2)] q(3) by simp
    then have op: "op_of (peek q) = Some op" "follow_operand (peek q)" using op_of op_follows by auto
    have "length (yield l) < length (yield b)" using b by (simp add: yield_combine)
    from less(1) [OF this l q(1) op(2)] obtain a q' where "operand p = Inr (a, q')" "loop a q' = loop l q" by blast
    moreover have "loop l q = loop b p'"
      using operand_complete [OF r q(4) less(4)] q(2) op(1) b by (subst loop_eq) (simp add: and_then_def)
    ultimately show ?thesis by auto
  qed
qed

lemma level_complete:
  assumes "level_ok b" "reads p (yield b) p'" "follow_operand (peek p')" "op_of (peek p') = None"
  shows "and_then (operand p) (\<lambda>(left, p1). loop left p1) = Inr (b, p')"
proof -
  have "loop b p' = Inr (b, p')" using assms(4) by (subst loop_eq) simp
  then show ?thesis using level_reaches [OF assms(1-3)] by (auto simp: and_then_def)
qed

end

subsection \<open>Job expressions\<close>

definition job_combine :: "bool \<Rightarrow> job_expr \<Rightarrow> job_expr \<Rightarrow> job_expr" where
  "job_combine is_and left right = (if is_and then EAnd left right else EOr left right)"

lemma parse_pipeline_remaining: "parse_pipeline p = Inr (e, p') \<Longrightarrow> remaining p' \<le> remaining p"
  using parse_pipeline_sound reads_le by blast

function job_expr_loop :: "job_expr \<Rightarrow> parser \<Rightarrow> (parse_failure, job_expr \<times> parser) result" where
  "job_expr_loop left p =
     (case job_op_token (peek p) of
        None \<Rightarrow> Inr (left, p)
      | Some is_and \<Rightarrow>
          and_then (advance p) (\<lambda>(_, p1).
          and_then (parse_pipeline p1) (\<lambda>(right, p2). job_expr_loop (job_combine is_and left right) p2)))"
  by pat_completeness auto
termination
  by (relation "measure (\<lambda>(l, p). remaining p)") (auto dest!: advance_remaining parse_pipeline_remaining)

declare job_expr_loop.simps [simp del]

definition parse_job_expr :: "parser \<Rightarrow> (parse_failure, ast_chain \<times> parser) result" where
  "parse_job_expr p =
     and_then (and_then (parse_pipeline p) (\<lambda>(left, p1). job_expr_loop left p1)) (\<lambda>(e, p2). Inr (ALeaf e, p2))"

fun job_ok :: "job_expr \<Rightarrow> bool" where
  "job_ok (EPipeline segs) = segments_ok segs"
| "job_ok (EAnd l r) \<longleftrightarrow> job_ok l \<and> pipeline_ok r"
| "job_ok (EOr l r) \<longleftrightarrow> job_ok l \<and> pipeline_ok r"

lemma pipeline_job_ok: "pipeline_ok e \<Longrightarrow> job_ok e"
  by (cases e) auto

lemma job_ok_cases: "job_ok e \<Longrightarrow> pipeline_ok e \<or> (\<exists>op l r. e = job_combine op l r \<and> job_ok l \<and> pipeline_ok r)"
  by (cases e) (auto simp: job_combine_def)

lemma op_follow_pipeline [simp]:
  "follow_pipeline (job_tok b)" "follow_pipeline (parallel_tok pa)" "follow_pipeline (serial_tok so)"
  by (auto simp: follow_pipeline_def follow_atom_def job_tok_def parallel_tok_def serial_tok_def
      split: parallel_op.splits serial_op.splits)

interpretation job_level: left_assoc_level job_op_token job_tok parse_pipeline job_combine job_expr_loop
    job_yield pipeline_ok job_ok follow_pipeline
  by unfold_locales
    (rule op_tokens(2), simp, simp, rule job_expr_loop.simps, erule parse_pipeline_sound, erule (2) parse_pipeline_complete, simp add: job_combine_def job_tok_def, erule pipeline_job_ok, simp add: job_combine_def, erule job_ok_cases)

definition follow_job :: "token \<Rightarrow> bool" where
  "follow_job k \<longleftrightarrow> follow_pipeline k \<and> job_op_token k = None"

fun chain_yield :: "ast_chain \<Rightarrow> lexeme list" where
  "chain_yield (ALeaf e) = job_yield e"
| "chain_yield (ASerial op l r) = chain_yield l @ LOp (serial_tok op) # chain_yield r"
| "chain_yield (AParallel op l r) = chain_yield l @ LOp (parallel_tok op) # chain_yield r"

fun leaf_ok :: "ast_chain \<Rightarrow> bool" where
  "leaf_ok (ALeaf e) = job_ok e"
| "leaf_ok _ = False"

lemma parse_job_expr_sound: "parse_job_expr p = Inr (c, p') \<Longrightarrow> leaf_ok c \<and> reads p (chain_yield c) p'"
  using job_level.level_sound [of p] unfolding parse_job_expr_def
  by (cases "and_then (parse_pipeline p) (\<lambda>(left, p1). job_expr_loop left p1)") (auto simp: and_then_def)

lemma parse_job_expr_complete:
  "leaf_ok c \<Longrightarrow> reads p (chain_yield c) p' \<Longrightarrow> follow_job (peek p') \<Longrightarrow> parse_job_expr p = Inr (c, p')"
  using job_level.level_complete [of _ p p'] by (cases c) (auto simp: parse_job_expr_def follow_job_def)

subsection \<open>Parallel groups\<close>

lemma parse_job_expr_remaining: "parse_job_expr p = Inr (e, p') \<Longrightarrow> remaining p' \<le> remaining p"
  using parse_job_expr_sound reads_le by blast

function parallel_loop :: "ast_chain \<Rightarrow> parser \<Rightarrow> (parse_failure, ast_chain \<times> parser) result" where
  "parallel_loop left p =
     (case parallel_token (peek p) of
        None \<Rightarrow> Inr (left, p)
      | Some op \<Rightarrow>
          and_then (advance p) (\<lambda>(_, p1).
          and_then (parse_job_expr p1) (\<lambda>(right, p2). parallel_loop (AParallel op left right) p2)))"
  by pat_completeness auto
termination
  by (relation "measure (\<lambda>(l, p). remaining p)") (auto dest!: advance_remaining parse_job_expr_remaining)

declare parallel_loop.simps [simp del]

definition parse_parallel :: "parser \<Rightarrow> (parse_failure, ast_chain \<times> parser) result" where
  "parse_parallel p = and_then (parse_job_expr p) (\<lambda>(left, p1). parallel_loop left p1)"

fun parallel_ok :: "ast_chain \<Rightarrow> bool" where
  "parallel_ok (ALeaf e) = job_ok e"
| "parallel_ok (AParallel op l r) \<longleftrightarrow> parallel_ok l \<and> leaf_ok r"
| "parallel_ok (ASerial op l r) = False"

lemma leaf_parallel_ok: "leaf_ok c \<Longrightarrow> parallel_ok c"
  by (cases c) auto

lemma parallel_ok_cases: "parallel_ok c \<Longrightarrow> leaf_ok c \<or> (\<exists>op l r. c = AParallel op l r \<and> parallel_ok l \<and> leaf_ok r)"
  by (cases c) auto

lemma op_follow_job [simp]: "follow_job (parallel_tok pa)" "follow_job (serial_tok so)"
  by (auto simp: follow_job_def)
     (auto simp: parallel_tok_def serial_tok_def split: parallel_op.splits serial_op.splits)

interpretation parallel_level: left_assoc_level parallel_token parallel_tok parse_job_expr AParallel parallel_loop
    chain_yield leaf_ok parallel_ok follow_job
  by unfold_locales
    (rule op_tokens(3), simp, simp, rule parallel_loop.simps, erule parse_job_expr_sound, erule (2) parse_job_expr_complete, simp, erule leaf_parallel_ok, simp, erule parallel_ok_cases)

definition follow_parallel :: "token \<Rightarrow> bool" where
  "follow_parallel k \<longleftrightarrow> follow_job k \<and> parallel_token k = None"

lemmas parse_parallel_sound = parallel_level.level_sound [folded parse_parallel_def]

lemma parse_parallel_complete:
  "parallel_ok c \<Longrightarrow> reads p (chain_yield c) p' \<Longrightarrow> follow_parallel (peek p') \<Longrightarrow> parse_parallel p = Inr (c, p')"
  using parallel_level.level_complete by (simp add: parse_parallel_def follow_parallel_def)

subsection \<open>Chains\<close>

lemma parse_parallel_remaining: "parse_parallel p = Inr (c, p') \<Longrightarrow> remaining p' \<le> remaining p"
  using parse_parallel_sound reads_le by blast

function chain_loop :: "ast_chain \<Rightarrow> parser \<Rightarrow> (parse_failure, ast_chain \<times> parser) result" where
  "chain_loop left p =
     (case serial_token (peek p) of
        None \<Rightarrow> Inr (left, p)
      | Some op \<Rightarrow>
          and_then (advance p) (\<lambda>(_, p1).
          and_then (parse_parallel p1) (\<lambda>(right, p2). chain_loop (ASerial op left right) p2)))"
  by pat_completeness auto
termination
  by (relation "measure (\<lambda>(l, p). remaining p)") (auto dest!: advance_remaining parse_parallel_remaining)

declare chain_loop.simps [simp del]

definition parse_chain :: "parser \<Rightarrow> (parse_failure, ast_chain \<times> parser) result" where
  "parse_chain p = and_then (parse_parallel p) (\<lambda>(left, p1). chain_loop left p1)"

fun chain_ok :: "ast_chain \<Rightarrow> bool" where
  "chain_ok (ASerial op l r) \<longleftrightarrow> chain_ok l \<and> parallel_ok r"
| "chain_ok c = parallel_ok c"

lemma parallel_chain_ok: "parallel_ok c \<Longrightarrow> chain_ok c"
  by (cases c) auto

lemma chain_ok_cases: "chain_ok c \<Longrightarrow> parallel_ok c \<or> (\<exists>op l r. c = ASerial op l r \<and> chain_ok l \<and> parallel_ok r)"
  by (cases c) auto

lemma op_follow_parallel [simp]: "follow_parallel (serial_tok so)"
  by (auto simp: follow_parallel_def) (auto simp: serial_tok_def split: serial_op.splits)

interpretation chain_level: left_assoc_level serial_token serial_tok parse_parallel ASerial chain_loop
    chain_yield parallel_ok chain_ok follow_parallel
  by unfold_locales
    (rule op_tokens(4), simp, simp, rule chain_loop.simps, erule parse_parallel_sound, erule (2) parse_parallel_complete, simp, erule parallel_chain_ok, simp, erule chain_ok_cases)

lemmas parse_chain_sound = chain_level.level_sound [folded parse_chain_def]

lemma parse_chain_complete:
  "chain_ok c \<Longrightarrow> reads p (chain_yield c) p' \<Longrightarrow> follow_parallel (peek p') \<Longrightarrow> serial_token (peek p') = None \<Longrightarrow>
     parse_chain p = Inr (c, p')"
  using chain_level.level_complete by (simp add: parse_chain_def)

section \<open>Commands\<close>

definition suggest_command :: "string \<Rightarrow> (parse_failure, string list) result" where
  "suggest_command n = ok_or (map_option (map (\<lambda>c. '':'' @ c)) (command_suggestions n)) ParsePanic"

definition command_spec_or_error :: "string \<Rightarrow> span \<Rightarrow> (parse_failure, command_spec) result" where
  "command_spec_or_error n s =
     (case command_spec_of n of
        Some spec \<Rightarrow> Inr spec
      | None \<Rightarrow> and_then (suggest_command n) (\<lambda>g.
          parse_err s (''unknown command `:'' @ n @ ''`'') UnknownCommand g))"

fun mode_param_value_kind_name :: "mode_param_value_kind \<Rightarrow> string" where
  "mode_param_value_kind_name StringValue = ''a string''"
| "mode_param_value_kind_name BoolValue = ''a boolean''"

fun value_matches :: "mode_param_value_kind \<Rightarrow> tok_value \<Rightarrow> bool" where
  "value_matches StringValue (VStr _) = True"
| "value_matches BoolValue (VBool _) = True"
| "value_matches _ _ = False"

definition validate_mode_param_value :: "mode_param_spec \<Rightarrow> tok_value \<Rightarrow> span \<Rightarrow> (parse_failure, unit) result" where
  "validate_mode_param_value spec v s =
     (if value_matches (value_kind spec) v then Inr ()
      else parse_err s
             (''mode parameter `'' @ mps_name spec @ ''` expects ''
                @ mode_param_value_kind_name (value_kind spec) @ '' (e.g. '' @ value_hint spec @ '')'')
             InvalidModeParam [mps_name spec @ ''='' @ value_hint spec])"

text \<open>The value of a parameter, read the same way after both kinds of key.\<close>

definition parse_param_value :: "parser \<Rightarrow> (parse_failure, tok_value \<times> parser) result" where
  "parse_param_value p =
     (case peek p of
        ParamValueT v \<Rightarrow> and_then (advance p) (\<lambda>(_, p'). Inr (v, p'))
      | WordT s \<Rightarrow> and_then (advance p) (\<lambda>(_, p'). Inr (VStr s, p'))
      | _ \<Rightarrow> parse_err (peek_span p) (''expected parameter value, found '' @ show_token (peek p)) InvalidModeParam [])"

text \<open>One \<^verbatim>\<open>key=value\<close> after its key: a resource need, or a parameter of the table.\<close>

definition parse_need_param ::
    "string \<Rightarrow> string \<Rightarrow> string \<Rightarrow> span \<Rightarrow> parser \<Rightarrow> (parse_failure, (string \<times> tok_value) \<times> parser) result" where
  "parse_need_param command key sfx key_span p =
     (if mode_param_spec_for_command command ''need.<resource>'' = None
      then parse_err key_span (''mode parameter `'' @ key @ ''` is not supported by `:'' @ command @ ''`'') InvalidModeParam []
      else if sfx = []
      then parse_err key_span ''`need.` requires a key suffix (e.g. `need.gpu_mem=24GiB`)'' InvalidModeParam
             [''need.gpu=1'', ''need.gpu_mem=24GiB'']
      else
        and_then (expect ParamEq p) (\<lambda>(_, p1).
        and_then (parse_param_value p1) (\<lambda>(v, p2).
          case v of
            VStr _ \<Rightarrow> Inr ((key, v), p2)
          | VBool _ \<Rightarrow>
              parse_err (peek_span p1)
                (''resource need `'' @ key @ ''` expects a string quantity (e.g. 1 or 24GiB), got a boolean'')
                InvalidModeParam [key @ ''=1'', key @ ''=24GiB''])))"

definition parse_table_param ::
    "string \<Rightarrow> string \<Rightarrow> span \<Rightarrow> parser \<Rightarrow> (parse_failure, (string \<times> tok_value) \<times> parser) result" where
  "parse_table_param command key key_span p =
     (case mode_param_spec_of key of
        None \<Rightarrow> parse_err key_span (''unknown mode parameter `'' @ key @ ''`'') InvalidModeParam []
      | Some _ \<Rightarrow>
          (case mode_param_spec_for_command command key of
             None \<Rightarrow> parse_err key_span (''mode parameter `'' @ key @ ''` is not supported by `:'' @ command @ ''`'')
                       InvalidModeParam []
           | Some spec \<Rightarrow>
               and_then (expect ParamEq p) (\<lambda>(_, p1).
               and_then (parse_param_value p1) (\<lambda>(v, p2).
               and_then (validate_mode_param_value spec v (peek_span p1)) (\<lambda>_. Inr ((key, v), p2))))))"

lemma expect_remaining: "expect k p = Inr (s, p') \<Longrightarrow> remaining p' < remaining p"
  by (auto simp: expect_def dest: advance_remaining split: if_splits)

lemma parse_param_value_remaining: "parse_param_value p = Inr (v, p') \<Longrightarrow> remaining p' < remaining p"
  by (auto simp: parse_param_value_def and_then_def dest: advance_remaining split: token.splits sum.splits)

lemma parse_need_param_remaining: "parse_need_param c k x s p = Inr (kv, p') \<Longrightarrow> remaining p' < remaining p"
  by (force simp: parse_need_param_def and_then_def dest: expect_remaining parse_param_value_remaining
      split: if_splits sum.splits tok_value.splits)

lemma parse_table_param_remaining: "parse_table_param c k s p = Inr (kv, p') \<Longrightarrow> remaining p' < remaining p"
  by (force simp: parse_table_param_def and_then_def dest: expect_remaining parse_param_value_remaining
      split: option.splits sum.splits)

definition parse_one_param :: "string \<Rightarrow> parser \<Rightarrow> (parse_failure, (string \<times> tok_value) \<times> parser) result" where
  "parse_one_param command p =
     (case peek p of
        WordT key \<Rightarrow>
          and_then (advance p) (\<lambda>(s, p1).
            case strip_prefix ''need.'' key of
              Some sfx \<Rightarrow> parse_need_param command key sfx (sp s) p1
            | None \<Rightarrow> parse_table_param command key (sp s) p1)
      | _ \<Rightarrow> parse_err (peek_span p) (''expected parameter name, found '' @ show_token (peek p)) InvalidModeParam [])"

lemma parse_one_param_remaining: "parse_one_param c p = Inr (kv, p') \<Longrightarrow> remaining p' < remaining p"
  by (force simp: parse_one_param_def and_then_def
      dest: advance_remaining parse_need_param_remaining parse_table_param_remaining
      split: token.splits sum.splits option.splits)

function parse_mode_params ::
    "string \<Rightarrow> (string \<times> tok_value) list \<Rightarrow> parser \<Rightarrow> (parse_failure, (string \<times> tok_value) list \<times> parser) result" where
  "parse_mode_params command params p =
     (if peek p = ModeParenClose then and_then (advance p) (\<lambda>(_, p'). Inr (params, p'))
      else if peek p = Eof then parse_err (peek_span p) ''unterminated mode params'' UnmatchedParen []
      else if peek p = Comma then and_then (advance p) (\<lambda>(_, p'). parse_mode_params command params p')
      else and_then (parse_one_param command p) (\<lambda>(kv, p'). parse_mode_params command (params @ [kv]) p'))"
  by pat_completeness auto
termination
  by (relation "measure (\<lambda>(c, k, p). remaining p)") (auto dest: advance_remaining parse_one_param_remaining)

declare parse_mode_params.simps [simp del]

definition validate_id_kind :: "string \<Rightarrow> command_id_kind \<Rightarrow> id_kind \<Rightarrow> span \<Rightarrow> (parse_failure, unit) result" where
  "validate_id_kind command allowed actual s =
     (if (case actual of KJob \<Rightarrow> accepts_job allowed | KCron \<Rightarrow> accepts_cron allowed) then Inr ()
      else parse_err s ('':'' @ command @ '' expects '' @ id_kind_display allowed @ '' ID, got '' @ show_id_kind actual)
             InvalidIdRef ['':'' @ command @ '' '' @ first_example allowed])"

definition validate_text_target :: "string \<Rightarrow> command_id_kind \<Rightarrow> token \<Rightarrow> span \<Rightarrow> (parse_failure, unit) result" where
  "validate_text_target command allowed target s =
     (let hint = ['':'' @ command @ '' '' @ first_example allowed @ '' your input'']
      in case target of
           IdRefT kind _ \<Rightarrow> validate_id_kind command allowed kind s
         | Eof \<Rightarrow> parse_err s (''`:'' @ command @ ''` requires a target and input'') MissingArgument hint
         | _ \<Rightarrow> parse_err s ('':'' @ command @ '' requires a target ID ('' @ id_kind_display allowed @ '')'') InvalidIdRef hint)"

function consume_all :: "token list \<Rightarrow> parser \<Rightarrow> (parse_failure, token list \<times> parser) result" where
  "consume_all parts p =
     (if at_end p then Inr (parts, p)
      else and_then (advance p) (\<lambda>(s, p'). consume_all (parts @ [tok s]) p'))"
  by pat_completeness auto
termination by (relation "measure (\<lambda>(t, p). remaining p)") (auto dest: advance_remaining)

declare consume_all.simps [simp del]

definition consume_remaining_text :: "parser \<Rightarrow> (parse_failure, string \<times> parser) result" where
  "consume_remaining_text p =
     and_then (consume_all [] p) (\<lambda>(parts, p'). Inr (join '' '' (map show_token parts), p'))"

definition consume_remaining_raw_text :: "parser \<Rightarrow> (parse_failure, string \<times> parser) result" where
  "consume_remaining_raw_text p =
     (if at_end p then Inr ([], p)
      else
        case nth_opt (p_tokens p) (p_pos p) of
          None \<Rightarrow> Inl ParsePanic
        | Some s \<Rightarrow>
            let end_pos = (if p_tokens p = [] then p_input_len p else sp_end (sp (last (p_tokens p))))
            in and_then (consume_all [] p) (\<lambda>(_, p').
               and_then (str_slice (p_input p) (sp_start (sp s)) end_pos) (\<lambda>text. Inr (text, p'))))"

definition parse_id_argument ::
    "string \<Rightarrow> command_id_kind \<Rightarrow> id_kind \<Rightarrow> parser \<Rightarrow> (parse_failure, parser) result" where
  "parse_id_argument n allowed kind p =
     and_then (validate_id_kind n allowed kind (peek_span p)) (\<lambda>_.
     and_then (advance p) (\<lambda>(_, p'). Inr p'))"

definition parse_argument_for_command ::
    "string \<Rightarrow> command_spec \<Rightarrow> parser \<Rightarrow> (parse_failure, argument \<times> parser) result" where
  "parse_argument_for_command n spec p =
     (case arg_kind spec of
        ArgChain \<Rightarrow>
          if at_end p
          then parse_err (peek_span p) (''`:'' @ n @ ''` requires a command'') MissingArgument ['':'' @ n @ '' cargo test'']
          else and_then (parse_chain p) (\<lambda>(c, p'). Inr (ArgumentChain c, p'))
      | ArgCron \<Rightarrow>
          if at_end p
          then parse_err (peek_span p) (''`:'' @ n @ ''` requires a schedule expression'') MissingArgument
                 ['':cron every 5m cargo test'']
          else and_then (parse_chain p) (\<lambda>(c, p'). Inr (ArgumentChain c, p'))
      | ArgTail allowed \<Rightarrow>
          (case peek p of
             IdRefT kind i \<Rightarrow>
               and_then (parse_id_argument n allowed kind p) (\<lambda>p1.
                 case peek p1 of
                   WordT w \<Rightarrow>
                     (case parse_uint 64 w of
                        Some b \<Rightarrow> and_then (advance p1) (\<lambda>(_, p2). Inr (ArgumentTailRef kind i (Some b), p2))
                      | None \<Rightarrow> Inr (ArgumentTailRef kind i None, p1))
                 | _ \<Rightarrow> Inr (ArgumentTailRef kind i None, p1))
           | _ \<Rightarrow> parse_err (peek_span p) ('':'' @ n @ '' requires an ID ('' @ id_kind_display allowed @ '')'') InvalidIdRef
                   ['':'' @ n @ '' '' @ first_example allowed, '':'' @ n @ '' '' @ first_example allowed @ '' 1024''])
      | ArgId allowed \<Rightarrow>
          (case peek p of
             IdRefT kind i \<Rightarrow> and_then (parse_id_argument n allowed kind p) (\<lambda>p1. Inr (ArgumentIdRef kind i, p1))
           | _ \<Rightarrow> parse_err (peek_span p) ('':'' @ n @ '' requires an ID ('' @ id_kind_display allowed @ '')'') InvalidIdRef
                   ['':'' @ n @ '' '' @ first_example allowed])
      | ArgText \<Rightarrow>
          and_then (consume_remaining_raw_text p) (\<lambda>(text, p1).
            if text = []
            then parse_err (peek_span p1)
                   (if n = ''send'' then ''`:send` requires a target and input'' else '':'' @ n @ '' requires an argument'')
                   MissingArgument []
            else Inr (ArgumentText text, p1))
      | ArgTargetText allowed \<Rightarrow>
          and_then (validate_text_target n allowed (peek p) (peek_span p)) (\<lambda>_.
          and_then (consume_remaining_raw_text p) (\<lambda>(text, p1).
            if text = []
            then parse_err (peek_span p1) (''`:'' @ n @ ''` requires a target and input'') MissingArgument
                   ['':'' @ n @ '' '' @ first_example allowed @ '' your input'']
            else Inr (ArgumentText text, p1)))
      | ArgOptionalId allowed \<Rightarrow>
          (case peek p of
             IdRefT kind i \<Rightarrow> and_then (parse_id_argument n allowed kind p) (\<lambda>p1. Inr (ArgumentIdRef kind i, p1))
           | _ \<Rightarrow> Inr (ArgumentEmpty, p))
      | ArgEmpty \<Rightarrow> Inr (ArgumentEmpty, p)
      | ArgOptionalText \<Rightarrow>
          and_then (consume_remaining_text p) (\<lambda>(text, p1).
            Inr (if text = [] then (ArgumentEmpty, p1) else (ArgumentText text, p1))))"

definition parse_optional_params ::
    "string \<Rightarrow> command_spec \<Rightarrow> parser \<Rightarrow> (parse_failure, (string \<times> tok_value) list \<times> parser) result" where
  "parse_optional_params n spec p =
     (if peek p = ModeParenOpen then
        if \<not> accepts_mode_params spec
        then parse_err (peek_span p) (''`:'' @ n @ ''` does not accept mode params'') InvalidModeParam [usage spec]
        else and_then (advance p) (\<lambda>(_, p'). parse_mode_params n [] p')
      else Inr ([], p))"

definition parse_command :: "nat \<Rightarrow> parser \<Rightarrow> (parse_failure, ast \<times> parser) result" where
  "parse_command span_start p =
     and_then (advance p) (\<lambda>(s, p1).
       case tok s of
         CommandT n \<Rightarrow>
           and_then (command_spec_or_error n (peek_span p1)) (\<lambda>spec.
           and_then (parse_optional_params n spec p1) (\<lambda>(params, p2).
           and_then (parse_argument_for_command n spec p2) (\<lambda>(arg, p3).
             Inr (ACommand n params arg (span_of span_start (sp_start (peek_span p3))), p3))))
       | _ \<Rightarrow> Inl ParsePanic)"

section \<open>Statements and scripts\<close>

definition is_command_token :: "token \<Rightarrow> bool" where
  "is_command_token k = (case k of CommandT _ \<Rightarrow> True | _ \<Rightarrow> False)"

definition parse_statement :: "parser \<Rightarrow> (parse_failure, ast \<times> parser) result" where
  "parse_statement p =
     (let span_start = sp_start (peek_span p)
      in if is_command_token (peek p) then parse_command span_start p
         else if at_end p then Inr (ABareInput ArgumentEmpty (span_of span_start span_start), p)
         else and_then (parse_chain p) (\<lambda>(c, p').
                Inr (ABareInput (ArgumentChain c) (span_of span_start (sp_end (peek_span p'))), p')))"

definition parse_single_statement :: "parser \<Rightarrow> (parse_failure, ast) result" where
  "parse_single_statement p =
     and_then (parse_statement p) (\<lambda>(a, p').
       if at_end p' then Inr a
       else parse_err (peek_span p') (''unexpected token '' @ show_token (peek p')) UnexpectedToken [])"

record script_chunk =
  ch_tokens :: "spanned list"
  ch_source :: string
  ch_span :: span

definition token_requires_continuation :: "token \<Rightarrow> bool" where
  "token_requires_continuation k \<longleftrightarrow>
     k \<in> {SerialThen, SerialAlways, ParallelAll, ParallelRace, PipeStdout, PipeAll, PipeStderr, JobAnd, JobOr}"

definition should_split_on_newline :: "spanned list \<Rightarrow> nat \<Rightarrow> spanned list \<Rightarrow> bool" where
  "should_split_on_newline rest depth current =
     (if current = [] then True
      else if 0 < depth then False
      else if token_requires_continuation (tok (last current)) then False
      else case find (\<lambda>s. tok s \<noteq> Newline \<and> tok s \<noteq> Eof) rest of
             Some s \<Rightarrow> \<not> token_requires_continuation (tok s)
           | None \<Rightarrow> True)"

definition push_script_chunk ::
    "string \<Rightarrow> script_chunk list \<Rightarrow> spanned list \<Rightarrow> (parse_failure, script_chunk list) result" where
  "push_script_chunk input chunks current =
     (if current = [] then Inr chunks
      else
        let a = sp_start (sp (hd current)); b = sp_end (sp (last current))
        in and_then (str_slice input a b) (\<lambda>text.
             Inr (if trim text = [] then chunks
                  else chunks @ [\<lparr>ch_tokens = current, ch_source = trim text, ch_span = span_of a b\<rparr>])))"

fun split_loop ::
    "string \<Rightarrow> script_chunk list \<Rightarrow> spanned list \<Rightarrow> nat \<Rightarrow> spanned list \<Rightarrow> (parse_failure, script_chunk list) result" where
  "split_loop input chunks current depth [] = push_script_chunk input chunks current"
| "split_loop input chunks current depth (s # rest) =
     (case tok s of
        Eof \<Rightarrow> push_script_chunk input chunks current
      | ModeParenOpen \<Rightarrow> split_loop input chunks (current @ [s]) (depth + 1) rest
      | GroupOpen \<Rightarrow> split_loop input chunks (current @ [s]) (depth + 1) rest
      | ModeParenClose \<Rightarrow> split_loop input chunks (current @ [s]) (depth - 1) rest
      | GroupClose \<Rightarrow> split_loop input chunks (current @ [s]) (depth - 1) rest
      | Newline \<Rightarrow>
          if should_split_on_newline rest depth current
          then and_then (push_script_chunk input chunks current) (\<lambda>chunks'. split_loop input chunks' [] depth rest)
          else split_loop input chunks current depth rest
      | _ \<Rightarrow> split_loop input chunks (current @ [s]) depth rest)"

definition split_top_level_statements :: "spanned list \<Rightarrow> string \<Rightarrow> (parse_failure, script_chunk list) result" where
  "split_top_level_statements tokens input = split_loop input [] [] 0 tokens"

definition is_whitespace_token :: "token \<Rightarrow> bool" where
  "is_whitespace_token k = (case k of WhitespaceT _ \<Rightarrow> True | _ \<Rightarrow> False)"

definition tokenize_for_parser :: "string \<Rightarrow> (parse_failure, spanned list) result" where
  "tokenize_for_parser input =
     (case tokenize input of
        Inl e \<Rightarrow> parse_err (span_of (te_pos e) (te_pos e + 1)) (te_message e) UnexpectedToken []
      | Inr toks \<Rightarrow> Inr (filter (\<lambda>s. \<not> is_whitespace_token (tok s)) toks))"

definition chunk_parser :: "string \<Rightarrow> script_chunk \<Rightarrow> parser" where
  "chunk_parser input c = \<lparr>p_tokens = ch_tokens c, p_pos = 0, p_input_len = length input, p_input = input\<rparr>"

definition parse_chunk :: "string \<Rightarrow> script_chunk \<Rightarrow> (parse_failure, string \<times> ast \<times> span) result" where
  "parse_chunk input c =
     and_then (parse_single_statement (chunk_parser input c)) (\<lambda>a. Inr (ch_source c, a, ch_span c))"

definition script_of_chunks :: "string \<Rightarrow> script_chunk list \<Rightarrow> (parse_failure, ast) result" where
  "script_of_chunks input chunks =
     and_then (collect_results (map (parse_chunk input) chunks)) (\<lambda>items.
       Inr (AScript items (span_of (sp_start (ch_span (hd chunks))) (sp_end (ch_span (last chunks))))))"

definition parse_tokens :: "spanned list \<Rightarrow> string \<Rightarrow> (parse_failure, ast) result" where
  "parse_tokens tokens input =
     and_then (split_top_level_statements tokens input) (\<lambda>chunks.
       case chunks of
         [] \<Rightarrow> Inr (ABareInput ArgumentEmpty (span_of 0 0))
       | [c] \<Rightarrow> parse_single_statement (chunk_parser input c)
       | _ \<Rightarrow> script_of_chunks input chunks)"

definition parse_tokens_as_script :: "spanned list \<Rightarrow> string \<Rightarrow> (parse_failure, ast) result" where
  "parse_tokens_as_script tokens input =
     and_then (split_top_level_statements tokens input) (\<lambda>chunks.
       if chunks = []
       then parse_err (span_of 0 (length input)) ''empty .cue script'' MissingArgument [''add at least one top-level item'']
       else script_of_chunks input chunks)"

definition parse :: "string \<Rightarrow> (parse_failure, ast) result" where
  "parse input = and_then (tokenize_for_parser input) (\<lambda>tokens. parse_tokens tokens input)"

section \<open>Script files\<close>

fun split_inclusive :: "string \<Rightarrow> string list" where
  "split_inclusive [] = []"
| "split_inclusive (c # cs) =
     (if c = newline_char then [c] # split_inclusive cs
      else case split_inclusive cs of [] \<Rightarrow> [[c]] | w # ws \<Rightarrow> (c # w) # ws)"

record comment_state =
  in_single :: bool
  in_double :: bool
  escaped :: bool
  comment_boundary :: bool

text \<open>The number of bytes before a comment; all the characters that matter are single bytes.\<close>

fun comment_index :: "comment_state \<Rightarrow> nat \<Rightarrow> string \<Rightarrow> nat option" where
  "comment_index st i [] = None"
| "comment_index st i (c # cs) =
     (if in_double st then
        comment_index
          (if escaped st then st\<lparr>escaped := False\<rparr>
           else if c = backslash_char then st\<lparr>escaped := True\<rparr>
           else if c = quote_char then st\<lparr>in_double := False\<rparr> else st) (i + 1) cs
      else if in_single st then
        comment_index (if c = squote_char then st\<lparr>in_single := False\<rparr> else st) (i + 1) cs
      else if c = CHR ''#'' \<and> comment_boundary st then Some i
      else if c = quote_char then comment_index (st\<lparr>in_double := True, comment_boundary := False\<rparr>) (i + 1) cs
      else if c = squote_char then comment_index (st\<lparr>in_single := True, comment_boundary := False\<rparr>) (i + 1) cs
      else if c = CHR '' '' \<or> c = tab_char then comment_index (st\<lparr>comment_boundary := True\<rparr>) (i + 1) cs
      else comment_index (st\<lparr>comment_boundary := False\<rparr>) (i + 1) cs)"

definition strip_file_script_comment :: "string \<Rightarrow> string" where
  "strip_file_script_comment line =
     (case comment_index \<lparr>in_single = False, in_double = False, escaped = False, comment_boundary = True\<rparr> 0 line of
        Some i \<Rightarrow> trim_end (take i line)
      | None \<Rightarrow> line)"

definition normalize_line :: "nat \<times> string \<Rightarrow> string" where
  "normalize_line il =
     (case il of (index, line) \<Rightarrow>
        let (body0, newline) = (case strip_suffix [newline_char] line of Some b \<Rightarrow> (b, [newline_char]) | None \<Rightarrow> (line, []));
            body = (case strip_suffix [return_char] body0 of Some b \<Rightarrow> b | None \<Rightarrow> body0)
        in if index = 0 \<and> starts_with body ''#!'' then newline
           else strip_file_script_comment body @ newline)"

definition normalize_file_script :: "string \<Rightarrow> string" where
  "normalize_file_script input = concat (map normalize_line (enumerate 0 (split_inclusive input)))"

definition parse_file_script :: "string \<Rightarrow> (parse_failure, ast) result" where
  "parse_file_script input =
     (let normalized = normalize_file_script input
      in and_then (tokenize_for_parser normalized) (\<lambda>tokens. parse_tokens_as_script tokens normalized))"

section \<open>Reading everything\<close>

lemma reads_to_end:
  assumes "Eof \<notin> tok ` set (p_tokens p)" "p_pos p \<le> length (p_tokens p)"
  shows "reads p xs p' \<and> at_end p' \<longleftrightarrow>
    p' = p\<lparr>p_pos := length (p_tokens p)\<rparr> \<and> map (lexeme_of \<circ> tok) (drop (p_pos p) (p_tokens p)) = map Some xs"
  using assms
proof (induction xs arbitrary: p)
  case Nil
  have e: "at_end p \<longleftrightarrow> p_pos p = length (p_tokens p)"
  proof (cases "p_pos p < length (p_tokens p)")
    case True
    then have "tok (p_tokens p ! p_pos p) \<noteq> Eof" using Nil(1) by (metis image_eqI nth_mem)
    then show ?thesis using True by (auto simp: at_end_def peek_def nth_opt_def)
  qed (use Nil(2) in \<open>simp add: at_end_def peek_def nth_opt_def\<close>)
  show ?case
  proof (cases "p_pos p = length (p_tokens p)")
    case True
    then have u: "p\<lparr>p_pos := length (p_tokens p)\<rparr> = p" unfolding True [symmetric] by simp
    have "at_end p" "drop (p_pos p) (p_tokens p) = []" using e True by auto
    then show ?thesis unfolding u by auto
  qed (use e Nil(2) in auto)
next
  case (Cons x xs)
  show ?case
  proof (cases "p_pos p < length (p_tokens p)")
    case True
    let ?s = "p_tokens p ! p_pos p" and ?q = "p\<lparr>p_pos := Suc (p_pos p)\<rparr>"
    have a: "advance p = Inr (?s, ?q)" using True by (simp add: advance_def nth_opt_def)
    have d: "drop (p_pos p) (p_tokens p) = ?s # drop (Suc (p_pos p)) (p_tokens p)" using True by (simp add: Cons_nth_drop_Suc)
    show ?thesis using Cons.IH [of ?q] Cons.prems True a by (auto simp: d)
  next
    case False
    then have "advance p = Inl ParsePanic" by (simp add: advance_def nth_opt_def)
    then show ?thesis using False by auto
  qed
qed

lemma at_end_follow: "at_end p \<Longrightarrow> follow_parallel (peek p) \<and> serial_token (peek p) = None"
  by (simp add: at_end_def follow_parallel_def follow_job_def follow_pipeline_def follow_atom_def)

lemma parse_chain_all:
  assumes "Eof \<notin> tok ` set (p_tokens p)" "p_pos p \<le> length (p_tokens p)"
  shows "parse_chain p = Inr (c, p') \<and> at_end p' \<longleftrightarrow>
    chain_ok c \<and> p' = p\<lparr>p_pos := length (p_tokens p)\<rparr>
    \<and> map (lexeme_of \<circ> tok) (drop (p_pos p) (p_tokens p)) = map Some (chain_yield c)"
  using parse_chain_sound [of p c p'] parse_chain_complete [of c p p'] at_end_follow [of p']
    reads_to_end [OF assms, of "chain_yield c" p'] by argo

section \<open>Printing and parsing\<close>

definition print_chain :: "ast_chain \<Rightarrow> string" where
  "print_chain c = join '' '' (map lex_text (chain_yield c))"

lemma lex_tok_simps: "lex_ok x \<Longrightarrow> lexeme_of (lex_tok x) = Some x \<and> \<not> is_whitespace_token (lex_tok x)
    \<and> lex_tok x \<notin> {Eof, Newline, ModeParenOpen, ModeParenClose, GroupOpen, GroupClose} \<and> \<not> is_command_token (lex_tok x)"
proof (cases x)
  case (LOp k)
  then show "lex_ok x \<Longrightarrow> ?thesis" by (cases k) (auto simp: is_whitespace_token_def is_command_token_def)
qed (auto simp: is_whitespace_token_def is_command_token_def)

text \<open>The tokens of printed lexemes without the blanks and without the end marker.\<close>

lemma lex_tokens_filter:
  assumes "list_all lex_ok xs" "xs \<noteq> []"
  shows "\<exists>ts e. filter (\<lambda>s. \<not> is_whitespace_token (tok s)) (lex_tokens p xs) = ts @ [e] \<and> tok e = Eof
    \<and> map tok ts = map lex_tok xs \<and> ts \<noteq> [] \<and> sp_start (sp (hd ts)) = p
    \<and> sp_end (sp (last ts)) = p + length (join '' '' (map lex_text xs))"
  using assms
proof (induction p xs rule: lex_tokens.induct)
  case (2 p x)
  let ?s = "spanned_at (lex_tok x) p (p + length (lex_text x))"
  have "\<not> is_whitespace_token (lex_tok x)" using 2 lex_tok_simps [of x] by simp
  then show ?case by (intro exI [of _ "[?s]"]) (auto simp: is_whitespace_token_def)
next
  case (3 p x y ys)
  from 3 obtain ts e where ts:
    "filter (\<lambda>s. \<not> is_whitespace_token (tok s)) (lex_tokens (p + length (lex_text x) + 1) (y # ys)) = ts @ [e]"
    "tok e = Eof" "map tok ts = map lex_tok (y # ys)" "ts \<noteq> []"
    "sp_end (sp (last ts)) = p + length (lex_text x) + 1 + length (join '' '' (map lex_text (y # ys)))" by auto
  then show ?case using 3(2) lex_tok_simps [of x]
    by (intro exI [of _ "spanned_at (lex_tok x) p (p + length (lex_text x)) # ts"] exI [of _ e])
       (auto simp: is_whitespace_token_def)
qed simp

lemma split_loop_plain:
  assumes "\<forall>s\<in>set ts. tok s \<notin> {Eof, Newline, ModeParenOpen, ModeParenClose, GroupOpen, GroupClose}" "tok e = Eof"
  shows "split_loop input chunks current depth (ts @ [e]) = push_script_chunk input chunks (current @ ts)"
  using assms by (induction ts arbitrary: current) (auto split: token.splits)

lemma lexeme_first:
  "lex_ok x \<Longrightarrow> \<not> is_whitespace (hd (lex_text x)) \<and> \<not> is_continuation (hd (lex_text x)) \<and> byte (hd (lex_text x)) < 128"
proof (cases x)
  case (LOp k)
  then show "lex_ok x \<Longrightarrow> ?thesis" using operator_head [of k] by (auto simp: is_whitespace_def is_continuation_def)
qed (simp add: quote_word_def is_whitespace_def is_continuation_def)

lemma chain_yield_nonempty: "chain_ok c \<Longrightarrow> chain_yield c \<noteq> []"
proof (cases c)
  have "segments_ok segs \<Longrightarrow> segments_yield segs \<noteq> []" for segs
    by (cases segs rule: segments_ok.cases) (auto simp: pipe_yield_def split: option.splits)
  then have "job_ok e \<Longrightarrow> job_yield e \<noteq> []" for e by (cases e) auto
  then show "chain_ok c \<Longrightarrow> c = ALeaf e \<Longrightarrow> ?thesis" for e by auto
qed auto

lemma parse_print_chain:
  assumes "chain_ok c" "list_all lex_ok (chain_yield c)"
  shows "parse (print_chain c) = Inr (ABareInput (ArgumentChain c) (span_of 0 (length (print_chain c))))"
proof -
  let ?xs = "chain_yield c" and ?s = "print_chain c"
  have ne: "?xs \<noteq> []" using chain_yield_nonempty assms(1) by blast
  then obtain x xs where xs: "?xs = x # xs" by (cases ?xs) auto
  have x: "lex_ok x" using assms(2) xs by simp
  from lex_tokens_filter [OF assms(2) ne, of 0] obtain ts e where
    ts: "filter (\<lambda>s. \<not> is_whitespace_token (tok s)) (lex_tokens 0 ?xs) = ts @ [e]" "tok e = Eof"
      "map tok ts = map lex_tok ?xs" "ts \<noteq> []" "sp_start (sp (hd ts)) = 0" "sp_end (sp (last ts)) = length ?s"
    by (auto simp: print_chain_def)
  have head: "?s \<noteq> []" "hd ?s = hd (lex_text x)" using join_head [OF x, of xs] xs by (auto simp: print_chain_def)
  have k: "\<forall>s\<in>set ts. \<exists>y\<in>set ?xs. tok s = lex_tok y"
    using ts(3) by (metis (no_types, lifting) image_iff image_set)
  have plain: "\<forall>s\<in>set ts. tok s \<notin> {Eof, Newline, ModeParenOpen, ModeParenClose, GroupOpen, GroupClose}"
    using k assms(2) lex_tok_simps by (fastforce simp: list_all_iff)
  let ?c = "\<lparr>ch_tokens = ts, ch_source = trim ?s, ch_span = span_of 0 (length ?s)\<rparr>"
  have slice: "str_slice ?s 0 (length ?s) = Inr ?s"
    using head lexeme_first [OF x] by (auto simp: str_slice_def is_char_boundary_def slice_def hd_conv_nth)
  have chunks: "split_top_level_statements (ts @ [e]) ?s = Inr [?c]"
    using split_loop_plain [OF plain ts(2), of ?s "[]" "[]" 0] ts(4,5,6) slice trim_nonempty [OF head(1)] lexeme_first [OF x] head(2)
    by (simp add: split_top_level_statements_def push_script_chunk_def and_then_def Let_def)
  let ?p = "chunk_parser ?s ?c"
  have eof: "Eof \<notin> tok ` set (p_tokens ?p)" using plain by (auto simp: chunk_parser_def)
  have "map (lexeme_of \<circ> tok) ts = map lexeme_of (map lex_tok ?xs)" using ts(3) by (metis map_map)
  also have "\<dots> = map Some ?xs" using assms(2) lex_tok_simps by (auto simp: list_all_iff)
  finally have c: "parse_chain ?p = Inr (c, ?p\<lparr>p_pos := length ts\<rparr>) \<and> at_end (?p\<lparr>p_pos := length ts\<rparr>)"
    using parse_chain_all [OF eof, of c] assms(1) by (simp add: chunk_parser_def)
  have "peek ?p = lex_tok x" "sp_start (peek_span ?p) = 0"
    using ts(3,4,5) xs by (cases ts; auto simp: peek_def peek_span_def chunk_parser_def)+
  moreover have "sp_end (peek_span (?p\<lparr>p_pos := length ts\<rparr>)) = length ?s"
    by (simp add: peek_span_def chunk_parser_def nth_opt_def)
  ultimately have "parse_single_statement ?p = Inr (ABareInput (ArgumentChain c) (span_of 0 (length ?s)))"
    using c lex_tok_simps [OF x]
    by (simp add: parse_single_statement_def parse_statement_def at_end_def and_then_def Let_def)
  then have "parse_tokens (ts @ [e]) ?s = Inr (ABareInput (ArgumentChain c) (span_of 0 (length ?s)))"
    using chunks by (simp add: parse_tokens_def and_then_def)
  then show ?thesis using tokenize_lexemes [OF assms(2)] ts(1)
    by (simp add: parse_def tokenize_for_parser_def print_chain_def and_then_def)
qed

section \<open>No panics\<close>

definition no_panic :: "(parse_failure, 'a) result \<Rightarrow> bool" where
  "no_panic r \<longleftrightarrow> r \<noteq> Inl ParsePanic"

lemma no_panic_simps [simp]:
  "no_panic (Inr x)" "no_panic (Inl (ParseErr e))"
  by (simp_all add: no_panic_def)

lemma no_panic_and_then:
  "no_panic x \<Longrightarrow> (\<And>v. x = Inr v \<Longrightarrow> no_panic (f v)) \<Longrightarrow> no_panic (and_then x f)"
  by (cases x) (auto simp: no_panic_def and_then_def)

lemma no_panic_advance: "peek p \<noteq> Eof \<Longrightarrow> no_panic (advance p)"
  using advance_ok [of p] by (auto simp: no_panic_def)

lemma no_panic_expect: "k \<noteq> Eof \<Longrightarrow> no_panic (expect k p)"
  using no_panic_advance by (simp add: expect_def)

text \<open>Steps of the parser change its position only.\<close>

definition moved :: "parser \<Rightarrow> parser \<Rightarrow> bool" where
  "moved p p' \<longleftrightarrow> p_tokens p' = p_tokens p \<and> p_input p' = p_input p \<and> p_input_len p' = p_input_len p"

lemma moved_refl [simp]: "moved p p" by (simp add: moved_def)
lemma moved_trans: "moved p q \<Longrightarrow> moved q r \<Longrightarrow> moved p r" by (simp add: moved_def)
lemma moved_advance: "advance p = Inr (s, q) \<Longrightarrow> moved p q" by (auto simp: moved_def dest!: advance_Inr)
lemma moved_expect: "expect k p = Inr (s, q) \<Longrightarrow> moved p q"
  by (auto simp: expect_def dest: moved_advance split: if_splits)

lemma token_word_not_Eof: "token_word k = Some w \<Longrightarrow> k \<noteq> Eof" by (cases k) auto

lemma op_not_Eof: "pipe_token k = Some a \<Longrightarrow> k \<noteq> Eof" "job_op_token k = Some b \<Longrightarrow> k \<noteq> Eof"
    "parallel_token k = Some c \<Longrightarrow> k \<noteq> Eof" "serial_token k = Some d \<Longrightarrow> k \<noteq> Eof"
  by auto

lemma no_panic_atom_loop: "no_panic (atom_loop words p)"
proof (induction words p rule: atom_loop.induct)
  case (1 words p)
  show ?case
  proof (cases "token_word (peek p)")
    case (Some w)
    show ?thesis unfolding atom_loop.simps [of words p] Some option.case
      by (rule no_panic_and_then [OF no_panic_advance])
         (use token_word_not_Eof [OF Some] 1 [OF Some] in auto)
  qed (simp add: atom_loop.simps [of words p])
qed

lemma no_panic_atom_words: "no_panic (parse_atom_words p)"
  using no_panic_atom_loop by (auto simp: parse_atom_words_def intro!: no_panic_and_then no_panic_advance)

lemma no_panic_pipeline_loop: "no_panic (pipeline_loop segs words p)"
proof (induction segs words p rule: pipeline_loop.induct)
  case (1 segs words p)
  show ?case
  proof (cases "pipe_token (peek p)")
    case (Some op)
    show ?thesis unfolding pipeline_loop.simps [of segs words p] Some option.case
      using op_not_Eof(1) [OF Some] 1 [OF Some] no_panic_atom_words
      by (auto intro!: no_panic_and_then no_panic_advance)
  qed (simp add: pipeline_loop.simps [of segs words p])
qed

lemma no_panic_pipeline: "no_panic (parse_pipeline p)"
  by (auto simp: parse_pipeline_def intro!: no_panic_and_then no_panic_atom_words no_panic_pipeline_loop)

text \<open>The levels above pipelines inherit panic freedom from their operands.\<close>

context left_assoc_level
begin

lemma loop_no_panic:
  assumes "\<And>q. no_panic (operand q)"
  shows "no_panic (loop left p)"
proof (induction "remaining p" arbitrary: left p rule: less_induct)
  case less
  show ?case
  proof (cases "op_of (peek p)")
    case (Some op)
    then have "peek p = op_tok op" using op_of by simp
    then have "peek p \<noteq> Eof" using op_text [of op] by auto
    show ?thesis unfolding loop_eq [of left p] Some option.case
    proof (rule no_panic_and_then [OF no_panic_advance [OF \<open>peek p \<noteq> Eof\<close>]], clarify)
      fix s p1 assume a: "advance p = Inr (s, p1)"
      show "no_panic (and_then (operand p1) (\<lambda>(right, p2). loop (combine op left right) p2))"
      proof (rule no_panic_and_then [OF assms], clarify)
        fix r p2 assume "operand p1 = Inr (r, p2)"
        then have "remaining p2 \<le> remaining p1" using operand_sound reads_le by blast
        then show "no_panic (loop (combine op left r) p2)" using less advance_remaining [OF a] by simp
      qed
    qed
  qed (subst loop_eq, simp)
qed

lemma level_no_panic:
  "(\<And>q. no_panic (operand q)) \<Longrightarrow> no_panic (and_then (operand p) (\<lambda>(left, p1). loop left p1))"
  using loop_no_panic by (auto intro!: no_panic_and_then)

end

lemma no_panic_job_expr: "no_panic (parse_job_expr p)"
  unfolding parse_job_expr_def
  by (rule no_panic_and_then [OF job_level.level_no_panic [OF no_panic_pipeline]]) auto

lemma no_panic_parallel: "no_panic (parse_parallel p)"
  using parallel_level.level_no_panic [OF no_panic_job_expr] by (simp add: parse_parallel_def)

lemma no_panic_chain: "no_panic (parse_chain p)"
  using chain_level.level_no_panic [OF no_panic_parallel] by (simp add: parse_chain_def)

subsection \<open>Commands\<close>

lemma no_panic_param_value: "no_panic (parse_param_value p)"
  by (auto simp: parse_param_value_def intro!: no_panic_and_then no_panic_advance split: token.splits)

lemma no_panic_need_param: "no_panic (parse_need_param c k x s p)"
  by (auto simp: parse_need_param_def intro!: no_panic_and_then no_panic_expect no_panic_param_value
      split: tok_value.splits)

lemma no_panic_table_param: "no_panic (parse_table_param c k s p)"
  by (auto simp: parse_table_param_def validate_mode_param_value_def
      intro!: no_panic_and_then no_panic_expect no_panic_param_value split: option.splits)

lemma no_panic_one_param: "no_panic (parse_one_param c p)"
  using no_panic_need_param no_panic_table_param
  by (auto simp: parse_one_param_def intro!: no_panic_and_then no_panic_advance split: token.splits option.splits)

lemma no_panic_mode_params: "no_panic (parse_mode_params c ps p)"
proof (induction c ps p rule: parse_mode_params.induct)
  case (1 c ps p)
  then show ?case unfolding parse_mode_params.simps [of c ps p]
    by (auto intro!: no_panic_and_then no_panic_advance no_panic_one_param)
qed

lemma no_panic_consume_all: "no_panic (consume_all parts p)"
proof (induction parts p rule: consume_all.induct)
  case (1 parts p)
  then show ?case unfolding consume_all.simps [of parts p]
    by (auto simp: at_end_def intro!: no_panic_and_then no_panic_advance)
qed

lemma moved_param_value: "parse_param_value p = Inr (v, q) \<Longrightarrow> moved p q"
  by (auto simp: parse_param_value_def and_then_def dest: moved_advance split: token.splits sum.splits)

lemma moved_need_param: "parse_need_param c k x s p = Inr (v, q) \<Longrightarrow> moved p q"
  by (force simp: parse_need_param_def and_then_def dest: moved_expect moved_param_value intro: moved_trans
      split: if_splits sum.splits tok_value.splits)

lemma moved_table_param: "parse_table_param c k s p = Inr (v, q) \<Longrightarrow> moved p q"
  by (force simp: parse_table_param_def and_then_def dest: moved_expect moved_param_value intro: moved_trans
      split: option.splits sum.splits)

lemma moved_one_param: "parse_one_param c p = Inr (v, q) \<Longrightarrow> moved p q"
  by (force simp: parse_one_param_def and_then_def dest: moved_advance moved_need_param moved_table_param
      intro: moved_trans split: token.splits sum.splits option.splits)

lemma moved_mode_params: "parse_mode_params c ps p = Inr (v, q) \<Longrightarrow> moved p q"
proof (induction c ps p rule: parse_mode_params.induct)
  case (1 c ps p)
  consider (close) "peek p = ModeParenClose" | (eof) "peek p = Eof" | (comma) "peek p = Comma"
    | (param) "peek p \<noteq> ModeParenClose" "peek p \<noteq> Eof" "peek p \<noteq> Comma" by blast
  then show ?case
  proof cases
    case comma
    then obtain s p1 where a: "advance p = Inr (s, p1)" "parse_mode_params c ps p1 = Inr (v, q)"
      using 1(3) by (auto simp: parse_mode_params.simps [of c ps p] and_then_def split: sum.splits)
    then have "moved p1 q" using 1(1) [OF _ _ comma a(1)] comma by auto
    then show ?thesis using moved_advance [OF a(1)] moved_trans by blast
  next
    case param
    then obtain kv p1 where a: "parse_one_param c p = Inr (kv, p1)" "parse_mode_params c (ps @ [kv]) p1 = Inr (v, q)"
      using 1(3) by (auto simp: parse_mode_params.simps [of c ps p] and_then_def split: sum.splits)
    then have "moved p1 q" using 1(2) [OF param] by (cases kv) auto
    then show ?thesis using moved_one_param [OF a(1)] moved_trans by blast
  qed (use 1(3) moved_advance in \<open>auto simp: parse_mode_params.simps [of c ps p] and_then_def split: sum.splits\<close>)
qed

subsection \<open>Statements\<close>

text \<open>
  What the tokenizer guarantees of the tokens a parser gets: their spans are character boundaries
  in order, and a command name starts with an ASCII byte.
\<close>

definition spans_ok :: "string \<Rightarrow> spanned list \<Rightarrow> bool" where
  "spans_ok input ts \<longleftrightarrow>
     (\<forall>s\<in>set ts. is_char_boundary input (sp_start (sp s)) \<and> is_char_boundary input (sp_end (sp s))
        \<and> sp_start (sp s) \<le> sp_end (sp s) \<and> (\<forall>c. tok s = CommandT c \<longrightarrow> command_suggestions c \<noteq> None))
     \<and> sorted (map (sp_end \<circ> sp) ts)"

definition parser_ok :: "parser \<Rightarrow> bool" where
  "parser_ok p \<longleftrightarrow> spans_ok (p_input p) (p_tokens p)"

lemma parser_ok_moved: "moved p q \<Longrightarrow> parser_ok p \<Longrightarrow> parser_ok q"
  by (simp add: parser_ok_def moved_def)

lemma span_before_last:
  assumes "spans_ok input ts" "s \<in> set ts"
  shows "sp_start (sp s) \<le> sp_end (sp (last ts))"
proof -
  have "sp_end (sp s) \<le> sp_end (sp (last ts))"
    using assms by (cases ts rule: rev_cases) (auto simp: spans_ok_def sorted_append)
  moreover have "sp_start (sp s) \<le> sp_end (sp s)" using assms by (auto simp: spans_ok_def)
  ultimately show ?thesis by simp
qed

lemma no_panic_raw_text:
  assumes "parser_ok p"
  shows "no_panic (consume_remaining_raw_text p)"
proof (cases "at_end p")
  case False
  then obtain s where s: "nth_opt (p_tokens p) (p_pos p) = Some s" "s \<in> set (p_tokens p)"
    by (auto simp: at_end_def peek_def nth_opt_def split: option.splits if_splits)
  then have l: "last (p_tokens p) \<in> set (p_tokens p)" by (auto intro: last_in_set)
  have "no_panic (str_slice (p_input p) (sp_start (sp s)) (sp_end (sp (last (p_tokens p)))))"
    using span_before_last [OF _ s(2)] assms s(2) l by (auto simp: str_slice_def parser_ok_def spans_ok_def)
  then show ?thesis using False s
    by (auto simp: consume_remaining_raw_text_def Let_def intro!: no_panic_and_then no_panic_consume_all)
qed (simp add: consume_remaining_raw_text_def)

lemma no_panic_id_argument: "peek p \<noteq> Eof \<Longrightarrow> no_panic (parse_id_argument n allowed kind p)"
  by (auto simp: parse_id_argument_def validate_id_kind_def intro!: no_panic_and_then no_panic_advance)

lemma no_panic_text_target: "no_panic (validate_text_target n allowed k s)"
  by (auto simp: validate_text_target_def validate_id_kind_def Let_def split: token.splits)

lemma no_panic_argument:
  assumes "parser_ok p"
  shows "no_panic (parse_argument_for_command n spec p)"
  using assms
  by (cases "arg_kind spec")
     (auto simp: parse_argument_for_command_def consume_remaining_text_def
      intro!: no_panic_and_then no_panic_chain no_panic_id_argument no_panic_raw_text no_panic_text_target
        no_panic_consume_all no_panic_advance split: token.splits option.splits)

lemma no_panic_command_spec: "command_suggestions n \<noteq> None \<Longrightarrow> no_panic (command_spec_or_error n s)"
  by (auto simp: command_spec_or_error_def suggest_command_def intro!: no_panic_and_then split: option.splits)

lemma no_panic_optional_params: "no_panic (parse_optional_params c spec p)"
  by (auto simp: parse_optional_params_def intro!: no_panic_and_then no_panic_advance no_panic_mode_params)

lemma moved_optional_params:
  assumes "parse_optional_params c spec p = Inr (ps, q)"
  shows "moved p q"
proof (cases "peek p = ModeParenOpen")
  case True
  then obtain s p1 where "advance p = Inr (s, p1)" "parse_mode_params c [] p1 = Inr (ps, q)"
    using assms by (auto simp: parse_optional_params_def and_then_def split: if_splits sum.splits)
  then show ?thesis using moved_advance moved_mode_params moved_trans by blast
qed (use assms in \<open>simp add: parse_optional_params_def\<close>)

lemma no_panic_command:
  assumes "parser_ok p" "is_command_token (peek p)"
  shows "no_panic (parse_command a p)"
proof -
  obtain c where c: "peek p = CommandT c" using assms(2) by (auto simp: is_command_token_def split: token.splits)
  then obtain s q where s: "advance p = Inr (s, q)" "tok s = CommandT c" using advance_ok [of p] by auto
  have "command_suggestions c \<noteq> None" using assms(1) s advance_Inr [OF s(1)] by (auto simp: parser_ok_def spans_ok_def)
  then have spec: "no_panic (command_spec_or_error c x)" for x by (rule no_panic_command_spec)
  have q: "parser_ok q" using parser_ok_moved moved_advance s(1) assms(1) by blast
  have "no_panic (parse_argument_for_command c spec q2)" if "parse_optional_params c spec q = Inr (ps, q2)" for spec ps q2
    using no_panic_argument parser_ok_moved [OF moved_optional_params [OF that] q] by blast
  then show ?thesis
    using spec no_panic_optional_params by (auto simp: parse_command_def s intro!: no_panic_and_then)
qed

lemma no_panic_statement:
  assumes "parser_ok p"
  shows "no_panic (parse_single_statement p)"
  using no_panic_command [OF assms] no_panic_chain
  by (auto simp: parse_single_statement_def parse_statement_def Let_def intro!: no_panic_and_then)

lemma clean_boundary:
  assumes "utf8_ok bs" "clean_end bs q \<or> q = 0" "q \<le> length bs"
  shows "is_char_boundary bs q"
proof (cases "q = length bs")
  case False
  then have q: "q < length bs" using assms(3) by simp
  then have bs: "bs = take q bs @ bs ! q # drop (Suc q) bs" by (rule id_take_nth_drop)
  have nc: "utf8_run Q0 (take q bs) = Q0 \<Longrightarrow> \<not> is_continuation (bs ! q)"
  proof
    assume r: "utf8_run Q0 (take q bs) = Q0" "is_continuation (bs ! q)"
    then have "utf8_step Q0 (bs ! q) = QBad" by (auto simp: is_continuation_def)
    then have "utf8_run Q0 bs = QBad" using r by (subst bs) simp
    then show False using assms(1) by (simp add: utf8_ok_def)
  qed
  have "\<not> is_continuation (bs ! q)"
  proof (cases "byte (bs ! q) < 128")
    case False
    show ?thesis
    proof (cases "q = 0")
      case True
      then show ?thesis using nc by simp
    next
      case nz: False
      then have prev: "byte (bs ! (q - 1)) < 128" using assms(2) False \<open>q \<noteq> length bs\<close> by (auto simp: clean_end_def)
      have "take q bs = take (q - 1) bs @ [bs ! (q - 1)]" using nz q by (metis Suc_diff_1 less_imp_diff_less neq0_conv take_Suc_conv_app_nth)
      moreover have "bs = take (q - 1) bs @ bs ! (q - 1) # drop q bs" using nz q id_take_nth_drop [of "q - 1" bs] by simp
      then have "utf8_ok (take (q - 1) bs)" using utf8_ok_split prev assms(1) by metis
      ultimately show ?thesis using nc prev by (simp add: utf8_ok_def utf8_step_ascii)
    qed
  qed (simp add: is_continuation_def)
  then show ?thesis using q by (simp add: is_char_boundary_def)
qed (simp add: is_char_boundary_def)

text \<open>The tokens of a valid input, as the parser relies on them.\<close>

lemma spans_ok_append:
  "spans_ok input (a @ b) \<longleftrightarrow> spans_ok input a \<and> spans_ok input b
     \<and> (\<forall>x\<in>set a. \<forall>y\<in>set b. sp_end (sp x) \<le> sp_end (sp y))"
  by (auto simp: spans_ok_def sorted_append)

lemma command_name_ascii: "spells x (CommandT c) \<Longrightarrow> command_suggestions c \<noteq> None"
  by (cases c) (auto simp: command_suggestions_def is_ident_char_def is_ascii_alphanumeric_def
      is_ascii_alphabetic_def is_ascii_digit_def)

lemma tokenize_loop_spans:
  assumes "utf8_ok (tk_bytes t)"
  shows "tokenize_loop t acc = Inr toks \<Longrightarrow> spans_ok (tk_bytes t) acc \<Longrightarrow>
    \<forall>s\<in>set acc. sp_end (sp s) \<le> tk_pos t \<Longrightarrow> is_char_boundary (tk_bytes t) (tk_pos t) \<Longrightarrow>
    spans_ok (tk_bytes t) toks"
  using assms
proof (induction t acc rule: tokenize_loop.induct)
  case (1 t acc)
  from 1(2) obtain s t' where n: "next_token t = Inr (s, t')"
    unfolding tokenize_loop.simps [of t acc] by (auto split: sum.splits)
  then show ?case
  proof (cases rule: next_token_cases)
    case eof
    then have "toks = acc @ [s]" using 1(2) n unfolding tokenize_loop.simps [of t acc] by auto
    then show ?thesis using eof 1(3-5) by (auto simp: spans_ok_def sorted_append)
  next
    case token
    note c = token(2) [unfolded consumed_def]
    have k: "tok s \<noteq> Eof" "tk_bytes t' = tk_bytes t" using c by auto
    have l: "tokenize_loop t' (acc @ [s]) = Inr toks"
      using 1(2) n k unfolding tokenize_loop.simps [of t acc] by simp
    have b: "is_char_boundary (tk_bytes t) (tk_pos t')"
      using clean_boundary [OF 1(6)] next_token_clean [OF n k(1)] c by blast
    have "spans_ok (tk_bytes t) (acc @ [s])"
      using 1(3,4,5) b token(3) c command_name_ascii by (fastforce simp: spans_ok_def sorted_append)
    then show ?thesis using 1(1) [OF n refl k(1) l] b token(3) 1(4,6) c by (auto simp: k(2)) (meson less_imp_le order_trans)+
  qed
qed

lemma tokenize_spans:
  assumes "utf8_ok input" "tokenize input = Inr toks"
  shows "spans_ok input toks"
proof -
  have "is_char_boundary input 0" using clean_boundary [OF assms(1), of 0] by simp
  then show ?thesis
    using tokenize_loop_spans [of "tokenizer_new input" "[]" toks] assms
    by (simp add: tokenize_def tokenizer_new_def spans_ok_def)
qed

lemma spans_ok_filter: "spans_ok input ts \<Longrightarrow> spans_ok input (filter P ts)"
  by (auto simp: spans_ok_def sorted_filter)

lemma push_ok:
  assumes "spans_ok input current" "\<forall>c\<in>set chunks. spans_ok input (ch_tokens c)"
  shows "no_panic (push_script_chunk input chunks current)"
    "push_script_chunk input chunks current = Inr chunks' \<Longrightarrow> \<forall>c\<in>set chunks'. spans_ok input (ch_tokens c)"
proof -
  have "current \<noteq> [] \<Longrightarrow> no_panic (str_slice input (sp_start (sp (hd current))) (sp_end (sp (last current))))"
    using span_before_last [OF assms(1), of "hd current"] assms(1) by (auto simp: str_slice_def spans_ok_def)
  then show "no_panic (push_script_chunk input chunks current)"
    by (auto simp: push_script_chunk_def Let_def intro!: no_panic_and_then)
  show "push_script_chunk input chunks current = Inr chunks' \<Longrightarrow> \<forall>c\<in>set chunks'. spans_ok input (ch_tokens c)"
    using assms by (auto simp: push_script_chunk_def Let_def and_then_def split: if_splits sum.splits)
qed

lemma split_loop_ok:
  assumes "spans_ok input (current @ ts)" "\<forall>c\<in>set chunks. spans_ok input (ch_tokens c)"
  shows "no_panic (split_loop input chunks current depth ts)
    \<and> (\<forall>chunks'. split_loop input chunks current depth ts = Inr chunks' \<longrightarrow> (\<forall>c\<in>set chunks'. spans_ok input (ch_tokens c)))"
  using assms
proof (induction ts arbitrary: current chunks depth)
  case Nil
  then show ?case using push_ok by auto
next
  case (Cons s ts)
  have cur: "spans_ok input current" "spans_ok input ([] @ ts)" "spans_ok input (current @ ts)"
    using Cons(2) spans_ok_append [of input "[s]" ts] by (auto simp: spans_ok_append)
  note push = push_ok [OF cur(1) Cons(3)]
  have app: "spans_ok input ((current @ [s]) @ ts)" using Cons(2) by simp
  have nl: "no_panic (and_then (push_script_chunk input chunks current) (\<lambda>c. split_loop input c [] depth ts))
    \<and> (\<forall>chunks'. and_then (push_script_chunk input chunks current) (\<lambda>c. split_loop input c [] depth ts) = Inr chunks'
         \<longrightarrow> (\<forall>c\<in>set chunks'. spans_ok input (ch_tokens c)))"
    using push Cons.IH [OF cur(2)] by (auto simp: and_then_def no_panic_def split: sum.splits)
  show ?case
    using Cons.IH [OF app Cons(3)] Cons.IH [OF cur(3) Cons(3)] nl push by (cases "tok s") simp_all
qed

lemma no_panic_chunk: "spans_ok input (ch_tokens c) \<Longrightarrow> no_panic (parse_single_statement (chunk_parser input c))"
  by (rule no_panic_statement) (simp add: parser_ok_def chunk_parser_def)

lemma no_panic_script:
  assumes "\<forall>c\<in>set chunks. spans_ok input (ch_tokens c)"
  shows "no_panic (script_of_chunks input chunks)"
proof -
  have "no_panic (collect_results (map (parse_chunk input) chunks))"
    using assms
  proof (induction chunks)
    case (Cons c cs)
    have "no_panic (parse_chunk input c)"
      using no_panic_chunk Cons(2) by (auto simp: parse_chunk_def intro!: no_panic_and_then)
    then show ?case using Cons by (auto simp: no_panic_def split: sum.splits)
  qed simp
  then show ?thesis by (auto simp: script_of_chunks_def intro!: no_panic_and_then)
qed

lemma no_panic_tokens_for_parser:
  assumes "utf8_ok input"
  shows "no_panic (tokenize_for_parser input)"
    "tokenize_for_parser input = Inr ts \<Longrightarrow> spans_ok input ts"
  using tokenize_spans [OF assms] by (auto simp: tokenize_for_parser_def spans_ok_filter split: sum.splits)

lemma split_top_ok:
  assumes "spans_ok input ts"
  shows "no_panic (split_top_level_statements ts input)"
    "split_top_level_statements ts input = Inr chunks \<Longrightarrow> \<forall>c\<in>set chunks. spans_ok input (ch_tokens c)"
  using split_loop_ok [of input "[]" ts "[]" 0] assms by (auto simp: split_top_level_statements_def)

subsection \<open>Script files\<close>

lemma utf8_ok_append: "utf8_ok a \<Longrightarrow> utf8_ok b \<Longrightarrow> utf8_ok (a @ b)"
  by (simp add: utf8_ok_def)

lemma split_inclusive_utf8:
  "utf8_run q s = Q0 \<Longrightarrow>
     (case split_inclusive s of [] \<Rightarrow> s = [] | w # ws \<Rightarrow> utf8_run q w = Q0 \<and> (\<forall>v\<in>set ws. utf8_ok v))"
proof (induction s arbitrary: q)
  case (Cons c s)
  show ?case
  proof (cases "c = newline_char")
    case True
    then have "q = Q0" "utf8_run Q0 s = Q0" using Cons(2) by (auto simp: utf8_step_ascii split: if_splits)
    then show ?thesis using Cons(1) [of Q0] True by (auto simp: utf8_step_ascii utf8_ok_def split: list.splits)
  next
    case False
    then show ?thesis using Cons(1) [of "utf8_step q c"] Cons(2) by (auto split: list.splits)
  qed
qed simp

lemma utf8_ok_prefix:
  assumes "utf8_ok (a @ b)" "b = [] \<or> byte (hd b) < 128"
  shows "utf8_ok a"
  using assms utf8_ok_split [of a "hd b" "tl b"] by (cases b) auto

lemma utf8_step_lead: "\<not> is_continuation c \<Longrightarrow> utf8_step q c \<noteq> QBad \<Longrightarrow> q = Q0"
  by (cases q) (auto simp: is_continuation_def split: if_splits)

lemma utf8_lead_split: "utf8_ok (a @ c # b) \<Longrightarrow> \<not> is_continuation c \<Longrightarrow> utf8_ok a"
  using utf8_step_lead [of c "utf8_run Q0 a"] by (cases "utf8_step (utf8_run Q0 a) c = QBad") (auto simp: utf8_ok_def)

lemma space_lead:
  assumes "0 < ws_len_end r"
  shows "ws_len_end r \<le> length r" "\<not> is_continuation (r ! (ws_len_end r - 1))"
  using assms by (cases r rule: ws_len_end.cases;
    simp add: is_whitespace_def narrow_space_def wide_space_def is_continuation_def split: if_splits;
    fastforce)+

lemma space_at_end:
  assumes "0 < ws_len_end r"
  shows "\<exists>c b. r = rev (c # b) @ drop (ws_len_end r) r \<and> \<not> is_continuation c"
proof (intro exI conjI)
  let ?n = "ws_len_end r"
  have "take ?n r = take (?n - 1) r @ [r ! (?n - 1)]"
    using space_lead [OF assms] assms by (metis Suc_diff_1 Suc_le_lessD take_Suc_conv_app_nth)
  then show "r = rev (r ! (?n - 1) # rev (take (?n - 1) r)) @ drop ?n r"
    by (metis append_take_drop_id rev.simps(2) rev_rev_ident)
qed (rule space_lead(2) [OF assms])

lemma utf8_trim_end_rev: "utf8_ok (rev r) \<Longrightarrow> utf8_ok (rev (trim_end_rev r))"
proof (induction r rule: trim_end_rev.induct)
  case (1 r)
  show ?case
  proof (cases "ws_len_end r = 0")
    case False
    then obtain c b where cb: "r = rev (c # b) @ drop (ws_len_end r) r" "\<not> is_continuation c"
      using space_at_end [of r] by auto
    then have "rev r = rev (drop (ws_len_end r) r) @ c # b" by (metis rev_append rev_rev_ident)
    then show ?thesis using 1 False utf8_lead_split [of "rev (drop (ws_len_end r) r)" c b] cb(2)
      by (simp add: trim_end_rev.simps [of r])
  qed (use 1 in \<open>simp add: trim_end_rev.simps [of r]\<close>)
qed

lemma utf8_trim_end: "utf8_ok s \<Longrightarrow> utf8_ok (trim_end s)"
  using utf8_trim_end_rev [of "rev s"] by (simp add: trim_end_def)

lemma comment_index_spec: "comment_index st i s = Some j \<Longrightarrow> i \<le> j \<and> j - i < length s \<and> s ! (j - i) = CHR ''#''"
proof (induction s arbitrary: st i)
  case (Cons c s)
  have step: "comment_index st' (i + 1) s = Some j \<Longrightarrow> i \<le> j \<and> j - i < length (c # s) \<and> (c # s) ! (j - i) = CHR ''#''" for st'
    using Cons(1) [of st' "i + 1"] by (auto simp: nth_Cons' Suc_diff_Suc)
  have "(\<exists>st'. comment_index st' (i + 1) s = Some j) \<or> j = i \<and> c = CHR ''#''"
    using Cons(2) unfolding comment_index.simps by (metis option.inject)
  then show ?case using step by auto
qed simp

lemma utf8_strip_comment: "utf8_ok line \<Longrightarrow> utf8_ok (strip_file_script_comment line)"
proof -
  assume u: "utf8_ok line"
  have "utf8_ok (take i line)" if "comment_index st 0 line = Some i" for st i
  proof -
    have "i < length line" "line ! i = CHR ''#''" using comment_index_spec [OF that] by auto
    then have "line = take i line @ CHR ''#'' # drop (Suc i) line" using id_take_nth_drop by metis
    then have "utf8_ok (take i line @ CHR ''#'' # drop (Suc i) line)" using u by simp
    from utf8_ok_split [OF this] show ?thesis by simp
  qed
  then show ?thesis using u utf8_trim_end by (auto simp: strip_file_script_comment_def split: option.splits)
qed

lemma utf8_strip_suffix: "utf8_ok s \<Longrightarrow> byte c < 128 \<Longrightarrow> strip_suffix [c] s = Some b \<Longrightarrow> utf8_ok b"
  using strip_suffix_SomeD [of "[c]" s b] utf8_ok_prefix [of b "[c]"] by auto

lemma utf8_normalize_line: "utf8_ok line \<Longrightarrow> utf8_ok (normalize_line (i, line))"
proof -
  assume u: "utf8_ok line"
  have nl: "utf8_ok [newline_char]" "utf8_ok []" by (auto simp: utf8_ok_def)
  show ?thesis
    using u utf8_strip_suffix [OF u, of newline_char] utf8_strip_suffix [of _ return_char] nl
    by (auto simp: normalize_line_def Let_def intro!: utf8_ok_append utf8_strip_comment split: option.splits)
qed

lemma utf8_normalize: "utf8_ok input \<Longrightarrow> utf8_ok (normalize_file_script input)"
proof -
  assume u: "utf8_ok input"
  have "\<forall>w\<in>set (split_inclusive input). utf8_ok w"
    using split_inclusive_utf8 [of Q0 input] u by (auto simp: utf8_ok_def split: list.splits)
  moreover have "utf8_ok (concat (map normalize_line (enumerate n ws)))" if "\<forall>w\<in>set ws. utf8_ok w" for n ws
    using that
  proof (induction ws arbitrary: n)
    case (Cons w ws)
    then show ?case using utf8_normalize_line [of w n] by (simp add: utf8_ok_append)
  qed (simp add: utf8_ok_def)
  ultimately show ?thesis by (simp add: normalize_file_script_def)
qed

lemma no_panic_parse:
  assumes "utf8_ok input"
  shows "no_panic (parse input)" "no_panic (parse_file_script input)"
proof -
  show "no_panic (parse input)"
    using no_panic_tokens_for_parser [OF assms] split_top_ok no_panic_chunk no_panic_script
    by (auto simp: parse_def parse_tokens_def intro!: no_panic_and_then split: list.splits)
  show "no_panic (parse_file_script input)"
    using no_panic_tokens_for_parser [OF utf8_normalize [OF assms]] split_top_ok no_panic_script
    by (auto simp: parse_file_script_def parse_tokens_as_script_def Let_def intro!: no_panic_and_then)
qed

section \<open>Properties\<close>

text \<open>
  C9.  The parser accepts exactly the chain grammar: on any token list (without the end marker) it
  returns the tree \<open>c\<close> and consumes everything exactly when the tokens are the yield of \<open>c\<close> and \<open>c\<close>
  has the shape of the grammar, in which \<open>->\<close> and \<open>~>\<close> bind weaker than \<open>|||\<close> and \<open>|?|\<close>, these weaker
  than \<open>&&\<close> and \<open>||\<close>, these weaker than the pipes, and every operator associates to the left.
\<close>

theorem chain_grammar_exact:
  assumes "Eof \<notin> tok ` set ts"
  shows "(\<exists>p'. parse_chain \<lparr>p_tokens = ts, p_pos = 0, p_input_len = n, p_input = input\<rparr> = Inr (c, p') \<and> at_end p')
    \<longleftrightarrow> chain_ok c \<and> map (lexeme_of \<circ> tok) ts = map Some (chain_yield c)"
  using parse_chain_all [of "\<lparr>p_tokens = ts, p_pos = 0, p_input_len = n, p_input = input\<rparr>" c] assms by auto

theorem chain_grammar_exact_witness:
  "\<exists>c. chain_ok c \<and> chain_yield c = [LWord ''a'', LOp SerialThen, LWord ''b'']
     \<and> (\<exists>p'. parse_chain \<lparr>p_tokens = [spanned_at (WordT ''a'') 0 1, spanned_at SerialThen 2 4, spanned_at (WordT ''b'') 5 6],
            p_pos = 0, p_input_len = 6, p_input = ''a -> b''\<rparr> = Inr (c, p') \<and> at_end p')"
proof -
  let ?seg = "\<lambda>w. ALeaf (EPipeline [\<lparr>as_command = [w], as_pipe_to_next = None\<rparr>])"
  let ?c = "ASerial Then (?seg ''a'') (?seg ''b'')"
  have "chain_ok ?c" "chain_yield ?c = [LWord ''a'', LOp SerialThen, LWord ''b'']"
    by (simp_all add: serial_tok_def)
  then show ?thesis
    using chain_grammar_exact [of "[spanned_at (WordT ''a'') 0 1, spanned_at SerialThen 2 4, spanned_at (WordT ''b'') 5 6]"
        6 "''a -> b''" ?c]
    by (intro exI [of _ ?c]) (simp add: lexeme_of_def)
qed

text \<open>
  C10.  Every chain can be typed: printing the words of a tree of the grammar in double quotes with
  quotes and backslashes escaped, and its operators between blanks, gives a line that parses back to
  that tree, whatever bytes of valid UTF-8 the words consist of (blanks, newlines, operators and
  empty words included).
\<close>

theorem chain_text_roundtrip:
  assumes "chain_ok c" "list_all lex_ok (chain_yield c)"
  shows "parse (print_chain c) = Inr (ABareInput (ArgumentChain c) (span_of 0 (length (print_chain c))))"
  by (rule parse_print_chain [OF assms])

theorem chain_text_roundtrip_witness:
  "\<exists>c. as_command (case c of ALeaf (EPipeline segs) \<Rightarrow> hd segs) = [''echo'', ''a -> b'', [], [quote_char, backslash_char]]
     \<and> parse (print_chain c) = Inr (ABareInput (ArgumentChain c) (span_of 0 (length (print_chain c))))"
  by (rule exI [of _ "ALeaf (EPipeline [\<lparr>as_command = [''echo'', ''a -> b'', [], [quote_char, backslash_char]], as_pipe_to_next = None\<rparr>])"],
      rule conjI, simp, rule chain_text_roundtrip)
     (simp_all add: utf8_ok_def utf8_step_ascii)

text \<open>
  The parser never panics: on valid UTF-8, whether it is a line or a script file, every token
  access is in range, every slice of the input is at character boundaries in order, and the
  suggestions for an unknown command do not cut a character; the result is a syntax tree or an error.
\<close>

theorem parser_never_panics:
  assumes "utf8_ok input"
  shows "parse input \<noteq> Inl ParsePanic \<and> parse_file_script input \<noteq> Inl ParsePanic"
  using no_panic_parse [OF assms] by (simp add: no_panic_def)

theorem parser_never_panics_witness:
  "parse ''a |> b'' \<noteq> Inl ParsePanic \<and> parse_file_script ''a |> b'' \<noteq> Inl ParsePanic"
  by (rule parser_never_panics) (simp add: utf8_ok_def)

text \<open>
  The comment stripper takes an apostrophe inside a word for an opening quote although the
  tokenizer does not, so a comment after such a word stays in the script.
\<close>

lemma comment_after_apostrophe:
  "strip_file_script_comment (''echo don'' @ [squote_char] @ ''t # note'') = ''echo don'' @ [squote_char] @ ''t # note''"
  "strip_file_script_comment ''echo dont # note'' = ''echo dont''"
  by code_simp+

end
