(* ===== verification/Cron.thy ===== *)
theory Cron
  imports Prelude Interfaces
begin

text \<open>
  Cron schedules (\<^verbatim>\<open>crates/cue-core/src/cron.rs\<close>): the schedule type, its display form, the
  parser of the persisted and user-facing text, and the validated five-field crontab matcher.

  A \<^verbatim>\<open>std::time::Duration\<close> is the record of its seconds and its nanoseconds below one second.
  The unsigned numbers of this file are naturals: the parser bounds every number it reads by the
  width of the Rust type, and the arithmetic on them stays below it (\<open>parse_time_bound\<close>,
  \<open>cron_field_bounds\<close>); the one multiplication that could overflow is a checked one.
\<close>

section \<open>Durations\<close>

record duration =
  dur_secs :: nat
  dur_nanos :: nat

definition dur :: "nat \<Rightarrow> nat \<Rightarrow> duration" where
  "dur s n = \<lparr>dur_secs = s, dur_nanos = n\<rparr>"

definition from_secs :: "nat \<Rightarrow> duration" where
  "from_secs s = dur s 0"

definition from_millis :: "nat \<Rightarrow> duration" where
  "from_millis ms = dur (ms div 1000) (ms mod 1000 * 1000000)"

definition as_nanos :: "duration \<Rightarrow> nat" where
  "as_nanos d = dur_secs d * 1000000000 + dur_nanos d"

definition as_millis :: "duration \<Rightarrow> nat" where
  "as_millis d = dur_secs d * 1000 + dur_nanos d div 1000000"

definition dur_is_zero :: "duration \<Rightarrow> bool" where
  "dur_is_zero d \<longleftrightarrow> dur_secs d = 0 \<and> dur_nanos d = 0"

section \<open>The schedule type\<close>

datatype cron_status = Scheduled | Paused | CronCompleted | Expired | CronFailed

datatype cron_preset = Hourly | Daily | Weekly | Monthly

datatype weekday = Mon | Tue | Wed | Thu | Fri | Sat | Sun

record day_filter =
  filter_days :: "weekday list"

record crontab_expr =
  ce_minute :: "nat list"
  ce_hour :: "nat list"
  ce_day_of_month :: "nat list"
  ce_day_of_month_any :: bool
  ce_month :: "nat list"
  ce_day_of_week :: "nat list"
  ce_day_of_week_any :: bool

record crontab_schedule =
  cs_expr :: string
  cs_matcher :: crontab_expr

datatype cron_schedule =
    Interval duration
  | TimeOfDay nat "day_filter option"
  | Delay duration
  | Preset cron_preset
  | Crontab crontab_schedule

definition is_oneshot :: "cron_schedule \<Rightarrow> bool" where
  "is_oneshot s = (case s of Delay _ \<Rightarrow> True | _ \<Rightarrow> False)"

definition cron_is_runnable :: "cron_status \<Rightarrow> bool" where
  "cron_is_runnable s = (case s of Scheduled \<Rightarrow> True | _ \<Rightarrow> False)"

definition cron_is_terminal :: "cron_status \<Rightarrow> bool" where
  "cron_is_terminal s = (case s of CronCompleted \<Rightarrow> True | Expired \<Rightarrow> True | CronFailed \<Rightarrow> True | _ \<Rightarrow> False)"

section \<open>Display\<close>

definition ORDERED :: "weekday list" where
  "ORDERED = [Mon, Tue, Wed, Thu, Fri, Sat, Sun]"

definition weekday_short_name :: "weekday \<Rightarrow> string" where
  "weekday_short_name d =
     (case d of Mon \<Rightarrow> ''mon'' | Tue \<Rightarrow> ''tue'' | Wed \<Rightarrow> ''wed'' | Thu \<Rightarrow> ''thu''
      | Fri \<Rightarrow> ''fri'' | Sat \<Rightarrow> ''sat'' | Sun \<Rightarrow> ''sun'')"

definition day_filter_display :: "day_filter \<Rightarrow> string" where
  "day_filter_display f =
     (if filter_days f = ORDERED then ''daily''
      else if filter_days f = [Mon, Tue, Wed, Thu, Fri] then ''weekdays''
      else if filter_days f = [Sat, Sun] then ''weekends''
      else join '','' (map weekday_short_name (filter_days f)))"

definition format_duration_short :: "duration \<Rightarrow> string" where
  "format_duration_short d =
     (let secs = dur_secs d
      in if 0 < dur_nanos d \<and> as_nanos d mod 1000000 = 0 then show_nat (as_millis d) @ ''ms''
         else if secs = 0 then ''0s''
         else if secs mod 86400 = 0 then show_nat (secs div 86400) @ ''d''
         else if secs mod 3600 = 0 then show_nat (secs div 3600) @ ''h''
         else if secs mod 60 = 0 then show_nat (secs div 60) @ ''m''
         else show_nat secs @ ''s'')"

text \<open>The \<^verbatim>\<open>{:02}\<close> form of a number.\<close>

definition show_02 :: "nat \<Rightarrow> string" where
  "show_02 n = (if length (show_nat n) < 2 then ''0'' @ show_nat n else show_nat n)"

definition preset_display :: "cron_preset \<Rightarrow> string" where
  "preset_display p =
     (case p of Hourly \<Rightarrow> ''hourly'' | Daily \<Rightarrow> ''daily'' | Weekly \<Rightarrow> ''weekly'' | Monthly \<Rightarrow> ''monthly'')"

definition cron_display :: "cron_schedule \<Rightarrow> string" where
  "cron_display s =
     (case s of
        Interval d \<Rightarrow> ''every '' @ format_duration_short d
      | Delay d \<Rightarrow> ''in '' @ format_duration_short d
      | TimeOfDay time_secs days \<Rightarrow>
          (let h = time_secs div 3600;
               m = time_secs mod 3600 div 60;
               time_str = show_02 h @ '':'' @ show_02 m
           in case days of
                Some f \<Rightarrow> ''at '' @ time_str @ '' on '' @ day_filter_display f
              | None \<Rightarrow> ''at '' @ time_str)
      | Preset p \<Rightarrow> preset_display p
      | Crontab c \<Rightarrow> ''cron '' @ cs_expr c)"

section \<open>Numbers, durations, times and days\<close>

definition parse_ascii_u32 :: "string \<Rightarrow> nat option" where
  "parse_ascii_u32 s = (if s = [] \<or> \<not> list_all is_ascii_digit s then None else parse_uint 32 s)"

definition parse_ascii_u64 :: "string \<Rightarrow> nat option" where
  "parse_ascii_u64 s = (if s = [] \<or> \<not> list_all is_ascii_digit s then None else parse_uint 64 s)"

fun parse_duration_suffix :: "(string \<times> nat) list \<Rightarrow> string \<Rightarrow> duration option" where
  "parse_duration_suffix [] text = None"
| "parse_duration_suffix ((sfx, multiplier) # rest) text =
     (case strip_suffix sfx text of
        Some num_part \<Rightarrow>
          (case parse_ascii_u64 num_part of
             None \<Rightarrow> None
           | Some n \<Rightarrow> if n * multiplier < 2 ^ 64 then Some (from_secs (n * multiplier)) else None)
      | None \<Rightarrow> parse_duration_suffix rest text)"

definition parse_duration_short_text :: "string \<Rightarrow> duration option" where
  "parse_duration_short_text input =
     (let text = trim input
      in if text = [] then None
         else case strip_suffix ''ms'' text of
           Some num_part \<Rightarrow> map_option from_millis (parse_ascii_u64 num_part)
         | None \<Rightarrow> parse_duration_suffix [(''s'', 1), (''m'', 60), (''h'', 3600), (''d'', 86400)] text)"

definition parse_schedule_duration :: "string \<Rightarrow> duration option" where
  "parse_schedule_duration text =
     (case parse_duration_short_text text of
        None \<Rightarrow> None
      | Some d \<Rightarrow> if \<not> dur_is_zero d then Some d else None)"

definition meridiem_hour :: "bool option \<Rightarrow> nat \<Rightarrow> nat option" where
  "meridiem_hour meridiem hour =
     (case meridiem of
        Some True \<Rightarrow> if hour = 12 then Some 0 else if 11 < hour then None else Some hour
      | Some False \<Rightarrow> if hour < 12 then Some (hour + 12) else if 12 < hour then None else Some hour
      | None \<Rightarrow> if 23 < hour then None else Some hour)"

definition clock_secs :: "bool option \<Rightarrow> nat \<Rightarrow> nat \<Rightarrow> nat option" where
  "clock_secs meridiem hour minute =
     (if 60 \<le> minute then None
      else map_option (\<lambda>h. h * 3600 + minute * 60) (meridiem_hour meridiem hour))"

text \<open>The meridiem is \<open>Some True\<close> for \<^verbatim>\<open>am\<close> and \<open>Some False\<close> for \<^verbatim>\<open>pm\<close>.\<close>

definition parse_time_of_day :: "string \<Rightarrow> nat option" where
  "parse_time_of_day input =
     (let normalized = to_ascii_lowercase (trim input)
      in if normalized = ''midnight'' then Some 0
         else if normalized = ''noon'' then Some (12 * 3600)
         else
           let (core, meridiem) =
                 (case strip_suffix ''am'' normalized of
                    Some stripped \<Rightarrow> (stripped, Some True)
                  | None \<Rightarrow> (case strip_suffix ''pm'' normalized of
                      Some stripped \<Rightarrow> (stripped, Some False)
                    | None \<Rightarrow> (normalized, None)));
               time =
                 (case split_once CHR '':'' core of
                    Some (hour, minute) \<Rightarrow>
                      (case parse_ascii_u32 hour of
                         None \<Rightarrow> None
                       | Some h \<Rightarrow> map_option (Pair h) (parse_ascii_u32 minute))
                  | None \<Rightarrow> map_option (\<lambda>h. (h, 0)) (parse_ascii_u32 core))
           in case time of
                None \<Rightarrow> None
              | Some (hour, minute) \<Rightarrow> clock_secs meridiem hour minute)"

definition weekday_parse_name :: "string \<Rightarrow> weekday option" where
  "weekday_parse_name input =
     (let s = to_ascii_lowercase (trim input)
      in if s \<in> {''mon'', ''monday''} then Some Mon
         else if s \<in> {''tue'', ''tues'', ''tuesday''} then Some Tue
         else if s \<in> {''wed'', ''wednesday''} then Some Wed
         else if s \<in> {''thu'', ''thur'', ''thurs'', ''thursday''} then Some Thu
         else if s \<in> {''fri'', ''friday''} then Some Fri
         else if s \<in> {''sat'', ''saturday''} then Some Sat
         else if s \<in> {''sun'', ''sunday''} then Some Sun
         else None)"

definition expand_weekday_range :: "weekday \<Rightarrow> weekday \<Rightarrow> weekday list" where
  "expand_weekday_range start stop =
     (let start_idx = length (takeWhile (\<lambda>d. d \<noteq> start) ORDERED);
          end_idx = length (takeWhile (\<lambda>d. d \<noteq> stop) ORDERED)
      in if start_idx \<le> end_idx then slice ORDERED start_idx (end_idx + 1)
         else drop start_idx ORDERED @ take (end_idx + 1) ORDERED)"

definition parse_day_part :: "string \<Rightarrow> weekday list option" where
  "parse_day_part part =
     (let p = trim part
      in case split_once CHR ''-'' p of
           Some (start, stop) \<Rightarrow>
             (case weekday_parse_name start of
                None \<Rightarrow> None
              | Some a \<Rightarrow> map_option (expand_weekday_range a) (weekday_parse_name stop))
         | None \<Rightarrow> map_option (\<lambda>d. [d]) (weekday_parse_name p))"

definition parse_day_filter :: "string \<Rightarrow> day_filter option" where
  "parse_day_filter input =
     (let normalized = to_ascii_lowercase (trim input)
      in if normalized = ''daily'' then Some \<lparr>filter_days = ORDERED\<rparr>
         else if normalized = ''weekdays'' then Some \<lparr>filter_days = [Mon, Tue, Wed, Thu, Fri]\<rparr>
         else if normalized = ''weekends'' then Some \<lparr>filter_days = [Sat, Sun]\<rparr>
         else map_option (\<lambda>ds. \<lparr>filter_days = concat ds\<rparr>)
                (collect_options (map parse_day_part (split_on CHR '','' normalized))))"

section \<open>Crontab expressions\<close>

type_synonym cron_names = "(string \<times> nat) list"

definition parse_cron_value :: "cron_names \<Rightarrow> string \<Rightarrow> nat option" where
  "parse_cron_value names input =
     (case parse_ascii_u32 input of Some n \<Rightarrow> Some n | None \<Rightarrow> map_of names input)"

text \<open>\<^verbatim>\<open>(lo..=hi)\<close>, and the elements \<^verbatim>\<open>step_by\<close> or the index filter keep of a list.\<close>

definition range_inclusive :: "nat \<Rightarrow> nat \<Rightarrow> nat list" where
  "range_inclusive lo hi = [lo..<hi + 1]"

fun keep_every :: "nat \<Rightarrow> nat \<Rightarrow> 'a list \<Rightarrow> 'a list" where
  "keep_every step i [] = []"
| "keep_every step i (x # xs) =
     (if i mod 2 ^ 32 mod step = 0 then x # keep_every step (i + 1) xs else keep_every step (i + 1) xs)"

definition parse_cron_range :: "nat \<Rightarrow> nat \<Rightarrow> cron_names \<Rightarrow> string \<Rightarrow> nat list option" where
  "parse_cron_range lo hi names range_part =
     (case split_once CHR ''-'' range_part of
        Some (start, stop) \<Rightarrow>
          (case parse_cron_value names start of
             None \<Rightarrow> None
           | Some a \<Rightarrow>
               (case parse_cron_value names stop of
                  None \<Rightarrow> None
                | Some b \<Rightarrow> if b < a \<or> a < lo \<or> hi < b then None else Some (range_inclusive a b)))
      | None \<Rightarrow>
          (case parse_cron_value names range_part of
             None \<Rightarrow> None
           | Some v \<Rightarrow> if v < lo \<or> hi < v then None else Some [v]))"

definition parse_cron_part :: "nat \<Rightarrow> nat \<Rightarrow> cron_names \<Rightarrow> string \<Rightarrow> nat list option" where
  "parse_cron_part lo hi names part =
     (case split_once CHR ''/'' part of
        Some (range_part, step_text) \<Rightarrow>
          (case parse_ascii_u32 step_text of
             None \<Rightarrow> None
           | Some step \<Rightarrow> if step = 0 then None
               else map_option (keep_every step 0) (parse_cron_range lo hi names range_part))
      | None \<Rightarrow> parse_cron_range lo hi names part)"

definition parse_cron_item :: "nat \<Rightarrow> nat \<Rightarrow> cron_names \<Rightarrow> string \<Rightarrow> nat list option" where
  "parse_cron_item lo hi names item =
     (let part = trim item
      in if part = [] then None
         else if part = ''*'' then Some (range_inclusive lo hi)
         else case strip_prefix ''*/'' part of
           Some step_text \<Rightarrow>
             (case parse_ascii_u32 step_text of
                None \<Rightarrow> None
              | Some step \<Rightarrow> if step = 0 then None
                  else Some (filter (\<lambda>v. (v - lo) mod step = 0) (range_inclusive lo hi)))
         | None \<Rightarrow> parse_cron_part lo hi names part)"

definition parse_cron_field :: "nat \<Rightarrow> nat \<Rightarrow> cron_names \<Rightarrow> string \<Rightarrow> nat list option" where
  "parse_cron_field lo hi names field =
     (let normalized = to_ascii_lowercase (trim field)
      in map_option (\<lambda>vs. remdups_adj (sort (concat vs)))
           (collect_options (map (parse_cron_item lo hi names) (split_on CHR '','' normalized))))"

definition covers_full_range :: "nat list \<Rightarrow> nat \<Rightarrow> nat \<Rightarrow> bool" where
  "covers_full_range values lo hi \<longleftrightarrow>
     length values = hi - lo + 1 \<and> list_all (\<lambda>(v, e). v = e) (zip values (range_inclusive lo hi))"

definition weekday_names :: cron_names where
  "weekday_names = [(''sun'', 0), (''mon'', 1), (''tue'', 2), (''wed'', 3), (''thu'', 4), (''fri'', 5), (''sat'', 6)]"

definition month_names :: cron_names where
  "month_names =
     [(''jan'', 1), (''feb'', 2), (''mar'', 3), (''apr'', 4), (''may'', 5), (''jun'', 6),
      (''jul'', 7), (''aug'', 8), (''sep'', 9), (''oct'', 10), (''nov'', 11), (''dec'', 12)]"

definition parse_crontab_expr :: "string \<Rightarrow> crontab_expr option" where
  "parse_crontab_expr expr =
     (let fields = split_whitespace expr
      in if length fields \<noteq> 5 then None
         else case parse_cron_field 1 31 [] (fields ! 2) of None \<Rightarrow> None | Some day_of_month \<Rightarrow>
           case parse_cron_field 0 7 weekday_names (fields ! 4) of None \<Rightarrow> None | Some dow \<Rightarrow>
             let day_of_week = remdups_adj (sort (map (\<lambda>v. if v = 7 then 0 else v) dow))
             in case parse_cron_field 0 59 [] (fields ! 0) of None \<Rightarrow> None | Some minute \<Rightarrow>
                case parse_cron_field 0 23 [] (fields ! 1) of None \<Rightarrow> None | Some hour \<Rightarrow>
                case parse_cron_field 1 12 month_names (fields ! 3) of None \<Rightarrow> None | Some month \<Rightarrow>
                  Some \<lparr>ce_minute = minute, ce_hour = hour, ce_day_of_month = day_of_month,
                        ce_day_of_month_any = covers_full_range day_of_month 1 31, ce_month = month,
                        ce_day_of_week = day_of_week, ce_day_of_week_any = covers_full_range day_of_week 0 6\<rparr>)"

definition normalize_crontab_expr :: "string \<Rightarrow> string option" where
  "normalize_crontab_expr expr =
     (let fields = split_whitespace expr
      in if length fields = 5 then Some (join '' '' fields) else None)"

definition crontab_parse :: "string \<Rightarrow> crontab_schedule option" where
  "crontab_parse text =
     (case normalize_crontab_expr text of
        None \<Rightarrow> None
      | Some expr \<Rightarrow> map_option (\<lambda>m. \<lparr>cs_expr = expr, cs_matcher = m\<rparr>) (parse_crontab_expr expr))"

definition crontab_expr_matches :: "crontab_expr \<Rightarrow> nat \<Rightarrow> nat \<Rightarrow> nat \<Rightarrow> nat \<Rightarrow> nat \<Rightarrow> bool" where
  "crontab_expr_matches e minute hour day_of_month month day_of_week \<longleftrightarrow>
     (let day_of_month_matches = day_of_month \<in> set (ce_day_of_month e);
          day_of_week_matches = day_of_week \<in> set (ce_day_of_week e);
          day_matches =
            (if ce_day_of_month_any e \<or> ce_day_of_week_any e
             then day_of_month_matches \<and> day_of_week_matches
             else day_of_month_matches \<or> day_of_week_matches)
      in minute \<in> set (ce_minute e) \<and> hour \<in> set (ce_hour e) \<and> month \<in> set (ce_month e) \<and> day_matches)"

definition crontab_matches :: "crontab_schedule \<Rightarrow> nat \<Rightarrow> nat \<Rightarrow> nat \<Rightarrow> nat \<Rightarrow> nat \<Rightarrow> bool" where
  "crontab_matches c = crontab_expr_matches (cs_matcher c)"

text \<open>The serde form of a crontab schedule is its expression; reading it back validates it again.\<close>

definition crontab_serialize :: "crontab_schedule \<Rightarrow> string" where
  "crontab_serialize c = cs_expr c"

definition crontab_deserialize :: "string \<Rightarrow> (string, crontab_schedule) result" where
  "crontab_deserialize s = ok_or (crontab_parse s) ''invalid crontab expression''"

section \<open>Schedule text\<close>

definition schedule_of_words :: "string \<Rightarrow> string list \<Rightarrow> cron_schedule option" where
  "schedule_of_words text words =
     (case words of
           [] \<Rightarrow> None
         | keyword # _ \<Rightarrow>
             if keyword = ''every'' \<and> length words = 2
             then map_option Interval (parse_schedule_duration (words ! 1))
             else if keyword = ''in'' \<and> length words = 2
             then map_option Delay (parse_schedule_duration (words ! 1))
             else if keyword = ''at''
             then (case nth_opt words 1 of None \<Rightarrow> None | Some t \<Rightarrow>
                   (case parse_time_of_day t of None \<Rightarrow> None | Some time_secs \<Rightarrow>
                     (case (if nth_opt words 2 = Some ''on''
                            then (case nth_opt words 3 of None \<Rightarrow> None | Some d \<Rightarrow> map_option Some (parse_day_filter d))
                            else Some None) of
                        None \<Rightarrow> None
                      | Some days \<Rightarrow>
                          if \<not> (length words = 2 \<or> length words = 4 \<and> nth_opt words 2 = Some ''on'') then None
                          else Some (TimeOfDay time_secs days))))
             else if keyword = ''daily'' \<and> length words = 1 then Some (Preset Daily)
             else if keyword = ''hourly'' \<and> length words = 1 then Some (Preset Hourly)
             else if keyword = ''weekly'' \<and> length words = 1 then Some (Preset Weekly)
             else if keyword = ''monthly'' \<and> length words = 1 then Some (Preset Monthly)
             else if keyword = ''cron'' \<and> length words = 6
             then map_option Crontab (crontab_parse (join '' '' (slice words 1 6)))
             else map_option Crontab (crontab_parse text))"

definition parse_schedule_text :: "string \<Rightarrow> cron_schedule option" where
  "parse_schedule_text input = (let text = trim input in schedule_of_words text (split_whitespace text))"


section \<open>Numbers\<close>

lemma parse_ascii_show [simp]:
  "n < 2 ^ 32 \<Longrightarrow> parse_ascii_u32 (show_nat n) = Some n"
  "n < 2 ^ 64 \<Longrightarrow> parse_ascii_u64 (show_nat n) = Some n"
  using all_digits_show_nat [of n] by (simp_all add: parse_ascii_u32_def parse_ascii_u64_def all_digits_def parse_uint_show_nat)

lemma parse_ascii_bound:
  "parse_ascii_u32 s = Some n \<Longrightarrow> n < 2 ^ 32" "parse_ascii_u64 s = Some n \<Longrightarrow> n < 2 ^ 64"
  using parse_uint_bound [of 32 s n] parse_uint_bound [of 64 s n]
  by (auto simp: parse_ascii_u32_def parse_ascii_u64_def split: if_splits)

lemma show_nat_no: "\<not> is_ascii_digit c \<Longrightarrow> c \<notin> set (show_nat n)"
  using all_digits_show_nat [of n] by (auto simp: all_digits_def list_all_iff)

lemma show_nat_word: "word_ok (show_nat n)"
  by (rule all_digits_word_ok) simp

lemma show_nat_lower: "list_all (\<lambda>c. byte c < 65 \<or> 90 < byte c) (show_nat n)"
  using all_digits_show_nat [of n] by (auto simp: all_digits_def list_all_iff is_ascii_digit_def)

lemma word_ok_append: "word_ok a \<Longrightarrow> word_ok b \<Longrightarrow> word_ok (a @ b)"
  by (simp add: word_ok_def)

lemma small_shows:
  "n < 10 \<Longrightarrow> show_nat n = [digit_char n]"
  "10 \<le> n \<Longrightarrow> show_nat n = show_nat (n div 10) @ [digit_char n]"
  by (simp_all add: show_nat.simps [of n])

lemma parse_ascii_show_02 [simp]: "n < 60 \<Longrightarrow> parse_ascii_u32 (show_02 n) = Some n"
proof -
  assume n: "n < 60"
  have "digits_value (''0'' @ show_nat n) = n" if "n < 10"
    using that digits_value_show_nat [of n] by (simp add: small_shows digits_value_def digit_val_def)
  moreover have "all_digits (''0'' @ show_nat n)"
    using all_digits_show_nat [of n] by (simp add: all_digits_def is_ascii_digit_def)
  moreover have "n < 10" if "length (show_nat n) < 2"
    using that by (rule_tac ccontr) (simp add: small_shows)
  ultimately show ?thesis
    using n parse_uint_digits [of "''0'' @ show_nat n" 32]
    by (auto simp: show_02_def parse_ascii_u32_def all_digits_def)
       (use parse_ascii_show [of n] in \<open>simp add: parse_ascii_u32_def\<close>)
qed

lemma show_02_facts:
  "\<not> is_ascii_digit c \<Longrightarrow> c \<notin> set (show_02 n)" "word_ok (show_02 n)"
  "list_all (\<lambda>c. byte c < 65 \<or> 90 < byte c) (show_02 n)"
  using show_nat_no [of c n] show_nat_word [of n] show_nat_lower [of n]
  by (auto simp: show_02_def is_ascii_digit_def word_ok_def is_whitespace_def)

section \<open>What the parser returns\<close>

text \<open>A duration the text form can carry: whole milliseconds that fit 64 bits, or whole seconds that do.\<close>

definition duration_ok :: "duration \<Rightarrow> bool" where
  "duration_ok d \<longleftrightarrow>
     \<not> dur_is_zero d \<and> dur_secs d < 2 ^ 64 \<and> dur_nanos d < 1000000000 \<and> dur_nanos d mod 1000000 = 0
     \<and> (dur_nanos d = 0 \<or> as_millis d < 2 ^ 64)"

definition schedule_ok :: "cron_schedule \<Rightarrow> bool" where
  "schedule_ok s =
     (case s of
        Interval d \<Rightarrow> duration_ok d
      | Delay d \<Rightarrow> duration_ok d
      | TimeOfDay t days \<Rightarrow>
          t < 86400 \<and> t mod 60 = 0 \<and> (case days of None \<Rightarrow> True | Some f \<Rightarrow> filter_days f \<noteq> [])
      | Preset _ \<Rightarrow> True
      | Crontab c \<Rightarrow> crontab_parse (cs_expr c) = Some c)"

lemma from_millis_ok: "n < 2 ^ 64 \<Longrightarrow> \<not> dur_is_zero (from_millis n) \<Longrightarrow> duration_ok (from_millis n)"
proof -
  assume n: "n < 2 ^ 64" "\<not> dur_is_zero (from_millis n)"
  have "n mod 1000 < 1000" by simp
  moreover have "n div 1000 * 1000 + n mod 1000 = n" by simp
  ultimately show ?thesis using n
    by (simp add: duration_ok_def from_millis_def dur_def as_millis_def)
qed

lemma from_secs_ok: "n < 2 ^ 64 \<Longrightarrow> \<not> dur_is_zero (from_secs n) \<Longrightarrow> duration_ok (from_secs n)"
  by (simp add: duration_ok_def from_secs_def dur_def)

lemma parse_duration_suffix_secs:
  "parse_duration_suffix ms inp = Some d \<Longrightarrow> \<exists>n < 2 ^ 64. d = from_secs n"
  by (induction ms inp rule: parse_duration_suffix.induct) (auto split: option.splits if_splits)

lemma parse_schedule_duration_ok: "parse_schedule_duration text = Some d \<Longrightarrow> duration_ok d"
proof -
  assume p: "parse_schedule_duration text = Some d"
  then have "parse_duration_short_text text = Some d" "\<not> dur_is_zero d"
    by (auto simp: parse_schedule_duration_def split: option.splits if_splits)
  then show ?thesis
    using parse_duration_suffix_secs parse_ascii_bound from_millis_ok from_secs_ok
    by (auto simp: parse_duration_short_text_def Let_def split: option.splits if_splits)
qed

lemma meridiem_hour_bound: "meridiem_hour md hour = Some h \<Longrightarrow> h < 24"
  by (auto simp: meridiem_hour_def split: option.splits bool.splits if_splits)

lemma clock_secs_bound: "clock_secs md hour m = Some t \<Longrightarrow> t < 86400 \<and> t mod 60 = 0"
proof -
  assume "clock_secs md hour m = Some t"
  then obtain h where h: "t = h * 3600 + m * 60" "h < 24" "m < 60"
    using meridiem_hour_bound by (auto simp: clock_secs_def split: if_splits)
  have "(h * 3600 + m * 60) mod 60 = (h * 60 + m) * 60 mod 60" by (simp add: algebra_simps)
  then show ?thesis using h by simp
qed

lemma parse_time_bound: "parse_time_of_day inp = Some t \<Longrightarrow> t < 86400 \<and> t mod 60 = 0"
  unfolding parse_time_of_day_def Let_def
  by (simp split: if_split_asm prod.split_asm option.split_asm; blast dest: clock_secs_bound)

lemma expand_weekday_range_nonempty: "expand_weekday_range a b \<noteq> []"
  by (cases a; cases b) (simp_all add: expand_weekday_range_def ORDERED_def slice_def)

lemma parse_day_part_nonempty: "parse_day_part p = Some ds \<Longrightarrow> ds \<noteq> []"
  by (auto simp: parse_day_part_def Let_def expand_weekday_range_nonempty split: option.splits)

lemma parse_day_filter_nonempty: "parse_day_filter text = Some f \<Longrightarrow> filter_days f \<noteq> []"
proof -
  have "concat ds \<noteq> []" if "collect_options (map parse_day_part (split_on CHR '','' s)) = Some ds" for ds s
  proof -
    have m: "map parse_day_part (split_on CHR '','' s) = map Some ds" using collect_options_SomeD [OF that] .
    obtain w ws where w: "split_on CHR '','' s = w # ws" by (meson neq_Nil_conv split_on_nonempty)
    then obtain e es where "ds = e # es" using m by (cases ds) auto
    then show ?thesis using m w parse_day_part_nonempty by auto
  qed
  then show "parse_day_filter text = Some f \<Longrightarrow> ?thesis"
    by (force simp: parse_day_filter_def Let_def ORDERED_def split: if_splits)
qed

lemma crontab_words: "crontab_parse text = Some c \<Longrightarrow>
    \<exists>ws. length ws = 5 \<and> (\<forall>w\<in>set ws. ws_free w \<and> w \<noteq> []) \<and> cs_expr c = join '' '' ws"
  using split_whitespace_words
  by (auto simp: crontab_parse_def normalize_crontab_expr_def Let_def split: if_splits option.splits
      intro!: exI [of _ "split_whitespace text"])

lemma crontab_reparse: "crontab_parse text = Some c \<Longrightarrow> crontab_parse (cs_expr c) = Some c"
proof -
  assume c: "crontab_parse text = Some c"
  from crontab_words [OF c] obtain ws where ws: "length ws = 5" "\<forall>w\<in>set ws. ws_free w \<and> w \<noteq> []" "cs_expr c = join '' '' ws"
    by blast
  then have "normalize_crontab_expr (cs_expr c) = Some (cs_expr c)"
    by (simp add: normalize_crontab_expr_def split_whitespace_join)
  moreover have "parse_crontab_expr (cs_expr c) = Some (cs_matcher c)"
    using c by (auto simp: crontab_parse_def split: option.splits)
  ultimately show ?thesis by (simp add: crontab_parse_def)
qed

lemma parse_schedule_ok: "parse_schedule_text text = Some s \<Longrightarrow> schedule_ok s"
  unfolding parse_schedule_text_def schedule_of_words_def Let_def
  by (auto simp: schedule_ok_def parse_schedule_duration_ok parse_time_bound parse_day_filter_nonempty
      split: list.splits if_splits option.splits intro: crontab_reparse)


section \<open>Reading the display form back\<close>

lemma words_of_join:
  assumes "ws \<noteq> []" "list_all (\<lambda>w. ws_free w \<and> w \<noteq> []) ws"
  shows "trim (join '' '' ws) = join '' '' ws" "split_whitespace (trim (join '' '' ws)) = ws"
  using assms by (simp_all add: list_all_iff trim_join split_whitespace_join)

lemma no_ms_suffix: "strip_suffix ''ms'' (show_nat n @ [c]) = None"
proof (rule ccontr)
  assume "strip_suffix ''ms'' (show_nat n @ [c]) \<noteq> None"
  then obtain r where "show_nat n @ [c] = r @ ''ms''" using strip_suffix_SomeD by blast
  then have "show_nat n @ [c] = (r @ ''m'') @ [CHR ''s'']" by simp
  then have "show_nat n = r @ ''m''" by (metis butlast_snoc)
  then show False using show_nat_no [of "CHR ''m''" n] by (simp add: is_ascii_digit_def)
qed

lemma strip_suffix_char: "strip_suffix [c] (s @ [e]) = (if c = e then Some s else None)"
  by (auto simp: strip_suffix_def)

lemma unit_word: "word_ok sfx \<Longrightarrow> word_ok (show_nat n @ sfx)"
  by (simp add: word_ok_append show_nat_word)

lemma units_ok: "word_ok ''ms'' \<and> word_ok ''s'' \<and> word_ok ''m'' \<and> word_ok ''h'' \<and> word_ok ''d'' \<and> word_ok ''0s''"
  by (simp add: word_ok_def is_whitespace_def)

lemma parse_unit:
  "n < 2 ^ 64 \<Longrightarrow> parse_duration_short_text (show_nat n @ ''ms'') = Some (from_millis n)"
  "n < 2 ^ 64 \<Longrightarrow> parse_duration_short_text (show_nat n @ ''s'') = Some (from_secs n)"
  "n * 60 < 2 ^ 64 \<Longrightarrow> parse_duration_short_text (show_nat n @ ''m'') = Some (from_secs (n * 60))"
  "n * 3600 < 2 ^ 64 \<Longrightarrow> parse_duration_short_text (show_nat n @ ''h'') = Some (from_secs (n * 3600))"
  "n * 86400 < 2 ^ 64 \<Longrightarrow> parse_duration_short_text (show_nat n @ ''d'') = Some (from_secs (n * 86400))"
  using units_ok by (simp_all add: parse_duration_short_text_def Let_def trim_word unit_word no_ms_suffix strip_suffix_char)

lemma format_duration_word: "word_ok (format_duration_short d)"
  using units_ok unit_word unfolding format_duration_short_def Let_def by simp

lemma from_millis_as_millis:
  "dur_nanos d < 1000000000 \<Longrightarrow> dur_nanos d mod 1000000 = 0 \<Longrightarrow> from_millis (as_millis d) = d"
proof -
  assume n: "dur_nanos d < 1000000000" "dur_nanos d mod 1000000 = 0"
  define k where "k = dur_nanos d div 1000000"
  have k: "dur_nanos d = k * 1000000" "k < 1000" using n by (auto simp: k_def)
  then show ?thesis by (simp add: from_millis_def as_millis_def dur_def)
qed

lemma from_secs_dur_secs: "dur_nanos d = 0 \<Longrightarrow> from_secs (dur_secs d) = d"
  by (simp add: from_secs_def dur_def)

lemma format_duration_parse: "duration_ok d \<Longrightarrow> parse_schedule_duration (format_duration_short d) = Some d"
proof -
  assume d: "duration_ok d"
  have a: "as_nanos d mod 1000000 = 0"
  proof -
    have "as_nanos d = dur_secs d * 1000 * 1000000 + dur_nanos d" by (simp add: as_nanos_def)
    then show ?thesis using d by (simp only: duration_ok_def) (metis mod_mult_self3)
  qed
  have m: "dur_secs d div k * k = dur_secs d" if "dur_secs d mod k = 0" for k
    using that by (metis add.right_neutral div_mult_mod_eq)
  have "parse_duration_short_text (format_duration_short d) = Some d"
  proof (cases "dur_nanos d = 0")
    case True
    let ?s = "dur_secs d"
    have s: "?s \<noteq> 0" "?s < 2 ^ 64" using d True by (auto simp: duration_ok_def dur_is_zero_def)
    have fs: "from_secs ?s = d" by (rule from_secs_dur_secs [OF True])
    have u: "parse_duration_short_text (show_nat (?s div 60) @ ''m'') = Some d" if "?s mod 60 = 0"
      using parse_unit(3) [of "?s div 60"] s(2) unfolding m [OF that] fs by blast
    moreover have "parse_duration_short_text (show_nat (?s div 3600) @ ''h'') = Some d" if "?s mod 3600 = 0"
      using parse_unit(4) [of "?s div 3600"] s(2) unfolding m [OF that] fs by blast
    moreover have "parse_duration_short_text (show_nat (?s div 86400) @ ''d'') = Some d" if "?s mod 86400 = 0"
      using parse_unit(5) [of "?s div 86400"] s(2) unfolding m [OF that] fs by blast
    moreover have "parse_duration_short_text (show_nat ?s @ ''s'') = Some d"
      using parse_unit(2) [of ?s] s(2) unfolding fs by blast
    ultimately show ?thesis using s(1) True by (simp add: format_duration_short_def Let_def)
  next
    case False
    then show ?thesis using d a parse_unit(1) [of "as_millis d"] from_millis_as_millis [of d]
      by (simp add: format_duration_short_def duration_ok_def)
  qed
  then show ?thesis using d by (simp add: parse_schedule_duration_def duration_ok_def)
qed

lemma time_split:
  "t < 86400 \<Longrightarrow> t mod 60 = 0 \<Longrightarrow> t div 3600 < 24 \<and> t mod 3600 div 60 < 60 \<and> t div 3600 * 3600 + t mod 3600 div 60 * 60 = t"
  for t :: nat
proof -
  assume t: "t < 86400" "t mod 60 = 0"
  define q r where "q = t div 60 div 60" and "r = t div 60 mod 60"
  have "t = 60 * (t div 60)" "t div 60 = 60 * q + r" using t by (auto simp: q_def r_def)
  then have k: "t = 3600 * q + 60 * r" by linarith
  have "r < 60" by (simp add: r_def)
  then have "t div 3600 = q" "t mod 3600 = 60 * r" by (simp_all add: k)
  then show ?thesis using t(1) \<open>r < 60\<close> by (simp add: k)
qed

lemma strip_suffix_absent: "x \<in> set p \<Longrightarrow> x \<notin> set s \<Longrightarrow> strip_suffix p s = None"
  by (rule ccontr) (auto dest: strip_suffix_SomeD)

lemma display_time_parse:
  assumes "h < 24" "m < 60"
  shows "parse_time_of_day (show_02 h @ '':'' @ show_02 m) = Some (h * 3600 + m * 60)"
    and "word_ok (show_02 h @ '':'' @ show_02 m)"
proof -
  let ?s = "show_02 h @ '':'' @ show_02 m"
  show w: "word_ok ?s" using show_02_facts(2) by (simp add: word_ok_def is_whitespace_def)
  have low: "to_ascii_lowercase ?s = ?s"
    using show_02_facts(3) by (intro to_ascii_lowercase_id) simp
  have colon: "CHR '':'' \<in> set ?s" by simp
  have digits: "CHR ''m'' \<notin> set ?s"
    using show_02_facts(1) [of "CHR ''m''"] by (auto simp: is_ascii_digit_def)
  have sfx: "strip_suffix ''am'' ?s = None" "strip_suffix ''pm'' ?s = None"
    using digits by (auto intro: strip_suffix_absent [of "CHR ''m''"])
  have names: "?s \<noteq> ''midnight''" "?s \<noteq> ''noon''"
    using colon by (auto simp del: set_append dest!: arg_cong [where f = set])
  have so: "split_once CHR '':'' ?s = Some (show_02 h, show_02 m)"
    using split_once_append [of "CHR '':''" "show_02 h" "show_02 m"] show_02_facts(1) [of "CHR '':''"]
    by (simp add: is_ascii_digit_def)
  show "parse_time_of_day ?s = Some (h * 3600 + m * 60)"
    unfolding parse_time_of_day_def Let_def trim_word [OF w] low sfx
    using assms names so by (simp add: clock_secs_def meridiem_hour_def)
qed

lemma weekday_name_facts:
  "word_ok (weekday_short_name d)" "weekday_parse_name (weekday_short_name d) = Some d"
  "CHR '','' \<notin> set (weekday_short_name d)" "CHR ''-'' \<notin> set (weekday_short_name d)"
  "to_ascii_lowercase (weekday_short_name d) = weekday_short_name d"
proof -
  show w: "word_ok (weekday_short_name d)"
    by (cases d) (simp_all add: weekday_short_name_def word_ok_def is_whitespace_def)
  show l: "to_ascii_lowercase (weekday_short_name d) = weekday_short_name d"
    by (rule to_ascii_lowercase_id) (cases d; simp add: weekday_short_name_def)
  show "weekday_parse_name (weekday_short_name d) = Some d"
    unfolding weekday_parse_name_def trim_word [OF w] l Let_def by (cases d) (simp_all add: weekday_short_name_def)
qed (cases d; simp add: weekday_short_name_def)+


lemma join_all:
  "ws \<noteq> [] \<Longrightarrow> sep \<noteq> [] \<Longrightarrow> list_all P sep \<Longrightarrow> \<forall>w\<in>set ws. list_all P w \<and> w \<noteq> [] \<Longrightarrow>
     list_all P (join sep ws) \<and> join sep ws \<noteq> []"
proof (induction ws)
  case (Cons w ws)
  then show ?case by (cases ws) auto
qed simp

lemma day_list_parse:
  assumes "ds \<noteq> []"
  shows "parse_day_filter (join '','' (map weekday_short_name ds)) = Some \<lparr>filter_days = ds\<rparr>"
    and "word_ok (join '','' (map weekday_short_name ds))"
proof -
  let ?s = "join '','' (map weekday_short_name ds)"
  show w: "word_ok ?s"
    using join_all [of "map weekday_short_name ds" "'',''" "\<lambda>c. byte c < 128 \<and> \<not> is_whitespace c"] assms weekday_name_facts(1)
    by (auto simp: word_ok_def is_whitespace_def)
  have low: "to_ascii_lowercase ?s = ?s"
  proof (rule to_ascii_lowercase_id)
    have "list_all (\<lambda>c. byte c < 65 \<or> 90 < byte c) (weekday_short_name d) \<and> weekday_short_name d \<noteq> []" for d
      by (cases d) (simp_all add: weekday_short_name_def)
    then show "list_all (\<lambda>c. byte c < 65 \<or> 90 < byte c) ?s"
      using join_all [of "map weekday_short_name ds" "'',''" "\<lambda>c. byte c < 65 \<or> 90 < byte c"] assms by auto
  qed
  have split: "split_on CHR '','' ?s = map weekday_short_name ds"
    using split_on_join [of "map weekday_short_name ds" "CHR '',''"] assms weekday_name_facts(3) by auto
  have "?s \<noteq> n" if "n \<in> {''daily'', ''weekdays'', ''weekends''}" for n
  proof
    assume "?s = n"
    then have "split_on CHR '','' n = map weekday_short_name ds" using split by simp
    moreover have "split_on CHR '','' n = [n]" using that by auto
    ultimately obtain d where "weekday_short_name d = n" by (cases ds) auto
    then show False using that by (cases d) (auto simp: weekday_short_name_def)
  qed
  then have names: "?s \<noteq> ''daily''" "?s \<noteq> ''weekdays''" "?s \<noteq> ''weekends''" by auto
  have part: "parse_day_part (weekday_short_name d) = Some [d]" for d
    using weekday_name_facts [of d] by (simp add: parse_day_part_def Let_def trim_word split_once_None)
  have "collect_options (map parse_day_part (map weekday_short_name ds)) = Some (map (\<lambda>d. [d]) ds)"
    using collect_options_map [of ds "\<lambda>d. parse_day_part (weekday_short_name d)" "\<lambda>d. [d]"] part by (simp add: comp_def)
  then show "parse_day_filter ?s = Some \<lparr>filter_days = ds\<rparr>"
    unfolding parse_day_filter_def Let_def trim_word [OF w] low split using names by simp
qed

lemma day_filter_parse:
  assumes "filter_days f \<noteq> []"
  shows "parse_day_filter (day_filter_display f) = Some f" "word_ok (day_filter_display f)"
proof -
  have named: "to_ascii_lowercase (trim n) = n \<and> word_ok n" if "n \<in> {''daily'', ''weekdays'', ''weekends''}" for n
  proof -
    have w: "word_ok n" using that by (auto simp: word_ok_def is_whitespace_def)
    have "to_ascii_lowercase n = n" using that by (intro to_ascii_lowercase_id) auto
    then show ?thesis using w by (simp add: trim_word)
  qed
  show "word_ok (day_filter_display f)"
    using named day_list_parse(2) [OF assms] by (simp add: day_filter_display_def)
  show "parse_day_filter (day_filter_display f) = Some f"
    using named day_list_parse(1) [OF assms]
    by (cases f) (auto simp: day_filter_display_def parse_day_filter_def)
qed

lemma word_ok_list: "list_all word_ok ws \<Longrightarrow> list_all (\<lambda>w. ws_free w \<and> w \<noteq> []) ws"
  by (auto simp: list_all_iff dest: word_ok_ws_free)

lemma keyword_ok:
  "word_ok ''every''" "word_ok ''in''" "word_ok ''at''" "word_ok ''on''" "word_ok ''cron''" "word_ok (preset_display p)"
  by (cases p; simp add: word_ok_def is_whitespace_def preset_display_def)+

lemma parse_schedule_words:
  assumes "list_all word_ok ws" "ws \<noteq> []"
  shows "parse_schedule_text (join '' '' ws) = schedule_of_words (join '' '' ws) ws"
  using words_of_join [OF assms(2) word_ok_list [OF assms(1)]] by (simp add: parse_schedule_text_def Let_def)

lemma schedule_ok_duration:
  assumes "duration_ok d"
  shows "parse_schedule_text (cron_display (Interval d)) = Some (Interval d)"
    and "parse_schedule_text (cron_display (Delay d)) = Some (Delay d)"
  using parse_schedule_words [of "[''every'', format_duration_short d]"]
    parse_schedule_words [of "[''in'', format_duration_short d]"] keyword_ok format_duration_word format_duration_parse [OF assms]
  by (simp_all add: cron_display_def schedule_of_words_def)

lemma schedule_ok_crontab:
  assumes "crontab_parse (cs_expr c) = Some c"
  shows "parse_schedule_text (cron_display (Crontab c)) = Some (Crontab c)"
proof -
  from crontab_words [OF assms] obtain ws where ws: "length ws = 5" "\<forall>w\<in>set ws. ws_free w \<and> w \<noteq> []" "cs_expr c = join '' '' ws"
    by blast
  have "cron_display (Crontab c) = join '' '' (''cron'' # ws)"
    using ws by (cases ws) (simp_all add: cron_display_def)
  then show ?thesis
    using words_of_join [of "''cron'' # ws"] word_ok_ws_free [OF keyword_ok(5)] ws assms
    by (simp add: parse_schedule_text_def schedule_of_words_def list_all_iff slice_def Let_def)
qed

lemma schedule_ok_time:
  assumes "schedule_ok (TimeOfDay t days)"
  shows "parse_schedule_text (cron_display (TimeOfDay t days)) = Some (TimeOfDay t days)"
proof -
  have t: "t < 86400" "t mod 60 = 0" using assms unfolding schedule_ok_def by simp_all
  have ds: "filter_days f \<noteq> []" if "days = Some f" for f using assms that by (simp add: schedule_ok_def)
  define c where "c = show_02 (t div 3600) @ '':'' @ show_02 (t mod 3600 div 60)"
  have time: "parse_time_of_day c = Some t" "word_ok c"
    using display_time_parse [of "t div 3600" "t mod 3600 div 60"] time_split [OF t] by (simp_all add: c_def)
  show ?thesis
  proof (cases days)
    case None
    then have "cron_display (TimeOfDay t days) = join '' '' [''at'', c]" by (simp add: c_def cron_display_def Let_def)
    then show ?thesis using parse_schedule_words [of "[''at'', c]"] keyword_ok time None
      by (simp add: schedule_of_words_def)
  next
    case (Some f)
    then have "cron_display (TimeOfDay t days) = join '' '' [''at'', c, ''on'', day_filter_display f]"
      by (simp add: c_def cron_display_def Let_def)
    then show ?thesis
      using parse_schedule_words [of "[''at'', c, ''on'', day_filter_display f]"] keyword_ok time Some
        day_filter_parse [of f] ds [OF Some]
      by (simp add: schedule_of_words_def)
  qed
qed

lemma schedule_ok_preset: "parse_schedule_text (cron_display (Preset p)) = Some (Preset p)"
  using parse_schedule_words [of "[preset_display p]"] keyword_ok(6) [of p]
  by (cases p) (simp_all add: cron_display_def schedule_of_words_def preset_display_def)

lemma schedule_ok_parse_display: "schedule_ok s \<Longrightarrow> parse_schedule_text (cron_display s) = Some s"
  using schedule_ok_time
  by (cases s) (auto simp: schedule_ok_def schedule_ok_duration schedule_ok_crontab schedule_ok_preset)

text \<open>
  The laws of a text codec hold for the schedules of the parser's range: this is what the job database
  relies on when it stores a schedule as its display text.
\<close>

interpretation schedule_codec: text_codec cron_display "\<lambda>s. ok_or (parse_schedule_text s) ()" schedule_ok
  by unfold_locales (simp add: schedule_ok_parse_display)

text \<open>
  C35. Every schedule the parser can return is a well-formed one (\<open>schedule_ok\<close>), and for exactly those
  the display text is read back as the same schedule.
\<close>

theorem schedule_text_roundtrip:
  "((\<exists>inp. parse_schedule_text inp = Some s) \<longleftrightarrow> schedule_ok s)
     \<and> (parse_schedule_text (cron_display s) = Some s \<longleftrightarrow> schedule_ok s)"
  using schedule_ok_parse_display parse_schedule_ok by blast


section \<open>Crontab fields\<close>

lemma distinct_dedup_sorted: "sorted xs \<Longrightarrow> distinct (remdups_adj xs)" for xs :: "nat list"
  by (induction xs rule: remdups_adj.induct) (auto simp: order.strict_iff_order)

lemma sort_dedup: "sorted (remdups_adj (sort xs)) \<and> distinct (remdups_adj (sort xs)) \<and> set (remdups_adj (sort xs)) = set xs"
  for xs :: "nat list"
  by (simp add: distinct_dedup_sorted)

lemma sort_dedup_set: "remdups_adj (sort xs) = sorted_list_of_set (set xs)" for xs :: "nat list"
  using sort_dedup [of xs] sorted_list_of_set.idem_if_sorted_distinct by metis

lemma keep_every_subset: "set (keep_every k i xs) \<subseteq> set xs"
  by (induction k i xs rule: keep_every.induct) auto

lemma keep_every_first: "xs \<noteq> [] \<Longrightarrow> keep_every k 0 xs \<noteq> []"
  by (cases xs) auto

lemma range_inclusive_simps [simp]:
  "set (range_inclusive lo hi) = {lo..hi}" "range_inclusive lo hi = [] \<longleftrightarrow> hi < lo"
  by (auto simp: range_inclusive_def)

lemma parse_cron_range_bounds:
  "parse_cron_range lo hi names part = Some vs \<Longrightarrow> vs \<noteq> [] \<and> set vs \<subseteq> {lo..hi}"
  by (auto simp: parse_cron_range_def split: option.splits if_splits)

lemma parse_cron_part_bounds:
  "parse_cron_part lo hi names part = Some vs \<Longrightarrow> vs \<noteq> [] \<and> set vs \<subseteq> {lo..hi}"
  using keep_every_subset keep_every_first
  by (fastforce simp: parse_cron_part_def dest: parse_cron_range_bounds split: option.splits if_splits)

lemma parse_cron_item_bounds:
  assumes "parse_cron_item lo hi names item = Some vs" "lo \<le> hi"
  shows "vs \<noteq> [] \<and> set vs \<subseteq> {lo..hi}"
proof -
  have "filter (\<lambda>v. (v - lo) mod k = 0) (range_inclusive lo hi) \<noteq> []" for k
    using assms(2) by (auto simp: filter_empty_conv intro!: bexI [of _ lo])
  then show ?thesis
    using assms parse_cron_part_bounds [of lo hi names "trim item" vs]
    by (auto simp: parse_cron_item_def Let_def split: if_splits option.splits)
qed

lemma cron_field_bounds:
  assumes "parse_cron_field lo hi names field = Some vs" "lo \<le> hi"
  shows "vs \<noteq> [] \<and> sorted vs \<and> distinct vs \<and> set vs \<subseteq> {lo..hi}"
proof -
  let ?parts = "split_on CHR '','' (to_ascii_lowercase (trim field))"
  obtain vss where vss: "map (parse_cron_item lo hi names) ?parts = map Some vss" "vs = remdups_adj (sort (concat vss))"
    using assms(1) collect_options_SomeD by (auto simp: parse_cron_field_def Let_def)
  have ok: "ws \<noteq> [] \<and> set ws \<subseteq> {lo..hi}" if "ws \<in> set vss" for ws
  proof -
    have "Some ws \<in> set (map (parse_cron_item lo hi names) ?parts)" using that vss(1) by simp
    then obtain item where "parse_cron_item lo hi names item = Some ws" by (metis (no_types, lifting) imageE list.set_map)
    then show ?thesis using parse_cron_item_bounds assms(2) by blast
  qed
  have "vss \<noteq> []" using vss(1) by (cases vss) auto
  then have "concat vss \<noteq> []" using ok by (cases vss) auto
  then show ?thesis using sort_dedup [of "concat vss"] vss(2) ok by (auto simp flip: set_empty)
qed

text \<open>
  The crontab grammar with numeric values, its meaning as a set of values, and that the field parser
  computes exactly that set.
\<close>

datatype cron_item =
    AnyItem
  | AnyStep nat
  | ValueItem nat
  | ValueStep nat nat
  | RangeItem nat nat
  | RangeStep nat nat nat

fun item_text :: "cron_item \<Rightarrow> string" where
  "item_text AnyItem = ''*''"
| "item_text (AnyStep k) = ''*/'' @ show_nat k"
| "item_text (ValueItem v) = show_nat v"
| "item_text (ValueStep v k) = show_nat v @ ''/'' @ show_nat k"
| "item_text (RangeItem a b) = show_nat a @ ''-'' @ show_nat b"
| "item_text (RangeStep a b k) = show_nat a @ ''-'' @ show_nat b @ ''/'' @ show_nat k"

definition step_ok :: "nat \<Rightarrow> bool" where
  "step_ok k \<longleftrightarrow> 0 < k \<and> k < 2 ^ 32"

fun item_ok :: "nat \<Rightarrow> nat \<Rightarrow> cron_item \<Rightarrow> bool" where
  "item_ok lo hi AnyItem \<longleftrightarrow> True"
| "item_ok lo hi (AnyStep k) \<longleftrightarrow> step_ok k"
| "item_ok lo hi (ValueItem v) \<longleftrightarrow> lo \<le> v \<and> v \<le> hi"
| "item_ok lo hi (ValueStep v k) \<longleftrightarrow> lo \<le> v \<and> v \<le> hi \<and> step_ok k"
| "item_ok lo hi (RangeItem a b) \<longleftrightarrow> lo \<le> a \<and> a \<le> b \<and> b \<le> hi"
| "item_ok lo hi (RangeStep a b k) \<longleftrightarrow> lo \<le> a \<and> a \<le> b \<and> b \<le> hi \<and> step_ok k"

fun item_values :: "nat \<Rightarrow> nat \<Rightarrow> cron_item \<Rightarrow> nat set" where
  "item_values lo hi AnyItem = {lo..hi}"
| "item_values lo hi (AnyStep k) = {v \<in> {lo..hi}. k dvd v - lo}"
| "item_values lo hi (ValueItem v) = {v}"
| "item_values lo hi (ValueStep v k) = {v}"
| "item_values lo hi (RangeItem a b) = {a..b}"
| "item_values lo hi (RangeStep a b k) = {v \<in> {a..b}. k dvd v - a}"

definition field_text :: "cron_item list \<Rightarrow> string" where
  "field_text items = join '','' (map item_text items)"

definition field_ok :: "nat \<Rightarrow> nat \<Rightarrow> cron_item list \<Rightarrow> bool" where
  "field_ok lo hi items \<longleftrightarrow> items \<noteq> [] \<and> list_all (item_ok lo hi) items"

definition field_values :: "nat \<Rightarrow> nat \<Rightarrow> cron_item list \<Rightarrow> nat set" where
  "field_values lo hi items = \<Union> (item_values lo hi ` set items)"

lemma keep_every_range:
  "i + (c - a) \<le> 2 ^ 32 \<Longrightarrow> keep_every k i [a..<c] = filter (\<lambda>v. (v - a + i) mod k = 0) [a..<c]"
proof (induction "c - a" arbitrary: i a)
  case (Suc n)
  then have a: "a < c" by simp
  have "filter (\<lambda>v. (v - Suc a + (i + 1)) mod k = 0) [Suc a..<c] = filter (\<lambda>v. (v - a + i) mod k = 0) [Suc a..<c]"
    by (rule filter_cong) (auto simp: Suc_diff_Suc)
  moreover have "keep_every k (i + 1) [Suc a..<c] = filter (\<lambda>v. (v - Suc a + (i + 1)) mod k = 0) [Suc a..<c]"
    using Suc by (intro Suc(1)) auto
  moreover have "i mod 2 ^ 32 = i" using Suc a by (intro mod_less) simp
  ultimately show ?case by (simp add: upt_conv_Cons [OF a])
qed simp


lemma keep_every_inclusive:
  "b < 2 ^ 32 \<Longrightarrow> a \<le> b \<Longrightarrow> set (keep_every k 0 (range_inclusive a b)) = {v \<in> {a..b}. k dvd v - a}"
  using keep_every_range [of 0 "b + 1" a k] by (auto simp: range_inclusive_def dvd_eq_mod_eq_0 simp del: upt_Suc)

lemma item_word: "word_ok (item_text i)"
  using show_nat_word by (cases i) (auto simp: word_ok_def is_whitespace_def)

lemma item_lower: "list_all (\<lambda>c. byte c < 65 \<or> 90 < byte c) (item_text i)"
  using show_nat_lower by (cases i) auto

lemma no_sep: "CHR '','' \<notin> set (show_nat n)" "CHR ''/'' \<notin> set (show_nat n)" "CHR ''-'' \<notin> set (show_nat n)" "CHR ''*'' \<notin> set (show_nat n)"
  using show_nat_no [of _ n] by (auto simp: is_ascii_digit_def)

lemma item_no_comma: "CHR '','' \<notin> set (item_text i)"
  using no_sep by (cases i) auto

lemma parse_range_value:
  assumes "lo \<le> v" "v \<le> hi" "hi < 2 ^ 32"
  shows "parse_cron_range lo hi names (show_nat v) = Some [v]"
  using assms parse_ascii_show(1) [of v] no_sep(3) [of v]
  by (simp add: parse_cron_range_def split_once_None parse_cron_value_def)

lemma parse_range_pair:
  assumes "lo \<le> a" "a \<le> b" "b \<le> hi" "hi < 2 ^ 32"
  shows "parse_cron_range lo hi names (show_nat a @ ''-'' @ show_nat b) = Some (range_inclusive a b)"
  using assms parse_ascii_show(1) [of a] parse_ascii_show(1) [of b] no_sep(3) [of a]
    split_once_append [of "CHR ''-''" "show_nat a" "show_nat b"]
  by (simp add: parse_cron_range_def parse_cron_value_def)

lemma parse_part_step:
  assumes "step_ok k" "CHR ''/'' \<notin> set r"
  shows "parse_cron_part lo hi names (r @ ''/'' @ show_nat k) = map_option (keep_every k 0) (parse_cron_range lo hi names r)"
    and "parse_cron_part lo hi names r = parse_cron_range lo hi names r"
  using assms parse_ascii_show(1) [of k] split_once_append [OF assms(2), of "show_nat k"]
  by (simp_all add: parse_cron_part_def step_ok_def split_once_None)

lemma digit_text_not_star: "s \<noteq> [] \<Longrightarrow> hd s \<noteq> CHR ''*'' \<Longrightarrow> s \<noteq> ''*'' \<and> strip_prefix ''*/'' s = None"
  by (cases s) (auto simp: strip_prefix_def)

lemma hd_show_nat: "hd (show_nat n @ r) \<noteq> CHR ''*''"
  using no_sep(4) [of n] by (cases "show_nat n") auto

lemma parse_item_part:
  assumes "word_ok s" "hd s \<noteq> CHR ''*''"
  shows "parse_cron_item lo hi names s = parse_cron_part lo hi names s"
  using assms digit_text_not_star [of s] by (auto simp: parse_cron_item_def trim_word word_ok_def)

lemma parse_cron_item_exact:
  assumes "item_ok lo hi i" "hi < 2 ^ 32"
  shows "\<exists>vs. parse_cron_item lo hi names (item_text i) = Some vs \<and> set vs = item_values lo hi i"
proof (cases i)
  case (AnyStep k)
  have "trim (''*/'' @ show_nat k) = ''*/'' @ show_nat k" using item_word [of i] by (simp add: AnyStep trim_word)
  then show ?thesis using AnyStep assms parse_ascii_show(1) [of k] strip_prefix_append [of "''*/''" "show_nat k"]
    by (simp add: parse_cron_item_def step_ok_def dvd_eq_mod_eq_0)
next
  case (ValueItem v)
  then show ?thesis using assms parse_item_part [OF item_word, of i] hd_show_nat [of v "[]"] no_sep(2) [of v]
    parse_part_step(2) [of 1 "show_nat v"] parse_range_value [of lo v hi]
    by (simp add: step_ok_def)
next
  case (ValueStep v k)
  then show ?thesis using assms parse_item_part [OF item_word, of i] hd_show_nat [of v "''/'' @ show_nat k"] no_sep(2) [of v]
    parse_part_step(1) [of k "show_nat v"] parse_range_value [of lo v hi]
    by simp
next
  case (RangeItem a b)
  then show ?thesis using assms parse_item_part [OF item_word, of i] hd_show_nat [of a "''-'' @ show_nat b"]
    no_sep(2) [of a] no_sep(2) [of b] parse_part_step(2) [of 1 "show_nat a @ ''-'' @ show_nat b"] parse_range_pair [of lo a b hi]
    by (simp add: step_ok_def)
next
  case (RangeStep a b k)
  then show ?thesis using assms parse_item_part [OF item_word, of i] hd_show_nat [of a "''-'' @ show_nat b @ ''/'' @ show_nat k"]
    no_sep(2) [of a] no_sep(2) [of b] parse_part_step(1) [of k "show_nat a @ ''-'' @ show_nat b"] parse_range_pair [of lo a b hi]
    keep_every_inclusive [of b a k]
    by simp
qed (simp add: parse_cron_item_def trim_word word_ok_def is_whitespace_def)


lemma collect_options_all:
  "\<forall>x\<in>set xs. \<exists>y. f x = Some y \<and> P x y \<Longrightarrow> \<exists>ys. collect_options (map f xs) = Some ys \<and> list_all2 P xs ys"
  by (induction xs) (auto split: option.splits)

lemma field_facts:
  assumes "items \<noteq> []"
  shows "word_ok (field_text items)" "to_ascii_lowercase (field_text items) = field_text items"
    "split_on CHR '','' (field_text items) = map item_text items"
proof -
  have ne: "item_text i \<noteq> []" for i using item_word [of i] by (simp add: word_ok_def)
  show "word_ok (field_text items)"
    using join_all [of "map item_text items" "'',''" "\<lambda>c. byte c < 128 \<and> \<not> is_whitespace c"] assms item_word
    by (auto simp: word_ok_def is_whitespace_def field_text_def)
  show "to_ascii_lowercase (field_text items) = field_text items"
    using join_all [of "map item_text items" "'',''" "\<lambda>c. byte c < 65 \<or> 90 < byte c"] assms item_lower ne
    by (intro to_ascii_lowercase_id) (auto simp: field_text_def)
  show "split_on CHR '','' (field_text items) = map item_text items"
    unfolding field_text_def using assms item_no_comma by (intro split_on_join) auto
qed

lemma parse_cron_field_exact:
  assumes "field_ok lo hi items" "hi < 2 ^ 32"
  shows "parse_cron_field lo hi names (field_text items) = Some (sorted_list_of_set (field_values lo hi items))"
proof -
  have ne: "items \<noteq> []" using assms(1) by (simp add: field_ok_def)
  obtain vss where vss: "collect_options (map (\<lambda>i. parse_cron_item lo hi names (item_text i)) items) = Some vss"
    "list_all2 (\<lambda>i vs. set vs = item_values lo hi i) items vss"
    using collect_options_all [of items "\<lambda>i. parse_cron_item lo hi names (item_text i)" "\<lambda>i vs. set vs = item_values lo hi i"]
      parse_cron_item_exact assms by (auto simp: field_ok_def list_all_iff)
  have "set (concat vss) = field_values lo hi items"
    using vss(2) unfolding field_values_def by (induction rule: list_all2_induct) auto
  then show ?thesis
    using vss(1) field_facts [OF ne]
    by (simp add: parse_cron_field_def trim_word comp_def sort_dedup_set)
qed

lemma field_values_bounds:
  assumes "field_ok lo hi items" shows "field_values lo hi items \<subseteq> {lo..hi}"
proof -
  have "item_ok lo hi i \<Longrightarrow> item_values lo hi i \<subseteq> {lo..hi}" for i by (cases i) auto
  then show ?thesis using assms by (auto simp: field_ok_def field_values_def list_all_iff)
qed

lemma field_values_finite: "field_ok lo hi items \<Longrightarrow> finite (field_values lo hi items)"
  by (rule finite_subset [OF field_values_bounds finite_atLeastAtMost])

lemma covers_full_range_exact: "covers_full_range vs lo hi \<longleftrightarrow> vs = range_inclusive lo hi" if "lo \<le> hi"
proof -
  have "list_all (\<lambda>(v, e). v = e) (zip vs es) \<longleftrightarrow> vs = es" if "length vs = length es" for vs es :: "nat list"
    using that by (induction vs es rule: list_induct2) auto
  moreover have "length (range_inclusive lo hi) = hi - lo + 1" using that by (simp add: range_inclusive_def del: upt_Suc)
  ultimately show ?thesis by (metis covers_full_range_def)
qed

lemma sorted_covers:
  "finite A \<Longrightarrow> lo \<le> hi \<Longrightarrow> covers_full_range (sorted_list_of_set A) lo hi \<longleftrightarrow> A = {lo..hi}"
proof -
  assume a: "finite A" "lo \<le> hi"
  have "sorted_list_of_set {lo..hi} = range_inclusive lo hi"
    by (simp add: range_inclusive_def del: upt_Suc flip: atLeastLessThanSuc_atLeastAtMost)
  then show ?thesis using a covers_full_range_exact by (metis finite_atLeastAtMost set_sorted_list_of_set)
qed

section \<open>The crontab matcher\<close>

text \<open>A crontab line of the grammar: its five fields, in the order of the text.\<close>

record crontab_line =
  cl_minute :: "cron_item list"
  cl_hour :: "cron_item list"
  cl_day_of_month :: "cron_item list"
  cl_month :: "cron_item list"
  cl_day_of_week :: "cron_item list"

definition line_text :: "crontab_line \<Rightarrow> string" where
  "line_text l =
     join '' '' (map field_text [cl_minute l, cl_hour l, cl_day_of_month l, cl_month l, cl_day_of_week l])"

definition line_ok :: "crontab_line \<Rightarrow> bool" where
  "line_ok l \<longleftrightarrow>
     field_ok 0 59 (cl_minute l) \<and> field_ok 0 23 (cl_hour l) \<and> field_ok 1 31 (cl_day_of_month l)
     \<and> field_ok 1 12 (cl_month l) \<and> field_ok 0 7 (cl_day_of_week l)"

definition line_days_of_week :: "crontab_line \<Rightarrow> nat set" where
  "line_days_of_week l = (\<lambda>v. v mod 7) ` field_values 0 7 (cl_day_of_week l)"

text \<open>
  The crontab rule for days: when one of the two day fields admits every day, both have to match;
  when both are restricted, one of them is enough.
\<close>

definition line_matches :: "crontab_line \<Rightarrow> nat \<Rightarrow> nat \<Rightarrow> nat \<Rightarrow> nat \<Rightarrow> nat \<Rightarrow> bool" where
  "line_matches l minute hour day month weekday \<longleftrightarrow>
     minute \<in> field_values 0 59 (cl_minute l) \<and> hour \<in> field_values 0 23 (cl_hour l)
     \<and> month \<in> field_values 1 12 (cl_month l)
     \<and> (if field_values 1 31 (cl_day_of_month l) = {1..31} \<or> line_days_of_week l = {0..6}
        then day \<in> field_values 1 31 (cl_day_of_month l) \<and> weekday \<in> line_days_of_week l
        else day \<in> field_values 1 31 (cl_day_of_month l) \<or> weekday \<in> line_days_of_week l)"

lemma line_words:
  assumes "line_ok l"
  shows "split_whitespace (line_text l) =
    map field_text [cl_minute l, cl_hour l, cl_day_of_month l, cl_month l, cl_day_of_week l]"
  unfolding line_text_def
proof (rule split_whitespace_join)
  fix w
  assume "w \<in> set (map field_text [cl_minute l, cl_hour l, cl_day_of_month l, cl_month l, cl_day_of_week l])"
  then obtain items where "w = field_text items" "items \<noteq> []" using assms by (auto simp: line_ok_def field_ok_def)
  then show "ws_free w \<and> w \<noteq> []" using word_ok_ws_free [OF field_facts(1)] by simp
qed

lemma weekday_wrap:
  assumes "field_ok 0 7 items"
  shows "remdups_adj (sort (map (\<lambda>v. if v = 7 then 0 else v) (sorted_list_of_set (field_values 0 7 items))))
    = sorted_list_of_set ((\<lambda>v. v mod 7) ` field_values 0 7 items)"
proof -
  have "(\<lambda>v. if v = 7 then 0 else v) ` field_values 0 7 items = (\<lambda>v. v mod 7) ` field_values 0 7 items"
    using field_values_bounds [OF assms] by (intro image_cong) auto
  then show ?thesis using field_values_finite [OF assms] by (simp add: sort_dedup_set)
qed

lemma parse_crontab_line:
  assumes "line_ok l"
  shows "parse_crontab_expr (line_text l) = Some
    \<lparr>ce_minute = sorted_list_of_set (field_values 0 59 (cl_minute l)),
     ce_hour = sorted_list_of_set (field_values 0 23 (cl_hour l)),
     ce_day_of_month = sorted_list_of_set (field_values 1 31 (cl_day_of_month l)),
     ce_day_of_month_any = (field_values 1 31 (cl_day_of_month l) = {1..31}),
     ce_month = sorted_list_of_set (field_values 1 12 (cl_month l)),
     ce_day_of_week = sorted_list_of_set (line_days_of_week l),
     ce_day_of_week_any = (line_days_of_week l = {0..6})\<rparr>"
  using assms weekday_wrap [of "cl_day_of_week l"] field_values_finite [of 0 7 "cl_day_of_week l"]
  by (simp add: parse_crontab_expr_def line_words [OF assms] parse_cron_field_exact line_ok_def
      sorted_covers field_values_finite line_days_of_week_def Let_def)

text \<open>
  C36. A crontab line means what the crontab rules say: for every line of the numeric grammar, the text
  is accepted, is its own normal form, and the schedule matches a minute exactly when the minute, the hour
  and the month are in the sets their fields denote and the days satisfy the crontab rule for the two day
  fields, with 7 read as Sunday.
\<close>

theorem crontab_line_exact:
  assumes "line_ok l"
  shows "\<exists>c. crontab_parse (line_text l) = Some c \<and> cs_expr c = line_text l
    \<and> crontab_matches c = line_matches l"
proof -
  have "normalize_crontab_expr (line_text l) = Some (line_text l)"
    using line_words [OF assms] by (simp add: normalize_crontab_expr_def line_text_def)
  then show ?thesis
    using parse_crontab_line [OF assms] assms field_values_finite
    by (auto simp: crontab_parse_def crontab_matches_def crontab_expr_matches_def line_matches_def Let_def
        line_ok_def line_days_of_week_def fun_eq_iff)
qed

theorem crontab_line_exact_witness:
  "\<exists>c. crontab_parse ''*/15 9-17 1 * 1-5'' = Some c \<and> crontab_matches c 30 9 2 6 5 \<and> \<not> crontab_matches c 31 9 2 6 5"
proof -
  let ?l = "\<lparr>cl_minute = [AnyStep 15], cl_hour = [RangeItem 9 17], cl_day_of_month = [ValueItem 1], cl_month = [AnyItem],
             cl_day_of_week = [RangeItem 1 5]\<rparr>"
  have digits: "digit_char 15 = CHR ''5''" "digit_char (Suc 0) = CHR ''1''" "digit_char 9 = CHR ''9''" "digit_char 17 = CHR ''7''"
    "digit_char 5 = CHR ''5''" by code_simp+
  have "line_ok ?l" by (simp add: line_ok_def field_ok_def step_ok_def)
  moreover have "line_text ?l = ''*/15 9-17 1 * 1-5''"
    by (simp add: line_text_def field_text_def small_shows digits)
  moreover have "line_matches ?l 30 9 2 6 5 \<and> \<not> line_matches ?l 31 9 2 6 5"
  proof -
    have "(31::nat) \<notin> {1}" by simp
    then have "{1} \<noteq> {1..31::nat}" by (metis atLeastAtMost_iff numeral_le_iff one_le_numeral order_refl)
    moreover have "(0::nat) \<notin> (\<lambda>v. v mod 7) ` {1..5}" by auto
    then have "(\<lambda>v::nat. v mod 7) ` {1..5} \<noteq> {0..6}" by (metis atLeastAtMost_iff le0)
    moreover have "(5::nat) \<in> (\<lambda>v. v mod 7) ` {1..5}" by (intro image_eqI [of _ _ 5]) auto
    ultimately show ?thesis by (simp add: line_matches_def field_values_def line_days_of_week_def)
  qed
  ultimately show ?thesis using crontab_line_exact [of ?l] by auto
qed

end
