(* ===== verification/Resolver.thy ===== *)
theory Resolver
  imports Parser Cron Job
begin

text \<open>
  The resolver (\<^verbatim>\<open>crates/cue-daemon/src/parser/resolver.rs\<close> and \<^verbatim>\<open>duration.rs\<close>): from syntax trees to
  the commands the daemon executes, with the interpretation of cron schedules at the head of a chain.
  The branches the source marks unreachable are \<open>ParsePanic\<close>.
\<close>

section \<open>Resolved commands\<close>

datatype foreground_role = Controller | Observer

datatype script_source = Inline | ScriptFile string

datatype cron_schedule_ast =
    Every duration
  | At string "string option"
  | In duration
  | CrontabText string
  | PresetName string

datatype resolved_command =
    RScript mode script_source "(string \<times> resolved_command) list"
  | RRun chain_node mode_params
  | RCron cron_schedule chain_node mode_params
  | RKill string
  | RKillJob string
  | RCancelExecution string
  | RRemoveCron string
  | RRetry string
  | ROut string "nat option"
  | RErr string
  | RJobOutput string "nat option" "nat option"
  | RFg string foreground_role
  | RWait string
  | RSend string string
  | RCancel string
  | RPause string
  | RResume string
  | RLog "string option"
  | RShowLog "string option" "nat option" "nat option"
  | RJobs
  | RListJobs "nat option"
  | RCrons
  | RListCrons "nat option"
  | RScopes
  | RProviders
  | RResources
  | RListScopes "nat option"
  | REnv "string option"
  | RShowEnv "nat option"
  | RCd string
  | RScope "string option"
  | RHelp "string option"
  | RConfig "string option"
  | RShowConfig "nat option"
  | RClear
  | RQuit
  | RWrap "string option"
  | RPty "string option"

section \<open>Durations\<close>

fun duration_unit :: "(string \<times> nat) list \<Rightarrow> string \<Rightarrow> duration option" where
  "duration_unit [] s = None"
| "duration_unit ((sfx, multiplier) # rest) s =
     (if ends_with s sfx then
        (case strip_suffix sfx s of
           None \<Rightarrow> None
         | Some num \<Rightarrow>
             (case parse_ascii_u64 num of
                None \<Rightarrow> None
              | Some n \<Rightarrow> if n * multiplier < 2 ^ 64 then Some (from_secs (n * multiplier)) else None))
      else duration_unit rest s)"

definition parse_duration_str :: "string \<Rightarrow> duration option" where
  "parse_duration_str s =
     (if ends_with s ''ms'' then
        (case strip_suffix ''ms'' s of
           None \<Rightarrow> None
         | Some num \<Rightarrow> map_option from_millis (parse_ascii_u64 num))
      else duration_unit [(''s'', 1), (''m'', 60), (''h'', 3600)] s)"

section \<open>Conversions\<close>

definition convert_segment :: "ast_segment \<Rightarrow> pipe_segment" where
  "convert_segment s = \<lparr>ps_command = as_command s, ps_pipe_to_next = as_pipe_to_next s\<rparr>"

definition convert_pipeline :: "ast_segment list \<Rightarrow> pipeline" where
  "convert_pipeline segs = \<lparr>segments = map convert_segment segs\<rparr>"

fun convert_job_expr :: "job_expr \<Rightarrow> job_plan" where
  "convert_job_expr (EPipeline p) = PipelinePlan (convert_pipeline p)"
| "convert_job_expr (EAnd l r) = AndPlan (convert_job_expr l) (convert_job_expr r)"
| "convert_job_expr (EOr l r) = OrPlan (convert_job_expr l) (convert_job_expr r)"

fun convert_chain :: "ast_chain \<Rightarrow> chain_node" where
  "convert_chain (ALeaf e) = Leaf (convert_job_expr e)"
| "convert_chain (ASerial op l r) = Serial (convert_chain l) op (convert_chain r)"
| "convert_chain (AParallel op l r) = Parallel (convert_chain l) op (convert_chain r)"

fun convert_value :: "tok_value \<Rightarrow> param_value" where
  "convert_value (VStr s) = PStr s"
| "convert_value (VBool b) = PBool b"

definition convert_mode_params :: "(string \<times> tok_value) list \<Rightarrow> mode_params" where
  "convert_mode_params params = foldl (\<lambda>mp (k, v). mp_insert k (convert_value v) mp) [] params"

definition id_text :: "id_kind \<Rightarrow> u32 \<Rightarrow> string" where
  "id_text k n = show_id_kind k @ show_u32 n"

definition extract_id :: "argument \<Rightarrow> span \<Rightarrow> string \<Rightarrow> (parse_failure, string) result" where
  "extract_id arg s command =
     (case arg of
        ArgumentIdRef k n \<Rightarrow> Inr (id_text k n)
      | _ \<Rightarrow> parse_err s (''`:'' @ command @ ''` requires an ID (e.g. J1, C1)'') InvalidIdRef ['':'' @ command @ '' J1''])"

definition extract_tail_ref :: "argument \<Rightarrow> string \<times> nat option" where
  "extract_tail_ref arg =
     (case arg of
        ArgumentTailRef k n bytes \<Rightarrow> (id_text k n, bytes)
      | ArgumentIdRef k n \<Rightarrow> (id_text k n, None)
      | _ \<Rightarrow> ([], None))"

text \<open>A chain printed back as text.\<close>

definition pipeline_to_text :: "ast_segment list \<Rightarrow> string" where
  "pipeline_to_text segs =
     join '' '' (map (\<lambda>s. let cmd = join '' '' (as_command s)
                          in case as_pipe_to_next s of
                               Some PipeStdoutOp \<Rightarrow> cmd @ '' |>''
                             | Some PipeStdoutStderrOp \<Rightarrow> cmd @ '' |&>''
                             | Some PipeStderrOnlyOp \<Rightarrow> cmd @ '' |!>''
                             | None \<Rightarrow> cmd) segs)"

fun job_expr_to_text :: "job_expr \<Rightarrow> string" where
  "job_expr_to_text (EPipeline p) = pipeline_to_text p"
| "job_expr_to_text (EAnd l r) = job_expr_to_text l @ '' && '' @ job_expr_to_text r"
| "job_expr_to_text (EOr l r) = job_expr_to_text l @ '' || '' @ job_expr_to_text r"

fun chain_to_text :: "ast_chain \<Rightarrow> string" where
  "chain_to_text (ALeaf e) = job_expr_to_text e"
| "chain_to_text (ASerial op l r) =
     chain_to_text l @ '' '' @ (case op of Then \<Rightarrow> ''->'' | Always \<Rightarrow> ''~>'') @ '' '' @ chain_to_text r"
| "chain_to_text (AParallel op l r) =
     chain_to_text l @ '' '' @ (case op of AllOp \<Rightarrow> ''|||'' | RaceOp \<Rightarrow> ''|?|'') @ '' '' @ chain_to_text r"

definition extract_text :: "argument \<Rightarrow> string" where
  "extract_text arg =
     (case arg of ArgumentText t \<Rightarrow> t | ArgumentChain c \<Rightarrow> chain_to_text c | _ \<Rightarrow> [])"

text \<open>\<^verbatim>\<open>find(char::is_whitespace)\<close>: the byte index of the first white space character.\<close>

fun find_whitespace :: "string \<Rightarrow> nat option" where
  "find_whitespace [] = None"
| "find_whitespace (c # cs) = (if 0 < ws_len (c # cs) then Some 0 else map_option Suc (find_whitespace cs))"

definition split_first_word :: "string \<Rightarrow> (string \<times> string) option" where
  "split_first_word text =
     (let trimmed = trim text
      in if trimmed = [] then None
         else case find_whitespace trimmed of
           Some i \<Rightarrow> Some (take i trimmed, drop i trimmed)
         | None \<Rightarrow> Some (trimmed, []))"

definition extract_target_and_text :: "argument \<Rightarrow> span \<Rightarrow> string \<Rightarrow> (parse_failure, string \<times> string) result" where
  "extract_target_and_text arg s command =
     (let text = (case arg of ArgumentText t \<Rightarrow> t | _ \<Rightarrow> []);
          hint = ['':'' @ command @ '' J1 your input'']
      in case split_first_word (trim text) of
           None \<Rightarrow> parse_err s (''`:'' @ command @ ''` requires a target and input'') MissingArgument hint
         | Some (i, rest) \<Rightarrow>
             if trim rest = []
             then parse_err s (''`:'' @ command @ ''` requires input after the target'') MissingArgument hint
             else Inr (i, trim rest))"

definition extract_optional_text :: "argument \<Rightarrow> string option" where
  "extract_optional_text arg = (case arg of ArgumentText t \<Rightarrow> if t \<noteq> [] then Some t else None | _ \<Rightarrow> None)"

section \<open>Cron schedules at the head of a chain\<close>

definition convert_cron_schedule :: "cron_schedule_ast \<Rightarrow> cron_schedule option" where
  "convert_cron_schedule a =
     (case a of
        Every d \<Rightarrow> if \<not> dur_is_zero d then Some (Interval d) else None
      | At time days \<Rightarrow>
          (case parse_time_of_day time of
             None \<Rightarrow> None
           | Some time_secs \<Rightarrow>
               (case days of
                  Some d \<Rightarrow> map_option (\<lambda>f. TimeOfDay time_secs (Some f)) (parse_day_filter d)
                | None \<Rightarrow> Some (TimeOfDay time_secs None)))
      | In d \<Rightarrow> if \<not> dur_is_zero d then Some (Delay d) else None
      | CrontabText expr \<Rightarrow> map_option Crontab (crontab_parse expr)
      | PresetName n \<Rightarrow>
          if n = ''daily'' then Some (Preset Daily)
          else if n = ''hourly'' then Some (Preset Hourly)
          else if n = ''weekly'' then Some (Preset Weekly)
          else if n = ''monthly'' then Some (Preset Monthly)
          else None)"

definition format_duration :: "duration \<Rightarrow> string" where
  "format_duration d =
     (let seconds = dur_secs d
      in if seconds = 0 then ''0s''
         else if seconds mod 86400 = 0 then show_nat (seconds div 86400) @ ''d''
         else if seconds mod 3600 = 0 then show_nat (seconds div 3600) @ ''h''
         else if seconds mod 60 = 0 then show_nat (seconds div 60) @ ''m''
         else show_nat seconds @ ''s'')"

definition cron_schedule_display :: "cron_schedule_ast \<Rightarrow> string" where
  "cron_schedule_display a =
     (case a of
        Every d \<Rightarrow> ''every '' @ format_duration d
      | At time days \<Rightarrow>
          (case days of Some d \<Rightarrow> ''at '' @ time @ '' on '' @ d | None \<Rightarrow> ''at '' @ time)
      | In d \<Rightarrow> ''in '' @ format_duration d
      | CrontabText expr \<Rightarrow> ''cron '' @ expr
      | PresetName n \<Rightarrow> n)"

fun leftmost_job_expr_words :: "job_expr \<Rightarrow> string list option" where
  "leftmost_job_expr_words (EPipeline segs) = (case segs of [] \<Rightarrow> None | s # _ \<Rightarrow> Some (as_command s))"
| "leftmost_job_expr_words (EAnd l r) = leftmost_job_expr_words l"
| "leftmost_job_expr_words (EOr l r) = leftmost_job_expr_words l"

fun leftmost_command_words :: "ast_chain \<Rightarrow> string list option" where
  "leftmost_command_words (ALeaf e) = leftmost_job_expr_words e"
| "leftmost_command_words (ASerial op l r) = leftmost_command_words l"
| "leftmost_command_words (AParallel op l r) = leftmost_command_words l"

text \<open>Writing through the mutable reference the source obtains.\<close>

fun set_leftmost_job_expr_words :: "string list \<Rightarrow> job_expr \<Rightarrow> job_expr" where
  "set_leftmost_job_expr_words ws (EPipeline segs) =
     EPipeline (case segs of [] \<Rightarrow> [] | s # rest \<Rightarrow> s\<lparr>as_command := ws\<rparr> # rest)"
| "set_leftmost_job_expr_words ws (EAnd l r) = EAnd (set_leftmost_job_expr_words ws l) r"
| "set_leftmost_job_expr_words ws (EOr l r) = EOr (set_leftmost_job_expr_words ws l) r"

fun set_leftmost_command_words :: "string list \<Rightarrow> ast_chain \<Rightarrow> ast_chain" where
  "set_leftmost_command_words ws (ALeaf e) = ALeaf (set_leftmost_job_expr_words ws e)"
| "set_leftmost_command_words ws (ASerial op l r) = ASerial op (set_leftmost_command_words ws l) r"
| "set_leftmost_command_words ws (AParallel op l r) = AParallel op (set_leftmost_command_words ws l) r"

abbreviation cron_err :: "span \<Rightarrow> string \<Rightarrow> string list \<Rightarrow> (parse_failure, 'a) result" where
  "cron_err s m g \<equiv> parse_err s m InvalidCronSchedule g"

definition schedule_head :: "string list \<Rightarrow> span \<Rightarrow> (parse_failure, cron_schedule_ast \<times> nat) result" where
  "schedule_head words s =
     (let keyword = hd words
      in if keyword = ''every'' then
           and_then (ok_or (Option.bind (nth_opt words 1) parse_duration_str)
               (ParseErr \<lparr>pe_span = s, pe_message = ''expected duration (e.g. 5m, 30s) after `every`'',
                          pe_kind = InvalidCronSchedule, pe_suggestions = [''every 5m'']\<rparr>))
             (\<lambda>d. Inr (Every d, 2))
         else if keyword = ''at'' then
           (case nth_opt words 1 of
              None \<Rightarrow> cron_err s ''expected time after `at`'' [''at 9:00'']
            | Some time \<Rightarrow>
                if nth_opt words 2 = Some ''on'' then
                  (case nth_opt words 3 of
                     None \<Rightarrow> cron_err s ''expected day filter after `on`'' [''at 9am on weekdays'']
                   | Some days \<Rightarrow> Inr (At time (Some days), 4))
                else Inr (At time None, 2))
         else if keyword = ''on'' then
           (case nth_opt words 1 of
              None \<Rightarrow> cron_err s ''expected day filter after `on`'' [''on weekdays at 9am'']
            | Some days \<Rightarrow>
                if nth_opt words 2 \<noteq> Some ''at''
                then cron_err s ''expected `at <time>` after day filter'' [''on weekdays at 9am'']
                else (case nth_opt words 3 of
                        None \<Rightarrow> cron_err s ''expected time after `at`'' [''on weekdays at 9am'']
                      | Some time \<Rightarrow> Inr (At time (Some days), 4)))
         else if keyword = ''in'' then
           and_then (ok_or (Option.bind (nth_opt words 1) parse_duration_str)
               (ParseErr \<lparr>pe_span = s, pe_message = ''expected duration (e.g. 5m, 30s) after `in`'',
                          pe_kind = InvalidCronSchedule, pe_suggestions = [''in 30s'']\<rparr>))
             (\<lambda>d. Inr (In d, 2))
         else if keyword = ''cron'' then
           (if length words < 6
            then cron_err s ''expected five cron fields after `cron`'' [''cron */5 * * * *'']
            else Inr (CrontabText (join '' '' (slice words 1 6)), 6))
         else if keyword \<in> {''daily'', ''hourly'', ''weekly'', ''monthly''} then Inr (PresetName keyword, 1)
         else if ''do'' \<in> set words then
           (let do_idx = length (takeWhile (\<lambda>w. w \<noteq> ''do'') words)
            in if do_idx = 0 then cron_err s ''expected schedule text before `do`'' [''*/5 * * * * do curl api/health'']
               else if do_idx = 5 then Inr (CrontabText (join '' '' (take do_idx words)), do_idx + 1)
               else cron_err s ''`do` currently supports five-field crontab schedules only''
                      [''*/5 * * * * do curl api/health'', ''cron */5 * * * * curl api/health''])
         else cron_err s
                ''expected schedule keyword (every, at, on, in, cron, daily, ...) or `<5-field-crontab> do <cmd>`''
                [''every 5m'', ''at 9:00'', ''on weekdays at 9am'', ''*/5 * * * * do curl api/health''])"

definition parse_bare_cron_schedule ::
    "string list \<Rightarrow> span \<Rightarrow> (parse_failure, cron_schedule_ast \<times> nat) result" where
  "parse_bare_cron_schedule words s =
     (if words = []
      then parse_err s ''`:cron` requires a schedule expression'' MissingArgument ['':cron every 5m cargo test'']
      else and_then (schedule_head words s) (\<lambda>(schedule, consumed).
             Inr (schedule, if nth_opt words consumed = Some ''do'' then consumed + 1 else consumed)))"

definition split_bare_cron_chain ::
    "ast_chain \<Rightarrow> span \<Rightarrow> (parse_failure, cron_schedule_ast \<times> ast_chain) result" where
  "split_bare_cron_chain chain s =
     (case leftmost_command_words chain of
        None \<Rightarrow> parse_err s ''`:cron` requires a schedule expression'' MissingArgument ['':cron every 5m cargo test'']
      | Some words \<Rightarrow>
          and_then (parse_bare_cron_schedule words s) (\<lambda>(schedule, consumed).
            if length words = consumed
            then parse_err s ''`:cron` requires a command body after schedule'' MissingArgument []
            else if length words < consumed then Inl ParsePanic
            else Inr (schedule, set_leftmost_command_words (drop consumed words) chain)))"

definition resolve_cron_chain ::
    "ast_chain \<Rightarrow> mode_params \<Rightarrow> span \<Rightarrow> (parse_failure, resolved_command) result" where
  "resolve_cron_chain chain params s =
     and_then (split_bare_cron_chain chain s) (\<lambda>(schedule_ast, body).
       case convert_cron_schedule schedule_ast of
         None \<Rightarrow> cron_err s (''cannot parse cron schedule from: '' @ cron_schedule_display schedule_ast)
                   [''every 5m'', ''at 09:00'', ''daily'']
       | Some schedule \<Rightarrow> Inr (RCron schedule (convert_chain body) params))"

definition resolve_bare_cron :: "argument \<Rightarrow> span \<Rightarrow> (parse_failure, resolved_command) result" where
  "resolve_bare_cron arg s =
     (case arg of
        ArgumentChain chain \<Rightarrow> resolve_cron_chain chain [] s
      | ArgumentEmpty \<Rightarrow>
          parse_err s ''`:cron` requires a schedule expression'' MissingArgument ['':cron every 5m cargo test'']
      | _ \<Rightarrow> parse_err s ''CRON mode expects a schedule expression and command body'' UnexpectedToken [])"

section \<open>The resolver\<close>

definition is_mode_help_request :: "argument \<Rightarrow> bool" where
  "is_mode_help_request arg \<longleftrightarrow>
     arg = ArgumentChain (ALeaf (EPipeline [\<lparr>as_command = [''?''], as_pipe_to_next = None\<rparr>]))"

definition mode_help_topic :: "mode \<Rightarrow> string" where
  "mode_help_topic m = (case m of JobMode \<Rightarrow> ''job'' | CronMode \<Rightarrow> ''cron'')"

definition resolve_bare :: "argument \<Rightarrow> mode \<Rightarrow> span \<Rightarrow> (parse_failure, resolved_command) result" where
  "resolve_bare arg m s =
     (if is_mode_help_request arg then Inr (RHelp (Some (mode_help_topic m)))
      else case m of
        JobMode \<Rightarrow>
          (case arg of
             ArgumentChain chain \<Rightarrow> Inr (RRun (convert_chain chain) [])
           | ArgumentEmpty \<Rightarrow> parse_err s ''empty input'' MissingArgument []
           | _ \<Rightarrow> parse_err s ''JOB mode expects a command to run'' UnexpectedToken [])
      | CronMode \<Rightarrow> resolve_bare_cron arg s)"

definition resolve_command ::
    "string \<Rightarrow> (string \<times> tok_value) list \<Rightarrow> argument \<Rightarrow> span \<Rightarrow> (parse_failure, resolved_command) result" where
  "resolve_command n mode_params arg s =
     (let params = convert_mode_params mode_params;
          with_id = (\<lambda>f. and_then (extract_id arg s n) (\<lambda>i. Inr (f i)))
      in if n = ''run'' then
           (case arg of ArgumentChain chain \<Rightarrow> Inr (RRun (convert_chain chain) params) | _ \<Rightarrow> Inl ParsePanic)
         else if n = ''cron'' then
           (case arg of ArgumentChain chain \<Rightarrow> resolve_cron_chain chain params s | _ \<Rightarrow> Inl ParsePanic)
         else if n = ''kill'' then with_id RKill
         else if n = ''retry'' then with_id RRetry
         else if n = ''out'' then with_id (\<lambda>i. ROut i None)
         else if n = ''tail'' then
           (case extract_tail_ref arg of (i, bytes) \<Rightarrow>
              Inr (ROut i (Some (case bytes of Some b \<Rightarrow> b | None \<Rightarrow> 8192))))
         else if n = ''err'' then with_id RErr
         else if n = ''fg'' then with_id (\<lambda>i. RFg i Controller)
         else if n = ''watch'' then with_id (\<lambda>i. RFg i Observer)
         else if n = ''wait'' then with_id RWait
         else if n = ''send'' then
           and_then (extract_target_and_text arg s ''send'') (\<lambda>(i, d). Inr (RSend i d))
         else if n = ''cancel'' then with_id RCancel
         else if n = ''pause'' then with_id RPause
         else if n = ''resume'' then with_id RResume
         else if n = ''log'' then
           Inr (RLog (case arg of ArgumentIdRef k i \<Rightarrow> Some (id_text k i) | _ \<Rightarrow> None))
         else if n = ''jobs'' then Inr RJobs
         else if n = ''crons'' then Inr RCrons
         else if n = ''scopes'' then Inr RScopes
         else if n = ''providers'' then Inr RProviders
         else if n = ''resources'' then Inr RResources
         else if n = ''env'' then Inr (REnv (extract_optional_text arg))
         else if n = ''cd'' then Inr (RCd (extract_text arg))
         else if n = ''scope'' then Inr (RScope (extract_optional_text arg))
         else if n = ''help'' then Inr (RHelp (extract_optional_text arg))
         else if n = ''config'' then Inr (RConfig (extract_optional_text arg))
         else if n = ''clear'' then Inr RClear
         else if n = ''quit'' \<or> n = ''exit'' then Inr RQuit
         else if n = ''wrap'' then Inr (RWrap (extract_optional_text arg))
         else if n = ''pty'' then Inr (RPty (extract_optional_text arg))
         else Inl ParsePanic)"

function resolve :: "mode \<Rightarrow> ast \<Rightarrow> (parse_failure, resolved_command) result"
  and resolve_items :: "mode \<Rightarrow> (string \<times> ast \<times> span) list \<Rightarrow> (parse_failure, (string \<times> resolved_command) list) result" where
  "resolve m (AScript items s) = and_then (resolve_items m items) (\<lambda>rs. Inr (RScript m Inline rs))"
| "resolve m (ABareInput arg s) = resolve_bare arg m s"
| "resolve m (ACommand n params arg s) = resolve_command n params arg s"
| "resolve_items m [] = Inr []"
| "resolve_items m ((source, statement, s) # items) =
     and_then (resolve m statement) (\<lambda>c.
     and_then (resolve_items m items) (\<lambda>rs. Inr ((source, c) # rs)))"
  by pat_completeness auto
termination
  by (relation "measure (case_sum (size \<circ> snd) (size_list (size_prod (\<lambda>_. 0) (size_prod size (\<lambda>_. 0))) \<circ> snd))") auto

definition parse_command_line :: "string \<Rightarrow> mode \<Rightarrow> (parse_failure, resolved_command) result" where
  "parse_command_line input m = and_then (parse input) (resolve m)"

definition parse_file_script_command :: "string \<Rightarrow> (parse_failure, resolved_command) result" where
  "parse_file_script_command input = and_then (parse_file_script input) (resolve JobMode)"


section \<open>Schedules that were typed\<close>

lemma parse_duration_str_ok: "parse_duration_str s = Some d \<Longrightarrow> \<not> dur_is_zero d \<Longrightarrow> duration_ok d"
proof -
  assume p: "parse_duration_str s = Some d" and z: "\<not> dur_is_zero d"
  have "duration_unit us s = Some d \<Longrightarrow> \<exists>n < 2 ^ 64. d = from_secs n" for us
    by (induction us s rule: duration_unit.induct) (auto split: option.splits if_splits)
  then consider n where "n < 2 ^ 64" "d = from_millis n" | n where "n < 2 ^ 64" "d = from_secs n"
    using p parse_ascii_bound(2)
    by (force simp: parse_duration_str_def simp del: duration_unit.simps split: option.splits if_splits)
  then show ?thesis using z from_millis_ok from_secs_ok by cases auto
qed

definition ast_duration_ok :: "cron_schedule_ast \<Rightarrow> bool" where
  "ast_duration_ok a = (case a of Every d \<Rightarrow> dur_is_zero d \<or> duration_ok d | In d \<Rightarrow> dur_is_zero d \<or> duration_ok d | _ \<Rightarrow> True)"

lemma convert_cron_schedule_ok: "convert_cron_schedule a = Some s \<Longrightarrow> ast_duration_ok a \<Longrightarrow> schedule_ok s"
  by (auto simp: convert_cron_schedule_def schedule_ok_def ast_duration_ok_def parse_time_bound parse_day_filter_nonempty
      split: cron_schedule_ast.splits if_splits option.splits intro: crontab_reparse)

lemma schedule_head_facts:
  assumes "schedule_head words s = Inr (a, k)" "words \<noteq> []"
  shows "0 < k \<and> k \<le> length words \<and> ast_duration_ok a"
proof -
  have n: "Suc i \<le> length words" if "nth_opt words i = Some w" for i w using nth_opt_SomeD [OF that] by simp
  have d: "length (takeWhile (\<lambda>w. w \<noteq> ''do'') words) < length words" if "''do'' \<in> set words"
    using that by (induction words) auto
  have b: "dur_is_zero e \<or> duration_ok e" if "ok_or (Option.bind x parse_duration_str) f = Inr e" for x f e
    using that parse_duration_str_ok by (cases x) (auto simp: ok_or_def split: option.splits)
  have o: "nth_opt words 1 \<noteq> None" if "ok_or (Option.bind (nth_opt words 1) parse_duration_str) f = Inr e" for f e
    using that by (cases "nth_opt words 1") auto
  have len: "0 < length words" using assms(2) by simp
  show ?thesis
    using assms(1)
    apply (simp only: schedule_head_def Let_def split: if_split_asm)
    subgoal using b o n [of 1] by (fastforce simp: and_then_Inr_conv ast_duration_ok_def)
    subgoal using n [of 1] n [of 3] by (auto simp: ast_duration_ok_def split: option.splits if_splits)
    subgoal using n [of 3] by (auto simp: ast_duration_ok_def split: option.splits if_splits)
    subgoal using b o n [of 1] by (fastforce simp: and_then_Inr_conv ast_duration_ok_def)
    subgoal by simp
    subgoal by (auto simp: ast_duration_ok_def)
    subgoal using len by (auto simp: ast_duration_ok_def Suc_le_eq)
    subgoal by simp
    subgoal using d by (auto simp: ast_duration_ok_def)
    subgoal by simp
    subgoal by simp
    done
qed

lemma parse_bare_cron_facts:
  assumes "parse_bare_cron_schedule words s = Inr (a, k)"
  shows "0 < k \<and> k \<le> length words \<and> ast_duration_ok a"
proof -
  obtain k0 where k0: "schedule_head words s = Inr (a, k0)" "k = (if nth_opt words k0 = Some ''do'' then k0 + 1 else k0)" "words \<noteq> []"
    using assms by (auto simp: parse_bare_cron_schedule_def and_then_Inr_conv split: if_splits)
  then show ?thesis using schedule_head_facts [OF k0(1,3)] nth_opt_SomeD [of words k0 "''do''"] by auto
qed

lemma set_leftmost:
  "leftmost_command_words c = Some ws \<Longrightarrow> leftmost_command_words (set_leftmost_command_words vs c) = Some vs"
  "leftmost_command_words c = Some ws \<Longrightarrow> set_leftmost_command_words ws (set_leftmost_command_words vs c) = c"
proof -
  have "leftmost_job_expr_words e = Some ws \<Longrightarrow> leftmost_job_expr_words (set_leftmost_job_expr_words vs e) = Some vs
    \<and> set_leftmost_job_expr_words ws (set_leftmost_job_expr_words vs e) = e" for e
    by (induction e) (auto split: list.splits)
  then show "leftmost_command_words c = Some ws \<Longrightarrow> leftmost_command_words (set_leftmost_command_words vs c) = Some vs"
    "leftmost_command_words c = Some ws \<Longrightarrow> set_leftmost_command_words ws (set_leftmost_command_words vs c) = c"
    by (induction c) auto
qed

text \<open>What splitting a cron line leaves of the chain.\<close>

lemma split_bare_cron_exact:
  assumes "split_bare_cron_chain c s = Inr (a, body)"
  shows "ast_duration_ok a \<and> (\<exists>ws vs. ws \<noteq> [] \<and> vs \<noteq> [] \<and> leftmost_command_words c = Some (ws @ vs)
    \<and> leftmost_command_words body = Some vs \<and> body = set_leftmost_command_words vs c
    \<and> set_leftmost_command_words (ws @ vs) body = c)"
proof -
  obtain words k where w: "leftmost_command_words c = Some words" "parse_bare_cron_schedule words s = Inr (a, k)"
    "body = set_leftmost_command_words (drop k words) c" "length words \<noteq> k"
    using assms by (auto simp: split_bare_cron_chain_def and_then_Inr_conv split: option.splits if_splits)
  note f = parse_bare_cron_facts [OF w(2)]
  have "take k words \<noteq> []" "drop k words \<noteq> []" using f w(4) by auto
  then show ?thesis using f w set_leftmost [OF w(1), of "drop k words"]
    by (intro conjI exI [of _ "take k words"] exI [of _ "drop k words"]) auto
qed

lemma no_panic_split: "no_panic (split_bare_cron_chain c s)"
proof -
  have "no_panic (schedule_head words x)" for words x
    by (simp add: schedule_head_def Let_def ok_or_def and_then_def no_panic_def split: option.splits)
  then have p: "no_panic (parse_bare_cron_schedule words x)" for words x
    by (auto simp: parse_bare_cron_schedule_def intro!: no_panic_and_then)
  show ?thesis
    using p parse_bare_cron_facts
    by (auto simp: split_bare_cron_chain_def intro!: no_panic_and_then split: option.splits dest!: parse_bare_cron_facts)
qed

lemma resolve_cron_chain_facts:
  "no_panic (resolve_cron_chain c ps s)"
  "resolve_cron_chain c ps s = Inr r \<Longrightarrow> \<exists>sch ch. r = RCron sch ch ps \<and> schedule_ok sch"
proof -
  show "no_panic (resolve_cron_chain c ps s)"
    using no_panic_split by (auto simp: resolve_cron_chain_def intro!: no_panic_and_then split: option.splits)
  assume "resolve_cron_chain c ps s = Inr r"
  then obtain a b sch where "split_bare_cron_chain c s = Inr (a, b)" "convert_cron_schedule a = Some sch" "r = RCron sch (convert_chain b) ps"
    by (auto simp: resolve_cron_chain_def and_then_Inr_conv split: option.splits)
  then show "\<exists>sch ch. r = RCron sch ch ps \<and> schedule_ok sch"
    using split_bare_cron_exact convert_cron_schedule_ok by blast
qed


section \<open>The parser's guarantees\<close>

text \<open>What the parser guarantees of a statement, on which the unreachable branches of the resolver rest.\<close>

definition command_shape :: "string \<Rightarrow> argument \<Rightarrow> bool" where
  "command_shape n arg \<longleftrightarrow>
     n \<in> set command_names \<and> (n \<in> {''run'', ''cron''} \<longrightarrow> (case arg of ArgumentChain _ \<Rightarrow> True | _ \<Rightarrow> False))"

definition statement_shape :: "ast \<Rightarrow> bool" where
  "statement_shape a =
     (case a of ACommand n ps arg s \<Rightarrow> command_shape n arg | ABareInput arg s \<Rightarrow> True | AScript items s \<Rightarrow> False)"

definition ast_shape :: "ast \<Rightarrow> bool" where
  "ast_shape a = (case a of AScript items s \<Rightarrow> list_all (\<lambda>(_, st, _). statement_shape st) items | _ \<Rightarrow> statement_shape a)"

lemma spec_named: "command_spec_of n = Some spec \<Longrightarrow> n \<in> set command_names"
  by (auto simp: command_spec_of_def command_names_def find_Some_iff intro!: imageI)

lemma chain_commands:
  "map_option arg_kind (command_spec_of ''run'') = Some ArgChain"
  "map_option arg_kind (command_spec_of ''cron'') = Some ArgCron"
  by (simp_all add: command_spec_of_def COMMAND_SPECS_def)

lemma parse_argument_chain:
  "parse_argument_for_command n spec p = Inr (arg, q) \<Longrightarrow> arg_kind spec = ArgChain \<or> arg_kind spec = ArgCron \<Longrightarrow>
     \<exists>c. arg = ArgumentChain c"
  by (auto simp: parse_argument_for_command_def and_then_Inr_conv split: if_splits)

lemma parse_command_shape: "parse_command a p = Inr (st, q) \<Longrightarrow> statement_shape st"
proof -
  assume "parse_command a p = Inr (st, q)"
  then obtain t p1 where t: "advance p = Inr (t, p1)" "parse_command a p = Inr (st, q)"
    by (auto simp: parse_command_def and_then_Inr_conv)
  then obtain n where n: "tok t = CommandT n" by (cases "tok t") (simp_all add: parse_command_def)
  then obtain spec ps p2 arg p3 s x where c: "command_spec_or_error n x = Inr spec"
    "parse_argument_for_command n spec p2 = Inr (arg, p3)" "st = ACommand n ps arg s"
    using t by (auto simp: parse_command_def and_then_Inr_conv)
  have spec: "command_spec_of n = Some spec"
    using c(1) by (auto simp: command_spec_or_error_def and_then_Inr_conv split: option.splits)
  have "\<exists>ch. arg = ArgumentChain ch" if "n \<in> {''run'', ''cron''}"
    using that parse_argument_chain [OF c(2)] chain_commands spec by auto
  then show ?thesis using c(3) spec_named [OF spec] by (auto simp: statement_shape_def command_shape_def split: argument.splits)
qed

lemma parse_single_shape: "parse_single_statement p = Inr a \<Longrightarrow> statement_shape a"
  using parse_command_shape
  by (auto simp: parse_single_statement_def parse_statement_def Let_def and_then_Inr_conv statement_shape_def split: if_splits)

lemma collect_results_SomeD: "collect_results rs = Inr xs \<Longrightarrow> rs = map Inr xs"
  by (induction rs arbitrary: xs) (auto split: sum.splits)

lemma script_shape: "script_of_chunks input chunks = Inr a \<Longrightarrow> ast_shape a"
proof -
  assume "script_of_chunks input chunks = Inr a"
  then obtain items s where i: "map (parse_chunk input) chunks = map Inr items" "a = AScript items s"
    using collect_results_SomeD by (auto simp: script_of_chunks_def and_then_Inr_conv)
  have "statement_shape st" if "(src, st, sp) \<in> set items" for src st sp
  proof -
    have "Inr (src, st, sp) \<in> set (map (parse_chunk input) chunks)" using that i(1) by simp
    then obtain c where "parse_chunk input c = Inr (src, st, sp)" by auto
    then show ?thesis using parse_single_shape by (auto simp: parse_chunk_def and_then_Inr_conv)
  qed
  then show ?thesis using i(2) by (auto simp: ast_shape_def list_all_iff)
qed

lemma statement_ast_shape: "statement_shape a \<Longrightarrow> ast_shape a"
  by (cases a) (auto simp: ast_shape_def statement_shape_def)

lemma parse_shape: "parse input = Inr a \<Longrightarrow> ast_shape a"
proof -
  assume "parse input = Inr a"
  then obtain chunks where c: "(case chunks of [] \<Rightarrow> Inr (ABareInput ArgumentEmpty (span_of 0 0))
      | [c] \<Rightarrow> parse_single_statement (chunk_parser input c) | _ \<Rightarrow> script_of_chunks input chunks) = Inr a"
    by (auto simp: parse_def parse_tokens_def and_then_Inr_conv)
  show ?thesis
  proof (cases chunks)
    case Nil
    then show ?thesis using c by (auto simp: ast_shape_def statement_shape_def)
  next
    case (Cons x xs)
    then show ?thesis using c script_shape statement_ast_shape parse_single_shape by (cases xs) auto
  qed
qed

lemma parse_file_shape: "parse_file_script input = Inr a \<Longrightarrow> ast_shape a"
  using script_shape by (auto simp: parse_file_script_def parse_tokens_as_script_def and_then_Inr_conv Let_def split: if_splits)

section \<open>The resolver\<close>

definition item_crons :: "resolved_command \<Rightarrow> cron_schedule list" where
  "item_crons r = (case r of RCron s _ _ \<Rightarrow> [s] | _ \<Rightarrow> [])"

definition command_crons :: "resolved_command \<Rightarrow> cron_schedule list" where
  "command_crons r = (case r of RScript _ _ items \<Rightarrow> concat (map (item_crons \<circ> snd) items) | _ \<Rightarrow> item_crons r)"

definition plain_result :: "(parse_failure, resolved_command) result \<Rightarrow> bool" where
  "plain_result r \<longleftrightarrow> no_panic r \<and> (\<forall>c. r = Inr c \<longrightarrow> list_all schedule_ok (item_crons c) \<and> command_crons c = item_crons c)"

lemma plain_simple [intro]:
  "no_panic x \<Longrightarrow> (\<And>i. item_crons (f i) = [] \<and> command_crons (f i) = []) \<Longrightarrow> plain_result (and_then x (\<lambda>i. Inr (f i)))"
  by (auto simp: plain_result_def and_then_Inr_conv intro!: no_panic_and_then)

lemma plain_cron: "plain_result (resolve_cron_chain c ps s)"
  using resolve_cron_chain_facts [of c ps s] by (auto simp: plain_result_def item_crons_def command_crons_def)

lemma command_names_list: "command_names =
  [''run'', ''cron'', ''kill'', ''retry'', ''out'', ''tail'', ''err'', ''fg'', ''watch'', ''wait'', ''send'', ''cancel'',
   ''pause'', ''resume'', ''log'', ''jobs'', ''crons'', ''scopes'', ''providers'', ''resources'', ''env'', ''cd'', ''scope'',
   ''help'', ''config'', ''wrap'', ''pty'', ''clear'', ''quit'', ''exit'']"
  by (simp add: command_names_def COMMAND_SPECS_def)


lemma extract_no_panic: "no_panic (extract_id arg s n)" "no_panic (extract_target_and_text arg s n)"
  by (auto simp: extract_id_def extract_target_and_text_def Let_def split: argument.splits option.splits prod.splits)

lemma with_id_plain:
  "(\<And>i. item_crons (f i) = [] \<and> command_crons (f i) = []) \<Longrightarrow> plain_result (and_then (extract_id arg s n) (\<lambda>i. Inr (f i)))"
  by (rule plain_simple) (rule extract_no_panic)

lemma plain_Inr: "item_crons c = [] \<Longrightarrow> command_crons c = [] \<Longrightarrow> plain_result (Inr c)"
  by (simp add: plain_result_def no_panic_def)

lemmas crons_simps = item_crons_def command_crons_def

lemma plain_if: "(b \<Longrightarrow> plain_result x) \<Longrightarrow> (\<not> b \<Longrightarrow> plain_result y) \<Longrightarrow> plain_result (if b then x else y)"
  by simp

lemma resolve_command_plain:
  assumes "command_shape n arg"
  shows "plain_result (resolve_command n ps arg s)"
proof -
  have ch: "\<exists>c. arg = ArgumentChain c" if "n = ''run'' \<or> n = ''cron''"
    using that assms by (auto simp: command_shape_def split: argument.splits)
  have run: "plain_result (case arg of ArgumentChain c \<Rightarrow> Inr (RRun (convert_chain c) p) | _ \<Rightarrow> Inl ParsePanic)" if "n = ''run''" for p
    using ch that by (auto simp: crons_simps intro!: plain_Inr)
  have cron: "plain_result (case arg of ArgumentChain c \<Rightarrow> resolve_cron_chain c p s | _ \<Rightarrow> Inl ParsePanic)" if "n = ''cron''" for p
    using ch that plain_cron by auto
  have send: "plain_result (and_then (extract_target_and_text arg s ''send'') (\<lambda>(i, d). Inr (RSend i d)))"
    unfolding split_def by (rule plain_simple) (simp_all add: extract_no_panic crons_simps)
  have tail: "plain_result (case extract_tail_ref arg of (i, bytes) \<Rightarrow> Inr (ROut i (Some (case bytes of Some b \<Rightarrow> b | None \<Rightarrow> 8192))))"
    unfolding split_def by (rule plain_Inr) (simp_all add: crons_simps)
  have known: "n \<in> set command_names" using assms by (simp add: command_shape_def)
  show ?thesis
    unfolding resolve_command_def Let_def
    by (intro plain_if run cron send tail with_id_plain plain_Inr; simp add: crons_simps)
       (use known in \<open>simp add: command_names_list\<close>)
qed

lemma resolve_bare_plain: "plain_result (resolve_bare arg m s)"
proof -
  have e: "plain_result (parse_err x y k g)" for x y k g by (simp add: plain_result_def no_panic_def)
  show ?thesis using plain_cron
    by (cases m; cases arg) (auto simp: resolve_bare_def resolve_bare_cron_def e crons_simps intro!: plain_Inr)
qed

lemma resolve_statement_plain: "statement_shape a \<Longrightarrow> plain_result (resolve m a)"
  using resolve_command_plain resolve_bare_plain by (cases a) (auto simp: statement_shape_def)

lemma resolve_items_facts:
  "list_all (\<lambda>(_, st, _). statement_shape st) items \<Longrightarrow>
     no_panic (resolve_items m items)
     \<and> (\<forall>rs. resolve_items m items = Inr rs \<longrightarrow> (\<forall>r\<in>set rs. list_all schedule_ok (item_crons (snd r))))"
proof (induction items)
  case (Cons it items)
  obtain src st sp where it: "it = (src, st, sp)" by (cases it)
  have "plain_result (resolve m st)" using Cons(2) it resolve_statement_plain by simp
  then show ?case using Cons it
    by (fastforce simp: plain_result_def and_then_Inr_conv intro!: no_panic_and_then)
qed (simp add: no_panic_def)

lemma resolve_facts:
  assumes "ast_shape a"
  shows "no_panic (resolve m a) \<and> (\<forall>r. resolve m a = Inr r \<longrightarrow> list_all schedule_ok (command_crons r))"
proof (cases "statement_shape a")
  case True
  then show ?thesis using resolve_statement_plain [OF True, of m] by (auto simp: plain_result_def)
next
  case False
  then obtain items s where a: "a = AScript items s" using assms by (cases a) (auto simp: ast_shape_def)
  then show ?thesis using assms resolve_items_facts [of items m]
    by (auto simp: ast_shape_def and_then_Inr_conv command_crons_def list_all_iff intro!: no_panic_and_then)
qed


section \<open>Properties\<close>



text \<open>
  C38. What is typed can be stored: the schedule of every cron entry a command line or a script file
  registers is read back unchanged from the display text the daemon stores for it.
\<close>

theorem typed_schedules_persist:
  assumes "parse_command_line input m = Inr r \<or> parse_file_script_command input = Inr r" "s \<in> set (command_crons r)"
  shows "parse_schedule_text (cron_display s) = Some s"
proof -
  obtain a m' where "ast_shape a" "resolve m' a = Inr r"
    using assms(1) parse_shape parse_file_shape
    by (auto simp: parse_command_line_def parse_file_script_command_def and_then_Inr_conv) blast
  then have "list_all schedule_ok (command_crons r)" using resolve_facts by blast
  then show ?thesis using assms(2) schedule_ok_parse_display by (auto simp: list_all_iff)
qed

theorem typed_schedules_persist_witness:
  "\<exists>input r s. parse_command_line input CronMode = Inr r \<and> s \<in> set (command_crons r)
     \<and> parse_schedule_text (cron_display s) = Some s"
proof -
  let ?c = "ALeaf (EPipeline [\<lparr>as_command = [''daily'', ''make''], as_pipe_to_next = None\<rparr>])"
  have "parse (print_chain ?c) = Inr (ABareInput (ArgumentChain ?c) (span_of 0 (length (print_chain ?c))))"
    by (rule parse_print_chain) (simp_all add: utf8_ok_def utf8_step_ascii)
  then obtain ch where p: "parse_command_line (print_chain ?c) CronMode = Inr (RCron (Preset Daily) ch [])"
    by (simp add: parse_command_line_def resolve_bare_def is_mode_help_request_def resolve_bare_cron_def resolve_cron_chain_def
        split_bare_cron_chain_def parse_bare_cron_schedule_def schedule_head_def convert_cron_schedule_def)
  have "Preset Daily \<in> set (command_crons (RCron (Preset Daily) ch []))" by (simp add: command_crons_def item_crons_def)
  then show ?thesis using typed_schedules_persist [of "print_chain ?c" CronMode _ "Preset Daily"] p by blast
qed

end
