(* ===== verification/CronTime.thy ===== *)
theory CronTime
  imports Cron
begin

text \<open>
  The next trigger of a cron schedule (\<^verbatim>\<open>crates/cue-daemon/src/actor/cron_schedule.rs\<close>).  The calendar is
  the \<^verbatim>\<open>chrono\<close> crate: a record of the functions the code calls, over a type of local date-times and a
  type of dates.  What the results need of them is stated by \<open>calendar_ok\<close>.
\<close>

section \<open>The calendar\<close>

datatype chrono_weekday = CMon | CTue | CWed | CThu | CFri | CSat | CSun

datatype 'dt local_result = LocalSingle 'dt | LocalAmbiguous 'dt 'dt | LocalNone

record ('dt, 'date) chrono =
  date_naive :: "'dt \<Rightarrow> 'date"
  date_add_days :: "'date \<Rightarrow> nat \<Rightarrow> 'date"
  date_weekday :: "'date \<Rightarrow> chrono_weekday"
  date_year :: "'date \<Rightarrow> int"
  date_month :: "'date \<Rightarrow> nat"
  date_day :: "'date \<Rightarrow> nat"
  dt_year :: "'dt \<Rightarrow> int"
  dt_month :: "'dt \<Rightarrow> nat"
  dt_day :: "'dt \<Rightarrow> nat"
  dt_weekday :: "'dt \<Rightarrow> chrono_weekday"
  dt_hour :: "'dt \<Rightarrow> nat"
  dt_minute :: "'dt \<Rightarrow> nat"
  with_minute :: "'dt \<Rightarrow> nat \<Rightarrow> 'dt option"
  with_second :: "'dt \<Rightarrow> nat \<Rightarrow> 'dt option"
  with_nanosecond :: "'dt \<Rightarrow> nat \<Rightarrow> 'dt option"
  add_minutes :: "'dt \<Rightarrow> nat \<Rightarrow> 'dt"
  add_hours :: "'dt \<Rightarrow> nat \<Rightarrow> 'dt"
  dt_after :: "'dt \<Rightarrow> 'dt \<Rightarrow> bool"
  dt_minus_nanos :: "'dt \<Rightarrow> 'dt \<Rightarrow> int"
  with_ymd_and_hms :: "int \<Rightarrow> nat \<Rightarrow> nat \<Rightarrow> nat \<Rightarrow> nat \<Rightarrow> nat \<Rightarrow> 'dt local_result"
  time_from_seconds :: "nat \<Rightarrow> (nat \<times> nat) option"
  number_from_monday :: "chrono_weekday \<Rightarrow> nat"

section \<open>Instants\<close>

text \<open>
  A monotonic instant is a 64-bit signed number of seconds and the nanoseconds below one; adding a
  duration that leaves this range panics, which is \<open>None\<close> here.
\<close>

record instant =
  in_secs :: int
  in_nanos :: nat

definition instant_add :: "instant \<Rightarrow> duration \<Rightarrow> instant option" where
  "instant_add i d =
     (let n = in_nanos i + dur_nanos d;
          s = in_secs i + int (dur_secs d) + (if 1000000000 \<le> n then 1 else 0)
      in if s < 2 ^ 63 then Some \<lparr>in_secs = s, in_nanos = n mod 1000000000\<rparr> else None)"

definition dur_saturating_sub :: "duration \<Rightarrow> duration \<Rightarrow> duration" where
  "dur_saturating_sub a b =
     (let n = as_nanos a - as_nanos b in dur (n div 1000000000) (n mod 1000000000))"

datatype trigger = TriggerAt instant | NoTrigger | TriggerPanic

definition trigger_after :: "instant \<Rightarrow> duration \<Rightarrow> trigger" where
  "trigger_after i d = (case instant_add i d of Some t \<Rightarrow> TriggerAt t | None \<Rightarrow> TriggerPanic)"

section \<open>Occurrences\<close>

fun chrono_weekday_to_core :: "chrono_weekday \<Rightarrow> weekday" where
  "chrono_weekday_to_core CMon = Mon"
| "chrono_weekday_to_core CTue = Tue"
| "chrono_weekday_to_core CWed = Wed"
| "chrono_weekday_to_core CThu = Thu"
| "chrono_weekday_to_core CFri = Fri"
| "chrono_weekday_to_core CSat = Sat"
| "chrono_weekday_to_core CSun = Sun"

definition local_datetime :: "('dt, 'date) chrono \<Rightarrow> int \<Rightarrow> nat \<Rightarrow> nat \<Rightarrow> nat \<Rightarrow> nat \<Rightarrow> 'dt option" where
  "local_datetime c year month day hour minute =
     (case with_ymd_and_hms c year month day hour minute 0 of
        LocalSingle dt \<Rightarrow> Some dt
      | LocalAmbiguous early _ \<Rightarrow> Some early
      | LocalNone \<Rightarrow> None)"

text \<open>The candidate of one day of the search for a time of day, and the search from a day offset on.\<close>

definition day_candidate ::
    "('dt, 'date) chrono \<Rightarrow> 'dt \<Rightarrow> nat \<times> nat \<Rightarrow> day_filter option \<Rightarrow>
     (int \<Rightarrow> nat \<Rightarrow> nat \<Rightarrow> nat \<Rightarrow> nat \<Rightarrow> 'dt option) \<Rightarrow> nat \<Rightarrow> 'dt option" where
  "day_candidate c now time days resolve_local day_offset =
     (let date = date_add_days c (date_naive c now) day_offset;
          weekday = chrono_weekday_to_core (date_weekday c date)
      in if (case days of None \<Rightarrow> True | Some f \<Rightarrow> weekday \<in> set (filter_days f)) then
           (case resolve_local (date_year c date) (date_month c date) (date_day c date) (fst time) (snd time) of
              None \<Rightarrow> None
            | Some candidate \<Rightarrow> if dt_after c candidate now then Some candidate else None)
         else None)"

fun first_some :: "(nat \<Rightarrow> 'a option) \<Rightarrow> nat list \<Rightarrow> 'a option" where
  "first_some f [] = None"
| "first_some f (i # is) = (case f i of Some x \<Rightarrow> Some x | None \<Rightarrow> first_some f is)"

definition next_time_of_day_occurrence_with ::
    "('dt, 'date) chrono \<Rightarrow> 'dt \<Rightarrow> nat \<Rightarrow> day_filter option \<Rightarrow>
     (int \<Rightarrow> nat \<Rightarrow> nat \<Rightarrow> nat \<Rightarrow> nat \<Rightarrow> 'dt option) \<Rightarrow> 'dt option" where
  "next_time_of_day_occurrence_with c now time_secs days resolve_local =
     (case time_from_seconds c time_secs of
        None \<Rightarrow> None
      | Some time \<Rightarrow> first_some (day_candidate c now time days resolve_local) [0..<14])"

definition next_time_of_day_occurrence ::
    "('dt, 'date) chrono \<Rightarrow> 'dt \<Rightarrow> nat \<Rightarrow> day_filter option \<Rightarrow> 'dt option" where
  "next_time_of_day_occurrence c now time_secs days =
     next_time_of_day_occurrence_with c now time_secs days (local_datetime c)"

definition local_midnight :: "('dt, 'date) chrono \<Rightarrow> 'date \<Rightarrow> 'dt option" where
  "local_midnight c date = local_datetime c (date_year c date) (date_month c date) (date_day c date) 0 0"

definition next_preset_occurrence :: "('dt, 'date) chrono \<Rightarrow> 'dt \<Rightarrow> cron_preset \<Rightarrow> 'dt option" where
  "next_preset_occurrence c now preset =
     (case preset of
        Hourly \<Rightarrow>
          (case with_minute c now 0 of None \<Rightarrow> None | Some a \<Rightarrow>
           case with_second c a 0 of None \<Rightarrow> None | Some b \<Rightarrow>
             map_option (\<lambda>t. add_hours c t 1) (with_nanosecond c b 0))
      | Daily \<Rightarrow> local_midnight c (date_add_days c (date_naive c now) 1)
      | Weekly \<Rightarrow>
          (let today = date_naive c now;
               days_until_monday = (8 - number_from_monday c (date_weekday c today)) mod 7;
               offset = (if days_until_monday = 0 then 7 else days_until_monday)
           in local_midnight c (date_add_days c today offset))
      | Monthly \<Rightarrow>
          (let (year, month) = (if dt_month c now = 12 then (dt_year c now + 1, 1) else (dt_year c now, dt_month c now + 1))
           in local_datetime c year month 1 0 0))"

definition CRONTAB_LOOKAHEAD_MINUTES :: nat where
  "CRONTAB_LOOKAHEAD_MINUTES = 5 * 366 * 24 * 60"

definition crontab_matches_at :: "('dt, 'date) chrono \<Rightarrow> crontab_schedule \<Rightarrow> 'dt \<Rightarrow> bool" where
  "crontab_matches_at c expr t =
     (let weekday = (if dt_weekday c t = CSun then 0 else number_from_monday c (dt_weekday c t))
      in crontab_matches expr (dt_minute c t) (dt_hour c t) (dt_day c t) (dt_month c t) weekday)"

fun crontab_search :: "('dt, 'date) chrono \<Rightarrow> crontab_schedule \<Rightarrow> nat \<Rightarrow> 'dt \<Rightarrow> 'dt option" where
  "crontab_search c expr 0 candidate = None"
| "crontab_search c expr (Suc n) candidate =
     (if crontab_matches_at c expr candidate then Some candidate
      else crontab_search c expr n (add_minutes c candidate 1))"

definition first_crontab_candidate :: "('dt, 'date) chrono \<Rightarrow> 'dt \<Rightarrow> 'dt option" where
  "first_crontab_candidate c now =
     (case with_second c now 0 of None \<Rightarrow> None | Some a \<Rightarrow>
        map_option (\<lambda>t. add_minutes c t 1) (with_nanosecond c a 0))"

definition next_crontab_occurrence :: "('dt, 'date) chrono \<Rightarrow> 'dt \<Rightarrow> crontab_schedule \<Rightarrow> 'dt option" where
  "next_crontab_occurrence c now expr =
     (case first_crontab_candidate c now of
        None \<Rightarrow> None
      | Some candidate \<Rightarrow> crontab_search c expr CRONTAB_LOOKAHEAD_MINUTES candidate)"

text \<open>
  The clocks are read in the order of the source: the local time for the search, then the local time
  and the monotonic clock for the delay.
\<close>

definition instant_from_local :: "('dt, 'date) chrono \<Rightarrow> 'dt \<Rightarrow> instant \<Rightarrow> 'dt \<Rightarrow> trigger" where
  "instant_from_local c local_now instant_now target =
     (let n = dt_minus_nanos c target local_now;
          delay = (if n < 0 then dur 0 0 else dur (nat n div 1000000000) (nat n mod 1000000000))
      in trigger_after instant_now delay)"

definition occurrence_trigger :: "('dt, 'date) chrono \<Rightarrow> 'dt \<Rightarrow> instant \<Rightarrow> 'dt option \<Rightarrow> trigger" where
  "occurrence_trigger c local_now instant_now occurrence =
     (case occurrence of None \<Rightarrow> NoTrigger | Some t \<Rightarrow> instant_from_local c local_now instant_now t)"

definition next_trigger_instant ::
    "('dt, 'date) chrono \<Rightarrow> 'dt \<Rightarrow> 'dt \<Rightarrow> instant \<Rightarrow> cron_schedule \<Rightarrow> duration \<Rightarrow> trigger" where
  "next_trigger_instant c now local_now instant_now schedule elapsed =
     (case schedule of
        Interval d \<Rightarrow> trigger_after instant_now d
      | Delay d \<Rightarrow>
          (let remaining = dur_saturating_sub d elapsed
           in if dur_is_zero remaining \<and> \<not> dur_is_zero elapsed then NoTrigger
              else trigger_after instant_now remaining)
      | TimeOfDay time_secs days \<Rightarrow>
          occurrence_trigger c local_now instant_now (next_time_of_day_occurrence c now time_secs days)
      | Preset preset \<Rightarrow> occurrence_trigger c local_now instant_now (next_preset_occurrence c now preset)
      | Crontab expr \<Rightarrow> occurrence_trigger c local_now instant_now (next_crontab_occurrence c now expr))"


section \<open>Searching\<close>

lemma ex_Suc_conv: "(\<exists>k<Suc n. P k) \<longleftrightarrow> P 0 \<or> (\<exists>k<n. P (Suc k))"
  by (metis less_Suc_eq_0_disj)

lemma all_Suc_conv: "(\<forall>j<Suc n. P j) \<longleftrightarrow> P 0 \<and> (\<forall>j<n. P (Suc j))"
  by (metis less_Suc_eq_0_disj)

lemma first_some_Some:
  "first_some f is = Some x \<longleftrightarrow> (\<exists>k < length is. f (is ! k) = Some x \<and> (\<forall>j<k. f (is ! j) = None))"
proof (induction "is")
  case (Cons i "is")
  have "(\<exists>k < length (i # is). f ((i # is) ! k) = Some x \<and> (\<forall>j<k. f ((i # is) ! j) = None))
    \<longleftrightarrow> f i = Some x \<or> f i = None \<and> (\<exists>k < length is. f (is ! k) = Some x \<and> (\<forall>j<k. f (is ! j) = None))"
    by (simp add: ex_Suc_conv all_Suc_conv) blast
  then show ?case using Cons by (cases "f i") auto
qed simp

lemma first_some_upt: "first_some f [0..<n] = Some x \<longleftrightarrow> (\<exists>k<n. f k = Some x \<and> (\<forall>j<k. f j = None))"
  unfolding first_some_Some by auto

lemma first_some_upt_None: "first_some f [0..<n] = None \<longleftrightarrow> (\<forall>k<n. f k = None)"
proof -
  have "first_some f is = None \<longleftrightarrow> (\<forall>i\<in>set is. f i = None)" for "is"
    by (induction "is") (auto split: option.splits)
  then show ?thesis by auto
qed

definition minutes_after :: "('dt, 'date) chrono \<Rightarrow> 'dt \<Rightarrow> nat \<Rightarrow> 'dt" where
  "minutes_after c t k = ((\<lambda>u. add_minutes c u 1) ^^ k) t"

lemma crontab_search_exact:
  "crontab_search c expr n t = Some u \<longleftrightarrow>
     (\<exists>k<n. u = minutes_after c t k \<and> crontab_matches_at c expr u \<and> (\<forall>j<k. \<not> crontab_matches_at c expr (minutes_after c t j)))"
proof (induction n arbitrary: t)
  case (Suc n)
  have shift: "minutes_after c (add_minutes c t 1) k = minutes_after c t (Suc k)" for k
    using funpow_swap1 [of "\<lambda>u. add_minutes c u 1" k t] by (simp add: minutes_after_def)
  have "(\<exists>k<Suc n. u = minutes_after c t k \<and> crontab_matches_at c expr u \<and> (\<forall>j<k. \<not> crontab_matches_at c expr (minutes_after c t j)))
    \<longleftrightarrow> u = t \<and> crontab_matches_at c expr t \<or> \<not> crontab_matches_at c expr t \<and> (\<exists>k<n. u = minutes_after c t (Suc k)
        \<and> crontab_matches_at c expr u \<and> (\<forall>j<k. \<not> crontab_matches_at c expr (minutes_after c t (Suc j))))"
    by (simp add: ex_Suc_conv all_Suc_conv minutes_after_def [of c t 0]) blast
  moreover have "crontab_search c expr (Suc n) t = Some u \<longleftrightarrow> (if crontab_matches_at c expr t then u = t
      else crontab_search c expr n (add_minutes c t 1) = Some u)" by auto
  ultimately show ?case unfolding Suc [of "add_minutes c t 1"] shift by argo
qed simp

section \<open>Calendars\<close>

text \<open>
  What the results below use of the calendar: the time of day splits into hours and minutes, adding days
  walks through the week, a local time on a later day is later, and the following minute is later.
\<close>

definition weekday_of :: "nat \<Rightarrow> chrono_weekday" where
  "weekday_of n = [CMon, CTue, CWed, CThu, CFri, CSat, CSun] ! (n mod 7)"

definition calendar_ok :: "('dt, 'date) chrono \<Rightarrow> bool" where
  "calendar_ok c \<longleftrightarrow>
     (\<forall>s. time_from_seconds c s = (if s < 86400 then Some (s div 3600, s mod 3600 div 60) else None))
     \<and> (\<forall>d. \<exists>w. \<forall>k. date_weekday c (date_add_days c d k) = weekday_of (w + k))
     \<and> (\<forall>now k h m t. let date = date_add_days c (date_naive c now) k in
          local_datetime c (date_year c date) (date_month c date) (date_day c date) h m = Some t \<longrightarrow> 0 < k \<longrightarrow> dt_after c t now)
     \<and> (\<forall>t u. first_crontab_candidate c t = Some u \<longrightarrow> dt_after c u t)
     \<and> (\<forall>t. dt_after c (add_minutes c t 1) t)
     \<and> (\<forall>t u v. dt_after c t u \<longrightarrow> dt_after c u v \<longrightarrow> dt_after c t v)"

text \<open>Every local time of the fortnight exists: there is no gap of a daylight saving change at that time.\<close>

definition no_gaps :: "('dt, 'date) chrono \<Rightarrow> 'dt \<Rightarrow> nat \<Rightarrow> nat \<Rightarrow> bool" where
  "no_gaps c now h m \<longleftrightarrow>
     (\<forall>k<14. let date = date_add_days c (date_naive c now) k
             in local_datetime c (date_year c date) (date_month c date) (date_day c date) h m \<noteq> None)"

lemma weekday_cycle: "\<exists>k. 0 < k \<and> k < 14 \<and> chrono_weekday_to_core (weekday_of (w + k)) = d"
proof -
  have "\<exists>k\<in>{1..7}. (w + k) mod 7 = r" if "r < 7" for r :: nat
  proof -
    define q a where "q = w div 7" and "a = w mod 7"
    have w: "w = q * 7 + a" "a < 7" by (simp_all add: q_def a_def)
    show ?thesis
    proof (cases "a < r")
      case True
      then have "(w + (r - a)) mod 7 = r" using that w by simp
      then show ?thesis using True that by (intro bexI [of _ "r - a"]) auto
    next
      case False
      then have "w + (r + 7 - a) = (q + 1) * 7 + r" using w by simp
      then have "(w + (r + 7 - a)) mod 7 = r" using that by (metis mod_less mod_mult_self3)
      then show ?thesis using False w(2) by (intro bexI [of _ "r + 7 - a"]) auto
    qed
  qed
  moreover obtain r where "r < 7" "chrono_weekday_to_core ([CMon, CTue, CWed, CThu, CFri, CSat, CSun] ! r) = d"
  proof -
    let ?r = "case d of Mon \<Rightarrow> 0 | Tue \<Rightarrow> 1 | Wed \<Rightarrow> 2 | Thu \<Rightarrow> 3 | Fri \<Rightarrow> 4 | Sat \<Rightarrow> 5 | Sun \<Rightarrow> (6::nat)"
    have "?r < 7 \<and> chrono_weekday_to_core ([CMon, CTue, CWed, CThu, CFri, CSat, CSun] ! ?r) = d"
      by (cases d) simp_all
    then show ?thesis using that by blast
  qed
  ultimately obtain k where "k \<in> {1..7}" "(w + k) mod 7 = r" by blast
  then show ?thesis using \<open>chrono_weekday_to_core _ = d\<close> by (intro exI [of _ k]) (auto simp: weekday_of_def)
qed

section \<open>A calendar without gaps\<close>

text \<open>
  A calendar that satisfies the laws: date-times are minutes, dates are numbers of days, and the year
  carries the number of the day.
\<close>

definition flat_calendar :: "(nat, nat) chrono" where
  "flat_calendar =
     \<lparr>date_naive = (\<lambda>t. t div 1440), date_add_days = (+), date_weekday = weekday_of, date_year = int,
      date_month = (\<lambda>_. 1), date_day = (\<lambda>_. 1), dt_year = (\<lambda>t. int (t div 1440)), dt_month = (\<lambda>_. 1), dt_day = (\<lambda>_. 1),
      dt_weekday = (\<lambda>t. weekday_of (t div 1440)), dt_hour = (\<lambda>t. t mod 1440 div 60), dt_minute = (\<lambda>t. t mod 60),
      with_minute = (\<lambda>t m. Some (t - t mod 60 + m)), with_second = (\<lambda>t s. Some t), with_nanosecond = (\<lambda>t s. Some t),
      add_minutes = (+), add_hours = (\<lambda>t h. t + 60 * h), dt_after = (>), dt_minus_nanos = (\<lambda>a b. (int a - int b) * 60000000000),
      with_ymd_and_hms = (\<lambda>y _ _ h m _. LocalSingle (nat y * 1440 + (h * 60 + m) mod 1440)),
      time_from_seconds = (\<lambda>s. if s < 86400 then Some (s div 3600, s mod 3600 div 60) else None),
      number_from_monday = (\<lambda>w. case w of CMon \<Rightarrow> 1 | CTue \<Rightarrow> 2 | CWed \<Rightarrow> 3 | CThu \<Rightarrow> 4 | CFri \<Rightarrow> 5 | CSat \<Rightarrow> 6 | CSun \<Rightarrow> 7)\<rparr>"

lemma flat_calendar_ok: "calendar_ok flat_calendar"
  unfolding calendar_ok_def
proof (intro conjI allI)
  fix d :: nat
  show "\<exists>w. \<forall>k. date_weekday flat_calendar (date_add_days flat_calendar d k) = weekday_of (w + k)"
    by (intro exI [of _ d]) (simp add: flat_calendar_def)
next
  fix now k h m t :: nat
  have "now < (now div 1440 + k) * 1440" if "0 < k"
  proof -
    have "now = now div 1440 * 1440 + now mod 1440" "now mod 1440 < 1440" by simp_all
    then show ?thesis using that by (cases k) (auto simp: algebra_simps)
  qed
  then show "let date = date_add_days flat_calendar (date_naive flat_calendar now) k in
      local_datetime flat_calendar (date_year flat_calendar date) (date_month flat_calendar date) (date_day flat_calendar date) h m = Some t
      \<longrightarrow> 0 < k \<longrightarrow> dt_after flat_calendar t now"
    by (auto simp: flat_calendar_def local_datetime_def nat_add_distrib trans_less_add1)
qed (auto simp: flat_calendar_def first_crontab_candidate_def)

lemma flat_no_gaps: "no_gaps flat_calendar now h m"
  by (simp add: no_gaps_def flat_calendar_def local_datetime_def)

section \<open>Properties\<close>

definition day_allowed :: "('dt, 'date) chrono \<Rightarrow> 'dt \<Rightarrow> day_filter option \<Rightarrow> nat \<Rightarrow> bool" where
  "day_allowed c now days k =
     (case days of None \<Rightarrow> True
      | Some f \<Rightarrow> chrono_weekday_to_core (date_weekday c (date_add_days c (date_naive c now) k)) \<in> set (filter_days f))"

definition local_time_on :: "('dt, 'date) chrono \<Rightarrow> 'dt \<Rightarrow> nat \<Rightarrow> nat \<Rightarrow> 'dt option" where
  "local_time_on c now time_secs k =
     (let date = date_add_days c (date_naive c now) k
      in local_datetime c (date_year c date) (date_month c date) (date_day c date) (time_secs div 3600) (time_secs mod 3600 div 60))"

lemma day_candidate_alt:
  "day_candidate c now (time_secs div 3600, time_secs mod 3600 div 60) days (local_datetime c) k =
     (if day_allowed c now days k
      then (case local_time_on c now time_secs k of Some t \<Rightarrow> if dt_after c t now then Some t else None | None \<Rightarrow> None)
      else None)"
  by (simp add: day_candidate_def day_allowed_def local_time_on_def Let_def split: option.splits)

text \<open>
  C39. A time-of-day schedule always has a next occurrence, and it is the first one: with a nonempty day
  filter and no gap in the local time over the fortnight, the search returns the local time of the
  earliest allowed day on which it lies after now.
\<close>

theorem time_of_day_next_occurrence:
  assumes "calendar_ok c" "schedule_ok (TimeOfDay time_secs days)" "no_gaps c now (time_secs div 3600) (time_secs mod 3600 div 60)"
  shows "\<exists>k<14. \<exists>t. next_time_of_day_occurrence c now time_secs days = Some t \<and> local_time_on c now time_secs k = Some t
    \<and> day_allowed c now days k \<and> dt_after c t now
    \<and> (\<forall>j<k. \<forall>u. day_allowed c now days j \<longrightarrow> local_time_on c now time_secs j = Some u \<longrightarrow> \<not> dt_after c u now)"
proof -
  let ?f = "day_candidate c now (time_secs div 3600, time_secs mod 3600 div 60) days (local_datetime c)"
  have t: "time_secs < 86400" "case days of None \<Rightarrow> True | Some f \<Rightarrow> filter_days f \<noteq> []"
    using assms(2) unfolding schedule_ok_def by simp_all
  have n: "next_time_of_day_occurrence c now time_secs days = first_some ?f [0..<14]"
    using assms(1) t(1) by (simp add: calendar_ok_def next_time_of_day_occurrence_def next_time_of_day_occurrence_with_def)
  obtain w where w: "\<And>k. date_weekday c (date_add_days c (date_naive c now) k) = weekday_of (w + k)"
    using assms(1) unfolding calendar_ok_def by metis
  obtain k where k: "0 < k" "k < 14" "day_allowed c now days k"
  proof (cases days)
    case None
    then show ?thesis using that [of 1] by (simp add: day_allowed_def)
  next
    case (Some f)
    then obtain d where "d \<in> set (filter_days f)" using t(2) by (cases "filter_days f") auto
    moreover obtain k where "0 < k" "k < 14" "chrono_weekday_to_core (weekday_of (w + k)) = d" using weekday_cycle by blast
    ultimately show ?thesis using that [of k] Some w by (simp add: day_allowed_def)
  qed
  obtain t where t: "local_time_on c now time_secs k = Some t"
    using assms(3) k(2) by (auto simp: no_gaps_def local_time_on_def Let_def)
  then have "dt_after c t now" using assms(1) k(1) by (auto simp: calendar_ok_def local_time_on_def Let_def)
  then have "?f k \<noteq> None" using t k(3) by (simp add: day_candidate_alt)
  then have "first_some ?f [0..<14] \<noteq> None" using k(2) first_some_upt_None [of ?f 14] by metis
  then obtain x where fx: "first_some ?f [0..<14] = Some x" unfolding not_None_eq by (elim exE)
  then obtain i where i: "i < 14" "?f i = Some x" "\<forall>j<i. ?f j = None" unfolding first_some_upt by (elim exE conjE)
  have x: "day_allowed c now days i \<and> local_time_on c now time_secs i = Some x \<and> dt_after c x now"
    using i(2) unfolding day_candidate_alt by (simp split: if_splits option.splits)
  have "\<not> dt_after c u now" if "j < i" "day_allowed c now days j" "local_time_on c now time_secs j = Some u" for j u
    using i(3) that unfolding day_candidate_alt by (auto split: if_splits)
  then show ?thesis unfolding n fx using i(1) x by blast
qed

theorem time_of_day_next_occurrence_witness:
  "\<exists>k<14. \<exists>t. next_time_of_day_occurrence flat_calendar 600 32400 (Some \<lparr>filter_days = [Wed]\<rparr>) = Some t
    \<and> day_allowed flat_calendar 600 (Some \<lparr>filter_days = [Wed]\<rparr>) k"
  using time_of_day_next_occurrence [OF flat_calendar_ok, of 32400 "Some \<lparr>filter_days = [Wed]\<rparr>" 600] flat_no_gaps
  by (auto simp: schedule_ok_def)



text \<open>
  The schedule parser accepts intervals that panic the scheduler: an interval of \<open>2 ^ 63\<close> seconds is
  a well-formed schedule, but no monotonic clock reading leaves room for it.
\<close>

theorem huge_interval_panics:
  assumes "0 \<le> in_secs i"
  shows "parse_schedule_text ''every 9223372036854775808s'' = Some (Interval (from_secs (2 ^ 63)))
    \<and> next_trigger_instant c now local_now i (Interval (from_secs (2 ^ 63))) elapsed = TriggerPanic"
proof
  have "parse_schedule_duration ''9223372036854775808s'' = Some (from_secs (2 ^ 63))"
    by (simp add: parse_schedule_duration_def parse_duration_short_text_def trim_word word_ok_def is_whitespace_def strip_suffix_def
        parse_ascii_u64_def is_ascii_digit_def parse_uint_def all_digits_def digits_value_def digit_val_def from_secs_def dur_def dur_is_zero_def)
  then show "parse_schedule_text ''every 9223372036854775808s'' = Some (Interval (from_secs (2 ^ 63)))"
    using parse_schedule_words [of "[''every'', ''9223372036854775808s'']"] keyword_ok(1)
    by (simp add: schedule_of_words_def word_ok_def is_whitespace_def)
  show "next_trigger_instant c now local_now i (Interval (from_secs (2 ^ 63))) elapsed = TriggerPanic"
    using assms by (simp add: next_trigger_instant_def trigger_after_def instant_add_def from_secs_def dur_def Let_def)
qed

theorem huge_interval_panics_witness:
  "next_trigger_instant flat_calendar 0 0 \<lparr>in_secs = 0, in_nanos = 0\<rparr> (Interval (from_secs (2 ^ 63))) (dur 0 0) = TriggerPanic"
  using huge_interval_panics [of "\<lparr>in_secs = 0, in_nanos = 0\<rparr>" flat_calendar 0 0 "dur 0 0"] by simp

end
