(* ===== verification/CronTable.thy ===== *)
theory CronTable
  imports Resolver CronTime Storage "HOL-Library.AList"
begin

text \<open>
  The cron entries of the scheduler (\<^verbatim>\<open>crates/cue-daemon/src/actor/scheduler.rs\<close>) and their table in the
  store (\<^verbatim>\<open>crates/cue-daemon/src/storage.rs\<close>): registering, pausing, resuming, removing, firing and the
  restoration at start-up.

  Parameters stand for what these operations call: \<open>sql\<close> says whether the statements of a call succeed,
  \<open>guard\<close> is the guardrail check of the configuration, \<open>spawn\<close> whether \<^verbatim>\<open>spawn_chain\<close> accepts the chain,
  and \<open>trig\<close> is \<open>next_trigger_instant\<close> at the clock readings of the operation.
\<close>

section \<open>Records\<close>

record cron_entry =
  en_cron_id :: cron_id
  en_schedule :: cron_schedule
  en_chain :: chain_node
  en_scope_hash :: scope_hash
  en_status :: cron_status
  en_next_trigger :: instant
  en_cwd_override :: "string option"
  en_scope_enabled :: bool
  en_wrapper_enabled :: bool
  en_session_id :: "string option"

record stored_cron =
  st_id :: string
  st_session_id :: "string option"
  st_schedule :: string
  st_command :: string
  st_status :: cron_status
  st_scope_hash :: "scope_hash option"
  st_cwd_override :: "string option"
  st_scope_enabled :: bool
  st_wrapper_enabled :: bool

record cron_row =
  cr_stored :: stored_cron
  cr_created_at_ms :: int

type_synonym cron_rows = "cron_row list"

record loaded_cron =
  lc_record :: stored_cron
  lc_elapsed :: duration

section \<open>The crons table\<close>

text \<open>
  The stored form of an entry: an entry whose scope is not persisted is stored as paused and without
  its scope.  The creation time of a row survives its updates.
\<close>

definition persisted_cron :: "database \<Rightarrow> stored_cron \<Rightarrow> stored_cron" where
  "persisted_cron db c =
     (let volatile_scope = (case st_scope_hash c of None \<Rightarrow> False | Some h \<Rightarrow> h \<notin> scope_hashes db)
      in if volatile_scope then c\<lparr>st_scope_hash := None, st_status := Paused\<rparr> else c)"

fun upsert_row :: "int \<Rightarrow> stored_cron \<Rightarrow> cron_rows \<Rightarrow> cron_rows" where
  "upsert_row now_ms c [] = [\<lparr>cr_stored = c, cr_created_at_ms = now_ms\<rparr>]"
| "upsert_row now_ms c (r # rs) =
     (if st_id (cr_stored r) = st_id c then r\<lparr>cr_stored := c\<rparr> # rs else r # upsert_row now_ms c rs)"

definition upsert_cron ::
    "bool \<Rightarrow> int \<Rightarrow> database \<Rightarrow> stored_cron \<Rightarrow> cron_rows \<Rightarrow> (storage_error, unit) result \<times> cron_rows" where
  "upsert_cron sql now_ms db c rows =
     (if sql then (Inr (), upsert_row now_ms (persisted_cron db c) rows) else (Inl SqlError, rows))"

definition delete_cron :: "bool \<Rightarrow> string \<Rightarrow> cron_rows \<Rightarrow> (storage_error, unit) result \<times> cron_rows" where
  "delete_cron sql i rows =
     (if sql then (Inr (), filter (\<lambda>r. st_id (cr_stored r) \<noteq> i) rows) else (Inl SqlError, rows))"

definition duration_from_nonnegative_millis :: "int \<Rightarrow> duration option" where
  "duration_from_nonnegative_millis ms = (if 0 \<le> ms then Some (from_millis (nat ms)) else None)"

definition load_row :: "int \<Rightarrow> cron_row \<Rightarrow> (storage_error, u32 \<times> loaded_cron) result" where
  "load_row now_ms r =
     (case parse_cron_id (st_id (cr_stored r)) of
        Inl _ \<Rightarrow> Inl CorruptRow
      | Inr (CronId n) \<Rightarrow>
          (case duration_from_nonnegative_millis (now_ms - cr_created_at_ms r) of
             None \<Rightarrow> Inl CorruptRow
           | Some e \<Rightarrow> Inr (n, \<lparr>lc_record = cr_stored r, lc_elapsed = e\<rparr>)))"

definition load_crons :: "bool \<Rightarrow> int \<Rightarrow> cron_rows \<Rightarrow> (storage_error, loaded_cron list) result" where
  "load_crons sql now_ms rows =
     (if sql then and_then (collect_results (map (load_row now_ms) rows)) (\<lambda>cs. Inr (map snd (sort_key fst cs)))
      else Inl SqlError)"

section \<open>The scheduler's table\<close>

record cron_state =
  next_cron :: u32
  crons :: "(cron_id \<times> cron_entry) list"
  cron_rows_t :: cron_rows

definition alloc_cron :: "cron_state \<Rightarrow> cron_id \<times> cron_state" where
  "alloc_cron s = (CronId (next_cron s), s\<lparr>next_cron := next_cron s + 1\<rparr>)"

definition stored_cron_from_entry :: "cron_entry \<Rightarrow> stored_cron" where
  "stored_cron_from_entry e =
     \<lparr>st_id = show_cron_id (en_cron_id e), st_session_id = en_session_id e,
      st_schedule = cron_display (en_schedule e), st_command = show_chain_node (en_chain e),
      st_status = en_status e, st_scope_hash = Some (en_scope_hash e), st_cwd_override = en_cwd_override e,
      st_scope_enabled = en_scope_enabled e, st_wrapper_enabled = en_wrapper_enabled e\<rparr>"

datatype cron_error =
    CronNotFound
  | CronAlreadyTerminal
  | CronBlocked string
  | CronNoNextTrigger string
  | CronBadParams string
  | CronPersistFailed
  | CronPanic

record cron_env =
  cv_sql :: bool
  cv_now_ms :: int
  cv_db :: database
  cv_trig :: "cron_schedule \<Rightarrow> duration \<Rightarrow> trigger"
  cv_guard :: "chain_node \<Rightarrow> (string, string list) result"
  cv_spawn :: "cron_entry \<Rightarrow> bool"

text \<open>Persisting an entry: \<^verbatim>\<open>persist_cron_entry\<close> and \<^verbatim>\<open>persist_cron_record\<close>.\<close>

definition persist_cron_entry :: "cron_env \<Rightarrow> cron_entry \<Rightarrow> cron_rows \<Rightarrow> (storage_error, unit) result \<times> cron_rows" where
  "persist_cron_entry v e rows = upsert_cron (cv_sql v) (cv_now_ms v) (cv_db v) (stored_cron_from_entry e) rows"

definition new_cron_entry ::
    "cron_id \<Rightarrow> cron_schedule \<Rightarrow> chain_node \<Rightarrow> scope_hash \<Rightarrow> instant \<Rightarrow> bool \<Rightarrow> bool \<Rightarrow> string option \<Rightarrow> cron_entry" where
  "new_cron_entry cid schedule chain scope t scope_enabled wrapper_enabled session =
     \<lparr>en_cron_id = cid, en_schedule = schedule, en_chain = chain, en_scope_hash = scope,
      en_status = Scheduled, en_next_trigger = t, en_cwd_override = None,
      en_scope_enabled = scope_enabled, en_wrapper_enabled = wrapper_enabled, en_session_id = session\<rparr>"

text \<open>
  \<^verbatim>\<open>ResolvedCommand::Cron\<close>, from the derived scope on; \<open>opts\<close> is the result of
  \<^verbatim>\<open>ChainExecutionOptions::from_params\<close>, the scope and wrapper flags or an error.
\<close>

definition add_cron ::
    "cron_env \<Rightarrow> cron_schedule \<Rightarrow> chain_node \<Rightarrow> scope_hash \<Rightarrow> (string, bool \<times> bool) result \<Rightarrow> string option \<Rightarrow>
     cron_state \<Rightarrow> (cron_error, cron_id) result \<times> cron_state" where
  "add_cron v schedule chain scope opts session s =
     (case cv_guard v chain of
        Inl reason \<Rightarrow> (Inl (CronBlocked reason), s)
      | Inr _ \<Rightarrow>
          (case alloc_cron s of (cid, s1) \<Rightarrow>
             (case cv_trig v schedule (dur 0 0) of
                TriggerPanic \<Rightarrow> (Inl CronPanic, s1)
              | NoTrigger \<Rightarrow> (Inl (CronNoNextTrigger (cron_display schedule)), s1)
              | TriggerAt t \<Rightarrow>
                  (case opts of
                     Inl reason \<Rightarrow> (Inl (CronBadParams reason), s1)
                   | Inr (scope_enabled, wrapper_enabled) \<Rightarrow>
                       let e = new_cron_entry cid schedule chain scope t scope_enabled wrapper_enabled session
                       in case persist_cron_entry v e (cron_rows_t s1) of
                            (Inl _, rows) \<Rightarrow> (Inl CronPersistFailed, s1\<lparr>cron_rows_t := rows\<rparr>)
                          | (Inr _, rows) \<Rightarrow>
                              (Inr cid, s1\<lparr>cron_rows_t := rows, crons := AList.update cid e (crons s1)\<rparr>)))))"

definition update_cron :: "cron_env \<Rightarrow> cron_id \<Rightarrow> cron_entry \<Rightarrow> cron_state \<Rightarrow> (cron_error, unit) result \<times> cron_state" where
  "update_cron v cid e s =
     (case persist_cron_entry v e (cron_rows_t s) of
        (Inl _, rows) \<Rightarrow> (Inl CronPersistFailed, s\<lparr>cron_rows_t := rows\<rparr>)
      | (Inr _, rows) \<Rightarrow> (Inr (), s\<lparr>cron_rows_t := rows, crons := AList.update cid e (crons s)\<rparr>))"

definition pause_cron :: "cron_env \<Rightarrow> cron_id \<Rightarrow> cron_state \<Rightarrow> (cron_error, unit) result \<times> cron_state" where
  "pause_cron v cid s =
     (case map_of (crons s) cid of
        None \<Rightarrow> (Inl CronNotFound, s)
      | Some e \<Rightarrow>
          if cron_is_terminal (en_status e) then (Inl CronAlreadyTerminal, s)
          else update_cron v cid (e\<lparr>en_status := Paused\<rparr>) s)"

definition resume_cron :: "cron_env \<Rightarrow> cron_id \<Rightarrow> cron_state \<Rightarrow> (cron_error, unit) result \<times> cron_state" where
  "resume_cron v cid s =
     (case map_of (crons s) cid of
        None \<Rightarrow> (Inl CronNotFound, s)
      | Some e \<Rightarrow>
          if cron_is_terminal (en_status e) then (Inl CronAlreadyTerminal, s)
          else
            let e1 = e\<lparr>en_status := Scheduled\<rparr>
            in case cv_trig v (en_schedule e1) (dur 0 0) of
                 TriggerPanic \<Rightarrow> (Inl CronPanic, s)
               | TriggerAt t \<Rightarrow> update_cron v cid (e1\<lparr>en_next_trigger := t\<rparr>) s
               | NoTrigger \<Rightarrow> update_cron v cid e1 s)"

definition remove_cron_entry :: "cron_env \<Rightarrow> cron_id \<Rightarrow> cron_state \<Rightarrow> (cron_error, unit) result \<times> cron_state" where
  "remove_cron_entry v cid s =
     (case delete_cron (cv_sql v) (show_cron_id cid) (cron_rows_t s) of
        (Inl _, rows) \<Rightarrow> (Inl CronPersistFailed, s\<lparr>cron_rows_t := rows\<rparr>)
      | (Inr _, rows) \<Rightarrow> (Inr (), s\<lparr>cron_rows_t := rows, crons := AList.delete cid (crons s)\<rparr>))"

definition remove_cron :: "cron_env \<Rightarrow> cron_id \<Rightarrow> cron_state \<Rightarrow> (cron_error, unit) result \<times> cron_state" where
  "remove_cron v cid s =
     (if map_of (crons s) cid = None then (Inl CronNotFound, s) else remove_cron_entry v cid s)"

section \<open>Firing\<close>

text \<open>A new status is kept in memory even when it cannot be persisted.\<close>

definition set_cron_status :: "cron_env \<Rightarrow> cron_id \<Rightarrow> cron_status \<Rightarrow> cron_state \<Rightarrow> cron_state" where
  "set_cron_status v cid st s =
     (case map_of (crons s) cid of
        None \<Rightarrow> s
      | Some e \<Rightarrow>
          let e1 = e\<lparr>en_status := st\<rparr>
          in s\<lparr>crons := AList.update cid e1 (crons s), cron_rows_t := snd (persist_cron_entry v e1 (cron_rows_t s))\<rparr>)"

definition mark_cron_failed :: "cron_env \<Rightarrow> cron_id \<Rightarrow> cron_state \<Rightarrow> cron_state" where
  "mark_cron_failed v cid s = set_cron_status v cid CronFailed s"

definition instant_le :: "instant \<Rightarrow> instant \<Rightarrow> bool" where
  "instant_le a b \<longleftrightarrow> in_secs a < in_secs b \<or> in_secs a = in_secs b \<and> in_nanos a \<le> in_nanos b"

definition due_crons :: "instant \<Rightarrow> cron_state \<Rightarrow> cron_id list" where
  "due_crons now s =
     map fst (filter (\<lambda>(_, e). cron_is_runnable (en_status e) \<and> instant_le (en_next_trigger e) now) (crons s))"

text \<open>Firing one entry: the entry whose chain was spawned, if any, and the new state; \<open>None\<close> is a panic.\<close>

definition fire_cron :: "cron_env \<Rightarrow> cron_id \<Rightarrow> cron_state \<Rightarrow> (cron_entry list \<times> cron_state) option" where
  "fire_cron v cid s =
     (case map_of (crons s) cid of
        None \<Rightarrow> Some ([], s)
      | Some e \<Rightarrow>
          (case cv_guard v (en_chain e) of
             Inl _ \<Rightarrow> Some ([], mark_cron_failed v cid s)
           | Inr _ \<Rightarrow>
               if \<not> cv_spawn v e then Some ([], mark_cron_failed v cid s)
               else if is_oneshot (en_schedule e) then Some ([e], set_cron_status v cid CronCompleted s)
               else (case cv_trig v (en_schedule e) (dur 0 0) of
                       TriggerPanic \<Rightarrow> None
                     | NoTrigger \<Rightarrow> Some ([e], s)
                     | TriggerAt t \<Rightarrow>
                         Some ([e], s\<lparr>crons := AList.update cid (e\<lparr>en_next_trigger := t\<rparr>) (crons s)\<rparr>))))"

fun fire_all :: "cron_env \<Rightarrow> cron_id list \<Rightarrow> cron_state \<Rightarrow> (cron_entry list \<times> cron_state) option" where
  "fire_all v [] s = Some ([], s)"
| "fire_all v (cid # cids) s =
     (case fire_cron v cid s of
        None \<Rightarrow> None
      | Some (es, s1) \<Rightarrow> map_option (\<lambda>(es', s2). (es @ es', s2)) (fire_all v cids s1))"

definition fire_due_crons :: "cron_env \<Rightarrow> instant \<Rightarrow> cron_state \<Rightarrow> (cron_entry list \<times> cron_state) option" where
  "fire_due_crons v now s = fire_all v (due_crons now s) s"

section \<open>Restoration\<close>

datatype chain_text_error = ChainTextMessage string | ChainTextUnexpected resolved_command | ChainTextPanic

definition parse_chain_text :: "string \<Rightarrow> (chain_text_error, chain_node) result" where
  "parse_chain_text text =
     (case parse_command_line ('':run '' @ text) JobMode of
        Inl (ParseErr e) \<Rightarrow> Inl (ChainTextMessage (pe_message e))
      | Inl ParsePanic \<Rightarrow> Inl ChainTextPanic
      | Inr (RRun chain _) \<Rightarrow> Inr chain
      | Inr other \<Rightarrow> Inl (ChainTextUnexpected other))"

datatype restore_error =
    RestoreLoad storage_error
  | RestoreMissingSession string string
  | RestoreBadId string
  | RestoreNoScope string
  | RestoreBadSchedule string string
  | RestoreBadCommand string chain_text_error
  | RestorePersist string
  | RestoreUnreachable string string
  | RestorePanic

definition elapsed_reaches :: "duration \<Rightarrow> duration \<Rightarrow> bool" where
  "elapsed_reaches elapsed d \<longleftrightarrow> as_nanos d \<le> as_nanos elapsed"

definition expires_on_restore :: "cron_schedule \<Rightarrow> cron_status \<Rightarrow> duration \<Rightarrow> bool" where
  "expires_on_restore schedule st elapsed \<longleftrightarrow>
     cron_is_runnable st \<and> (case schedule of Delay d \<Rightarrow> elapsed_reaches elapsed d | _ \<Rightarrow> False)"

text \<open>One loaded record: the identifier, the entry if one is kept, and the table after it.\<close>

definition restore_cron ::
    "cron_env \<Rightarrow> (string \<Rightarrow> bool) \<Rightarrow> instant \<Rightarrow> loaded_cron \<Rightarrow> cron_rows \<Rightarrow>
     (restore_error, u32 \<times> cron_entry option \<times> cron_rows) result" where
  "restore_cron v has_session instant_now loaded rows =
     (let c = lc_record loaded; elapsed = lc_elapsed loaded
      in if (case st_session_id c of Some i \<Rightarrow> \<not> has_session i | None \<Rightarrow> False)
         then Inl (RestoreMissingSession (st_id c) (the (st_session_id c)))
         else case parse_cron_id (st_id c) of
           Inl _ \<Rightarrow> Inl (RestoreBadId (st_id c))
         | Inr (CronId n) \<Rightarrow>
             (case st_scope_hash c of
                None \<Rightarrow> if st_status c = Paused then Inr (n, None, rows) else Inl (RestoreNoScope (st_id c))
              | Some scope \<Rightarrow>
                  (case parse_schedule_text (st_schedule c) of
                     None \<Rightarrow> Inl (RestoreBadSchedule (st_id c) (st_schedule c))
                   | Some schedule \<Rightarrow>
                       (case parse_chain_text (st_command c) of
                          Inl ChainTextPanic \<Rightarrow> Inl RestorePanic
                        | Inl e \<Rightarrow> Inl (RestoreBadCommand (st_id c) e)
                        | Inr chain \<Rightarrow>
                            let expired = expires_on_restore schedule (st_status c) elapsed;
                                st = (if expired then Expired else st_status c);
                                saved = (if expired
                                         then upsert_cron (cv_sql v) (cv_now_ms v) (cv_db v) (c\<lparr>st_status := Expired\<rparr>) rows
                                         else (Inr (), rows));
                                entry = (\<lambda>t. \<lparr>en_cron_id = CronId n, en_schedule = schedule, en_chain = chain,
                                           en_scope_hash = scope, en_status = st, en_next_trigger = t,
                                           en_cwd_override = st_cwd_override c, en_scope_enabled = st_scope_enabled c,
                                           en_wrapper_enabled = st_wrapper_enabled c, en_session_id = st_session_id c\<rparr>)
                            in case saved of
                                 (Inl _, _) \<Rightarrow> Inl (RestorePersist (st_id c))
                               | (Inr _, rows1) \<Rightarrow>
                                   if cron_is_terminal st then Inr (n, Some (entry instant_now), rows1)
                                   else (case cv_trig v schedule elapsed of
                                           TriggerPanic \<Rightarrow> Inl RestorePanic
                                         | NoTrigger \<Rightarrow> Inl (RestoreUnreachable (st_id c) (st_schedule c))
                                         | TriggerAt t \<Rightarrow> Inr (n, Some (entry t), rows1))))))"

fun restore_loop ::
    "cron_env \<Rightarrow> (string \<Rightarrow> bool) \<Rightarrow> instant \<Rightarrow> loaded_cron list \<Rightarrow> u32 \<Rightarrow> cron_state \<Rightarrow>
     (restore_error, u32 \<times> cron_state) result" where
  "restore_loop v has_session instant_now [] m s = Inr (m, s)"
| "restore_loop v has_session instant_now (l # ls) m s =
     and_then (restore_cron v has_session instant_now l (cron_rows_t s)) (\<lambda>(n, entry, rows).
       restore_loop v has_session instant_now ls (max m n)
         (s\<lparr>cron_rows_t := rows,
            crons := (case entry of None \<Rightarrow> crons s | Some e \<Rightarrow> AList.update (CronId n) e (crons s))\<rparr>))"

definition restore_crons ::
    "cron_env \<Rightarrow> (string \<Rightarrow> bool) \<Rightarrow> instant \<Rightarrow> cron_state \<Rightarrow> (restore_error, cron_state) result" where
  "restore_crons v has_session instant_now s =
     (case load_crons (cv_sql v) (cv_now_ms v) (cron_rows_t s) of
        Inl e \<Rightarrow> Inl (RestoreLoad e)
      | Inr loaded \<Rightarrow>
          and_then (restore_loop v has_session instant_now loaded 0 s) (\<lambda>(m, s1).
            Inr (if 0 < m then s1\<lparr>next_cron := m + 1\<rparr> else s1)))"

section \<open>The table under every operation\<close>

definition given_out :: "cron_state \<Rightarrow> cron_id \<Rightarrow> bool" where
  "given_out s cid = (case cid of CronId n \<Rightarrow> n < next_cron s)"

definition cron_inv :: "cron_state \<Rightarrow> bool" where
  "cron_inv s \<longleftrightarrow>
     distinct (map fst (crons s))
     \<and> (\<forall>cid e. map_of (crons s) cid = Some e \<longrightarrow>
          en_cron_id e = cid \<and> given_out s cid)"

text \<open>An identifier that cannot fire any more: it was given out, and its entry is gone or terminal.\<close>

definition retired :: "cron_state \<Rightarrow> cron_id \<Rightarrow> bool" where
  "retired s cid \<longleftrightarrow>
     given_out s cid
     \<and> (case map_of (crons s) cid of None \<Rightarrow> True | Some e \<Rightarrow> cron_is_terminal (en_status e))"

text \<open>What an operation may do to the entry of an identifier: change its status and its next trigger.\<close>

definition same_cron :: "cron_entry \<Rightarrow> cron_entry \<Rightarrow> bool" where
  "same_cron e e' \<longleftrightarrow> (\<exists>st t. e' = e\<lparr>en_status := st, en_next_trigger := t\<rparr>)"

lemma same_cron_facts:
  "same_cron e e' \<Longrightarrow> en_cron_id e' = en_cron_id e" "same_cron e e"
  "same_cron e (e\<lparr>en_status := st\<rparr>)" "same_cron e (e\<lparr>en_next_trigger := t\<rparr>)"
  by (auto simp: same_cron_def intro: exI [of _ "en_status e"] exI [of _ "en_next_trigger e"])
     (metis cron_entry.surjective cron_entry.update_convs(5) cron_entry.update_convs(6))+

lemma set_status_table:
  "crons (set_cron_status v cid st s) =
     (case map_of (crons s) cid of None \<Rightarrow> crons s | Some e \<Rightarrow> AList.update cid (e\<lparr>en_status := st\<rparr>) (crons s))"
  "next_cron (set_cron_status v cid st s) = next_cron s"
  by (auto simp: set_cron_status_def Let_def split: option.splits)

lemma update_cron_table:
  assumes "update_cron v cid e s = (r, s')"
  shows "next_cron s' = next_cron s \<and> (crons s' = crons s \<or> crons s' = AList.update cid e (crons s))"
  using assms by (auto simp: update_cron_def split: prod.splits sum.splits)

text \<open>Every operation on an existing entry keeps the other entries and what identifies this one.\<close>

definition touches :: "cron_id \<Rightarrow> cron_state \<Rightarrow> cron_state \<Rightarrow> bool" where
  "touches cid s s' \<longleftrightarrow>
     next_cron s' = next_cron s
     \<and> (crons s' = crons s \<or> crons s' = AList.delete cid (crons s)
        \<or> (\<exists>e e'. map_of (crons s) cid = Some e \<and> same_cron e e' \<and> crons s' = AList.update cid e' (crons s)
             \<and> (cron_is_terminal (en_status e) \<longrightarrow> cron_is_terminal (en_status e'))))"

lemma touches_refl: "touches cid s s"
  by (simp add: touches_def)

lemma touches_update:
  assumes "update_cron v cid e' s = (r, s')" "map_of (crons s) cid = Some e" "same_cron e e'" "\<not> cron_is_terminal (en_status e)"
  shows "touches cid s s'"
  using update_cron_table [OF assms(1)] assms(2-4) by (auto simp: touches_def)

lemma pause_touches: "pause_cron v cid s = (r, s') \<Longrightarrow> touches cid s s'"
  by (auto simp: pause_cron_def touches_refl same_cron_facts intro: touches_update split: option.splits if_splits)

lemma resume_touches: "resume_cron v cid s = (r, s') \<Longrightarrow> touches cid s s'"
proof -
  assume r: "resume_cron v cid s = (r, s')"
  have "same_cron e (e\<lparr>en_status := Scheduled, en_next_trigger := t\<rparr>)" for e t by (auto simp: same_cron_def)
  then show ?thesis using r
    by (auto simp: resume_cron_def Let_def touches_refl same_cron_facts intro: touches_update
        split: option.splits if_splits trigger.splits)
qed

lemma remove_touches: "remove_cron v cid s = (r, s') \<Longrightarrow> touches cid s s'"
  by (auto simp: remove_cron_def remove_cron_entry_def delete_cron_def touches_def split: if_splits)

lemma fire_touches:
  assumes "fire_cron v cid s = Some (es, s')"
  shows "touches cid s s'"
    and "es = [] \<or> (\<exists>e. es = [e] \<and> map_of (crons s) cid = Some e
          \<and> (is_oneshot (en_schedule e) \<longrightarrow> crons s' = AList.update cid (e\<lparr>en_status := CronCompleted\<rparr>) (crons s)))"
  using assms
  by (auto simp: fire_cron_def mark_cron_failed_def touches_def set_status_table cron_is_terminal_def
      intro: same_cron_facts split: option.splits sum.splits if_splits trigger.splits)

lemma touches_given_out: "touches cid s s' \<Longrightarrow> given_out s' c = given_out s c"
  by (cases c) (simp add: touches_def given_out_def)

lemma touches_inv: "touches cid s s' \<Longrightarrow> cron_inv s \<Longrightarrow> cron_inv s'"
  using same_cron_facts(1) touches_given_out [of cid s s']
  by (auto simp: touches_def cron_inv_def distinct_update distinct_delete update_conv' delete_conv' split: if_splits)

lemma touches_other: "touches cid s s' \<Longrightarrow> c \<noteq> cid \<Longrightarrow> map_of (crons s') c = map_of (crons s) c"
  by (auto simp: touches_def update_conv' delete_conv')

lemma touches_retired: "touches cid s s' \<Longrightarrow> retired s c \<Longrightarrow> retired s' c"
  using touches_given_out [of cid s s']
  by (auto simp: touches_def retired_def update_conv' delete_conv' split: option.splits if_splits)

lemma fire_all_facts:
  assumes "fire_all v cids s = Some (es, s')" "distinct cids" "cron_inv s"
  shows "cron_inv s' \<and> (\<forall>c. retired s c \<longrightarrow> retired s' c)
    \<and> (\<forall>e\<in>set es. en_cron_id e \<in> set cids \<and> map_of (crons s) (en_cron_id e) = Some e
         \<and> (is_oneshot (en_schedule e) \<longrightarrow> retired s' (en_cron_id e)))
    \<and> distinct (map en_cron_id es)"
  using assms
proof (induction cids arbitrary: s es)
  case (Cons cid cids)
  obtain es1 s1 es2 where f: "fire_cron v cid s = Some (es1, s1)" "fire_all v cids s1 = Some (es2, s')" "es = es1 @ es2"
    using Cons(2) by (auto split: option.splits)
  note t = fire_touches [OF f(1)]
  have i1: "cron_inv s1" by (rule touches_inv [OF t(1) Cons(4)])
  note ih = Cons(1) [OF f(2) _ i1]
  have d: "distinct cids" "cid \<notin> set cids" using Cons(3) by auto
  have old: "map_of (crons s) (en_cron_id e) = Some e" if "e \<in> set es2" for e
  proof -
    have "en_cron_id e \<noteq> cid" using ih d that by auto
    from touches_other [OF t(1) this] show ?thesis using ih d that by auto
  qed
  have fired: "en_cron_id e = cid \<and> map_of (crons s) cid = Some e \<and> (is_oneshot (en_schedule e) \<longrightarrow> retired s1 cid)" if "e \<in> set es1" for e
  proof -
    have e: "es1 = [e]" "map_of (crons s) cid = Some e"
      "is_oneshot (en_schedule e) \<longrightarrow> crons s1 = AList.update cid (e\<lparr>en_status := CronCompleted\<rparr>) (crons s)"
      using t(2) that by auto
    have "given_out s cid" using e(2) Cons(4) unfolding cron_inv_def by blast
    then have "given_out s1 cid" using touches_given_out [OF t(1)] by simp
    then show ?thesis using e Cons(4) by (auto simp: retired_def update_conv' cron_is_terminal_def cron_inv_def)
  qed
  have "length es1 \<le> 1" using t(2) by auto
  then have "distinct (map en_cron_id es1)" by (cases es1) auto
  moreover have "en_cron_id ` set es1 \<inter> en_cron_id ` set es2 = {}" using fired ih d by fastforce
  ultimately show ?case
    using ih d fired old touches_retired [OF t(1)] f(3) by (auto simp: image_iff)
qed auto

text \<open>One operation of the scheduler on its cron table, with the entries whose chains it spawns.\<close>

inductive cron_step :: "cron_state \<Rightarrow> cron_entry list \<Rightarrow> cron_state \<Rightarrow> bool" where
  add: "add_cron v schedule chain scope opts session s = (r, s') \<Longrightarrow> unat (next_cron s) + 1 < 2 ^ 32 \<Longrightarrow> cron_step s [] s'"
| pause: "pause_cron v cid s = (r, s') \<Longrightarrow> cron_step s [] s'"
| resume: "resume_cron v cid s = (r, s') \<Longrightarrow> cron_step s [] s'"
| remove: "remove_cron v cid s = (r, s') \<Longrightarrow> cron_step s [] s'"
| fire: "fire_due_crons v now s = Some (es, s') \<Longrightarrow> cron_step s es s'"

inductive cron_run :: "cron_state \<Rightarrow> cron_entry list \<Rightarrow> cron_state \<Rightarrow> bool" where
  cron_run_Nil: "cron_run s [] s"
| cron_run_snoc: "cron_run s es s1 \<Longrightarrow> cron_step s1 es' s2 \<Longrightarrow> cron_run s (es @ es') s2"

inductive_cases cron_stepE: "cron_step s es s'"

lemma next_cron_less: "unat (n :: u32) + 1 < 2 ^ 32 \<Longrightarrow> n < n + 1"
  by (simp add: word_less_nat_alt unat_word_ariths)

lemma add_cron_table:
  assumes "add_cron v schedule chain scope opts session s = (r, s')"
  shows "(next_cron s' = next_cron s \<and> crons s' = crons s)
    \<or> next_cron s' = next_cron s + 1 \<and> (crons s' = crons s
        \<or> (\<exists>t se we. crons s' = AList.update (CronId (next_cron s))
               (new_cron_entry (CronId (next_cron s)) schedule chain scope t se we session) (crons s)))"
  using assms
  by (auto simp: add_cron_def alloc_cron_def Let_def split: sum.splits trigger.splits prod.splits) blast+

lemma add_cron_facts:
  assumes "add_cron v schedule chain scope opts session s = (r, s')" "unat (next_cron s) + 1 < 2 ^ 32" "cron_inv s"
  shows "cron_inv s' \<and> (\<forall>c. retired s c \<longrightarrow> retired s' c)"
proof -
  have n: "given_out s c \<Longrightarrow> given_out s' c" for c
    using next_cron_less [OF assms(2)] add_cron_table [OF assms(1)] by (cases c) (auto simp: given_out_def)
  have new: "given_out s' (CronId (next_cron s))" "\<not> given_out s (CronId (next_cron s))" if "next_cron s' = next_cron s + 1"
    using next_cron_less [OF assms(2)] that by (auto simp: given_out_def)
  show ?thesis
    using add_cron_table [OF assms(1)] assms(3) n new
    by (auto simp: cron_inv_def retired_def distinct_update update_conv' new_cron_entry_def split: option.splits if_splits)
qed

lemma due_distinct: "cron_inv s \<Longrightarrow> distinct (due_crons now s)"
  by (auto simp: cron_inv_def due_crons_def distinct_map inj_on_def intro: distinct_filter)

lemma due_scheduled:
  assumes "cron_inv s" "cid \<in> set (due_crons now s)" "map_of (crons s) cid = Some e"
  shows "en_status e = Scheduled \<and> instant_le (en_next_trigger e) now"
proof -
  obtain e' where "(cid, e') \<in> set (crons s)" "cron_is_runnable (en_status e')" "instant_le (en_next_trigger e') now"
    using assms(2) by (auto simp: due_crons_def)
  moreover have "e' = e" using calculation(1) assms(1,3) by (simp add: cron_inv_def)
  ultimately show ?thesis by (auto simp: cron_is_runnable_def split: cron_status.splits)
qed

lemma cron_step_facts:
  assumes "cron_step s es s'" "cron_inv s"
  shows "cron_inv s' \<and> (\<forall>c. retired s c \<longrightarrow> retired s' c) \<and> distinct (map en_cron_id es)
    \<and> (\<forall>e\<in>set es. en_status e = Scheduled \<and> map_of (crons s) (en_cron_id e) = Some e
         \<and> (is_oneshot (en_schedule e) \<longrightarrow> retired s' (en_cron_id e)))"
  using assms
proof (cases rule: cron_step.cases)
  case (fire v now)
  then show ?thesis
    using fire_all_facts [of v "due_crons now s" s es s'] due_distinct [OF assms(2)] due_scheduled [OF assms(2)] assms(2)
    by (auto simp: fire_due_crons_def)
next
  case (add v schedule chain scope opts session r)
  then show ?thesis using add_cron_facts [OF add(2,3) assms(2)] by simp
next
  case (pause v cid r)
  note t = pause_touches [OF pause(2)]
  show ?thesis using pause(1) touches_inv [OF t assms(2)] touches_retired [OF t] by simp
next
  case (resume v cid r)
  note t = resume_touches [OF resume(2)]
  show ?thesis using resume(1) touches_inv [OF t assms(2)] touches_retired [OF t] by simp
next
  case (remove v cid r)
  note t = remove_touches [OF remove(2)]
  show ?thesis using remove(1) touches_inv [OF t assms(2)] touches_retired [OF t] by simp
qed

lemma cron_run_facts:
  assumes "cron_run s0 es s" "cron_inv s0"
  shows "cron_inv s \<and> (\<forall>e\<in>set es. en_status e = Scheduled \<and> (is_oneshot (en_schedule e) \<longrightarrow> retired s (en_cron_id e)))
    \<and> (\<forall>cid. length (filter (\<lambda>e. en_cron_id e = cid \<and> is_oneshot (en_schedule e)) es) \<le> 1)"
  using assms
proof (induction rule: cron_run.induct)
  case (cron_run_snoc s es s1 es' s2)
  note ih = cron_run_snoc.IH [OF cron_run_snoc.prems]
  note st = cron_step_facts [OF cron_run_snoc.hyps(2) conjunct1 [OF ih]]
  have one: "length (filter (\<lambda>e. en_cron_id e = cid \<and> is_oneshot (en_schedule e)) (es @ es')) \<le> 1" for cid
  proof (cases "\<exists>e\<in>set es. en_cron_id e = cid \<and> is_oneshot (en_schedule e)")
    case True
    then have "retired s1 cid" using ih by auto
    then have "\<forall>e\<in>set es'. en_cron_id e \<noteq> cid" using st by (auto simp: retired_def cron_is_terminal_def)
    then have "filter (\<lambda>e. en_cron_id e = cid \<and> is_oneshot (en_schedule e)) es' = []" by (auto simp: filter_empty_conv)
    then show ?thesis using ih by simp
  next
    case False
    then have "filter (\<lambda>e. en_cron_id e = cid \<and> is_oneshot (en_schedule e)) es = []" by (auto simp: filter_empty_conv)
    moreover have "length (filter (\<lambda>e. en_cron_id e = cid \<and> P e) es') \<le> 1" for P
      using conjunct1 [OF conjunct2 [OF conjunct2 [OF st]]] by (induction es') (auto simp: filter_empty_conv image_iff)
    ultimately show ?thesis by simp
  qed
  show ?case using ih st one by auto
qed simp

section \<open>Properties\<close>

text \<open>
  C34. Crons fire as scheduled: over every sequence of registrations, pauses, resumptions, removals and
  firings, whatever the clock, the guardrails, the spawned chains and the store answer, only entries whose
  status is \<open>Scheduled\<close> spawn their chain, and a one-shot entry spawns it at most once, even when its
  completion could not be persisted.
\<close>

theorem crons_fire_as_scheduled:
  assumes "cron_run s0 es s" "cron_inv s0"
  shows "list_all (\<lambda>e. en_status e = Scheduled) es
    \<and> length (filter (\<lambda>e. en_cron_id e = cid \<and> is_oneshot (en_schedule e)) es) \<le> 1"
  using cron_run_facts [OF assms] by (auto simp: list_all_iff)

definition example_env :: cron_env where
  "example_env =
     \<lparr>cv_sql = True, cv_now_ms = 0, cv_db = empty_db,
      cv_trig = next_trigger_instant flat_calendar 0 0 \<lparr>in_secs = 0, in_nanos = 0\<rparr>,
      cv_guard = (\<lambda>_. Inr []), cv_spawn = (\<lambda>_. True)\<rparr>"

definition example_entry :: cron_entry where
  "example_entry =
     new_cron_entry (CronId 1) (Delay (from_secs 5)) (Leaf (PipelinePlan (simple_pipeline [''true'']))) (ScopeHash [])
       \<lparr>in_secs = 5, in_nanos = 0\<rparr> False False None"

definition example_state :: cron_state where
  "example_state = \<lparr>next_cron = 2, crons = [(CronId 1, example_entry)], cron_rows_t = []\<rparr>"

lemma example_inv: "cron_inv example_state"
  by (auto simp: cron_inv_def example_state_def example_entry_def new_cron_entry_def given_out_def)

theorem crons_fire_as_scheduled_witness:
  "\<exists>s. cron_run example_state [example_entry] s
     \<and> length (filter (\<lambda>e. en_cron_id e = CronId 1 \<and> is_oneshot (en_schedule e)) [example_entry]) \<le> 1"
proof -
  let ?now = "\<lparr>in_secs = 5, in_nanos = 0\<rparr>"
  have d: "due_crons ?now example_state = [CronId 1]"
    by (simp add: due_crons_def example_state_def example_entry_def new_cron_entry_def cron_is_runnable_def instant_le_def)
  have m: "map_of (crons example_state) (CronId 1) = Some example_entry" by (simp add: example_state_def)
  have g: "cv_guard example_env x = Inr []" "cv_spawn example_env y" for x y by (simp_all add: example_env_def)
  have o: "is_oneshot (en_schedule example_entry)" by (simp add: example_entry_def new_cron_entry_def is_oneshot_def)
  obtain s where "fire_due_crons example_env ?now example_state = Some ([example_entry], s)"
    by (simp add: fire_due_crons_def d fire_cron_def m g o)
  then have "cron_run example_state ([] @ [example_entry]) s" by (rule cron_run_snoc [OF cron_run_Nil fire])
  then show ?thesis using crons_fire_as_scheduled [OF _ example_inv, of "[example_entry]" s "CronId 1"] by auto
qed

text \<open>
  A preset whose next local midnight does not exist fires in a loop: on a day on which a daylight
  saving change skips midnight, firing a \<open>daily\<close> entry leaves the table as it was, so the entry is due
  again at once and spawns its chain at every iteration of the scheduler.
\<close>

theorem skipped_midnight_fires_again:
  assumes "crons s = [(cid, e)]" "en_schedule e = Preset Daily" "en_status e = Scheduled" "instant_le (en_next_trigger e) now"
    and "cv_guard v (en_chain e) = Inr ws" "cv_spawn v e" "cv_trig v = next_trigger_instant c lnow lnow' inow"
    and "local_midnight c (date_add_days c (date_naive c lnow) 1) = None"
  shows "fire_due_crons v now s = Some ([e], s)"
proof -
  have "cv_trig v (en_schedule e) (dur 0 0) = NoTrigger"
    using assms(2,7,8) by (simp add: next_trigger_instant_def next_preset_occurrence_def occurrence_trigger_def)
  moreover have "due_crons now s = [cid]" using assms(1,3,4) by (simp add: due_crons_def cron_is_runnable_def)
  ultimately show ?thesis using assms(1,2,5,6) by (simp add: fire_due_crons_def fire_cron_def is_oneshot_def)
qed

theorem skipped_midnight_fires_again_witness:
  "\<exists>v s e. crons s = [(CronId 1, e)] \<and> fire_due_crons v \<lparr>in_secs = 9, in_nanos = 0\<rparr> s = Some ([e], s)"
proof -
  define c where "c = flat_calendar\<lparr>with_ymd_and_hms := \<lambda>_ _ _ _ _ _. LocalNone\<rparr>"
  define v where "v = example_env\<lparr>cv_trig := next_trigger_instant c 0 0 \<lparr>in_secs = 0, in_nanos = 0\<rparr>\<rparr>"
  define e where "e = example_entry\<lparr>en_schedule := Preset Daily\<rparr>"
  have "fire_due_crons v \<lparr>in_secs = 9, in_nanos = 0\<rparr> (example_state\<lparr>crons := [(CronId 1, e)]\<rparr>)
      = Some ([e], example_state\<lparr>crons := [(CronId 1, e)]\<rparr>)"
    by (rule skipped_midnight_fires_again [where c = c and lnow = 0 and lnow' = 0 and inow = "\<lparr>in_secs = 0, in_nanos = 0\<rparr>" and ws = "[]"])
       (simp_all add: v_def e_def c_def example_env_def example_entry_def new_cron_entry_def instant_le_def local_midnight_def local_datetime_def)
  then show ?thesis by (intro exI [of _ v] exI [of _ "example_state\<lparr>crons := [(CronId 1, e)]\<rparr>"] exI [of _ e]) simp
qed

text \<open>
  A paused one-shot entry keeps the daemon from starting: once the delay of a paused entry has
  elapsed, restoring the stored entries fails, and with it the start of the scheduler.
\<close>

lemma overdue_delay: "as_nanos d \<le> as_nanos e \<Longrightarrow> 0 < as_nanos d \<Longrightarrow> next_trigger_instant c n l i (Delay d) e = NoTrigger"
  by (auto simp: next_trigger_instant_def dur_saturating_sub_def dur_is_zero_def dur_def as_nanos_def Let_def)

theorem paused_delay_blocks_start:
  assumes "cron_rows_t s = [\<lparr>cr_stored = persisted_cron (cv_db v) (stored_cron_from_entry e), cr_created_at_ms = t0\<rparr>]"
    and "en_schedule e = Delay d" "duration_ok d" "en_status e = Paused" "en_scope_hash e \<in> scope_hashes (cv_db v)"
    and "en_session_id e = None" "cv_sql v" "t0 \<le> cv_now_ms v"
    and "as_nanos d \<le> as_nanos (from_millis (nat (cv_now_ms v - t0)))"
    and "cv_trig v = next_trigger_instant c lnow lnow' inow"
  shows "(\<exists>err. restore_crons v has_session i s = Inl err)
    \<and> (\<forall>ch. parse_chain_text (show_chain_node (en_chain e)) = Inr ch \<longrightarrow>
         restore_crons v has_session i s = Inl (RestoreUnreachable (show_cron_id (en_cron_id e)) (cron_display (Delay d))))"
proof -
  obtain n where n: "en_cron_id e = CronId n" by (cases "en_cron_id e")
  let ?c = "stored_cron_from_entry e"
  have p: "persisted_cron (cv_db v) ?c = ?c" using assms(5) by (simp add: persisted_cron_def stored_cron_from_entry_def)
  let ?l = "\<lparr>lc_record = ?c, lc_elapsed = from_millis (nat (cv_now_ms v - t0))\<rparr>"
  have id: "parse_cron_id (st_id ?c) = Inr (CronId n)" using n cron_codec.parse_print [of "CronId n"] by (simp add: stored_cron_from_entry_def)
  have load: "load_crons (cv_sql v) (cv_now_ms v) (cron_rows_t s) = Inr [?l]"
    using assms(1,7,8) id by (simp add: p load_crons_def load_row_def duration_from_nonnegative_millis_def)
  have "0 < as_nanos d" using assms(3) by (auto simp: duration_ok_def dur_is_zero_def as_nanos_def)
  then have trig: "cv_trig v (Delay d) (from_millis (nat (cv_now_ms v - t0))) = NoTrigger"
    using overdue_delay [OF assms(9)] assms(10) by simp
  have sched: "parse_schedule_text (cron_display (Delay d)) = Some (Delay d)"
    by (rule schedule_ok_parse_display) (use assms(3) in \<open>simp add: schedule_ok_def\<close>)
  have fields: "st_session_id ?c = None" "st_scope_hash ?c = Some (en_scope_hash e)" "st_status ?c = Paused"
    "st_schedule ?c = cron_display (Delay d)" "st_command ?c = show_chain_node (en_chain e)" "st_id ?c = show_cron_id (en_cron_id e)"
    using assms(2,4,6) by (simp_all add: stored_cron_from_entry_def)
  have r: "restore_crons v has_session i s =
      (case parse_chain_text (show_chain_node (en_chain e)) of
         Inl ChainTextPanic \<Rightarrow> Inl RestorePanic
       | Inl err \<Rightarrow> Inl (RestoreBadCommand (show_cron_id (en_cron_id e)) err)
       | Inr _ \<Rightarrow> Inl (RestoreUnreachable (show_cron_id (en_cron_id e)) (cron_display (Delay d))))"
    using id unfolding fields(6)
    by (simp add: restore_crons_def load restore_cron_def fields sched trig expires_on_restore_def cron_is_runnable_def
        cron_is_terminal_def Let_def split: sum.split chain_text_error.split)
  show ?thesis unfolding r by (auto split: sum.splits chain_text_error.splits)
qed

theorem paused_delay_blocks_start_witness:
  "\<exists>v has_session i s err. map (\<lambda>r. st_status (cr_stored r)) (cron_rows_t s) = [Paused] \<and> restore_crons v has_session i s = Inl err"
proof -
  define db where "db = empty_db\<lparr>scopes_t := [\<lparr>row_hash = ScopeHash [], row_parent = None, row_delta = None, row_snap = None\<rparr>]\<rparr>"
  define v where "v = example_env\<lparr>cv_db := db, cv_now_ms := 6000\<rparr>"
  define e where "e = example_entry\<lparr>en_status := Paused\<rparr>"
  define s where "s = \<lparr>next_cron = 1, crons = [],
    cron_rows_t = [\<lparr>cr_stored = persisted_cron db (stored_cron_from_entry e), cr_created_at_ms = 0\<rparr>]\<rparr>"
  have h: "ScopeHash [] \<in> scope_hashes db" by (simp add: db_def scope_hashes_def)
  then have st: "st_status (persisted_cron db (stored_cron_from_entry e)) = Paused"
    by (simp add: persisted_cron_def stored_cron_from_entry_def e_def example_entry_def new_cron_entry_def)
  have "\<exists>err. restore_crons v (\<lambda>_. True) \<lparr>in_secs = 0, in_nanos = 0\<rparr> s = Inl err"
    using paused_delay_blocks_start [of s v e 0 "from_secs 5" flat_calendar 0 0 "\<lparr>in_secs = 0, in_nanos = 0\<rparr>"
        "\<lambda>_. True" "\<lparr>in_secs = 0, in_nanos = 0\<rparr>"] h
    by (simp add: s_def v_def e_def example_env_def example_entry_def new_cron_entry_def duration_ok_def dur_is_zero_def
        from_secs_def from_millis_def dur_def as_nanos_def)
  then show ?thesis using st by (intro exI [of _ v] exI [of _ "\<lambda>_. True"] exI [of _ "\<lparr>in_secs = 0, in_nanos = 0\<rparr>"] exI [of _ s]) (simp add: s_def)
qed

text \<open>
  The stored command of a cron is not the command that was registered: the chain is stored in its
  display form, without quotes, and parsed again at the next start, so the argument \<open>make test\<close> of
  \<^verbatim>\<open>sh -c\<close> comes back as two arguments, and a quoted operator comes back as an operator.
\<close>

theorem restored_command_differs:
  "parse_chain_text (show_chain_node (Leaf (PipelinePlan (simple_pipeline [''sh'', ''-c'', ''make test'']))))
     = Inr (Leaf (PipelinePlan (simple_pipeline [''sh'', ''-c'', ''make'', ''test''])))
   \<and> parse_chain_text (show_chain_node (Leaf (PipelinePlan (simple_pipeline [''echo'', ''a -> b'']))))
     = Inr (Serial (Leaf (PipelinePlan (simple_pipeline [''echo'', ''a'']))) Then (Leaf (PipelinePlan (simple_pipeline [''b'']))))"
  by (rule conjI; code_simp)

end
