(* ===== verification/EventBus.thy ===== *)
theory EventBus
  imports Job Interfaces "HOL-Library.AList"
begin

text \<open>
  The event bus (\<^verbatim>\<open>crates/cue-daemon/src/actor/event_bus.rs\<close>, its messages in
  \<^verbatim>\<open>actor/mod.rs\<close>): fan-out of events to subscribed clients.  The bounded \<^verbatim>\<open>mpsc\<close> queues and the
  \<^verbatim>\<open>watch\<close> flags the subscribers hold are shared with the gateway, so they live in a store and a
  subscriber holds their addresses.  Both hash maps are association lists whose order is the
  iteration order.  An event's contents are never looked at and are a type parameter.
\<close>

section \<open>Channels of the runtime\<close>

type_synonym chan_ref = u64

record 'e mpsc =
  capacity :: nat
  queue :: "'e list"
  receiving :: bool

datatype try_send_error = SendFull | SendClosed

text \<open>A non-blocking send on a bounded queue: refused when the receiver is gone or the queue full.\<close>

definition try_send :: "'e \<Rightarrow> 'e mpsc \<Rightarrow> try_send_error option \<times> 'e mpsc" where
  "try_send e q =
     (if \<not> receiving q then (Some SendClosed, q)
      else if capacity q \<le> length (queue q) then (Some SendFull, q)
      else (None, q\<lparr>queue := queue q @ [e]\<rparr>))"

record watch =
  flag :: bool
  watched :: bool

definition watch_send :: "bool \<Rightarrow> watch \<Rightarrow> watch" where
  "watch_send v w = (if watched w then w\<lparr>flag := v\<rparr> else w)"

section \<open>Events and subscriptions\<close>

datatype client_event_audience = AudGlobal | AudSession "string option"

record 'p client_event =
  payload :: 'p
  audience :: client_event_audience

definition client_event_global :: "'p \<Rightarrow> 'p client_event" where
  "client_event_global p = \<lparr>payload = p, audience = AudGlobal\<rparr>"

definition client_event_session :: "'p \<Rightarrow> string option \<Rightarrow> 'p client_event" where
  "client_event_session p sid = \<lparr>payload = p, audience = AudSession sid\<rparr>"

record 'p event_store =
  senders :: "chan_ref \<Rightarrow> 'p client_event mpsc"
  watches :: "chan_ref \<Rightarrow> watch"

record event_subscriber =
  sender :: chan_ref
  disconnect :: chan_ref

record event_subscriptions =
  channels :: "(event_channel \<times> (u64 \<times> event_subscriber) list) list"
  client_sessions :: "(u64 \<times> string option) list"

record publish_stats =
  delivered :: nat
  filtered :: nat
  lagging :: nat
  closed :: nat

definition subscriptions_default :: event_subscriptions where
  "subscriptions_default = \<lparr>channels = [], client_sessions = []\<rparr>"

definition set_client_session :: "u64 \<Rightarrow> string option \<Rightarrow> event_subscriptions \<Rightarrow> event_subscriptions" where
  "set_client_session c named s = s\<lparr>client_sessions := AList.update c named (client_sessions s)\<rparr>"

definition subscribe ::
  "u64 \<Rightarrow> event_channel \<Rightarrow> chan_ref \<Rightarrow> chan_ref \<Rightarrow> event_subscriptions \<Rightarrow> event_subscriptions" where
  "subscribe c ch tx disc s =
     (let clients = (case map_of (channels s) ch of Some cl \<Rightarrow> cl | None \<Rightarrow> [])
      in s\<lparr>channels := AList.update ch (AList.update c \<lparr>sender = tx, disconnect = disc\<rparr> clients) (channels s)\<rparr>)"

definition unsubscribe :: "u64 \<Rightarrow> event_channel \<Rightarrow> event_subscriptions \<Rightarrow> event_subscriptions" where
  "unsubscribe c ch s =
     (case map_of (channels s) ch of
        None \<Rightarrow> s
      | Some clients \<Rightarrow>
          let clients' = AList.delete c clients
          in if clients' = [] then s\<lparr>channels := AList.delete ch (channels s)\<rparr>
             else s\<lparr>channels := AList.update ch clients' (channels s)\<rparr>)"

definition unsubscribe_all :: "u64 \<Rightarrow> event_subscriptions \<Rightarrow> event_subscriptions" where
  "unsubscribe_all c s =
     s\<lparr>channels := filter (\<lambda>(ch, cl). cl \<noteq> []) (map (\<lambda>(ch, cl). (ch, AList.delete c cl)) (channels s)),
       client_sessions := AList.delete c (client_sessions s)\<rparr>"

section \<open>Publishing\<close>

definition session_allowed :: "(u64 \<times> string option) list \<Rightarrow> string option option \<Rightarrow> u64 \<Rightarrow> bool" where
  "session_allowed sessions sid c =
     (case sid of
        None \<Rightarrow> True
      | Some owner \<Rightarrow>
          (case map_of sessions c of
             None \<Rightarrow> False
           | Some None \<Rightarrow> True
           | Some (Some attached) \<Rightarrow> owner = Some attached))"

definition event_for :: "'p \<Rightarrow> string option option \<Rightarrow> 'p client_event" where
  "event_for p sid = (case sid of Some owner \<Rightarrow> client_event_session p owner | None \<Rightarrow> client_event_global p)"

definition note_failure :: "try_send_error \<Rightarrow> publish_stats \<Rightarrow> publish_stats" where
  "note_failure e st =
     (case e of SendFull \<Rightarrow> st\<lparr>lagging := lagging st + 1\<rparr> | SendClosed \<Rightarrow> st\<lparr>closed := closed st + 1\<rparr>)"

primrec publish_loop ::
  "(u64 \<times> string option) list \<Rightarrow> 'p \<Rightarrow> string option option \<Rightarrow> (u64 \<times> event_subscriber) list
    \<Rightarrow> publish_stats \<times> u64 list \<times> 'p event_store \<Rightarrow> publish_stats \<times> u64 list \<times> 'p event_store" where
  "publish_loop sessions p sid [] acc = acc"
| "publish_loop sessions p sid (d # ds) acc =
     (let (c, sub) = d; (st, evicted, w) = acc
      in if \<not> session_allowed sessions sid c
         then publish_loop sessions p sid ds (st\<lparr>filtered := filtered st + 1\<rparr>, evicted, w)
         else
           (case try_send (event_for p sid) (senders w (sender sub)) of
              (r, q) \<Rightarrow>
                (let w1 = w\<lparr>senders := (senders w)(sender sub := q)\<rparr>
                 in case r of
                      None \<Rightarrow> publish_loop sessions p sid ds (st\<lparr>delivered := delivered st + 1\<rparr>, evicted, w1)
                    | Some e \<Rightarrow>
                        publish_loop sessions p sid ds
                          (note_failure e st, evicted @ [c],
                           w1\<lparr>watches := (watches w1)(disconnect sub := watch_send True (watches w1 (disconnect sub)))\<rparr>))))"

definition publish ::
  "event_channel \<Rightarrow> 'p \<Rightarrow> u64 option \<Rightarrow> string option option \<Rightarrow> event_subscriptions \<Rightarrow> 'p event_store
    \<Rightarrow> publish_stats \<times> event_subscriptions \<times> 'p event_store" where
  "publish ch p excluded sid s w =
     (let deliveries = (case map_of (channels s) ch of
                          Some clients \<Rightarrow> filter (\<lambda>(c, sub). Some c \<noteq> excluded) clients
                        | None \<Rightarrow> []);
          (st, evicted, w') =
            publish_loop (client_sessions s) p sid deliveries
              (\<lparr>delivered = 0, filtered = 0, lagging = 0, closed = 0\<rparr>, [], w)
      in (st, foldl (\<lambda>s c. unsubscribe_all c s) s evicted, w'))"

section \<open>The actor\<close>

datatype 'p event_bus_msg =
    SetClientSession u64 "string option"
  | Subscribe u64 event_channel chan_ref chan_ref
  | Unsubscribe u64 event_channel
  | UnsubscribeAll u64
  | Publish 'p event_channel
  | PublishExcept 'p event_channel u64
  | PublishSession 'p event_channel "string option"
  | PublishSessionExcept 'p event_channel "string option" u64
  | BusShutdown

fun event_bus_handle ::
  "'p event_bus_msg \<Rightarrow> event_subscriptions \<Rightarrow> 'p event_store \<Rightarrow> event_subscriptions \<times> 'p event_store" where
  "event_bus_handle (Subscribe c ch tx disc) s w = (subscribe c ch tx disc s, w)"
| "event_bus_handle (SetClientSession c named) s w = (set_client_session c named s, w)"
| "event_bus_handle (Unsubscribe c ch) s w = (unsubscribe c ch s, w)"
| "event_bus_handle (UnsubscribeAll c) s w = (unsubscribe_all c s, w)"
| "event_bus_handle (Publish p ch) s w = snd (publish ch p None None s w)"
| "event_bus_handle (PublishExcept p ch ex) s w = snd (publish ch p (Some ex) None s w)"
| "event_bus_handle (PublishSession p ch sid) s w = snd (publish ch p None (Some sid) s w)"
| "event_bus_handle (PublishSessionExcept p ch sid ex) s w = snd (publish ch p (Some ex) (Some sid) s w)"
| "event_bus_handle BusShutdown s w = (s, w)"

text \<open>The receive loop over the messages the actor gets; a shutdown message ends it.\<close>

fun event_bus_run ::
  "'p event_bus_msg list \<Rightarrow> event_subscriptions \<Rightarrow> 'p event_store \<Rightarrow> event_subscriptions \<times> 'p event_store" where
  "event_bus_run [] s w = (s, w)"
| "event_bus_run (m # ms) s w =
     (if m = BusShutdown then (s, w)
      else (case event_bus_handle m s w of (s', w') \<Rightarrow> event_bus_run ms s' w'))"

section \<open>Subscriptions as a map\<close>

definition subscription :: "event_subscriptions \<Rightarrow> event_channel \<Rightarrow> u64 \<Rightarrow> event_subscriber option" where
  "subscription s ch c = (case map_of (channels s) ch of None \<Rightarrow> None | Some cl \<Rightarrow> map_of cl c)"

definition bound_session :: "event_subscriptions \<Rightarrow> u64 \<Rightarrow> string option option" where
  "bound_session s c = map_of (client_sessions s) c"

definition wf_subs :: "event_subscriptions \<Rightarrow> bool" where
  "wf_subs s \<longleftrightarrow> distinct (map fst (channels s)) \<and>
     list_all (\<lambda>(ch, cl). distinct (map fst cl) \<and> cl \<noteq> []) (channels s) \<and> distinct (map fst (client_sessions s))"

lemma map_of_filter_map:
  assumes "distinct (map fst xs)"
  shows "map_of (filter (\<lambda>(k, v). P v) (map (\<lambda>(k, v). (k, f v)) xs)) k =
    (case map_of xs k of None \<Rightarrow> None | Some v \<Rightarrow> if P (f v) then Some (f v) else None)"
  using assms by (induction xs) (auto simp: map_of_eq_None_iff image_iff split: option.splits)

lemma map_of_delete: "map_of (AList.delete k xs) k' = (if k' = k then None else map_of xs k')"
  by (simp add: AList.delete_conv')

lemma map_of_update: "map_of (AList.update k v xs) k' = (if k' = k then Some v else map_of xs k')"
  by (simp add: AList.update_conv')

lemma wf_clients: "wf_subs s \<Longrightarrow> map_of (channels s) ch = Some cl \<Longrightarrow> distinct (map fst cl) \<and> cl \<noteq> []"
  by (auto simp: wf_subs_def list_all_iff dest!: map_of_SomeD)

lemma subscription_subscribe [simp]:
  "subscription (subscribe c ch tx disc s) ch' c' =
     (if ch' = ch \<and> c' = c then Some \<lparr>sender = tx, disconnect = disc\<rparr> else subscription s ch' c')"
  by (auto simp: subscription_def subscribe_def map_of_update split: option.splits)

lemma subscription_unsubscribe [simp]:
  "subscription (unsubscribe c ch s) ch' c' = (if ch' = ch \<and> c' = c then None else subscription s ch' c')"
proof (cases "map_of (channels s) ch")
  case (Some cl)
  have "AList.delete c cl = [] \<Longrightarrow> map_of cl x = (if x = c then map_of cl c else None)" for x
    using map_of_delete [of c cl x] by auto
  with Some show ?thesis
    by (auto simp: subscription_def unsubscribe_def Let_def map_of_delete map_of_update split: option.splits)
qed (auto simp: subscription_def unsubscribe_def)

lemma subscription_unsubscribe_all [simp]:
  assumes "wf_subs s"
  shows "subscription (unsubscribe_all c s) ch c' = (if c' = c then None else subscription s ch c')"
proof -
  have "AList.delete c cl = [] \<Longrightarrow> map_of cl x = (if x = c then map_of cl c else None)" for x and cl :: "(u64 \<times> event_subscriber) list"
    using map_of_delete [of c cl x] by auto
  then show ?thesis using assms
    by (auto simp: subscription_def unsubscribe_all_def wf_subs_def map_of_filter_map [where P = "\<lambda>cl. cl \<noteq> []"]
        map_of_delete split: option.splits)
qed

lemma subscription_set_client_session [simp]: "subscription (set_client_session c n s) = subscription s"
  by (rule ext)+ (simp add: subscription_def set_client_session_def)

lemma bound_session_simps [simp]:
  "bound_session (subscribe c ch tx disc s) c' = bound_session s c'"
  "bound_session (unsubscribe c ch s) c' = bound_session s c'"
  "bound_session (unsubscribe_all c s) c' = (if c' = c then None else bound_session s c')"
  "bound_session (set_client_session c n s) c' = (if c' = c then Some n else bound_session s c')"
  by (auto simp: bound_session_def subscribe_def unsubscribe_def unsubscribe_all_def set_client_session_def
      map_of_delete map_of_update Let_def split: option.splits)

lemma list_all_snd_update:
  "list_all (\<lambda>(k, v). P v) xs \<Longrightarrow> P v \<Longrightarrow> list_all (\<lambda>(k, v). P v) (AList.update k v xs)"
  by (induction xs) auto

lemma list_all_delete: "list_all P xs \<Longrightarrow> list_all P (AList.delete k xs)"
  by (auto simp: list_all_iff AList.delete_eq)

lemma wf_subs_ops [simp]:
  assumes "wf_subs s"
  shows "wf_subs (subscribe c ch tx disc s)" "wf_subs (unsubscribe c ch s)" "wf_subs (unsubscribe_all c s)"
    "wf_subs (set_client_session c n s)"
proof -
  have cl: "map_of (channels s) ch = Some cl \<Longrightarrow> distinct (map fst cl)" for cl
    using wf_clients [OF assms] by blast
  have ne: "AList.update k v xs \<noteq> []" for k v and xs :: "('a \<times> 'b) list"
    by (cases xs) auto
  show "wf_subs (subscribe c ch tx disc s)" "wf_subs (unsubscribe c ch s)" "wf_subs (set_client_session c n s)"
    using assms cl ne
    by (auto simp: wf_subs_def subscribe_def unsubscribe_def set_client_session_def Let_def AList.distinct_update
        AList.distinct_delete list_all_snd_update list_all_delete split: option.splits)
  have "distinct (map fst (filter P (map (\<lambda>(ch, cl). (ch, AList.delete c cl)) xs)))"
    if "distinct (map fst xs)" for P and xs :: "(event_channel \<times> (u64 \<times> event_subscriber) list) list"
    using that by (induction xs) (auto simp: image_iff)
  then show "wf_subs (unsubscribe_all c s)"
    using assms by (auto simp: wf_subs_def unsubscribe_all_def list_all_iff AList.distinct_delete)
qed

lemma wf_subs_default [simp]: "wf_subs subscriptions_default"
  by (simp add: wf_subs_def subscriptions_default_def)

lemma unsubscribe_many [simp]:
  assumes "wf_subs s"
  shows "wf_subs (foldl (\<lambda>s c. unsubscribe_all c s) s cs)"
    "subscription (foldl (\<lambda>s c. unsubscribe_all c s) s cs) ch c = (if c \<in> set cs then None else subscription s ch c)"
    "bound_session (foldl (\<lambda>s c. unsubscribe_all c s) s cs) c = (if c \<in> set cs then None else bound_session s c)"
  using assms by (induction cs arbitrary: s) auto

section \<open>What publishing does to one subscriber\<close>

datatype verdict = Excluded | Hidden | Accepted | Lagging | Gone

definition send_verdict :: "(u64 \<times> string option) list \<Rightarrow> string option option \<Rightarrow> 'p event_store \<Rightarrow> u64 \<times> event_subscriber \<Rightarrow> verdict" where
  "send_verdict sessions sid w d =
     (let q = senders w (sender (snd d))
      in if \<not> session_allowed sessions sid (fst d) then Hidden
         else if \<not> receiving q then Gone
         else if capacity q \<le> length (queue q) then Lagging
         else Accepted)"

definition verdict_for :: "event_subscriptions \<Rightarrow> 'p event_store \<Rightarrow> u64 option \<Rightarrow> string option option \<Rightarrow> u64 \<Rightarrow> event_subscriber \<Rightarrow> verdict" where
  "verdict_for s w excluded sid c sub =
     (if excluded = Some c then Excluded else send_verdict (client_sessions s) sid w (c, sub))"

definition evicts :: "verdict \<Rightarrow> bool" where
  "evicts v \<longleftrightarrow> v = Lagging \<or> v = Gone"

lemma evicts_simps [simp]: "evicts Lagging" "evicts Gone" "\<not> evicts Accepted" "\<not> evicts Hidden" "\<not> evicts Excluded"
  by (simp_all add: evicts_def)

definition tally :: "verdict \<Rightarrow> verdict list \<Rightarrow> nat" where
  "tally v vs = length (filter ((=) v) vs)"

lemma watch_send_idem [simp]: "watch_send v (watch_send v w) = watch_send v w"
  by (simp add: watch_send_def)

definition push_event :: "chan_ref \<Rightarrow> 'p client_event \<Rightarrow> 'p event_store \<Rightarrow> 'p event_store" where
  "push_event a e w = w\<lparr>senders := (senders w)(a := (senders w a)\<lparr>queue := queue (senders w a) @ [e]\<rparr>)\<rparr>"

definition raise_flag :: "chan_ref \<Rightarrow> 'p event_store \<Rightarrow> 'p event_store" where
  "raise_flag a w = w\<lparr>watches := (watches w)(a := watch_send True (watches w a))\<rparr>"

definition add_stats :: "verdict list \<Rightarrow> publish_stats \<Rightarrow> publish_stats" where
  "add_stats vs st =
     \<lparr>delivered = delivered st + tally Accepted vs, filtered = filtered st + tally Hidden vs,
      lagging = lagging st + tally Lagging vs, closed = closed st + tally Gone vs\<rparr>"

definition published ::
  "(u64 \<times> string option) list \<Rightarrow> 'p \<Rightarrow> string option option \<Rightarrow> (u64 \<times> event_subscriber) list \<Rightarrow> 'p event_store \<Rightarrow> 'p event_store" where
  "published sessions p sid ds w =
     w\<lparr>senders := (\<lambda>a. if \<exists>d\<in>set ds. sender (snd d) = a \<and> send_verdict sessions sid w d = Accepted
                      then (senders w a)\<lparr>queue := queue (senders w a) @ [event_for p sid]\<rparr> else senders w a),
       watches := (\<lambda>a. if \<exists>d\<in>set ds. disconnect (snd d) = a \<and> evicts (send_verdict sessions sid w d)
                      then watch_send True (watches w a) else watches w a)\<rparr>"

lemma store_simps [simp]:
  "senders (push_event a e w) b = (if b = a then (senders w a)\<lparr>queue := queue (senders w a) @ [e]\<rparr> else senders w b)"
  "watches (push_event a e w) = watches w"
  "senders (raise_flag a w) = senders w"
  "watches (raise_flag a w) b = (if b = a then watch_send True (watches w a) else watches w b)"
  by (simp_all add: push_event_def raise_flag_def)

lemma publish_loop_Cons:
  "publish_loop sessions p sid (d # ds) (st, ev, w) =
     (case send_verdict sessions sid w d of
        Accepted \<Rightarrow> publish_loop sessions p sid ds (st\<lparr>delivered := delivered st + 1\<rparr>, ev, push_event (sender (snd d)) (event_for p sid) w)
      | Lagging \<Rightarrow> publish_loop sessions p sid ds (st\<lparr>lagging := lagging st + 1\<rparr>, ev @ [fst d], raise_flag (disconnect (snd d)) w)
      | Gone \<Rightarrow> publish_loop sessions p sid ds (st\<lparr>closed := closed st + 1\<rparr>, ev @ [fst d], raise_flag (disconnect (snd d)) w)
      | _ \<Rightarrow> publish_loop sessions p sid ds (st\<lparr>filtered := filtered st + 1\<rparr>, ev, w))"
  by (cases d) (simp add: Let_def try_send_def send_verdict_def note_failure_def push_event_def raise_flag_def)

lemma send_verdict_frame:
  "sender (snd d) \<noteq> a \<Longrightarrow> send_verdict sessions sid (push_event a e w) d = send_verdict sessions sid w d"
  "send_verdict sessions sid (raise_flag a w) = send_verdict sessions sid w"
  by (simp_all add: send_verdict_def push_event_def raise_flag_def fun_eq_iff)

lemma tally_simps [simp]: "tally v [] = 0" "tally v (x # xs) = (if v = x then Suc (tally v xs) else tally v xs)"
  by (simp_all add: tally_def)

lemma published_Cons:
  assumes "distinct (map (sender \<circ> snd) (d # ds))"
  shows "send_verdict sessions sid w d = Accepted \<Longrightarrow>
      published sessions p sid ds (push_event (sender (snd d)) (event_for p sid) w) = published sessions p sid (d # ds) w"
    and "evicts (send_verdict sessions sid w d) \<Longrightarrow>
      published sessions p sid ds (raise_flag (disconnect (snd d)) w) = published sessions p sid (d # ds) w"
    and "send_verdict sessions sid w d = Hidden \<Longrightarrow> published sessions p sid ds w = published sessions p sid (d # ds) w"
proof -
  have fr: "e \<in> set ds \<Longrightarrow> sender (snd e) \<noteq> sender (snd d)" for e
    using assms by (auto simp: image_iff)
  have vr: "e \<in> set ds \<Longrightarrow> send_verdict sessions sid (push_event (sender (snd d)) ev w) e = send_verdict sessions sid w e" for e ev
    by (rule send_verdict_frame(1) [OF fr])
  show "published sessions p sid ds (push_event (sender (snd d)) (event_for p sid) w) = published sessions p sid (d # ds) w"
    if "send_verdict sessions sid w d = Accepted"
    using that fr by (intro event_store.equality ext) (auto simp: published_def vr)
  show "published sessions p sid ds (raise_flag (disconnect (snd d)) w) = published sessions p sid (d # ds) w"
    if "evicts (send_verdict sessions sid w d)"
    using that by (intro event_store.equality ext) (auto simp: published_def send_verdict_frame)
  show "published sessions p sid ds w = published sessions p sid (d # ds) w"
    if "send_verdict sessions sid w d = Hidden"
    using that by (intro event_store.equality ext) (auto simp: published_def)
qed

lemma publish_loop_exact:
  assumes "distinct (map (sender \<circ> snd) ds)"
  shows "publish_loop sessions p sid ds (st, ev, w) =
    (add_stats (map (send_verdict sessions sid w) ds) st,
     ev @ map fst (filter (\<lambda>d. evicts (send_verdict sessions sid w d)) ds), published sessions p sid ds w)"
  using assms
proof (induction ds arbitrary: st ev w)
  case Nil
  then show ?case by (simp add: add_stats_def published_def)
next
  case (Cons d ds)
  let ?push = "push_event (sender (snd d)) (event_for p sid) w"
  have fr: "map (send_verdict sessions sid ?push) ds = map (send_verdict sessions sid w) ds"
    "filter (\<lambda>d. evicts (send_verdict sessions sid ?push d)) ds = filter (\<lambda>d. evicts (send_verdict sessions sid w d)) ds"
    using Cons.prems by (auto simp: image_iff intro!: send_verdict_frame filter_cong arg_cong [of _ _ evicts])
  have "send_verdict sessions sid w d \<noteq> Excluded"
    by (auto simp: send_verdict_def Let_def)
  with Cons published_Cons [OF Cons.prems, of sessions sid w p] show ?case
    by (cases "send_verdict sessions sid w d")
      (simp_all del: publish_loop.simps(2) add: publish_loop_Cons fr send_verdict_frame add_stats_def)
qed

text \<open>Within one channel every subscriber has a queue and a flag of its own, as the gateway hands them out.\<close>

definition own_queues :: "event_subscriptions \<Rightarrow> bool" where
  "own_queues s \<longleftrightarrow>
     list_all (\<lambda>(ch, cl). distinct (map (sender \<circ> snd) cl) \<and> distinct (map (disconnect \<circ> snd) cl)) (channels s)"

definition deliveries_of :: "event_subscriptions \<Rightarrow> event_channel \<Rightarrow> u64 option \<Rightarrow> (u64 \<times> event_subscriber) list" where
  "deliveries_of s ch excluded =
     (case map_of (channels s) ch of Some clients \<Rightarrow> filter (\<lambda>(c, sub). Some c \<noteq> excluded) clients | None \<Rightarrow> [])"

lemma set_deliveries_of:
  assumes "wf_subs s"
  shows "d \<in> set (deliveries_of s ch excluded) \<longleftrightarrow> subscription s ch (fst d) = Some (snd d) \<and> excluded \<noteq> Some (fst d)"
  using wf_clients [OF assms, of ch]
  by (cases d) (auto simp: deliveries_of_def subscription_def split: option.splits)

lemma distinct_deliveries_of:
  assumes "own_queues s"
  shows "distinct (map (sender \<circ> snd) (deliveries_of s ch excluded))" "distinct (map (disconnect \<circ> snd) (deliveries_of s ch excluded))"
  using assms by (auto simp: deliveries_of_def own_queues_def list_all_iff distinct_map_filter
      split: option.splits dest!: map_of_SomeD)

lemma publish_spec:
  assumes "own_queues s"
  shows "publish ch p excluded sid s w =
    (let ds = deliveries_of s ch excluded; v = send_verdict (client_sessions s) sid w
     in (add_stats (map v ds) \<lparr>delivered = 0, filtered = 0, lagging = 0, closed = 0\<rparr>,
         foldl (\<lambda>s c. unsubscribe_all c s) s (map fst (filter (\<lambda>d. evicts (v d)) ds)),
         published (client_sessions s) p sid ds w))"
  unfolding publish_def deliveries_of_def [symmetric]
  by (simp add: publish_loop_exact [OF distinct_deliveries_of(1) [OF assms]] Let_def)

definition keeps_client :: "event_subscriptions \<Rightarrow> event_subscriptions \<Rightarrow> u64 \<Rightarrow> bool" where
  "keeps_client s s' c \<longleftrightarrow> (\<forall>ch. subscription s' ch c = subscription s ch c) \<and> bound_session s' c = bound_session s c"

definition drops_client :: "event_subscriptions \<Rightarrow> u64 \<Rightarrow> bool" where
  "drops_client s c \<longleftrightarrow> (\<forall>ch. subscription s ch c = None) \<and> bound_session s c = None"

lemma distinct_map_eqD: "distinct (map f xs) \<Longrightarrow> x \<in> set xs \<Longrightarrow> y \<in> set xs \<Longrightarrow> f x = f y \<Longrightarrow> x = y"
  by (auto simp: distinct_map inj_on_def)

lemma own_queuesD:
  assumes "own_queues s" "subscription s ch c = Some sub" "subscription s ch c' = Some sub'"
  shows "sender sub = sender sub' \<or> disconnect sub = disconnect sub' \<Longrightarrow> c = c' \<and> sub = sub'"
proof -
  from assms(2) obtain cl where cl: "map_of (channels s) ch = Some cl" by (auto simp: subscription_def split: option.splits)
  with assms have "(c, sub) \<in> set cl" "(c', sub') \<in> set cl" by (auto simp: subscription_def dest: map_of_SomeD)
  moreover have "distinct (map (sender \<circ> snd) cl)" "distinct (map (disconnect \<circ> snd) cl)"
    using assms(1) cl by (auto simp: own_queues_def list_all_iff dest!: map_of_SomeD)
  moreover assume "sender sub = sender sub' \<or> disconnect sub = disconnect sub'"
  ultimately show ?thesis by (auto dest: distinct_map_eqD)
qed

lemma publish_store:
  assumes "wf_subs s" "own_queues s" "publish ch p excluded sid s w = (st, s', w')" "subscription s ch c = Some sub"
  shows "senders w' (sender sub) =
      (if verdict_for s w excluded sid c sub = Accepted
       then (senders w (sender sub))\<lparr>queue := queue (senders w (sender sub)) @ [event_for p sid]\<rparr> else senders w (sender sub))"
    and "watches w' (disconnect sub) =
      (if evicts (verdict_for s w excluded sid c sub) then watch_send True (watches w (disconnect sub)) else watches w (disconnect sub))"
proof -
  let ?ds = "deliveries_of s ch excluded" and ?v = "send_verdict (client_sessions s) sid w"
  have w': "w' = published (client_sessions s) p sid ?ds w"
    using assms(3) by (simp add: publish_spec [OF assms(2)] Let_def)
  have own: "d \<in> set ?ds \<and> sender (snd d) = sender sub \<longleftrightarrow> d = (c, sub) \<and> excluded \<noteq> Some c"
    "d \<in> set ?ds \<and> disconnect (snd d) = disconnect sub \<longleftrightarrow> d = (c, sub) \<and> excluded \<noteq> Some c" for d
    using own_queuesD [OF assms(2) _ assms(4), of "fst d" "snd d"] assms(4)
    by (auto simp: set_deliveries_of [OF assms(1)] prod_eq_iff)
  have "(\<exists>d\<in>set ?ds. sender (snd d) = sender sub \<and> ?v d = Accepted) \<longleftrightarrow> verdict_for s w excluded sid c sub = Accepted"
    unfolding Bex_def conj_assoc [symmetric] own by (auto simp: verdict_for_def)
  then show "senders w' (sender sub) =
      (if verdict_for s w excluded sid c sub = Accepted
       then (senders w (sender sub))\<lparr>queue := queue (senders w (sender sub)) @ [event_for p sid]\<rparr> else senders w (sender sub))"
    by (simp add: w' published_def)
  have "(\<exists>d\<in>set ?ds. disconnect (snd d) = disconnect sub \<and> evicts (?v d)) \<longleftrightarrow> evicts (verdict_for s w excluded sid c sub)"
    unfolding Bex_def conj_assoc [symmetric] own by (auto simp: verdict_for_def)
  then show "watches w' (disconnect sub) =
      (if evicts (verdict_for s w excluded sid c sub) then watch_send True (watches w (disconnect sub)) else watches w (disconnect sub))"
    by (simp add: w' published_def)
qed

definition evicted_client :: "event_subscriptions \<Rightarrow> 'p event_store \<Rightarrow> event_channel \<Rightarrow> u64 option \<Rightarrow> string option option \<Rightarrow> u64 \<Rightarrow> bool" where
  "evicted_client s w ch excluded sid c \<longleftrightarrow>
     (case subscription s ch c of None \<Rightarrow> False | Some sub \<Rightarrow> evicts (verdict_for s w excluded sid c sub))"

lemma evicted_client_iff:
  assumes "wf_subs s"
  shows "c \<in> set (map fst (filter (\<lambda>d. evicts (send_verdict (client_sessions s) sid w d)) (deliveries_of s ch excluded)))
    \<longleftrightarrow> evicted_client s w ch excluded sid c"
  by (auto simp: set_deliveries_of [OF assms] evicted_client_def verdict_for_def image_iff split: option.splits if_splits)

lemma publish_subscriptions:
  assumes "wf_subs s" "own_queues s" "publish ch p excluded sid s w = (st, s', w')"
  shows "wf_subs s'"
    and "subscription s' ch' c = (if evicted_client s w ch excluded sid c then None else subscription s ch' c)"
    and "bound_session s' c = (if evicted_client s w ch excluded sid c then None else bound_session s c)"
proof -
  have s': "s' = foldl (\<lambda>s c. unsubscribe_all c s) s
      (map fst (filter (\<lambda>d. evicts (send_verdict (client_sessions s) sid w d)) (deliveries_of s ch excluded)))"
    using assms(3) by (simp add: publish_spec [OF assms(2)] Let_def)
  show "wf_subs s'"
    unfolding s' by (rule unsubscribe_many(1) [OF assms(1)])
  show "subscription s' ch' c = (if evicted_client s w ch excluded sid c then None else subscription s ch' c)"
    unfolding s' unsubscribe_many(2) [OF assms(1)] evicted_client_iff [OF assms(1)] ..
  show "bound_session s' c = (if evicted_client s w ch excluded sid c then None else bound_session s c)"
    unfolding s' unsubscribe_many(3) [OF assms(1)] evicted_client_iff [OF assms(1)] ..
qed

lemma publish_frame:
  assumes "wf_subs s" "own_queues s" "publish ch p excluded sid s w = (st, s', w')"
  shows "\<forall>c sub. subscription s ch c = Some sub \<longrightarrow> sender sub \<noteq> a \<Longrightarrow> senders w' a = senders w a"
    and "\<forall>c sub. subscription s ch c = Some sub \<longrightarrow> disconnect sub \<noteq> a \<Longrightarrow> watches w' a = watches w a"
  using assms(3) by (fastforce simp: publish_spec [OF assms(2)] Let_def published_def set_deliveries_of [OF assms(1)])+

definition publish_effect ::
  "event_subscriptions \<Rightarrow> 'p event_store \<Rightarrow> event_channel \<Rightarrow> 'p \<Rightarrow> u64 option \<Rightarrow> string option option
    \<Rightarrow> event_subscriptions \<Rightarrow> 'p event_store \<Rightarrow> u64 \<Rightarrow> bool" where
  "publish_effect s w ch p excluded sid s' w' c =
     (case subscription s ch c of
        None \<Rightarrow> keeps_client s s' c
      | Some sub \<Rightarrow>
          (case verdict_for s w excluded sid c sub of
             Accepted \<Rightarrow>
               senders w' (sender sub) = (senders w (sender sub))\<lparr>queue := queue (senders w (sender sub)) @ [event_for p sid]\<rparr>
               \<and> watches w' (disconnect sub) = watches w (disconnect sub) \<and> keeps_client s s' c
               \<and> (case sid of None \<Rightarrow> True
                  | Some owner \<Rightarrow> bound_session s c = Some None \<or> owner \<noteq> None \<and> bound_session s c = Some owner)
           | v \<Rightarrow>
               senders w' (sender sub) = senders w (sender sub)
               \<and> (if evicts v then watches w' (disconnect sub) = watch_send True (watches w (disconnect sub)) \<and> drops_client s' c
                  else watches w' (disconnect sub) = watches w (disconnect sub) \<and> keeps_client s s' c)))"

text \<open>
  C26. Publishing is exact for every client.  A subscriber of the channel that is neither excluded nor
  hidden from the event's session gets the event appended to its queue, with its subscriptions and
  flag untouched, provided the queue is open and has room; without room or receiver its queue stays as
  it was, its disconnect flag is raised and it loses every subscription and its session binding.
  Excluded and hidden subscribers, the clients that are not subscribed to the channel, and all other
  queues are untouched; an accepted session event goes only to anonymous clients and to clients bound
  to the owning session; and the counters returned are the numbers of subscribers of each kind.
\<close>

theorem publish_exact:
  assumes "wf_subs s" "own_queues s" "publish ch p excluded sid s w = (st, s', w')"
  shows "publish_effect s w ch p excluded sid s' w' c
    \<and> ((\<forall>c sub. subscription s ch c = Some sub \<longrightarrow> sender sub \<noteq> a) \<longrightarrow> senders w' a = senders w a)
    \<and> st = add_stats (map (send_verdict (client_sessions s) sid w) (deliveries_of s ch excluded))
             \<lparr>delivered = 0, filtered = 0, lagging = 0, closed = 0\<rparr>"
proof (intro conjI impI)
  note subs = publish_subscriptions(2,3) [OF assms]
  have keep: "\<not> evicted_client s w ch excluded sid c \<Longrightarrow> keeps_client s s' c"
    and drop: "evicted_client s w ch excluded sid c \<Longrightarrow> drops_client s' c"
    by (simp_all add: keeps_client_def drops_client_def subs)
  have aud: "session_allowed (client_sessions s) (Some owner) c \<Longrightarrow> bound_session s c = Some None \<or> owner \<noteq> None \<and> bound_session s c = Some owner" for owner
    by (auto simp: session_allowed_def bound_session_def split: option.splits)
  have acc: "verdict_for s w excluded sid c sub = Accepted \<Longrightarrow> session_allowed (client_sessions s) sid c" for sub
    by (simp add: verdict_for_def send_verdict_def Let_def split: if_splits)
  show "publish_effect s w ch p excluded sid s' w' c"
  proof (cases "subscription s ch c")
    case (Some sub)
    then show ?thesis
      using keep drop aud acc [of sub] publish_store [OF assms Some]
      by (cases "verdict_for s w excluded sid c sub") (auto simp: publish_effect_def evicted_client_def split: option.splits)
  qed (use keep in \<open>simp add: publish_effect_def evicted_client_def\<close>)
  show "senders w' a = senders w a" if "\<forall>c sub. subscription s ch c = Some sub \<longrightarrow> sender sub \<noteq> a"
    by (rule publish_frame(1) [OF assms that])
  show "st = add_stats (map (send_verdict (client_sessions s) sid w) (deliveries_of s ch excluded))
      \<lparr>delivered = 0, filtered = 0, lagging = 0, closed = 0\<rparr>"
    using assms(3) by (simp add: publish_spec [OF assms(2)] Let_def)
qed

text \<open>Four clients of the job channel: bound to the owner with a full queue, bound with room, anonymous, and foreign.\<close>

definition sample_subs :: event_subscriptions where
  "sample_subs =
     set_client_session 1 (Some ''a'') (set_client_session 2 (Some ''a'') (set_client_session 3 None (set_client_session 4 (Some ''b'')
       (subscribe 1 Jobs 1 1 (subscribe 2 Jobs 2 2 (subscribe 3 Jobs 3 3 (subscribe 4 Jobs 4 4 (subscribe 1 Crons 1 1 subscriptions_default))))))))"

definition sample_store :: "string event_store" where
  "sample_store = \<lparr>senders = (\<lambda>a. \<lparr>capacity = (if a = 1 then 0 else 1), queue = [], receiving = True\<rparr>),
     watches = (\<lambda>_. \<lparr>flag = False, watched = True\<rparr>)\<rparr>"

theorem publish_exact_witness:
  "case publish Jobs ''e'' None (Some (Some ''a'')) sample_subs sample_store of
     (st, s', w') \<Rightarrow>
       publish_effect sample_subs sample_store Jobs ''e'' None (Some (Some ''a'')) s' w' 1
       \<and> map (\<lambda>c. case subscription sample_subs Jobs c of
                    Some sub \<Rightarrow> verdict_for sample_subs sample_store None (Some (Some ''a'')) c sub | None \<Rightarrow> Excluded) [1, 2, 3, 4]
           = [Lagging, Accepted, Accepted, Hidden]
       \<and> st = \<lparr>delivered = 2, filtered = 1, lagging = 1, closed = 0\<rparr>
       \<and> senders w' 5 = senders sample_store 5"
proof -
  have ok: "wf_subs sample_subs" "own_queues sample_subs"
    by code_simp+
  obtain st s' w' where r: "publish Jobs ''e'' None (Some (Some ''a'')) sample_subs sample_store = (st, s', w')"
    using prod_cases3 by blast
  have v: "map (\<lambda>c. case subscription sample_subs Jobs c of
      Some sub \<Rightarrow> verdict_for sample_subs sample_store None (Some (Some ''a'')) c sub | None \<Rightarrow> Excluded) [1, 2, 3, 4]
      = [Lagging, Accepted, Accepted, Hidden]"
    by code_simp
  have d: "add_stats (map (send_verdict (client_sessions sample_subs) (Some (Some ''a'')) sample_store) (deliveries_of sample_subs Jobs None))
      \<lparr>delivered = 0, filtered = 0, lagging = 0, closed = 0\<rparr> = \<lparr>delivered = 2, filtered = 1, lagging = 1, closed = 0\<rparr>"
    by code_simp
  have "list_all (\<lambda>(ch, cl). list_all (\<lambda>(c, sub). sender sub \<noteq> 5) cl) (channels sample_subs)"
    by code_simp
  then have f: "\<forall>c sub. subscription sample_subs Jobs c = Some sub \<longrightarrow> sender sub \<noteq> 5"
    by (auto simp: subscription_def list_all_iff split: option.splits dest!: map_of_SomeD)
  show ?thesis
    using publish_exact [OF ok r, of 1 5] f v d r by simp
qed

end
