(* ===== verification/Editor.thy ===== *)
theory Editor
  imports Resolver
begin

text \<open>
  What the gateway does with a line of input before the scheduler sees it: alias expansion
  (\<^verbatim>\<open>AliasConfig\<close> in \<^verbatim>\<open>crates/cue-daemon/src/config.rs\<close>), the hints it adds to a syntax error, and the
  two editor services, completion and highlighting (\<^verbatim>\<open>actor/gateway.rs\<close>).
\<close>

section \<open>Aliases\<close>

record alias_entry =
  alias_from :: string
  alias_to :: string

text \<open>The configuration table, in key order, sorted stably by the number of words, most first.\<close>

definition alias_words :: "alias_entry \<Rightarrow> string list" where
  "alias_words e = split_whitespace (alias_from e)"

definition alias_config_of :: "(string \<times> string) list \<Rightarrow> alias_entry list" where
  "alias_config_of table =
     sort_key (\<lambda>e. - int (length (alias_words e))) (map (\<lambda>(f, t). \<lparr>alias_from = f, alias_to = t\<rparr>) table)"

fun word_len :: "string \<Rightarrow> nat" where
  "word_len [] = 0"
| "word_len (x # xs) = (if 0 < ws_len (x # xs) then 0 else Suc (word_len xs))"

function token_spans_from :: "nat \<Rightarrow> string \<Rightarrow> (nat \<times> nat) list" where
  "token_spans_from i [] = []"
| "token_spans_from i (x # xs) =
     (if 0 < ws_len (x # xs) then token_spans_from (i + ws_len (x # xs)) (drop (ws_len (x # xs)) (x # xs))
      else (i, i + word_len (x # xs)) # token_spans_from (i + word_len (x # xs)) (drop (word_len (x # xs)) (x # xs)))"
  by pat_completeness auto
termination by (relation "measure (length \<circ> snd)") (auto simp: drop_Cons')

definition token_spans :: "string \<Rightarrow> (nat \<times> nat) list" where
  "token_spans input = token_spans_from 0 input"

text \<open>
  The search for the first matching entry.  An entry without words matches everything and then
  indexes the span before the first one: the task panics, which is the result \<open>None\<close>.
\<close>

fun alias_loop :: "string \<Rightarrow> (nat \<times> nat) list \<Rightarrow> alias_entry list \<Rightarrow> string option" where
  "alias_loop input spans [] = Some input"
| "alias_loop input spans (e # es) =
     (let n = length (alias_words e)
      in if length spans < n then alias_loop input spans es
         else if map (\<lambda>(a, b). slice input a b) (take n spans) = alias_words e
         then (if n = 0 then None
               else let suffix = drop (snd (spans ! (n - 1))) input
                    in Some (if suffix = [] then alias_to e else alias_to e @ suffix))
         else alias_loop input spans es)"

definition alias_apply :: "alias_entry list \<Rightarrow> string \<Rightarrow> string option" where
  "alias_apply es input =
     (if es = [] \<or> starts_with input '':'' then Some input else alias_loop input (token_spans input) es)"

section \<open>Hints on shell syntax\<close>

fun contains_str :: "string \<Rightarrow> string \<Rightarrow> bool" where
  "contains_str [] p \<longleftrightarrow> p = []"
| "contains_str (x # xs) p \<longleftrightarrow> starts_with (x # xs) p \<or> contains_str xs p"

definition bash_syntax_hints :: "string \<Rightarrow> string list" where
  "bash_syntax_hints input =
     (if CHR '';'' \<in> set input
      then [''cue-shell does not use '' @ [squote_char] @ '';'' @ [squote_char] @ '' command separators; use a script submission or cue-shell chain operators such as ''
            @ [squote_char] @ ''->'' @ [squote_char] @ '' or '' @ [squote_char] @ ''~>'' @ [squote_char]]
      else [])
     @ (if contains_str input ''$('' \<or> CHR ''`'' \<in> set input
        then [''command substitution is shell syntax; use an explicit helper command/script instead''] else [])
     @ (if contains_str input ''2>'' \<or> contains_str input ''1>'' \<or> contains_str input '' >'' \<or> contains_str input ''<''
        then [''redirection is shell syntax; use cue-shell pipes '' @ [squote_char] @ ''|>'' @ [squote_char] @ ''/''
              @ [squote_char] @ ''|&>'' @ [squote_char] @ '' or write/read files explicitly''] else [])
     @ (if contains_str input '' | '' \<and> \<not> contains_str input ''|>'' \<and> \<not> contains_str input ''|&>'' \<and> \<not> contains_str input ''|!>''
        then [''bare '' @ [squote_char] @ ''|'' @ [squote_char] @ '' is shell syntax; use cue-shell '' @ [squote_char] @ ''|>'' @ [squote_char]
              @ '' for stdout pipes or '' @ [squote_char] @ ''|&>'' @ [squote_char] @ '' for stdout+stderr pipes''] else [])"

definition syntax_error_message :: "string \<Rightarrow> string \<Rightarrow> string" where
  "syntax_error_message input base =
     (let hints = bash_syntax_hints input
      in if hints = [] then base
         else base @ [newline_char, newline_char] @ ''Possible bash syntax issue:'' @ [newline_char] @ ''- ''
                @ join ([newline_char] @ ''- '') hints)"

definition show_parse_error :: "parse_error \<Rightarrow> string" where
  "show_parse_error e =
     ''parse error at byte Span { start: '' @ show_nat (sp_start (pe_span e)) @ '', end: '' @ show_nat (sp_end (pe_span e))
       @ '' }: '' @ pe_message e"

section \<open>Completion\<close>

datatype completion_kind = CompleteCommand | CompleteParam | CompleteId | CompletePath | CompleteOperator

record completion_item =
  label :: string
  insert_text :: string
  ci_kind :: completion_kind
  ci_detail :: "string option"

primrec floor_boundary :: "string \<Rightarrow> nat \<Rightarrow> nat" where
  "floor_boundary s 0 = 0"
| "floor_boundary s (Suc i) = (if is_char_boundary s (Suc i) then Suc i else floor_boundary s i)"

definition prefix_before_cursor :: "string \<Rightarrow> nat \<Rightarrow> string" where
  "prefix_before_cursor input cursor = take (floor_boundary input (min cursor (length input))) input"

text \<open>The text before and after the last byte that satisfies a predicate on ASCII bytes.\<close>

definition rsplit_once_by :: "(char \<Rightarrow> bool) \<Rightarrow> string \<Rightarrow> (string \<times> string) option" where
  "rsplit_once_by P s =
     (if list_ex P s
      then Some (rev (tl (dropWhile (\<lambda>c. \<not> P c) (rev s))), rev (takeWhile (\<lambda>c. \<not> P c) (rev s)))
      else None)"

definition mode_param_key_prefix :: "string \<Rightarrow> (string \<times> string) option" where
  "mode_param_key_prefix pre =
     (case rsplit_once_by (\<lambda>c. c = CHR ''('') pre of
        None \<Rightarrow> None
      | Some (before, params) \<Rightarrow>
          (case strip_prefix '':'' before of
             None \<Rightarrow> None
           | Some command0 \<Rightarrow>
               let command = (case split_whitespace command0 of w # _ \<Rightarrow> w | [] \<Rightarrow> command0)
               in case command_spec_of command of
                    None \<Rightarrow> None
                  | Some spec \<Rightarrow>
                      if \<not> accepts_mode_params spec then None
                      else if CHR '')'' \<in> set params then None
                      else
                        let current = (case rsplit_once_by (\<lambda>c. c = CHR '','' \<or> c = CHR '' '' \<or> c = tab_char) params of
                                         Some (_, cur) \<Rightarrow> cur | None \<Rightarrow> params)
                        in if CHR ''='' \<in> set current then None else Some (command, current)))"

text \<open>The text after the last white space, or the whole text.\<close>

function after_last_ws :: "string \<Rightarrow> string \<Rightarrow> string" where
  "after_last_ws cur [] = cur"
| "after_last_ws cur (x # xs) =
     (if 0 < ws_len (x # xs) then after_last_ws [] (drop (ws_len (x # xs)) (x # xs)) else after_last_ws (cur @ [x]) xs)"
  by pat_completeness auto
termination by (relation "measure (length \<circ> snd)") (auto simp: drop_Cons')

definition complete_input :: "string \<Rightarrow> nat \<Rightarrow> completion_item list" where
  "complete_input input cursor =
     (let pre = trim_start (prefix_before_cursor input cursor)
      in case mode_param_key_prefix pre of
           Some (command, param_prefix) \<Rightarrow>
             map (\<lambda>p. \<lparr>label = mps_name p, insert_text = mps_name p @ ''='' @ value_hint p, ci_kind = CompleteParam,
                        ci_detail = Some (mps_detail p)\<rparr>)
               (filter (\<lambda>p. starts_with (mps_name p) param_prefix) (mode_param_specs_for_command command))
         | None \<Rightarrow>
             (case strip_prefix '':'' pre of
                Some command_prefix \<Rightarrow>
                  (let word = after_last_ws [] command_prefix
                   in map (\<lambda>spec. \<lparr>label = '':'' @ spec_name spec, insert_text = '':'' @ spec_name spec, ci_kind = CompleteCommand,
                                  ci_detail = Some (spec_detail spec)\<rparr>)
                        (filter (\<lambda>spec. starts_with (spec_name spec) word) (List.map_filter command_spec_of command_names)))
              | None \<Rightarrow> []))"

section \<open>Highlighting\<close>

datatype highlight_kind =
    HlCommandName | HlModeParam | HlOperator | HlIdRef | HlWord | HlCommandPrefix | HlString | HlNumber | HlError

record highlight_span =
  hl_start :: nat
  hl_end :: nat
  hl_kind :: highlight_kind

fun token_highlight :: "token \<Rightarrow> highlight_kind option" where
  "token_highlight (CommandT _) = Some HlCommandName"
| "token_highlight ModeParenOpen = Some HlModeParam"
| "token_highlight ModeParenClose = Some HlModeParam"
| "token_highlight ParamEq = Some HlModeParam"
| "token_highlight (ParamValueT _) = Some HlModeParam"
| "token_highlight Comma = Some HlModeParam"
| "token_highlight SerialThen = Some HlOperator"
| "token_highlight SerialAlways = Some HlOperator"
| "token_highlight ParallelAll = Some HlOperator"
| "token_highlight ParallelRace = Some HlOperator"
| "token_highlight JobAnd = Some HlOperator"
| "token_highlight JobOr = Some HlOperator"
| "token_highlight PipeStdout = Some HlOperator"
| "token_highlight PipeAll = Some HlOperator"
| "token_highlight PipeStderr = Some HlOperator"
| "token_highlight (IdRefT _ _) = Some HlIdRef"
| "token_highlight (WordT _) = Some HlWord"
| "token_highlight Colon = Some HlCommandPrefix"
| "token_highlight GroupOpen = Some HlWord"
| "token_highlight GroupClose = Some HlWord"
| "token_highlight (WhitespaceT _) = None"
| "token_highlight Newline = None"
| "token_highlight Eof = None"

definition highlight_token :: "spanned \<Rightarrow> highlight_span option" where
  "highlight_token s =
     map_option (\<lambda>k. \<lparr>hl_start = sp_start (sp s), hl_end = sp_end (sp s), hl_kind = k\<rparr>) (token_highlight (tok s))"

definition highlight_input :: "string \<Rightarrow> highlight_span list" where
  "highlight_input input =
     (case tokenize input of
        Inr toks \<Rightarrow> List.map_filter highlight_token toks
      | Inl e \<Rightarrow> [\<lparr>hl_start = te_pos e, hl_end = min (usize_saturating_add (te_pos e) 1) (length input), hl_kind = HlError\<rparr>])"

section \<open>Words and their spans\<close>

lemma word_len_le: "word_len s \<le> length s"
  by (induction s) auto

lemma word_len_stop: "drop (word_len s) s = [] \<or> 0 < ws_len (drop (word_len s) s)"
  by (induction s) auto

lemma word_len_ws_free: "k \<le> word_len s \<Longrightarrow> j < k \<Longrightarrow> ws_len (drop j s) = 0"
proof (induction s arbitrary: k j)
  case (Cons x s)
  then show ?case by (cases j) (auto split: if_splits intro: Cons.IH [of "k - 1"])
qed simp

lemma split_acc_word:
  "split_whitespace_acc w s = split_whitespace_acc (w @ take (word_len s) s) (drop (word_len s) s)"
  by (induction s arbitrary: w) auto

lemma split_acc_flush:
  "w \<noteq> [] \<Longrightarrow> t = [] \<or> 0 < ws_len t \<Longrightarrow> split_whitespace_acc w t = w # split_whitespace_acc [] t"
  by (cases t) auto

lemma split_whitespace_word:
  assumes "s \<noteq> []" "ws_len s = 0"
  shows "split_whitespace s = take (word_len s) s # split_whitespace (drop (word_len s) s)"
proof -
  have "take (word_len s) s \<noteq> []" using assms by (cases s) auto
  then show ?thesis
    unfolding split_whitespace_def
    using split_acc_word [of "[]" s] split_acc_flush [OF _ word_len_stop [of s]] by simp
qed

lemma split_whitespace_ws: "0 < ws_len s \<Longrightarrow> split_whitespace s = split_whitespace (drop (ws_len s) s)"
  by (cases s) (auto simp: split_whitespace_def)

lemma token_spans_from_words:
  "map (\<lambda>(a, b). slice (pre @ s) a b) (token_spans_from (length pre) s) = split_whitespace s"
proof (induction "length pre" s arbitrary: pre rule: token_spans_from.induct)
  case (2 x xs)
  let ?s = "x # xs"
  show ?case
  proof (cases "0 < ws_len ?s")
    case True
    then have "map (\<lambda>(a, b). slice (pre @ ?s) a b) (token_spans_from (length pre) ?s)
        = map (\<lambda>(a, b). slice ((pre @ take (ws_len ?s) ?s) @ drop (ws_len ?s) ?s) a b)
            (token_spans_from (length (pre @ take (ws_len ?s) ?s)) (drop (ws_len ?s) ?s))"
      using ws_len_le [of ?s] by simp
    also have "\<dots> = split_whitespace (drop (ws_len ?s) ?s)"
      using True ws_len_le [of ?s] by (intro 2(1)) (auto simp: min_def)
    finally show ?thesis using True split_whitespace_ws by simp
  next
    case False
    let ?w = "take (word_len ?s) ?s"
    have l: "length (pre @ ?w) = length pre + word_len ?s" using word_len_le [of ?s] by (simp add: min_def)
    have "map (\<lambda>(a, b). slice ((pre @ ?w) @ drop (word_len ?s) ?s) a b)
        (token_spans_from (length (pre @ ?w)) (drop (word_len ?s) ?s)) = split_whitespace (drop (word_len ?s) ?s)"
      using False l by (intro 2(2)) auto
    moreover have "slice (pre @ ?s) (length pre) (length pre + word_len ?s) = ?w" by (simp add: slice_def)
    ultimately show ?thesis
      using False split_whitespace_word [of ?s] l by (simp del: word_len.simps)
  qed
qed (simp add: split_whitespace_def)

lemma token_spans_words: "map (\<lambda>(a, b). slice input a b) (token_spans input) = split_whitespace input"
  using token_spans_from_words [of "[]" input] by (simp add: token_spans_def)

lemma ws_len_take: "0 < ws_len s \<Longrightarrow> ws_len s \<le> k \<Longrightarrow> ws_len (take k s) = ws_len s"
  by (cases s rule: ws_len.cases; cases k; cases "k - 1"; cases "k - 2") (auto split: if_splits simp: numeral_2_eq_2 numeral_3_eq_3)

lemma ws_len_take_0: "ws_len s = 0 \<Longrightarrow> ws_len (take k s) = 0"
  using ws_len_append [of "take k s" "drop k s"] by (metis append_take_drop_id gr0I)

lemma word_len_take: "k \<le> word_len s \<Longrightarrow> word_len (take k s) = k"
proof (induction s arbitrary: k)
  case (Cons x s)
  then show ?case
    using ws_len_take_0 [of "x # s" k] by (cases k) (auto split: if_splits)
qed simp

lemma word_len_take_more:
  "0 < ws_len (take b (drop (word_len s) s)) \<Longrightarrow> word_len (take (word_len s + b) s) = word_len s"
proof (induction s)
  case (Cons x s)
  show ?case
  proof (cases "0 < ws_len (x # s)")
    case True
    then have "0 < ws_len (take b (x # s))" using Cons.prems by simp
    then show ?thesis using True by (cases b) auto
  next
    case False
    then have z: "ws_len (take (Suc (word_len s + b)) (x # s)) = 0" by (intro ws_len_take_0) simp
    then show ?thesis using False Cons by simp
  qed
qed simp

definition cuts_after :: "nat \<Rightarrow> nat \<Rightarrow> string \<Rightarrow> bool" where
  "cuts_after n b s \<longleftrightarrow>
     b \<le> length s \<and> split_whitespace (take b s) = take n (split_whitespace s) \<and> ws_len (take b s) = ws_len s
     \<and> (drop b s = [] \<or> 0 < ws_len (drop b s))"

lemma cuts_after_ws:
  assumes "0 < ws_len s" "cuts_after n b (drop (ws_len s) s)"
  shows "cuts_after n (ws_len s + b) s"
proof -
  have w: "ws_len (take (ws_len s + b) s) = ws_len s" using assms(1) by (rule ws_len_take) simp
  have "split_whitespace (take (ws_len s + b) s) = split_whitespace (take b (drop (ws_len s) s))"
    using split_whitespace_ws [of "take (ws_len s + b) s"] assms(1) by (simp add: w drop_take)
  then show ?thesis
    using assms w ws_len_le [of s] split_whitespace_ws [of s] by (auto simp: cuts_after_def add.commute)
qed

lemma cuts_after_word:
  assumes "s \<noteq> []" "ws_len s = 0"
  shows "cuts_after 1 (word_len s) s"
proof -
  have "take (word_len s) s \<noteq> []" using assms by (cases s) auto
  then have "split_whitespace (take (word_len s) s) = [take (word_len s) s]"
    using split_whitespace_word [of "take (word_len s) s"] ws_len_take_0 [OF assms(2)] word_len_take [of "word_len s" s]
    by (simp add: split_whitespace_def)
  then show ?thesis
    using split_whitespace_word [OF assms] word_len_stop [of s] ws_len_take_0 [OF assms(2)] assms(2) word_len_le [of s]
    by (simp add: cuts_after_def)
qed

lemma cuts_after_Suc:
  assumes "s \<noteq> []" "ws_len s = 0" "cuts_after n b (drop (word_len s) s)" "drop (word_len s) s \<noteq> []"
  shows "cuts_after (Suc n) (word_len s + b) s"
proof -
  have "0 < ws_len (take b (drop (word_len s) s))"
    using assms(3,4) word_len_stop [of s] by (auto simp: cuts_after_def)
  then have w: "word_len (take (word_len s + b) s) = word_len s" by (rule word_len_take_more)
  have z: "ws_len (take (word_len s + b) s) = 0" using assms(2) by (rule ws_len_take_0)
  have n: "take (word_len s + b) s \<noteq> []" using assms(1,2) by (cases s) auto
  have "split_whitespace (take (word_len s + b) s) = take (word_len s) s # split_whitespace (take b (drop (word_len s) s))"
    using split_whitespace_word [OF n z] by (simp add: w drop_take)
  then show ?thesis
    using assms split_whitespace_word [OF assms(1,2)] z word_len_le [of s] by (auto simp: cuts_after_def add.commute)
qed

lemma token_spans_from_cuts:
  "k < length (token_spans_from i s) \<Longrightarrow> i \<le> snd (token_spans_from i s ! k) \<and> cuts_after (Suc k) (snd (token_spans_from i s ! k) - i) s"
proof (induction i s arbitrary: k rule: token_spans_from.induct)
  case (2 i x xs)
  let ?s = "x # xs"
  show ?case
  proof (cases "0 < ws_len ?s")
    case True
    let ?b = "snd (token_spans_from (i + ws_len ?s) (drop (ws_len ?s) ?s) ! k)"
    have le: "i + ws_len ?s \<le> ?b" and c: "cuts_after (Suc k) (?b - (i + ws_len ?s)) (drop (ws_len ?s) ?s)"
      using 2 True by auto
    from le have "ws_len ?s + (?b - (i + ws_len ?s)) = ?b - i" by simp
    then have "cuts_after (Suc k) (?b - i) ?s"
      using cuts_after_ws [OF True c] by (simp only:)
    then show ?thesis using True le by simp
  next
    case False
    let ?r = "drop (word_len ?s) ?s"
    show ?thesis
    proof (cases k)
      case 0
      then show ?thesis using False cuts_after_word [of ?s] by (simp del: word_len.simps)
    next
      case (Suc j)
      let ?b = "snd (token_spans_from (i + word_len ?s) ?r ! j)"
      have j: "j < length (token_spans_from (i + word_len ?s) ?r)" using 2(3) False Suc by (simp del: word_len.simps)
      then have "?r \<noteq> []" by (metis length_greater_0_conv less_nat_zero_code list.size(3) token_spans_from.simps(1))
      moreover have le: "i + word_len ?s \<le> ?b" and "cuts_after (Suc j) (?b - (i + word_len ?s)) ?r"
        using 2(2) [OF False j] by auto
      ultimately have "cuts_after (Suc (Suc j)) (word_len ?s + (?b - (i + word_len ?s))) ?s"
        using False by (intro cuts_after_Suc) simp_all
      moreover from le have "word_len ?s + (?b - (i + word_len ?s)) = ?b - i" by (simp del: word_len.simps)
      ultimately have "cuts_after (Suc (Suc j)) (?b - i) ?s" by (simp only:)
      then show ?thesis using False Suc le by (simp del: word_len.simps)
    qed
  qed
qed simp

lemma token_spans_cuts:
  assumes "0 < n" "n \<le> length (token_spans s)"
  shows "cuts_after n (snd (token_spans s ! (n - 1))) s"
  using token_spans_from_cuts [of "n - 1" 0 s] assms by (simp add: token_spans_def)

section \<open>Aliases, exactly\<close>

definition alias_matches :: "string \<Rightarrow> alias_entry \<Rightarrow> bool" where
  "alias_matches input e \<longleftrightarrow> prefix (alias_words e) (split_whitespace input)"

lemma alias_matches_spans:
  "alias_matches input e \<longleftrightarrow>
     length (alias_words e) \<le> length (token_spans input)
     \<and> map (\<lambda>(a, b). slice input a b) (take (length (alias_words e)) (token_spans input)) = alias_words e"
proof -
  have l: "length (token_spans input) = length (split_whitespace input)"
    using token_spans_words [of input] by (metis length_map)
  have "map (\<lambda>(a, b). slice input a b) (take n (token_spans input)) = take n (split_whitespace input)" for n
    by (metis take_map token_spans_words)
  then show ?thesis
    unfolding alias_matches_def l by (auto simp: prefix_def intro: exI [of _ "drop (length (alias_words e)) (split_whitespace input)"])
      (metis append_take_drop_id)
qed

lemma alias_loop_find:
  "alias_loop input (token_spans input) es =
     (case find (alias_matches input) es of
        None \<Rightarrow> Some input
      | Some e \<Rightarrow>
          if alias_words e = [] then None
          else Some (alias_to e @ drop (snd (token_spans input ! (length (alias_words e) - 1))) input))"
  by (induction es) (auto simp: Let_def alias_matches_spans)

lemma find_first:
  "find P xs = Some x \<Longrightarrow> sorted (map f xs) \<Longrightarrow> y \<in> set xs \<Longrightarrow> P y \<Longrightarrow> f x \<le> f y"
  by (induction xs) (auto split: if_splits)

lemma sorted_alias_config: "sorted (map (\<lambda>e. - int (length (alias_words e))) (alias_config_of table))"
  by (simp add: alias_config_of_def)

definition alias_hit :: "alias_entry list \<Rightarrow> string \<Rightarrow> alias_entry \<Rightarrow> string \<Rightarrow> string \<Rightarrow> bool" where
  "alias_hit es input e before rest \<longleftrightarrow>
     e \<in> set es \<and> alias_matches input e \<and> alias_words e \<noteq> []
     \<and> (\<forall>e'\<in>set es. alias_matches input e' \<longrightarrow> length (alias_words e') \<le> length (alias_words e))
     \<and> input = before @ rest \<and> split_whitespace before = alias_words e \<and> (rest = [] \<or> 0 < ws_len rest)"

text \<open>
  C28. Alias expansion is exact.  For a line that is not a command, the alias applied is one of those
  whose words are the first words of the line, with as many words as any of them; the line becomes the
  alias's replacement followed by the rest of the line, unchanged from the end of the last word
  matched.  A line whose first words are no alias stays as it is.  The expansion panics exactly when
  an alias of no words is configured and no other alias matches.
\<close>

theorem alias_apply_exact:
  assumes "es = alias_config_of table" "\<not> starts_with input '':''"
  shows "case alias_apply es input of
      None \<Rightarrow> (\<exists>e\<in>set es. alias_words e = []) \<and> (\<forall>e\<in>set es. alias_matches input e \<longrightarrow> alias_words e = [])
    | Some out \<Rightarrow>
        (\<forall>e\<in>set es. \<not> alias_matches input e) \<and> out = input
        \<or> (\<exists>e before rest. alias_hit es input e before rest \<and> out = alias_to e @ rest)"
proof (cases "find (alias_matches input) es")
  case None
  then have "alias_apply es input = Some input"
    by (simp add: alias_apply_def alias_loop_find)
  moreover have "\<forall>e\<in>set es. \<not> alias_matches input e" using None by (auto simp: find_None_iff)
  ultimately show ?thesis by simp
next
  case (Some e)
  then have e: "e \<in> set es" "alias_matches input e" by (auto simp: find_Some_iff)
  then have a: "alias_apply es input = alias_loop input (token_spans input) es"
    using assms(2) by (auto simp: alias_apply_def)
  have max: "\<forall>e'\<in>set es. alias_matches input e' \<longrightarrow> length (alias_words e') \<le> length (alias_words e)"
    using find_first [OF Some sorted_alias_config [of table, folded assms(1)]] by auto
  show ?thesis
  proof (cases "alias_words e = []")
    case True
    then show ?thesis using a Some e max by (auto simp: alias_loop_find)
  next
    case False
    let ?b = "snd (token_spans input ! (length (alias_words e) - 1))"
    have "cuts_after (length (alias_words e)) ?b input"
      using False e(2) by (intro token_spans_cuts) (auto simp: alias_matches_spans)
    then have "split_whitespace (take ?b input) = alias_words e" "drop ?b input = [] \<or> 0 < ws_len (drop ?b input)"
      using e(2) by (auto simp: cuts_after_def alias_matches_def prefix_def)
    moreover have "alias_apply es input = Some (alias_to e @ drop ?b input)"
      using a Some False by (simp add: alias_loop_find)
    moreover have "input = take ?b input @ drop ?b input" by simp
    ultimately have "alias_hit es input e (take ?b input) (drop ?b input)" "alias_apply es input = Some (alias_to e @ drop ?b input)"
      using e False max unfolding alias_hit_def by blast+
    then show ?thesis by auto
  qed
qed

theorem alias_apply_exact_witness:
  "alias_apply (alias_config_of [(''git'', ''hub''), (''git clone'', ''ein clone'')]) ''git  clone x'' = Some ''ein clone x''
   \<and> (\<exists>e before rest. ''git  clone x'' = before @ rest \<and> split_whitespace before = alias_words e
        \<and> ''ein clone x'' = alias_to e @ rest)"
proof -
  let ?es = "alias_config_of [(''git'', ''hub''), (''git clone'', ''ein clone'')]"
  have r: "alias_apply ?es ''git  clone x'' = Some ''ein clone x''" by code_simp
  have m: "\<not> (\<forall>e\<in>set ?es. \<not> alias_matches ''git  clone x'' e)" unfolding list_all_iff [symmetric] by code_simp
  have "\<not> starts_with ''git  clone x'' '':''" by simp
  from alias_apply_exact [of ?es _ "''git  clone x''", OF refl this] r m
  have "\<exists>e before rest. alias_hit ?es ''git  clone x'' e before rest \<and> ''ein clone x'' = alias_to e @ rest"
    by (simp only: option.case) blast
  then show ?thesis using r unfolding alias_hit_def by blast
qed

text \<open>An alias of no words in the configuration stops every other line that is not a command.\<close>

lemma blank_alias_panics:
  "alias_apply (alias_config_of [('' '', ''x''), (''ls'', ''eza'')]) ''make'' = None"
  by code_simp

section \<open>Highlighting, exactly\<close>

definition in_order :: "nat \<Rightarrow> highlight_span list \<Rightarrow> bool" where
  "in_order n spans \<longleftrightarrow> sorted_wrt (\<lambda>a b. hl_end a \<le> hl_start b) spans \<and> (\<forall>s\<in>set spans. hl_start s < hl_end s \<and> hl_end s \<le> n)"

lemma map_filter_Cons: "List.map_filter f (x # xs) = (case f x of None \<Rightarrow> [] | Some y \<Rightarrow> [y]) @ List.map_filter f xs"
  by (simp add: List.map_filter_def split: option.splits)

lemma tiles_highlight:
  "tiles bs p toks \<Longrightarrow> in_order (length bs) (List.map_filter highlight_token toks)
     \<and> (\<forall>s\<in>set (List.map_filter highlight_token toks). p \<le> hl_start s)"
proof (induction toks arbitrary: p)
  case (Cons t ts)
  show ?case
  proof (cases "ts = []")
    case True
    then show ?thesis using Cons.prems by (simp add: map_filter_Cons highlight_token_def in_order_def List.map_filter_def)
  next
    case False
    note t = tiles_Cons [OF False, THEN iffD1, OF Cons.prems]
    then have ih: "in_order (length bs) (List.map_filter highlight_token ts)"
      "\<forall>s\<in>set (List.map_filter highlight_token ts). sp_end (sp t) \<le> hl_start s"
      using Cons.IH [of "sp_end (sp t)"] by auto
    show ?thesis using t ih
      by (cases "token_highlight (tok t)") (fastforce simp: map_filter_Cons highlight_token_def [of t] in_order_def)+
  qed
qed simp

text \<open>
  Highlighting a line gives non-empty spans inside the line, in order and without overlap: one for
  each token that is not blank when the line can be tokenized, and otherwise the single span of the
  error, which is empty only at the end of the line.
\<close>

theorem highlight_in_order:
  assumes "utf8_ok input"
  shows "case tokenize input of
      Inr toks \<Rightarrow> in_order (length input) (highlight_input input)
        \<and> length (highlight_input input) = length (filter (\<lambda>t. token_highlight (tok t) \<noteq> None) toks)
    | Inl e \<Rightarrow> te_pos e \<le> length input
        \<and> highlight_input input = [\<lparr>hl_start = te_pos e, hl_end = min (usize_saturating_add (te_pos e) 1) (length input), hl_kind = HlError\<rparr>]"
proof (cases "tokenize input")
  case (Inl e)
  then have "expected_error input e"
    using tokenize_loop_error [of "tokenizer_new input" "[]"] assms by (simp add: tokenize_def tokenizer_new_def)
  then have "te_pos e \<le> length input"
    by (auto simp: expected_error_def operator_error_def bare_pipe_error_def quote_error_def starts_with_def
        dest!: nth_opt_SomeD intro: ccontr)
  then show ?thesis using Inl by (simp add: highlight_input_def)
next
  case (Inr toks)
  then have "tiles input 0 toks"
    using tokenize_loop_tiles [of "tokenizer_new input" "[]"] by (simp add: tokenize_def tokenizer_new_def)
  then have "in_order (length input) (highlight_input input)"
    using tiles_highlight Inr by (simp add: highlight_input_def)
  then show ?thesis
    using Inr by (simp add: highlight_input_def List.map_filter_def highlight_token_def)
qed

theorem highlight_in_order_witness:
  "highlight_input '':run(pty=false) make'' \<noteq> [] \<and> in_order (length '':run(pty=false) make'') (highlight_input '':run(pty=false) make'')"
proof -
  have u: "utf8_ok '':run(pty=false) make''" by (simp add: utf8_ok_def)
  obtain toks where t: "tokenize '':run(pty=false) make'' = Inr toks" "highlight_input '':run(pty=false) make'' \<noteq> []"
  proof -
    have "(case tokenize '':run(pty=false) make'' of Inr toks \<Rightarrow> True | Inl _ \<Rightarrow> False) \<and> highlight_input '':run(pty=false) make'' \<noteq> []"
      by code_simp
    then show ?thesis using that by (auto split: sum.splits)
  qed
  then show ?thesis using highlight_in_order [OF u] by (simp del: list.size)
qed

end
