(* ===== verification/Gateway.thy ===== *)
theory Gateway
  imports EventBus Editor Ledger Scope
begin

text \<open>
  The gateway (\<^verbatim>\<open>crates/cue-daemon/src/actor/gateway.rs\<close>): the per-client handlers and the dispatch loop
  between the client sockets, the event bus and the other actors.  This theory has its data, the
  event fence, the operation-id check and the routing of every request.  The handler of a client is a
  sequential task; \<open>route_request\<close> gives the actions it performs for a request, one per point where
  the source awaits, so that the run (theory \<^verbatim>\<open>GatewayRun\<close>) can interleave other tasks between them.
  The lifecycle object is read through \<open>gateway_env\<close>; JSON encoding, the hash function and response
  sizes are arguments.
\<close>

section \<open>The event fence\<close>

datatype client_event_fence_policy = DropQueued | HoldQueued

record client_event_fence =
  fence_request :: u32
  fence_policy :: client_event_fence_policy

record client_event_state =
  binding :: "string option option"
  fence :: "client_event_fence option"

definition client_event_state_default :: client_event_state where
  "client_event_state_default = \<lparr>binding = None, fence = None\<rparr>"

definition client_event_fenced :: "client_event_state \<Rightarrow> bool" where
  "client_event_fenced st \<longleftrightarrow> fence st \<noteq> None"

definition event_audience_matches :: "string option option \<Rightarrow> client_event_audience \<Rightarrow> bool" where
  "event_audience_matches b a =
     (case a of
        AudGlobal \<Rightarrow> True
      | AudSession owner \<Rightarrow>
          (case b of
             None \<Rightarrow> False
           | Some None \<Rightarrow> True
           | Some (Some attached) \<Rightarrow> owner = Some attached))"

definition client_event_is_deliverable :: "client_event_state \<Rightarrow> 'p client_event \<Rightarrow> bool" where
  "client_event_is_deliverable st e \<longleftrightarrow> fence st = None \<and> event_audience_matches (binding st) (audience e)"

definition client_event_can_enqueue :: "client_event_state \<Rightarrow> 'p client_event \<Rightarrow> bool" where
  "client_event_can_enqueue st e \<longleftrightarrow>
     event_audience_matches (binding st) (audience e)
     \<and> \<not> (case fence st of Some f \<Rightarrow> fence_policy f = DropQueued | None \<Rightarrow> False)"

definition begin_client_event_fence :: "u32 \<Rightarrow> string option \<Rightarrow> client_event_state \<Rightarrow> bool \<times> client_event_state" where
  "begin_client_event_fence rid named st =
     (binding st \<noteq> Some named,
      \<lparr>binding = Some named, fence = Some \<lparr>fence_request = rid, fence_policy = DropQueued\<rparr>\<rparr>)"

definition begin_client_event_hold_fence :: "u32 \<Rightarrow> client_event_state \<Rightarrow> client_event_state" where
  "begin_client_event_hold_fence rid st = st\<lparr>fence := Some \<lparr>fence_request = rid, fence_policy = HoldQueued\<rparr>\<rparr>"

text \<open>The result is the new state, the events drained from the queue and the events left in it.\<close>

definition complete_client_event_fence ::
  "u32 \<Rightarrow> 'e list \<Rightarrow> client_event_state \<Rightarrow> client_event_state \<times> 'e list \<times> 'e list" where
  "complete_client_event_fence rid events st =
     (case fence st of
        None \<Rightarrow> (st, [], events)
      | Some f \<Rightarrow>
          if fence_request f \<noteq> rid then (st, [], events)
          else (st\<lparr>fence := None\<rparr>,
                if fence_policy f = DropQueued then events else [],
                if fence_policy f = DropQueued then [] else events))"

definition MAX_INFLIGHT_REQUESTS_PER_CLIENT :: nat where
  "MAX_INFLIGHT_REQUESTS_PER_CLIENT = 1024"

definition reserve_request_id :: "u32 \<Rightarrow> u32 list \<Rightarrow> bool \<times> u32 list" where
  "reserve_request_id rid ids =
     (if MAX_INFLIGHT_REQUESTS_PER_CLIENT \<le> length ids \<or> rid \<in> set ids then (False, ids) else (True, rid # ids))"

definition release_request_id :: "u32 \<Rightarrow> u32 list \<Rightarrow> u32 list" where
  "release_request_id rid ids = removeAll rid ids"

section \<open>Messages\<close>

record session_binding =
  sb_session_id :: string
  sb_named_session_id :: "string option"
  sb_scope :: scope_hash
  sb_incarnation :: u64

datatype session_command =
    SessCreate string | SessList | SessListArchived | SessListAll | SessArchive string | SessRestore string
  | SessAttach string bool | SessInfo "string option"

datatype request_payload =
    ReqEval string mode
  | ReqRunScript string string
  | ReqHandshake string string "(string, string) btree" bool
  | ReqCreateSession string
  | ReqListSessions
  | ReqListArchivedSessions
  | ReqListAllSessions
  | ReqArchiveSession string
  | ReqRestoreSession string
  | ReqAttachSession string bool
  | ReqSessionInfo "string option"
  | ReqSubscribe "string list"
  | ReqUnsubscribe "string list"
  | ReqFgAttach string
  | ReqFgWatch string
  | ReqFgClaimControl
  | ReqFgReleaseControl
  | ReqFgDetach
  | ReqFgInput string
  | ReqFgResize "16 word" "16 word"
  | ReqComplete string nat
  | ReqHighlight string
  | ReqListJobs "nat option"
  | ReqListCrons "nat option"
  | ReqListScopes "nat option"
  | ReqScriptInfo string
  | ReqShowLog "string option" "nat option" "nat option"
  | ReqJobOutput string "nat option" "nat option"
  | ReqKillJob string
  | ReqCancelExecution string
  | ReqRemoveCron string
  | ReqShowEnv "nat option"
  | ReqShowConfig "nat option"
  | ReqPing
  | ReqRestart
  | ReqShutdown

text \<open>The successful responses the gateway makes itself; those of other actors it only passes on.\<close>

datatype 'x ok_payload =
    Ack
  | CompletionList "completion_item list"
  | HighlightResult "highlight_span list"
  | Pong string string string bool u32 "string list"
  | FgRoleChanged string u64 foreground_role bool
  | RestartAccepted string string string
  | OtherOk 'x

type_synonym 'x response = "'x ok_payload response_payload"

datatype ('p, 'x) gateway_msg =
    SendResponse u64 u32 "'x response"
  | SendEvent u64 'p "string option"

datatype scheduler_msg =
    ScConnect u64 string env_snapshot bool
  | ScSession u64 session_command
  | ScDisconnect u64
  | ScEval u64 u32 resolved_command
  | ScScriptInfo u64 u32 string
  | ScBeginDrain

datatype process_msg =
    PmClaimFgControl u64
  | PmReleaseFgControl u64
  | PmDetachFg u64 string
  | PmFgInput u64 string
  | PmFgResize u64 "16 word" "16 word"

record restart_ticket =
  restart_id :: string
  daemon_instance_id :: string
  target_generation :: string
  first_request :: bool

section \<open>Requests and operation ids\<close>

record gateway_env =
  aliases :: "alias_entry list"
  execution_admission_closed :: bool
  is_execution_ready :: bool
  version :: string
  instance_id :: string
  generation_id :: string

fun command_contains_connection_local_foreground :: "resolved_command \<Rightarrow> bool" where
  "command_contains_connection_local_foreground (RFg _ _) = True"
| "command_contains_connection_local_foreground (RScript _ _ items) = list_ex (\<lambda>(_, c). command_contains_connection_local_foreground c) items"
| "command_contains_connection_local_foreground _ = False"

definition eval_resolves_to_connection_local_foreground :: "alias_entry list \<Rightarrow> request_payload \<Rightarrow> bool option" where
  "eval_resolves_to_connection_local_foreground al p =
     (case p of
        ReqEval input m \<Rightarrow>
          (case alias_apply al input of
             None \<Rightarrow> None
           | Some line \<Rightarrow>
               (case parse_command_line line m of
                  Inr c \<Rightarrow> Some (command_contains_connection_local_foreground c)
                | Inl ParsePanic \<Rightarrow> None
                | Inl _ \<Rightarrow> Some False))
      | _ \<Rightarrow> Some False)"

fun is_side_effecting_request :: "request_payload \<Rightarrow> bool" where
  "is_side_effecting_request (ReqEval _ _) = True"
| "is_side_effecting_request (ReqRunScript _ _) = True"
| "is_side_effecting_request (ReqKillJob _) = True"
| "is_side_effecting_request (ReqCancelExecution _) = True"
| "is_side_effecting_request (ReqRemoveCron _) = True"
| "is_side_effecting_request (ReqArchiveSession _) = True"
| "is_side_effecting_request (ReqRestoreSession _) = True"
| "is_side_effecting_request ReqRestart = True"
| "is_side_effecting_request ReqShutdown = True"
| "is_side_effecting_request _ = False"

fun command_starts_execution :: "resolved_command \<Rightarrow> bool" where
  "command_starts_execution (RScript _ _ _) = True"
| "command_starts_execution (RRun _ _) = True"
| "command_starts_execution (RCron _ _ _) = True"
| "command_starts_execution (RRetry _) = True"
| "command_starts_execution (RResume _) = True"
| "command_starts_execution _ = False"

text \<open>
  The verdict on a request's operation id: an outcome, the error of an encoding that fails, or no
  result when the task panics on the way.
\<close>

definition idempotency_outcome ::
  "(string \<Rightarrow> 8 word list) \<Rightarrow> (request_payload \<Rightarrow> string + string) \<Rightarrow> nat \<Rightarrow> alias_entry list \<Rightarrow> 8 word list option
    \<Rightarrow> string option \<Rightarrow> request_payload \<Rightarrow> operation_waiter \<Rightarrow> 'x ok_payload ledger
    \<Rightarrow> ((string + 'x ok_payload begin_outcome) \<times> 'x ok_payload ledger) option" where
  "idempotency_outcome blake3 encode now al ns op p waiter L =
     (case op of
        None \<Rightarrow> Some (Inr Route, L)
      | Some op_id \<Rightarrow>
          (case eval_resolves_to_connection_local_foreground al p of
             None \<Rightarrow> None
           | Some True \<Rightarrow>
               Some (Inr (Respond (RespErr ''INVALID_REQUEST''
                 ''operation_id is not supported for connection-local :fg or :watch requests'')), L)
           | Some False \<Rightarrow>
               if \<not> is_side_effecting_request p
               then Some (Inr (Respond (RespErr ''INVALID_REQUEST''
                      ''operation_id is supported only for daemon-global side-effecting requests'')), L)
               else
                 (case ns of
                    None \<Rightarrow> Some (Inr (Respond (RespErr ''INVALID_REQUEST''
                              ''operation_id requires a successful session handshake'')), L)
                  | Some n \<Rightarrow>
                      (case encode p of
                         Inl _ \<Rightarrow> Some (Inl ''fingerprint IPC request'', L)
                       | Inr bytes \<Rightarrow>
                           (case ledger_begin blake3 now n op_id (blake3 bytes) waiter L of
                              (outcome, L') \<Rightarrow> Some (Inr outcome, L'))))))"

section \<open>Routing\<close>

text \<open>
  What a handler does, step by step.  The \<open>Await\<close> actions wait for an answer of another actor or of the
  lifecycle object; \<open>ActNamespace\<close> is the assignment of the returned namespace, \<open>ActLeave\<close> the end of
  the task, which drops its queues, and \<open>ActPanic\<close> a panic.
\<close>

datatype ('p, 'x) action =
    ActBus "'p event_bus_msg"
  | ActGateway "('p, 'x) gateway_msg"
  | ActScheduler scheduler_msg
  | ActProcess process_msg
  | ActHoldFence u32
  | ActNamespace "8 word list"
  | ActAwaitBinding u32
  | ActAwaitSession u32
  | ActAwaitDetach "u32 option"
  | ActAwaitRole u32 string
  | ActAwaitInput u32
  | ActRequestRestart u32
  | ActAwaitDrain u32 restart_ticket
  | ActCancelRestart u32
  | ActTerminate
  | ActLeave
  | ActPanic

definition respond :: "u64 \<Rightarrow> u32 \<Rightarrow> 'x response \<Rightarrow> ('p, 'x) action" where
  "respond c rid p = ActGateway (SendResponse c rid p)"

definition ack :: "'x response" where
  "ack = RespOther Ack"

definition draining_response :: "'x response" where
  "draining_response = RespErr ''DAEMON_DRAINING'' ''daemon startup/restart handoff is in progress; new execution admission is closed''"

definition inline_script_disabled_response :: "'x response" where
  "inline_script_disabled_response =
     RespErr ''NOT_SUPPORTED''
       ''interactive multiline script submissions have been removed; write the items to a .cue file and run `cue run path/to/file.cue`''"

definition invalid_event_channel_response :: "string \<Rightarrow> 'x response" where
  "invalid_event_channel_response channel =
     RespErr ''INVALID_REQUEST''
       (''invalid event channel `'' @ channel @ ''`; expected `jobs`, `crons`, `scopes`, `system`, or `output:<job-id>`'')"

definition detach_client_foreground :: "u64 \<Rightarrow> u32 option \<Rightarrow> string \<Rightarrow> ('p, 'x) action list" where
  "detach_client_foreground c on_error reason = [ActProcess (PmDetachFg c reason), ActAwaitDetach on_error]"

definition send_scheduler_eval :: "u64 \<Rightarrow> u32 \<Rightarrow> resolved_command \<Rightarrow> ('p, 'x) action list" where
  "send_scheduler_eval c rid cmd = [ActScheduler (ScEval c rid cmd)]"

definition route_session_command :: "u64 \<Rightarrow> u32 \<Rightarrow> session_command \<Rightarrow> ('p, 'x) action list" where
  "route_session_command c rid cmd = [ActScheduler (ScSession c cmd), ActAwaitSession rid]"

definition route_handshake :: "u64 \<Rightarrow> u32 \<Rightarrow> string \<Rightarrow> string \<Rightarrow> (string, string) btree \<Rightarrow> bool \<Rightarrow> ('p, 'x) action list" where
  "route_handshake c rid session_id dir environment refresh =
     [ActScheduler (ScConnect c session_id \<lparr>env = environment, cwd = dir\<rparr> refresh), ActAwaitBinding rid]"

definition route_eval :: "gateway_env \<Rightarrow> u64 \<Rightarrow> u32 \<Rightarrow> string \<Rightarrow> mode \<Rightarrow> ('p, 'x) action list" where
  "route_eval g c rid input m =
     (case alias_apply (aliases g) input of
        None \<Rightarrow> [ActPanic]
      | Some line \<Rightarrow>
          (case parse_command_line line m of
             Inl ParsePanic \<Rightarrow> [ActPanic]
           | Inl (ParseErr e) \<Rightarrow>
               [respond c rid (RespErr ''INVALID_SYNTAX'' (syntax_error_message line (show_parse_error e)))]
           | Inr cmd \<Rightarrow>
               if execution_admission_closed g \<and> command_starts_execution cmd then [respond c rid draining_response]
               else if (case cmd of RScript _ Inline _ \<Rightarrow> True | _ \<Rightarrow> False)
               then [respond c rid inline_script_disabled_response]
               else (case cmd of RFg _ _ \<Rightarrow> [ActHoldFence rid] | _ \<Rightarrow> []) @ send_scheduler_eval c rid cmd))"

definition route_run_script :: "gateway_env \<Rightarrow> u64 \<Rightarrow> u32 \<Rightarrow> string \<Rightarrow> string \<Rightarrow> ('p, 'x) action list" where
  "route_run_script g c rid path input =
     (if execution_admission_closed g then [respond c rid draining_response]
      else
        (case parse_file_script_command input of
           Inl ParsePanic \<Rightarrow> [ActPanic]
         | Inl (ParseErr e) \<Rightarrow>
             [respond c rid (RespErr ''INVALID_SYNTAX'' (syntax_error_message input (show_parse_error e)))]
         | Inr cmd \<Rightarrow>
             if command_contains_connection_local_foreground cmd
             then [respond c rid (RespErr ''NOT_SUPPORTED''
                     ''file scripts cannot use connection-local :fg or :watch commands; attach to the job interactively instead'')]
             else send_scheduler_eval c rid
                    (case cmd of RScript m _ items \<Rightarrow> RScript m (ScriptFile path) items | _ \<Rightarrow> cmd)))"

definition route_subscribe :: "u64 \<Rightarrow> u32 \<Rightarrow> string list \<Rightarrow> ('p, 'x) action list" where
  "route_subscribe c rid names =
     (case parse_channel_list names of
        Inl (ParseEventChannelError input) \<Rightarrow> [respond c rid (invalid_event_channel_response input)]
      | Inr chs \<Rightarrow> map (\<lambda>ch. ActBus (Subscribe c ch c c)) chs @ [respond c rid ack])"

definition route_unsubscribe :: "u64 \<Rightarrow> u32 \<Rightarrow> string list \<Rightarrow> ('p, 'x) action list" where
  "route_unsubscribe c rid names =
     (case parse_channel_list names of
        Inl (ParseEventChannelError input) \<Rightarrow> [respond c rid (invalid_event_channel_response input)]
      | Inr chs \<Rightarrow> map (\<lambda>ch. ActBus (Unsubscribe c ch)) chs @ [respond c rid ack])"

definition IPC_PROTOCOL_VERSION :: u32 where "IPC_PROTOCOL_VERSION = 2"

definition current_protocol_capabilities :: "string list" where
  "current_protocol_capabilities =
     [''session-handshake-required'', ''script-item-created'', ''cancel-execution'', ''operation-idempotency'',
      ''script-info-recovery'', ''graceful-restart'', ''named-sessions'', ''foreground-observers'', ''session-archive'']"

definition route_ping :: "gateway_env \<Rightarrow> u64 \<Rightarrow> u32 \<Rightarrow> ('p, 'x) action list" where
  "route_ping g c rid =
     [respond c rid (RespOther (Pong (version g) (instance_id g) (generation_id g) (is_execution_ready g)
        IPC_PROTOCOL_VERSION current_protocol_capabilities))]"

fun route_request :: "gateway_env \<Rightarrow> u64 \<Rightarrow> u32 \<Rightarrow> request_payload \<Rightarrow> ('p, 'x) action list" where
  "route_request g c rid (ReqHandshake sid dir environment refresh) = route_handshake c rid sid dir environment refresh"
| "route_request g c rid (ReqCreateSession name) = route_session_command c rid (SessCreate name)"
| "route_request g c rid ReqListSessions = route_session_command c rid SessList"
| "route_request g c rid ReqListArchivedSessions = route_session_command c rid SessListArchived"
| "route_request g c rid ReqListAllSessions = route_session_command c rid SessListAll"
| "route_request g c rid (ReqArchiveSession sel) = route_session_command c rid (SessArchive sel)"
| "route_request g c rid (ReqRestoreSession sel) = route_session_command c rid (SessRestore sel)"
| "route_request g c rid (ReqAttachSession sel refresh) = route_session_command c rid (SessAttach sel refresh)"
| "route_request g c rid (ReqSessionInfo sel) = route_session_command c rid (SessInfo sel)"
| "route_request g c rid (ReqEval input m) = route_eval g c rid input m"
| "route_request g c rid (ReqRunScript path input) = route_run_script g c rid path input"
| "route_request g c rid (ReqListJobs limit) = send_scheduler_eval c rid (RListJobs limit)"
| "route_request g c rid (ReqListCrons limit) = send_scheduler_eval c rid (RListCrons limit)"
| "route_request g c rid (ReqListScopes limit) = send_scheduler_eval c rid (RListScopes limit)"
| "route_request g c rid (ReqScriptInfo i) = [ActScheduler (ScScriptInfo c rid i)]"
| "route_request g c rid (ReqShowLog i limit tail) = send_scheduler_eval c rid (RShowLog i limit tail)"
| "route_request g c rid (ReqJobOutput i out err) = send_scheduler_eval c rid (RJobOutput i out err)"
| "route_request g c rid (ReqKillJob i) = send_scheduler_eval c rid (RKillJob i)"
| "route_request g c rid (ReqCancelExecution i) = send_scheduler_eval c rid (RCancelExecution i)"
| "route_request g c rid (ReqRemoveCron i) = send_scheduler_eval c rid (RRemoveCron i)"
| "route_request g c rid (ReqShowEnv tail) = send_scheduler_eval c rid (RShowEnv tail)"
| "route_request g c rid (ReqShowConfig tail) = send_scheduler_eval c rid (RShowConfig tail)"
| "route_request g c rid (ReqSubscribe names) = route_subscribe c rid names"
| "route_request g c rid (ReqUnsubscribe names) = route_unsubscribe c rid names"
| "route_request g c rid (ReqFgAttach i) = ActHoldFence rid # send_scheduler_eval c rid (RFg i Controller)"
| "route_request g c rid (ReqFgWatch i) = ActHoldFence rid # send_scheduler_eval c rid (RFg i Observer)"
| "route_request g c rid ReqFgClaimControl =
     [ActHoldFence rid, ActProcess (PmClaimFgControl c), ActAwaitRole rid ''claim foreground control'']"
| "route_request g c rid ReqFgReleaseControl =
     [ActHoldFence rid, ActProcess (PmReleaseFgControl c), ActAwaitRole rid ''release foreground control'']"
| "route_request g c rid ReqFgDetach = detach_client_foreground c (Some rid) ''detached'' @ [respond c rid ack]"
| "route_request g c rid (ReqFgInput bytes) = [ActProcess (PmFgInput c bytes), ActAwaitInput rid]"
| "route_request g c rid (ReqFgResize cols rows) = [ActProcess (PmFgResize c cols rows), ActAwaitInput rid]"
| "route_request g c rid (ReqComplete input cursor) = [respond c rid (RespOther (CompletionList (complete_input input cursor)))]"
| "route_request g c rid (ReqHighlight input) = [respond c rid (RespOther (HighlightResult (highlight_input input)))]"
| "route_request g c rid ReqPing = route_ping g c rid"
| "route_request g c rid ReqRestart =
     (if \<not> is_execution_ready g then [respond c rid draining_response] else [ActRequestRestart rid])"
| "route_request g c rid ReqShutdown = [ActCancelRestart rid, respond c rid ack, ActTerminate]"

section \<open>Answers\<close>

datatype 'x reply =
    BindingOk session_binding
  | SessionDone "'x response" "session_binding option"
  | RoleUpdate string u64 foreground_role bool
  | TicketGranted restart_ticket
  | Done
  | Refused string
  | Dropped

text \<open>
  The actions after a binding has been accepted: the fence is already up, then the bus learns the
  session, the foreground attachment is given up when the binding changed, and the response follows.
\<close>

definition prepare_client_binding :: "u64 \<Rightarrow> u32 \<Rightarrow> bool \<Rightarrow> session_binding \<Rightarrow> ('p, 'x) action list" where
  "prepare_client_binding c rid changed b =
     ActBus (SetClientSession c (sb_named_session_id b))
     # (if changed then detach_client_foreground c (Some rid) ''session binding changed'' else [])"

definition binding_namespace :: "(string \<Rightarrow> 8 word list) \<Rightarrow> session_binding \<Rightarrow> 8 word list" where
  "binding_namespace blake3 b = session_incarnation_namespace blake3 (sb_session_id b) (sb_incarnation b)"

definition bind_and_respond ::
  "(string \<Rightarrow> 8 word list) \<Rightarrow> u64 \<Rightarrow> u32 \<Rightarrow> bool \<Rightarrow> session_binding \<Rightarrow> 'x response \<Rightarrow> ('p, 'x) action list" where
  "bind_and_respond blake3 c rid changed b p =
     prepare_client_binding c rid changed b @ [respond c rid p, ActNamespace (binding_namespace blake3 b)]"

definition internal_error :: "u64 \<Rightarrow> u32 \<Rightarrow> string \<Rightarrow> ('p, 'x) action list" where
  "internal_error c rid message = [respond c rid (RespErr ''INTERNAL'' message)]"

definition restart_accepted :: "u64 \<Rightarrow> u32 \<Rightarrow> restart_ticket \<Rightarrow> ('p, 'x) action list" where
  "restart_accepted c rid t =
     [respond c rid (RespOther (RestartAccepted (restart_id t) (daemon_instance_id t) (target_generation t)))]"

text \<open>
  How a handler goes on from an answer: the binding it now has to fence, if any, and the actions that
  follow; \<open>None\<close> when the answer does not belong to the action.  An error that leaves
  \<^verbatim>\<open>route_request\<close> skips what was left and is reported to the client.
\<close>

definition resume ::
  "(string \<Rightarrow> 8 word list) \<Rightarrow> u64 \<Rightarrow> client_event_state \<Rightarrow> ('p, 'x) action \<Rightarrow> ('p, 'x) action list \<Rightarrow> 'x reply
    \<Rightarrow> ((u32 \<times> string option) option \<times> ('p, 'x) action list) option" where
  "resume blake3 c st a rest r =
     (let rebind = (\<lambda>rid b p.
            Some (Some (rid, sb_named_session_id b),
                  bind_and_respond blake3 c rid (fst (begin_client_event_fence rid (sb_named_session_id b) st)) b p @ rest));
          go_on = (\<lambda>acts. Some (None, acts @ rest));
          fail = (\<lambda>rid message. Some (None, internal_error c rid message))
      in case a of
           ActAwaitBinding rid \<Rightarrow>
             (case r of
                BindingOk b \<Rightarrow> rebind rid b ack
              | Refused message \<Rightarrow> go_on (internal_error c rid message)
              | Dropped \<Rightarrow> go_on (internal_error c rid ''scheduler session reply dropped'')
              | _ \<Rightarrow> None)
         | ActAwaitSession rid \<Rightarrow>
             (case r of
                SessionDone p (Some b) \<Rightarrow> rebind rid b p
              | SessionDone p None \<Rightarrow> go_on [respond c rid p]
              | Dropped \<Rightarrow> fail rid ''scheduler named-session reply dropped''
              | _ \<Rightarrow> None)
         | ActAwaitDetach on_error \<Rightarrow>
             (case r of
                Done \<Rightarrow> go_on []
              | Dropped \<Rightarrow>
                  (case on_error of
                     Some rid \<Rightarrow> fail rid ''process manager dropped foreground detach acknowledgement''
                   | None \<Rightarrow> go_on [])
              | _ \<Rightarrow> None)
         | ActAwaitRole rid operation \<Rightarrow>
             (case r of
                RoleUpdate i attachment role available \<Rightarrow>
                  go_on [respond c rid (RespOther (FgRoleChanged i attachment role available))]
              | Refused message \<Rightarrow> go_on [respond c rid (RespErr ''INVALID_STATE'' message)]
              | Dropped \<Rightarrow>
                  go_on [respond c rid (RespErr ''INTERNAL'' (''process manager dropped '' @ operation @ '' reply: channel closed''))]
              | _ \<Rightarrow> None)
         | ActAwaitInput rid \<Rightarrow>
             (case r of
                Done \<Rightarrow> go_on [respond c rid ack]
              | Refused message \<Rightarrow> go_on [respond c rid (RespErr ''INVALID_STATE'' message)]
              | Dropped \<Rightarrow> go_on [respond c rid (RespErr ''INTERNAL'' ''process_mgr unreachable'')]
              | _ \<Rightarrow> None)
         | ActRequestRestart rid \<Rightarrow>
             (case r of
                TicketGranted t \<Rightarrow>
                  go_on (if first_request t then [ActScheduler ScBeginDrain, ActAwaitDrain rid t] else restart_accepted c rid t)
              | Refused message \<Rightarrow> fail rid message
              | _ \<Rightarrow> None)
         | ActAwaitDrain rid t \<Rightarrow>
             (case r of
                Done \<Rightarrow> go_on (restart_accepted c rid t)
              | Dropped \<Rightarrow> fail rid ''scheduler could not begin daemon drain''
              | Refused message \<Rightarrow> fail rid message
              | _ \<Rightarrow> None)
         | ActCancelRestart rid \<Rightarrow>
             (case r of Done \<Rightarrow> go_on [] | Refused message \<Rightarrow> fail rid message | _ \<Rightarrow> None)
         | _ \<Rightarrow> None)"

end
