(* ===== verification/GatewayRun.thy ===== *)
theory GatewayRun
  imports Gateway
begin

text \<open>
  The gateway in operation: the accept loop, the client handlers, the dispatch loop and the event bus
  as one transition system (\<^verbatim>\<open>spawn\<close>, \<^verbatim>\<open>handle_client\<close> and the queue functions of
  \<^verbatim>\<open>crates/cue-daemon/src/actor/gateway.rs\<close>, the receive loop of \<^verbatim>\<open>event_bus.rs\<close>).  An event of the
  system is one turn of one task; the label says which and carries what the environment decides (a
  frame read from the socket, an answer of another actor, whether a write succeeds, the time).  A
  client's queues, flag and fence are stored under its id, which the accept loop never reuses.  The
  history of a client records what is written to its socket and the turns of its fence; it is not part
  of the program and no guard reads it.
\<close>

section \<open>State\<close>

datatype client_status = Absent | Open | Closing | Closed | Crashed

datatype ('p, 'x) log_entry =
    LBind u32 "string option"
  | LHold u32
  | LResponse u32 "'x response"
  | LEvent "'p client_event"
  | LDiscard "'p client_event"
  | LLost "'p client_event"

record ('p, 'x) gateway =
  registry :: "u64 list"
  store :: "'p event_store"
  responses :: "u64 \<Rightarrow> (u32 \<times> 'x response) mpsc"
  event_state :: "u64 \<Rightarrow> client_event_state"
  inflight :: "u64 \<Rightarrow> u32 list"
  namespaces :: "u64 \<Rightarrow> 8 word list option"
  todo :: "u64 \<Rightarrow> ('p, 'x) action list"
  status :: "u64 \<Rightarrow> client_status"
  next_client_id :: u64
  subscriptions :: event_subscriptions
  bus_inbox :: "'p event_bus_msg list"
  gateway_inbox :: "('p, 'x) gateway_msg list"
  operations :: "'x ok_payload ledger"
  history :: "u64 \<Rightarrow> ('p, 'x) log_entry list"

definition ACTOR_CHANNEL_CAP :: nat where "ACTOR_CHANNEL_CAP = 256"
definition CLIENT_EVENT_CAP :: nat where "CLIENT_EVENT_CAP = 64"
definition CLIENT_RESPONSE_CAP :: nat where "CLIENT_RESPONSE_CAP = 64"

definition gateway_start :: "('p, 'x) gateway" where
  "gateway_start =
     \<lparr>registry = [],
      store = \<lparr>senders = (\<lambda>_. \<lparr>capacity = CLIENT_EVENT_CAP, queue = [], receiving = False\<rparr>),
               watches = (\<lambda>_. \<lparr>flag = False, watched = False\<rparr>)\<rparr>,
      responses = (\<lambda>_. \<lparr>capacity = CLIENT_RESPONSE_CAP, queue = [], receiving = False\<rparr>),
      event_state = (\<lambda>_. client_event_state_default), inflight = (\<lambda>_. []), namespaces = (\<lambda>_. None),
      todo = (\<lambda>_. []), status = (\<lambda>_. Absent), next_client_id = 1, subscriptions = subscriptions_default,
      bus_inbox = [], gateway_inbox = [], operations = ledger_new default_limits, history = (\<lambda>_. [])\<rparr>"

definition record_entries :: "u64 \<Rightarrow> ('p, 'x) log_entry list \<Rightarrow> ('p, 'x) gateway \<Rightarrow> ('p, 'x) gateway" where
  "record_entries c es s = s\<lparr>history := (history s)(c := history s c @ es)\<rparr>"

definition set_todo :: "u64 \<Rightarrow> ('p, 'x) action list \<Rightarrow> ('p, 'x) gateway \<Rightarrow> ('p, 'x) gateway" where
  "set_todo c acts s = s\<lparr>todo := (todo s)(c := acts)\<rparr>"

definition set_queue :: "u64 \<Rightarrow> 'p client_event mpsc \<Rightarrow> ('p, 'x) gateway \<Rightarrow> ('p, 'x) gateway" where
  "set_queue c q s = s\<lparr>store := (store s)\<lparr>senders := (senders (store s))(c := q)\<rparr>\<rparr>"

definition set_watch :: "u64 \<Rightarrow> watch \<Rightarrow> ('p, 'x) gateway \<Rightarrow> ('p, 'x) gateway" where
  "set_watch c w s = s\<lparr>store := (store s)\<lparr>watches := (watches (store s))(c := w)\<rparr>\<rparr>"

section \<open>Outbound queues\<close>

definition evict_client :: "u64 \<Rightarrow> ('p, 'x) gateway \<Rightarrow> ('p, 'x) gateway" where
  "evict_client c s =
     (if c \<in> set (registry s)
      then set_watch c (watch_send True (watches (store s) c)) (s\<lparr>registry := removeAll c (registry s)\<rparr>)
      else s)"

definition queue_response_for_client :: "u64 \<Rightarrow> u32 \<Rightarrow> 'x response \<Rightarrow> ('p, 'x) gateway \<Rightarrow> ('p, 'x) gateway" where
  "queue_response_for_client c rid p s =
     (if c \<in> set (registry s) then
        (case try_send (rid, p) (responses s c) of
           (None, q) \<Rightarrow> s\<lparr>responses := (responses s)(c := q)\<rparr>
         | (Some _, _) \<Rightarrow> evict_client c s)
      else s)"

definition queue_event_for_client :: "u64 \<Rightarrow> 'p client_event \<Rightarrow> ('p, 'x) gateway \<Rightarrow> ('p, 'x) gateway" where
  "queue_event_for_client c e s =
     (if c \<in> set (registry s) \<and> client_event_can_enqueue (event_state s c) e then
        (case try_send e (senders (store s) c) of
           (None, q) \<Rightarrow> set_queue c q s
         | (Some _, _) \<Rightarrow> evict_client c s)
      else s)"

text \<open>The dispatch loop: a response completes the operation it was routed for and goes to every waiter.\<close>

fun dispatch ::
  "('x response \<Rightarrow> nat) \<Rightarrow> nat \<Rightarrow> ('p, 'x) gateway_msg \<Rightarrow> ('p, 'x) gateway \<Rightarrow> ('p, 'x) gateway" where
  "dispatch size_of now (SendResponse c rid p) s =
     (case ledger_complete size_of now \<lparr>client_id = c, request_id = rid\<rparr> p (operations s) of
        (Some done, L) \<Rightarrow>
          foldl (\<lambda>s w. queue_response_for_client (client_id w) (request_id w) (co_response done) s)
            (s\<lparr>operations := L\<rparr>) (co_waiters done)
      | (None, L) \<Rightarrow> queue_response_for_client c rid p (s\<lparr>operations := L\<rparr>))"
| "dispatch size_of now (SendEvent c p sid) s = queue_event_for_client c (client_event_session p sid) s"

section \<open>The client handler\<close>

text \<open>A new connection: its queues, its flag, its fence and its entry in the registry.\<close>

definition accept_client :: "('p, 'x) gateway \<Rightarrow> ('p, 'x) gateway" where
  "accept_client s =
     (let c = next_client_id s
      in s\<lparr>next_client_id := c + 1, registry := c # registry s,
           store := \<lparr>senders = (senders (store s))(c := \<lparr>capacity = CLIENT_EVENT_CAP, queue = [], receiving = True\<rparr>),
                     watches = (watches (store s))(c := \<lparr>flag = False, watched = True\<rparr>)\<rparr>,
           responses := (responses s)(c := \<lparr>capacity = CLIENT_RESPONSE_CAP, queue = [], receiving = True\<rparr>),
           event_state := (event_state s)(c := client_event_state_default), inflight := (inflight s)(c := []),
           namespaces := (namespaces s)(c := None), status := (status s)(c := Open)\<rparr>)"

text \<open>The end of the select loop: what the handler does before it returns.\<close>

definition farewell :: "u64 \<Rightarrow> ('p, 'x) action list" where
  "farewell c = [ActBus (UnsubscribeAll c)] @ detach_client_foreground c None ''client disconnected'' @ [ActScheduler (ScDisconnect c), ActLeave]"

definition leave_loop :: "u64 \<Rightarrow> ('p, 'x) gateway \<Rightarrow> ('p, 'x) gateway" where
  "leave_loop c s =
     set_todo c (farewell c)
       (s\<lparr>registry := removeAll c (registry s), operations := remove_waiters_for_client c (operations s),
          status := (status s)(c := Closing)\<rparr>)"

definition drop_queues :: "u64 \<Rightarrow> ('p, 'x) gateway \<Rightarrow> ('p, 'x) gateway" where
  "drop_queues c s =
     set_queue c ((senders (store s) c)\<lparr>receiving := False\<rparr>)
       (set_watch c ((watches (store s) c)\<lparr>watched := False\<rparr>)
         (s\<lparr>responses := (responses s)(c := (responses s c)\<lparr>receiving := False\<rparr>)\<rparr>))"

text \<open>One request frame.\<close>

definition receive_request ::
  "(string \<Rightarrow> 8 word list) \<Rightarrow> (request_payload \<Rightarrow> string + string) \<Rightarrow> gateway_env \<Rightarrow> nat \<Rightarrow> u64 \<Rightarrow> u32 \<Rightarrow> string option
    \<Rightarrow> request_payload \<Rightarrow> ('p, 'x) gateway \<Rightarrow> ('p, 'x) gateway" where
  "receive_request blake3 encode g now c rid op p s =
     (case reserve_request_id rid (inflight s c) of
        (False, _) \<Rightarrow> leave_loop c s
      | (True, ids) \<Rightarrow>
          let s1 = s\<lparr>inflight := (inflight s)(c := ids)\<rparr>
          in case idempotency_outcome blake3 encode now (aliases g) (namespaces s c) op p
                    \<lparr>client_id = c, request_id = rid\<rparr> (operations s) of
               None \<Rightarrow> set_todo c [ActPanic] s1
             | Some (outcome, L) \<Rightarrow>
                 set_todo c
                   (case outcome of
                      Inr Route \<Rightarrow> route_request g c rid p
                    | Inr Wait \<Rightarrow> []
                    | Inr (Respond r) \<Rightarrow> [respond c rid r]
                    | Inl message \<Rightarrow> internal_error c rid message)
                   (s1\<lparr>operations := L\<rparr>))"

text \<open>One action of the handler that needs no answer; a send waits until the mailbox has room.\<close>

definition perform :: "u64 \<Rightarrow> ('p, 'x) gateway \<Rightarrow> ('p, 'x) gateway option" where
  "perform c s =
     (case todo s c of
        [] \<Rightarrow> None
      | a # rest \<Rightarrow>
          let t = set_todo c rest s
          in case a of
               ActBus m \<Rightarrow> if length (bus_inbox s) < ACTOR_CHANNEL_CAP then Some (t\<lparr>bus_inbox := bus_inbox s @ [m]\<rparr>) else None
             | ActGateway m \<Rightarrow>
                 if length (gateway_inbox s) < ACTOR_CHANNEL_CAP then Some (t\<lparr>gateway_inbox := gateway_inbox s @ [m]\<rparr>) else None
             | ActScheduler _ \<Rightarrow> Some t
             | ActProcess _ \<Rightarrow> Some t
             | ActHoldFence rid \<Rightarrow>
                 Some (record_entries c [LHold rid]
                   (t\<lparr>event_state := (event_state s)(c := begin_client_event_hold_fence rid (event_state s c))\<rparr>))
             | ActNamespace n \<Rightarrow> Some (t\<lparr>namespaces := (namespaces s)(c := Some n)\<rparr>)
             | ActTerminate \<Rightarrow> Some t
             | ActLeave \<Rightarrow> Some (drop_queues c (t\<lparr>status := (status s)(c := Closed)\<rparr>))
             | ActPanic \<Rightarrow> Some (drop_queues c (set_todo c [] s\<lparr>status := (status s)(c := Crashed)\<rparr>))
             | _ \<Rightarrow> None)"

text \<open>An answer the handler was waiting for.\<close>

definition answer ::
  "(string \<Rightarrow> 8 word list) \<Rightarrow> u64 \<Rightarrow> 'x reply \<Rightarrow> ('p, 'x) gateway \<Rightarrow> ('p, 'x) gateway option" where
  "answer blake3 c r s =
     (case todo s c of
        [] \<Rightarrow> None
      | a # rest \<Rightarrow>
          (case resume blake3 c (event_state s c) a rest r of
             None \<Rightarrow> None
           | Some (None, acts) \<Rightarrow> Some (set_todo c acts s)
           | Some (Some (rid, named), acts) \<Rightarrow>
               Some (record_entries c [LBind rid named]
                 (set_todo c acts
                   (s\<lparr>event_state := (event_state s)(c := snd (begin_client_event_fence rid named (event_state s c)))\<rparr>)))))"

text \<open>The next response is written to the socket; then the fence it may end, and its request id, are released.\<close>

definition write_response :: "u64 \<Rightarrow> bool \<Rightarrow> ('p, 'x) gateway \<Rightarrow> ('p, 'x) gateway option" where
  "write_response c written s =
     (case queue (responses s c) of
        [] \<Rightarrow> None
      | (rid, p) # rest \<Rightarrow>
          let s1 = s\<lparr>responses := (responses s)(c := (responses s c)\<lparr>queue := rest\<rparr>)\<rparr>
          in if \<not> written then Some (leave_loop c s1)
             else
               (case complete_client_event_fence rid (queue (senders (store s) c)) (event_state s c) of
                  (st, drained, kept) \<Rightarrow>
                    Some (record_entries c (LResponse rid p # map LDiscard drained)
                      (set_queue c ((senders (store s) c)\<lparr>queue := kept\<rparr>)
                        (s1\<lparr>event_state := (event_state s)(c := st),
                            inflight := (inflight s)(c := release_request_id rid (inflight s c))\<rparr>)))))"

text \<open>The next event is checked against the current binding and written, or skipped.\<close>

definition write_event :: "u64 \<Rightarrow> bool \<Rightarrow> ('p, 'x) gateway \<Rightarrow> ('p, 'x) gateway option" where
  "write_event c written s =
     (case queue (senders (store s) c) of
        [] \<Rightarrow> None
      | e # rest \<Rightarrow>
          let s1 = set_queue c ((senders (store s) c)\<lparr>queue := rest\<rparr>) s
          in if client_event_fenced (event_state s c) then None
             else if \<not> client_event_is_deliverable (event_state s c) e then Some (record_entries c [LDiscard e] s1)
             else if written then Some (record_entries c [LEvent e] s1)
             else Some (leave_loop c (record_entries c [LLost e] s1)))"

section \<open>Turns\<close>

datatype ('p, 'x) turn =
    Accept
  | Request gateway_env nat u64 u32 "string option" request_payload
  | Perform u64
  | Answer u64 "'x reply"
  | WriteResponse u64 bool
  | WriteEvent u64 bool
  | HangUp u64
  | Bus
  | Dispatch nat
  | Elsewhere "('p, 'x) gateway_msg + 'p event_bus_msg"
  | SchedulerBinds u64 "string option"

text \<open>The event bus messages that other actors than the gateway send at any time are publications.\<close>

fun is_publication :: "'p event_bus_msg \<Rightarrow> bool" where
  "is_publication (Publish _ _) = True"
| "is_publication (PublishExcept _ _ _) = True"
| "is_publication (PublishSession _ _ _) = True"
| "is_publication (PublishSessionExcept _ _ _ _) = True"
| "is_publication _ = False"

fun awaits_scheduler :: "('p, 'x) action list \<Rightarrow> bool" where
  "awaits_scheduler (ActAwaitBinding _ # _) = True"
| "awaits_scheduler (ActAwaitSession _ # _) = True"
| "awaits_scheduler _ = False"

definition idle :: "u64 \<Rightarrow> ('p, 'x) gateway \<Rightarrow> bool" where
  "idle c s \<longleftrightarrow> status s c = Open \<and> todo s c = []"

text \<open>
  The effect of a turn, or no result when the turn is not possible.  The scheduler tells the bus the
  session of a client only while that client's handler waits for the scheduler
  (\<^verbatim>\<open>set_client_event_session\<close> in \<^verbatim>\<open>scheduler.rs\<close>).
\<close>

fun gateway_turn ::
  "(string \<Rightarrow> 8 word list) \<Rightarrow> (request_payload \<Rightarrow> string + string) \<Rightarrow> ('x response \<Rightarrow> nat) \<Rightarrow> ('p, 'x) turn
    \<Rightarrow> ('p, 'x) gateway \<Rightarrow> ('p, 'x) gateway option" where
  "gateway_turn blake3 encode size_of Accept s = (if next_client_id s = 0 then None else Some (accept_client s))"
| "gateway_turn blake3 encode size_of (Request g now c rid op p) s =
     (if idle c s \<and> \<not> client_event_fenced (event_state s c)
      then Some (receive_request blake3 encode g now c rid op p s) else None)"
| "gateway_turn blake3 encode size_of (Perform c) s = perform c s"
| "gateway_turn blake3 encode size_of (Answer c r) s = answer blake3 c r s"
| "gateway_turn blake3 encode size_of (WriteResponse c written) s =
     (if idle c s then write_response c written s else None)"
| "gateway_turn blake3 encode size_of (WriteEvent c written) s =
     (if idle c s then write_event c written s else None)"
| "gateway_turn blake3 encode size_of (HangUp c) s = (if idle c s then Some (leave_loop c s) else None)"
| "gateway_turn blake3 encode size_of Bus s =
     (case bus_inbox s of
        [] \<Rightarrow> None
      | m # rest \<Rightarrow>
          (case event_bus_handle m (subscriptions s) (store s) of
             (subs, w) \<Rightarrow> Some (s\<lparr>bus_inbox := rest, subscriptions := subs, store := w\<rparr>)))"
| "gateway_turn blake3 encode size_of (Dispatch now) s =
     (case gateway_inbox s of
        [] \<Rightarrow> None
      | m # rest \<Rightarrow> Some (dispatch size_of now m (s\<lparr>gateway_inbox := rest\<rparr>)))"
| "gateway_turn blake3 encode size_of (Elsewhere (Inl m)) s =
     (if length (gateway_inbox s) < ACTOR_CHANNEL_CAP then Some (s\<lparr>gateway_inbox := gateway_inbox s @ [m]\<rparr>) else None)"
| "gateway_turn blake3 encode size_of (Elsewhere (Inr m)) s =
     (if is_publication m \<and> length (bus_inbox s) < ACTOR_CHANNEL_CAP then Some (s\<lparr>bus_inbox := bus_inbox s @ [m]\<rparr>) else None)"
| "gateway_turn blake3 encode size_of (SchedulerBinds c named) s =
     (if awaits_scheduler (todo s c) \<and> length (bus_inbox s) < ACTOR_CHANNEL_CAP
      then Some (s\<lparr>bus_inbox := bus_inbox s @ [SetClientSession c named]\<rparr>) else None)"

fun gateway_run ::
  "(string \<Rightarrow> 8 word list) \<Rightarrow> (request_payload \<Rightarrow> string + string) \<Rightarrow> ('x response \<Rightarrow> nat) \<Rightarrow> ('p, 'x) turn list
    \<Rightarrow> ('p, 'x) gateway \<Rightarrow> ('p, 'x) gateway option" where
  "gateway_run blake3 encode size_of [] s = Some s"
| "gateway_run blake3 encode size_of (t # ts) s =
     (case gateway_turn blake3 encode size_of t s of
        None \<Rightarrow> None
      | Some s' \<Rightarrow> gateway_run blake3 encode size_of ts s')"

section \<open>What a history says\<close>

text \<open>
  Replaying a history gives the binding and the fence the client's transport has, and whether the last
  response written ended a switch of sessions, so that the discarded events that follow it are those
  the switch drains.
\<close>

fun replay_entry :: "client_event_state \<times> bool \<Rightarrow> ('p, 'x) log_entry \<Rightarrow> client_event_state \<times> bool" where
  "replay_entry (st, d) (LBind rid named) = (snd (begin_client_event_fence rid named st), False)"
| "replay_entry (st, d) (LHold rid) = (begin_client_event_hold_fence rid st, False)"
| "replay_entry (st, d) (LResponse rid p) =
     (fst (complete_client_event_fence rid ([] :: unit list) st), fence st = Some \<lparr>fence_request = rid, fence_policy = DropQueued\<rparr>)"
| "replay_entry (st, d) (LEvent e) = (st, False)"
| "replay_entry (st, d) (LDiscard e) = (st, d)"
| "replay_entry (st, d) (LLost e) = (st, False)"

definition replay :: "('p, 'x) log_entry list \<Rightarrow> client_event_state \<times> bool" where
  "replay h = foldl replay_entry (client_event_state_default, False) h"

fun entry_ok :: "client_event_state \<times> bool \<Rightarrow> ('p, 'x) log_entry \<Rightarrow> bool" where
  "entry_ok (st, d) (LBind rid named) \<longleftrightarrow> fence st = None"
| "entry_ok (st, d) (LHold rid) \<longleftrightarrow> fence st = None"
| "entry_ok (st, d) (LResponse rid p) \<longleftrightarrow> True"
| "entry_ok (st, d) (LEvent e) \<longleftrightarrow> client_event_is_deliverable st e"
| "entry_ok (st, d) (LDiscard e) \<longleftrightarrow> d \<or> \<not> event_audience_matches (binding st) (audience e)"
| "entry_ok (st, d) (LLost e) \<longleftrightarrow> True"

fun history_ok_from :: "client_event_state \<times> bool \<Rightarrow> ('p, 'x) log_entry list \<Rightarrow> bool" where
  "history_ok_from st [] \<longleftrightarrow> True"
| "history_ok_from st (e # h) \<longleftrightarrow> entry_ok st e \<and> history_ok_from (replay_entry st e) h"

definition history_ok :: "('p, 'x) log_entry list \<Rightarrow> bool" where
  "history_ok h \<longleftrightarrow> history_ok_from (client_event_state_default, False) h"

fun entry_events :: "('p, 'x) log_entry \<Rightarrow> 'p client_event list" where
  "entry_events (LEvent e) = [e]"
| "entry_events (LDiscard e) = [e]"
| "entry_events (LLost e) = [e]"
| "entry_events _ = []"

text \<open>Everything that ever entered a client's queue, in order: taken out of it, then still in it.\<close>

definition stream :: "('p, 'x) gateway \<Rightarrow> u64 \<Rightarrow> 'p client_event list" where
  "stream s c = concat (map entry_events (history s c)) @ queue (senders (store s) c)"

lemma replay_simps [simp]:
  "replay [] = (client_event_state_default, False)"
  "replay (h @ h') = foldl replay_entry (replay h) h'"
  by (simp_all add: replay_def)

lemma history_ok_from_append:
  "history_ok_from st (h @ h') \<longleftrightarrow> history_ok_from st h \<and> history_ok_from (foldl replay_entry st h) h'"
  by (induction h arbitrary: st) auto

lemma history_ok_append: "history_ok (h @ h') \<longleftrightarrow> history_ok h \<and> history_ok_from (replay h) h'"
  by (simp add: history_ok_def history_ok_from_append replay_def)

lemma history_ok_Nil [simp]: "history_ok []"
  by (simp add: history_ok_def)

lemma replay_discards:
  "foldl replay_entry (st, d) (map LDiscard es) = (st, d)"
  "history_ok_from (st, True) (map LDiscard es)"
  by (induction es) auto

lemma entry_events_discards [simp]: "concat (map (entry_events \<circ> LDiscard) es) = es"
  by (induction es) auto

section \<open>The invariant\<close>

fun sets_fence :: "('p, 'x) action \<Rightarrow> bool" where
  "sets_fence (ActHoldFence _) = True"
| "sets_fence (ActAwaitBinding _) = True"
| "sets_fence (ActAwaitSession _) = True"
| "sets_fence _ = False"

fun sends_about :: "u64 \<Rightarrow> ('p, 'x) action \<Rightarrow> bool" where
  "sends_about c (ActBus (SetClientSession c' _)) = (c' = c)"
| "sends_about c (ActBus (Subscribe c' ch tx disc)) = (c' = c \<and> tx = c \<and> disc = c)"
| "sends_about c (ActBus (Unsubscribe c' _)) = (c' = c)"
| "sends_about c (ActBus _) = False"
| "sends_about c a = (a \<noteq> ActLeave)"

text \<open>What a handler may still have to do: at most one action raises a fence, and its bus messages are about itself.\<close>

definition plan_ok :: "u64 \<Rightarrow> ('p, 'x) action list \<Rightarrow> bool" where
  "plan_ok c acts \<longleftrightarrow> length (filter sets_fence acts) \<le> 1 \<and> list_all (sends_about c) acts"

definition fence_inv :: "('p, 'x) gateway \<Rightarrow> u64 \<Rightarrow> bool" where
  "fence_inv s c \<longleftrightarrow>
     history_ok (history s c) \<and> event_state s c = fst (replay (history s c))
     \<and> (list_ex sets_fence (todo s c) \<longrightarrow> fence (event_state s c) = None)"

definition life_inv :: "('p, 'x) gateway \<Rightarrow> u64 \<Rightarrow> bool" where
  "life_inv s c \<longleftrightarrow>
     (case status s c of
        Absent \<Rightarrow> todo s c = [] \<and> history s c = [] \<and> queue (senders (store s) c) = [] \<and> \<not> receiving (senders (store s) c)
      | Open \<Rightarrow> plan_ok c (todo s c)
      | Closing \<Rightarrow> suffix (todo s c) (farewell c) \<and> todo s c \<noteq> []
      | _ \<Rightarrow> todo s c = [])
     \<and> (c \<in> set (registry s) \<longrightarrow> status s c = Open \<or> status s c = Crashed)
     \<and> (next_client_id s \<noteq> 0 \<longrightarrow> status s c \<noteq> Absent \<longrightarrow> c < next_client_id s)"

lemmas plan_defs = plan_ok_def respond_def internal_error_def detach_client_foreground_def send_scheduler_eval_def
  route_session_command_def route_handshake_def route_ping_def bind_and_respond_def prepare_client_binding_def restart_accepted_def

lemma plan_ok_channels:
  "plan_ok c (map (\<lambda>ch. ActBus (Subscribe c ch c c)) chs @ [respond c rid p])"
  "plan_ok c (map (\<lambda>ch. ActBus (Unsubscribe c ch)) chs @ [respond c rid p])"
  by (induction chs) (auto simp: plan_ok_def respond_def)

lemma plan_ok_route: "plan_ok c (route_request g c rid p)"
proof -
  have ev: "plan_ok c (route_eval g c rid input m)" for input m
    by (auto simp: route_eval_def plan_defs split: option.splits sum.splits parse_failure.splits resolved_command.splits)
  have "plan_ok c (route_run_script g c rid path input)" for path input
    by (auto simp: route_run_script_def plan_defs split: sum.splits parse_failure.splits)
  moreover have "plan_ok c (route_subscribe c rid names)" "plan_ok c (route_unsubscribe c rid names)" for names
    by (auto simp: route_subscribe_def route_unsubscribe_def plan_ok_channels
        split: sum.splits parse_event_channel_error.splits) (simp_all add: plan_defs)
  ultimately show ?thesis using ev
    by (cases p) (simp_all add: plan_defs)
qed

lemma plan_ok_simple: "plan_ok c []" "plan_ok c [respond c rid p]" "plan_ok c (internal_error c rid m)" "plan_ok c [ActPanic]"
  by (simp_all add: plan_defs)

lemma plan_ok_Cons: "plan_ok c (a # acts) \<Longrightarrow> plan_ok c acts \<and> sends_about c a \<and> (sets_fence a \<longrightarrow> \<not> list_ex sets_fence acts)"
  by (auto simp: plan_ok_def list_ex_iff filter_empty_conv split: if_splits)

lemma resume_plan:
  assumes "plan_ok c (a # rest)" "resume blake3 c st a rest r = Some (b, acts)"
  shows "plan_ok c acts \<and> (b \<noteq> None \<longrightarrow> sets_fence a \<and> \<not> list_ex sets_fence acts)
    \<and> (list_ex sets_fence acts \<longrightarrow> list_ex sets_fence (a # rest))"
proof -
  have no: "\<not> list_ex sets_fence xs \<longleftrightarrow> filter sets_fence xs = []" for xs :: "('a, 'b) action list"
    by (auto simp: list_ex_iff filter_empty_conv)
  show ?thesis
    using assms plan_ok_Cons [OF assms(1)]
    by (cases a; cases r) (auto simp: resume_def Let_def plan_defs no split: option.splits if_splits)
qed

lemma resume_farewell:
  assumes "suffix (a # rest) (farewell c)" "resume blake3 c st a rest r = Some (b, acts)"
  shows "b = None \<and> acts = rest \<and> rest \<noteq> []"
proof -
  have "a = ActAwaitDetach None \<and> rest \<noteq> []"
    using assms by (auto simp: suffix_def farewell_def detach_client_foreground_def resume_def Let_def
        append_eq_Cons_conv Cons_eq_append_conv)
  then show ?thesis using assms(2) by (cases r) (auto simp: resume_def Let_def)
qed

section \<open>Turns that leave the handlers alone\<close>

text \<open>A queue only grows at its end, and only while its receiver is there.\<close>

definition grows :: "'p event_store \<Rightarrow> 'p event_store \<Rightarrow> bool" where
  "grows w w' \<longleftrightarrow>
     (\<forall>a. prefix (queue (senders w a)) (queue (senders w' a)) \<and> receiving (senders w' a) = receiving (senders w a)
        \<and> (\<not> receiving (senders w a) \<longrightarrow> senders w' a = senders w a))"

lemma grows_refl [simp]: "grows w w"
  by (simp add: grows_def)

lemma grows_trans: "grows w w' \<Longrightarrow> grows w' w'' \<Longrightarrow> grows w w''"
  unfolding grows_def by (metis prefix_order.trans)

lemma grows_watch [simp]: "grows w (w'\<lparr>watches := f\<rparr>) \<longleftrightarrow> grows w w'" "grows (w\<lparr>watches := f\<rparr>) w' \<longleftrightarrow> grows w w'"
  by (simp_all add: grows_def)

lemma grows_send: "try_send e (senders w a) = (r, q) \<Longrightarrow> grows w (w\<lparr>senders := (senders w)(a := q)\<rparr>)"
  by (auto simp: grows_def try_send_def split: if_splits)

lemma grows_publish_loop: "grows w (snd (snd (publish_loop sessions p sid ds (st, ev, w))))"
proof (induction ds arbitrary: st ev w)
  case (Cons d ds)
  obtain r q where s: "try_send (event_for p sid) (senders w (sender (snd d))) = (r, q)" by fastforce
  note g = grows_send [OF s]
  show ?case
    using Cons.IH s by (cases d; cases r) (auto simp: Let_def intro!: grows_trans [OF g] grows_trans [OF _ Cons.IH])
qed simp

lemma grows_handle: "grows w (snd (event_bus_handle m s w))"
  using grows_publish_loop
  by (cases m) (auto simp: publish_def Let_def split_def)

definition quiet :: "('p, 'x) gateway \<Rightarrow> ('p, 'x) gateway \<Rightarrow> bool" where
  "quiet s t \<longleftrightarrow>
     history t = history s \<and> event_state t = event_state s \<and> todo t = todo s \<and> status t = status s
     \<and> next_client_id t = next_client_id s \<and> set (registry t) \<subseteq> set (registry s) \<and> grows (store s) (store t)"

lemma quiet_refl [simp]: "quiet s s"
  by (simp add: quiet_def)

lemma quiet_trans: "quiet s t \<Longrightarrow> quiet t u \<Longrightarrow> quiet s u"
  by (auto simp: quiet_def intro: grows_trans)

lemma quiet_fence: "quiet s t \<Longrightarrow> fence_inv s c \<Longrightarrow> fence_inv t c"
  by (auto simp: quiet_def fence_inv_def)

lemma quiet_life: "quiet s t \<Longrightarrow> life_inv s c \<Longrightarrow> life_inv t c"
  by (cases "status s c") (auto simp: quiet_def life_inv_def grows_def)

lemma quiet_stream: "quiet s t \<Longrightarrow> prefix (stream s c) (stream t c)"
  by (auto simp: quiet_def stream_def grows_def)

lemmas gateway_defs = record_entries_def set_todo_def set_queue_def set_watch_def

lemma quiet_evict: "quiet s (evict_client c s)"
  by (auto simp: quiet_def evict_client_def gateway_defs)

lemma quiet_queue_response: "quiet s (queue_response_for_client c rid p s)"
  using quiet_evict by (auto simp: queue_response_for_client_def quiet_def split: prod.splits option.splits)

lemma quiet_queue_event: "quiet s (queue_event_for_client c e s)"
  using quiet_evict
  by (auto simp: queue_event_for_client_def gateway_defs quiet_def split: prod.splits option.splits intro: grows_send)

lemma quiet_fold: "(\<And>s w. quiet s (f s w)) \<Longrightarrow> quiet s (foldl f s ws)"
  by (induction ws arbitrary: s) (auto intro: quiet_trans)

lemma quiet_dispatch: "quiet s (dispatch size_of now m s)"
proof (cases m)
  case (SendResponse c rid p)
  have u: "quiet (s\<lparr>operations := L\<rparr>) t \<Longrightarrow> quiet s t" for t L by (simp add: quiet_def)
  show ?thesis unfolding SendResponse
    by (auto split: prod.splits option.splits intro: u [OF quiet_fold] u [OF quiet_queue_response] quiet_queue_response)
qed (simp add: quiet_queue_event)

section \<open>Turns of one handler\<close>

definition confined :: "u64 \<Rightarrow> ('p, 'x) gateway \<Rightarrow> ('p, 'x) gateway \<Rightarrow> bool" where
  "confined c0 s t \<longleftrightarrow>
     (\<forall>c. c \<noteq> c0 \<longrightarrow> history t c = history s c \<and> event_state t c = event_state s c \<and> todo t c = todo s c
        \<and> status t c = status s c \<and> senders (store t) c = senders (store s) c)
     \<and> set (registry t) \<subseteq> set (registry s) \<and> next_client_id t = next_client_id s"

definition client_inv :: "('p, 'x) gateway \<Rightarrow> u64 \<Rightarrow> bool" where
  "client_inv s c \<longleftrightarrow> fence_inv s c \<and> life_inv s c"

lemma confined_inv: "confined c0 s t \<Longrightarrow> c \<noteq> c0 \<Longrightarrow> client_inv s c \<Longrightarrow> client_inv t c"
  by (cases "status s c") (auto simp: confined_def client_inv_def fence_inv_def life_inv_def)

lemma confined_stream: "confined c0 s t \<Longrightarrow> c \<noteq> c0 \<Longrightarrow> stream t c = stream s c"
  by (simp add: confined_def stream_def)

text \<open>A handler's turn keeps the invariant when it does so for its own client.\<close>

definition safe_turn :: "u64 \<Rightarrow> ('p, 'x) gateway \<Rightarrow> ('p, 'x) gateway \<Rightarrow> bool" where
  "safe_turn c s t \<longleftrightarrow> confined c s t \<and> client_inv t c \<and> prefix (stream s c) (stream t c)"

lemma confined_leave: "confined c s (leave_loop c s)"
  by (auto simp: confined_def leave_loop_def gateway_defs)

lemma confined_trans: "confined c s t \<Longrightarrow> confined c t u \<Longrightarrow> confined c s u"
  by (auto simp: confined_def)

lemma no_fence_farewell: "suffix acts (farewell c) \<Longrightarrow> \<not> list_ex sets_fence acts"
  by (auto simp: suffix_def farewell_def detach_client_foreground_def append_eq_Cons_conv Cons_eq_append_conv append_eq_append_conv2)

lemma leave_client:
  assumes "fence_inv s c" "status s c \<noteq> Absent" "life_inv s c"
  shows "client_inv (leave_loop c s) c" "stream (leave_loop c s) c = stream s c"
  using assms no_fence_farewell [of "farewell c" c]
  by (auto simp: client_inv_def fence_inv_def life_inv_def leave_loop_def gateway_defs stream_def) (simp_all add: farewell_def)

lemma safe_leave: "idle c s \<Longrightarrow> client_inv s c \<Longrightarrow> safe_turn c s (leave_loop c s)"
  using leave_client [of s c] by (auto simp: safe_turn_def idle_def client_inv_def confined_leave)

lemma life_Open: "status s c = Open \<Longrightarrow> life_inv s c \<longleftrightarrow> plan_ok c (todo s c) \<and> (next_client_id s \<noteq> 0 \<longrightarrow> c < next_client_id s)"
  by (auto simp: life_inv_def)

lemma safe_request:
  assumes "idle c s" "\<not> client_event_fenced (event_state s c)" "client_inv s c"
  shows "safe_turn c s (receive_request blake3 encode g now c rid op p s)"
proof -
  let ?f = "\<lambda>acts ids L. set_todo c acts (s\<lparr>inflight := (inflight s)(c := ids), operations := L\<rparr>)"
  have st: "safe_turn c s (?f acts ids L)" if "plan_ok c acts" for acts ids L
    using assms that
    by (auto simp: safe_turn_def confined_def client_inv_def idle_def client_event_fenced_def life_Open fence_inv_def
        gateway_defs stream_def)
  have pa: "safe_turn c s (set_todo c [ActPanic] (s\<lparr>inflight := (inflight s)(c := ids)\<rparr>))" for ids
    using st [OF plan_ok_simple(4), of "operations s" ids] by simp
  show ?thesis
    using safe_leave [OF assms(1,3)]
    by (auto simp: receive_request_def Let_def split: prod.splits bool.splits option.splits sum.splits begin_outcome.splits
        intro!: st pa plan_ok_route plan_ok_simple)
qed

lemma farewell_Cons:
  assumes "suffix (a # rest) (farewell c)"
  shows "suffix rest (farewell c)" "rest = [] \<longleftrightarrow> a = ActLeave" "\<not> sets_fence a" "a \<noteq> ActPanic"
  using assms
  by (auto simp: suffix_def farewell_def detach_client_foreground_def append_eq_Cons_conv Cons_eq_append_conv)

text \<open>What is left to do after an action that does not touch the fence.\<close>

lemma rest_inv:
  assumes "client_inv s c" "todo s c = a # rest" "a \<noteq> ActLeave" "status s c = Open \<or> status s c = Closing"
    "status t c = status s c" "todo t c = rest" "history t c = history s c" "event_state t c = event_state s c"
    "next_client_id t = next_client_id s" "set (registry t) \<subseteq> set (registry s)"
  shows "client_inv t c"
  using assms plan_ok_Cons [of c a rest] farewell_Cons [of a rest c]
  by (auto simp: client_inv_def fence_inv_def life_inv_def)

lemma busy_status:
  "client_inv s c \<Longrightarrow> todo s c \<noteq> [] \<Longrightarrow> status s c = Open \<or> status s c = Closing"
  by (cases "status s c") (auto simp: client_inv_def life_inv_def)

lemma perform_fence:
  assumes "client_inv s c" "todo s c = ActHoldFence rid # rest" "perform c s = Some t"
  shows "client_inv t c"
proof -
  have st: "status s c = Open" using assms(1,2) farewell_Cons(3) [of "ActHoldFence rid" rest c] busy_status [of s c]
    by (auto simp: client_inv_def life_inv_def)
  have f: "fence (event_state s c) = None" and plan: "plan_ok c rest" "\<not> list_ex sets_fence rest"
    using assms(1,2) st plan_ok_Cons [of c "ActHoldFence rid" rest] by (auto simp: client_inv_def fence_inv_def life_inv_def)
  obtain d where "replay (history s c) = (event_state s c, d)"
    using assms(1) by (cases "replay (history s c)") (auto simp: client_inv_def fence_inv_def)
  then show ?thesis
    using assms st f plan
    by (auto simp: perform_def Let_def client_inv_def fence_inv_def life_inv_def gateway_defs history_ok_append)
qed

lemma safe_perform:
  assumes "client_inv s c" "perform c s = Some t"
  shows "safe_turn c s t"
proof -
  obtain a rest where td: "todo s c = a # rest" using assms(2) by (auto simp: perform_def split: list.splits)
  note st = busy_status [OF assms(1)]
  have c1: "confined c s t" "stream t c = stream s c"
    using assms(2) td
    by (cases a; auto simp: perform_def Let_def confined_def gateway_defs drop_queues_def stream_def split: if_splits)+
  have "client_inv t c"
  proof (cases a)
    case (ActHoldFence rid)
    then show ?thesis using perform_fence assms td by blast
  next
    case ActLeave
    then have "status s c = Closing" "rest = []"
      using assms(1) td st plan_ok_Cons [of c a rest] farewell_Cons [of a rest c] by (auto simp: client_inv_def life_inv_def)
    then show ?thesis using assms td ActLeave
      by (auto simp: perform_def Let_def client_inv_def fence_inv_def life_inv_def gateway_defs drop_queues_def)
  next
    case ActPanic
    then have "status s c = Open"
      using assms(1) td st farewell_Cons(4) [of a rest c] by (auto simp: client_inv_def life_inv_def)
    then show ?thesis using assms td ActPanic
      by (auto simp: perform_def Let_def client_inv_def fence_inv_def life_inv_def gateway_defs drop_queues_def)
  qed (use assms td st in \<open>auto simp: perform_def Let_def gateway_defs split: if_splits intro!: rest_inv [OF assms(1) td]\<close>)
  then show ?thesis using c1 by (simp add: safe_turn_def)
qed

lemma safe_answer:
  assumes "client_inv s c" "answer blake3 c r s = Some t"
  shows "safe_turn c s t"
proof -
  obtain a rest b acts where td: "todo s c = a # rest" and re: "resume blake3 c (event_state s c) a rest r = Some (b, acts)"
    using assms(2) by (auto simp: answer_def split: list.splits option.splits)
  have t: "t = (case b of None \<Rightarrow> set_todo c acts s
      | Some (rid, named) \<Rightarrow> record_entries c [LBind rid named] (set_todo c acts
          (s\<lparr>event_state := (event_state s)(c := snd (begin_client_event_fence rid named (event_state s c)))\<rparr>)))"
    using assms(2) td re by (auto simp: answer_def split: option.splits)
  have c1: "confined c s t" "stream t c = stream s c"
    unfolding t by (auto simp: confined_def gateway_defs stream_def split: option.splits)
  obtain d where rp: "replay (history s c) = (event_state s c, d)"
    using assms(1) by (cases "replay (history s c)") (auto simp: client_inv_def fence_inv_def)
  have "client_inv t c"
  proof (cases "status s c = Open")
    case True
    then have plan: "plan_ok c (a # rest)" using assms(1) td by (simp add: client_inv_def life_inv_def)
    note rs = resume_plan [OF plan re]
    have "list_ex sets_fence (a # rest) \<longrightarrow> fence (event_state s c) = None"
      using assms(1) td unfolding client_inv_def fence_inv_def by metis
    then show ?thesis using True assms(1) rs rp
      by (auto simp: t client_inv_def fence_inv_def life_Open gateway_defs history_ok_append split: option.splits)
  next
    case False
    then have cl: "status s c = Closing" using busy_status assms(1) td by fastforce
    then have sf: "suffix (a # rest) (farewell c)" using assms(1) td by (simp add: client_inv_def life_inv_def)
    note rs = resume_farewell [OF sf re]
    then show ?thesis using cl assms(1) td farewell_Cons(1) [OF sf] no_fence_farewell
      by (auto simp: t client_inv_def fence_inv_def life_inv_def gateway_defs)
  qed
  then show ?thesis using c1 by (simp add: safe_turn_def)
qed

lemma complete_fence_unit: "fst (complete_client_event_fence rid es st) = fst (complete_client_event_fence rid ([] :: unit list) st)"
  by (auto simp: complete_client_event_fence_def split: option.splits)

lemma complete_fence_parts:
  "complete_client_event_fence rid es st = (st', drained, kept) \<Longrightarrow>
     es = drained @ kept \<and> (drained \<noteq> [] \<longrightarrow> fence st = Some \<lparr>fence_request = rid, fence_policy = DropQueued\<rparr>)"
  by (auto simp: complete_client_event_fence_def split: option.splits if_splits)

lemma safe_write_response:
  assumes "client_inv s c" "idle c s" "write_response c written s = Some t"
  shows "safe_turn c s t"
proof -
  obtain rid p rest where q: "queue (responses s c) = (rid, p) # rest"
    using assms(3) by (auto simp: write_response_def split: list.splits)
  let ?s1 = "s\<lparr>responses := (responses s)(c := (responses s c)\<lparr>queue := rest\<rparr>)\<rparr>"
  show ?thesis
  proof (cases written)
    case False
    then have "t = leave_loop c ?s1" using assms(3) q by (simp add: write_response_def)
    moreover have "client_inv ?s1 c" "idle c ?s1" "confined c s ?s1" "stream ?s1 c = stream s c"
      using assms(1,2) by (auto simp: client_inv_def fence_inv_def life_inv_def idle_def confined_def stream_def)
    ultimately show ?thesis using safe_leave [of c ?s1] confined_trans by (auto simp: safe_turn_def)
  next
    case True
    obtain st drained kept
      where cf: "complete_client_event_fence rid (queue (senders (store s) c)) (event_state s c) = (st, drained, kept)"
      using prod_cases3 by blast
    note parts = complete_fence_parts [OF cf]
    have t: "t = record_entries c (LResponse rid p # map LDiscard drained)
        (set_queue c ((senders (store s) c)\<lparr>queue := kept\<rparr>)
          (?s1\<lparr>event_state := (event_state s)(c := st), inflight := (inflight s)(c := release_request_id rid (inflight s c))\<rparr>))"
      using assms(3) q True cf by (simp add: write_response_def)
    have st: "fst (complete_client_event_fence rid ([] :: unit list) (event_state s c)) = st"
      using complete_fence_unit [of rid "queue (senders (store s) c)" "event_state s c"] cf by simp
    obtain d where rp: "replay (history s c) = (event_state s c, d)"
      using assms(1) by (cases "replay (history s c)") (auto simp: client_inv_def fence_inv_def)
    have "history_ok_from (st, fence (event_state s c) = Some \<lparr>fence_request = rid, fence_policy = DropQueued\<rparr>) (map LDiscard drained)"
      using parts replay_discards(2) [of st drained] by (cases "drained = []") auto
    then have "client_inv t c"
      using assms(1,2) rp st
      by (simp add: t client_inv_def fence_inv_def life_Open idle_def gateway_defs history_ok_append replay_discards)
    moreover have "confined c s t" "stream t c = stream s c"
      using parts by (auto simp: t confined_def gateway_defs stream_def)
    ultimately show ?thesis by (simp add: safe_turn_def)
  qed
qed

lemma safe_write_event:
  assumes "client_inv s c" "idle c s" "write_event c written s = Some t"
  shows "safe_turn c s t"
proof -
  obtain e rest where q: "queue (senders (store s) c) = e # rest"
    using assms(3) by (auto simp: write_event_def split: list.splits)
  let ?s1 = "set_queue c ((senders (store s) c)\<lparr>queue := rest\<rparr>) s"
  have s1: "safe_turn c s (record_entries c [l] ?s1)"
    if "entry_ok (replay (history s c)) l" "replay_entry (replay (history s c)) l = (event_state s c, d)" "entry_events l = [e]" for l d
    using assms(1,2) that q
    by (auto simp: safe_turn_def confined_def client_inv_def fence_inv_def life_Open idle_def gateway_defs history_ok_append stream_def)
  obtain d where rp: "replay (history s c) = (event_state s c, d)"
    using assms(1) by (cases "replay (history s c)") (auto simp: client_inv_def fence_inv_def)
  have f: "fence (event_state s c) = None"
    using assms(3) q by (auto simp: write_event_def Let_def client_event_fenced_def split: if_splits)
  have lost: "safe_turn c s (leave_loop c (record_entries c [LLost e] ?s1))"
  proof -
    have "safe_turn c s (record_entries c [LLost e] ?s1)" using s1 [of "LLost e" False] rp by simp
    moreover have "idle c (record_entries c [LLost e] ?s1)" using assms(2) by (simp add: idle_def gateway_defs)
    ultimately show ?thesis
      using safe_leave [of c "record_entries c [LLost e] ?s1"] confined_trans unfolding safe_turn_def
      by (meson prefix_order.trans)
  qed
  show ?thesis
    using assms(3) q f lost s1 [of "LEvent e" False] s1 [of "LDiscard e" d] rp
    by (auto simp: write_event_def client_event_is_deliverable_def Let_def split: if_splits)
qed

section \<open>Every run\<close>

definition gateway_inv :: "('p, 'x) gateway \<Rightarrow> bool" where
  "gateway_inv s \<longleftrightarrow> (\<forall>c. client_inv s c)"

definition extends :: "('p, 'x) gateway \<Rightarrow> ('p, 'x) gateway \<Rightarrow> bool" where
  "extends s t \<longleftrightarrow> (\<forall>c. prefix (stream s c) (stream t c))"

lemma gateway_inv_start: "gateway_inv gateway_start"
  by (auto simp: gateway_inv_def client_inv_def fence_inv_def life_inv_def gateway_start_def)

lemma quiet_turn: "quiet s t \<Longrightarrow> gateway_inv s \<Longrightarrow> gateway_inv t \<and> extends s t"
  by (auto simp: gateway_inv_def client_inv_def extends_def intro: quiet_fence quiet_life quiet_stream)

lemma safe_turn_inv: "safe_turn c s t \<Longrightarrow> gateway_inv s \<Longrightarrow> gateway_inv t \<and> extends s t"
  unfolding gateway_inv_def safe_turn_def extends_def by (metis confined_inv confined_stream prefix_order.order_refl)

lemma word_less_next: "(c :: u64) + 1 \<noteq> 0 \<Longrightarrow> c < c + 1"
proof -
  assume nz: "c + 1 \<noteq> 0"
  have "unat c + 1 \<noteq> 2 ^ 64"
  proof
    assume "unat c + 1 = 2 ^ 64"
    then have "word_of_nat (unat c + 1) = (word_of_nat (2 ^ 64) :: u64)" by (rule arg_cong)
    then show False using nz by simp
  qed
  then have "unat c + 1 < 2 ^ 64" using unsigned_less [of c, where 'a = nat] by simp
  then show ?thesis using unat_add_fits [of c 1] by (simp add: word_less_nat_alt)
qed

lemma accept_turn:
  assumes "gateway_inv s" "next_client_id s \<noteq> 0"
  shows "gateway_inv (accept_client s) \<and> extends s (accept_client s)"
proof -
  let ?n = "next_client_id s"
  have inv: "client_inv s c" for c using assms(1) by (simp add: gateway_inv_def)
  have fresh: "status s ?n = Absent" using inv [of ?n] assms(2) by (auto simp: client_inv_def life_inv_def)
  have less: "?n + 1 \<noteq> 0 \<Longrightarrow> c < ?n \<Longrightarrow> c < ?n + 1" for c using word_less_next [of ?n] by simp
  have "client_inv (accept_client s) c \<and> prefix (stream s c) (stream (accept_client s) c)" for c
  proof (cases "c = ?n")
    case True
    then show ?thesis using fresh inv [of ?n] less
      by (auto simp: accept_client_def Let_def client_inv_def fence_inv_def life_inv_def stream_def plan_ok_simple word_less_next)
  next
    case False
    then show ?thesis using inv [of c] less assms(2)
      by (cases "status s c") (auto simp: accept_client_def Let_def client_inv_def fence_inv_def life_inv_def stream_def)
  qed
  then show ?thesis by (simp add: gateway_inv_def extends_def)
qed

lemma gateway_turn_inv:
  assumes "gateway_inv s" "gateway_turn blake3 encode size_of t s = Some s'"
  shows "gateway_inv s' \<and> extends s s'"
proof -
  have inv: "client_inv s c" for c using assms(1) by (simp add: gateway_inv_def)
  note safe = safe_turn_inv [OF _ assms(1)] and quiet' = quiet_turn [OF _ assms(1)]
  show ?thesis
  proof (cases t)
    case Accept
    then show ?thesis using accept_turn assms by (auto split: if_splits)
  next
    case (Request g now c rid op p)
    then show ?thesis using assms(2) safe [OF safe_request [OF _ _ inv]] by (auto split: if_splits)
  next
    case (Perform c)
    then show ?thesis using assms(2) safe [OF safe_perform [OF inv]] by simp
  next
    case (Answer c r)
    then show ?thesis using assms(2) safe [OF safe_answer [OF inv]] by simp
  next
    case (WriteResponse c written)
    then show ?thesis using assms(2) safe [OF safe_write_response [OF inv]] by (auto split: if_splits)
  next
    case (WriteEvent c written)
    then show ?thesis using assms(2) safe [OF safe_write_event [OF inv]] by (auto split: if_splits)
  next
    case (HangUp c)
    then show ?thesis using assms(2) safe [OF safe_leave [OF _ inv]] by (auto split: if_splits)
  next
    case Bus
    have "quiet s (s\<lparr>bus_inbox := rest, subscriptions := subs, store := w\<rparr>)"
      if "event_bus_handle m (subscriptions s) (store s) = (subs, w)" for m rest subs w
      using grows_handle [of "store s" m "subscriptions s"] that by (simp add: quiet_def)
    then show ?thesis using Bus assms(2) quiet' by (auto split: list.splits prod.splits)
  next
    case (Dispatch now)
    have "quiet s (dispatch size_of now m (s\<lparr>gateway_inbox := rest\<rparr>))" for m rest
      by (rule quiet_trans [OF _ quiet_dispatch]) (simp add: quiet_def)
    then show ?thesis using Dispatch assms(2) quiet' by (auto split: list.splits)
  next
    case (Elsewhere x)
    then show ?thesis using assms(2) by (cases x) (auto split: if_splits intro!: quiet' simp: quiet_def)
  next
    case (SchedulerBinds c named)
    then show ?thesis using assms(2) by (auto split: if_splits intro!: quiet' simp: quiet_def)
  qed
qed

lemma gateway_run_inv:
  "gateway_run blake3 encode size_of ts s = Some s' \<Longrightarrow> gateway_inv s \<Longrightarrow> gateway_inv s' \<and> extends s s'"
proof (induction ts arbitrary: s)
  case (Cons t ts)
  then obtain u where u: "gateway_turn blake3 encode size_of t s = Some u" "gateway_run blake3 encode size_of ts u = Some s'"
    by (auto split: option.splits)
  have "gateway_inv u" "extends s u" "gateway_inv s'" "extends u s'"
    using gateway_turn_inv [OF Cons.prems(2) u(1)] Cons.IH [OF u(2)] by auto
  then show ?case unfolding extends_def by (meson prefix_order.trans)
qed (simp add: extends_def)

section \<open>Fences in a history\<close>

fun is_bind :: "('p, 'x) log_entry \<Rightarrow> bool" where
  "is_bind (LBind _ _) = True"
| "is_bind _ = False"

fun raises :: "('p, 'x) log_entry \<Rightarrow> client_event_fence option" where
  "raises (LBind rid _) = Some \<lparr>fence_request = rid, fence_policy = DropQueued\<rparr>"
| "raises (LHold rid) = Some \<lparr>fence_request = rid, fence_policy = HoldQueued\<rparr>"
| "raises _ = None"

definition answered :: "u32 \<Rightarrow> ('p, 'x) log_entry list \<Rightarrow> bool" where
  "answered rid h \<longleftrightarrow> (\<exists>p. LResponse rid p \<in> set h)"

lemma answered_append [simp]: "answered rid (h @ h') \<longleftrightarrow> answered rid h \<or> answered rid h'"
  by (auto simp: answered_def)

lemma answered_Cons [simp]: "answered rid (e # h) \<longleftrightarrow> (\<exists>p. e = LResponse rid p) \<or> answered rid h"
  by (auto simp: answered_def)

text \<open>A fence stands until the response of its request has been written.\<close>

lemma fence_stands:
  assumes "history_ok (pre @ x # mid)" "raises x = Some f"
  shows "fence (fst (replay (pre @ x # mid))) = Some f \<or> answered (fence_request f) mid"
  using assms(1)
proof (induction mid rule: rev_induct)
  case Nil
  then show ?case using assms(2)
    by (cases x; cases "replay pre") (auto simp: begin_client_event_fence_def begin_client_event_hold_fence_def)
next
  case (snoc e mid)
  have ok: "history_ok ((pre @ x # mid) @ [e])" using snoc.prems by simp
  obtain st d where r: "replay (pre @ x # mid) = (st, d)" by fastforce
  from ok have e: "entry_ok (st, d) e" and "history_ok (pre @ x # mid)" unfolding history_ok_append r by simp_all
  with snoc.IH r have "fence st = Some f \<or> answered (fence_request f) mid" by simp
  moreover have "replay (pre @ x # mid @ [e]) = replay_entry (st, d) e"
    using replay_simps(2) [of "pre @ x # mid" "[e]"] r by simp
  ultimately show ?case using e
    by (cases e) (auto simp: complete_client_event_fence_def split: if_splits)
qed

lemma binding_origin:
  "binding (fst (replay h)) = Some named \<Longrightarrow>
     \<exists>pre rid mid. h = pre @ LBind rid named # mid \<and> \<not> list_ex is_bind mid"
proof (induction h rule: rev_induct)
  case Nil
  then show ?case by (simp add: client_event_state_default_def)
next
  case (snoc e h)
  obtain st d where r: "replay h = (st, d)" by fastforce
  show ?case
  proof (cases "is_bind e")
    case True
    then obtain rid n where e: "e = LBind rid n" by (cases e) auto
    then have "n = named" using snoc.prems r by (simp add: begin_client_event_fence_def)
    then show ?thesis using e by (intro exI [of _ h] exI [of _ rid] exI [of _ "[]"]) simp
  next
    case False
    then have "binding (fst (replay h)) = Some named"
      using snoc.prems r
      by (cases e) (auto simp: begin_client_event_hold_fence_def complete_client_event_fence_def split: option.splits if_splits)
    then obtain pre rid mid where "h = pre @ LBind rid named # mid" "\<not> list_ex is_bind mid" using snoc.IH by blast
    then show ?thesis using False by (intro exI [of _ pre] exI [of _ rid] exI [of _ "mid @ [e]"]) simp
  qed
qed

lemma drain_origin:
  "snd (replay h) \<Longrightarrow>
     \<exists>pre rid p es. h = pre @ LResponse rid p # map LDiscard es
       \<and> fence (fst (replay pre)) = Some \<lparr>fence_request = rid, fence_policy = DropQueued\<rparr>"
proof (induction h rule: rev_induct)
  case (snoc e h)
  obtain st d where r: "replay h = (st, d)" by fastforce
  from snoc.prems r consider (resp) rid p where "e = LResponse rid p" "fence st = Some \<lparr>fence_request = rid, fence_policy = DropQueued\<rparr>"
    | (disc) x where "e = LDiscard x" "d" by (cases e) auto
  then show ?case
  proof cases
    case resp
    then show ?thesis using r by (intro exI [of _ h] exI [of _ rid] exI [of _ p] exI [of _ "[]"]) simp
  next
    case disc
    then obtain pre rid p es where "h = pre @ LResponse rid p # map LDiscard es"
      "fence (fst (replay pre)) = Some \<lparr>fence_request = rid, fence_policy = DropQueued\<rparr>"
      using snoc.IH r by auto
    then show ?thesis using disc by (intro exI [of _ pre] exI [of _ rid] exI [of _ p] exI [of _ "es @ [x]"]) simp
  qed
qed simp

lemma history_split:
  assumes "history_ok h" "h = before @ e # after"
  shows "entry_ok (replay before) e" "history_ok before"
  using assms history_ok_append [of before "e # after"] by auto

section \<open>Properties\<close>

text \<open>
  C12. A switch of sessions is a barrier the client can rely on, whatever the interleaving of the
  handlers, the event bus, the dispatch loop and the other actors.  Whenever an event is written to a
  client, every fence raised before has been answered: nothing, global events included, is written
  between the acceptance of a binding (or of a foreground attachment) and the response that announces
  it.  And an event owned by a session is written only to a client that has been told, by the response
  to its last binding, that it is attached to that very session or that it is anonymous.
\<close>

theorem session_switch_is_barrier:
  assumes "gateway_run blake3 encode size_of ts gateway_start = Some s" "history s c = before @ LEvent e # after"
  shows "(\<forall>pre x mid f. before = pre @ x # mid \<and> raises x = Some f \<longrightarrow> answered (fence_request f) mid)
    \<and> (\<forall>owner. audience e = AudSession owner \<longrightarrow>
         (\<exists>pre rid named mid. before = pre @ LBind rid named # mid \<and> \<not> list_ex is_bind mid \<and> answered rid mid
            \<and> (named = None \<or> owner = named)))"
proof -
  have "history_ok (history s c)"
    using gateway_run_inv [OF assms(1) gateway_inv_start] by (simp add: gateway_inv_def client_inv_def fence_inv_def)
  note sp = history_split [OF this assms(2)]
  obtain st d where r: "replay before = (st, d)" by fastforce
  then have f: "fence st = None" "event_audience_matches (binding st) (audience e)"
    using sp(1) by (auto simp: client_event_is_deliverable_def)
  have ans: "answered (fence_request f) mid" if "before = pre @ x # mid" "raises x = Some f" for pre x mid f
    using fence_stands [of pre x mid f] sp(2) that r f(1) by simp
  have "\<exists>pre rid named mid. before = pre @ LBind rid named # mid \<and> \<not> list_ex is_bind mid \<and> answered rid mid
      \<and> (named = None \<or> owner = named)" if own: "audience e = AudSession owner" for owner
  proof -
    obtain named where b: "binding st = Some named" "named = None \<or> owner = named"
      using f(2) own by (auto simp: event_audience_matches_def split: option.splits)
    then obtain pre rid mid where o: "before = pre @ LBind rid named # mid" "\<not> list_ex is_bind mid"
      using binding_origin [of before named] r by auto
    then show ?thesis using b ans [OF o(1)] by fastforce
  qed
  then show ?thesis using ans by blast
qed

text \<open>A client connects, attaches to session \<open>a\<close>, and gets an event of that session.\<close>

definition sample_env :: gateway_env where
  "sample_env = \<lparr>aliases = [], execution_admission_closed = False, is_execution_ready = True, version = ''v'', instance_id = ''i'', generation_id = ''g''\<rparr>"

definition sample_binding :: session_binding where
  "sample_binding = \<lparr>sb_session_id = ''a'', sb_named_session_id = Some ''a'', sb_scope = ScopeHash [], sb_incarnation = 0\<rparr>"

definition sample_turns :: "(string, unit) turn list" where
  "sample_turns =
     [Accept, Request sample_env 0 1 7 None (ReqAttachSession ''a'' False), Perform 1, Answer 1 (SessionDone ack (Some sample_binding)),
      Perform 1, Perform 1, Answer 1 Done, Perform 1, Perform 1, Dispatch 0, WriteResponse 1 True,
      Elsewhere (Inl (SendEvent 1 ''e'' (Some ''a''))), Dispatch 0, WriteEvent 1 True]"

lemmas sample_simps = sample_turns_def sample_env_def sample_binding_def gateway_start_def accept_client_def idle_def
  client_event_fenced_def client_event_state_default_def receive_request_def reserve_request_id_def MAX_INFLIGHT_REQUESTS_PER_CLIENT_def
  idempotency_outcome_def route_session_command_def perform_def answer_def resume_def bind_and_respond_def prepare_client_binding_def
  detach_client_foreground_def respond_def begin_client_event_fence_def gateway_defs ACTOR_CHANNEL_CAP_def
  queue_response_for_client_def try_send_def CLIENT_RESPONSE_CAP_def CLIENT_EVENT_CAP_def ledger_complete_def ledger_new_def
  write_response_def complete_client_event_fence_def release_request_id_def queue_event_for_client_def client_event_can_enqueue_def
  client_event_session_def event_audience_matches_def write_event_def client_event_is_deliverable_def Let_def

lemma sample_run:
  "\<exists>s. gateway_run (\<lambda>_. []) (\<lambda>_. Inr []) (\<lambda>_. 0) sample_turns gateway_start = Some s
     \<and> history s 1 = [LBind 7 (Some ''a''), LResponse 7 ack, LEvent \<lparr>payload = ''e'', audience = AudSession (Some ''a'')\<rparr>]"
  by (simp add: sample_simps)

theorem session_switch_is_barrier_witness:
  "\<exists>s e. gateway_run (\<lambda>_. []) (\<lambda>_. Inr []) (\<lambda>_. 0) sample_turns gateway_start = Some s
     \<and> history s 1 = [LBind 7 (Some ''a''), LResponse 7 ack] @ LEvent e # [] \<and> audience e = AudSession (Some ''a'')
     \<and> (\<exists>pre rid named mid. [LBind 7 (Some ''a''), LResponse 7 ack] = pre @ (LBind rid named :: (string, unit) log_entry) # mid
          \<and> answered rid mid \<and> (named = None \<or> Some ''a'' = named))"
proof -
  let ?e = "\<lparr>payload = ''e'', audience = AudSession (Some ''a'')\<rparr>"
  obtain s where s: "gateway_run (\<lambda>_. []) (\<lambda>_. Inr []) (\<lambda>_. 0) sample_turns gateway_start = Some s"
    "history s 1 = [LBind 7 (Some ''a''), LResponse 7 ack] @ LEvent ?e # []"
    using sample_run by auto
  from session_switch_is_barrier [OF s]
  have "\<exists>pre rid named mid. [LBind 7 (Some ''a''), LResponse 7 ack] = pre @ (LBind rid named :: (string, unit) log_entry) # mid
      \<and> answered rid mid \<and> (named = None \<or> Some ''a'' = named)" by auto
  then show ?thesis using s by (intro exI [of _ s] exI [of _ ?e]) simp
qed



end
