(* ===== verification/GatewayClose.thy ===== *)
theory GatewayClose
  imports GatewayRun
begin

text \<open>
  What the gateway keeps of a client whose connection has ended: nothing, once the event bus has
  handled the last message of the client's handler.  The invariant is over the order of the messages
  in the mailbox of the bus.
\<close>

section \<open>What remains of a closed client\<close>

fun about :: "u64 \<Rightarrow> 'p event_bus_msg \<Rightarrow> bool" where
  "about c (SetClientSession c' _) = (c' = c)"
| "about c (Subscribe c' _ _ _) = (c' = c)"
| "about c _ = False"

definition forget_step :: "u64 \<Rightarrow> bool \<Rightarrow> 'p event_bus_msg \<Rightarrow> bool" where
  "forget_step c g m = (m = UnsubscribeAll c \<or> (g \<and> \<not> about c m))"

text \<open>Whether the bus knows nothing of a client once it has handled its mailbox.\<close>

definition forgotten :: "u64 \<Rightarrow> ('p, 'x) gateway \<Rightarrow> bool" where
  "forgotten c s = foldl (forget_step c) (drops_client (subscriptions s) c) (bus_inbox s)"

definition ended :: "('p, 'x) gateway \<Rightarrow> u64 \<Rightarrow> bool" where
  "ended s c \<longleftrightarrow> status s c = Closing \<or> status s c = Closed"

definition stale :: "('p, 'x) gateway \<Rightarrow> u64 \<Rightarrow> bool" where
  "stale s c \<longleftrightarrow> ended s c \<and> ActBus (UnsubscribeAll c) \<notin> set (todo s c)"

definition has_waiter :: "'x ok_payload ledger \<Rightarrow> u64 \<Rightarrow> bool" where
  "has_waiter L c \<longleftrightarrow> list_ex (\<lambda>(w, k). client_id w = c) (pending_requests L)"

definition forget_inv :: "('p, 'x) gateway \<Rightarrow> bool" where
  "forget_inv s \<longleftrightarrow> wf_subs (subscriptions s) \<and> (\<forall>c. stale s c \<longrightarrow> forgotten c s)
     \<and> (\<forall>c. ended s c \<longrightarrow> \<not> has_waiter (operations s) c)"

lemma drops_foldl: "wf_subs s \<Longrightarrow> drops_client s c \<Longrightarrow> drops_client (foldl (\<lambda>s c. unsubscribe_all c s) s cs) c"
  by (auto simp: drops_client_def)

lemma handle_subs:
  assumes "wf_subs s"
  shows "wf_subs (fst (event_bus_handle m s w))" "forget_step c (drops_client s c) m \<Longrightarrow> drops_client (fst (event_bus_handle m s w)) c"
  using assms drops_foldl [OF assms]
  by (cases m; auto simp: publish_def Let_def split_def forget_step_def drops_client_def)+

lemma forget_mono: "foldl (forget_step c) g ms \<Longrightarrow> (g \<Longrightarrow> g') \<Longrightarrow> foldl (forget_step c) g' ms"
proof (induction ms arbitrary: g g')
  case (Cons m ms)
  show ?case using Cons.IH [of "forget_step c g m" "forget_step c g' m"] Cons.prems by (auto simp: forget_step_def)
qed simp

lemma foldl_delete_subset: "set (foldl (\<lambda>p w. AList.delete w p) xs ws) \<subseteq> set xs"
proof (induction ws arbitrary: xs)
  case (Cons w ws)
  have "set (AList.delete w xs) \<subseteq> set xs" by (auto simp: AList.delete_eq)
  then show ?case using Cons.IH [of "AList.delete w xs"] by (simp add: subset_trans)
qed simp

lemma set_update_subset: "set (AList.update k v xs) \<subseteq> insert (k, v) (set xs)"
  by (induction xs) auto

lemma pending_frame [simp]:
  "pending_requests (set_state k st L) = pending_requests L"
  "pending_requests (expire_completed k L) = pending_requests L"
  "pending_requests (prune_expired now L) = pending_requests L"
  "pending_requests (evict_loop n k L) = pending_requests L"
proof -
  show e: "pending_requests (set_state k st L) = pending_requests L" "pending_requests (expire_completed k L) = pending_requests L" for k st and L :: "'a ledger"
    by (auto simp: set_state_def expire_completed_def split: option.splits operation_state.splits)
  have "pending_requests (foldl (\<lambda>L k. expire_completed k L) L ks) = pending_requests L" for ks
    by (induction ks arbitrary: L) (auto simp: e)
  then show "pending_requests (prune_expired now L) = pending_requests L" by (simp add: prune_expired_def)
  have ev: "evict_oldest_completed p L = (b, L') \<Longrightarrow> pending_requests L' = pending_requests L" for p b L' and L :: "'a ledger"
    by (auto simp: evict_oldest_completed_def e split: option.splits)
  show "pending_requests (evict_loop n k L) = pending_requests L"
    by (induction n arbitrary: L) (auto split: prod.splits bool.splits dest: ev)
qed

lemma complete_waiters: "set (pending_requests (snd (ledger_complete size_of now r p L))) \<subseteq> set (pending_requests L)"
  by (auto simp: ledger_complete_def Let_def split: option.splits operation_state.splits dest: subsetD [OF foldl_delete_subset])

lemma begin_waiters:
  "set (pending_requests (snd (ledger_begin blake3 now ns op fp w L))) \<subseteq> set (pending_requests L) \<union> {w} \<times> UNIV"
  by (auto simp: ledger_begin_def Let_def split: option.splits operation_state.splits if_splits dest: subsetD [OF set_update_subset])

lemma outcome_waiters:
  assumes "idempotency_outcome blake3 encode now al ns op p w L = Some (out, L')" "has_waiter L' c"
  shows "has_waiter L c \<or> client_id w = c"
proof -
  have "set (pending_requests L') \<subseteq> set (pending_requests L) \<union> {w} \<times> UNIV"
  proof (cases "L' = L")
    case False
    then obtain n op_id fp where "L' = snd (ledger_begin blake3 now n op_id fp w L)"
      using assms(1)
      by (auto simp: idempotency_outcome_def split: option.splits bool.splits sum.splits if_splits prod.splits) (metis snd_conv)
    then show ?thesis using begin_waiters by simp
  qed auto
  then show ?thesis using assms(2) by (fastforce simp: has_waiter_def list_ex_iff)
qed

lemma has_waiter_subset: "set (pending_requests L') \<subseteq> set (pending_requests L) \<Longrightarrow> has_waiter L' c \<Longrightarrow> has_waiter L c"
  by (auto simp: has_waiter_def list_ex_iff)

lemma no_waiter_removed: "\<not> has_waiter (remove_waiters_for_client c L) c" "has_waiter (remove_waiters_for_client c L) c' \<Longrightarrow> has_waiter L c'"
  by (auto simp: has_waiter_def remove_waiters_for_client_def list_ex_iff)

text \<open>Turns that send nothing to the bus.\<close>

lemma forget_keep:
  assumes "forget_inv s" "bus_inbox t = bus_inbox s" "subscriptions t = subscriptions s"
    "\<And>c. stale t c \<Longrightarrow> stale s c"
    "\<And>c. ended t c \<Longrightarrow> has_waiter (operations t) c \<Longrightarrow> ended s c \<and> has_waiter (operations s) c"
  shows "forget_inv t"
  using assms unfolding forget_inv_def forgotten_def by metis

lemma send_frame:
  "bus_inbox (evict_client c s) = bus_inbox s \<and> subscriptions (evict_client c s) = subscriptions s \<and> operations (evict_client c s) = operations s"
  "bus_inbox (queue_response_for_client c rid p s) = bus_inbox s \<and> subscriptions (queue_response_for_client c rid p s) = subscriptions s
     \<and> operations (queue_response_for_client c rid p s) = operations s"
  "bus_inbox (queue_event_for_client c e s) = bus_inbox s \<and> subscriptions (queue_event_for_client c e s) = subscriptions s
     \<and> operations (queue_event_for_client c e s) = operations s"
  by (auto simp: evict_client_def queue_response_for_client_def queue_event_for_client_def gateway_defs split: prod.splits option.splits)

lemma fold_frame:
  "bus_inbox (foldl (\<lambda>s w. queue_response_for_client (f w) (g w) p s) s ws) = bus_inbox s
   \<and> subscriptions (foldl (\<lambda>s w. queue_response_for_client (f w) (g w) p s) s ws) = subscriptions s
   \<and> operations (foldl (\<lambda>s w. queue_response_for_client (f w) (g w) p s) s ws) = operations s"
  by (induction ws arbitrary: s) (auto simp: send_frame)

lemma dispatch_frame:
  "bus_inbox (dispatch size_of now m s) = bus_inbox s \<and> subscriptions (dispatch size_of now m s) = subscriptions s
   \<and> set (pending_requests (operations (dispatch size_of now m s))) \<subseteq> set (pending_requests (operations s))"
proof (cases m)
  case (SendResponse c rid p)
  then show ?thesis using complete_waiters [of size_of now "\<lparr>client_id = c, request_id = rid\<rparr>" p "operations s"]
    by (auto simp: fold_frame send_frame split: prod.splits option.splits)
qed (simp add: send_frame)

section \<open>Every turn\<close>

lemma forget_leave: "forget_inv s \<Longrightarrow> forget_inv (leave_loop c s)"
proof (rule forget_keep)
  fix c'
  have "has_waiter (operations (leave_loop c s)) c' \<Longrightarrow> c' \<noteq> c \<and> has_waiter (operations s) c'"
    using no_waiter_removed by (auto simp: leave_loop_def gateway_defs)
  then show "ended (leave_loop c s) c' \<Longrightarrow> has_waiter (operations (leave_loop c s)) c' \<Longrightarrow> ended s c' \<and> has_waiter (operations s) c'"
    by (auto simp: leave_loop_def gateway_defs ended_def)
  show "stale (leave_loop c s) c' \<Longrightarrow> stale s c'"
    by (cases "c' = c") (auto simp: stale_def ended_def leave_loop_def gateway_defs farewell_def)
qed (auto simp: leave_loop_def gateway_defs)

lemma forget_request:
  assumes "forget_inv s" "status s c = Open"
  shows "forget_inv (receive_request blake3 encode g now c rid op p s)"
proof -
  have st: "forget_inv (set_todo c acts (s\<lparr>inflight := (inflight s)(c := ids), operations := L\<rparr>))"
    if "\<And>c'. c' \<noteq> c \<Longrightarrow> has_waiter L c' \<Longrightarrow> has_waiter (operations s) c'" for acts ids L
  proof (rule forget_keep [OF assms(1)])
    fix c'
    show "stale (set_todo c acts (s\<lparr>inflight := (inflight s)(c := ids), operations := L\<rparr>)) c' \<Longrightarrow> stale s c'"
      using assms(2) by (cases "c' = c") (auto simp: gateway_defs stale_def ended_def)
    show "ended (set_todo c acts (s\<lparr>inflight := (inflight s)(c := ids), operations := L\<rparr>)) c' \<Longrightarrow>
        has_waiter (operations (set_todo c acts (s\<lparr>inflight := (inflight s)(c := ids), operations := L\<rparr>))) c' \<Longrightarrow>
        ended s c' \<and> has_waiter (operations s) c'"
      using assms(2) that [of c'] by (cases "c' = c") (auto simp: gateway_defs ended_def)
  qed (simp_all add: gateway_defs)
  have pa: "forget_inv (set_todo c [ActPanic] (s\<lparr>inflight := (inflight s)(c := ids)\<rparr>))" for ids
    using st [of "operations s" "[ActPanic]" ids] by simp
  have w: "c' \<noteq> c \<Longrightarrow> idempotency_outcome blake3 encode now (aliases g) (namespaces s c) op p \<lparr>client_id = c, request_id = rid\<rparr> (operations s)
      = Some (out, L) \<Longrightarrow> has_waiter L c' \<Longrightarrow> has_waiter (operations s) c'" for c' out L
    using outcome_waiters by fastforce
  show ?thesis
    using forget_leave [OF assms(1)]
    by (auto simp: receive_request_def Let_def pa split: prod.splits bool.splits option.splits sum.splits begin_outcome.splits intro!: st dest: w)
qed

lemma not_about: "sends_about c a \<or> m = UnsubscribeAll c \<Longrightarrow> a = ActBus m \<Longrightarrow> c' \<noteq> c \<Longrightarrow> \<not> about c' m"
  by (cases m) auto

lemma forget_send:
  assumes "forget_inv s" "bus_inbox t = bus_inbox s @ [m]" "subscriptions t = subscriptions s" "operations t = operations s"
    "status t = status s" "\<And>c. stale t c \<Longrightarrow> m = UnsubscribeAll c \<or> \<not> about c m \<and> stale s c"
  shows "forget_inv t"
  using assms unfolding forget_inv_def forgotten_def by (auto simp: forget_step_def ended_def)

lemma farewell_bus: "suffix (ActBus m # rest) (farewell c) \<Longrightarrow> m = UnsubscribeAll c"
  by (auto simp: suffix_def farewell_def detach_client_foreground_def append_eq_Cons_conv Cons_eq_append_conv)

lemma forget_perform:
  assumes "forget_inv s" "client_inv s c" "perform c s = Some t"
  shows "forget_inv t"
proof -
  obtain a rest where td: "todo s c = a # rest" using assms(3) by (auto simp: perform_def split: list.splits)
  consider (Open) "status s c = Open" "plan_ok c (a # rest)" | (Closing) "status s c = Closing" "suffix (a # rest) (farewell c)"
    using busy_status [OF assms(2)] td assms(2) by (auto simp: client_inv_def life_inv_def)
  note cs = this
  show ?thesis
  proof (cases "\<exists>m. a = ActBus m")
    case True
    then obtain m where a: "a = ActBus m" by blast
    have t: "t = (set_todo c rest s)\<lparr>bus_inbox := bus_inbox s @ [m]\<rparr>"
      using assms(3) td a by (auto simp: perform_def Let_def split: if_splits)
    have m: "status s c = Open \<and> sends_about c a \<or> status s c = Closing \<and> m = UnsubscribeAll c"
      using cs plan_ok_Cons [of c a rest] farewell_bus [of m rest c] a by cases auto
    have "m = UnsubscribeAll c' \<or> \<not> about c' m \<and> stale s c'" if "stale t c'" for c'
    proof (cases "c' = c")
      case True
      then show ?thesis using that m by (auto simp: t stale_def ended_def gateway_defs)
    next
      case False
      then show ?thesis using that not_about [of c a m c'] m a by (auto simp: t stale_def ended_def gateway_defs)
    qed
    then show ?thesis by (intro forget_send [OF assms(1)]) (auto simp: t gateway_defs)
  next
    case False
    have same: "bus_inbox t = bus_inbox s" "subscriptions t = subscriptions s" "operations t = operations s"
      using assms(3) td False by (cases a; auto simp: perform_def Let_def gateway_defs drop_queues_def split: if_splits)+
    have lv: "a = ActLeave \<Longrightarrow> status s c = Closing"
      using cs plan_ok_Cons [of c a rest] by cases auto
    have st: "status t c' = status s c' \<or> c' = c \<and> status s c = Closing \<and> a = ActLeave \<or> c' = c \<and> status t c' = Crashed" for c'
      using assms(3) td False lv
      by (cases a; cases "c' = c") (auto simp: perform_def Let_def gateway_defs drop_queues_def split: if_splits)
    have sub: "set (todo s c') \<subseteq> insert a (set (todo t c'))" if "status t c' \<noteq> Crashed" for c'
      using that assms(3) td False
      by (cases a; cases "c' = c") (auto simp: perform_def Let_def gateway_defs drop_queues_def split: if_splits)
    have "stale s c'" if "stale t c'" for c'
      using that st [of c'] False subsetD [OF sub [of c'], of "ActBus (UnsubscribeAll c')"] by (auto simp: stale_def ended_def)
    moreover have "ended s c'" if "ended t c'" for c'
      using that st [of c'] by (auto simp: ended_def)
    ultimately show ?thesis using same by (intro forget_keep [OF assms(1)]) auto
  qed
qed

lemma forget_answer:
  assumes "forget_inv s" "client_inv s c" "answer blake3 c r s = Some t"
  shows "forget_inv t"
proof -
  obtain a rest b acts where td: "todo s c = a # rest" and re: "resume blake3 c (event_state s c) a rest r = Some (b, acts)"
    using assms(3) by (auto simp: answer_def split: list.splits option.splits)
  have t: "todo t = (todo s)(c := acts)" "status t = status s" "bus_inbox t = bus_inbox s" "subscriptions t = subscriptions s"
    "operations t = operations s"
    using assms(3) td re by (auto simp: answer_def gateway_defs split: option.splits)
  have "stale s c" if "stale t c"
  proof -
    have cl: "status s c = Closing" using that busy_status [OF assms(2)] td by (auto simp: stale_def ended_def t)
    then have sf: "suffix (a # rest) (farewell c)" using assms(2) td by (simp add: client_inv_def life_inv_def)
    moreover have "a \<noteq> ActBus (UnsubscribeAll c)" using re by (auto simp: resume_def Let_def)
    ultimately show ?thesis using that cl td resume_farewell [OF sf re] by (auto simp: stale_def ended_def t)
  qed
  then have "stale s c'" if "stale t c'" for c'
    using that by (cases "c' = c") (auto simp: stale_def ended_def t)
  then show ?thesis by (intro forget_keep [OF assms(1)]) (auto simp: t ended_def)
qed

lemma forget_same:
  assumes "forget_inv s" "bus_inbox t = bus_inbox s" "subscriptions t = subscriptions s" "todo t = todo s" "status t = status s"
    "set (pending_requests (operations t)) \<subseteq> set (pending_requests (operations s))"
  shows "forget_inv t"
  using assms has_waiter_subset [OF assms(6)] by (intro forget_keep [OF assms(1)]) (auto simp: stale_def ended_def)

lemma forget_write:
  assumes "forget_inv s" "write_response c written s = Some t \<or> write_event c written s = Some t"
  shows "forget_inv t"
proof -
  have fr: "forget_inv (s\<lparr>responses := f\<rparr>)" for f by (rule forget_same [OF assms(1)]) auto
  have fe: "forget_inv (record_entries c es (set_queue c q s))" for es q
    by (rule forget_same [OF assms(1)]) (auto simp: gateway_defs)
  show ?thesis
    using assms(2)
  proof
    assume "write_response c written s = Some t"
    then show ?thesis
    proof (cases written)
      case True
      with \<open>write_response c written s = Some t\<close> show ?thesis
        by (auto simp: write_response_def Let_def gateway_defs split: list.splits prod.splits intro!: forget_same [OF assms(1)])
    qed (use forget_leave [OF fr] in \<open>auto simp: write_response_def Let_def split: list.splits\<close>)
  next
    assume "write_event c written s = Some t"
    then show ?thesis using forget_leave [OF fe] fe by (auto simp: write_event_def Let_def split: list.splits if_splits)
  qed
qed

lemma forget_bus:
  assumes "forget_inv s" "bus_inbox s = m # rest" "event_bus_handle m (subscriptions s) (store s) = (subs, w)"
  shows "forget_inv (s\<lparr>bus_inbox := rest, subscriptions := subs, store := w\<rparr>)"
proof -
  have wf: "wf_subs (subscriptions s)" using assms(1) by (simp add: forget_inv_def)
  have h: "wf_subs subs" "forget_step c (drops_client (subscriptions s) c) m \<Longrightarrow> drops_client subs c" for c
    using handle_subs(1) [OF wf, of m "store s"] handle_subs(2) [OF wf, of c m "store s"] assms(3) by auto
  have "foldl (forget_step c) (drops_client subs c) rest" if "stale s c" for c
    using assms(1,2) that forget_mono [of c "forget_step c (drops_client (subscriptions s) c) m" rest] h(2)
    by (auto simp: forget_inv_def forgotten_def)
  then show ?thesis using assms(1) h(1) by (auto simp: forget_inv_def forgotten_def stale_def ended_def)
qed

lemma forget_turn:
  assumes "forget_inv s" "gateway_inv s" "gateway_turn blake3 encode size_of t s = Some s'"
  shows "forget_inv s'"
proof -
  have inv: "client_inv s c" for c using assms(2) by (simp add: gateway_inv_def)
  show ?thesis
  proof (cases t)
    case Accept
    have "stale (accept_client s) c \<Longrightarrow> stale s c" "ended (accept_client s) c \<Longrightarrow> ended s c" for c
      by (auto simp: accept_client_def Let_def stale_def ended_def split: if_splits)
    then show ?thesis using Accept assms(3)
      by (auto split: if_splits intro!: forget_keep [OF assms(1)] simp: accept_client_def Let_def)
  next
    case (Request g now c rid op p)
    then show ?thesis using assms forget_request by (auto simp: idle_def split: if_splits)
  next
    case Bus
    then show ?thesis using assms forget_bus by (auto split: list.splits prod.splits)
  next
    case (Dispatch now)
    have "forget_inv (dispatch size_of now m (s\<lparr>gateway_inbox := rest\<rparr>))" for m rest
      using quiet_dispatch [of "s\<lparr>gateway_inbox := rest\<rparr>" size_of now m] dispatch_frame [of size_of now m "s\<lparr>gateway_inbox := rest\<rparr>"]
      by (intro forget_same [OF assms(1)]) (auto simp: quiet_def)
    then show ?thesis using Dispatch assms(3) by (auto split: list.splits)
  next
    case (Elsewhere x)
    show ?thesis
    proof (cases x)
      case (Inl m)
      then show ?thesis using Elsewhere assms by (auto split: if_splits intro!: forget_same [OF assms(1)])
    next
      case (Inr m)
      have "is_publication m \<Longrightarrow> \<not> about c m" for c by (cases m) auto
      then show ?thesis using Inr Elsewhere assms
        by (auto split: if_splits intro!: forget_send [OF assms(1), of _ m] simp: stale_def ended_def)
    qed
  next
    case (SchedulerBinds c named)
    have "\<not> stale s c" if "awaits_scheduler (todo s c)"
    proof -
      have "status s c \<noteq> Closing"
        using that inv [of c] no_fence_farewell [of "todo s c" c]
        by (cases "todo s c" rule: awaits_scheduler.cases) (auto simp: client_inv_def life_inv_def)
      then show ?thesis using that inv [of c] by (auto simp: stale_def ended_def client_inv_def life_inv_def)
    qed
    then show ?thesis using SchedulerBinds assms
      by (auto split: if_splits intro!: forget_send [OF assms(1), of _ "SetClientSession c named"] simp: stale_def ended_def)
  qed (use assms(3) in \<open>auto split: if_splits
      intro: forget_perform [OF assms(1) inv] forget_answer [OF assms(1) inv] forget_write [OF assms(1)] forget_leave [OF assms(1)]\<close>)
qed

lemma forget_run:
  "gateway_run blake3 encode size_of ts s = Some s' \<Longrightarrow> gateway_inv s \<Longrightarrow> forget_inv s \<Longrightarrow> forget_inv s'"
proof (induction ts arbitrary: s)
  case (Cons t ts)
  then obtain u where u: "gateway_turn blake3 encode size_of t s = Some u" "gateway_run blake3 encode size_of ts u = Some s'"
    by (auto split: option.splits)
  show ?case
    by (rule Cons.IH [OF u(2)]) (use u(1) Cons.prems gateway_turn_inv forget_turn in blast)+
qed simp

lemma forget_start: "forget_inv gateway_start"
  by (simp add: forget_inv_def gateway_start_def stale_def ended_def)

text \<open>
  C27. Nothing remains of a client whose handler has finished its clean-up, once the event bus has
  handled its mailbox: no subscription and no session binding in the bus, no entry in the registry of
  the gateway, and no waiter in the operation ledger.  This holds in every interleaving, although the
  clean-up is four messages to different actors and the scheduler also writes session bindings to the
  bus.
\<close>

theorem closed_client_leaves_no_trace:
  assumes "gateway_run blake3 encode size_of ts gateway_start = Some s" "status s c = Closed" "bus_inbox s = []"
  shows "(\<forall>ch. subscription (subscriptions s) ch c = None) \<and> bound_session (subscriptions s) c = None
    \<and> c \<notin> set (registry s) \<and> \<not> has_waiter (operations s) c"
proof -
  have gi: "client_inv s c" using gateway_run_inv [OF assms(1) gateway_inv_start] by (simp add: gateway_inv_def)
  have fi: "forget_inv s" by (rule forget_run [OF assms(1) gateway_inv_start forget_start])
  have "stale s c" using gi assms(2) by (auto simp: stale_def ended_def client_inv_def life_inv_def)
  then have "drops_client (subscriptions s) c" using fi assms(3) by (simp add: forget_inv_def forgotten_def)
  moreover have "c \<notin> set (registry s)" using gi assms(2) by (auto simp: client_inv_def life_inv_def)
  moreover have "\<not> has_waiter (operations s) c" using fi assms(2) by (auto simp: forget_inv_def ended_def)
  ultimately show ?thesis by (simp add: drops_client_def)
qed

theorem closed_client_leaves_no_trace_witness:
  "\<exists>s. gateway_run (\<lambda>_. []) (\<lambda>_. Inr []) (\<lambda>_. 0)
         (sample_turns @ [HangUp 1, Perform 1, Perform 1, Answer 1 Dropped, Perform 1, Perform 1, Bus, Bus]) gateway_start = Some s
     \<and> status s 1 = Closed \<and> 1 \<notin> set (registry s) \<and> bound_session (subscriptions s) 1 = None"
proof -
  let ?ts = "sample_turns @ [HangUp 1, Perform 1, Perform 1, Answer 1 Dropped, Perform 1, Perform 1, Bus, Bus]"
  have "\<exists>s. gateway_run (\<lambda>_. []) (\<lambda>_. Inr []) (\<lambda>_. 0) ?ts gateway_start = Some s \<and> status s 1 = Closed \<and> bus_inbox s = []"
    by (simp add: sample_simps leave_loop_def farewell_def remove_waiters_for_client_def drop_queues_def)
  then show ?thesis using closed_client_leaves_no_trace by blast
qed

end
