(* ===== verification/SchedState.thy ===== *)
theory SchedState
  imports CronTable ScopeStore Gateway ChainExec
begin

text \<open>
  The state of the scheduler actor (\<^verbatim>\<open>crates/cue-daemon/src/actor/scheduler.rs\<close>): jobs, chains, crons,
  script runs and sessions, with the identifiers it allocates, the ownership check that fences one
  named session from another, the scopes it keeps alive, and the test for an idle scheduler.  Hash
  maps are association lists whose order is the iteration order.
\<close>

section \<open>Jobs and chains\<close>

datatype job_open_hint = HintStream | HintFg

record job_entry =
  je_job_id :: job_id
  je_session_id :: "string option"
  je_pipeline_text :: string
  je_status :: job_status
  je_exit_code :: "i32 option"
  je_start_scope :: "scope_hash option"
  je_end_scope :: "scope_hash option"
  je_open_hint :: job_open_hint
  je_chain_id :: "chain_id option"
  je_chain_index :: "nat option"
  je_chain_total :: "nat option"
  je_pending_reason :: "string option"

record process_job_context =
  pc_cwd_override :: "string option"
  pc_launch :: launch_options
  pc_wrapper_enabled :: bool
  pc_pty_default :: bool
  pc_direct_output_client :: "u64 option"

record process_job_options =
  po_cwd_override :: "string option"
  po_sandbox :: "sandbox_settings option"
  po_wrapper_enabled :: bool
  po_pty_enabled :: bool
  po_direct_output_client :: "u64 option"
  po_session_id :: "string option"

definition process_job_options_of :: "process_job_context \<Rightarrow> string option \<Rightarrow> process_job_options" where
  "process_job_options_of p session_id =
     \<lparr>po_cwd_override = pc_cwd_override p, po_sandbox = lo_sandbox (pc_launch p),
      po_wrapper_enabled = pc_wrapper_enabled p,
      po_pty_enabled = (case lo_pty (pc_launch p) of Some b \<Rightarrow> b | None \<Rightarrow> pc_pty_default p),
      po_direct_output_client = pc_direct_output_client p, po_session_id = session_id\<rparr>"

record chain_state =
  ch_node :: chain_node
  ch_leaf_jobs :: "(nat \<times> job_id) list"
  ch_leaf_status :: "(nat \<times> leaf_status) list"
  ch_scope_hash :: scope_hash
  ch_pipeline_text :: string
  ch_process :: process_job_context
  ch_scope_enabled :: bool
  ch_session_id :: "string option"

record chain_completion =
  cc_exit_code :: i32
  cc_end_scope :: "scope_hash option"

record pending_resource_admission =
  pr_plan :: job_plan
  pr_base_scope :: scope_hash
  pr_options :: process_job_options
  pr_needs :: need

record pending_wait =
  pw_client_id :: u64
  pw_request_id :: u32

section \<open>Scripts\<close>

record chain_job_info =
  cj_index :: nat
  cj_pipeline :: string
  cj_status :: job_status
  cj_job_id :: "string option"
  cj_start_scope :: "string option"
  cj_end_scope :: "string option"
  cj_open_hint :: "job_open_hint option"

record chain_info =
  ci_id :: string
  ci_pipeline :: string
  ci_total_jobs :: nat
  ci_jobs :: "chain_job_info list"

datatype script_item_result =
    ItemJob string "string option" job_open_hint
  | ItemChain string "string list" chain_info
  | ItemCron string
  | ItemMessage string

record script_item_info =
  it_index :: nat
  it_source :: string
  it_result :: script_item_result

record script_submit_error =
  se_index :: nat
  se_source :: string
  se_code :: string
  se_message :: string

datatype script_info_status = ScriptRunning | ScriptDone | ScriptFailed

record script_info =
  sn_script_id :: string
  sn_status :: script_info_status
  sn_items :: "script_item_info list"
  sn_exit_code :: "i32 option"
  sn_failed_item_index :: "nat option"
  sn_submit_error :: "script_submit_error option"

record pending_script_run =
  ps_client_id :: u64
  ps_script_id :: script_id
  ps_mode :: mode
  ps_source :: script_source
  ps_items :: "(string \<times> resolved_command) list"
  ps_next_index :: nat
  ps_item_scope :: scope_hash
  ps_created_items :: "script_item_info list"
  ps_last_exit_code :: i32
  ps_waiting_index :: "nat option"
  ps_session_id :: "string option"

record completed_script_snapshot =
  cs_info :: "script_info option"
  cs_session_id :: "string option"
  cs_completed_at :: instant
  cs_response_bytes :: nat

section \<open>Sessions\<close>

record launch_defaults =
  ld_pty :: "bool option"
  ld_wrapper_enabled :: "bool option"

definition default_launch_defaults :: launch_defaults where
  "default_launch_defaults = \<lparr>ld_pty = None, ld_wrapper_enabled = None\<rparr>"

record named_session_meta =
  nm_id :: string
  nm_name :: string
  nm_scope_durable :: bool
  nm_created_at_ms :: int
  nm_updated_at_ms :: int
  nm_archived_at_ms :: "int option"

record session_state =
  ss_scope :: scope_hash
  ss_incarnation :: u64
  ss_defaults :: launch_defaults
  ss_connected_clients :: nat
  ss_disconnected_at :: "instant option"
  ss_named :: "named_session_meta option"

record unavailable_named_session =
  un_meta :: named_session_meta
  un_defaults :: launch_defaults

section \<open>The scheduler state\<close>

record scheduler_state =
  s_next_job :: u32
  s_next_cron :: u32
  s_next_chain :: u32
  s_next_script :: u32
  s_next_session_incarnation :: u64
  s_chains :: "(chain_id \<times> chain_state) list"
  s_job_to_chain :: "(job_id \<times> chain_id \<times> nat) list"
  s_jobs :: "(job_id \<times> job_entry) list"
  s_crons :: "(cron_id \<times> cron_entry) list"
  s_job_waiters :: "(job_id \<times> pending_wait list) list"
  s_pending_scripts :: "(script_id \<times> pending_script_run) list"
  s_pending_script_jobs :: "(job_id \<times> script_id) list"
  s_pending_script_chains :: "(chain_id \<times> script_id) list"
  s_completed_chains :: "(chain_id \<times> chain_completion) list"
  s_completed_script_snapshots :: "(script_id \<times> completed_script_snapshot) list"
  s_completed_script_snapshot_order :: "script_id list"
  s_completed_script_snapshot_responses :: nat
  s_completed_script_snapshot_bytes :: nat
  s_sessions :: "(string \<times> session_state) list"
  s_unavailable_named_sessions :: "(string \<times> unavailable_named_session) list"
  s_client_sessions :: "(u64 \<times> string) list"
  s_pending_resource_jobs :: "job_id list"
  s_pending_resource :: "(job_id \<times> pending_resource_admission) list"

definition scheduler_new :: scheduler_state where
  "scheduler_new =
     \<lparr>s_next_job = 1, s_next_cron = 1, s_next_chain = 1, s_next_script = 1, s_next_session_incarnation = 1,
      s_chains = [], s_job_to_chain = [], s_jobs = [], s_crons = [], s_job_waiters = [],
      s_pending_scripts = [], s_pending_script_jobs = [], s_pending_script_chains = [],
      s_completed_chains = [], s_completed_script_snapshots = [], s_completed_script_snapshot_order = [],
      s_completed_script_snapshot_responses = 0, s_completed_script_snapshot_bytes = 0,
      s_sessions = [], s_unavailable_named_sessions = [], s_client_sessions = [],
      s_pending_resource_jobs = [], s_pending_resource = []\<rparr>"

text \<open>Job, chain and script numbers wrap; session incarnations are allocated with \<^verbatim>\<open>checked_add\<close>.\<close>

definition alloc_job :: "scheduler_state \<Rightarrow> job_id \<times> scheduler_state" where
  "alloc_job s = (JobId (s_next_job s), s\<lparr>s_next_job := s_next_job s + 1\<rparr>)"

definition alloc_chain :: "scheduler_state \<Rightarrow> chain_id \<times> scheduler_state" where
  "alloc_chain s = (ChainId (s_next_chain s), s\<lparr>s_next_chain := s_next_chain s + 1\<rparr>)"

definition alloc_script :: "scheduler_state \<Rightarrow> script_id \<times> scheduler_state" where
  "alloc_script s = (ScriptId (s_next_script s), s\<lparr>s_next_script := s_next_script s + 1\<rparr>)"

definition alloc_session_incarnation :: "scheduler_state \<Rightarrow> (u64 \<times> scheduler_state) option" where
  "alloc_session_incarnation s =
     (if s_next_session_incarnation s = - 1 then None
      else Some (s_next_session_incarnation s, s\<lparr>s_next_session_incarnation := s_next_session_incarnation s + 1\<rparr>))"

definition session_for_client :: "scheduler_state \<Rightarrow> u64 \<Rightarrow> session_state option" where
  "session_for_client s c = Option.bind (map_of (s_client_sessions s) c) (map_of (s_sessions s))"

definition client_scope :: "scheduler_state \<Rightarrow> u64 \<Rightarrow> scope_hash option" where
  "client_scope s c = map_option ss_scope (session_for_client s c)"

definition named_session_id_for_client :: "scheduler_state \<Rightarrow> u64 \<Rightarrow> string option" where
  "named_session_id_for_client s c = map_option nm_id (Option.bind (session_for_client s c) ss_named)"

definition has_named_session_id :: "scheduler_state \<Rightarrow> string \<Rightarrow> bool" where
  "has_named_session_id s i \<longleftrightarrow>
     list_ex (\<lambda>(_, x). case ss_named x of Some m \<Rightarrow> nm_id m = i | None \<Rightarrow> False) (s_sessions s)
     \<or> map_of (s_unavailable_named_sessions s) i \<noteq> None"

definition wrapper_enabled :: "scheduler_state \<Rightarrow> u64 \<Rightarrow> bool \<Rightarrow> bool" where
  "wrapper_enabled s c config_wrapper_enabled =
     (case Option.bind (session_for_client s c) (\<lambda>x. ld_wrapper_enabled (ss_defaults x)) of
        Some b \<Rightarrow> b | None \<Rightarrow> config_wrapper_enabled)"

definition pty_default :: "scheduler_state \<Rightarrow> u64 \<Rightarrow> bool" where
  "pty_default s c =
     (case Option.bind (session_for_client s c) (\<lambda>x. ld_pty (ss_defaults x)) of Some b \<Rightarrow> b | None \<Rightarrow> True)"

section \<open>Ownership\<close>

datatype session_owned_target = TargetJob job_id | TargetChain chain_id | TargetScript script_id | TargetCron cron_id

fun target_display :: "session_owned_target \<Rightarrow> string" where
  "target_display (TargetJob i) = ''job '' @ show_job_id i"
| "target_display (TargetChain i) = ''chain '' @ show_chain_id i"
| "target_display (TargetScript i) = ''script '' @ show_script_id i"
| "target_display (TargetCron i) = ''cron '' @ show_cron_id i"

definition access_denied_response :: "session_owned_target \<Rightarrow> 'r response_payload" where
  "access_denied_response t = RespErr ''NOT_FOUND'' (target_display t @ '' not found'')"

text \<open>The id parsers of the scheduler trim and drop the error.\<close>

definition ok :: "('e, 'a) result \<Rightarrow> 'a option" where
  "ok r = (case r of Inl _ \<Rightarrow> None | Inr x \<Rightarrow> Some x)"

definition sched_parse_job_id :: "string \<Rightarrow> job_id option" where
  "sched_parse_job_id s = ok (parse_job_id (trim s))"

definition sched_parse_cron_id :: "string \<Rightarrow> cron_id option" where
  "sched_parse_cron_id s = ok (parse_cron_id (trim s))"

definition sched_parse_chain_id :: "string \<Rightarrow> chain_id option" where
  "sched_parse_chain_id s = ok (parse_chain_id (trim s))"

definition sched_parse_script_id :: "string \<Rightarrow> script_id option" where
  "sched_parse_script_id s = ok (parse_script_id (trim s))"

definition or_else :: "'a option \<Rightarrow> 'a option \<Rightarrow> 'a option" where
  "or_else x y = (case x of None \<Rightarrow> y | Some _ \<Rightarrow> x)"

definition job_target :: "string \<Rightarrow> session_owned_target option" where
  "job_target i = map_option TargetJob (sched_parse_job_id i)"

definition cron_target :: "string \<Rightarrow> session_owned_target option" where
  "cron_target i = map_option TargetCron (sched_parse_cron_id i)"

definition session_owned_target_for_command :: "resolved_command \<Rightarrow> session_owned_target option" where
  "session_owned_target_for_command cmd =
     (case cmd of
        RKill i \<Rightarrow> or_else (job_target i) (cron_target i)
      | RKillJob i \<Rightarrow> job_target i
      | RRetry i \<Rightarrow> job_target i
      | ROut i _ \<Rightarrow> job_target i
      | RErr i \<Rightarrow> job_target i
      | RJobOutput i _ _ \<Rightarrow> job_target i
      | RFg i _ \<Rightarrow> job_target i
      | RWait i \<Rightarrow> job_target i
      | RSend i _ \<Rightarrow> job_target i
      | RCancel i \<Rightarrow> job_target i
      | RCancelExecution i \<Rightarrow>
          or_else (job_target i)
            (or_else (map_option TargetChain (sched_parse_chain_id i))
               (map_option TargetScript (sched_parse_script_id i)))
      | RRemoveCron i \<Rightarrow> cron_target i
      | RPause i \<Rightarrow> cron_target i
      | RResume i \<Rightarrow> cron_target i
      | RLog (Some i) \<Rightarrow> or_else (job_target i) (cron_target i)
      | RShowLog (Some i) _ _ \<Rightarrow> or_else (job_target i) (cron_target i)
      | _ \<Rightarrow> None)"

text \<open>The owner recorded for a target: \<open>None\<close> when it is unknown, \<open>Some None\<close> when it has no owner.\<close>

definition target_owner :: "scheduler_state \<Rightarrow> session_owned_target \<Rightarrow> string option option" where
  "target_owner s t =
     (case t of
        TargetJob i \<Rightarrow> map_option je_session_id (map_of (s_jobs s) i)
      | TargetChain i \<Rightarrow> map_option ch_session_id (map_of (s_chains s) i)
      | TargetScript i \<Rightarrow>
          or_else (map_option ps_session_id (map_of (s_pending_scripts s) i))
            (map_option cs_session_id (map_of (s_completed_script_snapshots s) i))
      | TargetCron i \<Rightarrow> map_option en_session_id (map_of (s_crons s) i))"

definition authorize_session_owned_target ::
    "scheduler_state \<Rightarrow> string option \<Rightarrow> session_owned_target \<Rightarrow> (session_owned_target, unit) result" where
  "authorize_session_owned_target s requester t =
     (case requester of
        None \<Rightarrow> Inr ()
      | Some r \<Rightarrow> if target_owner s t = Some (Some r) then Inr () else Inl t)"

section \<open>Live scopes, admission and restart\<close>

definition scope_gc_roots :: "scheduler_state \<Rightarrow> scope_hash list" where
  "scope_gc_roots s =
     map (ss_scope \<circ> snd) (s_sessions s) @ map (ch_scope_hash \<circ> snd) (s_chains s)
     @ List.map_filter (je_start_scope \<circ> snd) (s_jobs s) @ List.map_filter (je_end_scope \<circ> snd) (s_jobs s)
     @ map (en_scope_hash \<circ> snd) (s_crons s) @ map (ps_item_scope \<circ> snd) (s_pending_scripts s)
     @ List.map_filter (cc_end_scope \<circ> snd) (s_completed_chains s)
     @ map (pr_base_scope \<circ> snd) (s_pending_resource s)"

definition command_starts_execution :: "resolved_command \<Rightarrow> bool" where
  "command_starts_execution cmd =
     (case cmd of
        RScript _ _ _ \<Rightarrow> True | RRun _ _ \<Rightarrow> True | RCron _ _ _ \<Rightarrow> True | RRetry _ \<Rightarrow> True | RResume _ \<Rightarrow> True
      | _ \<Rightarrow> False)"

definition scheduler_is_idle_for_restart :: "scheduler_state \<Rightarrow> bool" where
  "scheduler_is_idle_for_restart s \<longleftrightarrow>
     list_all (\<lambda>(_, j). job_is_terminal (je_status j)) (s_jobs s)
     \<and> s_chains s = [] \<and> s_pending_scripts s = [] \<and> s_pending_resource s = []"

end
