(* ===== verification/Sessions.thy ===== *)
theory Sessions
  imports SchedState "HOL-Library.Product_Lexorder"
begin

text \<open>
  Client sessions of the scheduler (\<^verbatim>\<open>crates/cue-daemon/src/actor/scheduler.rs\<close>) and the table of named
  sessions (\<^verbatim>\<open>crates/cue-daemon/src/storage.rs\<close>): connecting, creating, attaching, archiving and listing
  named sessions, launch defaults, disconnecting, the sweep of abandoned anonymous sessions and the
  restoration at start-up.

  A \<open>session_env\<close> holds what an operation reads from outside: whether the statements of its database
  call succeed, the scope table, the two clocks, a fresh UUID and the printed form of a storage error.
  A panicking \<^verbatim>\<open>expect\<close> is the result \<open>None\<close>.
\<close>

section \<open>The sessions table\<close>

record stored_session =
  sd_id :: string
  sd_name :: string
  sd_scope_hash :: "scope_hash option"
  sd_pty_default :: "bool option"
  sd_wrapper_enabled :: "bool option"
  sd_created_at_ms :: int
  sd_updated_at_ms :: int
  sd_archived_at_ms :: "int option"

type_synonym session_rows = "stored_session list"

datatype session_store_error = SessionSql storage_error | SessionMissing string

text \<open>An upsert on the primary key keeps the creation time; names are unique over the table.\<close>

definition upsert_session ::
    "bool \<Rightarrow> database \<Rightarrow> stored_session \<Rightarrow> session_rows \<Rightarrow> (session_store_error, bool) result \<times> session_rows" where
  "upsert_session sql d x rows =
     (case durable_scope_reference sql d (sd_scope_hash x) of
        Inl e \<Rightarrow> (Inl (SessionSql e), rows)
      | Inr h \<Rightarrow>
          if \<not> sql \<or> list_ex (\<lambda>r. sd_name r = sd_name x \<and> sd_id r \<noteq> sd_id x) rows then (Inl (SessionSql SqlError), rows)
          else
            let x' = x\<lparr>sd_scope_hash := h\<rparr>
            in (Inr (h \<noteq> None),
                if list_ex (\<lambda>r. sd_id r = sd_id x) rows
                then map (\<lambda>r. if sd_id r = sd_id x then x'\<lparr>sd_created_at_ms := sd_created_at_ms r\<rparr> else r) rows
                else rows @ [x']))"

definition set_session_archived_at ::
    "bool \<Rightarrow> string \<Rightarrow> int option \<Rightarrow> int \<Rightarrow> session_rows \<Rightarrow> (session_store_error, unit) result \<times> session_rows" where
  "set_session_archived_at sql i archived updated rows =
     (if \<not> sql then (Inl (SessionSql SqlError), rows)
      else if length (filter (\<lambda>r. sd_id r = i) rows) \<noteq> 1 then (Inl (SessionMissing i), rows)
      else (Inr (), map (\<lambda>r. if sd_id r = i then r\<lparr>sd_archived_at_ms := archived, sd_updated_at_ms := updated\<rparr> else r) rows))"

definition load_session :: "stored_session \<Rightarrow> (session_store_error, stored_session) result" where
  "load_session r =
     (if (case sd_scope_hash r of Some h \<Rightarrow> \<not> blob_ok h | None \<Rightarrow> False) then Inl (SessionSql CorruptRow) else Inr r)"

definition load_sessions :: "bool \<Rightarrow> session_rows \<Rightarrow> (session_store_error, stored_session list) result" where
  "load_sessions sql rows =
     (if sql then collect_results (map load_session (sort_key (\<lambda>r. (sd_created_at_ms r, sd_id r)) rows))
      else Inl (SessionSql SqlError))"

section \<open>Keys and lookups\<close>

record session_env =
  sv_sql :: bool
  sv_db :: database
  sv_now_ms :: int
  sv_instant :: instant
  sv_uuid :: string
  sv_show :: "session_store_error \<Rightarrow> string"

definition named_session_key :: "string \<Rightarrow> string" where
  "named_session_key i = ''named:'' @ i"

definition ephemeral_session_key :: "string \<Rightarrow> string" where
  "ephemeral_session_key i = ''ephemeral:'' @ i"

datatype named_session_location = LocReady string | LocNeedsRefresh string

datatype named_session_list_filter = FilterActive | FilterArchived | FilterAll

definition named_matches :: "string \<Rightarrow> named_session_meta \<Rightarrow> bool" where
  "named_matches selector m \<longleftrightarrow> nm_id m = selector \<or> nm_name m = selector"

definition ready_matches :: "string \<Rightarrow> session_state \<Rightarrow> bool" where
  "ready_matches selector x \<longleftrightarrow> (case ss_named x of Some m \<Rightarrow> named_matches selector m | None \<Rightarrow> False)"

definition find_named_session :: "scheduler_state \<Rightarrow> string \<Rightarrow> named_session_location option" where
  "find_named_session s selector =
     (case find (\<lambda>(_, x). ready_matches selector x) (s_sessions s) of
        Some (key, _) \<Rightarrow> Some (LocReady key)
      | None \<Rightarrow>
          map_option (\<lambda>(i, _). LocNeedsRefresh i)
            (find (\<lambda>(i, u). i = selector \<or> nm_name (un_meta u) = selector) (s_unavailable_named_sessions s)))"

definition validate_session_name :: "string \<Rightarrow> (string, unit) result" where
  "validate_session_name name =
     (if name = [] then Inl ''session name must not be empty''
      else if trim name \<noteq> name then Inl ''session name must not have leading or trailing whitespace''
      else if 64 < length (utf8_chars name) then Inl ''session name must be at most 64 characters''
      else if has_control name then Inl ''session name must not contain control characters''
      else if starts_with name ''SS-'' then Inl ''session names beginning with `SS-` are reserved for session ids''
      else Inr ())"

section \<open>Binding clients\<close>

definition set_session :: "string \<Rightarrow> session_state \<Rightarrow> scheduler_state \<Rightarrow> scheduler_state" where
  "set_session k x s = s\<lparr>s_sessions := AList.update k x (s_sessions s)\<rparr>"

definition drop_connection :: "instant \<Rightarrow> session_state \<Rightarrow> session_state" where
  "drop_connection now x =
     (let x' = x\<lparr>ss_connected_clients := ss_connected_clients x - 1\<rparr>
      in if ss_connected_clients x' = 0 then x'\<lparr>ss_disconnected_at := Some now\<rparr> else x')"

definition mark_replaced_session_disconnected :: "instant \<Rightarrow> string option \<Rightarrow> string \<Rightarrow> scheduler_state \<Rightarrow> scheduler_state" where
  "mark_replaced_session_disconnected now old new s =
     (case old of
        None \<Rightarrow> s
      | Some k \<Rightarrow>
          if k = new then s
          else (case map_of (s_sessions s) k of None \<Rightarrow> s | Some x \<Rightarrow> set_session k (drop_connection now x) s))"

definition disconnect_session :: "instant \<Rightarrow> u64 \<Rightarrow> scheduler_state \<Rightarrow> scheduler_state" where
  "disconnect_session now c s =
     (case map_of (s_client_sessions s) c of
        None \<Rightarrow> s
      | Some k \<Rightarrow>
          let s1 = s\<lparr>s_client_sessions := AList.delete c (s_client_sessions s)\<rparr>
          in case map_of (s_sessions s1) k of None \<Rightarrow> s1 | Some x \<Rightarrow> set_session k (drop_connection now x) s1)"

definition instant_ns :: "instant \<Rightarrow> int" where
  "instant_ns i = in_secs i * 1000000000 + int (in_nanos i)"

definition SESSION_GC_TTL_NS :: int where
  "SESSION_GC_TTL_NS = 300 * 1000000000"

text \<open>\<^verbatim>\<open>Instant::duration_since\<close> of a later instant is zero.\<close>

definition keeps_session :: "instant \<Rightarrow> session_state \<Rightarrow> bool" where
  "keeps_session now x \<longleftrightarrow>
     ss_named x \<noteq> None \<or> 0 < ss_connected_clients x
     \<or> (case ss_disconnected_at x of None \<Rightarrow> True | Some t \<Rightarrow> max 0 (instant_ns now - instant_ns t) < SESSION_GC_TTL_NS)"

definition sweep_disconnected_sessions :: "instant \<Rightarrow> scheduler_state \<Rightarrow> nat \<times> scheduler_state" where
  "sweep_disconnected_sessions now s =
     (let kept = filter (\<lambda>(_, x). keeps_session now x) (s_sessions s)
      in (length (s_sessions s) - length kept, s\<lparr>s_sessions := kept\<rparr>))"

definition bind_client_to_ready_session ::
    "instant \<Rightarrow> u64 \<Rightarrow> string \<Rightarrow> scheduler_state \<Rightarrow> session_binding option \<times> scheduler_state" where
  "bind_client_to_ready_session now c key s =
     (let old = map_of (s_client_sessions s) c; same = (old = Some key)
      in case map_of (s_sessions s) key of
           None \<Rightarrow> (None, s)
         | Some x \<Rightarrow>
             let x1 = x\<lparr>ss_connected_clients := (if same then ss_connected_clients x else ss_connected_clients x + 1),
                        ss_disconnected_at := None\<rparr>;
                 s1 = set_session key x1 s
             in case ss_named x1 of
                  None \<Rightarrow> (None, s1)
                | Some m \<Rightarrow>
                    let s2 = s1\<lparr>s_client_sessions := AList.update c key (s_client_sessions s1)\<rparr>
                    in (Some \<lparr>sb_session_id = nm_id m, sb_named_session_id = Some (nm_id m),
                              sb_scope = ss_scope x1, sb_incarnation = ss_incarnation x1\<rparr>,
                        mark_replaced_session_disconnected now old key s2))"

datatype connect_error = ConnectScope string | ConnectExhausted

text \<open>
  \<open>ins\<close> is the scope store's answer to the insertion of the client's snapshot as a root scope; it is
  asked for only when the session is refreshed or new.
\<close>

definition connect_session ::
    "instant \<Rightarrow> (string, scope_hash) result \<Rightarrow> u64 \<Rightarrow> string \<Rightarrow> bool \<Rightarrow> scheduler_state \<Rightarrow>
     (connect_error, session_binding) result \<times> scheduler_state" where
  "connect_session now ins c public_id refresh s =
     (let key = ephemeral_session_key public_id;
          old0 = map_of (s_client_sessions s) c;
          stale = (old0 = Some key \<and> map_of (s_sessions s) key = None);
          s0 = (if stale then s\<lparr>s_client_sessions := AList.delete c (s_client_sessions s)\<rparr> else s);
          old = (if stale then None else old0);
          same = (old = Some key);
          bindto = (\<lambda>x s1. (Inr \<lparr>sb_session_id = public_id, sb_named_session_id = None,
                                sb_scope = ss_scope x, sb_incarnation = ss_incarnation x\<rparr>,
                           mark_replaced_session_disconnected now old key
                             ((set_session key x s1)\<lparr>s_client_sessions := AList.update c key (s_client_sessions s1)\<rparr>)))
      in case map_of (s_sessions s0) key of
           Some x \<Rightarrow>
             let x1 = x\<lparr>ss_connected_clients := (if same then ss_connected_clients x else ss_connected_clients x + 1),
                        ss_disconnected_at := None\<rparr>
             in if refresh
                then (case ins of
                        Inl e \<Rightarrow> (Inl (ConnectScope e), s0)
                      | Inr h \<Rightarrow> bindto (x1\<lparr>ss_scope := h\<rparr>) s0)
                else bindto x1 s0
         | None \<Rightarrow>
             (case alloc_session_incarnation s0 of
                None \<Rightarrow> (Inl ConnectExhausted, s0)
              | Some (inc, s1) \<Rightarrow>
                  (case ins of
                     Inl e \<Rightarrow> (Inl (ConnectScope e), s1)
                   | Inr h \<Rightarrow>
                       bindto \<lparr>ss_scope = h, ss_incarnation = inc, ss_defaults = default_launch_defaults,
                                ss_connected_clients = 1, ss_disconnected_at = None, ss_named = None\<rparr> s1)))"

section \<open>What a client sees of a session\<close>

datatype session_scope_state = ReadyDurable | ReadyVolatile | NeedsRefresh

record session_info =
  fo_id :: string
  fo_name :: string
  fo_scope_state :: session_scope_state
  fo_scope_hash :: "string option"
  fo_connected_clients :: nat
  fo_restart_safe :: bool
  fo_current :: bool
  fo_created_at_ms :: int
  fo_updated_at_ms :: int
  fo_archived_at_ms :: "int option"

definition ready_session_info :: "scheduler_state \<Rightarrow> string \<Rightarrow> u64 \<Rightarrow> session_info option" where
  "ready_session_info s key c =
     Option.bind (map_of (s_sessions s) key) (\<lambda>x.
     Option.bind (ss_named x) (\<lambda>m.
       Some \<lparr>fo_id = nm_id m, fo_name = nm_name m,
             fo_scope_state = (if nm_scope_durable m then ReadyDurable else ReadyVolatile),
             fo_scope_hash = Some (show_scope_hash (ss_scope x)), fo_connected_clients = ss_connected_clients x,
             fo_restart_safe = nm_scope_durable m, fo_current = (map_of (s_client_sessions s) c = Some key),
             fo_created_at_ms = nm_created_at_ms m, fo_updated_at_ms = nm_updated_at_ms m,
             fo_archived_at_ms = nm_archived_at_ms m\<rparr>))"

definition unavailable_session_info :: "scheduler_state \<Rightarrow> string \<Rightarrow> session_info option" where
  "unavailable_session_info s i =
     map_option (\<lambda>u. let m = un_meta u in
       \<lparr>fo_id = nm_id m, fo_name = nm_name m, fo_scope_state = NeedsRefresh, fo_scope_hash = None,
        fo_connected_clients = 0, fo_restart_safe = False, fo_current = False,
        fo_created_at_ms = nm_created_at_ms m, fo_updated_at_ms = nm_updated_at_ms m,
        fo_archived_at_ms = nm_archived_at_ms m\<rparr>) (map_of (s_unavailable_named_sessions s) i)"

definition session_info_for_location :: "scheduler_state \<Rightarrow> named_session_location \<Rightarrow> u64 \<Rightarrow> session_info option" where
  "session_info_for_location s loc c =
     (case loc of LocReady key \<Rightarrow> ready_session_info s key c | LocNeedsRefresh i \<Rightarrow> unavailable_session_info s i)"

definition list_filter_keeps :: "named_session_list_filter \<Rightarrow> session_info \<Rightarrow> bool" where
  "list_filter_keeps f i =
     (case f of FilterActive \<Rightarrow> fo_archived_at_ms i = None | FilterArchived \<Rightarrow> fo_archived_at_ms i \<noteq> None | FilterAll \<Rightarrow> True)"

definition named_session_list :: "scheduler_state \<Rightarrow> u64 \<Rightarrow> named_session_list_filter \<Rightarrow> session_info list" where
  "named_session_list s c f =
     sort_key (\<lambda>i. (fo_created_at_ms i, fo_name i, fo_id i))
       (filter (list_filter_keeps f)
          (List.map_filter (\<lambda>(key, _). ready_session_info s key c) (s_sessions s)
           @ List.map_filter (\<lambda>(i, _). unavailable_session_info s i) (s_unavailable_named_sessions s)))"

section \<open>Persisting\<close>

definition stored_of :: "named_session_meta \<Rightarrow> scope_hash option \<Rightarrow> launch_defaults \<Rightarrow> stored_session" where
  "stored_of m h d =
     \<lparr>sd_id = nm_id m, sd_name = nm_name m, sd_scope_hash = h, sd_pty_default = ld_pty d,
      sd_wrapper_enabled = ld_wrapper_enabled d, sd_created_at_ms = nm_created_at_ms m,
      sd_updated_at_ms = nm_updated_at_ms m, sd_archived_at_ms = nm_archived_at_ms m\<rparr>"

definition persist_named_session ::
    "session_env \<Rightarrow> named_session_meta \<Rightarrow> scope_hash \<Rightarrow> launch_defaults \<Rightarrow> session_rows \<Rightarrow>
     (string, bool) result \<times> session_rows" where
  "persist_named_session v m scope d rows =
     (case upsert_session (sv_sql v) (sv_db v) (stored_of m (Some scope) d) rows of
        (Inl e, rows') \<Rightarrow> (Inl (''persist session '' @ nm_id m @ '': '' @ sv_show v e), rows')
      | (Inr durable, rows') \<Rightarrow> (Inr durable, rows'))"

definition update_client_session_scope ::
    "session_env \<Rightarrow> u64 \<Rightarrow> scope_hash \<Rightarrow> scheduler_state \<Rightarrow> session_rows \<Rightarrow>
     (string, unit) result \<times> scheduler_state \<times> session_rows" where
  "update_client_session_scope v c scope s rows =
     (case map_of (s_client_sessions s) c of
        None \<Rightarrow> (Inl ''client session handshake required'', s, rows)
      | Some key \<Rightarrow>
          (case map_of (s_sessions s) key of
             None \<Rightarrow> (Inl ''client session is unavailable'', s, rows)
           | Some x \<Rightarrow>
               (case ss_named x of
                  None \<Rightarrow> (Inr (), set_session key (x\<lparr>ss_scope := scope\<rparr>) s, rows)
                | Some m0 \<Rightarrow>
                    let m = m0\<lparr>nm_updated_at_ms := sv_now_ms v\<rparr>
                    in case persist_named_session v m scope (ss_defaults x) rows of
                         (Inl e, rows') \<Rightarrow> (Inl e, s, rows')
                       | (Inr durable, rows') \<Rightarrow>
                           (Inr (), set_session key
                              (x\<lparr>ss_scope := scope, ss_named := Some (m\<lparr>nm_scope_durable := durable\<rparr>)\<rparr>) s, rows'))))"

datatype default_field = FieldPty | FieldWrapper

definition get_default :: "default_field \<Rightarrow> launch_defaults \<Rightarrow> bool option" where
  "get_default f d = (case f of FieldPty \<Rightarrow> ld_pty d | FieldWrapper \<Rightarrow> ld_wrapper_enabled d)"

definition set_default :: "default_field \<Rightarrow> bool \<Rightarrow> launch_defaults \<Rightarrow> launch_defaults" where
  "set_default f b d = (case f of FieldPty \<Rightarrow> d\<lparr>ld_pty := Some b\<rparr> | FieldWrapper \<Rightarrow> d\<lparr>ld_wrapper_enabled := Some b\<rparr>)"

datatype session_payload = SpInfo session_info | SpList "session_info list" | SpText string

definition default_status_text :: "string \<Rightarrow> bool option \<Rightarrow> bool \<Rightarrow> string" where
  "default_status_text name cur config_default =
     name @ '' status: '' @ (if (case cur of Some b \<Rightarrow> b | None \<Rightarrow> config_default) then ''enabled'' else ''disabled'')
     @ newline_char # ''  source: '' @
       (case cur of Some True \<Rightarrow> ''session override: on'' | Some False \<Rightarrow> ''session override: off'' | None \<Rightarrow> ''config'')"

definition save_default ::
    "session_env \<Rightarrow> string \<Rightarrow> session_state \<Rightarrow> launch_defaults \<Rightarrow> string \<Rightarrow> scheduler_state \<Rightarrow> session_rows \<Rightarrow>
     session_payload response_payload \<times> scheduler_state \<times> session_rows" where
  "save_default v key x d text_out s rows =
     (case ss_named x of
        None \<Rightarrow> (RespOther (SpText text_out), set_session key (x\<lparr>ss_defaults := d\<rparr>) s, rows)
      | Some m0 \<Rightarrow>
          let m = m0\<lparr>nm_updated_at_ms := sv_now_ms v\<rparr>
          in case persist_named_session v m (ss_scope x) d rows of
               (Inl e, rows') \<Rightarrow> (RespErr ''INTERNAL'' e, s, rows')
             | (Inr durable, rows') \<Rightarrow>
                 (RespOther (SpText text_out),
                  set_session key (x\<lparr>ss_defaults := d, ss_named := Some (m\<lparr>nm_scope_durable := durable\<rparr>)\<rparr>) s, rows'))"

definition handle_session_bool_default ::
    "session_env \<Rightarrow> u64 \<Rightarrow> string option \<Rightarrow> string \<Rightarrow> bool \<Rightarrow> default_field \<Rightarrow> scheduler_state \<Rightarrow> session_rows \<Rightarrow>
     session_payload response_payload \<times> scheduler_state \<times> session_rows" where
  "handle_session_bool_default v c subcommand name config_default f s rows =
     (case map_of (s_client_sessions s) c of
        None \<Rightarrow> (RespErr ''INVALID_REQUEST'' ''client session handshake required'', s, rows)
      | Some key \<Rightarrow>
          (case map_of (s_sessions s) key of
             None \<Rightarrow> (RespErr ''INVALID_STATE'' ''client session unavailable'', s, rows)
           | Some x \<Rightarrow>
               let sub = (case subcommand of Some t \<Rightarrow> t | None \<Rightarrow> ''status'')
               in if sub = ''on'' then
                    save_default v key x (set_default f True (ss_defaults x)) (name @ '' enabled for this session'') s rows
                  else if sub = ''off'' then
                    save_default v key x (set_default f False (ss_defaults x)) (name @ '' disabled for this session'') s rows
                  else if sub = [] \<or> sub = ''status'' then
                    (RespOther (SpText (default_status_text name (get_default f (ss_defaults x)) config_default)), s, rows)
                  else
                    (RespErr ''INVALID_SYNTAX''
                       ('':'' @ name @ '' '' @ sub @ '' '' @ map char_of [226 :: nat, 128, 148]
                        @ '' expected 'on', 'off', or 'status'' @ [squote_char]), s, rows)))"

section \<open>Commands on named sessions\<close>

record session_command_result =
  scr_payload :: "session_payload response_payload"
  scr_binding :: "session_binding option"

definition session_command_response :: "session_payload response_payload \<Rightarrow> session_command_result" where
  "session_command_response p = \<lparr>scr_payload = p, scr_binding = None\<rparr>"

definition session_error :: "string \<Rightarrow> string \<Rightarrow> session_command_result" where
  "session_error code message = session_command_response (RespErr code message)"

definition missing_session :: session_command_result where
  "missing_session = session_error ''INVALID_REQUEST'' ''client session handshake required''"

definition session_not_found :: "string \<Rightarrow> session_command_result" where
  "session_not_found selector = session_error ''NOT_FOUND'' (''named session `'' @ selector @ ''` not found'')"

definition metadata_disappeared :: session_command_result where
  "metadata_disappeared = session_error ''INTERNAL'' ''named session metadata disappeared''"

definition owner_is :: "string \<Rightarrow> string option \<Rightarrow> bool" where
  "owner_is i o' \<longleftrightarrow> o' = Some i"

definition named_session_archive_blocker :: "scheduler_state \<Rightarrow> string \<Rightarrow> string option" where
  "named_session_archive_blocker s i =
     (let connected = (case find (\<lambda>(_, x). case ss_named x of Some m \<Rightarrow> nm_id m = i | None \<Rightarrow> False) (s_sessions s) of
                         Some (_, x) \<Rightarrow> ss_connected_clients x | None \<Rightarrow> 0)
      in if 0 < connected then
           Some (''named session has '' @ show_nat connected @ '' connected client(s); detach them before archiving'')
         else case find (\<lambda>(_, j). owner_is i (je_session_id j) \<and> \<not> job_is_terminal (je_status j)) (s_jobs s) of
           Some (_, j) \<Rightarrow>
             Some (''named session has non-terminal job '' @ show_job_id (je_job_id j)
                   @ ''; wait for or cancel it before archiving'')
         | None \<Rightarrow>
             if list_ex (\<lambda>(_, r). owner_is i (ps_session_id r)) (s_pending_scripts s) then
               Some ''named session has pending script work; wait for or cancel it before archiving''
             else if list_ex (\<lambda>(_, h). owner_is i (ch_session_id h)) (s_chains s) then
               Some ''named session has pending chain work; wait for or cancel it before archiving''
             else if list_ex (\<lambda>(_, e). owner_is i (en_session_id e)) (s_crons s) then
               Some ''named session owns a cron; remove it explicitly before archiving''
             else None)"

definition location_meta :: "scheduler_state \<Rightarrow> named_session_location \<Rightarrow> named_session_meta option" where
  "location_meta s loc =
     (case loc of
        LocReady key \<Rightarrow> Option.bind (map_of (s_sessions s) key) ss_named
      | LocNeedsRefresh i \<Rightarrow> map_option un_meta (map_of (s_unavailable_named_sessions s) i))"

definition set_location_meta :: "named_session_location \<Rightarrow> named_session_meta \<Rightarrow> scheduler_state \<Rightarrow> scheduler_state" where
  "set_location_meta loc m s =
     (case loc of
        LocReady key \<Rightarrow>
          (case map_of (s_sessions s) key of None \<Rightarrow> s | Some x \<Rightarrow> set_session key (x\<lparr>ss_named := Some m\<rparr>) s)
      | LocNeedsRefresh i \<Rightarrow>
          (case map_of (s_unavailable_named_sessions s) i of
             None \<Rightarrow> s
           | Some u \<Rightarrow> s\<lparr>s_unavailable_named_sessions :=
               AList.update i (u\<lparr>un_meta := m\<rparr>) (s_unavailable_named_sessions s)\<rparr>))"

type_synonym session_outcome = "session_command_result option \<times> scheduler_state \<times> session_rows"

definition set_named_session_archived ::
    "session_env \<Rightarrow> u64 \<Rightarrow> string \<Rightarrow> bool \<Rightarrow> scheduler_state \<Rightarrow> session_rows \<Rightarrow> session_outcome" where
  "set_named_session_archived v c selector archive s rows =
     (case find_named_session s selector of
        None \<Rightarrow> (Some (session_not_found selector), s, rows)
      | Some loc \<Rightarrow>
          (case location_meta s loc of
             None \<Rightarrow> (Some metadata_disappeared, s, rows)
           | Some m \<Rightarrow>
               if archive = (nm_archived_at_ms m \<noteq> None) then
                 (Some (case session_info_for_location s loc c of
                          None \<Rightarrow> metadata_disappeared
                        | Some info \<Rightarrow> session_command_response (RespOther (SpInfo info))), s, rows)
               else case (if archive then named_session_archive_blocker s (nm_id m) else None) of
                 Some blocker \<Rightarrow> (Some (session_error ''INVALID_STATE'' blocker), s, rows)
               | None \<Rightarrow>
                   let archived = (if archive then Some (sv_now_ms v) else None)
                   in case set_session_archived_at (sv_sql v) (nm_id m) archived (sv_now_ms v) rows of
                        (Inl e, rows') \<Rightarrow>
                          (Some (session_error ''INTERNAL'' (''persist named session lifecycle: '' @ sv_show v e)), s, rows')
                      | (Inr _, rows') \<Rightarrow>
                          let s1 = set_location_meta loc
                                     (m\<lparr>nm_archived_at_ms := archived, nm_updated_at_ms := sv_now_ms v\<rparr>) s
                          in (map_option (\<lambda>info. session_command_response (RespOther (SpInfo info)))
                                (session_info_for_location s1 loc c), s1, rows')))"

text \<open>Binding the client to a session just made or updated, and describing it; \<open>lost\<close> is the answer when there is none.\<close>

definition bind_and_describe ::
    "session_env \<Rightarrow> session_command_result option \<Rightarrow> u64 \<Rightarrow> string \<Rightarrow> scheduler_state \<Rightarrow> session_rows \<Rightarrow>
     session_outcome" where
  "bind_and_describe v lost c key s rows =
     (case bind_client_to_ready_session (sv_instant v) c key s of
        (None, s1) \<Rightarrow> (lost, s1, rows)
      | (Some b, s1) \<Rightarrow>
          (map_option (\<lambda>info. \<lparr>scr_payload = RespOther (SpInfo info), scr_binding = Some b\<rparr>)
             (ready_session_info s1 key c), s1, rows))"

definition session_create :: "session_env \<Rightarrow> u64 \<Rightarrow> string \<Rightarrow> scheduler_state \<Rightarrow> session_rows \<Rightarrow> session_outcome" where
  "session_create v c name s rows =
     (case validate_session_name name of
        Inl message \<Rightarrow> (Some (session_error ''INVALID_REQUEST'' message), s, rows)
      | Inr _ \<Rightarrow>
          if find_named_session s name \<noteq> None then
            (Some (session_error ''ALREADY_EXISTS'' (''named session `'' @ name @ ''` already exists'')), s, rows)
          else case session_for_client s c of
            None \<Rightarrow> (Some missing_session, s, rows)
          | Some cur \<Rightarrow>
              let i = ''SS-'' @ sv_uuid v;
                  m = \<lparr>nm_id = i, nm_name = name, nm_scope_durable = False, nm_created_at_ms = sv_now_ms v,
                       nm_updated_at_ms = sv_now_ms v, nm_archived_at_ms = None\<rparr>
              in case alloc_session_incarnation s of
                   None \<Rightarrow> (Some (session_error ''INTERNAL'' ''session incarnation space exhausted''), s, rows)
                 | Some (inc, s1) \<Rightarrow>
                     (case persist_named_session v m (ss_scope cur) (ss_defaults cur) rows of
                        (Inl e, rows') \<Rightarrow> (Some (session_error ''INTERNAL'' (''persist named session: '' @ e)), s1, rows')
                      | (Inr durable, rows') \<Rightarrow>
                          bind_and_describe v None c (named_session_key i)
                            (set_session (named_session_key i)
                               \<lparr>ss_scope = ss_scope cur, ss_incarnation = inc, ss_defaults = ss_defaults cur,
                                ss_connected_clients = 0, ss_disconnected_at = None,
                                ss_named = Some (m\<lparr>nm_scope_durable := durable\<rparr>)\<rparr> s1) rows'))"

definition attach_ready ::
    "session_env \<Rightarrow> u64 \<Rightarrow> string \<Rightarrow> string \<Rightarrow> bool \<Rightarrow> scheduler_state \<Rightarrow> session_rows \<Rightarrow> session_outcome" where
  "attach_ready v c selector key refresh s rows =
     (case (if refresh then client_scope s c else map_option ss_scope (map_of (s_sessions s) key)) of
        None \<Rightarrow> (Some missing_session, s, rows)
      | Some scope \<Rightarrow>
          (case map_of (s_sessions s) key of
             None \<Rightarrow> (Some (session_not_found selector), s, rows)
           | Some x \<Rightarrow>
               (case ss_named x of
                  None \<Rightarrow> (None, s, rows)
                | Some m0 \<Rightarrow>
                    let m = m0\<lparr>nm_updated_at_ms := sv_now_ms v\<rparr>
                    in case persist_named_session v m scope (ss_defaults x) rows of
                         (Inl e, rows') \<Rightarrow>
                           (Some (session_error ''INTERNAL'' (''persist named session attach: '' @ e)), s, rows')
                       | (Inr durable, rows') \<Rightarrow>
                           bind_and_describe v (Some (session_error ''INTERNAL'' ''named session disappeared while attaching'')) c key
                             (set_session key
                                (x\<lparr>ss_scope := scope, ss_named := Some (m\<lparr>nm_scope_durable := durable\<rparr>)\<rparr>) s) rows')))"

definition attach_needs_refresh ::
    "session_env \<Rightarrow> u64 \<Rightarrow> string \<Rightarrow> string \<Rightarrow> bool \<Rightarrow> scheduler_state \<Rightarrow> session_rows \<Rightarrow> session_outcome" where
  "attach_needs_refresh v c selector i refresh s rows =
     (if \<not> refresh then
        (Some (session_error ''INVALID_STATE'' (''named session `'' @ selector @
           ''` lost its volatile scope during daemon restart; attach with refresh=true to replace it explicitly'')), s, rows)
      else case client_scope s c of
        None \<Rightarrow> (Some missing_session, s, rows)
      | Some scope \<Rightarrow>
          (case map_of (s_unavailable_named_sessions s) i of
             None \<Rightarrow> (Some (session_not_found selector), s, rows)
           | Some u \<Rightarrow>
               let m = (un_meta u)\<lparr>nm_updated_at_ms := sv_now_ms v\<rparr>
               in case alloc_session_incarnation s of
                    None \<Rightarrow> (Some (session_error ''INTERNAL'' ''session incarnation space exhausted''), s, rows)
                  | Some (inc, s1) \<Rightarrow>
                      (case persist_named_session v m scope (un_defaults u) rows of
                         (Inl e, rows') \<Rightarrow> (Some (session_error ''INTERNAL'' (''refresh named session: '' @ e)), s1, rows')
                       | (Inr durable, rows') \<Rightarrow>
                           bind_and_describe v None c (named_session_key i)
                             (set_session (named_session_key i)
                                \<lparr>ss_scope = scope, ss_incarnation = inc, ss_defaults = un_defaults u,
                                 ss_connected_clients = 0, ss_disconnected_at = None,
                                 ss_named = Some (m\<lparr>nm_scope_durable := durable\<rparr>)\<rparr>
                                (s1\<lparr>s_unavailable_named_sessions := AList.delete i (s_unavailable_named_sessions s1)\<rparr>))
                             rows')))"

definition session_attach ::
    "session_env \<Rightarrow> u64 \<Rightarrow> string \<Rightarrow> bool \<Rightarrow> scheduler_state \<Rightarrow> session_rows \<Rightarrow> session_outcome" where
  "session_attach v c selector refresh s rows =
     (case find_named_session s selector of
        None \<Rightarrow> (Some (session_not_found selector), s, rows)
      | Some loc \<Rightarrow>
          if Option.bind (location_meta s loc) nm_archived_at_ms \<noteq> None then
            (Some (session_error ''INVALID_STATE''
               (''named session `'' @ selector @ ''` is archived; restore it before attaching'')), s, rows)
          else case loc of
            LocReady key \<Rightarrow> attach_ready v c selector key refresh s rows
          | LocNeedsRefresh i \<Rightarrow> attach_needs_refresh v c selector i refresh s rows)"

definition session_info_command :: "u64 \<Rightarrow> string option \<Rightarrow> scheduler_state \<Rightarrow> session_command_result" where
  "session_info_command c selector s =
     (case (case selector of
              Some sel \<Rightarrow> find_named_session s sel
            | None \<Rightarrow> Option.bind (map_of (s_client_sessions s) c) (\<lambda>key.
                        if Option.bind (map_of (s_sessions s) key) ss_named = None then None else Some (LocReady key))) of
        None \<Rightarrow> session_error ''NOT_FOUND'' ''client is not attached to a named session''
      | Some loc \<Rightarrow>
          (case session_info_for_location s loc c of
             Some info \<Rightarrow> session_command_response (RespOther (SpInfo info))
           | None \<Rightarrow> session_error ''NOT_FOUND'' ''named session not found''))"

definition session_list_command :: "u64 \<Rightarrow> named_session_list_filter \<Rightarrow> scheduler_state \<Rightarrow> session_command_result" where
  "session_list_command c f s = session_command_response (RespOther (SpList (named_session_list s c f)))"

definition handle_session_command ::
    "session_env \<Rightarrow> u64 \<Rightarrow> session_command \<Rightarrow> scheduler_state \<Rightarrow> session_rows \<Rightarrow> session_outcome" where
  "handle_session_command v c cmd s rows =
     (if session_for_client s c = None then (Some missing_session, s, rows)
      else case cmd of
        SessCreate name \<Rightarrow> session_create v c name s rows
      | SessList \<Rightarrow> (Some (session_list_command c FilterActive s), s, rows)
      | SessListArchived \<Rightarrow> (Some (session_list_command c FilterArchived s), s, rows)
      | SessListAll \<Rightarrow> (Some (session_list_command c FilterAll s), s, rows)
      | SessArchive selector \<Rightarrow> set_named_session_archived v c selector True s rows
      | SessRestore selector \<Rightarrow> set_named_session_archived v c selector False s rows
      | SessAttach selector refresh \<Rightarrow> session_attach v c selector refresh s rows
      | SessInfo selector \<Rightarrow> (Some (session_info_command c selector s), s, rows))"

section \<open>Restoration\<close>

datatype session_restore_error =
    RestoreSessions session_store_error
  | RestoreMissingScope string scope_hash
  | RestoreExhausted

fun missing_scope :: "session_env \<Rightarrow> stored_session list \<Rightarrow> session_restore_error option" where
  "missing_scope v [] = None"
| "missing_scope v (x # xs) =
     (case sd_scope_hash x of
        None \<Rightarrow> missing_scope v xs
      | Some h \<Rightarrow>
          (case get_scope (sv_sql v) (sv_db v) h of
             Inl e \<Rightarrow> Some (RestoreSessions (SessionSql e))
           | Inr None \<Rightarrow> Some (RestoreMissingScope (sd_id x) h)
           | Inr (Some _) \<Rightarrow> missing_scope v xs))"

definition meta_of_stored :: "stored_session \<Rightarrow> named_session_meta" where
  "meta_of_stored x =
     \<lparr>nm_id = sd_id x, nm_name = sd_name x, nm_scope_durable = (sd_scope_hash x \<noteq> None),
      nm_created_at_ms = sd_created_at_ms x, nm_updated_at_ms = sd_updated_at_ms x, nm_archived_at_ms = sd_archived_at_ms x\<rparr>"

definition defaults_of_stored :: "stored_session \<Rightarrow> launch_defaults" where
  "defaults_of_stored x = \<lparr>ld_pty = sd_pty_default x, ld_wrapper_enabled = sd_wrapper_enabled x\<rparr>"

definition restore_session :: "u64 \<Rightarrow> stored_session \<Rightarrow> scheduler_state \<Rightarrow> scheduler_state" where
  "restore_session inc x s =
     (case sd_scope_hash x of
        Some h \<Rightarrow>
          set_session (named_session_key (sd_id x))
            \<lparr>ss_scope = h, ss_incarnation = inc, ss_defaults = defaults_of_stored x, ss_connected_clients = 0,
             ss_disconnected_at = None, ss_named = Some (meta_of_stored x)\<rparr> s
      | None \<Rightarrow>
          s\<lparr>s_unavailable_named_sessions :=
              AList.update (sd_id x) \<lparr>un_meta = meta_of_stored x, un_defaults = defaults_of_stored x\<rparr>
                (s_unavailable_named_sessions s)\<rparr>)"

fun restore_sessions_loop :: "stored_session list \<Rightarrow> scheduler_state \<Rightarrow> (session_restore_error, scheduler_state) result" where
  "restore_sessions_loop [] s = Inr s"
| "restore_sessions_loop (x # xs) s =
     (case alloc_session_incarnation s of
        None \<Rightarrow> Inl RestoreExhausted
      | Some (inc, s1) \<Rightarrow> restore_sessions_loop xs (restore_session inc x s1))"

definition restore_named_sessions ::
    "session_env \<Rightarrow> session_rows \<Rightarrow> scheduler_state \<Rightarrow> (session_restore_error, scheduler_state) result" where
  "restore_named_sessions v rows s =
     (case load_sessions (sv_sql v) rows of
        Inl e \<Rightarrow> Inl (RestoreSessions e)
      | Inr xs \<Rightarrow> (case missing_scope v xs of Some e \<Rightarrow> Inl e | None \<Rightarrow> restore_sessions_loop xs s))"

end
