(* ===== verification/SessionRun.thy ===== *)
theory SessionRun
  imports Sessions
begin

text \<open>
  Runs of the session operations: every interleaving of connections, commands, scope and default
  updates, disconnections and sweeps, with failing database calls and restarts in between.  The
  invariant has two halves.  \<open>conn_inv\<close> relates the connection counts to the clients bound;
  \<open>ident_inv\<close> relates the named sessions in memory to the sessions table.
\<close>

section \<open>Views of the state\<close>

abbreviation sess :: "scheduler_state \<Rightarrow> string \<Rightarrow> session_state option" where
  "sess s \<equiv> map_of (s_sessions s)"

abbreviation bound_to :: "scheduler_state \<Rightarrow> u64 \<Rightarrow> string option" where
  "bound_to s \<equiv> map_of (s_client_sessions s)"

abbreviation unavail :: "scheduler_state \<Rightarrow> string \<Rightarrow> unavailable_named_session option" where
  "unavail s \<equiv> map_of (s_unavailable_named_sessions s)"

definition clients_of :: "(u64 \<Rightarrow> string option) \<Rightarrow> string \<Rightarrow> nat" where
  "clients_of M k = card {c. M c = Some k}"

text \<open>What identifies a session: everything but its connections.\<close>

record identity =
  id_scope :: scope_hash
  id_incarnation :: u64
  id_defaults :: launch_defaults
  id_named :: "named_session_meta option"

definition identity_of :: "session_state \<Rightarrow> identity" where
  "identity_of x = \<lparr>id_scope = ss_scope x, id_incarnation = ss_incarnation x, id_defaults = ss_defaults x, id_named = ss_named x\<rparr>"

definition idents :: "scheduler_state \<Rightarrow> string \<Rightarrow> identity option" where
  "idents s k = map_option identity_of (sess s k)"

text \<open>The row the table should hold for a named session.\<close>

definition row_of :: "identity \<Rightarrow> stored_session option" where
  "row_of y = map_option (\<lambda>m. stored_of m (if nm_scope_durable m then Some (id_scope y) else None) (id_defaults y)) (id_named y)"

definition named_view ::
    "(string \<Rightarrow> identity option) \<Rightarrow> (string \<Rightarrow> unavailable_named_session option) \<Rightarrow> string \<Rightarrow> stored_session option" where
  "named_view K U i =
     (case K (named_session_key i) of
        Some y \<Rightarrow> row_of y
      | None \<Rightarrow> map_option (\<lambda>u. stored_of (un_meta u) None (un_defaults u)) (U i))"

definition named_sessions :: "scheduler_state \<Rightarrow> string \<Rightarrow> stored_session option" where
  "named_sessions s = named_view (idents s) (unavail s)"

definition table :: "session_rows \<Rightarrow> string \<Rightarrow> stored_session option" where
  "table rows = map_of (map (\<lambda>r. (sd_id r, r)) rows)"

definition rows_ok :: "session_rows \<Rightarrow> bool" where
  "rows_ok rows \<longleftrightarrow> distinct (map sd_id rows) \<and> distinct (map sd_name rows)
     \<and> (\<forall>r\<in>set rows. starts_with (sd_id r) ''SS-'' \<and> \<not> starts_with (sd_name r) ''SS-'')"

section \<open>The invariant\<close>

definition is_archived :: "session_state \<Rightarrow> bool" where
  "is_archived x \<longleftrightarrow> (case ss_named x of Some m \<Rightarrow> nm_archived_at_ms m \<noteq> None | None \<Rightarrow> False)"

definition sess_ok :: "nat \<Rightarrow> session_state \<Rightarrow> bool" where
  "sess_ok n x \<longleftrightarrow> ss_connected_clients x = n
     \<and> (ss_named x = None \<longrightarrow> (n = 0 \<longleftrightarrow> ss_disconnected_at x \<noteq> None)) \<and> (is_archived x \<longrightarrow> n = 0)"

definition conn_ok :: "(string \<Rightarrow> session_state option) \<Rightarrow> (u64 \<Rightarrow> string option) \<Rightarrow> bool" where
  "conn_ok S M \<longleftrightarrow> (\<forall>c k. M c = Some k \<longrightarrow> S k \<noteq> None) \<and> (\<forall>k x. S k = Some x \<longrightarrow> sess_ok (clients_of M k) x)"

definition conn_inv :: "scheduler_state \<Rightarrow> bool" where
  "conn_inv s \<longleftrightarrow> distinct (map fst (s_sessions s)) \<and> distinct (map fst (s_client_sessions s))
     \<and> conn_ok (sess s) (bound_to s)"

definition key_ok :: "string \<Rightarrow> identity \<Rightarrow> bool" where
  "key_ok k y \<longleftrightarrow> (case id_named y of None \<Rightarrow> \<exists>i. k = ephemeral_session_key i | Some m \<Rightarrow> k = named_session_key (nm_id m))"

definition ident_inv ::
    "(string \<Rightarrow> identity option) \<Rightarrow> (string \<Rightarrow> unavailable_named_session option) \<Rightarrow> u64 \<Rightarrow> session_rows \<Rightarrow> bool" where
  "ident_inv K U nxt rows \<longleftrightarrow>
     (\<forall>k y. K k = Some y \<longrightarrow> id_incarnation y < nxt \<and> key_ok k y)
     \<and> (\<forall>k y k' y'. K k = Some y \<longrightarrow> K k' = Some y' \<longrightarrow> id_incarnation y = id_incarnation y' \<longrightarrow> k = k')
     \<and> (\<forall>i u. U i = Some u \<longrightarrow> nm_id (un_meta u) = i \<and> K (named_session_key i) = None)
     \<and> rows_ok rows \<and> named_view K U = table rows"

definition sched_inv :: "scheduler_state \<Rightarrow> session_rows \<Rightarrow> bool" where
  "sched_inv s rows \<longleftrightarrow> conn_inv s \<and> distinct (map fst (s_unavailable_named_sessions s))
     \<and> ident_inv (idents s) (unavail s) (s_next_session_incarnation s) rows"

section \<open>Counting clients\<close>

lemma finite_clients: "finite {c. map_of M c = Some k}"
  by (rule finite_subset [OF _ finite_dom_map_of [of M]]) auto

lemma clients_of_other: "M c \<noteq> Some k \<Longrightarrow> v \<noteq> Some k \<Longrightarrow> clients_of (M(c := v)) k = clients_of M k"
  unfolding clients_of_def by (rule arg_cong [of _ _ card]) auto

lemma clients_of_same: "M c = Some k \<Longrightarrow> clients_of (M(c \<mapsto> k)) k = clients_of M k"
  unfolding clients_of_def by (rule arg_cong [of _ _ card]) auto

lemma clients_of_add:
  assumes "finite {c. M c = Some k}" "M c \<noteq> Some k"
  shows "clients_of (M(c \<mapsto> k)) k = Suc (clients_of M k)"
proof -
  have "{c'. (M(c \<mapsto> k)) c' = Some k} = insert c {c. M c = Some k}" by auto
  then show ?thesis using assms by (simp add: clients_of_def)
qed

lemma clients_of_remove:
  assumes "finite {c. M c = Some k}" "M c = Some k" "v \<noteq> Some k"
  shows "clients_of M k = Suc (clients_of (M(c := v)) k)"
proof -
  have "{c. M c = Some k} = insert c {c'. (M(c := v)) c' = Some k}" using assms by auto
  moreover have "c \<notin> {c'. (M(c := v)) c' = Some k}" using assms by auto
  moreover have "finite {c'. (M(c := v)) c' = Some k}" by (rule finite_subset [OF _ assms(1)]) (auto simp: assms(3))
  ultimately show ?thesis by (simp add: clients_of_def)
qed

lemma clients_of_pos: "map_of M c = Some k \<Longrightarrow> 0 < clients_of (map_of M) k"
  by (auto simp: clients_of_def card_gt_0_iff finite_clients)

lemma clients_of_zero: "clients_of (map_of M) k = 0 \<longleftrightarrow> (\<forall>c. map_of M c \<noteq> Some k)"
  by (auto simp: clients_of_def finite_clients)

lemma sess_ok_drop: "sess_ok (Suc n) x \<Longrightarrow> sess_ok n (drop_connection now x)"
  by (auto simp: sess_ok_def drop_connection_def is_archived_def Let_def split: option.splits)

lemma identity_drop [simp]: "identity_of (drop_connection now x) = identity_of x"
  by (simp add: identity_of_def drop_connection_def Let_def)

section \<open>Binding and unbinding\<close>

lemma sess_set [simp]: "sess (set_session k x s) = (sess s)(k \<mapsto> x)"
  by (simp add: set_session_def update_conv')

lemma set_session_fields [simp]:
  "s_client_sessions (set_session k x s) = s_client_sessions s"
  "s_unavailable_named_sessions (set_session k x s) = s_unavailable_named_sessions s"
  "s_next_session_incarnation (set_session k x s) = s_next_session_incarnation s"
  by (simp_all add: set_session_def)

lemma distinct_set [simp]: "distinct (map fst (s_sessions s)) \<Longrightarrow> distinct (map fst (s_sessions (set_session k x s)))"
  by (simp add: set_session_def distinct_update)

lemma idents_set [simp]: "idents (set_session k x s) = (idents s)(k \<mapsto> identity_of x)"
  by (auto simp: idents_def fun_eq_iff)

text \<open>Binding client \<open>c\<close> to \<open>key\<close> and releasing the session it had.\<close>

definition rebind :: "instant \<Rightarrow> u64 \<Rightarrow> string \<Rightarrow> session_state \<Rightarrow> scheduler_state \<Rightarrow> scheduler_state" where
  "rebind now c key x s =
     mark_replaced_session_disconnected now (bound_to s c) key
       ((set_session key x s)\<lparr>s_client_sessions := AList.update c key (s_client_sessions s)\<rparr>)"

lemma rebind_fields [simp]:
  "bound_to (rebind now c key x s) = (bound_to s)(c \<mapsto> key)"
  "s_unavailable_named_sessions (rebind now c key x s) = s_unavailable_named_sessions s"
  "s_next_session_incarnation (rebind now c key x s) = s_next_session_incarnation s"
  by (auto simp: rebind_def mark_replaced_session_disconnected_def update_conv' set_session_def split: option.splits)

lemma sess_rebind:
  "sess (rebind now c key x s) =
     (case bound_to s c of
        None \<Rightarrow> (sess s)(key \<mapsto> x)
      | Some k \<Rightarrow> if k = key then (sess s)(key \<mapsto> x)
                  else (case sess s k of None \<Rightarrow> (sess s)(key \<mapsto> x)
                        | Some y \<Rightarrow> (sess s)(key \<mapsto> x, k \<mapsto> drop_connection now y)))"
  by (auto simp: rebind_def mark_replaced_session_disconnected_def set_session_def update_conv' split: option.splits)

lemma idents_rebind: "idents (rebind now c key x s) = (idents s)(key \<mapsto> identity_of x)"
  by (auto simp: idents_def sess_rebind fun_eq_iff split: option.splits if_splits)

lemma conn_okD:
  "conn_ok S M \<Longrightarrow> M c = Some k \<Longrightarrow> \<exists>x. S k = Some x"
  "conn_ok S M \<Longrightarrow> S k = Some x \<Longrightarrow> sess_ok (clients_of M k) x"
  by (auto simp: conn_ok_def)

lemma conn_ok_rebind:
  assumes ok: "conn_ok S M" and fin: "\<And>k. finite {c. M c = Some k}"
    and cnt: "ss_connected_clients x = (if M c = Some key then clients_of M key else Suc (clients_of M key))"
    and live: "ss_disconnected_at x = None" "\<not> is_archived x"
    and S': "S' = (case M c of
        None \<Rightarrow> S(key \<mapsto> x)
      | Some k \<Rightarrow> if k = key then S(key \<mapsto> x)
                  else (case S k of None \<Rightarrow> S(key \<mapsto> x) | Some y \<Rightarrow> S(key \<mapsto> x, k \<mapsto> drop_connection now y)))"
  shows "conn_ok S' (M(c \<mapsto> key))"
proof -
  have dom: "S' k \<noteq> None" if "(M(c \<mapsto> key)) c' = Some k" for c' k
    using that conn_okD(1) [OF ok] unfolding S' by (auto split: option.splits if_splits)
  have cx: "ss_connected_clients x = clients_of (M(c \<mapsto> key)) key"
    using cnt clients_of_same [of M c key] clients_of_add [OF fin, of c key] by auto
  have pos: "0 < clients_of (M(c \<mapsto> key)) key"
    using cnt cx fin [of key] by (cases "M c = Some key") (auto simp: clients_of_def card_gt_0_iff)
  have "sess_ok (clients_of (M(c \<mapsto> key)) k) y" if y: "S' k = Some y" for k y
  proof (cases "k = key")
    case True
    then have "y = x" using y by (auto simp: S' split: option.splits if_splits)
    then show ?thesis using True cx pos live by (auto simp: sess_ok_def)
  next
    case False
    show ?thesis
    proof (cases "M c = Some k")
      case old: True
      then obtain z where z: "S k = Some z" using conn_okD(1) [OF ok] by blast
      then have "y = drop_connection now z" using y old False by (simp add: S')
      then show ?thesis
        using clients_of_remove [OF fin old, of "Some key"] conn_okD(2) [OF ok z] False sess_ok_drop by simp
    next
      case other: False
      then have "S k = Some y" using y False by (auto simp: S' split: option.splits if_splits)
      then show ?thesis using clients_of_other [of M c k "Some key"] other conn_okD(2) [OF ok] False by simp
    qed
  qed
  then show ?thesis using dom by (auto simp: conn_ok_def)
qed

lemma conn_inv_rebind:
  assumes inv: "conn_inv s"
    and cnt: "ss_connected_clients x = (if bound_to s c = Some key then clients_of (bound_to s) key else Suc (clients_of (bound_to s) key))"
    and live: "ss_disconnected_at x = None" "\<not> is_archived x"
  shows "conn_inv (rebind now c key x s)"
proof -
  have "distinct (map fst (s_sessions (rebind now c key x s)))"
    using inv unfolding conn_inv_def rebind_def mark_replaced_session_disconnected_def
    by (auto simp: set_session_def distinct_update split: option.split)
  moreover have "distinct (map fst (s_client_sessions (rebind now c key x s)))"
    using inv unfolding conn_inv_def rebind_def mark_replaced_session_disconnected_def
    by (auto simp: distinct_update split: option.split)
  moreover have "conn_ok (sess (rebind now c key x s)) ((bound_to s)(c \<mapsto> key))"
    using inv by (intro conn_ok_rebind [OF _ finite_clients cnt live sess_rebind]) (simp add: conn_inv_def)
  ultimately show ?thesis by (simp add: conn_inv_def)
qed

lemma conn_ok_set:
  assumes "conn_ok S M" "sess_ok (clients_of M k) y"
  shows "conn_ok (S(k \<mapsto> y)) M"
  using assms by (auto simp: conn_ok_def)

lemma conn_inv_set_session:
  assumes "conn_inv s" "sess s k = Some x" "ss_connected_clients y = ss_connected_clients x"
    "ss_disconnected_at y = ss_disconnected_at x" "is_archived y \<Longrightarrow> ss_connected_clients x = 0"
    "ss_named y = None \<longleftrightarrow> ss_named x = None"
  shows "conn_inv (set_session k y s)"
proof -
  have c: "conn_ok (sess s) (bound_to s)" using assms(1) by (simp add: conn_inv_def)
  have "sess_ok (clients_of (bound_to s) k) y"
    using conn_okD(2) [OF c assms(2)] assms(3-) by (auto simp: sess_ok_def)
  then show ?thesis using assms(1) conn_ok_set [OF c] by (simp add: conn_inv_def)
qed

lemma conn_inv_new_session:
  assumes "conn_inv s" "sess s k = None" "ss_connected_clients y = 0" "ss_named y \<noteq> None"
  shows "conn_inv (set_session k y s)"
proof -
  have c: "conn_ok (sess s) (bound_to s)" using assms(1) by (simp add: conn_inv_def)
  have "clients_of (bound_to s) k = 0" unfolding clients_of_zero using conn_okD(1) [OF c] assms(2) by fastforce
  then have "sess_ok (clients_of (bound_to s) k) y" using assms(3,4) by (auto simp: sess_ok_def)
  then show ?thesis using assms(1) conn_ok_set [OF c] by (simp add: conn_inv_def)
qed

lemma conn_ok_remove:
  assumes ok: "conn_ok S M" and fin: "\<And>k. finite {c. M c = Some k}" and k: "M c = Some k" "S k = Some x"
  shows "conn_ok (S(k \<mapsto> drop_connection now x)) (M(c := None))"
proof -
  have "sess_ok (clients_of (M(c := None)) k) (drop_connection now x)"
    using clients_of_remove [OF fin k(1), of None] conn_okD(2) [OF ok k(2)] sess_ok_drop by simp
  moreover have "sess_ok (clients_of (M(c := None)) k') y" if "k' \<noteq> k" "S k' = Some y" for k' y
    using clients_of_other [of M c k' None] k(1) that conn_okD(2) [OF ok] by simp
  ultimately show ?thesis using conn_okD(1) [OF ok] by (auto simp: conn_ok_def)
qed

lemma conn_inv_disconnect: "conn_inv s \<Longrightarrow> conn_inv (disconnect_session now c s)"
proof (cases "bound_to s c")
  case (Some k)
  assume inv: "conn_inv s"
  then have c: "conn_ok (sess s) (bound_to s)" by (simp add: conn_inv_def)
  then obtain x where x: "sess s k = Some x" using conn_okD(1) [OF c Some] by blast
  have s: "disconnect_session now c s = set_session k (drop_connection now x)
      (s\<lparr>s_client_sessions := AList.delete c (s_client_sessions s)\<rparr>)"
    using Some x by (simp add: disconnect_session_def)
  have "conn_ok (sess (disconnect_session now c s)) (bound_to (disconnect_session now c s))"
    using conn_ok_remove [OF c finite_clients Some x] by (simp add: s delete_conv')
  then show ?thesis using inv by (simp add: conn_inv_def s distinct_delete)
qed (simp add: disconnect_session_def)

lemma conn_inv_sweep: "conn_inv s \<Longrightarrow> conn_inv (snd (sweep_disconnected_sessions now s))"
proof -
  assume inv: "conn_inv s"
  then have c: "conn_ok (sess s) (bound_to s)" and d: "distinct (map fst (s_sessions s))" by (simp_all add: conn_inv_def)
  let ?S = "map_of (filter (\<lambda>(_, x). keeps_session now x) (s_sessions s))"
  have S: "?S k = (case sess s k of None \<Rightarrow> None | Some x \<Rightarrow> if keeps_session now x then Some x else None)" for k
    using map_of_filter_map [OF d, of "keeps_session now" "\<lambda>x. x"] by simp
  have "?S k \<noteq> None" if cl: "bound_to s cl = Some k" for cl k
  proof -
    obtain x where x: "sess s k = Some x" using conn_okD(1) [OF c cl] by blast
    then have "0 < ss_connected_clients x"
      using conn_okD(2) [OF c x] clients_of_pos [OF cl] by (simp add: sess_ok_def)
    then show ?thesis using x S by (simp add: keeps_session_def)
  qed
  moreover have "sess_ok (clients_of (bound_to s) k) x" if "?S k = Some x" for k x
    using that S conn_okD(2) [OF c] by (simp split: option.splits if_splits)
  ultimately have "conn_ok ?S (bound_to s)" by (auto simp: conn_ok_def)
  then show ?thesis using inv d by (simp add: conn_inv_def sweep_disconnected_sessions_def Let_def distinct_map_filter)
qed

section \<open>The table\<close>

lemma named_key_inj [simp]: "named_session_key i = named_session_key j \<longleftrightarrow> i = j"
  by (simp add: named_session_key_def)

lemma named_not_ephemeral [simp]:
  "named_session_key i \<noteq> ephemeral_session_key j" "ephemeral_session_key j \<noteq> named_session_key i"
  by (simp_all add: named_session_key_def ephemeral_session_key_def)

lemma table_Some: "rows_ok rows \<Longrightarrow> table rows i = Some r \<longleftrightarrow> r \<in> set rows \<and> sd_id r = i"
  by (auto simp: table_def rows_ok_def comp_def intro!: map_of_is_SomeI dest!: map_of_SomeD)

lemma table_None: "table rows i = None \<longleftrightarrow> (\<forall>r\<in>set rows. sd_id r \<noteq> i)"
  unfolding table_def map_of_eq_None_iff by (simp add: image_iff) blast

lemma table_None_ids: "table rows i = None \<longleftrightarrow> i \<notin> set (map sd_id rows)"
  by (auto simp: table_None)

lemma table_snoc: "table (rows @ [y]) i = (case table rows i of Some r \<Rightarrow> Some r | None \<Rightarrow> if i = sd_id y then Some y else None)"
  by (simp add: table_def map_add_def split: option.split)

lemma table_cong:
  assumes "rows_ok rows" "rows_ok rows'" "set rows = set rows'"
  shows "table rows = table rows'"
proof
  fix i
  have "table rows i = Some r \<longleftrightarrow> table rows' i = Some r" for r
    using table_Some [OF assms(1)] table_Some [OF assms(2)] assms(3) by simp
  then show "table rows i = table rows' i" by (metis option.exhaust)
qed

lemma upsert_error: "upsert_session sql d x rows = (Inl e, rows') \<Longrightarrow> rows' = rows"
  by (auto simp: upsert_session_def Let_def split: sum.splits if_splits)

lemma upsert_ok:
  assumes up: "upsert_session sql d x rows = (Inr durable, rows')" and ok: "rows_ok rows"
    and created: "\<And>r. table rows (sd_id x) = Some r \<Longrightarrow> sd_created_at_ms r = sd_created_at_ms x"
    and pre: "starts_with (sd_id x) ''SS-''" "\<not> starts_with (sd_name x) ''SS-''"
    and scope: "sd_scope_hash x = Some h"
  shows "rows_ok rows' \<and> table rows' = (table rows)(sd_id x \<mapsto> x\<lparr>sd_scope_hash := (if durable then Some h else None)\<rparr>)"
proof -
  define y where "y = x\<lparr>sd_scope_hash := (if durable then Some h else None)\<rparr>"
  have y: "sd_id y = sd_id x" "sd_name y = sd_name x" "sd_created_at_ms y = sd_created_at_ms x" by (simp_all add: y_def)
  let ?upd = "map (\<lambda>r. if sd_id r = sd_id x then y else r) rows"
  have sql: "sql" using up by (cases sql) (simp_all add: upsert_session_def scope durable_scope_reference_def is_persisted_scope_def)
  have ref: "durable_scope_reference sql d (Some h) = Inr (if h \<in> scope_hashes d then Some h else None)"
    using sql by (simp add: durable_scope_reference_def is_persisted_scope_def)
  have nm: "\<forall>r\<in>set rows. sd_name r = sd_name x \<longrightarrow> sd_id r = sd_id x"
    using up by (auto simp: upsert_session_def scope ref list_ex_iff split: if_splits)
  then have nex: "\<not> list_ex (\<lambda>r. sd_name r = sd_name x \<and> sd_id r \<noteq> sd_id x) rows" by (auto simp: list_ex_iff)
  note up' = up [unfolded upsert_session_def scope ref sum.case Let_def if_not_P [OF nex]]
  have durable: "durable \<longleftrightarrow> h \<in> scope_hashes d" using up' sql nex by (auto split: if_splits)
  have same: "sd_created_at_ms r = sd_created_at_ms x" if "r \<in> set rows" "sd_id r = sd_id x" for r
    using created [of r] table_Some [OF ok] that by simp
  have "rows' = (if list_ex (\<lambda>r. sd_id r = sd_id x) rows
      then map (\<lambda>r. if sd_id r = sd_id x then y\<lparr>sd_created_at_ms := sd_created_at_ms r\<rparr> else r) rows else rows @ [y])"
    using up' sql nex durable unfolding y_def by (cases "h \<in> scope_hashes d") auto
  moreover have "map (\<lambda>r. if sd_id r = sd_id x then y\<lparr>sd_created_at_ms := sd_created_at_ms r\<rparr> else r) rows = ?upd"
    using same y(3) by (intro map_cong) (simp_all split: if_splits)
  ultimately have rows': "rows' = (if \<exists>r\<in>set rows. sd_id r = sd_id x then ?upd else rows @ [y])"
    by (simp add: list_ex_iff)
  show ?thesis
  proof (cases "\<exists>r\<in>set rows. sd_id r = sd_id x")
    case True
    have ids: "map sd_id ?upd = map sd_id rows" by (simp add: y cong: map_cong)
    have inj: "inj_on sd_name (set ?upd)"
    proof (rule inj_onI)
      fix a b assume ab: "a \<in> set ?upd" "b \<in> set ?upd" "sd_name a = sd_name b"
      have "inj_on sd_name (set rows)" using ok by (simp add: rows_ok_def distinct_map)
      then show "a = b" using ab nm by (auto simp: y split: if_splits dest: inj_onD)
    qed
    have d: "distinct (map sd_id ?upd)" unfolding ids using ok by (simp only: rows_ok_def)
    then have "distinct ?upd" by (simp only: distinct_map)
    then have "distinct (map sd_name ?upd)" using inj by (simp only: distinct_map)
    moreover have "\<forall>r\<in>set ?upd. starts_with (sd_id r) ''SS-'' \<and> \<not> starts_with (sd_name r) ''SS-''"
      using ok pre by (auto simp: rows_ok_def y)
    ultimately have ok': "rows_ok ?upd" using d unfolding rows_ok_def by blast
    have "table ?upd i = ((table rows)(sd_id x \<mapsto> y)) i" for i
    proof (cases "table ?upd i")
      case None
      then have n: "i \<notin> set (map sd_id rows)" unfolding table_None_ids ids .
      then have "i \<noteq> sd_id x" using True by (metis image_eqI set_map)
      moreover have "table rows i = None" using n by (simp only: table_None_ids not_False_eq_True)
      ultimately show ?thesis using None by (simp only: fun_upd_apply if_False)
    next
      case (Some r)
      then have r: "r \<in> set ?upd" "sd_id r = i" using table_Some [OF ok', of i r] by blast+
      then show ?thesis using Some table_Some [OF ok, of i r] by (auto simp: y split: if_splits)
    qed
    then show ?thesis using ok' True rows' unfolding y_def [symmetric] by (simp add: fun_eq_iff)
  next
    case False
    have ok': "rows_ok (rows @ [y])" using ok False nm pre by (auto simp: rows_ok_def y)
    have "table (rows @ [y]) i = ((table rows)(sd_id x \<mapsto> y)) i" for i
      using False table_None [of rows "sd_id x"] by (auto simp: y table_snoc split: option.split)
    then show ?thesis using ok' False rows' unfolding y_def [symmetric] by (simp add: fun_eq_iff)
  qed
qed

lemma persist_error: "persist_named_session v m scope d rows = (Inl e, rows') \<Longrightarrow> rows' = rows"
  using upsert_error by (fastforce simp: persist_named_session_def split: prod.splits sum.splits)

lemma stored_of_simps [simp]:
  "sd_id (stored_of m h d) = nm_id m" "sd_name (stored_of m h d) = nm_name m"
  "sd_created_at_ms (stored_of m h d) = nm_created_at_ms m" "sd_scope_hash (stored_of m h d) = h"
  "(stored_of m h d)\<lparr>sd_scope_hash := h'\<rparr> = stored_of m h' d"
  "stored_of (m\<lparr>nm_scope_durable := b\<rparr>) h d = stored_of m h d"
  by (simp_all add: stored_of_def)

lemma persist_ok:
  assumes "persist_named_session v m scope d rows = (Inr durable, rows')" and ok: "rows_ok rows"
    and created: "\<And>r. table rows (nm_id m) = Some r \<Longrightarrow> sd_created_at_ms r = nm_created_at_ms m"
    and pre: "starts_with (nm_id m) ''SS-''" "\<not> starts_with (nm_name m) ''SS-''"
  shows "rows_ok rows' \<and> table rows' = (table rows)(nm_id m := row_of
      \<lparr>id_scope = scope, id_incarnation = inc, id_defaults = d, id_named = Some (m\<lparr>nm_scope_durable := durable\<rparr>)\<rparr>)"
proof -
  have "upsert_session (sv_sql v) (sv_db v) (stored_of m (Some scope) d) rows = (Inr durable, rows')"
    using assms(1) by (auto simp: persist_named_session_def split: prod.splits sum.splits)
  from upsert_ok [OF this ok] show ?thesis using created pre by (simp add: row_of_def)
qed

section \<open>Identities\<close>

lemma ident_put_named:
  assumes inv: "ident_inv K U nxt rows" and named: "id_named y = Some m" "nm_id m = i"
    and inc: "\<And>k z. K k = Some z \<Longrightarrow> id_incarnation z = id_incarnation y \<Longrightarrow> k = named_session_key i"
      "id_incarnation y < nxt'" "nxt \<le> nxt'"
    and rows: "rows_ok rows'" "table rows' = (table rows)(i := row_of y)"
  shows "ident_inv (K(named_session_key i \<mapsto> y)) (U(i := None)) nxt' rows'"
proof -
  let ?K = "K(named_session_key i \<mapsto> y)" and ?U = "U(i := None)"
  have "named_view ?K ?U = (named_view K U)(i := row_of y)"
    by (auto simp: named_view_def fun_eq_iff split: option.splits)
  moreover have "\<forall>k z. K k = Some z \<longrightarrow> id_incarnation z < nxt'"
    using inv inc(3) by (auto simp: ident_inv_def intro: less_le_trans)
  moreover have "key_ok (named_session_key i) y" using named by (simp add: key_ok_def)
  ultimately show ?thesis
    using inv inc rows unfolding ident_inv_def by (auto split: if_splits)
qed

lemma ident_put_ephemeral:
  assumes inv: "ident_inv K U nxt rows" and named: "id_named y = None"
    and inc: "\<And>k z. K k = Some z \<Longrightarrow> id_incarnation z = id_incarnation y \<Longrightarrow> k = ephemeral_session_key i"
      "id_incarnation y < nxt'" "nxt \<le> nxt'"
  shows "ident_inv (K(ephemeral_session_key i \<mapsto> y)) U nxt' rows"
proof -
  let ?K = "K(ephemeral_session_key i \<mapsto> y)"
  have "named_view ?K U = named_view K U" by (auto simp: named_view_def fun_eq_iff)
  moreover have "\<forall>k z. K k = Some z \<longrightarrow> id_incarnation z < nxt'"
    using inv inc(3) by (auto simp: ident_inv_def intro: less_le_trans)
  moreover have "key_ok (ephemeral_session_key i) y" using named by (auto simp: key_ok_def)
  ultimately show ?thesis
    using inv inc unfolding ident_inv_def by (auto split: if_splits)
qed

lemma ident_next: "ident_inv K U nxt rows \<Longrightarrow> nxt \<le> nxt' \<Longrightarrow> ident_inv K U nxt' rows"
  unfolding ident_inv_def by (auto intro: less_le_trans)

lemma ident_incarnation: "ident_inv K U nxt rows \<Longrightarrow> K k = Some y \<Longrightarrow> id_incarnation y < nxt"
  by (auto simp: ident_inv_def)

lemma ident_key: "ident_inv K U nxt rows \<Longrightarrow> K k = Some y \<Longrightarrow> key_ok k y"
  by (auto simp: ident_inv_def)

lemma ident_named:
  assumes "ident_inv K U nxt rows" "K k = Some y" "id_named y = Some m"
  shows "k = named_session_key (nm_id m)" "table rows (nm_id m) = row_of y"
    "starts_with (nm_id m) ''SS-''" "\<not> starts_with (nm_name m) ''SS-''" "U (nm_id m) = None"
proof -
  have "key_ok k y" using assms by (auto simp: ident_inv_def)
  then show k: "k = named_session_key (nm_id m)" using assms(3) by (simp add: key_ok_def)
  have v: "named_view K U = table rows" and ok: "rows_ok rows" using assms(1) by (simp_all add: ident_inv_def)
  show t: "table rows (nm_id m) = row_of y" using assms(2) k by (simp add: v [symmetric] named_view_def)
  then have "table rows (nm_id m) = Some (stored_of m (if nm_scope_durable m then Some (id_scope y) else None) (id_defaults y))"
    using assms(3) by (simp add: row_of_def)
  then show "starts_with (nm_id m) ''SS-''" "\<not> starts_with (nm_name m) ''SS-''"
    using table_Some [OF ok] ok by (fastforce simp: rows_ok_def)+
  show "U (nm_id m) = None" using assms(1,2) k by (cases "U (nm_id m)") (auto simp: ident_inv_def)
qed

lemma ident_unavailable:
  assumes "ident_inv K U nxt rows" "U i = Some u"
  shows "nm_id (un_meta u) = i" "K (named_session_key i) = None"
    "table rows i = Some (stored_of (un_meta u) None (un_defaults u))"
    "starts_with i ''SS-''" "\<not> starts_with (nm_name (un_meta u)) ''SS-''"
proof -
  show i: "nm_id (un_meta u) = i" and k: "K (named_session_key i) = None" using assms by (auto simp: ident_inv_def)
  have v: "named_view K U = table rows" and ok: "rows_ok rows" using assms(1) by (simp_all add: ident_inv_def)
  show t: "table rows i = Some (stored_of (un_meta u) None (un_defaults u))"
    using assms(2) k by (simp add: v [symmetric] named_view_def)
  show "starts_with i ''SS-''" "\<not> starts_with (nm_name (un_meta u)) ''SS-''"
    using t table_Some [OF ok] ok i by (fastforce simp: rows_ok_def)+
qed

lemma word_less_succ: "n \<noteq> - 1 \<Longrightarrow> n < n + (1 :: 'a :: len word)"
proof -
  assume "n \<noteq> - 1"
  then have "n + 1 \<noteq> 0" by (metis add.commute add_eq_0_iff)
  then have "unat (n + 1) = Suc (unat n)" by (metis Suc_eq_plus1_left add.commute unatSuc)
  then show ?thesis by (simp add: word_less_nat_alt)
qed

lemma alloc_next:
  "alloc_session_incarnation s = Some (inc, s1) \<Longrightarrow>
     inc = s_next_session_incarnation s \<and> s1 = s\<lparr>s_next_session_incarnation := inc + 1\<rparr> \<and> inc < inc + 1"
  by (auto simp: alloc_session_incarnation_def split: if_splits intro: word_less_succ)

section \<open>Every operation keeps the invariant\<close>

lemma sched_invI:
  assumes "conn_inv s'" "ident_inv (idents s') (unavail s') (s_next_session_incarnation s') rows'"
    "distinct (map fst (s_unavailable_named_sessions s'))"
  shows "sched_inv s' rows'"
  using assms by (simp add: sched_inv_def)

lemma sched_invD:
  assumes "sched_inv s rows"
  shows "conn_inv s" "conn_ok (sess s) (bound_to s)" "distinct (map fst (s_unavailable_named_sessions s))"
    "ident_inv (idents s) (unavail s) (s_next_session_incarnation s) rows" "rows_ok rows"
  using assms by (simp_all add: sched_inv_def conn_inv_def ident_inv_def)

lemma identsI: "sess s k = Some x \<Longrightarrow> idents s k = Some (identity_of x)"
  by (simp add: idents_def)

lemma idents_frame [simp]:
  "idents (s\<lparr>s_next_session_incarnation := n\<rparr>) = idents s"
  "idents (s\<lparr>s_unavailable_named_sessions := u\<rparr>) = idents s"
  "idents (s\<lparr>s_client_sessions := cs\<rparr>) = idents s"
  by (simp_all add: idents_def fun_eq_iff)

lemma idents_noop: "sess s k = Some x \<Longrightarrow> identity_of y = identity_of x \<Longrightarrow> (idents s)(k \<mapsto> identity_of y) = idents s"
  by (auto simp: idents_def fun_eq_iff)

lemma id_named_of [simp]: "id_named (identity_of x) = ss_named x" "id_incarnation (identity_of x) = ss_incarnation x"
  by (simp_all add: identity_of_def)

lemma disconnect_inv [component_inv]: "sched_inv s rows \<Longrightarrow> sched_inv (disconnect_session now c s) rows"
proof (rule sched_invI)
  assume inv: "sched_inv s rows"
  show "conn_inv (disconnect_session now c s)" using inv conn_inv_disconnect by (simp add: sched_inv_def)
  have "idents (disconnect_session now c s) = idents s"
    by (auto simp: disconnect_session_def Let_def idents_noop idents_def fun_eq_iff split: option.splits)
  moreover have "s_unavailable_named_sessions (disconnect_session now c s) = s_unavailable_named_sessions s"
    "s_next_session_incarnation (disconnect_session now c s) = s_next_session_incarnation s"
    by (simp_all add: disconnect_session_def Let_def split: option.splits)
  ultimately show "ident_inv (idents (disconnect_session now c s)) (unavail (disconnect_session now c s))
      (s_next_session_incarnation (disconnect_session now c s)) rows"
    "distinct (map fst (s_unavailable_named_sessions (disconnect_session now c s)))"
    using inv by (simp_all add: sched_inv_def)
qed

lemma sweep_inv [component_inv]: "sched_inv s rows \<Longrightarrow> sched_inv (snd (sweep_disconnected_sessions now s)) rows"
proof (rule sched_invI)
  let ?s = "snd (sweep_disconnected_sessions now s)"
  assume inv: "sched_inv s rows"
  then have d: "distinct (map fst (s_sessions s))" by (simp add: sched_inv_def conn_inv_def)
  show "conn_inv ?s" using inv conn_inv_sweep by (simp add: sched_inv_def)
  show "distinct (map fst (s_unavailable_named_sessions ?s))"
    using inv by (simp add: sched_inv_def sweep_disconnected_sessions_def Let_def)
  have S: "sess ?s k = (case sess s k of None \<Rightarrow> None | Some x \<Rightarrow> if keeps_session now x then Some x else None)" for k
    using map_of_filter_map [OF d, of "keeps_session now" "\<lambda>x. x"] by (simp add: sweep_disconnected_sessions_def Let_def)
  have sub: "idents s k = Some y" if "idents ?s k = Some y" for k y
    using that S by (auto simp: idents_def split: option.splits if_splits)
  have nm: "idents ?s (named_session_key i) = idents s (named_session_key i)" for i
  proof (cases "sess s (named_session_key i)")
    case (Some x)
    then have "key_ok (named_session_key i) (identity_of x)"
      using inv identsI [OF Some] by (auto simp: sched_inv_def ident_inv_def)
    then have "ss_named x \<noteq> None" by (auto simp: key_ok_def split: option.splits)
    then show ?thesis using S Some by (simp add: idents_def keeps_session_def)
  qed (simp add: idents_def S)
  have "named_view (idents ?s) (unavail s) = named_view (idents s) (unavail s)"
    by (simp add: named_view_def nm fun_eq_iff)
  moreover have "s_unavailable_named_sessions ?s = s_unavailable_named_sessions s"
    "s_next_session_incarnation ?s = s_next_session_incarnation s"
    by (simp_all add: sweep_disconnected_sessions_def Let_def)
  ultimately show "ident_inv (idents ?s) (unavail ?s) (s_next_session_incarnation ?s) rows"
    using inv sub nm unfolding sched_inv_def ident_inv_def by (metis (no_types, lifting))
qed

lemma rebind_inv:
  assumes inv: "sched_inv s rows" and x: "sess s key = Some x" and y: "y = x\<lparr>ss_connected_clients :=
      (if bound_to s c = Some key then ss_connected_clients x else ss_connected_clients x + 1), ss_disconnected_at := None\<rparr>"
    and live: "\<not> is_archived x"
  shows "sched_inv (rebind now c key y s) rows"
proof (rule sched_invI)
  have "ss_connected_clients x = clients_of (bound_to s) key"
    using conn_okD(2) [OF sched_invD(2) [OF inv] x] by (simp add: sess_ok_def)
  then show "conn_inv (rebind now c key y s)"
    using sched_invD(1) [OF inv] live by (intro conn_inv_rebind) (auto simp: y is_archived_def)
  have "identity_of y = identity_of x" by (simp add: y identity_of_def)
  then show "ident_inv (idents (rebind now c key y s)) (unavail (rebind now c key y s))
      (s_next_session_incarnation (rebind now c key y s)) rows"
    using inv idents_noop [OF x, of y] by (simp add: sched_inv_def idents_rebind)
qed (use inv in \<open>simp add: sched_inv_def\<close>)

lemma bind_client_eq:
  assumes "sess s key = Some x" "ss_named x = Some m"
  shows "bind_client_to_ready_session now c key s =
    (Some \<lparr>sb_session_id = nm_id m, sb_named_session_id = Some (nm_id m), sb_scope = ss_scope x, sb_incarnation = ss_incarnation x\<rparr>,
     rebind now c key (x\<lparr>ss_connected_clients :=
      (if bound_to s c = Some key then ss_connected_clients x else ss_connected_clients x + 1), ss_disconnected_at := None\<rparr>) s)"
  using assms by (simp add: bind_client_to_ready_session_def rebind_def Let_def)

text \<open>
  What a command's answer says of the client's binding: without one the bindings are unchanged, and one
  that is given describes the session the client is then bound to.
\<close>

definition binding_ok :: "u64 \<Rightarrow> scheduler_state \<Rightarrow> session_command_result \<Rightarrow> scheduler_state \<Rightarrow> bool" where
  "binding_ok c s r s' \<longleftrightarrow>
     (case scr_binding r of
        None \<Rightarrow> s_client_sessions s' = s_client_sessions s
      | Some b \<Rightarrow>
          (case session_for_client s' c of
             None \<Rightarrow> False
           | Some x \<Rightarrow> sb_scope b = ss_scope x \<and> sb_incarnation b = ss_incarnation x
               \<and> (\<exists>m. ss_named x = Some m \<and> nm_archived_at_ms m = None \<and> sb_session_id b = nm_id m
                      \<and> sb_named_session_id b = Some (nm_id m))))"

lemma scr_binding_simps [simp]:
  "scr_binding (session_command_response p) = None" "scr_binding (session_error code msg) = None"
  "scr_binding missing_session = None" "scr_binding (session_not_found sel) = None" "scr_binding metadata_disappeared = None"
  "scr_binding (session_info_command c sel_opt s) = None" "scr_binding (session_list_command c f s) = None"
  by (simp_all add: session_command_response_def session_error_def missing_session_def session_not_found_def
      metadata_disappeared_def session_info_command_def session_list_command_def split: option.split)

lemma binding_unchanged [simp]: "scr_binding r = None \<Longrightarrow> binding_ok c s r s' \<longleftrightarrow> s_client_sessions s' = s_client_sessions s"
  by (simp add: binding_ok_def)

lemma bind_and_describe_inv:
  assumes inv: "sched_inv s rows" and x: "sess s key = Some x" "ss_named x = Some m" "\<not> is_archived x"
  shows "\<exists>r s'. bind_and_describe v lost c key s rows = (Some r, s', rows) \<and> binding_ok c s0 r s' \<and> sched_inv s' rows"
proof -
  define y where "y = x\<lparr>ss_connected_clients :=
      (if bound_to s c = Some key then ss_connected_clients x else ss_connected_clients x + 1), ss_disconnected_at := None\<rparr>"
  have "sess (rebind (sv_instant v) c key y s) key = Some y"
    by (auto simp: sess_rebind split: option.splits)
  then have "ready_session_info (rebind (sv_instant v) c key y s) key c \<noteq> None"
    using x(2) by (simp add: ready_session_info_def y_def)
  then obtain info where info: "ready_session_info (rebind (sv_instant v) c key y s) key c = Some info" by blast
  have "session_for_client (rebind (sv_instant v) c key y s) c = Some y"
    using \<open>sess (rebind (sv_instant v) c key y s) key = Some y\<close> by (simp add: session_for_client_def)
  then have "binding_ok c s0 \<lparr>scr_payload = RespOther (SpInfo info), scr_binding = Some \<lparr>sb_session_id = nm_id m,
      sb_named_session_id = Some (nm_id m), sb_scope = ss_scope x, sb_incarnation = ss_incarnation x\<rparr>\<rparr>
      (rebind (sv_instant v) c key y s)"
    using x(2,3) by (simp add: binding_ok_def y_def is_archived_def)
  then show ?thesis
    using rebind_inv [OF inv x(1) y_def x(3)] info
    unfolding bind_and_describe_def bind_client_eq [OF x(1,2)] y_def [symmetric] by simp
qed

text \<open>Replacing the scope, the defaults and the metadata of a named session after persisting them.\<close>

lemma put_named_inv:
  assumes inv: "sched_inv s rows" and x: "sess s key = Some x" "ss_named x = Some m0"
    and m: "nm_id m = nm_id m0" "nm_name m = nm_name m0" "nm_created_at_ms m = nm_created_at_ms m0"
      "nm_archived_at_ms m = nm_archived_at_ms m0"
    and p: "persist_named_session v m scope d rows = (Inr durable, rows')"
  shows "sched_inv (set_session key (x\<lparr>ss_scope := scope, ss_defaults := d, ss_named := Some (m\<lparr>nm_scope_durable := durable\<rparr>)\<rparr>) s) rows'"
proof -
  let ?y = "x\<lparr>ss_scope := scope, ss_defaults := d, ss_named := Some (m\<lparr>nm_scope_durable := durable\<rparr>)\<rparr>"
  note K = ident_named [OF sched_invD(4) [OF inv] identsI [OF x(1)], unfolded id_named_of, OF x(2)]
  have "table rows (nm_id m) = Some r \<Longrightarrow> sd_created_at_ms r = nm_created_at_ms m" for r
    using K(2) m x(2) by (simp add: row_of_def) auto
  from persist_ok [OF p sched_invD(5) [OF inv] this, where inc = "ss_incarnation x"]
  have rows': "rows_ok rows'" "table rows' = (table rows)(nm_id m0 := row_of (identity_of ?y))"
    using K(3,4) m by (simp_all add: identity_of_def)
  have c: "conn_inv (set_session key ?y s)"
  proof (rule conn_inv_set_session [OF sched_invD(1) [OF inv] x(1)])
    have "sess_ok (clients_of (bound_to s) key) x" using conn_okD(2) [OF sched_invD(2) [OF inv] x(1)] .
    then show "ss_connected_clients x = 0" if "is_archived ?y"
      using that m(4) x(2) by (auto simp: sess_ok_def is_archived_def)
  qed (simp_all add: x(2))
  have "ident_inv ((idents s)(named_session_key (nm_id m0) \<mapsto> identity_of ?y)) ((unavail s)(nm_id m0 := None))
      (s_next_session_incarnation s) rows'"
  proof (rule ident_put_named [where m = "m\<lparr>nm_scope_durable := durable\<rparr>", OF sched_invD(4) [OF inv] _ _ _ _ order.refl rows'])
    show "k = named_session_key (nm_id m0)"
      if "idents s k = Some z" "id_incarnation z = id_incarnation (identity_of ?y)" for k z
      using sched_invD(4) [OF inv] that identsI [OF x(1)] K(1) by (auto simp: ident_inv_def)
    show "id_incarnation (identity_of ?y) < s_next_session_incarnation s"
      using ident_incarnation [OF sched_invD(4) [OF inv] identsI [OF x(1)]] by simp
  qed (simp_all add: m)
  moreover have "(unavail s)(nm_id m0 := None) = unavail s" using K(5) by auto
  ultimately show ?thesis using c inv K(1) by (simp add: sched_inv_def)
qed

text \<open>Adding a named session, new or refreshed, after persisting it.\<close>

lemma new_named_inv:
  assumes inv: "sched_inv s rows" and al: "alloc_session_incarnation s = Some (inc, s1)"
    and fresh: "sess s (named_session_key (nm_id m)) = None"
    and created: "\<And>r. table rows (nm_id m) = Some r \<Longrightarrow> sd_created_at_ms r = nm_created_at_ms m"
    and pre: "starts_with (nm_id m) ''SS-''" "\<not> starts_with (nm_name m) ''SS-''"
    and p: "persist_named_session v m scope d rows = (Inr durable, rows')"
    and y: "y = \<lparr>ss_scope = scope, ss_incarnation = inc, ss_defaults = d, ss_connected_clients = 0,
      ss_disconnected_at = None, ss_named = Some (m\<lparr>nm_scope_durable := durable\<rparr>)\<rparr>"
  shows "sched_inv (set_session (named_session_key (nm_id m)) y
      (s1\<lparr>s_unavailable_named_sessions := AList.delete (nm_id m) (s_unavailable_named_sessions s1)\<rparr>)) rows'"
    (is "sched_inv (set_session ?k y ?s) rows'")
proof -
  note al = alloc_next [OF al]
  from persist_ok [OF p sched_invD(5) [OF inv] created pre, where inc = inc]
  have rows': "rows_ok rows'" "table rows' = (table rows)(nm_id m := row_of (identity_of y))"
    by (simp_all add: y identity_of_def)
  have "conn_inv ?s" using inv al by (simp add: sched_inv_def conn_inv_def)
  then have "conn_inv (set_session ?k y ?s)"
    using fresh al by (intro conn_inv_new_session) (simp_all add: y)
  moreover have "ident_inv ((idents s)(?k \<mapsto> identity_of y)) ((unavail s)(nm_id m := None)) (inc + 1) rows'"
  proof (rule ident_put_named [where m = "m\<lparr>nm_scope_durable := durable\<rparr>", OF sched_invD(4) [OF inv] _ _ _ _ _ rows'])
    show "k = ?k" if "idents s k = Some z" "id_incarnation z = id_incarnation (identity_of y)" for k z
      using ident_incarnation [OF sched_invD(4) [OF inv] that(1)] that(2) al by (simp add: y identity_of_def)
  qed (use al in \<open>auto simp: y identity_of_def\<close>)
  moreover have "idents ?s = idents s" using al by (simp add: idents_def fun_eq_iff)
  moreover have "unavail ?s = (unavail s)(nm_id m := None)" using al by (simp add: delete_conv')
  ultimately show ?thesis using inv al by (simp add: sched_inv_def distinct_delete)
qed

lemma alloc_inv: "sched_inv s rows \<Longrightarrow> alloc_session_incarnation s = Some (inc, s1) \<Longrightarrow> sched_inv s1 rows"
  using alloc_next [of s inc s1] ident_next [of "idents s" "unavail s" "s_next_session_incarnation s" rows "inc + 1"]
  by (auto simp: sched_inv_def conn_inv_def)

lemma not_archived_iff: "\<not> is_archived x \<longleftrightarrow> Option.bind (ss_named x) nm_archived_at_ms = None"
  by (auto simp: is_archived_def split: option.splits)

lemma absent_id:
  assumes inv: "sched_inv s rows" and tab: "table rows i = None"
  shows "sess s (named_session_key i) = None" "unavail s i = None"
proof -
  show "unavail s i = None"
    using ident_unavailable(3) [OF sched_invD(4) [OF inv], of i] tab by (cases "unavail s i") auto
  show "sess s (named_session_key i) = None"
  proof (rule ccontr)
    assume "sess s (named_session_key i) \<noteq> None"
    then obtain x where x: "sess s (named_session_key i) = Some x" by blast
    then obtain m where "ss_named x = Some m" "nm_id m = i"
      using ident_key [OF sched_invD(4) [OF inv] identsI [OF x]] by (auto simp: key_ok_def split: option.splits)
    then show False
      using ident_named(2) [OF sched_invD(4) [OF inv] identsI [OF x]] tab by (simp add: row_of_def)
  qed
qed

lemma create_inv:
  assumes inv: "sched_inv s rows" and fresh: "\<forall>r\<in>set rows. sd_id r \<noteq> ''SS-'' @ sv_uuid v"
    and r: "session_create v c name s rows = (r, s', rows')"
  shows "(\<exists>a. r = Some a \<and> binding_ok c s a s') \<and> sched_inv s' rows'"
proof -
  let ?i = "''SS-'' @ sv_uuid v"
  have tab: "table rows ?i = None" using fresh by (simp add: table_None)
  note nosess = absent_id(1) [OF inv tab] and nounav = absent_id(2) [OF inv tab]
  show ?thesis
  proof (cases "\<exists>cur inc s1 durable rows1. validate_session_name name = Inr () \<and> find_named_session s name = None
      \<and> session_for_client s c = Some cur \<and> alloc_session_incarnation s = Some (inc, s1)
      \<and> persist_named_session v \<lparr>nm_id = ?i, nm_name = name, nm_scope_durable = False, nm_created_at_ms = sv_now_ms v,
          nm_updated_at_ms = sv_now_ms v, nm_archived_at_ms = None\<rparr> (ss_scope cur) (ss_defaults cur) rows = (Inr durable, rows1)")
    case True
    then obtain cur inc s1 durable rows1 where h: "validate_session_name name = Inr ()" "find_named_session s name = None"
      "session_for_client s c = Some cur" and al: "alloc_session_incarnation s = Some (inc, s1)"
      and p: "persist_named_session v \<lparr>nm_id = ?i, nm_name = name, nm_scope_durable = False, nm_created_at_ms = sv_now_ms v,
          nm_updated_at_ms = sv_now_ms v, nm_archived_at_ms = None\<rparr> (ss_scope cur) (ss_defaults cur) rows = (Inr durable, rows1)"
      by blast
    define y where "y = \<lparr>ss_scope = ss_scope cur, ss_incarnation = inc, ss_defaults = ss_defaults cur, ss_connected_clients = 0,
      ss_disconnected_at = None, ss_named = Some (\<lparr>nm_id = ?i, nm_name = name, nm_scope_durable = False, nm_created_at_ms = sv_now_ms v,
          nm_updated_at_ms = sv_now_ms v, nm_archived_at_ms = None\<rparr>\<lparr>nm_scope_durable := durable\<rparr>)\<rparr>"
    have nm: "\<not> starts_with name ''SS-''" using h(1) by (auto simp: validate_session_name_def split: if_splits)
    have "sched_inv (set_session (named_session_key ?i) y
        (s1\<lparr>s_unavailable_named_sessions := AList.delete ?i (s_unavailable_named_sessions s1)\<rparr>)) rows1"
      using new_named_inv [OF inv al _ _ _ _ p y_def] nosess tab nm by (simp add: starts_with_def)
    moreover have "s1\<lparr>s_unavailable_named_sessions := AList.delete ?i (s_unavailable_named_sessions s1)\<rparr> = s1"
      using nounav alloc_next [OF al] by (simp add: map_of_eq_None_iff delete_id)
    ultimately have si: "sched_inv (set_session (named_session_key ?i) y s1) rows1" by simp
    obtain r1 s2 where b: "bind_and_describe v None c (named_session_key ?i) (set_session (named_session_key ?i) y s1) rows1
        = (Some r1, s2, rows1)" "binding_ok c s r1 s2" "sched_inv s2 rows1"
      using bind_and_describe_inv [OF si, of "named_session_key ?i" y _ v None c s] by (auto simp: y_def is_archived_def)
    have "session_create v c name s rows = (Some r1, s2, rows1)"
      using h al p b(1) unfolding session_create_def y_def by simp
    then show ?thesis using r b(2,3) by simp
  next
    case False
    then have "(\<exists>a. r = Some a \<and> scr_binding a = None) \<and> rows' = rows \<and> (s' = s \<or> (\<exists>inc. alloc_session_incarnation s = Some (inc, s')))"
      using r persist_error unfolding session_create_def Let_def
      by (auto split: sum.splits if_splits option.splits prod.splits)
    then show ?thesis using inv alloc_inv alloc_next by fastforce
  qed
qed

lemma attach_ready_inv:
  assumes inv: "sched_inv s rows" and x: "sess s key = Some x" "ss_named x = Some m0" "\<not> is_archived x"
    and r: "attach_ready v c selector key refresh s rows = (r, s', rows')"
  shows "(\<exists>a. r = Some a \<and> binding_ok c s a s') \<and> sched_inv s' rows'"
proof (cases "if refresh then client_scope s c else map_option ss_scope (sess s key)")
  case None
  then show ?thesis using r inv unfolding attach_ready_def None by auto
next
  case (Some scope)
  let ?m = "m0\<lparr>nm_updated_at_ms := sv_now_ms v\<rparr>"
  let ?lost = "Some (session_error ''INTERNAL'' ''named session disappeared while attaching'')"
  obtain q rows1 where p: "persist_named_session v ?m scope (ss_defaults x) rows = (q, rows1)"
    by (cases "persist_named_session v ?m scope (ss_defaults x) rows")
  show ?thesis
  proof (cases q)
    case (Inl e)
    then show ?thesis using r x p persist_error [of v ?m scope "ss_defaults x" rows e rows1] inv
      unfolding attach_ready_def Some by auto
  next
    case (Inr durable)
    let ?y = "x\<lparr>ss_scope := scope, ss_defaults := ss_defaults x, ss_named := Some (?m\<lparr>nm_scope_durable := durable\<rparr>)\<rparr>"
    have si: "sched_inv (set_session key ?y s) rows1"
      by (rule put_named_inv [OF inv x(1,2) _ _ _ _ p [unfolded Inr]]) simp_all
    obtain r1 s2 where b: "bind_and_describe v ?lost c key (set_session key ?y s) rows1 = (Some r1, s2, rows1)"
      "binding_ok c s r1 s2" "sched_inv s2 rows1"
      using bind_and_describe_inv [OF si, of key ?y _ v ?lost c s] x(2,3) by (auto simp: is_archived_def)
    have "attach_ready v c selector key refresh s rows = (Some r1, s2, rows1)"
      using x p Inr b(1) unfolding attach_ready_def Some by simp
    then show ?thesis using r b(2,3) by simp
  qed
qed

lemma attach_refresh_inv:
  assumes inv: "sched_inv s rows" and u: "unavail s i = Some u" "nm_archived_at_ms (un_meta u) = None"
    and r: "attach_needs_refresh v c selector i refresh s rows = (r, s', rows')"
  shows "(\<exists>a. r = Some a \<and> binding_ok c s a s') \<and> sched_inv s' rows'"
proof (cases "refresh \<and> (\<exists>scope. client_scope s c = Some scope) \<and> (\<exists>a. alloc_session_incarnation s = Some a)")
  case False
  then show ?thesis using r u inv by (auto simp: attach_needs_refresh_def Let_def split: option.splits if_splits)
next
  case True
  then obtain scope inc s1 where h: "refresh" "client_scope s c = Some scope" and al: "alloc_session_incarnation s = Some (inc, s1)"
    by auto
  let ?m = "(un_meta u)\<lparr>nm_updated_at_ms := sv_now_ms v\<rparr>"
  obtain q rows1 where p: "persist_named_session v ?m scope (un_defaults u) rows = (q, rows1)"
    by (cases "persist_named_session v ?m scope (un_defaults u) rows")
  show ?thesis
  proof (cases q)
    case (Inl e)
    then show ?thesis
      using r u h al p persist_error [of v ?m scope "un_defaults u" rows e rows1] alloc_inv [OF inv al] alloc_next [OF al]
      by (auto simp: attach_needs_refresh_def)
  next
    case (Inr durable)
    note U = ident_unavailable [OF sched_invD(4) [OF inv] u(1)]
    let ?y = "\<lparr>ss_scope = scope, ss_incarnation = inc, ss_defaults = un_defaults u, ss_connected_clients = 0,
      ss_disconnected_at = None, ss_named = Some (?m\<lparr>nm_scope_durable := durable\<rparr>)\<rparr>"
    let ?s = "set_session (named_session_key i) ?y
        (s1\<lparr>s_unavailable_named_sessions := AList.delete i (s_unavailable_named_sessions s1)\<rparr>)"
    have "sess s (named_session_key i) = None" using U(2) by (simp add: idents_def)
    then have si: "sched_inv ?s rows1"
      using new_named_inv [OF inv al _ _ _ _ p [unfolded Inr] refl] U(1,3,4,5) by auto
    obtain r1 s2 where b: "bind_and_describe v None c (named_session_key i) ?s rows1 = (Some r1, s2, rows1)" "binding_ok c s r1 s2" "sched_inv s2 rows1"
      using bind_and_describe_inv [OF si, of "named_session_key i" ?y _ v None c s] u(2) by (auto simp: is_archived_def)
    have "attach_needs_refresh v c selector i refresh s rows = (Some r1, s2, rows1)"
      using h u(1) al p Inr b(1) by (simp add: attach_needs_refresh_def)
    then show ?thesis using r b(2,3) by simp
  qed
qed

lemma find_mem: "find P xs = Some y \<Longrightarrow> y \<in> set xs \<and> P y"
  by (induction xs) (auto split: if_splits)

lemma find_exists: "y \<in> set xs \<Longrightarrow> P y \<Longrightarrow> find P xs \<noteq> None"
  by (auto simp: find_None_iff)

lemma find_ready:
  assumes "find_named_session s sel = Some (LocReady key)" "distinct (map fst (s_sessions s))"
  shows "\<exists>x m. sess s key = Some x \<and> ss_named x = Some m \<and> named_matches sel m"
proof -
  obtain x where "find (\<lambda>(_, x). ready_matches sel x) (s_sessions s) = Some (key, x)"
    using assms(1) by (auto simp: find_named_session_def split: option.splits)
  from find_mem [OF this] show ?thesis
    using assms(2) by (auto simp: ready_matches_def split: option.splits)
qed

lemma find_unavailable:
  assumes "find_named_session s sel = Some (LocNeedsRefresh i)" "distinct (map fst (s_unavailable_named_sessions s))"
  shows "\<exists>u. unavail s i = Some u \<and> (i = sel \<or> nm_name (un_meta u) = sel)"
proof -
  obtain u where "find (\<lambda>(i, u). i = sel \<or> nm_name (un_meta u) = sel) (s_unavailable_named_sessions s) = Some (i, u)"
    using assms(1) by (auto simp: find_named_session_def split: option.splits)
  from find_mem [OF this] show ?thesis using assms(2) by auto
qed

lemma attach_inv:
  assumes inv: "sched_inv s rows" and r: "session_attach v c selector refresh s rows = (r, s', rows')"
  shows "(\<exists>a. r = Some a \<and> binding_ok c s a s') \<and> sched_inv s' rows'"
proof (cases "find_named_session s selector")
  case None
  then show ?thesis using r inv by (auto simp: session_attach_def)
next
  case (Some loc)
  have d: "distinct (map fst (s_sessions s))" using sched_invD(1) [OF inv] by (simp add: conn_inv_def)
  show ?thesis
  proof (cases "Option.bind (location_meta s loc) nm_archived_at_ms = None")
    case False
    then show ?thesis using r inv Some by (auto simp: session_attach_def)
  next
    case True
    show ?thesis
    proof (cases loc)
      case (LocReady key)
      then obtain x m where x: "sess s key = Some x" "ss_named x = Some m" using find_ready [OF _ d] Some by blast
      then have "\<not> is_archived x" using True LocReady by (simp add: location_meta_def is_archived_def)
      moreover have "attach_ready v c selector key refresh s rows = (r, s', rows')"
        using r Some True LocReady by (simp add: session_attach_def)
      ultimately show ?thesis using attach_ready_inv [OF inv x] by blast
    next
      case (LocNeedsRefresh i)
      then obtain u where u: "unavail s i = Some u" using find_unavailable [OF _ sched_invD(3) [OF inv]] Some by blast
      then have "nm_archived_at_ms (un_meta u) = None" using True LocNeedsRefresh by (simp add: location_meta_def)
      moreover have "attach_needs_refresh v c selector i refresh s rows = (r, s', rows')"
        using r Some True LocNeedsRefresh by (simp add: session_attach_def)
      ultimately show ?thesis using attach_refresh_inv [OF inv u] by blast
    qed
  qed
qed

lemma archived_error: "set_session_archived_at sql i a u rows = (Inl e, rows') \<Longrightarrow> rows' = rows"
  by (auto simp: set_session_archived_at_def split: if_splits)

lemma archived_rows:
  assumes "set_session_archived_at sql i a u rows = (Inr q, rows')" and ok: "rows_ok rows"
  shows "rows_ok rows' \<and>
    table rows' = (table rows)(i := map_option (\<lambda>r. r\<lparr>sd_archived_at_ms := a, sd_updated_at_ms := u\<rparr>) (table rows i))"
proof -
  let ?f = "\<lambda>r. if sd_id r = i then r\<lparr>sd_archived_at_ms := a, sd_updated_at_ms := u\<rparr> else r"
  have rows': "rows' = map ?f rows" using assms(1) by (auto simp: set_session_archived_at_def split: if_splits)
  have "map sd_id rows' = map sd_id rows" "map sd_name rows' = map sd_name rows" by (simp_all add: rows')
  moreover have "\<forall>r\<in>set rows'. starts_with (sd_id r) ''SS-'' \<and> \<not> starts_with (sd_name r) ''SS-''"
    using ok by (auto simp: rows' rows_ok_def)
  ultimately have "rows_ok rows'" using ok by (simp add: rows_ok_def)
  moreover have "map_of (map (\<lambda>r. (sd_id r, r)) (map ?f rows)) j = map_option ?f (map_of (map (\<lambda>r. (sd_id r, r)) rows) j)" for j
    by (induction rows) auto
  then have "table rows' j = map_option ?f (table rows j)" for j by (simp add: table_def rows')
  moreover have "map_option ?f (table rows j) =
      ((table rows)(i := map_option (\<lambda>r. r\<lparr>sd_archived_at_ms := a, sd_updated_at_ms := u\<rparr>) (table rows i))) j" for j
  proof (cases "table rows j")
    case (Some r)
    then have "sd_id r = j" using table_Some [OF ok] by simp
    then show ?thesis using Some by auto
  qed auto
  ultimately show ?thesis by (simp add: fun_eq_iff)
qed

lemma blocker_disconnected:
  assumes inv: "sched_inv s rows" and x: "sess s key = Some x" "ss_named x = Some m"
    and b: "named_session_archive_blocker s (nm_id m) = None"
  shows "ss_connected_clients x = 0"
proof -
  let ?P = "\<lambda>(_, x). case ss_named x of Some m' \<Rightarrow> nm_id m' = nm_id m | None \<Rightarrow> False"
  have d: "distinct (map fst (s_sessions s))" using sched_invD(1) [OF inv] by (simp add: conn_inv_def)
  have "?P (key, x)" using x(2) by simp
  then have "find ?P (s_sessions s) \<noteq> None"
    using map_of_SomeD [OF x(1)] unfolding find_None_iff by blast
  then obtain k y where f: "find ?P (s_sessions s) = Some (k, y)" by auto
  then obtain m' where y: "sess s k = Some y" "ss_named y = Some m'" "nm_id m' = nm_id m"
    using find_mem [OF f] d by (auto split: option.splits)
  have "k = key"
    using ident_named(1) [OF sched_invD(4) [OF inv] identsI [OF y(1)]] ident_named(1) [OF sched_invD(4) [OF inv] identsI [OF x(1)]] x y
    by simp
  then show ?thesis using b f x(1) y(1) unfolding named_session_archive_blocker_def f Let_def
    by (cases "ss_connected_clients x") simp_all
qed

lemma blocker_quiet:
  assumes "named_session_archive_blocker s i = None"
  shows "list_all (\<lambda>(_, j). je_session_id j = Some i \<longrightarrow> job_is_terminal (je_status j)) (s_jobs s)
    \<and> \<not> list_ex (\<lambda>(_, r). owner_is i (ps_session_id r)) (s_pending_scripts s)
    \<and> \<not> list_ex (\<lambda>(_, h). owner_is i (ch_session_id h)) (s_chains s)
    \<and> \<not> list_ex (\<lambda>(_, e). owner_is i (en_session_id e)) (s_crons s)"
proof -
  let ?P = "\<lambda>(_, j). owner_is i (je_session_id j) \<and> \<not> job_is_terminal (je_status j)"
  have f: "find ?P (s_jobs s) = None"
    using assms unfolding named_session_archive_blocker_def Let_def by (cases "find ?P (s_jobs s)") (auto split: if_splits)
  then have "list_all (\<lambda>(_, j). je_session_id j = Some i \<longrightarrow> job_is_terminal (je_status j)) (s_jobs s)"
    by (auto simp: find_None_iff list_all_iff owner_is_def)
  then show ?thesis
    using assms unfolding named_session_archive_blocker_def Let_def f option.case by (simp split: if_splits)
qed

lemma set_ready_meta_inv:
  assumes inv: "sched_inv s rows" and x: "sess s key = Some x" "ss_named x = Some m"
    and m': "m' = m\<lparr>nm_archived_at_ms := a, nm_updated_at_ms := u\<rparr>"
    and conn: "a \<noteq> None \<Longrightarrow> ss_connected_clients x = 0"
    and q: "set_session_archived_at sql (nm_id m) a u rows = (Inr q, rows')"
  shows "sched_inv (set_session key (x\<lparr>ss_named := Some m'\<rparr>) s) rows'"
proof -
  let ?y = "x\<lparr>ss_named := Some m'\<rparr>"
  note K = ident_named [OF sched_invD(4) [OF inv] identsI [OF x(1)], unfolded id_named_of, OF x(2)]
  note R = archived_rows [OF q sched_invD(5) [OF inv]]
  have "row_of (identity_of ?y) = map_option (\<lambda>r. r\<lparr>sd_archived_at_ms := a, sd_updated_at_ms := u\<rparr>) (row_of (identity_of x))"
    using x(2) m' by (simp add: row_of_def identity_of_def stored_of_def)
  then have rows': "rows_ok rows'" "table rows' = (table rows)(nm_id m := row_of (identity_of ?y))"
    using R K(2) by simp_all
  have c: "conn_inv (set_session key ?y s)"
    using conn x(2) m' by (intro conn_inv_set_session [OF sched_invD(1) [OF inv] x(1)]) (auto simp: is_archived_def)
  have "ident_inv ((idents s)(named_session_key (nm_id m) \<mapsto> identity_of ?y)) ((unavail s)(nm_id m := None))
      (s_next_session_incarnation s) rows'"
  proof (rule ident_put_named [where m = m', OF sched_invD(4) [OF inv] _ _ _ _ order.refl rows'])
    show "k = named_session_key (nm_id m)"
      if "idents s k = Some z" "id_incarnation z = id_incarnation (identity_of ?y)" for k z
      using sched_invD(4) [OF inv] that identsI [OF x(1)] K(1) by (auto simp: ident_inv_def)
    show "id_incarnation (identity_of ?y) < s_next_session_incarnation s"
      using ident_incarnation [OF sched_invD(4) [OF inv] identsI [OF x(1)]] by simp
  qed (simp_all add: m')
  moreover have "(unavail s)(nm_id m := None) = unavail s" using K(5) by auto
  ultimately show ?thesis using c inv K(1) by (simp add: sched_inv_def)
qed

lemma set_unavailable_meta_inv:
  assumes inv: "sched_inv s rows" and un: "unavail s i = Some un"
    and m': "m' = (un_meta un)\<lparr>nm_archived_at_ms := a, nm_updated_at_ms := u\<rparr>"
    and q: "set_session_archived_at sql (nm_id (un_meta un)) a u rows = (Inr q, rows')"
  shows "sched_inv (s\<lparr>s_unavailable_named_sessions := AList.update i (un\<lparr>un_meta := m'\<rparr>) (s_unavailable_named_sessions s)\<rparr>) rows'"
proof -
  note U = ident_unavailable [OF sched_invD(4) [OF inv] un]
  note R = archived_rows [OF q sched_invD(5) [OF inv], unfolded U(1)]
  let ?U = "(unavail s)(i \<mapsto> un\<lparr>un_meta := m'\<rparr>)"
  have "named_view (idents s) ?U = (named_view (idents s) (unavail s))(i \<mapsto> stored_of m' None (un_defaults un))"
    using U(2) by (auto simp: named_view_def fun_eq_iff split: option.splits)
  moreover have "Some (stored_of m' None (un_defaults un)) =
      map_option (\<lambda>r. r\<lparr>sd_archived_at_ms := a, sd_updated_at_ms := u\<rparr>) (table rows i)"
    using U(3) by (simp add: m' stored_of_def)
  ultimately have "named_view (idents s) ?U = table rows'"
    using R sched_invD(4) [OF inv] by (simp add: ident_inv_def)
  moreover have "nm_id m' = i" using U(1) by (simp add: m')
  ultimately have "ident_inv (idents s) ?U (s_next_session_incarnation s) rows'"
    using sched_invD(4) [OF inv] R U(2) unfolding ident_inv_def by auto
  then show ?thesis using inv by (simp add: sched_inv_def conn_inv_def update_conv' distinct_update)
qed

lemma archive_inv:
  assumes inv: "sched_inv s rows" and r: "set_named_session_archived v c selector archive s rows = (r, s', rows')"
  shows "(\<exists>a. r = Some a \<and> binding_ok c s a s') \<and> sched_inv s' rows'"
proof (cases "find_named_session s selector")
  case None
  then show ?thesis using r inv by (auto simp: set_named_session_archived_def)
next
  case (Some loc)
  have d: "distinct (map fst (s_sessions s))" using sched_invD(1) [OF inv] by (simp add: conn_inv_def)
  obtain m where m: "location_meta s loc = Some m"
    using find_ready [OF _ d] find_unavailable [OF _ sched_invD(3) [OF inv]] Some
    by (cases loc) (fastforce simp: location_meta_def)+
  let ?a = "if archive then Some (sv_now_ms v) else None" and ?m = "m\<lparr>nm_archived_at_ms := if archive then Some (sv_now_ms v) else None, nm_updated_at_ms := sv_now_ms v\<rparr>"
  obtain q rows1 where q: "set_session_archived_at (sv_sql v) (nm_id m) ?a (sv_now_ms v) rows = (q, rows1)"
    by (cases "set_session_archived_at (sv_sql v) (nm_id m) ?a (sv_now_ms v) rows")
  define blk where "blk = (if archive then named_session_archive_blocker s (nm_id m) else None)"
  note base = r [unfolded set_named_session_archived_def Some m option.case, folded blk_def]
  consider (idle) "archive = (nm_archived_at_ms m \<noteq> None)"
    | (blocked) b where "archive \<noteq> (nm_archived_at_ms m \<noteq> None)" "blk = Some b"
    | (failed) e where "archive \<noteq> (nm_archived_at_ms m \<noteq> None)" "blk = None" "q = Inl e"
    | (ok) "archive \<noteq> (nm_archived_at_ms m \<noteq> None)" "blk = None" "q = Inr ()"
    by (metis not_None_eq old.sum.exhaust old.unit.exhaust)
  then show ?thesis
  proof cases
    case idle
    have "\<exists>a. r = Some a \<and> scr_binding a = None" "s' = s" "rows' = rows"
      using base [unfolded if_P [OF idle]] by (auto split: option.splits)
    then show ?thesis using inv by auto
  next
    case blocked
    have "\<exists>a. r = Some a \<and> scr_binding a = None" "s' = s" "rows' = rows"
      using base [unfolded if_not_P [OF blocked(1)] blocked(2)] by auto
    then show ?thesis using inv by auto
  next
    case failed
    have "rows1 = rows" using archived_error q failed(3) by blast
    moreover have "\<exists>a. r = Some a \<and> scr_binding a = None" "s' = s" "rows' = rows1"
      using base [unfolded if_not_P [OF failed(1)] failed(2) Let_def q] failed(3) by auto
    ultimately show ?thesis using inv by auto
  next
    case ok
    let ?s = "set_location_meta loc ?m s"
    have s': "s' = ?s" "rows' = rows1" and rr: "r = map_option (\<lambda>info. session_command_response (RespOther (SpInfo info))) (session_info_for_location ?s loc c)"
      using base [unfolded if_not_P [OF ok(1)] ok(2) Let_def q] ok(3) by auto
    note q' = q [unfolded ok(3)]
    show ?thesis
    proof (cases loc)
      case (LocReady key)
      then obtain x where x: "sess s key = Some x" "ss_named x = Some m" using m by (auto simp: location_meta_def Option.bind_eq_Some_conv)
      have conn: "ss_connected_clients x = 0" if "?a \<noteq> None"
        using blocker_disconnected [OF inv x] ok(2) that by (auto simp: blk_def split: if_splits)
      have e: "?s = set_session key (x\<lparr>ss_named := Some ?m\<rparr>) s" using LocReady x(1) by (simp add: set_location_meta_def)
      have "sched_inv ?s rows1" unfolding e by (rule set_ready_meta_inv [OF inv x refl conn q'])
      moreover have "\<exists>a. r = Some a \<and> scr_binding a = None"
        unfolding rr e using LocReady by (simp add: session_info_for_location_def ready_session_info_def)
      moreover have "s_client_sessions ?s = s_client_sessions s" by (simp add: e)
      ultimately show ?thesis using s' by auto
    next
      case (LocNeedsRefresh i)
      then obtain un where un: "unavail s i = Some un" "m = un_meta un" using m by (auto simp: location_meta_def)
      have e: "?s = s\<lparr>s_unavailable_named_sessions := AList.update i (un\<lparr>un_meta := ?m\<rparr>) (s_unavailable_named_sessions s)\<rparr>"
        using LocNeedsRefresh un(1) by (simp add: set_location_meta_def)
      have "sched_inv ?s rows1"
        unfolding e by (rule set_unavailable_meta_inv [OF inv un(1) _ q' [unfolded un(2)]]) (simp add: un(2))
      moreover have "\<exists>a. r = Some a \<and> scr_binding a = None"
        unfolding rr e using LocNeedsRefresh by (simp add: session_info_for_location_def unavailable_session_info_def update_conv')
      moreover have "s_client_sessions ?s = s_client_sessions s" by (simp add: e)
      ultimately show ?thesis using s' by auto
    qed
  qed
qed

text \<open>Anonymous sessions: a binding to the session of an ephemeral key.\<close>

lemma ephemeral_anonymous:
  assumes "sched_inv s rows" "sess s (ephemeral_session_key i) = Some x"
  shows "ss_named x = None"
  using ident_key [OF sched_invD(4) [OF assms(1)] identsI [OF assms(2)]] by (auto simp: key_ok_def split: option.splits)

lemma rebind_ephemeral_inv:
  assumes inv: "sched_inv s rows" and y: "ss_named y = None" "ss_disconnected_at y = None"
    and cnt: "ss_connected_clients y = (if bound_to s c = Some (ephemeral_session_key i)
      then clients_of (bound_to s) (ephemeral_session_key i) else Suc (clients_of (bound_to s) (ephemeral_session_key i)))"
    and inc: "\<And>k z. idents s k = Some z \<Longrightarrow> id_incarnation z = ss_incarnation y \<Longrightarrow> k = ephemeral_session_key i"
      "ss_incarnation y < s_next_session_incarnation s"
  shows "sched_inv (rebind now c (ephemeral_session_key i) y s) rows"
proof (rule sched_invI)
  show "conn_inv (rebind now c (ephemeral_session_key i) y s)"
    by (rule conn_inv_rebind [OF sched_invD(1) [OF inv] cnt]) (simp_all add: y is_archived_def)
  show "ident_inv (idents (rebind now c (ephemeral_session_key i) y s)) (unavail (rebind now c (ephemeral_session_key i) y s))
      (s_next_session_incarnation (rebind now c (ephemeral_session_key i) y s)) rows"
    using ident_put_ephemeral [OF sched_invD(4) [OF inv], of "identity_of y"] inc y(1) by (simp add: idents_rebind)
qed (use inv in \<open>simp add: sched_inv_def\<close>)

lemma connect_inv:
  assumes inv: "sched_inv s rows"
  shows "sched_inv (snd (connect_session now ins c i refresh s)) rows"
proof -
  let ?k = "ephemeral_session_key i"
  have ns: "\<not> (bound_to s c = Some ?k \<and> sess s ?k = None)" using conn_okD(1) [OF sched_invD(2) [OF inv]] by fastforce
  show ?thesis
  proof (cases "sess s ?k")
    case (Some x)
    have cnt: "ss_connected_clients x = clients_of (bound_to s) ?k"
      using conn_okD(2) [OF sched_invD(2) [OF inv] Some] by (simp add: sess_ok_def)
    let ?y = "x\<lparr>ss_connected_clients := (if bound_to s c = Some ?k then ss_connected_clients x else ss_connected_clients x + 1),
        ss_disconnected_at := None\<rparr>"
    have go: "sched_inv (rebind now c ?k (?y\<lparr>ss_scope := h\<rparr>) s) rows" for h
      using sched_invD(4) [OF inv] identsI [OF Some] ident_incarnation [OF sched_invD(4) [OF inv] identsI [OF Some]]
      by (intro rebind_ephemeral_inv [OF inv]) (auto simp: ephemeral_anonymous [OF inv Some] cnt ident_inv_def)
    have "sched_inv (rebind now c ?k ?y s) rows" using go [of "ss_scope ?y"] by simp
    moreover have "snd (connect_session now ins c i refresh s) \<in>
        {s, rebind now c ?k ?y s} \<union> range (\<lambda>h. rebind now c ?k (?y\<lparr>ss_scope := h\<rparr>) s)"
      using Some by (simp add: connect_session_def Let_def rebind_def split: sum.split)
    ultimately show ?thesis using go inv by auto
  next
    case None
    then have nb: "bound_to s c \<noteq> Some ?k" using ns by auto
    have z: "clients_of (bound_to s) ?k = 0"
      unfolding clients_of_zero using conn_okD(1) [OF sched_invD(2) [OF inv]] None by fastforce
    show ?thesis
    proof (cases "alloc_session_incarnation s")
      case None': None
      then show ?thesis using inv None nb by (simp add: connect_session_def Let_def)
    next
      case (Some a)
      then obtain inc s1 where al: "alloc_session_incarnation s = Some (inc, s1)" by (cases a) auto
      note s1 = alloc_next [OF al] and inv1 = alloc_inv [OF inv al]
      let ?y = "\<lambda>h. \<lparr>ss_scope = h, ss_incarnation = inc, ss_defaults = default_launch_defaults,
                      ss_connected_clients = 1, ss_disconnected_at = None, ss_named = None\<rparr>"
      have "sched_inv (rebind now c ?k (?y h) s1) rows" for h
      proof (rule rebind_ephemeral_inv [OF inv1])
        show "k = ?k" if "idents s1 k = Some w" "id_incarnation w = ss_incarnation (?y h)" for k w
          using ident_incarnation [OF sched_invD(4) [OF inv]] that s1 by fastforce
      qed (use s1 z nb in auto)
      moreover have "snd (connect_session now ins c i refresh s) \<in> {s1} \<union> range (\<lambda>h. rebind now c ?k (?y h) s1)"
        using None nb al s1 by (simp add: connect_session_def Let_def rebind_def split: sum.split)
      ultimately show ?thesis using inv1 by auto
    qed
  qed
qed

lemma put_anonymous_inv:
  assumes inv: "sched_inv s rows" and x: "sess s key = Some x" "ss_named x = None"
    and y: "ss_named y = None" "ss_connected_clients y = ss_connected_clients x"
      "ss_disconnected_at y = ss_disconnected_at x" "ss_incarnation y = ss_incarnation x"
  shows "sched_inv (set_session key y s) rows"
proof -
  have "conn_inv (set_session key y s)"
    using x(2) y by (intro conn_inv_set_session [OF sched_invD(1) [OF inv] x(1)]) (simp_all add: is_archived_def)
  moreover have "key_ok key (identity_of x)" using ident_key [OF sched_invD(4) [OF inv] identsI [OF x(1)]] .
  then obtain i where i: "key = ephemeral_session_key i" using x(2) by (auto simp: key_ok_def)
  have "ident_inv ((idents s)(key \<mapsto> identity_of y)) (unavail s) (s_next_session_incarnation s) rows"
    unfolding i using sched_invD(4) [OF inv] identsI [OF x(1)] ident_incarnation [OF sched_invD(4) [OF inv] identsI [OF x(1)]] y
    by (intro ident_put_ephemeral) (auto simp: i ident_inv_def)
  ultimately show ?thesis using inv by (simp add: sched_inv_def)
qed

lemma scope_update_inv:
  assumes inv: "sched_inv s rows" and r: "update_client_session_scope v c scope s rows = (r, s', rows')"
  shows "sched_inv s' rows'"
proof (cases "bound_to s c")
  case None
  then show ?thesis using r inv by (simp add: update_client_session_scope_def)
next
  case (Some key)
  then obtain x where x: "sess s key = Some x" using conn_okD(1) [OF sched_invD(2) [OF inv]] by blast
  show ?thesis
  proof (cases "ss_named x")
    case None
    then show ?thesis
      using r Some x put_anonymous_inv [OF inv x None, of "x\<lparr>ss_scope := scope\<rparr>"] by (simp add: update_client_session_scope_def)
  next
    case (Some m)
    let ?m = "m\<lparr>nm_updated_at_ms := sv_now_ms v\<rparr>"
    obtain q rows1 where p: "persist_named_session v ?m scope (ss_defaults x) rows = (q, rows1)"
      by (cases "persist_named_session v ?m scope (ss_defaults x) rows")
    show ?thesis
    proof (cases q)
      case (Inl e)
      then show ?thesis using r x Some \<open>bound_to s c = Some key\<close> p persist_error [of v ?m scope "ss_defaults x" rows e rows1] inv
        by (simp add: update_client_session_scope_def)
    next
      case (Inr durable)
      have "sched_inv (set_session key (x\<lparr>ss_scope := scope, ss_defaults := ss_defaults x,
          ss_named := Some (?m\<lparr>nm_scope_durable := durable\<rparr>)\<rparr>) s) rows1"
        by (rule put_named_inv [OF inv x Some _ _ _ _ p [unfolded Inr]]) simp_all
      then show ?thesis using r x Some \<open>bound_to s c = Some key\<close> p Inr by (simp add: update_client_session_scope_def)
    qed
  qed
qed

lemma save_default_inv:
  assumes inv: "sched_inv s rows" and x: "sess s key = Some x" and r: "save_default v key x d msg s rows = (r, s', rows')"
  shows "sched_inv s' rows'"
proof (cases "ss_named x")
  case None
  then show ?thesis
    using r put_anonymous_inv [OF inv x None, of "x\<lparr>ss_defaults := d\<rparr>"] by (simp add: save_default_def)
next
  case (Some m)
  let ?m = "m\<lparr>nm_updated_at_ms := sv_now_ms v\<rparr>"
  obtain q rows1 where p: "persist_named_session v ?m (ss_scope x) d rows = (q, rows1)"
    by (cases "persist_named_session v ?m (ss_scope x) d rows")
  show ?thesis
  proof (cases q)
    case (Inl e)
    then show ?thesis using r Some p persist_error [of v ?m "ss_scope x" d rows e rows1] inv
      by (simp add: save_default_def)
  next
    case (Inr durable)
    have "sched_inv (set_session key (x\<lparr>ss_scope := ss_scope x, ss_defaults := d,
        ss_named := Some (?m\<lparr>nm_scope_durable := durable\<rparr>)\<rparr>) s) rows1"
      by (rule put_named_inv [OF inv x Some _ _ _ _ p [unfolded Inr]]) simp_all
    then show ?thesis using r Some p Inr by (simp add: save_default_def)
  qed
qed

lemma bool_default_inv:
  assumes inv: "sched_inv s rows"
    and r: "handle_session_bool_default v c sub name dflt f s rows = (r, s', rows')"
  shows "sched_inv s' rows'"
proof (cases "bound_to s c")
  case None
  then show ?thesis using r inv by (simp add: handle_session_bool_default_def)
next
  case (Some key)
  then obtain x where x: "sess s key = Some x" using conn_okD(1) [OF sched_invD(2) [OF inv]] by blast
  show ?thesis
    using r Some x inv save_default_inv [OF inv x]
    by (auto simp: handle_session_bool_default_def Let_def split: if_splits)
qed

lemma command_inv:
  assumes inv: "sched_inv s rows" and fresh: "\<forall>r\<in>set rows. sd_id r \<noteq> ''SS-'' @ sv_uuid v"
    and r: "handle_session_command v c cmd s rows = (r, s', rows')"
  shows "(\<exists>a. r = Some a \<and> binding_ok c s a s') \<and> sched_inv s' rows'"
proof (cases "session_for_client s c = None")
  case True
  then show ?thesis using r inv by (auto simp: handle_session_command_def)
next
  case False
  then show ?thesis
    using r inv create_inv [OF inv fresh] archive_inv [OF inv] attach_inv [OF inv]
    by (cases cmd) (auto simp: handle_session_command_def)
qed

section \<open>Runs\<close>

datatype session_event =
    EvConnect instant "(string, scope_hash) result" u64 string bool
  | EvCommand session_env u64 session_command
  | EvScope session_env u64 scope_hash
  | EvDefault session_env u64 "string option" string bool default_field
  | EvDisconnect instant u64
  | EvSweep instant

fun session_turn :: "session_event \<Rightarrow> scheduler_state \<times> session_rows \<Rightarrow> scheduler_state \<times> session_rows" where
  "session_turn (EvConnect now ins c i refresh) (s, rows) = (snd (connect_session now ins c i refresh s), rows)"
| "session_turn (EvCommand v c cmd) (s, rows) = snd (handle_session_command v c cmd s rows)"
| "session_turn (EvScope v c scope) (s, rows) = snd (update_client_session_scope v c scope s rows)"
| "session_turn (EvDefault v c sub name dflt f) (s, rows) = snd (handle_session_bool_default v c sub name dflt f s rows)"
| "session_turn (EvDisconnect now c) (s, rows) = (disconnect_session now c s, rows)"
| "session_turn (EvSweep now) (s, rows) = (snd (sweep_disconnected_sessions now s), rows)"

text \<open>A UUID is new: no row of the table has it.\<close>

definition uuid_fresh :: "session_event \<Rightarrow> session_rows \<Rightarrow> bool" where
  "uuid_fresh e rows \<longleftrightarrow> (case e of EvCommand v _ _ \<Rightarrow> list_all (\<lambda>r. sd_id r \<noteq> ''SS-'' @ sv_uuid v) rows | _ \<Rightarrow> True)"

text \<open>What the rest of the scheduler does to its jobs, chains, scripts and crons leaves the sessions alone.\<close>

definition same_sessions :: "scheduler_state \<Rightarrow> scheduler_state \<Rightarrow> bool" where
  "same_sessions s s' \<longleftrightarrow> s_sessions s' = s_sessions s \<and> s_client_sessions s' = s_client_sessions s
     \<and> s_unavailable_named_sessions s' = s_unavailable_named_sessions s
     \<and> s_next_session_incarnation s' = s_next_session_incarnation s"

inductive session_reach :: "scheduler_state \<Rightarrow> session_rows \<Rightarrow> bool" where
  start: "session_reach scheduler_new []"
| turn: "session_reach s rows \<Longrightarrow> uuid_fresh e rows \<Longrightarrow> session_turn e (s, rows) = (s', rows') \<Longrightarrow> session_reach s' rows'"
| other: "session_reach s rows \<Longrightarrow> same_sessions s s' \<Longrightarrow> session_reach s' rows"
| restart: "session_reach s rows \<Longrightarrow> restore_named_sessions v rows scheduler_new = Inr s' \<Longrightarrow> session_reach s' rows"

lemma turn_inv:
  assumes inv: "sched_inv s rows" and fresh: "uuid_fresh e rows" and st: "session_turn e (s, rows) = (s', rows')"
  shows "sched_inv s' rows'"
proof (cases e)
  case (EvCommand v c cmd)
  obtain r where "handle_session_command v c cmd s rows = (r, s', rows')"
    using st EvCommand by (cases "handle_session_command v c cmd s rows") auto
  then show ?thesis
    using command_inv [OF inv] fresh EvCommand by (auto simp: uuid_fresh_def list_all_iff)
next
  case (EvScope v c scope)
  then show ?thesis using st scope_update_inv [OF inv, of v c scope] by (cases "update_client_session_scope v c scope s rows") auto
next
  case (EvDefault v c sub name dflt f)
  then show ?thesis
    using st bool_default_inv [OF inv, of v c sub name dflt f] by (cases "handle_session_bool_default v c sub name dflt f s rows") auto
next
  case (EvConnect now ins c i refresh)
  then show ?thesis using st connect_inv [OF inv] by auto
next
  case (EvDisconnect now c)
  then show ?thesis using st disconnect_inv [OF inv] by auto
next
  case (EvSweep now)
  then show ?thesis using st sweep_inv [OF inv] by auto
qed

lemma other_inv: "sched_inv s rows \<Longrightarrow> same_sessions s s' \<Longrightarrow> sched_inv s' rows"
  by (simp add: sched_inv_def conn_inv_def same_sessions_def idents_def [abs_def])

lemma new_inv: "sched_inv scheduler_new []"
  by (simp add: sched_inv_def conn_inv_def conn_ok_def ident_inv_def scheduler_new_def idents_def rows_ok_def
      named_view_def table_def fun_eq_iff)

section \<open>Restarts\<close>

lemma stored_roundtrip: "stored_of (meta_of_stored x) (sd_scope_hash x) (defaults_of_stored x) = x"
  by (cases x) (simp add: stored_of_def meta_of_stored_def defaults_of_stored_def)

lemma restore_session_inv:
  assumes inv: "sched_inv s rows" and al: "alloc_session_incarnation s = Some (inc, s1)"
    and ok: "rows_ok (rows @ [x])"
  shows "sched_inv (restore_session inc x s1) (rows @ [x])"
proof -
  note s1 = alloc_next [OF al] and inv1 = alloc_inv [OF inv al]
  have tab: "table rows (sd_id x) = None" using ok by (simp add: table_None_ids rows_ok_def)
  note abs = absent_id [OF inv1 tab]
  have tab': "table (rows @ [x]) = (table rows)(sd_id x \<mapsto> x)"
    using tab by (auto simp: table_snoc fun_eq_iff split: option.splits)
  show ?thesis
  proof (cases "sd_scope_hash x")
    case (Some h)
    let ?y = "\<lparr>ss_scope = h, ss_incarnation = inc, ss_defaults = defaults_of_stored x, ss_connected_clients = 0,
             ss_disconnected_at = None, ss_named = Some (meta_of_stored x)\<rparr>"
    have row: "row_of (identity_of ?y) = Some x"
      using stored_roundtrip [of x] Some by (simp add: row_of_def identity_of_def meta_of_stored_def)
    have "conn_inv (set_session (named_session_key (sd_id x)) ?y s1)"
      by (rule conn_inv_new_session [OF sched_invD(1) [OF inv1] abs(1)]) simp_all
    moreover have "ident_inv ((idents s1)(named_session_key (sd_id x) \<mapsto> identity_of ?y)) ((unavail s1)(sd_id x := None))
        (s_next_session_incarnation s1) (rows @ [x])"
    proof (rule ident_put_named [where m = "meta_of_stored x", OF sched_invD(4) [OF inv1] _ _ _ _ order.refl ok])
      show "k = named_session_key (sd_id x)"
        if "idents s1 k = Some z" "id_incarnation z = id_incarnation (identity_of ?y)" for k z
        using ident_incarnation [OF sched_invD(4) [OF inv]] that s1 by fastforce
    qed (use s1 row tab' in \<open>auto simp: meta_of_stored_def\<close>)
    moreover have "(unavail s1)(sd_id x := None) = unavail s1" using abs(2) by auto
    ultimately show ?thesis using inv1 Some by (simp add: sched_inv_def restore_session_def)
  next
    case None
    let ?u = "\<lparr>un_meta = meta_of_stored x, un_defaults = defaults_of_stored x\<rparr>"
    have "named_view (idents s1) ((unavail s1)(sd_id x \<mapsto> ?u)) = (named_view (idents s1) (unavail s1))(sd_id x \<mapsto> x)"
      using abs(1) stored_roundtrip [of x] None by (auto simp: named_view_def fun_eq_iff idents_def split: option.splits)
    then have "ident_inv (idents s1) ((unavail s1)(sd_id x \<mapsto> ?u)) (s_next_session_incarnation s1) (rows @ [x])"
      using sched_invD(4) [OF inv1] ok tab' abs(1) unfolding ident_inv_def by (auto simp: meta_of_stored_def idents_def)
    then show ?thesis
      using inv1 None by (simp add: sched_inv_def conn_inv_def restore_session_def update_conv' distinct_update)
  qed
qed

lemma restore_loop_inv:
  "sched_inv s rows \<Longrightarrow> rows_ok (rows @ xs) \<Longrightarrow> restore_sessions_loop xs s = Inr s' \<Longrightarrow> sched_inv s' (rows @ xs)"
proof (induction xs arbitrary: s rows)
  case (Cons x xs)
  then obtain inc s1 where al: "alloc_session_incarnation s = Some (inc, s1)"
    and l: "restore_sessions_loop xs (restore_session inc x s1) = Inr s'"
    by (auto split: option.splits)
  have "rows_ok (rows @ [x])" using Cons.prems(2) by (auto simp: rows_ok_def)
  from Cons.IH [OF restore_session_inv [OF Cons.prems(1) al this] _ l] show ?case using Cons.prems(2) by simp
qed simp

lemma collect_load: "collect_results (map load_session rows) = Inr xs \<Longrightarrow> xs = rows"
  by (induction rows arbitrary: xs) (auto simp: load_session_def split: sum.splits if_splits)

lemma rows_ok_set:
  assumes "rows_ok rows" "distinct rows'" "set rows' = set rows"
  shows "rows_ok rows'"
  using assms unfolding rows_ok_def distinct_map by simp

lemma restore_inv:
  assumes ok: "rows_ok rows" and r: "restore_named_sessions v rows scheduler_new = Inr s"
  shows "sched_inv s rows"
proof -
  let ?xs = "sort_key (\<lambda>r. (sd_created_at_ms r, sd_id r)) rows"
  have l: "restore_sessions_loop ?xs scheduler_new = Inr s"
    using r by (auto simp: restore_named_sessions_def load_sessions_def dest: collect_load split: sum.splits option.splits if_splits)
  have ok': "rows_ok ?xs" using ok by (auto intro: rows_ok_set simp: rows_ok_def distinct_map)
  then have "sched_inv s ?xs" using restore_loop_inv [OF new_inv _ l] by simp
  moreover have "table ?xs = table rows" using table_cong [OF ok' ok] by simp
  ultimately show ?thesis using ok by (simp add: sched_inv_def ident_inv_def)
qed

lemma reach_inv: "session_reach s rows \<Longrightarrow> sched_inv s rows"
proof (induction rule: session_reach.induct)
  case start
  then show ?case by (rule new_inv)
next
  case (turn s rows e s' rows')
  then show ?case using turn_inv by blast
next
  case (other s rows s')
  then show ?case using other_inv by blast
next
  case (restart s rows v s')
  then show ?case using restore_inv sched_invD(5) by blast
qed

end
