(* ===== verification/SessionTheorems.thy ===== *)
theory SessionTheorems
  imports SessionRun
begin

text \<open>
  What the session invariant gives: lookups by selector are unambiguous, a restart restores the named
  sessions, commands are always answered and their bindings are true, archiving needs a quiet session.
\<close>

section \<open>Lookups are unambiguous\<close>

lemma location_row:
  assumes inv: "sched_inv s rows" and m: "location_meta s loc = Some m"
  shows "\<exists>r. table rows (nm_id m) = Some r \<and> sd_id r = nm_id m \<and> sd_name r = nm_name m"
    "loc = (if sess s (named_session_key (nm_id m)) = None then LocNeedsRefresh (nm_id m) else LocReady (named_session_key (nm_id m)))"
proof -
  have "(\<exists>r. table rows (nm_id m) = Some r \<and> sd_id r = nm_id m \<and> sd_name r = nm_name m) \<and>
    loc = (if sess s (named_session_key (nm_id m)) = None then LocNeedsRefresh (nm_id m) else LocReady (named_session_key (nm_id m)))"
  proof (cases loc)
    case (LocReady k)
    then obtain x where x: "sess s k = Some x" "ss_named x = Some m"
      using m by (auto simp: location_meta_def Option.bind_eq_Some_conv)
    note K = ident_named [OF sched_invD(4) [OF inv] identsI [OF x(1)], unfolded id_named_of, OF x(2)]
    show ?thesis using K(1,2) x LocReady by (auto simp: row_of_def)
  next
    case (LocNeedsRefresh i)
    then obtain u where u: "unavail s i = Some u" "un_meta u = m" using m by (auto simp: location_meta_def)
    note U = ident_unavailable [OF sched_invD(4) [OF inv] u(1)]
    show ?thesis using U(1,2,3) u LocNeedsRefresh by (auto simp: idents_def)
  qed
  then show "\<exists>r. table rows (nm_id m) = Some r \<and> sd_id r = nm_id m \<and> sd_name r = nm_name m"
    "loc = (if sess s (named_session_key (nm_id m)) = None then LocNeedsRefresh (nm_id m) else LocReady (named_session_key (nm_id m)))"
    by blast+
qed

lemma matches_unique:
  assumes inv: "sched_inv s rows" and l: "location_meta s loc = Some m" "location_meta s loc' = Some m'"
    and sel: "named_matches sel m" "named_matches sel m'"
  shows "loc = loc'"
proof -
  obtain r r' where r: "table rows (nm_id m) = Some r" "sd_id r = nm_id m" "sd_name r = nm_name m"
      "table rows (nm_id m') = Some r'" "sd_id r' = nm_id m'" "sd_name r' = nm_name m'"
    using location_row(1) [OF inv l(1)] location_row(1) [OF inv l(2)] by blast
  have ok: "rows_ok rows" using sched_invD(5) [OF inv] .
  have mem: "r \<in> set rows" "r' \<in> set rows" using r table_Some [OF ok] by simp_all
  have pre: "starts_with (nm_id m) ''SS-''" "\<not> starts_with (nm_name m) ''SS-''"
    "starts_with (nm_id m') ''SS-''" "\<not> starts_with (nm_name m') ''SS-''"
    using ok mem r unfolding rows_ok_def by metis+
  have "r = r'"
  proof (cases "sd_name r = sd_name r'")
    case True
    then show ?thesis using ok mem by (auto simp: rows_ok_def distinct_map dest: inj_onD)
  next
    case False
    then have "sd_id r = sd_id r'" using sel r pre by (auto simp: named_matches_def)
    then show ?thesis using ok mem by (auto simp: rows_ok_def distinct_map dest: inj_onD)
  qed
  then have "nm_id m = nm_id m'" using r by simp
  then show ?thesis using location_row(2) [OF inv l(1)] location_row(2) [OF inv l(2)] by simp
qed

lemma find_complete:
  assumes inv: "sched_inv s rows"
  shows "find_named_session s sel = Some loc \<longleftrightarrow> (\<exists>m. location_meta s loc = Some m \<and> named_matches sel m)"
proof -
  have d: "distinct (map fst (s_sessions s))" using sched_invD(1) [OF inv] by (simp add: conn_inv_def)
  have sound: "\<exists>m. location_meta s l = Some m \<and> named_matches sel m" if f: "find_named_session s sel = Some l" for l
  proof (cases l)
    case (LocReady k)
    then show ?thesis using find_ready [OF _ d] f by (fastforce simp: location_meta_def)
  next
    case (LocNeedsRefresh i)
    then obtain u where u: "unavail s i = Some u" "i = sel \<or> nm_name (un_meta u) = sel"
      using find_unavailable [OF _ sched_invD(3) [OF inv]] f by blast
    then show ?thesis
      using ident_unavailable(1) [OF sched_invD(4) [OF inv] u(1)] LocNeedsRefresh by (auto simp: location_meta_def named_matches_def)
  qed
  have "find_named_session s sel \<noteq> None" if l: "location_meta s loc = Some m" "named_matches sel m" for m
  proof (cases loc)
    case (LocReady k)
    then obtain x where x: "sess s k = Some x" "ss_named x = Some m"
      using l by (auto simp: location_meta_def Option.bind_eq_Some_conv)
    then have "find (\<lambda>(_, x). ready_matches sel x) (s_sessions s) \<noteq> None"
      using l(2) by (intro find_exists [OF map_of_SomeD [OF x(1)]]) (simp add: ready_matches_def)
    then show ?thesis by (auto simp: find_named_session_def split: option.splits)
  next
    case (LocNeedsRefresh i)
    then obtain u where u: "unavail s i = Some u" "un_meta u = m" using l by (auto simp: location_meta_def)
    then have "find (\<lambda>(i, u). i = sel \<or> nm_name (un_meta u) = sel) (s_unavailable_named_sessions s) \<noteq> None"
      using l(2) ident_unavailable(1) [OF sched_invD(4) [OF inv] u(1)]
      by (intro find_exists [OF map_of_SomeD [OF u(1)]]) (auto simp: named_matches_def)
    then show ?thesis by (auto simp: find_named_session_def split: option.splits)
  qed
  then show ?thesis using sound matches_unique [OF inv] by (metis option.exhaust)
qed

section \<open>Restoration succeeds\<close>

lemma restore_loop_total:
  "unat (s_next_session_incarnation s) + length xs < 2 ^ 64 \<Longrightarrow> \<exists>s'. restore_sessions_loop xs s = Inr s'"
proof (induction xs arbitrary: s)
  case (Cons x xs)
  let ?n = "s_next_session_incarnation s"
  have lt: "Suc (unat ?n) < 2 ^ 64" using Cons.prems by simp
  have "?n \<noteq> - 1"
  proof
    assume "?n = - 1"
    then have "unat ?n = 2 ^ 64 - 1" by (simp add: unsigned_minus_1_eq_mask mask_eq_exp_minus_1)
    then show False using lt by simp
  qed
  moreover have "unat (?n + 1) = Suc (unat ?n)" using lt by (simp add: unat_word_ariths)
  moreover have "s_next_session_incarnation (restore_session i x s1) = s_next_session_incarnation s1" for i s1
    by (simp add: restore_session_def split: option.splits)
  ultimately show ?case
    using Cons.IH [of "restore_session ?n x (s\<lparr>s_next_session_incarnation := ?n + 1\<rparr>)"] Cons.prems
    by (simp add: alloc_session_incarnation_def)
qed simp

definition restored :: "scheduler_state \<Rightarrow> stored_session \<Rightarrow> bool" where
  "restored s r \<longleftrightarrow>
     (case sd_scope_hash r of
        Some h \<Rightarrow> (\<exists>y. sess s (named_session_key (sd_id r)) = Some y \<and> ss_scope y = h
                    \<and> ss_defaults y = defaults_of_stored r \<and> ss_named y = Some (meta_of_stored r))
      | None \<Rightarrow> unavail s (sd_id r) = Some \<lparr>un_meta = meta_of_stored r, un_defaults = defaults_of_stored r\<rparr>)"

lemma restored_step:
  "restored (restore_session inc x s) x"
  "sd_id r \<noteq> sd_id x \<Longrightarrow> restored (restore_session inc x s) r \<longleftrightarrow> restored s r"
  by (auto simp: restored_def restore_session_def update_conv' split: option.splits)

lemma restored_alloc: "alloc_session_incarnation s = Some (inc, s1) \<Longrightarrow> restored s1 r \<longleftrightarrow> restored s r"
  using alloc_next [of s inc s1] by (auto simp: restored_def split: option.splits)

lemma restore_loop_restored:
  "restore_sessions_loop xs s = Inr s' \<Longrightarrow> distinct (map sd_id xs) \<Longrightarrow>
   (restored s r \<and> sd_id r \<notin> set (map sd_id xs)) \<or> r \<in> set xs \<Longrightarrow> restored s' r"
proof (induction xs arbitrary: s)
  case (Cons x xs)
  then obtain inc s1 where al: "alloc_session_incarnation s = Some (inc, s1)"
    and l: "restore_sessions_loop xs (restore_session inc x s1) = Inr s'"
    by (auto split: option.splits)
  show ?case
    using Cons.prems(2,3) by (intro Cons.IH [OF l]) (auto simp: restored_step restored_alloc [OF al])
qed simp

lemma missing_scope_None:
  "\<forall>x\<in>set xs. \<forall>h. sd_scope_hash x = Some h \<longrightarrow> (\<exists>sc. get_scope (sv_sql v) (sv_db v) h = Inr (Some sc)) \<Longrightarrow> missing_scope v xs = None"
  by (induction xs) (auto split: option.split sum.split)

lemma restore_total:
  assumes "sv_sql v" "length rows < 2 ^ 64 - 1"
    and "\<forall>x\<in>set rows. \<forall>h. sd_scope_hash x = Some h \<longrightarrow> blob_ok h \<and> (\<exists>sc. get_scope (sv_sql v) (sv_db v) h = Inr (Some sc))"
  shows "\<exists>s. restore_named_sessions v rows scheduler_new = Inr s"
proof -
  let ?xs = "sort_key (\<lambda>r. (sd_created_at_ms r, sd_id r)) rows"
  have "map load_session ?xs = map (\<lambda>x. Inr x) ?xs" using assms(3) by (auto simp: load_session_def split: option.splits)
  then have "collect_results (map load_session ?xs) = Inr ?xs" by (simp only: collect_results_map_Inr list.map_ident)
  then have "load_sessions (sv_sql v) rows = Inr ?xs" using assms(1) by (simp only: load_sessions_def if_True)
  moreover have "missing_scope v ?xs = None" using assms(3) by (intro missing_scope_None) auto
  moreover have "\<exists>s. restore_sessions_loop ?xs scheduler_new = Inr s"
    using assms(2) by (intro restore_loop_total) (simp add: scheduler_new_def)
  ultimately show ?thesis by (simp add: restore_named_sessions_def)
qed

lemma restored_row:
  assumes ok: "rows_ok rows" and r: "restore_named_sessions v rows scheduler_new = Inr s" "x \<in> set rows"
  shows "restored s x"
proof -
  let ?xs = "sort_key (\<lambda>r. (sd_created_at_ms r, sd_id r)) rows"
  have l: "restore_sessions_loop ?xs scheduler_new = Inr s"
    using r by (auto simp: restore_named_sessions_def load_sessions_def dest: collect_load split: sum.splits option.splits if_splits)
  show ?thesis using ok r(2) by (intro restore_loop_restored [OF l]) (simp_all add: rows_ok_def distinct_map)
qed

section \<open>Theorems\<close>

text \<open>
  C18.  In every reachable state, under any interleaving, with failing database calls and restarts,
  every bound client has a session, the connection count of each session is the number of clients
  bound to it, no client is bound to an archived session, and a sweep takes no client's session away.
\<close>

theorem session_counts_exact:
  assumes "session_reach s rows"
  shows "(\<forall>c k. map_of (s_client_sessions s) c = Some k \<longrightarrow> session_for_client s c \<noteq> None)
    \<and> (\<forall>k x. map_of (s_sessions s) k = Some x \<longrightarrow>
         ss_connected_clients x = card {c. map_of (s_client_sessions s) c = Some k}
         \<and> (is_archived x \<longrightarrow> (\<forall>c. map_of (s_client_sessions s) c \<noteq> Some k)))
    \<and> (\<forall>now c. session_for_client (snd (sweep_disconnected_sessions now s)) c = session_for_client s c)"
proof (intro conjI allI impI)
  note inv = reach_inv [OF assms]
  note C = sched_invD(2) [OF inv]
  fix c k assume "map_of (s_client_sessions s) c = Some k"
  then show "session_for_client s c \<noteq> None" using conn_okD(1) [OF C] by (auto simp: session_for_client_def)
next
  note C = sched_invD(2) [OF reach_inv [OF assms]]
  fix k x assume x: "map_of (s_sessions s) k = Some x"
  show "ss_connected_clients x = card {c. map_of (s_client_sessions s) c = Some k}"
    using conn_okD(2) [OF C x] by (simp add: sess_ok_def clients_of_def)
  fix c assume "is_archived x"
  then have "clients_of (bound_to s) k = 0" using conn_okD(2) [OF C x] by (simp add: sess_ok_def)
  then show "map_of (s_client_sessions s) c \<noteq> Some k" by (simp add: clients_of_zero)
next
  note inv = reach_inv [OF assms]
  fix now c
  let ?s = "snd (sweep_disconnected_sessions now s)"
  have d: "distinct (map fst (s_sessions s))" using sched_invD(1) [OF inv] by (simp add: conn_inv_def)
  have b: "s_client_sessions ?s = s_client_sessions s" by (simp add: sweep_disconnected_sessions_def Let_def)
  have "sess ?s k = sess s k" if k: "bound_to s c = Some k" for k
  proof -
    obtain x where x: "sess s k = Some x" using conn_okD(1) [OF sched_invD(2) [OF inv] k] by blast
    have "0 < ss_connected_clients x"
      using conn_okD(2) [OF sched_invD(2) [OF inv] x] clients_of_pos [OF k] by (simp add: sess_ok_def)
    then show ?thesis
      using map_of_filter_map [OF d, of "keeps_session now" "\<lambda>x. x" k] x
      by (simp add: sweep_disconnected_sessions_def Let_def keeps_session_def)
  qed
  then show "session_for_client ?s c = session_for_client s c"
    by (simp add: session_for_client_def b) (cases "bound_to s c", auto)
qed

text \<open>
  C19.  The named sessions in memory are at all times exactly the rows of the sessions table: a failing
  statement never makes the two disagree.  A restart therefore brings every named session back: one
  with a durable scope is ready with the same scope, defaults and metadata, one whose scope was kept
  out of the database is back under its name and waits for a refresh.  The restart itself succeeds
  when the table can be read and the scopes it refers to are stored.
\<close>

theorem sessions_survive_restart:
  assumes reach: "session_reach s rows" and sql: "sv_sql v" and small: "length rows < 2 ^ 64 - 1"
    and stored: "\<forall>x\<in>set rows. \<forall>h. sd_scope_hash x = Some h \<longrightarrow>
      blob_ok h \<and> (\<exists>sc. get_scope (sv_sql v) (sv_db v) h = Inr (Some sc))"
  shows "named_sessions s = table rows \<and>
    (\<exists>s'. restore_named_sessions v rows scheduler_new = Inr s' \<and> named_sessions s' = named_sessions s
      \<and> (\<forall>i x m. map_of (s_sessions s) (named_session_key i) = Some x \<longrightarrow> ss_named x = Some m \<longrightarrow>
           (if nm_scope_durable m
            then \<exists>x'. map_of (s_sessions s') (named_session_key i) = Some x'
                   \<and> ss_scope x' = ss_scope x \<and> ss_defaults x' = ss_defaults x \<and> ss_named x' = Some m
            else map_of (s_unavailable_named_sessions s') i = Some \<lparr>un_meta = m, un_defaults = ss_defaults x\<rparr>)))"
proof -
  note inv = reach_inv [OF reach]
  obtain s' where s': "restore_named_sessions v rows scheduler_new = Inr s'" using restore_total [OF sql small stored] by blast
  note inv' = restore_inv [OF sched_invD(5) [OF inv] s']
  have eq: "named_sessions s = table rows" "named_sessions s' = table rows"
    using sched_invD(4) [OF inv] sched_invD(4) [OF inv'] by (simp_all add: named_sessions_def ident_inv_def)
  have "if nm_scope_durable m
        then \<exists>x'. sess s' (named_session_key i) = Some x'
                   \<and> ss_scope x' = ss_scope x \<and> ss_defaults x' = ss_defaults x \<and> ss_named x' = Some m
        else unavail s' i = Some \<lparr>un_meta = m, un_defaults = ss_defaults x\<rparr>"
    if x: "sess s (named_session_key i) = Some x" "ss_named x = Some m" for i x m
  proof -
    have i: "nm_id m = i" using ident_named(1) [OF sched_invD(4) [OF inv] identsI [OF x(1)]] x(2) by simp
    let ?r = "stored_of m (if nm_scope_durable m then Some (ss_scope x) else None) (ss_defaults x)"
    have r: "table rows i = Some ?r"
      using x i by (simp add: eq(1) [symmetric] named_sessions_def named_view_def idents_def row_of_def identity_of_def)
    then have "restored s' ?r" using table_Some [OF sched_invD(5) [OF inv]] restored_row [OF sched_invD(5) [OF inv] s'] by blast
    then show ?thesis
      using i by (cases m) (auto simp: restored_def stored_of_def meta_of_stored_def defaults_of_stored_def)
  qed
  then show ?thesis using s' eq by auto
qed

text \<open>
   A selector names at most one session, ready or unavailable, whichever way the hash maps are
  iterated: the lookup finds a location exactly when the session there has the selector as its id or
  as its name.
\<close>

theorem selector_is_unambiguous:
  assumes "session_reach s rows"
  shows "find_named_session s selector = Some loc \<longleftrightarrow>
    (\<exists>m. location_meta s loc = Some m \<and> (nm_id m = selector \<or> nm_name m = selector))"
  using find_complete [OF reach_inv [OF assms]] by (simp add: named_matches_def)

text \<open>
  C24.  Every session command is answered, none of the assertions in the code can fail, and the answer
  is true to the state: without a binding the clients' bindings are as before, and the binding that is
  handed to the gateway describes the live, unarchived session the client is now bound to.
\<close>

theorem session_commands_answered:
  assumes reach: "session_reach s rows" and fresh: "\<forall>r\<in>set rows. sd_id r \<noteq> ''SS-'' @ sv_uuid v"
  shows "\<exists>r s' rows'. handle_session_command v c cmd s rows = (Some r, s', rows') \<and> session_reach s' rows'
    \<and> (case scr_binding r of
         None \<Rightarrow> s_client_sessions s' = s_client_sessions s
       | Some b \<Rightarrow> \<exists>x m. session_for_client s' c = Some x \<and> ss_named x = Some m \<and> nm_archived_at_ms m = None
           \<and> sb_session_id b = nm_id m \<and> sb_named_session_id b = Some (nm_id m)
           \<and> sb_scope b = ss_scope x \<and> sb_incarnation b = ss_incarnation x)"
proof -
  obtain r s' rows' where h: "handle_session_command v c cmd s rows = (r, s', rows')"
    by (cases "handle_session_command v c cmd s rows")
  from command_inv [OF reach_inv [OF reach] fresh h] obtain a where a: "r = Some a" "binding_ok c s a s'" by blast
  have "session_reach s' rows'"
    using session_reach.turn [OF reach, of "EvCommand v c cmd"] fresh h by (simp add: uuid_fresh_def list_all_iff)
  then show ?thesis using h a by (auto simp: binding_ok_def split: option.splits)
qed

text \<open>
  C25.  Archiving needs a quiet session: when a command archives a session, no client is bound to it and
  it owns no unfinished job, no pending script, no running chain and no cron.
\<close>

theorem archive_requires_quiescence:
  assumes reach: "session_reach s rows"
    and cmd: "handle_session_command v c (SessArchive selector) s rows = (r, s', rows')"
    and before: "location_meta s loc = Some m" "nm_archived_at_ms m = None"
    and after: "location_meta s' loc = Some m'" "nm_archived_at_ms m' \<noteq> None"
  shows "(\<forall>k c'. loc = LocReady k \<longrightarrow> map_of (s_client_sessions s) c' \<noteq> Some k)
    \<and> (\<forall>(i, j)\<in>set (s_jobs s). je_session_id j = Some (nm_id m) \<longrightarrow> job_is_terminal (je_status j))
    \<and> (\<forall>(i, p)\<in>set (s_pending_scripts s). ps_session_id p \<noteq> Some (nm_id m))
    \<and> (\<forall>(i, h)\<in>set (s_chains s). ch_session_id h \<noteq> Some (nm_id m))
    \<and> (\<forall>(i, e)\<in>set (s_crons s). en_session_id e \<noteq> Some (nm_id m))"
proof -
  note inv = reach_inv [OF reach]
  have ne: "s' \<noteq> s" using before after by auto
  then have cmd': "set_named_session_archived v c selector True s rows = (r, s', rows')"
    using cmd by (auto simp: handle_session_command_def split: if_splits)
  obtain loc' m0 where l: "find_named_session s selector = Some loc'" "location_meta s loc' = Some m0"
      "named_session_archive_blocker s (nm_id m0) = None" "s' = set_location_meta loc' (m0\<lparr>nm_archived_at_ms := Some (sv_now_ms v),
        nm_updated_at_ms := sv_now_ms v\<rparr>) s"
    using cmd' ne by (auto simp: set_named_session_archived_def Let_def split: option.splits if_splits prod.splits sum.splits)
  have "loc' = loc"
  proof (rule ccontr)
    assume "loc' \<noteq> loc"
    then have "location_meta s' loc = location_meta s loc"
      by (auto simp: l(4) location_meta_def set_location_meta_def set_session_def update_conv' split: named_session_location.splits option.splits)
    then show False using before after by simp
  qed
  then have b: "named_session_archive_blocker s (nm_id m) = None" using l before by simp
  have q: "list_all (\<lambda>(i, j). je_session_id j = Some (nm_id m) \<longrightarrow> job_is_terminal (je_status j)) (s_jobs s)"
    "\<not> list_ex (\<lambda>(_, r). owner_is (nm_id m) (ps_session_id r)) (s_pending_scripts s)"
    "\<not> list_ex (\<lambda>(_, h). owner_is (nm_id m) (ch_session_id h)) (s_chains s)"
    "\<not> list_ex (\<lambda>(_, e). owner_is (nm_id m) (en_session_id e)) (s_crons s)"
    using blocker_quiet [OF b] by blast+
  moreover have "bound_to s c' \<noteq> Some k" if k: "loc = LocReady k" for k c'
  proof -
    obtain x where x: "sess s k = Some x" "ss_named x = Some m"
      using before(1) k by (auto simp: location_meta_def Option.bind_eq_Some_conv)
    have "ss_connected_clients x = 0" using blocker_disconnected [OF inv x b] .
    then have "clients_of (bound_to s) k = 0" using conn_okD(2) [OF sched_invD(2) [OF inv] x(1)] by (simp add: sess_ok_def)
    then show ?thesis by (simp add: clients_of_zero)
  qed
  ultimately show ?thesis by (auto simp: list_all_iff list_ex_iff owner_is_def)
qed

section \<open>A sample run\<close>

definition sample_hash :: scope_hash where
  "sample_hash = ScopeHash (replicate 32 0)"

definition sample_env :: "string \<Rightarrow> session_env" where
  "sample_env u = \<lparr>sv_sql = True,
     sv_db = empty_db\<lparr>scopes_t := [\<lparr>row_hash = sample_hash, row_parent = None, row_delta = None, row_snap = None\<rparr>]\<rparr>,
     sv_now_ms = 5, sv_instant = \<lparr>in_secs = 0, in_nanos = 0\<rparr>, sv_uuid = u, sv_show = (\<lambda>_. [])\<rparr>"

definition sample_events :: "session_event list" where
  "sample_events =
     [EvConnect \<lparr>in_secs = 0, in_nanos = 0\<rparr> (Inr sample_hash) 1 ''a'' False, EvCommand (sample_env ''u1'') 1 (SessCreate ''work''),
      EvConnect \<lparr>in_secs = 0, in_nanos = 0\<rparr> (Inr sample_hash) 2 ''b'' False]"

definition sample_world :: "scheduler_state \<times> session_rows" where
  "sample_world = foldl (\<lambda>w e. session_turn e w) (scheduler_new, []) sample_events"

lemma sample_reach: "session_reach (fst sample_world) (snd sample_world)"
proof -
  have step: "session_reach (fst (session_turn e w)) (snd (session_turn e w))"
    if "session_reach (fst w) (snd w)" "uuid_fresh e (snd w)" for e w
    using session_reach.turn [OF that, of "fst (session_turn e w)" "snd (session_turn e w)"] by simp
  let ?e1 = "EvConnect \<lparr>in_secs = 0, in_nanos = 0\<rparr> (Inr sample_hash) 1 ''a'' False"
  let ?e2 = "EvCommand (sample_env ''u1'') 1 (SessCreate ''work'')"
  have "session_reach (fst (session_turn ?e1 (scheduler_new, []))) (snd (session_turn ?e1 (scheduler_new, [])))"
    by (rule step) (simp_all add: session_reach.start uuid_fresh_def)
  then have "session_reach (fst (session_turn ?e2 (session_turn ?e1 (scheduler_new, []))))
      (snd (session_turn ?e2 (session_turn ?e1 (scheduler_new, []))))"
    by (rule step) (simp add: uuid_fresh_def)
  from step [OF this, of "EvConnect \<lparr>in_secs = 0, in_nanos = 0\<rparr> (Inr sample_hash) 2 ''b'' False"]
  show ?thesis by (simp add: sample_world_def sample_events_def uuid_fresh_def)
qed

lemma sample_state:
  "map_option ss_connected_clients (map_of (s_sessions (fst sample_world)) ''named:SS-u1'') = Some 1"
  "map_of (s_client_sessions (fst sample_world)) 1 = Some ''named:SS-u1''"
  "find_named_session (fst sample_world) ''work'' = Some (LocReady ''named:SS-u1'')"
  "map sd_id (snd sample_world) = [''SS-u1'']" "map sd_scope_hash (snd sample_world) = [Some sample_hash]"
  by code_simp+

theorem session_counts_exact_witness:
  "session_reach (fst sample_world) (snd sample_world)
   \<and> card {c. map_of (s_client_sessions (fst sample_world)) c = Some ''named:SS-u1''} = 1"
proof -
  obtain x where x: "map_of (s_sessions (fst sample_world)) ''named:SS-u1'' = Some x" "ss_connected_clients x = 1"
    using sample_state(1) by auto
  have "ss_connected_clients x = card {c. map_of (s_client_sessions (fst sample_world)) c = Some ''named:SS-u1''}"
    using session_counts_exact [OF sample_reach] x(1) by blast
  then show ?thesis using sample_reach x(2) by simp
qed

lemma sample_fresh: "u \<noteq> ''u1'' \<Longrightarrow> \<forall>r\<in>set (snd sample_world). sd_id r \<noteq> ''SS-'' @ sv_uuid (sample_env u)"
proof
  fix r assume "u \<noteq> ''u1''" "r \<in> set (snd sample_world)"
  moreover from this(2) have "sd_id r \<in> set (map sd_id (snd sample_world))" by simp
  then have "sd_id r = ''SS-u1''" unfolding sample_state(4) by simp
  ultimately show "sd_id r \<noteq> ''SS-'' @ sv_uuid (sample_env u)" by (auto simp: sample_env_def)
qed

theorem sessions_survive_restart_witness:
  "\<exists>s'. restore_named_sessions (sample_env []) (snd sample_world) scheduler_new = Inr s'
     \<and> named_sessions s' = named_sessions (fst sample_world) \<and> named_sessions s' ''SS-u1'' \<noteq> None"
proof -
  have len: "length (snd sample_world) = 1" using arg_cong [OF sample_state(4), of length] by simp
  have scopes: "\<forall>x\<in>set (snd sample_world). \<forall>h. sd_scope_hash x = Some h \<longrightarrow> blob_ok h
      \<and> (\<exists>sc. get_scope (sv_sql (sample_env [])) (sv_db (sample_env [])) h = Inr (Some sc))"
  proof (intro ballI allI impI)
    fix x h assume "x \<in> set (snd sample_world)" and h: "sd_scope_hash x = Some h"
    then have "Some h \<in> set (map sd_scope_hash (snd sample_world))" by force
    then have "h = sample_hash" unfolding sample_state(5) by simp
    then show "blob_ok h \<and> (\<exists>sc. get_scope (sv_sql (sample_env [])) (sv_db (sample_env [])) h = Inr (Some sc))"
      by (simp add: sample_env_def sample_hash_def get_scope_def scope_from_row_parts_def decode_cell_def)
  qed
  have "table (snd sample_world) ''SS-u1'' \<noteq> None" by (simp add: table_None_ids sample_state(4) del: set_map)
  then show ?thesis
    using sessions_survive_restart [OF sample_reach _ _ scopes] len by (auto simp: sample_env_def)
qed

theorem selector_is_unambiguous_witness:
  "\<exists>m. location_meta (fst sample_world) (LocReady ''named:SS-u1'') = Some m \<and> (nm_id m = ''work'' \<or> nm_name m = ''work'')"
  using selector_is_unambiguous [OF sample_reach, of "''work''" "LocReady ''named:SS-u1''"] sample_state(3) by simp

theorem session_commands_answered_witness:
  "\<exists>r s' rows'. handle_session_command (sample_env ''u2'') 2 (SessAttach ''work'' False) (fst sample_world) (snd sample_world)
     = (Some r, s', rows') \<and> session_reach s' rows'"
  using session_commands_answered [OF sample_reach sample_fresh, of "''u2''" 2 "SessAttach ''work'' False"] by auto

definition quiet_world :: "scheduler_state \<times> session_rows" where
  "quiet_world = session_turn (EvConnect \<lparr>in_secs = 0, in_nanos = 0\<rparr> (Inr sample_hash) 1 ''a'' False) sample_world"

definition archived_world :: "session_command_result option \<times> scheduler_state \<times> session_rows" where
  "archived_world = handle_session_command (sample_env []) 2 (SessArchive ''work'') (fst quiet_world) (snd quiet_world)"

lemma archived_state:
  "map_option nm_archived_at_ms (location_meta (fst quiet_world) (LocReady ''named:SS-u1'')) = Some None"
  "map_option nm_archived_at_ms (location_meta (fst (snd archived_world)) (LocReady ''named:SS-u1'')) = Some (Some 5)"
  by code_simp+

theorem archive_requires_quiescence_witness:
  "(\<exists>m. location_meta (fst (snd archived_world)) (LocReady ''named:SS-u1'') = Some m \<and> nm_archived_at_ms m \<noteq> None)
   \<and> (\<forall>c. map_of (s_client_sessions (fst quiet_world)) c \<noteq> Some ''named:SS-u1'')"
proof -
  have reach: "session_reach (fst quiet_world) (snd quiet_world)"
    unfolding quiet_world_def
    by (rule session_reach.turn [OF sample_reach, of "EvConnect \<lparr>in_secs = 0, in_nanos = 0\<rparr> (Inr sample_hash) 1 ''a'' False"])
      (simp_all add: uuid_fresh_def)
  obtain r s' rows' where a: "archived_world = (r, s', rows')" by (cases archived_world)
  obtain m m' where m: "location_meta (fst quiet_world) (LocReady ''named:SS-u1'') = Some m" "nm_archived_at_ms m = None"
    "location_meta s' (LocReady ''named:SS-u1'') = Some m'" "nm_archived_at_ms m' \<noteq> None"
    using archived_state(1) archived_state(2) [unfolded a] by auto
  show ?thesis
    using archive_requires_quiescence [OF reach a [unfolded archived_world_def] m] m unfolding a by auto
qed

end
