(* ===== verification/Execution.thy ===== *)
theory Execution
  imports SchedState Registry
begin

text \<open>
  Running jobs and chains (\<^verbatim>\<open>crates/cue-daemon/src/actor/scheduler.rs\<close>): scope transforms, resource
  admission and its retries, the terminal transition of a job, cancelling chain leaves, advancing and
  spawning chains, and the handlers of finished and cancelled jobs.

  A world holds the scheduler state, the state of the resource registry and the effects emitted so
  far (events, messages to the process manager, deferred responses).  An \<open>exec_env\<close> gives the answers
  of the other actors and of the store, and the derived debug form of a command.  The resource registry is used through a record of its two
  operations, whose contract is the locale \<open>resource_manager\<close>.  The work queue of
  \<^verbatim>\<open>process_chain_advance\<close> is bounded by a fuel of one more than the number of leaves; \<open>None\<close> is running
  out of it or an index out of range.
\<close>

section \<open>Effects and answers\<close>

datatype job_event =
    EvJobCreated job_id string scope_hash job_open_hint "chain_id option" "nat option" "nat option"
  | EvJobStateChanged job_id job_status job_status "scope_hash option" "chain_id option" "nat option"
  | EvChainProgress chain_info

datatype effect =
    EffEvent job_event "string option"
  | EffSpawn job_id job_plan scope_hash process_job_options
  | EffKill job_id
  | EffJobInfo u64 u32 job_entry

record 'r resource_ops =
  ro_reserve :: "job_id \<Rightarrow> need \<Rightarrow> 'r \<Rightarrow> (reject_group, reservation list) result \<times> 'r"
  ro_release :: "job_id \<Rightarrow> 'r \<Rightarrow> 'r"

record exec_env =
  xv_persist :: "job_entry \<Rightarrow> string option"
  xv_spawn :: "job_id \<Rightarrow> string option"
  xv_kill :: "job_id \<Rightarrow> (string, unit) result"
  xv_derive :: "scope_hash \<Rightarrow> env_delta \<Rightarrow> (string, scope_hash) result"
  xv_snapshot :: "scope_hash \<Rightarrow> (string, env_snapshot) result"
  xv_canonical_dir :: "string \<Rightarrow> (string, string) result"
  xv_debug :: "resolved_command \<Rightarrow> string"

record 'r exec_world =
  w_state :: scheduler_state
  w_res :: 'r
  w_log :: "effect list"

definition on_state :: "(scheduler_state \<Rightarrow> scheduler_state) \<Rightarrow> 'r exec_world \<Rightarrow> 'r exec_world" where
  "on_state f w = w\<lparr>w_state := f (w_state w)\<rparr>"

definition emit :: "effect \<Rightarrow> 'r exec_world \<Rightarrow> 'r exec_world" where
  "emit e w = w\<lparr>w_log := w_log w @ [e]\<rparr>"

definition put_job :: "job_id \<Rightarrow> job_entry \<Rightarrow> scheduler_state \<Rightarrow> scheduler_state" where
  "put_job j e s = s\<lparr>s_jobs := AList.update j e (s_jobs s)\<rparr>"

definition put_chain :: "chain_id \<Rightarrow> chain_state \<Rightarrow> scheduler_state \<Rightarrow> scheduler_state" where
  "put_chain c ch s = s\<lparr>s_chains := AList.update c ch (s_chains s)\<rparr>"

definition set_leaf_status :: "nat \<Rightarrow> leaf_status \<Rightarrow> chain_state \<Rightarrow> chain_state" where
  "set_leaf_status i st ch = ch\<lparr>ch_leaf_status := AList.update i st (ch_leaf_status ch)\<rparr>"

definition update_leaf :: "chain_id \<Rightarrow> nat \<Rightarrow> leaf_status \<Rightarrow> scheduler_state \<Rightarrow> scheduler_state" where
  "update_leaf c i st s = (case map_of (s_chains s) c of None \<Rightarrow> s | Some ch \<Rightarrow> put_chain c (set_leaf_status i st ch) s)"

section \<open>Scope transforms\<close>

datatype scope_transform = TransformCd string | TransformEnvSet "string list"

definition cd_usage :: string where
  "cd_usage = ''`cd` inside `:run` only accepts a single path (e.g. `cd /some/dir`).'' @ newline_char #
     ''To combine `cd` with other commands, use a chain: `cd /some/dir -> cargo build`.'' @ newline_char #
     ''Or pass cwd via mode param: `:run(cwd=/some/dir) cargo build`.''"

definition env_set_usage :: string where
  "env_set_usage = ''`env set` inside `:run` needs at least one KEY=VALUE pair.'' @ newline_char #
     ''Example: `env set RUST_BACKTRACE=1 -> cargo test`.''"

definition scope_transform_from_command :: "string list \<Rightarrow> (string, scope_transform option) result" where
  "scope_transform_from_command words =
     (case words of
        [] \<Rightarrow> Inr None
      | command # rest \<Rightarrow>
          if command = ''cd'' then
            (case rest of [path] \<Rightarrow> Inr (Some (TransformCd path)) | _ \<Rightarrow> Inl cd_usage)
          else if command = ''env'' \<and> rest \<noteq> [] \<and> hd rest = ''set'' then
            (if tl rest = [] then Inl env_set_usage else Inr (Some (TransformEnvSet (tl rest))))
          else Inr None)"

fun scope_transform_from_segments :: "bool \<Rightarrow> pipe_segment list \<Rightarrow> (string, scope_transform option) result" where
  "scope_transform_from_segments single [] = Inr None"
| "scope_transform_from_segments single (seg # segs) =
     (case scope_transform_from_command (ps_command seg) of
        Inl e \<Rightarrow> Inl e
      | Inr None \<Rightarrow> scope_transform_from_segments single segs
      | Inr (Some t) \<Rightarrow>
          if \<not> single then Inl ''scope-transform steps are not supported inside pipelines yet''
          else (case scope_transform_from_segments single segs of
                  Inl e \<Rightarrow> Inl e | Inr None \<Rightarrow> Inr (Some t) | Inr (Some t') \<Rightarrow> Inr (Some t')))"

definition scope_transform_from_pipeline :: "pipeline \<Rightarrow> (string, scope_transform option) result" where
  "scope_transform_from_pipeline p = scope_transform_from_segments (length (segments p) = 1) (segments p)"

fun scope_transform_from_job_plan :: "job_plan \<Rightarrow> (string, scope_transform option) result" where
  "scope_transform_from_job_plan (PipelinePlan p) = scope_transform_from_pipeline p"
| "scope_transform_from_job_plan (AndPlan l r) =
     and_then (scope_transform_from_job_plan l) (\<lambda>a. and_then (scope_transform_from_job_plan r) (\<lambda>b.
       if a \<noteq> None \<or> b \<noteq> None
       then Inl ''scope-transform steps are not supported inside job-local &&/|| expressions yet'' else Inr None))"
| "scope_transform_from_job_plan (OrPlan l r) =
     and_then (scope_transform_from_job_plan l) (\<lambda>a. and_then (scope_transform_from_job_plan r) (\<lambda>b.
       if a \<noteq> None \<or> b \<noteq> None
       then Inl ''scope-transform steps are not supported inside job-local &&/|| expressions yet'' else Inr None))"

fun subtree_contains_scope_transform :: "chain_node \<Rightarrow> (string, bool) result" where
  "subtree_contains_scope_transform (Leaf plan) = map_sum id (\<lambda>t. t \<noteq> None) (scope_transform_from_job_plan plan)"
| "subtree_contains_scope_transform (Serial l _ r) =
     and_then (subtree_contains_scope_transform l) (\<lambda>a. if a then Inr True else subtree_contains_scope_transform r)"
| "subtree_contains_scope_transform (Parallel l _ r) =
     and_then (subtree_contains_scope_transform l) (\<lambda>a. if a then Inr True else subtree_contains_scope_transform r)"

fun validate_scope_transform_support :: "chain_node \<Rightarrow> (string, unit) result" where
  "validate_scope_transform_support (Leaf plan) = map_sum id (\<lambda>_. ()) (scope_transform_from_job_plan plan)"
| "validate_scope_transform_support (Serial l _ r) =
     and_then (validate_scope_transform_support l) (\<lambda>_. validate_scope_transform_support r)"
| "validate_scope_transform_support (Parallel l _ r) =
     and_then (subtree_contains_scope_transform l) (\<lambda>a.
       if a then Inl ''scope-transform jobs are not supported inside parallel chains yet''
       else and_then (subtree_contains_scope_transform r) (\<lambda>b.
         if b then Inl ''scope-transform jobs are not supported inside parallel chains yet'' else Inr ()))"

fun collect_assignments :: "string list \<Rightarrow> (string, string) btree \<Rightarrow> (string, (string, string) btree) result" where
  "collect_assignments [] acc = Inr acc"
| "collect_assignments (a # as) acc =
     (case split_once (CHR ''='') a of
        None \<Rightarrow> Inl (''`env set` inside `:run` expects KEY=VALUE, got `'' @ a @ ''`'')
      | Some (key, val) \<Rightarrow>
          if key = [] then Inl ''`env set` inside `:run` requires a non-empty variable name''
          else collect_assignments as (bt_insert key val acc))"

definition resolve_cd_target :: "exec_env \<Rightarrow> env_snapshot \<Rightarrow> string \<Rightarrow> (string, string) result" where
  "resolve_cd_target v snapshot path = xv_canonical_dir v (path_join (cwd snapshot) path)"

definition apply_scope_transform :: "exec_env \<Rightarrow> scope_hash \<Rightarrow> string list \<Rightarrow> (string, scope_hash) result" where
  "apply_scope_transform v start command_line =
     and_then (xv_snapshot v start) (\<lambda>snapshot.
     and_then (scope_transform_from_command (expand_command_line command_line (Some snapshot))) (\<lambda>t.
       case t of
         None \<Rightarrow> Inl ''not a scope transform''
       | Some (TransformCd path) \<Rightarrow>
           and_then (resolve_cd_target v snapshot path) (\<lambda>dir.
             xv_derive v start \<lparr>d_set = [], d_unset = [], d_cwd = Some dir\<rparr>)
       | Some (TransformEnvSet assignments) \<Rightarrow>
           and_then (collect_assignments assignments []) (\<lambda>set_vars.
             xv_derive v start \<lparr>d_set = set_vars, d_unset = [], d_cwd = None\<rparr>)))"

definition classify_job_plan_open_hint :: "job_plan \<Rightarrow> job_open_hint" where
  "classify_job_plan_open_hint plan =
     (case plan of
        PipelinePlan p \<Rightarrow>
          (case segments p of
             [seg] \<Rightarrow> if command_prefers_foreground (ps_command seg) then HintFg else HintStream
           | _ \<Rightarrow> HintStream)
      | _ \<Rightarrow> HintStream)"

section \<open>Events\<close>

definition publish_job_created :: "job_id \<Rightarrow> string \<Rightarrow> scope_hash \<Rightarrow> job_open_hint \<Rightarrow> 'r exec_world \<Rightarrow> 'r exec_world" where
  "publish_job_created j pipeline_text start hint w =
     (case map_of (s_jobs (w_state w)) j of
        Some e \<Rightarrow> emit (EffEvent (EvJobCreated j pipeline_text start hint (je_chain_id e) (je_chain_index e) (je_chain_total e))
                         (je_session_id e)) w
      | None \<Rightarrow> emit (EffEvent (EvJobCreated j pipeline_text start hint None None None) None) w)"

definition publish_job_state_changed ::
    "job_id \<Rightarrow> job_status \<Rightarrow> job_status \<Rightarrow> scope_hash option \<Rightarrow> 'r exec_world \<Rightarrow> 'r exec_world" where
  "publish_job_state_changed j old_state new_state end_scope w =
     (case map_of (s_jobs (w_state w)) j of
        Some e \<Rightarrow> emit (EffEvent (EvJobStateChanged j old_state new_state end_scope (je_chain_id e) (je_chain_index e))
                         (je_session_id e)) w
      | None \<Rightarrow> emit (EffEvent (EvJobStateChanged j old_state new_state end_scope None None) None) w)"

fun leaf_status_to_job_status :: "leaf_status \<Rightarrow> job_status" where
  "leaf_status_to_job_status LPending = Pending"
| "leaf_status_to_job_status LRunning = Running"
| "leaf_status_to_job_status (LDone _) = job_status.Done"
| "leaf_status_to_job_status (LFailed _) = Failed"
| "leaf_status_to_job_status LCancelled = Cancelled ChainAborted"

definition chain_job_info_of :: "scheduler_state \<Rightarrow> chain_state \<Rightarrow> flat_leaf \<Rightarrow> chain_job_info" where
  "chain_job_info_of s ch leaf =
     (let job = map_of (ch_leaf_jobs ch) (fl_index leaf); entry = Option.bind job (map_of (s_jobs s))
      in \<lparr>cj_index = fl_index leaf, cj_pipeline = fl_pipeline_text leaf,
          cj_status = (case map_of (ch_leaf_status ch) (fl_index leaf) of
                         Some st \<Rightarrow> leaf_status_to_job_status st | None \<Rightarrow> Pending),
          cj_job_id = map_option show_job_id job,
          cj_start_scope = map_option show_scope_hash (Option.bind entry je_start_scope),
          cj_end_scope = map_option show_scope_hash (Option.bind entry je_end_scope),
          cj_open_hint = map_option je_open_hint entry\<rparr>)"

definition build_chain_info :: "scheduler_state \<Rightarrow> chain_id \<Rightarrow> chain_info option" where
  "build_chain_info s c =
     map_option (\<lambda>ch. let leaves = flatten_leaves (ch_node ch) in
       \<lparr>ci_id = show_chain_id c, ci_pipeline = ch_pipeline_text ch, ci_total_jobs = length leaves,
        ci_jobs = map (chain_job_info_of s ch) leaves\<rparr>) (map_of (s_chains s) c)"

text \<open>The first item made for the chain gets the new job ids and chain description.\<close>

fun sync_items :: "string \<Rightarrow> chain_info \<Rightarrow> script_item_info list \<Rightarrow> script_item_info list" where
  "sync_items c info [] = []"
| "sync_items c info (x # xs) =
     (case it_result x of
        ItemChain c' job_ids info' \<Rightarrow>
          if c' = c then x\<lparr>it_result := ItemChain c' (List.map_filter cj_job_id (ci_jobs info)) info\<rparr> # xs
          else x # sync_items c info xs
      | _ \<Rightarrow> x # sync_items c info xs)"

definition synchronize_pending_script_chain :: "chain_id \<Rightarrow> chain_info \<Rightarrow> scheduler_state \<Rightarrow> scheduler_state" where
  "synchronize_pending_script_chain c info s =
     (case map_of (s_pending_script_chains s) c of
        None \<Rightarrow> s
      | Some r \<Rightarrow>
          (case map_of (s_pending_scripts s) r of
             None \<Rightarrow> s
           | Some p \<Rightarrow>
               s\<lparr>s_pending_scripts := AList.update r
                   (p\<lparr>ps_created_items := sync_items (show_chain_id c) info (ps_created_items p)\<rparr>) (s_pending_scripts s)\<rparr>))"

definition publish_chain_progress :: "chain_id \<Rightarrow> 'r exec_world \<Rightarrow> 'r exec_world" where
  "publish_chain_progress c w =
     (case build_chain_info (w_state w) c of
        None \<Rightarrow> w
      | Some info \<Rightarrow>
          emit (EffEvent (EvChainProgress info) (Option.bind (map_of (s_chains (w_state w)) c) ch_session_id))
            (on_state (synchronize_pending_script_chain c info) w))"

section \<open>Resource admission\<close>

datatype resource_admission = AdmissionGranted scope_hash | AdmissionPending string

definition pending_reason_from_reject :: "reject_group \<Rightarrow> string" where
  "pending_reason_from_reject g =
     (if pid_str (rg_provider g) = ''core'' then rej_reason (rg_reject g) else show_reject_group g)"

definition grants_env :: "reservation list \<Rightarrow> (string, string) btree" where
  "grants_env grants = foldl (\<lambda>m g. foldl (\<lambda>m (k, x). bt_insert k x m) m (res_env g)) [] grants"

definition admit_resource_scope ::
    "'r resource_ops \<Rightarrow> exec_env \<Rightarrow> job_id \<Rightarrow> scope_hash \<Rightarrow> need \<Rightarrow> 'r \<Rightarrow> (string, resource_admission) result \<times> 'r" where
  "admit_resource_scope ops v j base needs r =
     (if need_is_empty needs then (Inr (AdmissionGranted base), r)
      else case ro_reserve ops j needs r of
        (Inl g, r1) \<Rightarrow> (Inr (AdmissionPending (pending_reason_from_reject g)), r1)
      | (Inr grants, r1) \<Rightarrow>
          let set_vars = grants_env grants
          in if set_vars = [] then (Inr (AdmissionGranted base), r1)
             else case xv_derive v base \<lparr>d_set = set_vars, d_unset = [], d_cwd = None\<rparr> of
               Inr scope \<Rightarrow> (Inr (AdmissionGranted scope), r1)
             | Inl e \<Rightarrow> (Inl (''derive resource scope: '' @ e), ro_release ops j r1))"

definition admit :: "'r resource_ops \<Rightarrow> exec_env \<Rightarrow> job_id \<Rightarrow> scope_hash \<Rightarrow> need \<Rightarrow> 'r exec_world \<Rightarrow>
    (string, resource_admission) result \<times> 'r exec_world" where
  "admit ops v j base needs w =
     (case admit_resource_scope ops v j base needs (w_res w) of (a, r) \<Rightarrow> (a, w\<lparr>w_res := r\<rparr>))"

definition record_resource_pending ::
    "job_id \<Rightarrow> string \<Rightarrow> pending_resource_admission \<Rightarrow> scheduler_state \<Rightarrow> scheduler_state" where
  "record_resource_pending j reason p s =
     (let s1 = (case map_of (s_jobs s) j of
                  None \<Rightarrow> s | Some e \<Rightarrow> put_job j (e\<lparr>je_status := Pending, je_pending_reason := Some reason\<rparr>) s)
      in s1\<lparr>s_pending_resource := AList.update j p (s_pending_resource s1),
            s_pending_resource_jobs :=
              (if j \<in> set (s_pending_resource_jobs s1) then s_pending_resource_jobs s1
               else s_pending_resource_jobs s1 @ [j])\<rparr>)"

definition forget_resource_pending :: "job_id \<Rightarrow> scheduler_state \<Rightarrow> scheduler_state" where
  "forget_resource_pending j s =
     s\<lparr>s_pending_resource := AList.delete j (s_pending_resource s),
       s_pending_resource_jobs := removeAll j (s_pending_resource_jobs s)\<rparr>"

section \<open>Processes\<close>

definition spawn_process_job ::
    "exec_env \<Rightarrow> job_id \<Rightarrow> job_plan \<Rightarrow> scope_hash \<Rightarrow> process_job_options \<Rightarrow> 'r exec_world \<Rightarrow> string option \<times> 'r exec_world" where
  "spawn_process_job v j plan scope opts w =
     (case xv_spawn v j of
        Some e \<Rightarrow> (Some e, w)
      | None \<Rightarrow> (None, emit (EffSpawn j plan scope opts) w))"

definition kill_process_job :: "exec_env \<Rightarrow> job_id \<Rightarrow> 'r exec_world \<Rightarrow> string option \<times> 'r exec_world" where
  "kill_process_job v j w = ((case xv_kill v j of Inr _ \<Rightarrow> None | Inl e \<Rightarrow> Some e), emit (EffKill j) w)"

definition cancel_process_job :: "exec_env \<Rightarrow> job_id \<Rightarrow> 'r exec_world \<Rightarrow> string option \<times> 'r exec_world" where
  "cancel_process_job v j w =
     (case kill_process_job v j w of
        (None, w1) \<Rightarrow> (None, w1)
      | (Some e, w1) \<Rightarrow> ((if e = ''job '' @ show_job_id j @ '' not found'' then None else Some e), w1))"

section \<open>The end of a job\<close>

record terminal_update =
  tu_status :: job_status
  tu_exit_code :: i32
  tu_end_scope :: "scope_hash option"
  tu_advance_chain :: bool

record chain_advance =
  ca_chain_id :: chain_id
  ca_newly_ready :: "(nat \<times> scope_hash) list"
  ca_to_cancel :: "nat list"

record terminal_outcome =
  to_chain_advance :: "chain_advance option"
  to_persist_error :: "string option"

definition no_advance :: "string option \<Rightarrow> terminal_outcome" where
  "no_advance e = \<lparr>to_chain_advance = None, to_persist_error = e\<rparr>"

definition job_leaf_status :: "job_status \<Rightarrow> i32 \<Rightarrow> leaf_status" where
  "job_leaf_status st code =
     (case st of
        job_status.Done \<Rightarrow> LDone code | Failed \<Rightarrow> LFailed code | Killed \<Rightarrow> LFailed code
      | Cancelled _ \<Rightarrow> LCancelled | Pending \<Rightarrow> LPending | Running \<Rightarrow> LRunning)"

fun emit_all :: "effect list \<Rightarrow> 'r exec_world \<Rightarrow> 'r exec_world" where
  "emit_all [] w = w"
| "emit_all (e # es) w = emit_all es (emit e w)"

definition notify_job_waiters :: "job_id \<Rightarrow> 'r exec_world \<Rightarrow> 'r exec_world" where
  "notify_job_waiters j w =
     (case map_of (s_job_waiters (w_state w)) j of
        None \<Rightarrow> w
      | Some waiters \<Rightarrow>
          let w1 = on_state (\<lambda>s. s\<lparr>s_job_waiters := AList.delete j (s_job_waiters s)\<rparr>) w
          in case map_of (s_jobs (w_state w1)) j of
               None \<Rightarrow> w1
             | Some e \<Rightarrow> emit_all (map (\<lambda>p. EffJobInfo (pw_client_id p) (pw_request_id p) e) waiters) w1)"

text \<open>The transition of the chain a job belongs to, from the new status of its leaf.\<close>

definition chain_transition_of :: "chain_id \<Rightarrow> nat \<Rightarrow> scope_hash option \<Rightarrow> scheduler_state \<Rightarrow> chain_advance option" where
  "chain_transition_of c i end_scope s =
     (case or_else end_scope (map_option ch_scope_hash (map_of (s_chains s) c)) of
        None \<Rightarrow> None
      | Some next_scope \<Rightarrow>
          map_option (\<lambda>ch.
            let t = advance_chain (ch_node ch) i (map_of (ch_leaf_status ch))
            in \<lparr>ca_chain_id = c, ca_newly_ready = map (\<lambda>k. (k, next_scope)) (newly_ready t), ca_to_cancel = to_cancel t\<rparr>)
            (map_of (s_chains s) c))"

definition end_of_terminal_job :: "exec_env \<Rightarrow> job_id \<Rightarrow> job_entry \<Rightarrow> terminal_update \<Rightarrow> 'r exec_world \<Rightarrow>
    terminal_outcome \<times> 'r exec_world" where
  "end_of_terminal_job v j e u w =
     (case (if je_end_scope e = None then or_else (tu_end_scope u) (je_start_scope e) else None) of
        None \<Rightarrow> (no_advance None, w)
      | Some scope \<Rightarrow>
          let e1 = e\<lparr>je_end_scope := Some scope\<rparr> in (no_advance (xv_persist v e1), on_state (put_job j e1) w))"

definition finish_job :: "'r resource_ops \<Rightarrow> exec_env \<Rightarrow> job_id \<Rightarrow> job_entry \<Rightarrow> terminal_update \<Rightarrow> 'r exec_world \<Rightarrow>
    terminal_outcome \<times> 'r exec_world" where
  "finish_job ops v j e u w =
     (let e1 = e\<lparr>je_status := tu_status u, je_exit_code := Some (tu_exit_code u),
                 je_end_scope := or_else (tu_end_scope u) (je_start_scope e)\<rparr>;
          end_scope = or_else (je_end_scope e1) (je_start_scope e1);
          perr = xv_persist v e1;
          w1 = on_state (put_job j e1) w;
          w2 = (if job_is_terminal (tu_status u)
                then on_state (forget_resource_pending j) (w1\<lparr>w_res := ro_release ops j (w_res w1)\<rparr>) else w1);
          w3 = publish_job_state_changed j (je_status e) (tu_status u) end_scope w2;
          w4 = notify_job_waiters j w3
      in case map_of (s_job_to_chain (w_state w4)) j of
           None \<Rightarrow> (no_advance perr, w4)
         | Some (c, i) \<Rightarrow>
             let w5 = on_state (update_leaf c i (job_leaf_status (tu_status u) (tu_exit_code u))) w4
             in (\<lparr>to_chain_advance = (if tu_advance_chain u then chain_transition_of c i end_scope (w_state w5) else None),
                  to_persist_error = perr\<rparr>, w5))"

definition set_job_terminal_state :: "'r resource_ops \<Rightarrow> exec_env \<Rightarrow> job_id \<Rightarrow> terminal_update \<Rightarrow> 'r exec_world \<Rightarrow>
    terminal_outcome \<times> 'r exec_world" where
  "set_job_terminal_state ops v j u w =
     (case map_of (s_jobs (w_state w)) j of
        None \<Rightarrow> (no_advance None, w)
      | Some e \<Rightarrow>
          if job_is_terminal (je_status e) then end_of_terminal_job v j e u w else finish_job ops v j e u w)"

definition cancel_update :: terminal_update where
  "cancel_update = \<lparr>tu_status = Cancelled ChainAborted, tu_exit_code = EXIT_CODE_UNAVAILABLE,
     tu_end_scope = None, tu_advance_chain = False\<rparr>"

definition failed_update :: "scope_hash \<Rightarrow> terminal_update" where
  "failed_update scope = \<lparr>tu_status = Failed, tu_exit_code = EXIT_CODE_UNAVAILABLE,
     tu_end_scope = Some scope, tu_advance_chain = True\<rparr>"

definition done_update :: "scope_hash \<Rightarrow> terminal_update" where
  "done_update scope = \<lparr>tu_status = job_status.Done, tu_exit_code = 0, tu_end_scope = Some scope, tu_advance_chain = True\<rparr>"

section \<open>Advancing a chain\<close>

fun cancel_chain_leaves :: "'r resource_ops \<Rightarrow> exec_env \<Rightarrow> chain_id \<Rightarrow> nat list \<Rightarrow> 'r exec_world \<Rightarrow>
    string option \<times> 'r exec_world" where
  "cancel_chain_leaves ops v c [] w = (None, w)"
| "cancel_chain_leaves ops v c (i # is) w =
     (case Option.bind (map_of (s_chains (w_state w)) c) (\<lambda>ch. map_of (ch_leaf_jobs ch) i) of
        None \<Rightarrow> cancel_chain_leaves ops v c is (on_state (update_leaf c i LCancelled) w)
      | Some j \<Rightarrow>
          let running = (map_option je_status (map_of (s_jobs (w_state w)) j) = Some Running);
              (err, w1) = (if running then cancel_process_job v j w else (None, w))
          in case err of
               Some _ \<Rightarrow> cancel_chain_leaves ops v c is w1
             | None \<Rightarrow>
                 let (t, w2) = set_job_terminal_state ops v j cancel_update w1;
                     (e, w3) = cancel_chain_leaves ops v c is w2
                 in (or_else (to_persist_error t) e, w3))"

record advance_outcome =
  ao_captured :: "job_id list"
  ao_completed :: "chain_info option"
  ao_spawn_error :: "string option"
  ao_persist_error :: "string option"

definition default_outcome :: advance_outcome where
  "default_outcome = \<lparr>ao_captured = [], ao_completed = None, ao_spawn_error = None, ao_persist_error = None\<rparr>"

definition record_persist_error :: "string option \<Rightarrow> advance_outcome \<Rightarrow> advance_outcome" where
  "record_persist_error e oc = oc\<lparr>ao_persist_error := or_else (ao_persist_error oc) e\<rparr>"

definition record_spawn_error :: "string \<Rightarrow> advance_outcome \<Rightarrow> advance_outcome" where
  "record_spawn_error e oc = oc\<lparr>ao_spawn_error := or_else (ao_spawn_error oc) (Some e)\<rparr>"

type_synonym work_queue = "(nat \<times> scope_hash) list"

definition apply_terminal_chain_advance ::
    "'r resource_ops \<Rightarrow> exec_env \<Rightarrow> chain_id \<Rightarrow> terminal_outcome \<Rightarrow> advance_outcome \<Rightarrow> work_queue \<Rightarrow> 'r exec_world \<Rightarrow>
     advance_outcome \<times> work_queue \<times> 'r exec_world" where
  "apply_terminal_chain_advance ops v c t oc wq w =
     (let oc1 = record_persist_error (to_persist_error t) oc
      in case to_chain_advance t of
           None \<Rightarrow> (oc1, wq, w)
         | Some a \<Rightarrow>
             (case cancel_chain_leaves ops v c (ca_to_cancel a) w of
                (e, w1) \<Rightarrow> (record_persist_error e oc1, wq @ ca_newly_ready a, w1)))"

text \<open>What a chain hands to the jobs of its leaves, read once per advance.\<close>

record chain_context =
  cx_leaves :: "flat_leaf list"
  cx_process :: process_job_context
  cx_scope_enabled :: bool
  cx_session_id :: "string option"

definition leaf_entry :: "chain_context \<Rightarrow> chain_id \<Rightarrow> job_id \<Rightarrow> nat \<Rightarrow> flat_leaf \<Rightarrow> scope_hash \<Rightarrow> job_entry" where
  "leaf_entry cx c j i leaf start =
     \<lparr>je_job_id = j, je_session_id = cx_session_id cx, je_pipeline_text = fl_pipeline_text leaf,
      je_status = Running, je_exit_code = None, je_start_scope = Some start, je_end_scope = None,
      je_open_hint = classify_job_plan_open_hint (fl_plan leaf), je_chain_id = Some c,
      je_chain_index = Some i, je_chain_total = Some (length (cx_leaves cx)), je_pending_reason = None\<rparr>"

text \<open>Entering a leaf: its job is recorded as running and announced.\<close>

definition enter_leaf :: "chain_context \<Rightarrow> chain_id \<Rightarrow> chain_state \<Rightarrow> job_id \<Rightarrow> nat \<Rightarrow> flat_leaf \<Rightarrow> scope_hash \<Rightarrow>
    'r exec_world \<Rightarrow> 'r exec_world" where
  "enter_leaf cx c ch j i leaf start w =
     publish_job_created j (fl_pipeline_text leaf) start (classify_job_plan_open_hint (fl_plan leaf))
       (on_state (\<lambda>s.
          put_job j (leaf_entry cx c j i leaf start)
            ((put_chain c (set_leaf_status i LRunning (ch\<lparr>ch_leaf_jobs := AList.update i j (ch_leaf_jobs ch)\<rparr>)) s)
               \<lparr>s_job_to_chain := AList.update j (c, i) (s_job_to_chain s)\<rparr>)) w)"

definition end_leaf :: "'r resource_ops \<Rightarrow> exec_env \<Rightarrow> chain_id \<Rightarrow> job_id \<Rightarrow> terminal_update \<Rightarrow> advance_outcome \<Rightarrow>
    work_queue \<Rightarrow> 'r exec_world \<Rightarrow> advance_outcome \<times> work_queue \<times> 'r exec_world" where
  "end_leaf ops v c j u oc wq w =
     (case set_job_terminal_state ops v j u w of (t, w1) \<Rightarrow> apply_terminal_chain_advance ops v c t oc wq w1)"

definition start_process_leaf :: "'r resource_ops \<Rightarrow> exec_env \<Rightarrow> chain_context \<Rightarrow> chain_id \<Rightarrow> job_id \<Rightarrow> nat \<Rightarrow> flat_leaf \<Rightarrow>
    scope_hash \<Rightarrow> advance_outcome \<Rightarrow> work_queue \<Rightarrow> 'r exec_world \<Rightarrow> advance_outcome \<times> work_queue \<times> 'r exec_world" where
  "start_process_leaf ops v cx c j i leaf start oc wq w =
     (let opts = process_job_options_of (cx_process cx) (cx_session_id cx);
          needs = lo_needs (pc_launch (cx_process cx))
      in case admit ops v j start needs w of
           (Inr (AdmissionPending reason), w1) \<Rightarrow>
             (oc, wq,
              on_state (record_resource_pending j reason
                  \<lparr>pr_plan = fl_plan leaf, pr_base_scope = start, pr_options = opts, pr_needs = needs\<rparr>)
                (on_state (update_leaf c i LPending) w1))
         | (Inr (AdmissionGranted scope), w1) \<Rightarrow>
             let w2 = on_state (\<lambda>s. case map_of (s_jobs s) j of
                        None \<Rightarrow> s | Some e \<Rightarrow> put_job j (e\<lparr>je_start_scope := Some scope\<rparr>) s) w1
             in (case spawn_process_job v j (fl_plan leaf) scope opts w2 of
                   (None, w3) \<Rightarrow> (oc, wq, w3)
                 | (Some e, w3) \<Rightarrow> end_leaf ops v c j (failed_update scope) (record_spawn_error e oc) wq w3)
         | (Inl e, w1) \<Rightarrow>
             end_leaf ops v c j (failed_update start) oc wq
               (on_state (\<lambda>s. case map_of (s_jobs s) j of
                  None \<Rightarrow> s | Some x \<Rightarrow> put_job j (x\<lparr>je_pending_reason := Some e\<rparr>) s) w1))"

definition start_leaf :: "'r resource_ops \<Rightarrow> exec_env \<Rightarrow> chain_context \<Rightarrow> chain_id \<Rightarrow> job_id \<Rightarrow> nat \<Rightarrow> flat_leaf \<Rightarrow>
    scope_hash \<Rightarrow> advance_outcome \<Rightarrow> work_queue \<Rightarrow> 'r exec_world \<Rightarrow> advance_outcome \<times> work_queue \<times> 'r exec_world" where
  "start_leaf ops v cx c j i leaf start oc wq w =
     (case (if cx_scope_enabled cx then scope_transform_from_command (flat_leaf_command leaf) else Inr None) of
        Inr (Some _) \<Rightarrow>
          (case apply_scope_transform v start (flat_leaf_command leaf) of
             Inr end_scope \<Rightarrow> end_leaf ops v c j (done_update end_scope) oc wq w
           | Inl _ \<Rightarrow> end_leaf ops v c j (failed_update start) oc wq w)
      | Inr None \<Rightarrow> start_process_leaf ops v cx c j i leaf start oc wq w
      | Inl _ \<Rightarrow> end_leaf ops v c j (failed_update start) oc wq w)"

text \<open>
  The work queue.  The job id is allocated before the chain is looked up, as in the code; a chain that
  is gone ends the loop.
\<close>

fun advance_loop :: "nat \<Rightarrow> 'r resource_ops \<Rightarrow> exec_env \<Rightarrow> chain_context \<Rightarrow> chain_id \<Rightarrow> nat \<Rightarrow> advance_outcome \<Rightarrow>
    work_queue \<Rightarrow> 'r exec_world \<Rightarrow> (advance_outcome \<times> 'r exec_world) option" where
  "advance_loop fuel ops v cx c capture oc [] w = Some (oc, w)"
| "advance_loop 0 ops v cx c capture oc (x # wq) w = None"
| "advance_loop (Suc fuel) ops v cx c capture oc ((i, start) # wq) w =
     (case alloc_job (w_state w) of (j, s1) \<Rightarrow>
        let w1 = w\<lparr>w_state := s1\<rparr>
        in case nth_opt (cx_leaves cx) i of
             None \<Rightarrow> None
           | Some leaf \<Rightarrow>
               let oc1 = (if length (ao_captured oc) < capture then oc\<lparr>ao_captured := ao_captured oc @ [j]\<rparr> else oc)
               in case map_of (s_chains (w_state w1)) c of
                    None \<Rightarrow> Some (oc1, w1)
                  | Some ch \<Rightarrow>
                      (case start_leaf ops v cx c j i leaf start oc1 wq (enter_leaf cx c ch j i leaf start w1) of
                         (oc2, wq2, w2) \<Rightarrow> advance_loop fuel ops v cx c capture oc2 wq2 w2))"

definition chain_final_scope :: "chain_state \<Rightarrow> scheduler_state \<Rightarrow> scope_hash option" where
  "chain_final_scope ch s =
     (case List.map_filter (\<lambda>i. Option.bind (map_of (ch_leaf_jobs ch) i) (\<lambda>j.
             Option.bind (map_of (s_jobs s) j) (\<lambda>e. or_else (je_end_scope e) (je_start_scope e))))
             (rev [0..<leaf_count (ch_node ch)]) of
        [] \<Rightarrow> None | h # _ \<Rightarrow> Some h)"

definition complete_chain :: "chain_id \<Rightarrow> bool \<Rightarrow> advance_outcome \<Rightarrow> 'r exec_world \<Rightarrow> advance_outcome \<times> 'r exec_world" where
  "complete_chain c retain oc w =
     (case map_of (s_chains (w_state w)) c of
        None \<Rightarrow> (oc, w)
      | Some ch \<Rightarrow>
          if \<not> is_chain_terminal (ch_node ch) (map_of (ch_leaf_status ch)) then (oc, w)
          else
            (oc\<lparr>ao_completed := build_chain_info (w_state w) c\<rparr>,
             on_state (\<lambda>s.
               let s1 = (if retain \<or> map_of (s_pending_script_chains s) c \<noteq> None
                         then s\<lparr>s_completed_chains := AList.update c
                                  \<lparr>cc_exit_code = aggregate_chain_exit_code (ch_node ch) (map_of (ch_leaf_status ch)),
                                   cc_end_scope = chain_final_scope ch s\<rparr> (s_completed_chains s)\<rparr>
                         else s)
               in s1\<lparr>s_chains := AList.delete c (s_chains s1),
                     s_job_to_chain := filter (\<lambda>(j, _). j \<notin> snd ` set (ch_leaf_jobs ch)) (s_job_to_chain s1)\<rparr>) w))"

definition process_chain_advance :: "'r resource_ops \<Rightarrow> exec_env \<Rightarrow> chain_id \<Rightarrow> work_queue \<Rightarrow> nat list \<Rightarrow> nat \<Rightarrow> bool \<Rightarrow>
    'r exec_world \<Rightarrow> (advance_outcome \<times> 'r exec_world) option" where
  "process_chain_advance ops v c ready cancel capture retain w =
     (case cancel_chain_leaves ops v c cancel w of (e, w1) \<Rightarrow>
        let oc = record_persist_error e default_outcome
        in case map_of (s_chains (w_state w1)) c of
             None \<Rightarrow> Some (oc, w1)
           | Some ch \<Rightarrow>
               let cx = \<lparr>cx_leaves = flatten_leaves (ch_node ch), cx_process = ch_process ch,
                         cx_scope_enabled = ch_scope_enabled ch, cx_session_id = ch_session_id ch\<rparr>
               in map_option (\<lambda>(oc1, w2). complete_chain c retain oc1 (publish_chain_progress c w2))
                    (advance_loop (Suc (leaf_count (ch_node ch))) ops v cx c capture oc ready w1))"

section \<open>Spawning\<close>

datatype exec_ok =
    OkAck
  | OkJobCreated job_id scope_hash job_open_hint "string list"
  | OkChainCreated chain_id "job_id list" chain_info "string list"

record spawn_request =
  sp_chain :: chain_node
  sp_scope_hash :: scope_hash
  sp_process :: process_job_context
  sp_scope_enabled :: bool
  sp_warnings :: "string list"
  sp_retain_completed_chain :: bool
  sp_session_id :: "string option"

definition single_entry :: "spawn_request \<Rightarrow> job_id \<Rightarrow> flat_leaf \<Rightarrow> job_status \<Rightarrow> scope_hash \<Rightarrow> string option \<Rightarrow> job_entry" where
  "single_entry q j leaf status start reason =
     \<lparr>je_job_id = j, je_session_id = sp_session_id q, je_pipeline_text = fl_pipeline_text leaf, je_status = status,
      je_exit_code = None, je_start_scope = Some start, je_end_scope = None,
      je_open_hint = classify_job_plan_open_hint (fl_plan leaf), je_chain_id = None, je_chain_index = None,
      je_chain_total = None, je_pending_reason = reason\<rparr>"

definition enter_single :: "spawn_request \<Rightarrow> job_id \<Rightarrow> flat_leaf \<Rightarrow> scope_hash \<Rightarrow> string option \<Rightarrow> 'r exec_world \<Rightarrow> 'r exec_world" where
  "enter_single q j leaf start reason w =
     publish_job_created j (fl_pipeline_text leaf) start (classify_job_plan_open_hint (fl_plan leaf))
       (on_state (put_job j (single_entry q j leaf Running start reason)) w)"

definition error_with_persist :: "string \<Rightarrow> string \<Rightarrow> string option \<Rightarrow> exec_ok response_payload" where
  "error_with_persist code msg perr =
     (case perr of Some e \<Rightarrow> RespErr ''INTERNAL'' (msg @ ''; '' @ e) | None \<Rightarrow> RespErr code msg)"

definition spawn_single_transform :: "'r resource_ops \<Rightarrow> exec_env \<Rightarrow> spawn_request \<Rightarrow> job_id \<Rightarrow> flat_leaf \<Rightarrow> 'r exec_world \<Rightarrow>
    exec_ok response_payload \<times> 'r exec_world" where
  "spawn_single_transform ops v q j leaf w =
     (let scope = sp_scope_hash q;
          w1 = enter_single q j leaf scope None w;
          u = (case apply_scope_transform v scope (flat_leaf_command leaf) of
                 Inr end_scope \<Rightarrow> done_update end_scope | Inl _ \<Rightarrow> failed_update scope);
          (t, w2) = set_job_terminal_state ops v j u w1
      in (case to_persist_error t of
            Some e \<Rightarrow> RespErr ''INTERNAL'' e
          | None \<Rightarrow> RespOther (OkJobCreated j scope (classify_job_plan_open_hint (fl_plan leaf)) (sp_warnings q)), w2))"

definition spawn_single_process :: "'r resource_ops \<Rightarrow> exec_env \<Rightarrow> spawn_request \<Rightarrow> job_id \<Rightarrow> flat_leaf \<Rightarrow> 'r exec_world \<Rightarrow>
    exec_ok response_payload \<times> 'r exec_world" where
  "spawn_single_process ops v q j leaf w =
     (let scope = sp_scope_hash q; needs = lo_needs (pc_launch (sp_process q));
          opts = process_job_options_of (sp_process q) (sp_session_id q);
          hint = classify_job_plan_open_hint (fl_plan leaf)
      in case admit ops v j scope needs w of
           (Inr (AdmissionPending reason), w1) \<Rightarrow>
             (RespOther (OkJobCreated j scope hint (sp_warnings q)),
              publish_job_created j (fl_pipeline_text leaf) scope hint
                (on_state (record_resource_pending j reason
                   \<lparr>pr_plan = fl_plan leaf, pr_base_scope = scope, pr_options = opts, pr_needs = needs\<rparr>)
                   (on_state (put_job j (single_entry q j leaf Pending scope (Some reason))) w1)))
         | (Inr (AdmissionGranted spawn_scope), w1) \<Rightarrow>
             (case spawn_process_job v j (fl_plan leaf) spawn_scope opts (enter_single q j leaf spawn_scope None w1) of
                (None, w2) \<Rightarrow> (RespOther (OkJobCreated j spawn_scope hint (sp_warnings q)), w2)
              | (Some msg, w2) \<Rightarrow>
                  (case set_job_terminal_state ops v j (failed_update spawn_scope) w2 of
                     (t, w3) \<Rightarrow> (error_with_persist ''INTERNAL'' msg (to_persist_error t), w3)))
         | (Inl msg, w1) \<Rightarrow>
             (case set_job_terminal_state ops v j (failed_update scope) (enter_single q j leaf scope (Some msg) w1) of
                (t, w2) \<Rightarrow> (error_with_persist ''INTERNAL'' msg (to_persist_error t), w2)))"

definition spawn_single :: "'r resource_ops \<Rightarrow> exec_env \<Rightarrow> spawn_request \<Rightarrow> flat_leaf \<Rightarrow> 'r exec_world \<Rightarrow>
    exec_ok response_payload \<times> 'r exec_world" where
  "spawn_single ops v q leaf w =
     (case alloc_job (w_state w) of (j, s1) \<Rightarrow>
        let w1 = w\<lparr>w_state := s1\<rparr>
        in case (if sp_scope_enabled q then scope_transform_from_command (flat_leaf_command leaf) else Inr None) of
             Inl msg \<Rightarrow>
               (case set_job_terminal_state ops v j (failed_update (sp_scope_hash q))
                       (enter_single q j leaf (sp_scope_hash q) None w1) of
                  (t, w2) \<Rightarrow>
                    ((case to_persist_error t of Some e \<Rightarrow> RespErr ''INTERNAL'' e | None \<Rightarrow> RespErr ''INVALID_SYNTAX'' msg), w2))
           | Inr (Some _) \<Rightarrow> spawn_single_transform ops v q j leaf w1
           | Inr None \<Rightarrow> spawn_single_process ops v q j leaf w1)"

definition new_chain :: "spawn_request \<Rightarrow> chain_state" where
  "new_chain q =
     \<lparr>ch_node = sp_chain q, ch_leaf_jobs = [],
      ch_leaf_status = map (\<lambda>l. (fl_index l, LPending)) (flatten_leaves (sp_chain q)),
      ch_scope_hash = sp_scope_hash q, ch_pipeline_text = show_chain_node (sp_chain q), ch_process = sp_process q,
      ch_scope_enabled = sp_scope_enabled q, ch_session_id = sp_session_id q\<rparr>"

definition chain_response :: "chain_id \<Rightarrow> spawn_request \<Rightarrow> advance_outcome \<Rightarrow> scheduler_state \<Rightarrow> exec_ok response_payload" where
  "chain_response c q oc s =
     (case ao_spawn_error oc of
        Some e \<Rightarrow> RespErr ''INTERNAL'' (case ao_persist_error oc of Some p \<Rightarrow> e @ ''; '' @ p | None \<Rightarrow> e)
      | None \<Rightarrow>
          (case ao_persist_error oc of
             Some e \<Rightarrow> RespErr ''INTERNAL'' e
           | None \<Rightarrow>
               (case or_else (build_chain_info s c) (ao_completed oc) of
                  None \<Rightarrow> RespErr ''INTERNAL'' (show_chain_id c @ '': chain state unavailable after creation'')
                | Some info \<Rightarrow> RespOther (OkChainCreated c (ao_captured oc) info (sp_warnings q)))))"

definition spawn_chain :: "'r resource_ops \<Rightarrow> exec_env \<Rightarrow> spawn_request \<Rightarrow> 'r exec_world \<Rightarrow>
    (exec_ok response_payload \<times> 'r exec_world) option" where
  "spawn_chain ops v q w =
     (case (if sp_scope_enabled q then validate_scope_transform_support (sp_chain q) else Inr ()) of
        Inl msg \<Rightarrow> Some (RespErr ''INVALID_SYNTAX'' msg, w)
      | Inr _ \<Rightarrow>
          let leaves = flatten_leaves (sp_chain q)
          in if length leaves = 1 then Some (spawn_single ops v q (hd leaves) w)
             else
               (case alloc_chain (w_state w) of (c, s1) \<Rightarrow>
                  let ready = initially_ready (sp_chain q);
                      w1 = w\<lparr>w_state := put_chain c (new_chain q) s1\<rparr>
                  in map_option (\<lambda>(oc, w2). (chain_response c q oc (w_state w2), w2))
                       (process_chain_advance ops v c (map (\<lambda>i. (i, sp_scope_hash q)) ready) [] (length ready)
                          (sp_retain_completed_chain q) w1)))"

section \<open>Retrying resource admission\<close>

definition retry_one :: "'r resource_ops \<Rightarrow> exec_env \<Rightarrow> job_id \<Rightarrow> 'r exec_world \<Rightarrow> 'r exec_world" where
  "retry_one ops v j w =
     (case map_of (s_pending_resource (w_state w)) j of
        None \<Rightarrow> w
      | Some p \<Rightarrow>
          if map_option je_status (map_of (s_jobs (w_state w)) j) \<noteq> Some Pending
          then on_state (\<lambda>s. s\<lparr>s_pending_resource := AList.delete j (s_pending_resource s)\<rparr>) w
          else case admit ops v j (pr_base_scope p) (pr_needs p) w of
            (Inr (AdmissionPending reason), w1) \<Rightarrow>
              on_state (\<lambda>s. (case map_of (s_jobs s) j of
                 None \<Rightarrow> s | Some e \<Rightarrow> put_job j (e\<lparr>je_pending_reason := Some reason\<rparr>) s)
                   \<lparr>s_pending_resource_jobs := s_pending_resource_jobs s @ [j]\<rparr>) w1
          | (Inr (AdmissionGranted scope), w1) \<Rightarrow>
              let w2 = on_state (\<lambda>s. s\<lparr>s_pending_resource := AList.delete j (s_pending_resource s)\<rparr>) w1
              in (case map_of (s_jobs (w_state w2)) j of
                    None \<Rightarrow> w2
                  | Some e \<Rightarrow>
                      let w3 = on_state (put_job j (e\<lparr>je_status := Running, je_pending_reason := None, je_start_scope := Some scope\<rparr>)) w2;
                          w4 = on_state (\<lambda>s. case map_of (s_job_to_chain s) j of
                                 None \<Rightarrow> s | Some (c, i) \<Rightarrow> update_leaf c i LRunning s) w3;
                          w5 = publish_job_state_changed j (je_status e) Running None w4;
                          w6 = (case je_chain_id e of None \<Rightarrow> w5 | Some c \<Rightarrow> publish_chain_progress c w5)
                      in case spawn_process_job v j (pr_plan p) scope (pr_options p) w6 of
                           (None, w7) \<Rightarrow> w7
                         | (Some _, w7) \<Rightarrow> snd (set_job_terminal_state ops v j (failed_update scope) w7))
          | (Inl e, w1) \<Rightarrow>
              snd (set_job_terminal_state ops v j (failed_update (pr_base_scope p))
                (on_state (\<lambda>s. (case map_of (s_jobs s) j of
                   None \<Rightarrow> s | Some x \<Rightarrow> put_job j (x\<lparr>je_pending_reason := Some e\<rparr>) s)
                     \<lparr>s_pending_resource := AList.delete j (s_pending_resource s)\<rparr>) w1)))"

fun retry_loop :: "nat \<Rightarrow> 'r resource_ops \<Rightarrow> exec_env \<Rightarrow> 'r exec_world \<Rightarrow> 'r exec_world" where
  "retry_loop 0 ops v w = w"
| "retry_loop (Suc n) ops v w =
     (case s_pending_resource_jobs (w_state w) of
        [] \<Rightarrow> w
      | j # js \<Rightarrow> retry_loop n ops v (retry_one ops v j (on_state (\<lambda>s. s\<lparr>s_pending_resource_jobs := js\<rparr>) w)))"

definition retry_pending_resource_admissions :: "'r resource_ops \<Rightarrow> exec_env \<Rightarrow> 'r exec_world \<Rightarrow> 'r exec_world" where
  "retry_pending_resource_admissions ops v w = retry_loop (length (s_pending_resource_jobs (w_state w))) ops v w"

section \<open>Handlers\<close>

definition end_and_advance :: "'r resource_ops \<Rightarrow> exec_env \<Rightarrow> job_id \<Rightarrow> terminal_update \<Rightarrow> 'r exec_world \<Rightarrow>
    (string option \<times> 'r exec_world) option" where
  "end_and_advance ops v j u w =
     (case set_job_terminal_state ops v j u w of
        (t, w1) \<Rightarrow>
          (case to_chain_advance t of
             None \<Rightarrow> Some (to_persist_error t, w1)
           | Some a \<Rightarrow>
               map_option (\<lambda>(oc, w2). (or_else (to_persist_error t) (ao_persist_error oc), w2))
                 (process_chain_advance ops v (ca_chain_id a) (ca_newly_ready a) (ca_to_cancel a) 0 False w1)))"

definition handle_job_finished :: "'r resource_ops \<Rightarrow> exec_env \<Rightarrow> job_id \<Rightarrow> i32 \<Rightarrow> 'r exec_world \<Rightarrow> 'r exec_world option" where
  "handle_job_finished ops v j code w =
     map_option (\<lambda>(_, w1). retry_pending_resource_admissions ops v w1)
       (end_and_advance ops v j
          \<lparr>tu_status = (if code = 0 then job_status.Done else Failed), tu_exit_code = code, tu_end_scope = None,
           tu_advance_chain = True\<rparr> w)"

text \<open>Up to the scripts waiting for the job, which then issue commands of their own.\<close>

definition apply_user_terminal_job_update :: "'r resource_ops \<Rightarrow> exec_env \<Rightarrow> job_id \<Rightarrow> terminal_update \<Rightarrow> 'r exec_world \<Rightarrow>
    (string option \<times> 'r exec_world) option" where
  "apply_user_terminal_job_update ops v j u w =
     map_option (\<lambda>(e, w1). (e, retry_pending_resource_admissions ops v w1)) (end_and_advance ops v j u w)"

definition user_cancel_update :: terminal_update where
  "user_cancel_update = \<lparr>tu_status = Cancelled UserCancel, tu_exit_code = EXIT_CODE_UNAVAILABLE,
     tu_end_scope = None, tu_advance_chain = True\<rparr>"

definition cancel_job_execution :: "'r resource_ops \<Rightarrow> exec_env \<Rightarrow> job_id \<Rightarrow> 'r exec_world \<Rightarrow>
    ((string, unit) result \<times> 'r exec_world) option" where
  "cancel_job_execution ops v j w =
     (case map_of (s_jobs (w_state w)) j of
        None \<Rightarrow>
          Some ((case j of JobId n \<Rightarrow> if n < s_next_job (w_state w) then Inr ()
                   else Inl (''job '' @ show_job_id j @ '' not found'')), w)
      | Some e \<Rightarrow>
          if job_is_terminal (je_status e) then Some (Inr (), w)
          else (case (if je_status e = Running then cancel_process_job v j w else (None, w)) of
                  (Some err, w1) \<Rightarrow> Some (Inl err, w1)
                | (None, w1) \<Rightarrow>
                    map_option (\<lambda>(perr, w2). (case perr of Some x \<Rightarrow> Inl x | None \<Rightarrow> Inr (), w2))
                      (apply_user_terminal_job_update ops v j user_cancel_update w1)))"

definition cancel_chain_execution :: "'r resource_ops \<Rightarrow> exec_env \<Rightarrow> chain_id \<Rightarrow> 'r exec_world \<Rightarrow>
    ((string, unit) result \<times> 'r exec_world) option" where
  "cancel_chain_execution ops v c w =
     (case map_of (s_chains (w_state w)) c of
        None \<Rightarrow>
          Some ((case c of ChainId n \<Rightarrow> if n < s_next_chain (w_state w) then Inr ()
                   else Inl (''chain '' @ show_chain_id c @ '' not found'')), w)
      | Some ch \<Rightarrow>
          map_option (\<lambda>(oc, w1).
            (case or_else (ao_spawn_error oc) (ao_persist_error oc) of Some e \<Rightarrow> Inl e | None \<Rightarrow> Inr (), w1))
            (process_chain_advance ops v c [] (map fl_index (flatten_leaves (ch_node ch))) 0 False w))"

datatype wait_answer = WaitNow "job_entry response_payload" | WaitLater

definition handle_wait_command :: "string \<Rightarrow> u64 \<Rightarrow> u32 \<Rightarrow> scheduler_state \<Rightarrow> wait_answer \<times> scheduler_state" where
  "handle_wait_command i c rid s =
     (case sched_parse_job_id i of
        Some j \<Rightarrow>
          (case authorize_session_owned_target s (named_session_id_for_client s c) (TargetJob j) of
             Inl t \<Rightarrow> (WaitNow (access_denied_response t), s)
           | Inr _ \<Rightarrow>
               (case map_of (s_jobs s) j of
                  None \<Rightarrow> (WaitNow (RespErr ''NOT_FOUND'' (''job '' @ i @ '' not found'')), s)
                | Some e \<Rightarrow>
                    if job_is_terminal (je_status e) then (WaitNow (RespOther e), s)
                    else
                      let waiters = (case map_of (s_job_waiters s) j of Some ws \<Rightarrow> ws | None \<Rightarrow> [])
                      in (WaitLater, s\<lparr>s_job_waiters :=
                            AList.update j (waiters @ [\<lparr>pw_client_id = c, pw_request_id = rid\<rparr>]) (s_job_waiters s)\<rparr>)))
      | None \<Rightarrow>
          (WaitNow (if starts_with i ''S'' then RespErr ''NOT_SUPPORTED'' ''`:wait` currently supports job IDs only''
                    else RespErr ''NOT_FOUND'' (i @ '' not found'')), s))"

section \<open>Commands on jobs\<close>

definition ack_or_internal :: "string option \<Rightarrow> exec_ok response_payload" where
  "ack_or_internal e = (case e of Some x \<Rightarrow> RespErr ''INTERNAL'' x | None \<Rightarrow> RespOther OkAck)"

definition kill_update :: terminal_update where
  "kill_update = \<lparr>tu_status = Killed, tu_exit_code = EXIT_CODE_UNAVAILABLE, tu_end_scope = None, tu_advance_chain = True\<rparr>"

definition handle_kill_job :: "'r resource_ops \<Rightarrow> exec_env \<Rightarrow> string \<Rightarrow> 'r exec_world \<Rightarrow>
    (exec_ok response_payload \<times> 'r exec_world) option" where
  "handle_kill_job ops v i w =
     (case sched_parse_job_id i of
        None \<Rightarrow> Some (RespErr ''NOT_SUPPORTED'' ''KillJob only supports job IDs (J<n>)'', w)
      | Some j \<Rightarrow>
          (case map_of (s_jobs (w_state w)) j of
             None \<Rightarrow> Some (RespErr ''NOT_FOUND'' (''job '' @ i @ '' not found''), w)
           | Some e \<Rightarrow>
               if je_status e \<noteq> Running then Some (RespErr ''INVALID_STATE'' (''job '' @ show_job_id j @ '' is not running''), w)
               else (case kill_process_job v j w of
                       (Some err, w1) \<Rightarrow> Some (RespErr ''INTERNAL'' err, w1)
                     | (None, w1) \<Rightarrow>
                         map_option (\<lambda>(perr, w2). (ack_or_internal perr, w2))
                           (apply_user_terminal_job_update ops v j kill_update w1))))"

definition handle_cancel_job :: "'r resource_ops \<Rightarrow> exec_env \<Rightarrow> string \<Rightarrow> 'r exec_world \<Rightarrow>
    (exec_ok response_payload \<times> 'r exec_world) option" where
  "handle_cancel_job ops v i w =
     (case sched_parse_job_id i of
        None \<Rightarrow> Some (RespErr ''NOT_FOUND'' (i @ '' not found''), w)
      | Some j \<Rightarrow>
          (case map_of (s_jobs (w_state w)) j of
             None \<Rightarrow> Some (RespErr ''NOT_FOUND'' (''job '' @ i @ '' not found''), w)
           | Some e \<Rightarrow>
               if job_is_terminal (je_status e)
               then Some (RespErr ''INVALID_STATE'' (''job '' @ show_job_id j @ '' is already terminal''), w)
               else (case (if je_status e = Running then kill_process_job v j w else (None, w)) of
                       (Some err, w1) \<Rightarrow> Some (RespErr ''INTERNAL'' err, w1)
                     | (None, w1) \<Rightarrow>
                         map_option (\<lambda>(perr, w2). (ack_or_internal perr, w2))
                           (apply_user_terminal_job_update ops v j user_cancel_update w1))))"

definition retry_default :: "bool \<Rightarrow> process_job_context" where
  "retry_default wrapper =
     \<lparr>pc_cwd_override = None, pc_launch = default_launch_options, pc_wrapper_enabled = wrapper,
      pc_pty_default = True, pc_direct_output_client = None\<rparr>"

text \<open>\<open>wrapper\<close> is the wrapper setting of the configuration; a panic of the parser is \<open>None\<close>.\<close>

definition handle_retry :: "'r resource_ops \<Rightarrow> exec_env \<Rightarrow> bool \<Rightarrow> string \<Rightarrow> 'r exec_world \<Rightarrow>
    (exec_ok response_payload \<times> 'r exec_world) option" where
  "handle_retry ops v wrapper i w =
     (case sched_parse_job_id i of
        None \<Rightarrow> Some (RespErr ''NOT_FOUND'' (''invalid job id: '' @ i), w)
      | Some j \<Rightarrow>
          (case map_of (s_jobs (w_state w)) j of
             None \<Rightarrow> Some (RespErr ''NOT_FOUND'' (''job '' @ i @ '' not found''), w)
           | Some e \<Rightarrow>
               if \<not> job_is_terminal (je_status e)
               then Some (RespErr ''INVALID_STATE'' (''job '' @ show_job_id j @ '' is not terminal''), w)
               else (case je_start_scope e of
                  None \<Rightarrow> Some (RespErr ''INVALID_SCOPE'' (''job '' @ show_job_id j @ '' has no recorded start scope''), w)
                | Some start \<Rightarrow>
                    (case parse_chain_text (je_pipeline_text e) of
                       Inl ChainTextPanic \<Rightarrow> None
                     | Inl (ChainTextMessage m) \<Rightarrow> Some (RespErr ''INTERNAL'' (''cannot reconstruct job pipeline: '' @ m), w)
                     | Inl (ChainTextUnexpected c) \<Rightarrow>
                         Some (RespErr ''INTERNAL'' (''cannot reconstruct job pipeline: unexpected restore command: '' @ xv_debug v c), w)
                     | Inr chain \<Rightarrow>
                         spawn_chain ops v
                           \<lparr>sp_chain = chain, sp_scope_hash = start, sp_process = retry_default wrapper, sp_scope_enabled = False,
                            sp_warnings = [], sp_retain_completed_chain = False, sp_session_id = je_session_id e\<rparr> w))))"

end
