(* ===== verification/ChainQueue.thy ===== *)
theory ChainQueue
  imports ChainExec
begin

text \<open>
  A chain while the scheduler works on it.  \<open>D\<close> is the set of leaves that have a job, the queue holds
  leaves that are ready and have none yet.  A leaf with a job may be waiting for resources and then
  counts as pending; a leaf to be cancelled may survive when its process cannot be killed.  The lemmas
  follow the three changes the scheduler makes: a leaf gets its job, a leaf waits or resumes, a leaf
  ends and the transition of the chain is applied.
\<close>

section \<open>Invariants\<close>

text \<open>Once one side of a race has succeeded, every leaf of the other side has ended or has a job.\<close>

fun race_ok :: "chain_node \<Rightarrow> nat \<Rightarrow> statuses \<Rightarrow> nat set \<Rightarrow> bool" where
  "race_ok (Leaf _) off st D \<longleftrightarrow> True"
| "race_ok (Serial l _ r) off st D \<longleftrightarrow> race_ok l off st D \<and> race_ok r (off + leaf_count l) st D"
| "race_ok (Parallel l op r) off st D \<longleftrightarrow> race_ok l off st D \<and> race_ok r (off + leaf_count l) st D
     \<and> (op = RaceOp \<longrightarrow>
          (all_leaves_succeeded l off st \<longrightarrow> (\<forall>i\<in>leaf_range r (off + leaf_count l). terminal_at st i \<or> i \<in> D))
          \<and> (all_leaves_succeeded r (off + leaf_count l) st \<longrightarrow> (\<forall>i\<in>leaf_range l off. terminal_at st i \<or> i \<in> D)))"

fun serial_only :: "chain_node \<Rightarrow> nat \<Rightarrow> nat \<Rightarrow> bool" where
  "serial_only (Leaf _) off i \<longleftrightarrow> True"
| "serial_only (Serial l _ r) off i \<longleftrightarrow>
     (if i < off + leaf_count l then serial_only l off i else serial_only r (off + leaf_count l) i)"
| "serial_only (Parallel l _ r) off i \<longleftrightarrow> False"

definition chain_ok :: "chain_node \<Rightarrow> statuses \<Rightarrow> nat set \<Rightarrow> bool" where
  "chain_ok n st D \<longleftrightarrow> (\<forall>i. st i \<noteq> None \<longleftrightarrow> i < leaf_count n) \<and> (\<forall>i\<in>D. i < leaf_count n \<and> gates_open n 0 st i)
     \<and> (\<forall>i<leaf_count n. i \<notin> D \<longrightarrow> st i = Some LPending \<or> st i = Some LCancelled) \<and> race_ok n 0 st D"

definition queue_ok :: "chain_node \<Rightarrow> statuses \<Rightarrow> nat set \<Rightarrow> nat list \<Rightarrow> bool" where
  "queue_ok n st D q \<longleftrightarrow> distinct q \<and> (\<forall>i\<in>set q. i < leaf_count n \<and> i \<notin> D \<and> st i = Some LPending \<and> gates_open n 0 st i)"

section \<open>Lemmas on the transition\<close>

lemma race_ok_mono:
  assumes "race_ok n off st D" "D \<subseteq> D'"
    and "\<And>i. i \<in> leaf_range n off \<Longrightarrow> st' i = Some (LDone 0) \<Longrightarrow> st i = Some (LDone 0)"
    and "\<And>i. i \<in> leaf_range n off \<Longrightarrow> terminal_at st i \<Longrightarrow> terminal_at st' i"
  shows "race_ok n off st' D'"
  using assms
proof (induction n arbitrary: off)
  case (Parallel l op r)
  have "race_ok l off st' D'" "race_ok r (off + leaf_count l) st' D'"
    using Parallel.prems by (auto intro!: Parallel.IH)
  then show ?case
    using Parallel.prems unfolding race_ok.simps all_leaves_succeeded_iff by (simp add: subset_iff) metis
qed auto

lemma ready_has_gate: "k \<in> set (ready_after n off fin st) \<Longrightarrow> fin \<in> leaf_range n off \<Longrightarrow> fin \<in> gate n off k"
proof (induction n arbitrary: off)
  case (Serial l op r)
  then show ?case
    using ready_after_range [of k l off fin st] ready_after_range [of k r "off + leaf_count l" fin st]
      root_leaves_range [of r "off + leaf_count l"]
    by (auto simp: leaf_range_mem subset_iff split: if_splits)
next
  case (Parallel l op r)
  then show ?case
    using ready_after_range [of k l off fin st] ready_after_range [of k r "off + leaf_count l" fin st]
    by (auto simp: leaf_range_mem split: if_splits)
qed simp

lemma distinct_ready_after: "distinct (ready_after n off fin st)"
proof (induction n arbitrary: off)
  case (Serial l op r)
  have "set (ready_after l off fin st) \<inter> set (root_leaves r (off + leaf_count l)) = {}"
    using ready_after_range [of _ l off fin st] root_leaves_range [of r "off + leaf_count l"]
    by (force simp: leaf_range_mem subset_iff)
  then show ?case using Serial distinct_root_leaves by (auto simp: distinct_filter)
qed auto

text \<open>A leaf without a job is cancelled only because the finished leaf is one of its gates.\<close>

lemma cancel_has_gate:
  assumes "race_ok n off st D" "fin \<in> leaf_range n off" "fin \<in> D" "k \<notin> D" "\<not> terminal_at st k"
    and "st1 fin = Some (LDone 0) \<Longrightarrow> serial_only n off fin" "k \<in> set (cancel_after n off fin st1)"
    and eq: "\<And>i. i \<noteq> fin \<Longrightarrow> st1 i = st i"
  shows "fin \<in> gate n off k"
  using assms(1-7)
proof (induction n arbitrary: off)
  case (Serial l op r)
  let ?o = "off + leaf_count l"
  show ?case
  proof (cases "fin \<in> leaf_range l off")
    case True
    then have "k \<in> set (cancel_after l off fin st1) \<or> k \<in> leaf_range r ?o"
      using Serial.prems(7) by (auto simp: leaf_range_mem split: if_splits)
    then show ?thesis
    proof
      assume k: "k \<in> set (cancel_after l off fin st1)"
      then have "k \<in> leaf_range l off" using cancel_after_range by blast
      moreover have "fin \<in> gate l off k"
        using Serial.IH(1) [OF _ True _ _ _ _ k] Serial.prems True by (simp add: leaf_range_mem)
      ultimately show ?thesis by (simp add: leaf_range_mem)
    next
      assume "k \<in> leaf_range r ?o"
      then show ?thesis using True by (simp add: leaf_range_mem)
    qed
  next
    case False
    then have fr: "fin \<in> leaf_range r ?o" using Serial.prems(2) by simp
    have k: "k \<in> set (cancel_after r ?o fin st1)" using Serial.prems(7) False by simp
    then have "k \<in> leaf_range r ?o" using cancel_after_range by blast
    moreover have "fin \<in> gate r ?o k"
      using Serial.IH(2) [OF _ fr _ _ _ _ k] Serial.prems False fr by (simp add: leaf_range_mem)
    ultimately show ?thesis by (simp add: leaf_range_mem)
  qed
next
  case (Parallel l op r)
  let ?o = "off + leaf_count l"
  have s: "st1 fin \<noteq> Some (LDone 0)" using Parallel.prems(6) by auto
  have nf: "k \<noteq> fin" using Parallel.prems(3,4) by auto
  show ?case
  proof (cases "fin < ?o")
    case True
    then have fl: "fin \<in> leaf_range l off" using Parallel.prems(2) by (auto simp: leaf_range_mem)
    have no: "\<not> all_leaves_succeeded l off st1" using fl s unfolding all_leaves_succeeded_iff by fastforce
    have r: "all_leaves_succeeded r ?o st1 \<longleftrightarrow> all_leaves_succeeded r ?o st"
      unfolding all_leaves_succeeded_iff using fl eq by (auto simp: leaf_range_mem)
    have "k \<in> set (cancel_after l off fin st1) \<or> op = RaceOp \<and> all_leaves_succeeded r ?o st \<and> k \<in> leaf_range l off"
      using Parallel.prems(7) True no r by (auto simp: leaf_range_mem split: if_splits)
    then show ?thesis
    proof
      assume k: "k \<in> set (cancel_after l off fin st1)"
      then have "k \<in> leaf_range l off" using cancel_after_range by blast
      moreover have "fin \<in> gate l off k"
        using Parallel.IH(1) [OF _ fl _ _ _ _ k] Parallel.prems s by simp
      ultimately show ?thesis by (simp add: leaf_range_mem)
    qed (use Parallel.prems in auto)
  next
    case False
    then have fr: "fin \<in> leaf_range r ?o" using Parallel.prems(2) by (auto simp: leaf_range_mem)
    have no: "\<not> all_leaves_succeeded r ?o st1" using fr s unfolding all_leaves_succeeded_iff by fastforce
    have l: "all_leaves_succeeded l off st1 \<longleftrightarrow> all_leaves_succeeded l off st"
      unfolding all_leaves_succeeded_iff using fr eq by (auto simp: leaf_range_mem)
    have "k \<in> set (cancel_after r ?o fin st1) \<or> op = RaceOp \<and> all_leaves_succeeded l off st \<and> k \<in> leaf_range r ?o"
      using Parallel.prems(7) False no l by (auto simp: leaf_range_mem split: if_splits)
    then show ?thesis
    proof
      assume k: "k \<in> set (cancel_after r ?o fin st1)"
      then have "k \<in> leaf_range r ?o" using cancel_after_range by blast
      moreover have "fin \<in> gate r ?o k"
        using Parallel.IH(2) [OF _ fr _ _ _ _ k] Parallel.prems s by simp
      ultimately show ?thesis by (simp add: leaf_range_mem)
    qed (use Parallel.prems in auto)
  qed
qed simp

lemma ready_not_cancelled:
  assumes "race_ok n off st D" "fin \<in> leaf_range n off" "fin \<in> D" "k \<notin> D"
    and "k \<in> set (ready_after n off fin st1)" and eq: "\<And>i. i \<noteq> fin \<Longrightarrow> st1 i = st i"
  shows "k \<notin> set (cancel_after n off fin st1)"
  using assms(1-5)
proof (induction n arbitrary: off)
  case (Serial l op r)
  let ?o = "off + leaf_count l"
  show ?case
  proof (cases "fin \<in> leaf_range l off")
    case True
    consider "k \<in> set (ready_after l off fin st1)"
      | "op = Always \<or> all_leaves_succeeded l off st1" "k \<in> set (root_leaves r ?o)"
      using Serial.prems(5) True by (auto split: if_splits)
    then show ?thesis
    proof cases
      case 1
      then have "k \<in> leaf_range l off" using ready_after_range by blast
      moreover have "k \<notin> set (cancel_after l off fin st1)" using Serial.IH(1) [OF _ True _ _ 1] Serial.prems by simp
      ultimately show ?thesis using True by (auto simp: leaf_range_mem)
    next
      case 2
      then have "k \<in> leaf_range r ?o" using root_leaves_range by blast
      moreover have "k \<notin> set (cancel_after l off fin st1)"
        using calculation cancel_after_range [of k l off fin st1] by (auto simp: leaf_range_mem)
      ultimately show ?thesis using True 2(1) by auto
    qed
  next
    case False
    then show ?thesis using Serial.IH(2) [of ?o] Serial.prems by simp
  qed
next
  case (Parallel l op r)
  let ?o = "off + leaf_count l"
  have nf: "k \<noteq> fin" using Parallel.prems(3,4) by auto
  show ?case
  proof (cases "fin < ?o")
    case True
    then have fl: "fin \<in> leaf_range l off" using Parallel.prems(2) by (auto simp: leaf_range_mem)
    have k: "k \<in> set (ready_after l off fin st1)" using Parallel.prems(5) True by simp
    note kr = ready_after_range [OF k]
    have nd: "\<not> terminal_at st k" "st1 k \<noteq> Some (LDone 0)" using kr eq [OF nf] by (auto simp: pending_at_def terminal_at_def)
    have r: "all_leaves_succeeded r ?o st1 \<longleftrightarrow> all_leaves_succeeded r ?o st"
      unfolding all_leaves_succeeded_iff using fl eq by (auto simp: leaf_range_mem)
    have "\<not> all_leaves_succeeded l off st1" using nd(2) kr unfolding all_leaves_succeeded_iff by blast
    moreover have "\<not> (op = RaceOp \<and> all_leaves_succeeded r ?o st1)" using Parallel.prems(1,4) kr nd(1) r by auto
    ultimately show ?thesis using Parallel.IH(1) [OF _ fl _ _ k] Parallel.prems True by auto
  next
    case False
    then have fr: "fin \<in> leaf_range r ?o" using Parallel.prems(2) by (auto simp: leaf_range_mem)
    have k: "k \<in> set (ready_after r ?o fin st1)" using Parallel.prems(5) False by simp
    note kr = ready_after_range [OF k]
    have nd: "\<not> terminal_at st k" "st1 k \<noteq> Some (LDone 0)" using kr eq [OF nf] by (auto simp: pending_at_def terminal_at_def)
    have l: "all_leaves_succeeded l off st1 \<longleftrightarrow> all_leaves_succeeded l off st"
      unfolding all_leaves_succeeded_iff using fr eq by (auto simp: leaf_range_mem)
    have "\<not> (op = RaceOp \<and> all_leaves_succeeded l off st1)" using Parallel.prems(1,4) kr nd(1) l by auto
    moreover have "\<not> all_leaves_succeeded r ?o st1" using nd(2) kr unfolding all_leaves_succeeded_iff by blast
    ultimately show ?thesis using Parallel.IH(2) [OF _ fr _ _ k] Parallel.prems False by auto
  qed
qed simp

lemma race_ok_finish:
  assumes "race_ok n off st D" "fin \<in> leaf_range n off" "fin \<in> D"
    and eq: "\<And>i. i \<noteq> fin \<Longrightarrow> st1 i = st i"
    and known: "\<And>i. i \<in> leaf_range n off \<Longrightarrow> st1 i \<noteq> None"
    and keep: "\<And>i. terminal_at st1 i \<Longrightarrow> terminal_at st2 i"
    and succ: "\<And>i. st2 i = Some (LDone 0) \<Longrightarrow> st1 i = Some (LDone 0)"
    and cancelled: "\<And>i. i \<in> set (cancel_after n off fin st1) \<Longrightarrow> i \<notin> D \<Longrightarrow> terminal_at st2 i"
    and old: "\<not> terminal_at st fin"
  shows "race_ok n off st2 D"
  using assms(1-3,5,8)
proof (induction n arbitrary: off)
  case (Serial l op r)
  let ?o = "off + leaf_count l"
  have mono: "race_ok m o' st2 D" if "race_ok m o' st D" "fin \<notin> leaf_range m o'" for m o'
  proof (rule race_ok_mono [OF that(1) order.refl])
    fix i assume i: "i \<in> leaf_range m o'"
    then have "i \<noteq> fin" using that(2) by blast
    then have "st1 i = st i" by (rule eq)
    then show "st2 i = Some (LDone 0) \<Longrightarrow> st i = Some (LDone 0)" "terminal_at st i \<Longrightarrow> terminal_at st2 i"
      using succ [of i] keep [of i] by (auto simp: terminal_at_def)
  qed
  show ?case
  proof (cases "fin \<in> leaf_range l off")
    case True
    then have "fin \<notin> leaf_range r ?o" by (auto simp: leaf_range_mem)
    then show ?thesis using Serial mono True by auto
  next
    case False
    then show ?thesis using Serial mono by auto
  qed
next
  case (Parallel l op r)
  let ?o = "off + leaf_count l"
  have mono: "race_ok m o' st2 D" if "race_ok m o' st D" "fin \<notin> leaf_range m o'" for m o'
  proof (rule race_ok_mono [OF that(1) order.refl])
    fix i assume i: "i \<in> leaf_range m o'"
    then have "i \<noteq> fin" using that(2) by blast
    then have "st1 i = st i" by (rule eq)
    then show "st2 i = Some (LDone 0) \<Longrightarrow> st i = Some (LDone 0)" "terminal_at st i \<Longrightarrow> terminal_at st2 i"
      using succ [of i] keep [of i] by (auto simp: terminal_at_def)
  qed
  have stays: "terminal_at st2 i \<or> i \<in> D" if "terminal_at st i \<or> i \<in> D" for i
  proof (cases "i = fin")
    case False
    then show ?thesis using that keep [of i] eq [OF False] by (auto simp: terminal_at_def)
  qed (use Parallel.prems in auto)
  have lose: "terminal_at st2 i \<or> i \<in> D"
    if a: "i \<in> leaf_range n' o'" "leaf_range n' o' \<subseteq> leaf_range (Parallel l op r) off"
      "set (filter (unfinished_at st1) [o'..<o' + leaf_count n']) \<subseteq> set (cancel_after (Parallel l op r) off fin st1)" for i n' o'
  proof -
    obtain x where x: "st1 i = Some x" using Parallel.prems(4) [of i] a(1,2) by blast
    show ?thesis
    proof (cases "leaf_is_terminal x")
      case True
      then show ?thesis using keep [of i] x by (auto simp: terminal_at_def)
    next
      case False
      then have "i \<in> set (filter (unfinished_at st1) [o'..<o' + leaf_count n'])"
        using x a(1) by (auto simp: unfinished_at_def leaf_range_mem)
      then show ?thesis using a(3) Parallel.prems(5) [of i] by blast
    qed
  qed
  have subs: "leaf_range l off \<subseteq> leaf_range (Parallel l op r) off" "leaf_range r ?o \<subseteq> leaf_range (Parallel l op r) off" by auto
  have sl: "all_leaves_succeeded m o' st1" if "all_leaves_succeeded m o' st2" for m o'
    using that succ by (auto simp: all_leaves_succeeded_iff)
  have race: "op = RaceOp \<Longrightarrow> all_leaves_succeeded l off st1 \<Longrightarrow> i \<in> leaf_range r ?o \<Longrightarrow> terminal_at st2 i \<or> i \<in> D" for i
    using lose [of i r ?o, OF _ subs(2)] by simp
  have race': "op = RaceOp \<Longrightarrow> \<not> all_leaves_succeeded l off st1 \<Longrightarrow> all_leaves_succeeded r ?o st1 \<Longrightarrow>
      i \<in> leaf_range l off \<Longrightarrow> terminal_at st2 i \<or> i \<in> D" for i
    using lose [of i l off, OF _ subs(1)] by simp
  have both: "terminal_at st2 i \<or> i \<in> D" if "all_leaves_succeeded l off st1" "i \<in> leaf_range l off" for i
    using that keep [of i] by (auto simp: all_leaves_succeeded_iff terminal_at_def)
  show ?case
  proof (cases "fin < ?o")
    case True
    then have f: "fin \<in> leaf_range l off" "fin \<notin> leaf_range r ?o" using Parallel.prems(2) by (auto simp: leaf_range_mem)
    have "race_ok l off st2 D" using Parallel.prems f(1) True by (intro Parallel.IH(1)) auto
    then show ?thesis using mono [of r ?o] f(2) Parallel.prems(1) race race' both sl by fastforce
  next
    case False
    then have f: "fin \<in> leaf_range r ?o" "fin \<notin> leaf_range l off" using Parallel.prems(2) by (auto simp: leaf_range_mem)
    have "race_ok r ?o st2 D" using Parallel.prems f(1) False by (intro Parallel.IH(2)) auto
    then show ?thesis using mono [of l off] f(2) Parallel.prems(1) race race' both sl by fastforce
  qed
qed simp

section \<open>The three changes\<close>

lemma chain_ok_enter:
  assumes "chain_ok n st D" "queue_ok n st D (i # q)"
  shows "chain_ok n (st(i \<mapsto> LRunning)) (insert i D) \<and> queue_ok n (st(i \<mapsto> LRunning)) (insert i D) q"
proof -
  let ?st = "st(i \<mapsto> LRunning)"
  have i: "i < leaf_count n" "i \<notin> D" "st i = Some LPending" "gates_open n 0 st i" using assms(2) by (auto simp: queue_ok_def)
  have g: "gates_open n 0 ?st k" if "gates_open n 0 st k" for k
    by (rule gates_open_mono [OF _ that]) (use i in \<open>auto simp: terminal_at_def\<close>)
  have "race_ok n 0 ?st (insert i D)"
    by (rule race_ok_mono [of n 0 st D]) (use assms i in \<open>auto simp: chain_ok_def terminal_at_def split: if_splits\<close>)
  then show ?thesis using assms i g by (auto simp: chain_ok_def queue_ok_def)
qed

text \<open>A leaf with a job waits for resources, or stops waiting.\<close>

lemma chain_ok_park:
  assumes "chain_ok n st D" "i \<in> D" "\<not> terminal_at st i" "x = LPending \<or> x = LRunning"
  shows "chain_ok n (st(i \<mapsto> x)) D" and "queue_ok n st D q \<Longrightarrow> queue_ok n (st(i \<mapsto> x)) D q"
proof -
  let ?st = "st(i \<mapsto> x)"
  have g: "gates_open n 0 ?st k" if "gates_open n 0 st k" for k
    by (rule gates_open_mono [OF _ that]) (use assms(3) in auto)
  have "race_ok n 0 ?st D"
    by (rule race_ok_mono [of n 0 st D]) (use assms in \<open>auto simp: chain_ok_def terminal_at_def split: if_splits\<close>)
  then show "chain_ok n ?st D" using assms g by (auto simp: chain_ok_def)
  show "queue_ok n ?st D q" if "queue_ok n st D q" using that assms(2) g by (auto simp: queue_ok_def)
qed

text \<open>The effect of cancelling the leaves of a list: one with a job may survive.\<close>

definition settled :: "nat list \<Rightarrow> nat set \<Rightarrow> statuses \<Rightarrow> statuses \<Rightarrow> bool" where
  "settled cs D st1 st2 \<longleftrightarrow> (\<forall>i. i \<notin> set cs \<longrightarrow> st2 i = st1 i) \<and>
     (\<forall>i\<in>set cs. if i \<in> D then st2 i = st1 i \<or> \<not> terminal_at st1 i \<and> st2 i = Some LCancelled else st2 i = Some LCancelled)"

lemma settled_cases:
  assumes "settled cs D st1 st2"
  shows "st2 i = st1 i \<or> st2 i = Some LCancelled \<and> (i \<in> D \<longrightarrow> \<not> terminal_at st1 i) \<and> i \<in> set cs"
  using assms by (cases "i \<in> set cs"; cases "i \<in> D") (auto simp: settled_def)

lemma chain_ok_cancel:
  assumes ok: "chain_ok n st D" and s: "settled cs D st st2" "\<forall>i\<in>set cs. i < leaf_count n"
  shows "chain_ok n st2 D"
proof -
  have keep: "st2 i = st i" if t: "terminal_at st i" for i
  proof (cases "i \<in> D")
    case False
    have "st i \<noteq> None" "st i \<noteq> Some LPending" using t by (auto simp: terminal_at_def split: option.splits)
    then have "st i = Some LCancelled" using ok False by (auto simp: chain_ok_def)
    then show ?thesis using settled_cases [OF s(1), of i] by auto
  qed (use settled_cases [OF s(1), of i] t in auto)
  have g: "gates_open n 0 st2 k" if "gates_open n 0 st k" for k
    by (rule gates_open_mono [OF _ that]) (use keep in auto)
  have "race_ok n 0 st2 D"
  proof (rule race_ok_mono [of n 0 st D])
    fix i assume "st2 i = Some (LDone 0)"
    then show "st i = Some (LDone 0)" using settled_cases [OF s(1), of i] by auto
  qed (use ok keep in \<open>auto simp: chain_ok_def terminal_at_def\<close>)
  moreover have "st2 i \<noteq> None \<longleftrightarrow> i < leaf_count n" for i
    using ok settled_cases [OF s(1), of i] s(2) by (auto simp: chain_ok_def)
  moreover have "st2 i = Some LPending \<or> st2 i = Some LCancelled" if "i < leaf_count n" "i \<notin> D" for i
    using ok settled_cases [OF s(1), of i] that by (auto simp: chain_ok_def)
  ultimately show ?thesis using ok g by (auto simp: chain_ok_def)
qed

lemma chain_ok_finish:
  assumes ok: "chain_ok n st D" and q: "queue_ok n st D q" and i: "i \<in> D" "\<not> terminal_at st i" and t: "leaf_is_terminal s"
    and safe: "q = [] \<or> s \<noteq> LDone 0 \<or> serial_only n 0 i"
    and st1: "st1 = st(i \<mapsto> s)" and st2: "settled (cancel_after n 0 i st1) D st1 st2"
  shows "chain_ok n st2 D \<and> queue_ok n st2 D (q @ ready_after n 0 i st1)"
proof -
  have il: "i < leaf_count n" "i \<in> leaf_range n 0" and gi: "gates_open n 0 st i" using ok i by (auto simp: chain_ok_def leaf_range_mem)
  have race: "race_ok n 0 st D" using ok by (simp add: chain_ok_def)
  have eq: "\<And>k. k \<noteq> i \<Longrightarrow> st1 k = st k" by (simp add: st1)
  have pend: "st1 k = Some LPending \<or> st1 k = Some LCancelled" if "k < leaf_count n" "k \<notin> D" for k
    using ok that i st1 by (auto simp: chain_ok_def)
  have keep: "st2 k = st1 k" if "terminal_at st1 k" for k
    using settled_cases [OF st2, of k] cancel_after_range [of k n 0 i st1] that by auto
  have mono: "gates_open n 0 st2 k" if "gates_open n 0 st1 k" for k
    by (rule gates_open_mono [OF _ that]) (use keep in auto)
  have mono1: "gates_open n 0 st1 k" if "gates_open n 0 st k" for k
  proof (rule gates_open_mono [OF _ that])
    fix j assume "terminal_at st j"
    then have "j \<noteq> i" using i(2) by blast
    then show "st1 j = st j" by (rule eq)
  qed
  have "race_ok n 0 st2 D"
  proof (rule race_ok_finish [OF race il(2) i(1) eq])
    show "st1 k \<noteq> None" if "k \<in> leaf_range n 0" for k
      using ok that st1 by (auto simp: chain_ok_def leaf_range_mem)
    show "terminal_at st2 k" if "terminal_at st1 k" for k using keep [OF that] that by (simp add: terminal_at_def)
    show "st1 k = Some (LDone 0)" if "st2 k = Some (LDone 0)" for k using settled_cases [OF st2, of k] that by auto
    show "terminal_at st2 k" if "k \<in> set (cancel_after n 0 i st1)" "k \<notin> D" for k
      using st2 that by (auto simp: settled_def terminal_at_def)
  qed (use i in auto)
  moreover have "st2 k \<noteq> None \<longleftrightarrow> k < leaf_count n" for k
    using ok il settled_cases [OF st2, of k] cancel_after_range [of k n 0 i st1] st1
    by (auto simp: chain_ok_def leaf_range_mem split: if_splits)
  moreover have "st2 k = Some LPending \<or> st2 k = Some LCancelled" if "k < leaf_count n" "k \<notin> D" for k
    using pend [OF that] settled_cases [OF st2, of k] by auto
  ultimately have ok2: "chain_ok n st2 D" using ok mono mono1 by (auto simp: chain_ok_def)
  have closed: "\<not> gates_open n 0 st k" if "i \<in> gate n 0 k" for k
    using that i(2) by (auto simp: gates_open_def)
  have old: "st2 k = Some LPending \<and> gates_open n 0 st2 k" if k: "k \<in> set q" for k
  proof -
    have kk: "k < leaf_count n" "k \<notin> D" "st k = Some LPending" "gates_open n 0 st k" using q k by (auto simp: queue_ok_def)
    have "k \<notin> set (cancel_after n 0 i st1)"
    proof
      assume c: "k \<in> set (cancel_after n 0 i st1)"
      have "i \<in> gate n 0 k"
      proof (rule cancel_has_gate [OF race il(2) i(1) kk(2) _ _ c eq])
        show "\<not> terminal_at st k" using kk(3) by (simp add: terminal_at_def)
        show "serial_only n 0 i" if "st1 i = Some (LDone 0)" using safe that st1 k by auto
      qed auto
      then show False using closed kk(4) by blast
    qed
    then have "st2 k = st1 k" using settled_cases [OF st2, of k] by auto
    moreover have "k \<noteq> i" using kk(2) i(1) by auto
    ultimately show ?thesis using kk mono [OF mono1 [OF kk(4)]] eq by simp
  qed
  have new: "k < leaf_count n \<and> k \<notin> D \<and> st2 k = Some LPending \<and> gates_open n 0 st2 k \<and> k \<notin> set q"
    if k: "k \<in> set (ready_after n 0 i st1)" for k
  proof -
    note kr = ready_after_range [OF k]
    have gk: "i \<in> gate n 0 k" using ready_has_gate [OF k il(2)] .
    have kD: "k \<notin> D" using closed [OF gk] ok by (auto simp: chain_ok_def)
    have kq: "k \<notin> set q" using closed [OF gk] q by (auto simp: queue_ok_def)
    have kl: "k < leaf_count n" using kr by (simp add: leaf_range_mem)
    have "st1 k = Some LPending" using pend [OF kl kD] kr by (auto simp: pending_at_def)
    moreover have "st2 k = st1 k"
      using settled_cases [OF st2, of k] ready_not_cancelled [OF race il(2) i(1) kD k eq] by auto
    moreover have "gates_open n 0 st1 k" using ready_after_gates [OF il(2) mono1 [OF gi] k] .
    ultimately show ?thesis using kl kD kq mono by simp
  qed
  have "queue_ok n st2 D (q @ ready_after n 0 i st1)"
    using q old new distinct_ready_after [of n 0 i st1] by (auto simp: queue_ok_def)
  then show ?thesis using ok2 by simp
qed

text \<open>A failed leaf whose transition is not applied.\<close>

lemma chain_ok_dropped:
  assumes "chain_ok n st D" "i \<in> D" "\<not> terminal_at st i" "s \<noteq> LDone 0"
  shows "chain_ok n (st(i \<mapsto> s)) D"
proof -
  let ?st = "st(i \<mapsto> s)"
  have g: "gates_open n 0 ?st k" if "gates_open n 0 st k" for k
    by (rule gates_open_mono [OF _ that]) (use assms(3) in auto)
  have "race_ok n 0 ?st D"
    by (rule race_ok_mono [of n 0 st D]) (use assms in \<open>auto simp: chain_ok_def terminal_at_def split: if_splits\<close>)
  then show ?thesis using assms g by (auto simp: chain_ok_def)
qed

lemma chain_ok_new:
  assumes st: "\<And>i. st i = (if i < leaf_count n then Some LPending else None)"
  shows "chain_ok n st {} \<and> queue_ok n st {} (initially_ready n)"
proof -
  have "\<not> all_leaves_succeeded m off st" for m off
  proof -
    obtain i where "i \<in> leaf_range m off" using leaf_range_nonempty [of m off] by blast
    moreover have "st i \<noteq> Some (LDone 0)" using st [of i] by simp
    ultimately show ?thesis unfolding all_leaves_succeeded_iff by blast
  qed
  then have "race_ok m off st {}" for m off by (induction m arbitrary: off) auto
  moreover have "i < leaf_count n" if "i \<in> set (root_leaves n 0)" for i
    using that root_leaves_range [of n 0] by (auto simp: leaf_range_mem)
  ultimately show ?thesis
    using st by (auto simp: chain_ok_def queue_ok_def initially_ready_eq distinct_root_leaves gates_open_root split: if_splits)
qed

end
