(* ===== verification/ExecCore.thy ===== *)
theory ExecCore
  imports Execution ChainQueue
begin

text \<open>
  The part of an execution world that its invariant speaks of (job statuses, chains, the links between
  them, waiters, jobs waiting for resources, reservations held and the id counters) and the effect of
  every operation of the theory Execution on it.  The resource registry is used through the contract
  \<open>resource_manager\<close>.
\<close>

section \<open>The core of a world\<close>

record core =
  k_job :: "job_id \<Rightarrow> job_status option"
  k_chain :: "chain_id \<Rightarrow> chain_state option"
  k_link :: "job_id \<Rightarrow> (chain_id \<times> nat) option"
  k_wait :: "job_id set"
  k_pend :: "job_id set"
  k_queue :: "job_id list"
  k_next :: u32
  k_next_chain :: u32
  k_held :: "job_id set"

definition core_of :: "('r \<Rightarrow> job_id set) \<Rightarrow> 'r exec_world \<Rightarrow> core" where
  "core_of h w =
     \<lparr>k_job = (\<lambda>j. map_option je_status (map_of (s_jobs (w_state w)) j)), k_chain = map_of (s_chains (w_state w)),
       k_link = map_of (s_job_to_chain (w_state w)), k_wait = dom (map_of (s_job_waiters (w_state w))),
       k_pend = dom (map_of (s_pending_resource (w_state w))), k_queue = s_pending_resource_jobs (w_state w),
       k_next = s_next_job (w_state w), k_next_chain = s_next_chain (w_state w), k_held = h (w_res w)\<rparr>"

definition k_put :: "job_id \<Rightarrow> job_status \<Rightarrow> core \<Rightarrow> core" where
  "k_put j x k = k\<lparr>k_job := (k_job k)(j \<mapsto> x)\<rparr>"

definition k_leaf :: "chain_id \<Rightarrow> nat \<Rightarrow> leaf_status \<Rightarrow> core \<Rightarrow> core" where
  "k_leaf c i x k =
     (case k_chain k c of None \<Rightarrow> k | Some ch \<Rightarrow> k\<lparr>k_chain := (k_chain k)(c \<mapsto> set_leaf_status i x ch)\<rparr>)"

text \<open>A job ends: its reservation, its place in the retry queue and its waiters go, its leaf is updated.\<close>

definition k_drop :: "job_id \<Rightarrow> core \<Rightarrow> core" where
  "k_drop j k = k\<lparr>k_held := k_held k - {j}, k_pend := k_pend k - {j}, k_queue := removeAll j (k_queue k),
     k_wait := k_wait k - {j}\<rparr>"

definition k_finish :: "job_id \<Rightarrow> job_status \<Rightarrow> leaf_status \<Rightarrow> core \<Rightarrow> core" where
  "k_finish j x l k =
     (case k_link k j of None \<Rightarrow> k_drop j (k_put j x k) | Some (c, i) \<Rightarrow> k_leaf c i l (k_drop j (k_put j x k)))"

definition k_wait_res :: "job_id \<Rightarrow> core \<Rightarrow> core" where
  "k_wait_res j k = k\<lparr>k_pend := insert j (k_pend k), k_queue := (if j \<in> set (k_queue k) then k_queue k else k_queue k @ [j])\<rparr>"

section \<open>Effect of the operations on the core\<close>

lemma core_held: "k_held (core_of h w) = h (w_res w)"
  by (simp add: core_of_def)

lemma w_res_on_state [simp]: "w_res (on_state f w) = w_res w"
  by (simp add: on_state_def)

lemma core_emit [simp]: "core_of h (emit e w) = core_of h w"
  by (simp add: core_of_def emit_def)

lemma core_emit_all [simp]: "core_of h (emit_all es w) = core_of h w"
  by (induction es arbitrary: w) auto

lemma core_publish [simp]:
  "core_of h (publish_job_created j t sc hint w) = core_of h w"
  "core_of h (publish_job_state_changed j a b es w) = core_of h w"
  by (simp_all add: publish_job_created_def publish_job_state_changed_def split: option.splits)

lemma core_sync [simp]: "core_of h (on_state (synchronize_pending_script_chain c info) w) = core_of h w"
  by (simp add: core_of_def on_state_def synchronize_pending_script_chain_def split: option.splits)

lemma core_progress [simp]: "core_of h (publish_chain_progress c w) = core_of h w"
  by (simp add: publish_chain_progress_def split: option.splits)

lemma core_put_job [simp]: "core_of h (on_state (put_job j e) w) = k_put j (je_status e) (core_of h w)"
  by (auto simp: core_of_def on_state_def put_job_def k_put_def AList.update_conv' fun_eq_iff)

lemma core_update_leaf [simp]: "core_of h (on_state (update_leaf c i x) w) = k_leaf c i x (core_of h w)"
  by (auto simp: core_of_def on_state_def update_leaf_def put_chain_def k_leaf_def AList.update_conv' split: option.splits)

lemma core_note [simp]:
  assumes "\<And>e. je_status (f e) = je_status e"
  shows "core_of h (on_state (\<lambda>s. case map_of (s_jobs s) j of None \<Rightarrow> s | Some e \<Rightarrow> put_job j (f e) s) w) = core_of h w"
  using assms by (auto simp: core_of_def on_state_def put_job_def AList.update_conv' fun_eq_iff split: option.splits)

lemma core_res: "core_of h (w\<lparr>w_res := r\<rparr>) = (core_of h w)\<lparr>k_held := h r\<rparr>"
  by (simp add: core_of_def)

lemma core_forget: "core_of h (on_state (forget_resource_pending j) w) =
    (core_of h w)\<lparr>k_pend := k_pend (core_of h w) - {j}, k_queue := removeAll j (k_queue (core_of h w))\<rparr>"
  by (auto simp: core_of_def on_state_def forget_resource_pending_def AList.delete_conv' dom_def)

lemma core_unwait: "core_of h (on_state (\<lambda>s. s\<lparr>s_job_waiters := AList.delete j (s_job_waiters s)\<rparr>) w) =
    (core_of h w)\<lparr>k_wait := k_wait (core_of h w) - {j}\<rparr>"
  by (auto simp: core_of_def on_state_def AList.delete_conv' dom_def)

lemma core_notify: "core_of h (notify_job_waiters j w) = (core_of h w)\<lparr>k_wait := k_wait (core_of h w) - {j}\<rparr>"
proof (cases "map_of (s_job_waiters (w_state w)) j")
  case None
  then have "j \<notin> k_wait (core_of h w)" by (auto simp: core_of_def)
  then show ?thesis using None by (simp add: notify_job_waiters_def)
next
  case (Some ws)
  then show ?thesis by (simp add: notify_job_waiters_def Let_def core_unwait split: option.splits)
qed

lemma core_record_pending: "core_of h (on_state (record_resource_pending j reason p) w) =
    k_wait_res j (if k_job (core_of h w) j = None then core_of h w else k_put j Pending (core_of h w))"
  by (auto simp: core_of_def on_state_def record_resource_pending_def put_job_def k_wait_res_def k_put_def
      AList.update_conv' fun_eq_iff Let_def dom_def split: option.splits)

lemma k_simps [simp]:
  "k_job (k_put j x k) = (k_job k)(j \<mapsto> x)" "k_chain (k_put j x k) = k_chain k" "k_link (k_put j x k) = k_link k"
  "k_wait (k_put j x k) = k_wait k" "k_pend (k_put j x k) = k_pend k" "k_queue (k_put j x k) = k_queue k"
  "k_next (k_put j x k) = k_next k" "k_next_chain (k_put j x k) = k_next_chain k" "k_held (k_put j x k) = k_held k"
  "k_job (k_leaf c i l k) = k_job k" "k_link (k_leaf c i l k) = k_link k" "k_wait (k_leaf c i l k) = k_wait k"
  "k_pend (k_leaf c i l k) = k_pend k" "k_queue (k_leaf c i l k) = k_queue k" "k_next (k_leaf c i l k) = k_next k"
  "k_next_chain (k_leaf c i l k) = k_next_chain k" "k_held (k_leaf c i l k) = k_held k"
  "k_job (k_drop j k) = k_job k" "k_chain (k_drop j k) = k_chain k" "k_link (k_drop j k) = k_link k"
  "k_wait (k_drop j k) = k_wait k - {j}" "k_pend (k_drop j k) = k_pend k - {j}" "k_queue (k_drop j k) = removeAll j (k_queue k)"
  "k_next (k_drop j k) = k_next k" "k_next_chain (k_drop j k) = k_next_chain k" "k_held (k_drop j k) = k_held k - {j}"
  by (simp_all add: k_put_def k_leaf_def k_drop_def split: option.splits)

lemma k_chain_leaf: "k_chain (k_leaf c i l k) = (case k_chain k c of None \<Rightarrow> k_chain k | Some ch \<Rightarrow> (k_chain k)(c \<mapsto> set_leaf_status i l ch))"
  by (simp add: k_leaf_def split: option.splits)

lemma k_finish_simps [simp]:
  "k_job (k_finish j x l k) = (k_job k)(j \<mapsto> x)" "k_link (k_finish j x l k) = k_link k"
  "k_wait (k_finish j x l k) = k_wait k - {j}" "k_pend (k_finish j x l k) = k_pend k - {j}"
  "k_queue (k_finish j x l k) = removeAll j (k_queue k)" "k_next (k_finish j x l k) = k_next k"
  "k_next_chain (k_finish j x l k) = k_next_chain k" "k_held (k_finish j x l k) = k_held k - {j}"
  by (simp_all add: k_finish_def split: option.splits)

lemma k_wait_res_simps [simp]:
  "k_job (k_wait_res j k) = k_job k" "k_chain (k_wait_res j k) = k_chain k" "k_link (k_wait_res j k) = k_link k"
  "k_wait (k_wait_res j k) = k_wait k" "k_pend (k_wait_res j k) = insert j (k_pend k)"
  "set (k_queue (k_wait_res j k)) = insert j (set (k_queue k))" "k_next (k_wait_res j k) = k_next k"
  "k_next_chain (k_wait_res j k) = k_next_chain k" "k_held (k_wait_res j k) = k_held k"
  by (auto simp: k_wait_res_def)

section \<open>The contract of the resource registry\<close>

text \<open>
  \<open>held\<close> is the set of jobs that hold a reservation.  A rejection changes nothing, a grant adds at most
  the job itself, a release removes exactly the job.
\<close>

locale resource_manager =
  fixes ops :: "'r resource_ops"
    and held :: "'r \<Rightarrow> job_id set"
  assumes reject_frame: "ro_reserve ops j needs r = (Inl g, r') \<Longrightarrow> held r' = held r"
    and grant_frame: "ro_reserve ops j needs r = (Inr gs, r') \<Longrightarrow> held r \<subseteq> held r' \<and> held r' \<subseteq> insert j (held r)"
    and release_exact: "held (ro_release ops j r) = held r - {j}"
begin

lemma admit_core:
  assumes "admit ops v j base needs w = (a, w1)"
  obtains H where "core_of held w1 = (core_of held w)\<lparr>k_held := H\<rparr>" "w_state w1 = w_state w"
    "k_held (core_of held w) - {j} \<subseteq> H" "H \<subseteq> insert j (k_held (core_of held w))"
    "(\<forall>sc. a \<noteq> Inr (AdmissionGranted sc)) \<longrightarrow> H \<subseteq> k_held (core_of held w)"
proof -
  obtain r where r: "admit_resource_scope ops v j base needs (w_res w) = (a, r)" and w1: "w1 = w\<lparr>w_res := r\<rparr>"
    using assms by (auto simp: admit_def split: prod.splits)
  have "held (w_res w) - {j} \<subseteq> held r \<and> held r \<subseteq> insert j (held (w_res w)) \<and>
      ((\<forall>sc. a \<noteq> Inr (AdmissionGranted sc)) \<longrightarrow> held r \<subseteq> held (w_res w))"
  proof (cases "need_is_empty needs")
    case True
    then show ?thesis using r by (auto simp: admit_resource_scope_def)
  next
    case False
    obtain x r1 where x: "ro_reserve ops j needs (w_res w) = (x, r1)" by (cases "ro_reserve ops j needs (w_res w)")
    show ?thesis
    proof (cases x)
      case (Inl g)
      then show ?thesis using r x False reject_frame [of j needs "w_res w" g r1] by (auto simp: admit_resource_scope_def)
    next
      case (Inr gs)
      note g = grant_frame [of j needs "w_res w" gs r1]
      have "r = r1 \<and> (\<exists>sc. a = Inr (AdmissionGranted sc)) \<or> r = ro_release ops j r1"
        using r x False Inr by (auto simp: admit_resource_scope_def Let_def split: if_splits sum.splits)
      then show ?thesis using g x Inr by (auto simp: release_exact)
    qed
  qed
  then show thesis by (intro that [of "held r"]) (auto simp: w1 core_res core_held)
qed

lemma finish_core:
  assumes "job_is_terminal (tu_status u)" "finish_job ops v j e u w = (t, w1)"
  shows "core_of held w1 = k_finish j (tu_status u) (job_leaf_status (tu_status u) (tu_exit_code u)) (core_of held w)"
    and "\<exists>es. to_chain_advance t = (case k_link (core_of held w) j of None \<Rightarrow> None
      | Some (c, i) \<Rightarrow> if tu_advance_chain u then chain_transition_of c i es (w_state w1) else None)"
proof -
  let ?e = "e\<lparr>je_status := tu_status u, je_exit_code := Some (tu_exit_code u), je_end_scope := or_else (tu_end_scope u) (je_start_scope e)\<rparr>"
  let ?l = "job_leaf_status (tu_status u) (tu_exit_code u)"
  define es where "es = or_else (je_end_scope ?e) (je_start_scope ?e)"
  define w2 where "w2 = on_state (forget_resource_pending j)
    ((on_state (put_job j ?e) w)\<lparr>w_res := ro_release ops j (w_res (on_state (put_job j ?e) w))\<rparr>)"
  define w4 where "w4 = notify_job_waiters j (publish_job_state_changed j (je_status e) (tu_status u) es w2)"
  have c4: "core_of held w4 = k_drop j (k_put j (tu_status u) (core_of held w))"
    unfolding w4_def core_notify core_publish w2_def core_forget core_res
    by (simp add: k_drop_def release_exact core_held)
  have f: "finish_job ops v j e u w = (case map_of (s_job_to_chain (w_state w4)) j of
      None \<Rightarrow> (no_advance (xv_persist v ?e), w4)
    | Some (c, i) \<Rightarrow>
        (\<lparr>to_chain_advance = (if tu_advance_chain u then chain_transition_of c i es (w_state (on_state (update_leaf c i ?l) w4)) else None),
          to_persist_error = xv_persist v ?e\<rparr>, on_state (update_leaf c i ?l) w4))"
    unfolding finish_job_def Let_def w4_def w2_def es_def if_P [OF assms(1)] by (rule refl)
  have link: "map_of (s_job_to_chain (w_state w4)) j = k_link (core_of held w) j"
  proof -
    have "k_link (core_of held w4) = k_link (core_of held w)" using c4 by simp
    then show ?thesis by (simp add: core_of_def)
  qed
  have "core_of held w1 = k_finish j (tu_status u) ?l (core_of held w) \<and>
    to_chain_advance t = (case k_link (core_of held w) j of None \<Rightarrow> None
      | Some (c, i) \<Rightarrow> if tu_advance_chain u then chain_transition_of c i es (w_state w1) else None)"
  proof (cases "k_link (core_of held w) j")
    case None
    then have "w1 = w4" "to_chain_advance t = None" using assms(2) f link by (auto simp: no_advance_def)
    then show ?thesis using c4 None by (simp add: k_finish_def)
  next
    case (Some ci)
    obtain c i where ci: "ci = (c, i)" by (cases ci)
    have w1: "w1 = on_state (update_leaf c i ?l) w4" using assms(2) f link Some ci by simp
    moreover have "to_chain_advance t = (if tu_advance_chain u then chain_transition_of c i es (w_state w1) else None)"
      using assms(2) f link Some ci w1 by auto
    ultimately show ?thesis using c4 Some ci by (simp add: k_finish_def)
  qed
  then show "core_of held w1 = k_finish j (tu_status u) ?l (core_of held w)"
    "\<exists>es. to_chain_advance t = (case k_link (core_of held w) j of None \<Rightarrow> None
      | Some (c, i) \<Rightarrow> if tu_advance_chain u then chain_transition_of c i es (w_state w1) else None)" by blast+
qed

end

end
