(* ===== verification/ExecInv.thy ===== *)
theory ExecInv
  imports ExecCore
begin

text \<open>
  The invariant of job and chain execution and its preservation by the end of a job and by the
  cancellation of leaves.
\<close>

section \<open>The invariant\<close>

abbreviation ch_st :: "chain_state \<Rightarrow> statuses" where "ch_st ch \<equiv> map_of (ch_leaf_status ch)"
abbreviation ch_lj :: "chain_state \<Rightarrow> nat \<Rightarrow> job_id option" where "ch_lj ch \<equiv> map_of (ch_leaf_jobs ch)"
abbreviation ch_D :: "chain_state \<Rightarrow> nat set" where "ch_D ch \<equiv> dom (map_of (ch_leaf_jobs ch))"

text \<open>The status of a leaf is that of its job; the job of an ended leaf may be gone from the history.\<close>

definition leaf_matches :: "job_status option \<Rightarrow> leaf_status \<Rightarrow> bool" where
  "leaf_matches x l \<longleftrightarrow> (case x of None \<Rightarrow> leaf_is_terminal l | Some st \<Rightarrow> \<exists>code. l = job_leaf_status st code)"

definition link_inv :: "core \<Rightarrow> bool" where
  "link_inv k \<longleftrightarrow> (\<forall>c ch i j. k_chain k c = Some ch \<longrightarrow> ch_lj ch i = Some j \<longrightarrow> k_link k j = Some (c, i))"

definition back_inv :: "core \<Rightarrow> bool" where
  "back_inv k \<longleftrightarrow> (\<forall>j c i. k_link k j = Some (c, i) \<longrightarrow> (\<exists>ch. k_chain k c = Some ch \<and> ch_lj ch i = Some j))"

definition match_inv :: "core \<Rightarrow> bool" where
  "match_inv k \<longleftrightarrow> (\<forall>j c i ch. k_link k j = Some (c, i) \<longrightarrow> k_chain k c = Some ch \<longrightarrow>
     (\<exists>l. ch_st ch i = Some l \<and> leaf_matches (k_job k j) l))"

definition form_inv :: "core \<Rightarrow> bool" where
  "form_inv k \<longleftrightarrow> (\<forall>c ch. k_chain k c = Some ch \<longrightarrow> distinct (map fst (ch_leaf_jobs ch)) \<and>
     (ch_scope_enabled ch \<longrightarrow> validate_scope_transform_support (ch_node ch) = Inr ()))"

definition held_inv :: "core \<Rightarrow> bool" where
  "held_inv k \<longleftrightarrow> (\<forall>j\<in>k_held k. k_job k j = Some Running)"

definition wait_inv :: "core \<Rightarrow> bool" where
  "wait_inv k \<longleftrightarrow> (\<forall>j\<in>k_wait k. \<exists>x. k_job k j = Some x \<and> \<not> job_is_terminal x)"

text \<open>\<open>X\<close> holds the job taken from the retry queue while its admission is tried again.\<close>

definition pend_inv :: "job_id set \<Rightarrow> core \<Rightarrow> bool" where
  "pend_inv X k \<longleftrightarrow> k_pend k = {j. k_job k j = Some Pending} \<and> distinct (k_queue k) \<and> set (k_queue k) = k_pend k - X"

definition fresh_inv :: "core \<Rightarrow> bool" where
  "fresh_inv k \<longleftrightarrow> (\<forall>n. k_job k (JobId n) \<noteq> None \<or> k_link k (JobId n) \<noteq> None \<longrightarrow> n < k_next k) \<and>
     (\<forall>n. k_chain k (ChainId n) \<noteq> None \<longrightarrow> n < k_next_chain k)"

lemmas inv_defs = link_inv_def back_inv_def match_inv_def form_inv_def held_inv_def wait_inv_def pend_inv_def fresh_inv_def

definition kinv :: "job_id set \<Rightarrow> core \<Rightarrow> bool" where
  "kinv X k \<longleftrightarrow> link_inv k \<and> back_inv k \<and> match_inv k \<and> form_inv k \<and> held_inv k \<and> wait_inv k \<and> pend_inv X k \<and> fresh_inv k"

lemma kinvI:
  assumes "link_inv k" "back_inv k" "match_inv k" "form_inv k" "held_inv k" "wait_inv k" "pend_inv X k" "fresh_inv k"
  shows "kinv X k"
  using assms by (simp add: kinv_def)

lemma kinvD:
  assumes "kinv X k"
  shows "link_inv k" "back_inv k" "match_inv k" "form_inv k" "held_inv k" "wait_inv k" "pend_inv X k" "fresh_inv k"
  using assms by (simp_all add: kinv_def)

text \<open>Every chain outside \<open>C\<close> respects the order of its leaves.\<close>

definition chains_ok :: "chain_id set \<Rightarrow> core \<Rightarrow> bool" where
  "chains_ok C k \<longleftrightarrow> (\<forall>c ch. c \<notin> C \<longrightarrow> k_chain k c = Some ch \<longrightarrow> chain_ok (ch_node ch) (ch_st ch) (ch_D ch))"

lemma chains_okD: "chains_ok C k \<Longrightarrow> k_chain k c = Some ch \<Longrightarrow> c \<notin> C \<Longrightarrow> chain_ok (ch_node ch) (ch_st ch) (ch_D ch)"
  by (auto simp: chains_ok_def)

lemma chains_ok_upd:
  assumes "chains_ok C k" "k_chain k' = (k_chain k)(c \<mapsto> ch)" "c \<in> C' \<or> chain_ok (ch_node ch) (ch_st ch) (ch_D ch)" "C \<subseteq> insert c C'"
  shows "chains_ok C' k'"
  using assms by (auto simp: chains_ok_def)

lemma chains_ok_same: "chains_ok C k \<Longrightarrow> k_chain k' = k_chain k \<Longrightarrow> chains_ok C k'"
  by (simp add: chains_ok_def)

lemma set_leaf_status_simps [simp]:
  "ch_node (set_leaf_status i l ch) = ch_node ch" "ch_leaf_jobs (set_leaf_status i l ch) = ch_leaf_jobs ch"
  "ch_scope_enabled (set_leaf_status i l ch) = ch_scope_enabled ch" "ch_process (set_leaf_status i l ch) = ch_process ch"
  "ch_session_id (set_leaf_status i l ch) = ch_session_id ch" "ch_scope_hash (set_leaf_status i l ch) = ch_scope_hash ch"
  "ch_st (set_leaf_status i l ch) = (ch_st ch)(i \<mapsto> l)"
  by (simp_all add: set_leaf_status_def AList.update_conv')

lemma job_leaf_status_terminal [simp]: "leaf_is_terminal (job_leaf_status x code) = job_is_terminal x"
  by (cases x) (simp_all add: job_leaf_status_def)

lemma matches_terminal: "leaf_matches (Some x) l \<Longrightarrow> leaf_is_terminal l = job_is_terminal x"
  by (auto simp: leaf_matches_def)

lemma matches_self [simp]: "leaf_matches (Some x) (job_leaf_status x code)"
  by (auto simp: leaf_matches_def)

lemma backD: "kinv X k \<Longrightarrow> k_link k j = Some (c, i) \<Longrightarrow> \<exists>ch. k_chain k c = Some ch \<and> ch_lj ch i = Some j"
  unfolding kinv_def back_inv_def by blast

lemma linkD: "kinv X k \<Longrightarrow> k_chain k c = Some ch \<Longrightarrow> ch_lj ch i = Some j \<Longrightarrow> k_link k j = Some (c, i)"
  unfolding kinv_def link_inv_def by blast

lemma matchD: "kinv X k \<Longrightarrow> k_link k j = Some (c, i) \<Longrightarrow> k_chain k c = Some ch \<Longrightarrow>
    \<exists>l. ch_st ch i = Some l \<and> leaf_matches (k_job k j) l"
  unfolding kinv_def match_inv_def by blast

lemma live_leaf:
  assumes "kinv X k" "k_chain k c = Some ch" "ch_lj ch i = Some j" "k_job k j = Some x" "\<not> job_is_terminal x"
  shows "\<not> terminal_at (ch_st ch) i"
  using matchD [OF assms(1) linkD [OF assms(1-3)] assms(2)] matches_terminal assms(4,5) by (fastforce simp: terminal_at_def)

section \<open>Updates of one leaf\<close>

lemma leaf_struct:
  assumes k: "kinv X k" and ch: "k_chain k c = Some ch"
    and k': "k_chain k' = (k_chain k)(c \<mapsto> set_leaf_status i l ch)" "k_link k' = k_link k"
  shows "link_inv k'" "back_inv k'" "form_inv k'"
proof -
  show "link_inv k'" using kinvD(1) [OF k] ch by (auto simp: link_inv_def k')
  show "back_inv k'" using kinvD(2) [OF k] ch unfolding back_inv_def k' by fastforce
  show "form_inv k'" using kinvD(4) [OF k] ch by (auto simp: form_inv_def k')
qed

lemma match_set:
  assumes k: "kinv X k" and ch: "k_chain k c = Some ch" and link: "k_link k j = Some (c, i)" and x: "leaf_matches (Some x) l"
    and k': "k_chain k' = (k_chain k)(c \<mapsto> set_leaf_status i l ch)" "k_link k' = k_link k" "k_job k' = (k_job k)(j \<mapsto> x)"
  shows "match_inv k'"
  unfolding match_inv_def k'
proof (intro allI impI)
  have one: "j' = j" if "k_link k j' = Some (c, i)" for j'
    using backD [OF k that] backD [OF k link] ch by simp
  fix j' c' i' ch' assume a: "k_link k j' = Some (c', i')" "((k_chain k)(c \<mapsto> set_leaf_status i l ch)) c' = Some ch'"
  show "\<exists>l. ch_st ch' i' = Some l \<and> leaf_matches (((k_job k)(j \<mapsto> x)) j') l"
  proof (cases "(c', i') = (c, i)")
    case True
    then have "j' = j" using a(1) one by simp
    then show ?thesis using True a(2) x by auto
  next
    case False
    then have nj: "j' \<noteq> j" using a(1) link by auto
    obtain ch0 where ch0: "k_chain k c' = Some ch0" "ch_st ch' i' = ch_st ch0 i'"
      using a(2) False ch by (cases "c' = c") auto
    then show ?thesis using a(1) nj kinvD(3) [OF k] by (fastforce simp: match_inv_def)
  qed
qed

lemma kinv_leaf:
  assumes k: "kinv X k" and ch: "k_chain k c = Some ch" and i: "i \<notin> ch_D ch"
  shows "kinv X (k_leaf c i l k)"
proof (rule kinvI)
  have kc: "k_chain (k_leaf c i l k) = (k_chain k)(c \<mapsto> set_leaf_status i l ch)" using ch by (simp add: k_chain_leaf)
  have "k_link k j \<noteq> Some (c, i)" for j using backD [OF k, of j c i] ch i by auto
  then show "match_inv (k_leaf c i l k)"
    using kinvD(3) [OF k] ch unfolding match_inv_def kc by (auto split: if_splits)
  show "fresh_inv (k_leaf c i l k)" using kinvD(8) [OF k] ch by (auto simp: fresh_inv_def kc)
qed (use leaf_struct [OF k ch] kinvD [OF k] ch in \<open>simp_all add: held_inv_def wait_inv_def pend_inv_def k_chain_leaf\<close>)

lemma k_chain_finish:
  assumes "kinv X k" "k_link k j = Some (c, i)" "k_chain k c = Some ch"
  shows "k_chain (k_finish j x l k) = (k_chain k)(c \<mapsto> set_leaf_status i l ch)"
  using assms by (simp add: k_finish_def k_chain_leaf)

lemma k_chain_finish_single: "k_link k j = None \<Longrightarrow> k_chain (k_finish j x l k) = k_chain k"
  by (simp add: k_finish_def)

lemma kinv_finish:
  assumes k: "kinv X k" and j: "k_job k j = Some x0" and x: "job_is_terminal x" "leaf_matches (Some x) l"
  shows "kinv (X - {j}) (k_finish j x l k)"
proof (rule kinvI)
  let ?k = "k_finish j x l k"
  have pend: "x \<noteq> Pending" using x(1) by auto
  show "held_inv ?k" using kinvD(5) [OF k] by (auto simp: held_inv_def)
  show "wait_inv ?k" using kinvD(6) [OF k] by (auto simp: wait_inv_def)
  show "pend_inv (X - {j}) ?k" using kinvD(7) [OF k] pend by (auto simp: pend_inv_def distinct_removeAll)
  have "link_inv ?k \<and> back_inv ?k \<and> match_inv ?k \<and> form_inv ?k \<and> fresh_inv ?k"
  proof (cases "k_link k j")
    case None
    note kc = k_chain_finish_single [OF None, of x l]
    have "link_inv ?k" "back_inv ?k" "form_inv ?k"
      using kinvD [OF k] by (simp_all add: link_inv_def back_inv_def form_inv_def kc)
    moreover have "match_inv ?k" using kinvD(3) [OF k] None by (auto simp: match_inv_def kc)
    moreover have "fresh_inv ?k" using kinvD(8) [OF k] j by (auto simp: fresh_inv_def kc)
    ultimately show ?thesis by blast
  next
    case (Some ci)
    obtain c i where ci: "ci = (c, i)" by (cases ci)
    obtain ch where ch: "k_chain k c = Some ch" "ch_lj ch i = Some j" using backD [OF k, of j c i] Some ci by blast
    have kc: "k_chain ?k = (k_chain k)(c \<mapsto> set_leaf_status i l ch)"
      using k_chain_finish [OF k _ ch(1), of j i x l] Some ci by simp
    have "link_inv ?k" "back_inv ?k" "form_inv ?k" using leaf_struct [OF k ch(1) kc] by simp_all
    moreover have "match_inv ?k" by (rule match_set [OF k ch(1) _ x(2) kc]) (simp_all add: Some ci)
    moreover have "fresh_inv ?k" using kinvD(8) [OF k] ch j by (auto simp: fresh_inv_def kc)
    ultimately show ?thesis by blast
  qed
  then show "link_inv ?k" "back_inv ?k" "match_inv ?k" "form_inv ?k" "fresh_inv ?k" by blast+
qed

lemma kinv_held:
  assumes "kinv X k" "H \<subseteq> k_held k \<union> {j. k_job k j = Some Running}"
  shows "kinv X (k\<lparr>k_held := H\<rparr>)"
  using assms unfolding kinv_def inv_defs by auto

lemma settled_step:
  assumes "st1 = st \<and> i \<in> D \<or> st1 = st(i \<mapsto> LCancelled) \<and> (i \<in> D \<longrightarrow> \<not> terminal_at st i)" "settled cs D st1 st2"
  shows "settled (i # cs) D st st2"
proof -
  have c: "terminal_at st1 i" if "st1 i = Some LCancelled" using that by (simp add: terminal_at_def)
  show ?thesis
    unfolding settled_def
  proof (intro conjI allI impI ballI)
    fix m assume "m \<notin> set (i # cs)"
    then show "st2 m = st m" using assms by (auto simp: settled_def)
  next
    fix m assume m: "m \<in> set (i # cs)"
    have t: "terminal_at st1 m = terminal_at st m" if "m \<noteq> i" using assms(1) that by (auto simp: terminal_at_def)
    show "if m \<in> D then st2 m = st m \<or> \<not> terminal_at st m \<and> st2 m = Some LCancelled else st2 m = Some LCancelled"
    proof (cases "m = i")
      case True
      then show ?thesis using settled_cases [OF assms(2), of m] assms(1) c by auto
    next
      case False
      then show ?thesis using m assms t unfolding settled_def by (auto split: if_splits)
    qed
  qed
qed

definition only_status :: "chain_state \<Rightarrow> chain_state \<Rightarrow> bool" where
  "only_status ch ch1 \<longleftrightarrow> ch1 = ch\<lparr>ch_leaf_status := ch_leaf_status ch1\<rparr>"

lemma only_statusD:
  assumes "only_status ch ch1"
  shows "ch_node ch1 = ch_node ch" "ch_leaf_jobs ch1 = ch_leaf_jobs ch" "ch_process ch1 = ch_process ch"
    "ch_scope_enabled ch1 = ch_scope_enabled ch" "ch_session_id ch1 = ch_session_id ch"
  by (subst assms [unfolded only_status_def], simp)+

lemma only_status_refl [simp]: "only_status ch ch" by (simp add: only_status_def)

lemma only_status_leaf [simp]: "only_status ch (set_leaf_status i l ch)" by (simp add: only_status_def set_leaf_status_def)

lemma only_status_trans: "only_status a b \<Longrightarrow> only_status b c \<Longrightarrow> only_status a c"
  unfolding only_status_def by (metis chain_state.surjective chain_state.update_convs(3))

section \<open>The end of a job and the cancellation of leaves\<close>

lemma core_sel:
  "k_job (core_of h w) j = map_option je_status (map_of (s_jobs (w_state w)) j)"
  "k_chain (core_of h w) = map_of (s_chains (w_state w))" "k_link (core_of h w) = map_of (s_job_to_chain (w_state w))"
  "k_next (core_of h w) = s_next_job (w_state w)" "k_next_chain (core_of h w) = s_next_chain (w_state w)"
  "k_queue (core_of h w) = s_pending_resource_jobs (w_state w)" "k_held (core_of h w) = h (w_res w)"
  "k_pend (core_of h w) = dom (map_of (s_pending_resource (w_state w)))"
  "k_wait (core_of h w) = dom (map_of (s_job_waiters (w_state w)))"
  by (simp_all add: core_of_def)

lemma k_put_same: "k_job k j = Some x \<Longrightarrow> k_put j x k = k"
  by (simp add: k_put_def fun_upd_idem)

lemma chain_transition_some:
  assumes "map_of (s_chains s) c = Some ch"
  shows "\<exists>a. chain_transition_of c i es s = Some a \<and> ca_chain_id a = c \<and>
    map fst (ca_newly_ready a) = ready_after (ch_node ch) 0 i (ch_st ch) \<and> ca_to_cancel a = cancel_after (ch_node ch) 0 i (ch_st ch)"
  using assms by (cases es) (auto simp: chain_transition_of_def or_else_def Let_def comp_def)

lemma core_cancel_process [simp]: "core_of h (snd (cancel_process_job v j w)) = core_of h w"
  by (simp add: cancel_process_job_def kill_process_job_def split: option.splits sum.splits)

context resource_manager
begin

lemma set_terminal_dead:
  assumes "set_job_terminal_state ops v j u w = (t, w1)" "\<And>x. k_job (core_of held w) j = Some x \<Longrightarrow> job_is_terminal x"
  shows "core_of held w1 = core_of held w" and "to_chain_advance t = None"
proof -
  have "core_of held w1 = core_of held w \<and> to_chain_advance t = None"
  proof (cases "map_of (s_jobs (w_state w)) j")
    case None
    then show ?thesis using assms(1) by (auto simp: set_job_terminal_state_def no_advance_def)
  next
    case (Some e)
    then have x: "k_job (core_of held w) j = Some (je_status e)" by (simp add: core_sel)
    then show ?thesis
      using assms Some k_put_same [OF x]
      by (auto simp: set_job_terminal_state_def end_of_terminal_job_def no_advance_def Let_def split: if_splits option.splits)
  qed
  then show "core_of held w1 = core_of held w" "to_chain_advance t = None" by simp_all
qed

lemma set_terminal_live:
  assumes "set_job_terminal_state ops v j u w = (t, w1)" "k_job (core_of held w) j = Some x" "\<not> job_is_terminal x"
    "job_is_terminal (tu_status u)"
  shows "core_of held w1 = k_finish j (tu_status u) (job_leaf_status (tu_status u) (tu_exit_code u)) (core_of held w)"
    and "\<not> tu_advance_chain u \<or> k_link (core_of held w) j = None \<Longrightarrow> to_chain_advance t = None"
    and "tu_advance_chain u \<Longrightarrow> k_link (core_of held w) j = Some (c, i) \<Longrightarrow> k_chain (core_of held w) c = Some ch \<Longrightarrow>
      \<exists>a. to_chain_advance t = Some a \<and> ca_chain_id a = c \<and>
        map fst (ca_newly_ready a) = ready_after (ch_node ch) 0 i ((ch_st ch)(i \<mapsto> job_leaf_status (tu_status u) (tu_exit_code u))) \<and>
        ca_to_cancel a = cancel_after (ch_node ch) 0 i ((ch_st ch)(i \<mapsto> job_leaf_status (tu_status u) (tu_exit_code u)))"
proof -
  let ?l = "job_leaf_status (tu_status u) (tu_exit_code u)"
  obtain e where e: "map_of (s_jobs (w_state w)) j = Some e" "\<not> job_is_terminal (je_status e)"
    using assms(2,3) by (auto simp: core_sel)
  then have f: "finish_job ops v j e u w = (t, w1)" using assms(1) by (simp add: set_job_terminal_state_def)
  show core: "core_of held w1 = k_finish j (tu_status u) ?l (core_of held w)" by (rule finish_core(1) [OF assms(4) f])
  obtain es where t: "to_chain_advance t = (case k_link (core_of held w) j of None \<Rightarrow> None
      | Some (c, i) \<Rightarrow> if tu_advance_chain u then chain_transition_of c i es (w_state w1) else None)"
    using finish_core(2) [OF assms(4) f] by blast
  then show "to_chain_advance t = None" if "\<not> tu_advance_chain u \<or> k_link (core_of held w) j = None"
    using that by (auto split: option.splits)
  assume a: "tu_advance_chain u" "k_link (core_of held w) j = Some (c, i)" "k_chain (core_of held w) c = Some ch"
  have "k_chain (core_of held w1) c = Some (set_leaf_status i ?l ch)"
    using a core by (simp add: k_finish_def k_chain_leaf)
  then have "map_of (s_chains (w_state w1)) c = Some (set_leaf_status i ?l ch)" by (simp add: core_sel)
  from chain_transition_some [OF this, of i es] show "\<exists>a. to_chain_advance t = Some a \<and> ca_chain_id a = c \<and>
      map fst (ca_newly_ready a) = ready_after (ch_node ch) 0 i ((ch_st ch)(i \<mapsto> ?l)) \<and>
      ca_to_cancel a = cancel_after (ch_node ch) 0 i ((ch_st ch)(i \<mapsto> ?l))"
    using t a by (simp del: fun_upd_apply)
qed

lemma cancel_one:
  assumes k: "kinv {} (core_of held w)" and ch: "k_chain (core_of held w) c = Some ch" and j: "ch_lj ch i = Some j"
    and s: "set_job_terminal_state ops v j cancel_update w = (t, w1)"
  shows "\<exists>ch1. k_chain (core_of held w1) = (k_chain (core_of held w))(c \<mapsto> ch1) \<and> only_status ch ch1 \<and>
    (ch_st ch1 = ch_st ch \<or> ch_st ch1 = (ch_st ch)(i \<mapsto> LCancelled) \<and> \<not> terminal_at (ch_st ch) i) \<and>
    kinv {} (core_of held w1) \<and> k_next (core_of held w1) = k_next (core_of held w)"
proof (cases "\<exists>x. k_job (core_of held w) j = Some x \<and> \<not> job_is_terminal x")
  case True
  then obtain x where x: "k_job (core_of held w) j = Some x" "\<not> job_is_terminal x" by blast
  note link = linkD [OF k ch j] and nt = live_leaf [OF k ch j x]
  have core: "core_of held w1 = k_finish j (Cancelled ChainAborted) LCancelled (core_of held w)"
    using set_terminal_live(1) [OF s x] by (simp add: cancel_update_def job_leaf_status_def)
  have "kinv {} (core_of held w1)"
    using kinv_finish [OF k x(1), of "Cancelled ChainAborted" LCancelled] core by (simp add: leaf_matches_def job_leaf_status_def)
  then show ?thesis using k_chain_finish [OF k link ch] nt core by (intro exI [of _ "set_leaf_status i LCancelled ch"]) simp
next
  case False
  then have "core_of held w1 = core_of held w" using set_terminal_dead(1) [OF s] by blast
  then show ?thesis using k ch by (intro exI [of _ ch]) (simp add: fun_upd_idem)
qed

lemma cancel_leaves:
  assumes "kinv {} (core_of held w)" "k_chain (core_of held w) c = Some ch" "cancel_chain_leaves ops v c cs w = (e, w1)"
  shows "\<exists>ch1. k_chain (core_of held w1) = (k_chain (core_of held w))(c \<mapsto> ch1) \<and> only_status ch ch1 \<and>
    settled cs (ch_D ch) (ch_st ch) (ch_st ch1) \<and> kinv {} (core_of held w1) \<and> k_next (core_of held w1) = k_next (core_of held w)"
  using assms
proof (induction cs arbitrary: w ch e)
  case Nil
  then show ?case by (intro exI [of _ ch]) (auto simp: fun_upd_idem settled_def)
next
  case (Cons i cs)
  let ?k = "core_of held w"
  have "\<exists>w2 ch2 e2. cancel_chain_leaves ops v c cs w2 = (e2, w1) \<and> k_chain (core_of held w2) = (k_chain ?k)(c \<mapsto> ch2) \<and>
      only_status ch ch2 \<and> (ch_st ch2 = ch_st ch \<and> i \<in> ch_D ch \<or>
        ch_st ch2 = (ch_st ch)(i \<mapsto> LCancelled) \<and> (i \<in> ch_D ch \<longrightarrow> \<not> terminal_at (ch_st ch) i)) \<and>
      kinv {} (core_of held w2) \<and> k_next (core_of held w2) = k_next ?k"
  proof (cases "ch_lj ch i")
    case None
    have "kinv {} (k_leaf c i LCancelled ?k)" by (rule kinv_leaf [OF Cons.prems(1,2)]) (use None in auto)
    moreover have "cancel_chain_leaves ops v c cs (on_state (update_leaf c i LCancelled) w) = (e, w1)"
      using Cons.prems(2,3) None by (simp add: core_sel)
    ultimately show ?thesis
      using None Cons.prems(2)
      by (intro exI [of _ "on_state (update_leaf c i LCancelled) w"] exI [of _ "set_leaf_status i LCancelled ch"] exI [of _ e])
        (auto simp: k_chain_leaf)
  next
    case (Some j)
    have iD: "i \<in> ch_D ch" using Some by blast
    obtain err w' where p: "(if map_option je_status (map_of (s_jobs (w_state w)) j) = Some Running
        then cancel_process_job v j w else (None, w)) = (err, w')"
      by (cases "if map_option je_status (map_of (s_jobs (w_state w)) j) = Some Running then cancel_process_job v j w else (None, w)")
    have pc: "core_of held w' = ?k"
      using arg_cong [OF p, of "\<lambda>q. core_of held (snd q)"] by (auto split: if_splits)
    have bind: "Option.bind (map_of (s_chains (w_state w)) c) (\<lambda>ch. ch_lj ch i) = Some j"
      using Cons.prems(2) Some by (simp add: core_sel)
    have eq: "cancel_chain_leaves ops v c (i # cs) w =
      (case err of Some _ \<Rightarrow> cancel_chain_leaves ops v c cs w'
       | None \<Rightarrow> let (t, w2) = set_job_terminal_state ops v j cancel_update w';
                     (e, w3) = cancel_chain_leaves ops v c cs w2 in (or_else (to_persist_error t) e, w3))"
      unfolding cancel_chain_leaves.simps bind Let_def option.case p prod.case by (rule refl)
    show ?thesis
    proof (cases err)
      case (Some msg)
      then have "cancel_chain_leaves ops v c cs w' = (e, w1)" using Cons.prems(3) eq by simp
      then show ?thesis using pc iD Cons.prems(1,2)
        by (intro exI [of _ w'] exI [of _ ch] exI [of _ e]) (auto simp: fun_upd_idem)
    next
      case None
      obtain t w2 where s: "set_job_terminal_state ops v j cancel_update w' = (t, w2)"
        by (cases "set_job_terminal_state ops v j cancel_update w'")
      obtain e2 where c: "cancel_chain_leaves ops v c cs w2 = (e2, w1)"
        using Cons.prems(3) eq None s by (auto split: prod.splits)
      show ?thesis
        using cancel_one [of w', OF _ _ \<open>ch_lj ch i = Some j\<close> s] Cons.prems(1,2) c iD unfolding pc by blast
    qed
  qed
  then obtain w2 ch2 e2 where m: "cancel_chain_leaves ops v c cs w2 = (e2, w1)" "k_chain (core_of held w2) = (k_chain ?k)(c \<mapsto> ch2)"
      "only_status ch ch2" "ch_st ch2 = ch_st ch \<and> i \<in> ch_D ch \<or>
        ch_st ch2 = (ch_st ch)(i \<mapsto> LCancelled) \<and> (i \<in> ch_D ch \<longrightarrow> \<not> terminal_at (ch_st ch) i)"
      "kinv {} (core_of held w2)" "k_next (core_of held w2) = k_next ?k" by blast
  have "k_chain (core_of held w2) c = Some ch2" using m(2) by simp
  from Cons.IH [OF m(5) this m(1)] obtain ch1 where ih: "k_chain (core_of held w1) = (k_chain (core_of held w2))(c \<mapsto> ch1)"
      "only_status ch2 ch1" "settled cs (ch_D ch2) (ch_st ch2) (ch_st ch1)" "kinv {} (core_of held w1)"
      "k_next (core_of held w1) = k_next (core_of held w2)" by blast
  have "settled (i # cs) (ch_D ch) (ch_st ch) (ch_st ch1)"
    by (rule settled_step [OF m(4)]) (use ih(3) only_statusD(2) [OF m(3)] in simp)
  then show ?case using m ih only_status_trans [OF m(3) ih(2)] by (intro exI [of _ ch1]) simp
qed

end

end
