(* ===== verification/ExecAdvance.thy ===== *)
theory ExecAdvance
  imports ExecInv
begin

text \<open>
  Advancing a chain: every leaf taken from the work queue is ready and has no job, the queue runs dry
  after at most one round per leaf, and the invariant holds again when the chain has been advanced or
  completed.
\<close>

section \<open>Scope transforms stay outside parallel operators\<close>

lemma plan_no_transform:
  "scope_transform_from_job_plan p = Inr None \<Longrightarrow> scope_transform_from_command (first_command p) = Inr None"
proof (induction p)
  case (PipelinePlan p)
  then show ?case
    by (cases "segments p") (auto simp: scope_transform_from_pipeline_def scope_transform_from_command_def
        split: sum.splits option.splits if_splits)
qed (auto simp: and_then_def split: sum.splits if_splits)

lemma subtree_without_transform:
  "subtree_contains_scope_transform n = Inr False \<Longrightarrow> p \<in> set (leaf_plans n) \<Longrightarrow> scope_transform_from_job_plan p = Inr None"
proof (induction n)
  case (Leaf q)
  then show ?case by (cases "scope_transform_from_job_plan q") auto
qed (auto simp: and_then_def split: sum.splits if_splits)

lemma transform_serial:
  "validate_scope_transform_support n = Inr () \<Longrightarrow> i < leaf_count n \<Longrightarrow>
   scope_transform_from_command (first_command (leaf_plans n ! i)) = Inr (Some t) \<Longrightarrow> serial_only n off (off + i)"
proof (induction n arbitrary: i off)
  case (Serial l op r)
  have v: "validate_scope_transform_support l = Inr ()" "validate_scope_transform_support r = Inr ()"
    using Serial.prems(1) by (auto simp: and_then_def split: sum.splits)
  show ?case
  proof (cases "i < leaf_count l")
    case True
    then show ?thesis using Serial.IH(1) [OF v(1) True] Serial.prems(3) by (simp add: nth_append)
  next
    case False
    then have "serial_only r (off + leaf_count l) (off + leaf_count l + (i - leaf_count l))"
      using Serial.prems(2,3) by (intro Serial.IH(2) [OF v(2)]) (simp_all add: nth_append)
    then show ?thesis using False by simp
  qed
next
  case (Parallel l op r)
  have "subtree_contains_scope_transform l = Inr False" "subtree_contains_scope_transform r = Inr False"
    using Parallel.prems(1) by (auto simp: and_then_def split: sum.splits if_splits)
  moreover have "leaf_plans (Parallel l op r) ! i \<in> set (leaf_plans l) \<union> set (leaf_plans r)"
    using Parallel.prems(2) nth_mem [of i "leaf_plans (Parallel l op r)"] by simp
  ultimately have "scope_transform_from_job_plan (leaf_plans (Parallel l op r) ! i) = Inr None"
    using subtree_without_transform by blast
  then show ?case using plan_no_transform Parallel.prems(3) by fastforce
qed simp

lemma nth_flatten: "i < leaf_count n \<Longrightarrow> \<exists>leaf. nth_opt (flatten_leaves n) i = Some leaf \<and> fl_plan leaf = leaf_plans n ! i"
  by (simp add: nth_opt_def flatten_leaves_eq number_leaves_def)

section \<open>Entering a leaf\<close>

definition k_enter :: "chain_id \<Rightarrow> nat \<Rightarrow> chain_state \<Rightarrow> core \<Rightarrow> core" where
  "k_enter c i ch k =
     (let j = JobId (k_next k) in
      k\<lparr>k_job := (k_job k)(j \<mapsto> Running), k_link := (k_link k)(j \<mapsto> (c, i)),
        k_chain := (k_chain k)(c \<mapsto> set_leaf_status i LRunning (ch\<lparr>ch_leaf_jobs := AList.update i j (ch_leaf_jobs ch)\<rparr>)),
        k_next := k_next k + 1\<rparr>)"

lemma core_next: "core_of h (w\<lparr>w_state := (w_state w)\<lparr>s_next_job := n\<rparr>\<rparr>) = (core_of h w)\<lparr>k_next := n\<rparr>"
  by (simp add: core_of_def)

lemma core_enter:
  assumes "alloc_job (w_state w) = (j, s1)"
  shows "core_of h (enter_leaf cx c ch j i leaf start (w\<lparr>w_state := s1\<rparr>)) = k_enter c i ch (core_of h w)"
  using assms unfolding enter_leaf_def core_publish
  by (auto simp: k_enter_def core_of_def on_state_def put_job_def put_chain_def leaf_entry_def alloc_job_def
      AList.update_conv' Let_def fun_eq_iff)

lemma word_next_less:
  assumes "unat (n :: u32) + 1 < 2 ^ 32"
  shows "n < n + 1" and "m < n \<Longrightarrow> m < n + 1"
proof -
  have u: "unat (n + 1) = unat n + 1" using assms by (simp add: unat_word_ariths unat_of_nat)
  then show "n < n + 1" by (simp add: word_less_nat_alt)
  show "m < n + 1" if "m < n" using that u by (simp add: word_less_nat_alt)
qed

lemma fresh_job:
  assumes "kinv X k"
  shows "k_job k (JobId (k_next k)) = None" "k_link k (JobId (k_next k)) = None" "JobId (k_next k) \<notin> k_held k"
    "JobId (k_next k) \<notin> k_wait k" "JobId (k_next k) \<notin> k_pend k"
proof -
  have "\<not> (k_job k (JobId (k_next k)) \<noteq> None \<or> k_link k (JobId (k_next k)) \<noteq> None)"
    using kinvD(8) [OF assms] by (auto simp: fresh_inv_def)
  then show a: "k_job k (JobId (k_next k)) = None" and "k_link k (JobId (k_next k)) = None" by blast+
  show "JobId (k_next k) \<notin> k_held k" "JobId (k_next k) \<notin> k_wait k" "JobId (k_next k) \<notin> k_pend k"
    using a kinvD(5-7) [OF assms] by (force simp: held_inv_def wait_inv_def pend_inv_def)+
qed

lemma kinv_enter:
  assumes k: "kinv X k" and room: "unat (k_next k) + 1 < 2 ^ 32" and ch: "k_chain k c = Some ch" and i: "i \<notin> ch_D ch"
  shows "kinv X (k_enter c i ch k)"
proof (rule kinvI)
  let ?j = "JobId (k_next k)" and ?k = "k_enter c i ch k"
  define ch1 where "ch1 = set_leaf_status i LRunning (ch\<lparr>ch_leaf_jobs := AList.update i ?j (ch_leaf_jobs ch)\<rparr>)"
  have ch1: "ch_lj ch1 = (ch_lj ch)(i \<mapsto> ?j)" "ch_st ch1 = (ch_st ch)(i \<mapsto> LRunning)" "ch_node ch1 = ch_node ch"
      "ch_scope_enabled ch1 = ch_scope_enabled ch" "distinct (map fst (ch_leaf_jobs ch)) \<Longrightarrow> distinct (map fst (ch_leaf_jobs ch1))"
    by (simp_all add: ch1_def AList.update_conv' distinct_update)
  have sel: "k_job ?k = (k_job k)(?j \<mapsto> Running)" "k_link ?k = (k_link k)(?j \<mapsto> (c, i))" "k_chain ?k = (k_chain k)(c \<mapsto> ch1)"
      "k_held ?k = k_held k" "k_wait ?k = k_wait k" "k_pend ?k = k_pend k" "k_queue ?k = k_queue k" "k_next ?k = k_next k + 1"
      "k_next_chain ?k = k_next_chain k"
    by (simp_all add: k_enter_def Let_def ch1_def)
  note fresh = fresh_job [OF k]
  have link: "k_link k j' = Some (c', i')" if "k_chain k c' = Some ch'" "ch_lj ch' i' = Some j'" for c' ch' i' j'
    using kinvD(1) [OF k] that by (auto simp: link_inv_def)
  show "link_inv ?k"
    unfolding link_inv_def sel
  proof (intro allI impI)
    fix c' ch' i' j' assume a: "((k_chain k)(c \<mapsto> ch1)) c' = Some ch'" "ch_lj ch' i' = Some j'"
    show "((k_link k)(?j \<mapsto> (c, i))) j' = Some (c', i')"
    proof (cases "c' = c \<and> i' = i")
      case True
      then show ?thesis using a ch1(1) by auto
    next
      case False
      then have "\<exists>ch0. k_chain k c' = Some ch0 \<and> ch_lj ch0 i' = Some j'" using a ch ch1(1) by (cases "c' = c") auto
      then have l: "k_link k j' = Some (c', i')" using link by blast
      then have "j' \<noteq> ?j" using fresh(2) by auto
      then show ?thesis using l by simp
    qed
  qed
  show "back_inv ?k"
    unfolding back_inv_def sel
  proof (intro allI impI)
    fix j' c' i' assume a: "((k_link k)(?j \<mapsto> (c, i))) j' = Some (c', i')"
    show "\<exists>ch'. ((k_chain k)(c \<mapsto> ch1)) c' = Some ch' \<and> ch_lj ch' i' = Some j'"
    proof (cases "j' = ?j")
      case True
      then show ?thesis using a ch1(1) by auto
    next
      case False
      then obtain ch' where b: "k_chain k c' = Some ch'" "ch_lj ch' i' = Some j'"
        using a backD [OF k, of j' c' i'] by auto
      then show ?thesis using ch ch1(1) i by (cases "c' = c") auto
    qed
  qed
  show "match_inv ?k"
    unfolding match_inv_def sel
  proof (intro allI impI)
    fix j' c' i' ch' assume a: "((k_link k)(?j \<mapsto> (c, i))) j' = Some (c', i')" "((k_chain k)(c \<mapsto> ch1)) c' = Some ch'"
    show "\<exists>l. ch_st ch' i' = Some l \<and> leaf_matches (((k_job k)(?j \<mapsto> Running)) j') l"
    proof (cases "j' = ?j")
      case True
      then show ?thesis using a ch1(2) by (auto simp: leaf_matches_def job_leaf_status_def)
    next
      case False
      then have l: "k_link k j' = Some (c', i')" using a(1) by simp
      then obtain ch0 where b: "k_chain k c' = Some ch0" "ch_lj ch0 i' = Some j'"
        using backD [OF k] by blast
      have "ch_st ch' i' = ch_st ch0 i'" using a(2) b ch ch1(2) i by (cases "c' = c") auto
      then show ?thesis using kinvD(3) [OF k] l b(1) False by (auto simp: match_inv_def)
    qed
  qed
  show "form_inv ?k" using kinvD(4) [OF k] ch ch1 by (auto simp: form_inv_def sel)
  show "held_inv ?k" using kinvD(5) [OF k] by (auto simp: held_inv_def sel)
  show "wait_inv ?k" using kinvD(6) [OF k] fresh(4) by (auto simp: wait_inv_def sel)
  show "pend_inv X ?k" using kinvD(7) [OF k] fresh(1) by (auto simp: pend_inv_def sel)
  show "fresh_inv ?k" using kinvD(8) [OF k] word_next_less [OF room] ch by (auto simp: fresh_inv_def sel)
qed

text \<open>A chain with a work queue.\<close>

definition adv_ok :: "chain_id \<Rightarrow> chain_state \<Rightarrow> work_queue \<Rightarrow> core \<Rightarrow> bool" where
  "adv_ok c ch wq k \<longleftrightarrow> kinv {} k \<and> chains_ok {} k \<and> k_chain k c = Some ch \<and>
     queue_ok (ch_node ch) (ch_st ch) (ch_D ch) (map fst wq)"

lemma adv_ok_enter:
  assumes a: "adv_ok c ch ((i, sc) # wq) k" and room: "unat (k_next k) + 1 < 2 ^ 32"
  defines "ch1 \<equiv> set_leaf_status i LRunning (ch\<lparr>ch_leaf_jobs := AList.update i (JobId (k_next k)) (ch_leaf_jobs ch)\<rparr>)"
  shows "adv_ok c ch1 wq (k_enter c i ch k)" and "ch_D ch1 = insert i (ch_D ch)" and "ch_lj ch1 i = Some (JobId (k_next k))"
    and "k_job (k_enter c i ch k) (JobId (k_next k)) = Some Running" and "k_next (k_enter c i ch k) = k_next k + 1"
proof -
  have k: "kinv {} k" "chains_ok {} k" "k_chain k c = Some ch" and q: "queue_ok (ch_node ch) (ch_st ch) (ch_D ch) (i # map fst wq)"
    using a by (simp_all add: adv_ok_def)
  have sel: "ch_node ch1 = ch_node ch" "ch_st ch1 = (ch_st ch)(i \<mapsto> LRunning)" and lj: "ch_lj ch1 = (ch_lj ch)(i \<mapsto> JobId (k_next k))"
    by (simp_all add: ch1_def AList.update_conv')
  have kc: "k_chain (k_enter c i ch k) = (k_chain k)(c \<mapsto> ch1)" by (simp add: k_enter_def Let_def ch1_def)
  show D: "ch_D ch1 = insert i (ch_D ch)" using lj by auto
  have ok: "chain_ok (ch_node ch) ((ch_st ch)(i \<mapsto> LRunning)) (insert i (ch_D ch)) \<and>
      queue_ok (ch_node ch) ((ch_st ch)(i \<mapsto> LRunning)) (insert i (ch_D ch)) (map fst wq)"
    by (rule chain_ok_enter [OF chains_okD [OF k(2,3)] q]) simp
  have i: "i \<notin> ch_D ch" using q by (simp add: queue_ok_def)
  have "chains_ok {} (k_enter c i ch k)"
    using chains_ok_upd [OF k(2) kc] ok unfolding sel D by simp
  then show "adv_ok c ch1 wq (k_enter c i ch k)"
    using kinv_enter [OF k(1) room k(3) i] ok kc unfolding adv_ok_def sel D by simp
  show "ch_lj ch1 i = Some (JobId (k_next k))" using lj by simp
  show "k_job (k_enter c i ch k) (JobId (k_next k)) = Some Running" "k_next (k_enter c i ch k) = k_next k + 1"
    by (simp_all add: k_enter_def Let_def)
qed

lemma adv_ok_held:
  assumes "adv_ok c ch wq k" "H \<subseteq> k_held k \<union> {j. k_job k j = Some Running}"
  shows "adv_ok c ch wq (k\<lparr>k_held := H\<rparr>)"
  using assms kinv_held [of "{}" k H] by (auto simp: adv_ok_def chains_ok_def)

lemma kinv_wait_res:
  assumes k: "kinv {} k" and j: "k_job k j = Some Running" "j \<notin> k_held k"
    and ci: "k_link k j = Some (c, i)" "k_chain k c = Some ch"
  shows "kinv {} (k_wait_res j (k_put j Pending (k_leaf c i LPending k)))"
proof (rule kinvI)
  let ?k = "k_wait_res j (k_put j Pending (k_leaf c i LPending k))"
  have q: "j \<notin> set (k_queue k)" using kinvD(7) [OF k] j(1) by (simp add: pend_inv_def)
  then have q': "k_queue ?k = k_queue k @ [j]" by (simp add: k_wait_res_def)
  have kc: "k_chain ?k = (k_chain k)(c \<mapsto> set_leaf_status i LPending ch)" using ci(2) by (simp add: k_chain_leaf)
  show "link_inv ?k" "back_inv ?k" "form_inv ?k" using leaf_struct [OF k ci(2) kc] by simp_all
  show "match_inv ?k"
    by (rule match_set [OF k ci(2,1) _ kc, of Pending]) (simp_all add: leaf_matches_def job_leaf_status_def)
  show "held_inv ?k" using kinvD(5) [OF k] j(2) by (auto simp: held_inv_def)
  show "wait_inv ?k" using kinvD(6) [OF k] by (auto simp: wait_inv_def)
  show "pend_inv {} ?k" using kinvD(7) [OF k] q j(1) unfolding pend_inv_def q' by auto
  show "fresh_inv ?k" using kinvD(8) [OF k] j(1) ci(2) unfolding fresh_inv_def kc by auto
qed

text \<open>A leaf with a running job whose chain leaf is set back to pending.\<close>

lemma adv_ok_park:
  assumes a: "adv_ok c ch wq k" and i: "ch_lj ch i = Some j" and j: "k_job k j = Some Running" "j \<notin> k_held k"
  shows "\<exists>ch2. adv_ok c ch2 wq (k_wait_res j (k_put j Pending (k_leaf c i LPending k))) \<and> only_status ch ch2"
proof -
  let ?ch = "set_leaf_status i LPending ch" and ?k1 = "k_leaf c i LPending k"
  have k: "kinv {} k" "chains_ok {} k" "k_chain k c = Some ch" and q: "queue_ok (ch_node ch) (ch_st ch) (ch_D ch) (map fst wq)"
    using a by (simp_all add: adv_ok_def)
  note link = linkD [OF k(1,3) i]
  have nt: "\<not> terminal_at (ch_st ch) i" using live_leaf [OF k(1,3) i j(1)] by simp
  have iD: "i \<in> ch_D ch" using i by blast
  have kc: "k_chain ?k1 = (k_chain k)(c \<mapsto> ?ch)" using k(3) by (simp add: k_chain_leaf)
  have ok: "chain_ok (ch_node ch) ((ch_st ch)(i \<mapsto> LPending)) (ch_D ch)"
      "queue_ok (ch_node ch) ((ch_st ch)(i \<mapsto> LPending)) (ch_D ch) (map fst wq)"
    using chain_ok_park [OF chains_okD [OF k(2,3)] iD nt, of LPending] q by simp_all
  have "chains_ok {} (k_wait_res j (k_put j Pending ?k1))"
    by (rule chains_ok_upd [OF k(2), of _ c ?ch]) (use kc ok in simp_all)
  moreover have "kinv {} (k_wait_res j (k_put j Pending ?k1))"
    by (rule kinv_wait_res [OF k(1) j link k(3)])
  ultimately show ?thesis using ok kc unfolding adv_ok_def by (intro exI [of _ ?ch]) simp
qed

section \<open>Starting the leaves of the queue\<close>

lemma core_spawn_process [simp]: "core_of h (snd (spawn_process_job v j plan sc opts w)) = core_of h w"
  by (simp add: spawn_process_job_def split: option.splits)

definition context_of :: "chain_state \<Rightarrow> chain_context" where
  "context_of ch = \<lparr>cx_leaves = flatten_leaves (ch_node ch), cx_process = ch_process ch,
     cx_scope_enabled = ch_scope_enabled ch, cx_session_id = ch_session_id ch\<rparr>"

lemma context_only_status: "only_status ch ch1 \<Longrightarrow> context_of ch1 = context_of ch"
  by (simp add: context_of_def only_statusD)

context resource_manager
begin

lemma end_leaf_ok:
  assumes adv: "adv_ok c ch wq (core_of held w)" and i: "ch_lj ch i = Some j"
    and x: "k_job (core_of held w) j = Some x" "\<not> job_is_terminal x" and u: "job_is_terminal (tu_status u)" "tu_advance_chain u"
    and safe: "job_leaf_status (tu_status u) (tu_exit_code u) \<noteq> LDone 0 \<or> serial_only (ch_node ch) 0 i"
    and e: "end_leaf ops v c j u oc wq w = (oc2, wq2, w2)"
  shows "\<exists>ch2. adv_ok c ch2 wq2 (core_of held w2) \<and> only_status ch ch2 \<and> k_next (core_of held w2) = k_next (core_of held w)"
proof -
  let ?k = "core_of held w" and ?l = "job_leaf_status (tu_status u) (tu_exit_code u)"
  let ?st1 = "(ch_st ch)(i \<mapsto> ?l)" and ?n = "ch_node ch"
  have k: "kinv {} ?k" "chains_ok {} ?k" "k_chain ?k c = Some ch" and q: "queue_ok ?n (ch_st ch) (ch_D ch) (map fst wq)"
    using adv by (simp_all add: adv_ok_def)
  obtain t w1 where s: "set_job_terminal_state ops v j u w = (t, w1)" by (cases "set_job_terminal_state ops v j u w")
  note link = linkD [OF k(1,3) i] and nt = live_leaf [OF k(1,3) i x]
  note live = set_terminal_live [OF s x u(1)]
  obtain a where a: "to_chain_advance t = Some a" "map fst (ca_newly_ready a) = ready_after ?n 0 i ?st1"
      "ca_to_cancel a = cancel_after ?n 0 i ?st1"
    using live(3) [OF u(2) link k(3)] by blast
  obtain e2 where c: "cancel_chain_leaves ops v c (ca_to_cancel a) w1 = (e2, w2)" and wq2: "wq2 = wq @ ca_newly_ready a"
    using e s a(1) by (auto simp: end_leaf_def apply_terminal_chain_advance_def Let_def split: prod.splits)
  have kc1: "k_chain (core_of held w1) = (k_chain ?k)(c \<mapsto> set_leaf_status i ?l ch)"
    using live(1) k_chain_finish [OF k(1) link k(3)] by simp
  have k1: "kinv {} (core_of held w1)" using kinv_finish [OF k(1) x(1) u(1) matches_self] live(1) by simp
  obtain ch2 where ch2: "k_chain (core_of held w2) = (k_chain (core_of held w1))(c \<mapsto> ch2)" "only_status (set_leaf_status i ?l ch) ch2"
      "settled (ca_to_cancel a) (ch_D ch) ?st1 (ch_st ch2)" "kinv {} (core_of held w2)" "k_next (core_of held w2) = k_next (core_of held w1)"
    using cancel_leaves [OF k1 _ c, of "set_leaf_status i ?l ch"] kc1 by auto
  have same: "ch_node ch2 = ?n" "ch_leaf_jobs ch2 = ch_leaf_jobs ch" using only_statusD [OF ch2(2)] by simp_all
  have ok: "chain_ok ?n (ch_st ch2) (ch_D ch) \<and> queue_ok ?n (ch_st ch2) (ch_D ch) (map fst wq @ ready_after ?n 0 i ?st1)"
  proof (rule chain_ok_finish [OF chains_okD [OF k(2,3)] q _ nt _ _ refl])
    show "i \<in> ch_D ch" using i by blast
    show "map fst wq = [] \<or> ?l \<noteq> LDone 0 \<or> serial_only ?n 0 i" using safe by blast
    show "settled (cancel_after ?n 0 i ?st1) (ch_D ch) ?st1 (ch_st ch2)" using ch2(3) a(3) by simp
  qed (use u(1) in simp_all)
  have "chains_ok {} (core_of held w2)"
    by (rule chains_ok_upd [OF k(2), of _ c ch2]) (use ch2(1) kc1 ok same in simp_all)
  moreover have "only_status ch ch2" using only_status_trans [OF only_status_leaf ch2(2)] .
  ultimately show ?thesis
    using ch2(1,4,5) ok a(2) live(1) unfolding adv_ok_def wq2 by (intro exI [of _ ch2]) (simp add: same)
qed

lemma start_process_leaf_ok:
  assumes adv: "adv_ok c ch wq (core_of held w)" and i: "ch_lj ch i = Some j"
    and j: "k_job (core_of held w) j = Some Running" "j \<notin> k_held (core_of held w)"
    and e: "start_process_leaf ops v cx c j i leaf start oc wq w = (oc2, wq2, w2)"
  shows "\<exists>ch2. adv_ok c ch2 wq2 (core_of held w2) \<and> only_status ch ch2 \<and> k_next (core_of held w2) = k_next (core_of held w)"
proof -
  let ?k = "core_of held w" and ?needs = "lo_needs (pc_launch (cx_process cx))"
  obtain a w1 where ad: "admit ops v j start ?needs w = (a, w1)" by (cases "admit ops v j start ?needs w")
  obtain H where H: "core_of held w1 = ?k\<lparr>k_held := H\<rparr>" "H \<subseteq> insert j (k_held ?k)"
      "(\<forall>sc. a \<noteq> Inr (AdmissionGranted sc)) \<longrightarrow> H \<subseteq> k_held ?k"
    using admit_core [OF ad] by metis
  have adv1: "adv_ok c ch wq (core_of held w1)" and j1: "k_job (core_of held w1) j = Some Running"
    using adv_ok_held [OF adv, of H] H(1,2) j(1) by auto
  have next1: "k_next (core_of held w1) = k_next ?k" using H(1) by simp
  have fail: "?thesis" if "core_of held w3 = core_of held w1" "end_leaf ops v c j (failed_update sc) oc3 wq w3 = (oc2, wq2, w2)" for w3 sc oc3
  proof -
    have "\<exists>ch2. adv_ok c ch2 wq2 (core_of held w2) \<and> only_status ch ch2 \<and> k_next (core_of held w2) = k_next (core_of held w3)"
      by (rule end_leaf_ok [OF _ i _ _ _ _ _ that(2), of Running])
        (use adv1 j1 that(1) in \<open>simp_all add: failed_update_def job_leaf_status_def\<close>)
    then show ?thesis using that(1) next1 by simp
  qed
  consider (wait) reason where "a = Inr (AdmissionPending reason)" | (go) sc where "a = Inr (AdmissionGranted sc)" | (err) msg where "a = Inl msg"
    by (metis old.sum.exhaust resource_admission.exhaust)
  then show ?thesis
  proof cases
    case wait
    have "j \<notin> k_held (core_of held w1)" using H(1) H(3) j(2) wait by auto
    then obtain ch2 where "adv_ok c ch2 wq (k_wait_res j (k_put j Pending (k_leaf c i LPending (core_of held w1))))" "only_status ch ch2"
      using adv_ok_park [OF adv1 i j1] by blast
    moreover have "wq2 = wq" "core_of held w2 = k_wait_res j (k_put j Pending (k_leaf c i LPending (core_of held w1)))"
      using e ad wait j1 by (auto simp: start_process_leaf_def Let_def core_record_pending)
    ultimately show ?thesis using next1 by auto
  next
    case go
    let ?w3 = "on_state (\<lambda>s. case map_of (s_jobs s) j of None \<Rightarrow> s | Some e \<Rightarrow> put_job j (e\<lparr>je_start_scope := Some sc\<rparr>) s) w1"
    obtain r w4 where sp: "spawn_process_job v j (fl_plan leaf) sc (process_job_options_of (cx_process cx) (cx_session_id cx)) ?w3 = (r, w4)"
      by (cases "spawn_process_job v j (fl_plan leaf) sc (process_job_options_of (cx_process cx) (cx_session_id cx)) ?w3")
    have w4: "core_of held w4 = core_of held w1"
      using core_spawn_process [of held v j "fl_plan leaf" sc "process_job_options_of (cx_process cx) (cx_session_id cx)" ?w3] sp by simp
    show ?thesis
    proof (cases r)
      case None
      then have "wq2 = wq" "w2 = w4" using e ad go sp by (auto simp: start_process_leaf_def Let_def)
      then show ?thesis using adv1 w4 next1 by (intro exI [of _ ch]) simp
    next
      case (Some msg)
      then show ?thesis using e ad go sp fail [OF w4] by (simp add: start_process_leaf_def Let_def)
    qed
  next
    case err
    let ?w3 = "on_state (\<lambda>s. case map_of (s_jobs s) j of None \<Rightarrow> s | Some x \<Rightarrow> put_job j (x\<lparr>je_pending_reason := Some msg\<rparr>) s) w1"
    show ?thesis by (rule fail [of ?w3 start oc]) (use e ad err in \<open>simp_all add: start_process_leaf_def Let_def\<close>)
  qed
qed

lemma start_leaf_ok:
  assumes adv: "adv_ok c ch wq (core_of held w)" and i: "ch_lj ch i = Some j"
    and j: "k_job (core_of held w) j = Some Running" "j \<notin> k_held (core_of held w)"
    and leaf: "fl_plan leaf = leaf_plans (ch_node ch) ! i"
    and e: "start_leaf ops v (context_of ch) c j i leaf start oc wq w = (oc2, wq2, w2)"
  shows "\<exists>ch2. adv_ok c ch2 wq2 (core_of held w2) \<and> only_status ch ch2 \<and> k_next (core_of held w2) = k_next (core_of held w)"
proof -
  let ?r = "if ch_scope_enabled ch then scope_transform_from_command (flat_leaf_command leaf) else Inr None"
  have k: "kinv {} (core_of held w)" "chains_ok {} (core_of held w)" "k_chain (core_of held w) c = Some ch"
    using adv by (simp_all add: adv_ok_def)
  have il: "i < leaf_count (ch_node ch)" using chains_okD [OF k(2,3)] i by (auto simp: chain_ok_def)
  have fail: "?thesis" if "end_leaf ops v c j (failed_update sc) oc wq w = (oc2, wq2, w2)" for sc
    by (rule end_leaf_ok [OF adv i j(1) _ _ _ _ that]) (simp_all add: failed_update_def job_leaf_status_def)
  consider (bad) msg where "?r = Inl msg" | (plain) "?r = Inr None" | (move) t where "?r = Inr (Some t)"
    by (metis old.sum.exhaust option.exhaust)
  then show ?thesis
  proof cases
    case bad
    then show ?thesis using e fail [of start] by (simp add: start_leaf_def context_of_def)
  next
    case plain
    then show ?thesis using e start_process_leaf_ok [OF adv i j] by (simp add: start_leaf_def context_of_def)
  next
    case move
    then have en: "ch_scope_enabled ch" and tr: "scope_transform_from_command (first_command (leaf_plans (ch_node ch) ! i)) = Inr (Some t)"
      using leaf by (auto simp: flat_leaf_command_def split: if_splits)
    have ser: "serial_only (ch_node ch) 0 i"
      using transform_serial [OF _ il tr, of 0] kinvD(4) [OF k(1)] k(3) en by (auto simp: form_inv_def)
    show ?thesis
    proof (cases "apply_scope_transform v start (flat_leaf_command leaf)")
      case (Inl msg)
      then show ?thesis using e move fail [of start] by (simp add: start_leaf_def context_of_def)
    next
      case (Inr sc)
      then have "end_leaf ops v c j (done_update sc) oc wq w = (oc2, wq2, w2)" using e move by (simp add: start_leaf_def context_of_def)
      then show ?thesis by (rule end_leaf_ok [OF adv i j(1), rotated 4]) (simp_all add: done_update_def ser)
    qed
  qed
qed

lemma advance_loop_ok:
  assumes "adv_ok c ch wq (core_of held w)" "leaf_count (ch_node ch) \<le> card (ch_D ch) + fuel"
    "unat (k_next (core_of held w)) + (leaf_count (ch_node ch) - card (ch_D ch)) < 2 ^ 32" "cx = context_of ch"
  shows "\<exists>oc2 w2 ch2. advance_loop fuel ops v cx c capture oc wq w = Some (oc2, w2) \<and> adv_ok c ch2 [] (core_of held w2) \<and>
    ch_node ch2 = ch_node ch"
  using assms
proof (induction fuel arbitrary: ch wq w oc)
  case 0
  then have k: "chains_ok {} (core_of held w)" "k_chain (core_of held w) c = Some ch"
      and q: "queue_ok (ch_node ch) (ch_st ch) (ch_D ch) (map fst wq)" by (simp_all add: adv_ok_def)
  have sub: "ch_D ch \<subseteq> {..<leaf_count (ch_node ch)}" using chains_okD [OF k] by (auto simp: chain_ok_def)
  then have "ch_D ch = {..<leaf_count (ch_node ch)}" using 0(2) card_seteq [OF _ sub] by simp
  then have "wq = []" using q by (cases wq) (auto simp: queue_ok_def)
  then show ?case using 0 by auto
next
  case (Suc fuel)
  show ?case
  proof (cases wq)
    case Nil
    then show ?thesis using Suc.prems by auto
  next
    case (Cons p wq1)
    obtain i sc where p: "p = (i, sc)" by (cases p)
    let ?k = "core_of held w" and ?n = "ch_node ch"
    have adv: "adv_ok c ch ((i, sc) # wq1) ?k" using Suc.prems(1) Cons p by simp
    have k: "kinv {} ?k" "chains_ok {} ?k" "k_chain ?k c = Some ch" using adv by (simp_all add: adv_ok_def)
    have i: "i < leaf_count ?n" "i \<notin> ch_D ch" using adv by (auto simp: adv_ok_def queue_ok_def)
    have sub: "ch_D ch \<subseteq> {..<leaf_count ?n}" using chains_okD [OF k(2,3)] by (auto simp: chain_ok_def)
    have "card (ch_D ch) < leaf_count ?n" using psubset_card_mono [of "{..<leaf_count ?n}" "ch_D ch"] sub i by auto
    then have room: "unat (k_next ?k) + 1 < 2 ^ 32" using Suc.prems(3) by simp
    obtain j s1 where al: "alloc_job (w_state w) = (j, s1)" by (cases "alloc_job (w_state w)")
    have jk: "j = JobId (k_next ?k)" and s1: "map_of (s_chains s1) c = Some ch"
      using al k(3) by (auto simp: alloc_job_def core_sel)
    obtain leaf where leaf: "nth_opt (flatten_leaves ?n) i = Some leaf" "fl_plan leaf = leaf_plans ?n ! i"
      using nth_flatten [OF i(1)] by blast
    define ch1 where "ch1 = set_leaf_status i LRunning (ch\<lparr>ch_leaf_jobs := AList.update i j (ch_leaf_jobs ch)\<rparr>)"
    define w1 where "w1 = enter_leaf cx c ch j i leaf sc (w\<lparr>w_state := s1\<rparr>)"
    have core1: "core_of held w1 = k_enter c i ch ?k" unfolding w1_def by (rule core_enter [OF al])
    note en = adv_ok_enter [OF adv room, folded jk, folded ch1_def, folded core1]
    have h: "j \<notin> k_held (core_of held w1)" using fresh_job(3) [OF k(1)] by (simp add: core1 k_enter_def Let_def jk)
    define oc1 where "oc1 = (if length (ao_captured oc) < capture then oc\<lparr>ao_captured := ao_captured oc @ [j]\<rparr> else oc)"
    have cx: "cx = context_of ch1" "ch_node ch1 = ?n" using Suc.prems(4) by (simp_all add: context_of_def ch1_def)
    obtain oc2 wq2 w2 where st: "start_leaf ops v cx c j i leaf sc oc1 wq1 w1 = (oc2, wq2, w2)"
      by (cases "start_leaf ops v cx c j i leaf sc oc1 wq1 w1")
    have eq: "advance_loop (Suc fuel) ops v cx c capture oc wq w = advance_loop fuel ops v cx c capture oc2 wq2 w2"
      using st leaf(1) s1 al Suc.prems(4) unfolding Cons p oc1_def w1_def by (simp add: context_of_def Let_def)
    obtain ch2 where ch2: "adv_ok c ch2 wq2 (core_of held w2)" "only_status ch1 ch2" "k_next (core_of held w2) = k_next (core_of held w1)"
      using start_leaf_ok [OF en(1,3,4) h _ st [unfolded cx(1)]] leaf(2) cx(2) by auto
    have D: "ch_D ch2 = insert i (ch_D ch)" "ch_node ch2 = ?n" using only_statusD(1,2) [OF ch2(2)] en(2) cx(2) by simp_all
    have fin: "finite (ch_D ch)" using sub finite_subset by blast
    have "\<exists>oc3 w3 ch3. advance_loop fuel ops v cx c capture oc2 wq2 w2 = Some (oc3, w3) \<and> adv_ok c ch3 [] (core_of held w3) \<and>
        ch_node ch3 = ch_node ch2"
    proof (rule Suc.IH [OF ch2(1)])
      show "leaf_count (ch_node ch2) \<le> card (ch_D ch2) + fuel" using Suc.prems(2) D i(2) fin by simp
      have "unat (k_next ?k + 1) = unat (k_next ?k) + 1" using room by (simp add: unat_word_ariths)
      then show "unat (k_next (core_of held w2)) + (leaf_count (ch_node ch2) - card (ch_D ch2)) < 2 ^ 32"
        using Suc.prems(3) D i(2) fin ch2(3) en(5) \<open>card (ch_D ch) < leaf_count ?n\<close> by simp
      show "cx = context_of ch2" using cx(1) context_only_status [OF ch2(2)] by simp
    qed
    then show ?thesis using eq D(2) by simp
  qed
qed

end

end
