(* ===== verification/ExecRun.thy ===== *)
theory ExecRun
  imports ExecAdvance
begin

text \<open>
  The handlers of jobs and chains as a transition system: every handler returns and keeps the
  invariant.
\<close>

definition ginv :: "('r \<Rightarrow> job_id set) \<Rightarrow> 'r exec_world \<Rightarrow> bool" where
  "ginv h w \<longleftrightarrow> kinv {} (core_of h w) \<and> chains_ok {} (core_of h w)"

lemma ginv_core: "ginv h w \<Longrightarrow> core_of h w' = core_of h w \<Longrightarrow> ginv h w'"
  by (simp add: ginv_def)

section \<open>Completing a chain\<close>

definition k_remove :: "chain_id \<Rightarrow> chain_state \<Rightarrow> core \<Rightarrow> core" where
  "k_remove c ch k = k\<lparr>k_chain := (k_chain k)(c := None),
     k_link := (\<lambda>j. if j \<in> snd ` set (ch_leaf_jobs ch) then None else k_link k j)\<rparr>"

lemma map_of_filter_key_fun: "map_of (filter (\<lambda>(j, _). j \<notin> S) xs) = (\<lambda>j. if j \<in> S then None else map_of xs j)"
  by (rule ext) (simp add: map_of_filter_key)

lemma complete_core:
  assumes "complete_chain c retain oc w = (oc2, w2)"
  shows "core_of h w2 = core_of h w \<or> (\<exists>ch. k_chain (core_of h w) c = Some ch \<and> core_of h w2 = k_remove c ch (core_of h w))"
proof (cases "map_of (s_chains (w_state w)) c")
  case None
  then show ?thesis using assms by (simp add: complete_chain_def)
next
  case (Some ch)
  show ?thesis
  proof (cases "is_chain_terminal (ch_node ch) (map_of (ch_leaf_status ch))")
    case False
    then show ?thesis using assms Some by (simp add: complete_chain_def)
  next
    case True
    obtain cc where w2: "w2 = on_state (\<lambda>s. (s\<lparr>s_completed_chains := cc s\<rparr>)\<lparr>s_chains := AList.delete c (s_chains s),
        s_job_to_chain := filter (\<lambda>(j, _). j \<notin> snd ` set (ch_leaf_jobs ch)) (s_job_to_chain s)\<rparr>) w"
    proof
      show "w2 = on_state (\<lambda>s. (s\<lparr>s_completed_chains :=
          (if retain \<or> map_of (s_pending_script_chains s) c \<noteq> None then AList.update c
             \<lparr>cc_exit_code = aggregate_chain_exit_code (ch_node ch) (map_of (ch_leaf_status ch)), cc_end_scope = chain_final_scope ch s\<rparr>
             (s_completed_chains s) else s_completed_chains s)\<rparr>)\<lparr>s_chains := AList.delete c (s_chains s),
          s_job_to_chain := filter (\<lambda>(j, _). j \<notin> snd ` set (ch_leaf_jobs ch)) (s_job_to_chain s)\<rparr>) w"
        using assms Some True by (auto simp: complete_chain_def Let_def on_state_def)
    qed
    have "core_of h w2 = k_remove c ch (core_of h w)"
      unfolding w2 core_of_def on_state_def k_remove_def by (simp add: AList.delete_conv' map_of_filter_key_fun cong: if_cong)
    then show ?thesis using Some by (simp add: core_sel)
  qed
qed

lemma kinv_remove:
  assumes k: "kinv X k" and ch: "k_chain k c = Some ch"
  shows "kinv X (k_remove c ch k)"
proof (rule kinvI)
  let ?k = "k_remove c ch k"
  have d: "distinct (map fst (ch_leaf_jobs ch))" using kinvD(4) [OF k] ch by (auto simp: form_inv_def)
  have S: "j \<in> snd ` set (ch_leaf_jobs ch) \<longleftrightarrow> (\<exists>i. k_link k j = Some (c, i))" for j
  proof
    assume "j \<in> snd ` set (ch_leaf_jobs ch)"
    then obtain i where "(i, j) \<in> set (ch_leaf_jobs ch)" by auto
    then have "ch_lj ch i = Some j" using d by simp
    then show "\<exists>i. k_link k j = Some (c, i)" using linkD [OF k ch] by blast
  next
    assume "\<exists>i. k_link k j = Some (c, i)"
    then obtain i where "k_link k j = Some (c, i)" by blast
    then have "ch_lj ch i = Some j" using backD [OF k, of j c i] ch by simp
    then show "j \<in> snd ` set (ch_leaf_jobs ch)" using map_of_SomeD by force
  qed
  have sel: "k_chain ?k = (k_chain k)(c := None)" "k_link ?k = (\<lambda>j. if \<exists>i. k_link k j = Some (c, i) then None else k_link k j)"
      "k_job ?k = k_job k" "k_held ?k = k_held k" "k_wait ?k = k_wait k" "k_pend ?k = k_pend k" "k_queue ?k = k_queue k"
      "k_next ?k = k_next k" "k_next_chain ?k = k_next_chain k"
    by (simp_all add: k_remove_def S)
  have l: "k_link ?k j = Some (c', i) \<longleftrightarrow> k_link k j = Some (c', i) \<and> c' \<noteq> c" for j c' i by (auto simp: sel(2))
  show "link_inv ?k" using kinvD(1) [OF k] unfolding link_inv_def l by (auto simp: sel(1) split: if_splits)
  show "back_inv ?k" using kinvD(2) [OF k] unfolding back_inv_def l by (auto simp: sel(1))
  show "match_inv ?k" using kinvD(3) [OF k] unfolding match_inv_def l by (auto simp: sel(1,3))
  show "form_inv ?k" using kinvD(4) [OF k] by (auto simp: form_inv_def sel(1) split: if_splits)
  have "k_link k j \<noteq> None" if "k_link ?k j \<noteq> None" for j using that by (auto simp: sel(2) split: if_splits)
  then show "fresh_inv ?k" using kinvD(8) [OF k] unfolding fresh_inv_def by (auto simp: sel(1,3,8,9) split: if_splits)
qed (use kinvD [OF k] in \<open>simp_all add: held_inv_def wait_inv_def pend_inv_def k_remove_def\<close>)

lemma complete_ok:
  assumes "kinv {} (core_of h w)" "chains_ok {} (core_of h w)" "complete_chain c retain oc w = (oc2, w2)"
  shows "ginv h w2"
proof -
  have "chains_ok {} (k_remove c ch (core_of h w))" for ch
    using assms(2) by (auto simp: chains_ok_def k_remove_def split: if_splits)
  then show ?thesis using complete_core [OF assms(3), of h] kinv_remove [OF assms(1), of c] assms(1,2) by (auto simp: ginv_def)
qed

context resource_manager
begin

lemma process_advance_ok:
  assumes k: "kinv {} (core_of held w)" "chains_ok {c} (core_of held w)" "k_chain (core_of held w) c = Some ch"
    and good: "\<And>st2. settled cs (ch_D ch) (ch_st ch) st2 \<Longrightarrow>
      chain_ok (ch_node ch) st2 (ch_D ch) \<and> queue_ok (ch_node ch) st2 (ch_D ch) (map fst ready)"
    and room: "unat (k_next (core_of held w)) + leaf_count (ch_node ch) < 2 ^ 32"
  shows "\<exists>oc w2. process_chain_advance ops v c ready cs capture retain w = Some (oc, w2) \<and> ginv held w2"
proof -
  obtain e w1 where c: "cancel_chain_leaves ops v c cs w = (e, w1)" by (cases "cancel_chain_leaves ops v c cs w")
  obtain ch1 where ch1: "k_chain (core_of held w1) = (k_chain (core_of held w))(c \<mapsto> ch1)" "only_status ch ch1"
      "settled cs (ch_D ch) (ch_st ch) (ch_st ch1)" "kinv {} (core_of held w1)" "k_next (core_of held w1) = k_next (core_of held w)"
    using cancel_leaves [OF k(1,3) c] by blast
  note same = only_statusD [OF ch1(2)]
  have ok: "chain_ok (ch_node ch1) (ch_st ch1) (ch_D ch1)" "queue_ok (ch_node ch1) (ch_st ch1) (ch_D ch1) (map fst ready)"
    using good [OF ch1(3)] by (simp_all add: same)
  have "chains_ok {} (core_of held w1)" by (rule chains_ok_upd [OF k(2) ch1(1)]) (use ok(1) in simp_all)
  then have adv: "adv_ok c ch1 ready (core_of held w1)" using ch1 ok(2) by (simp add: adv_ok_def)
  have room1: "unat (k_next (core_of held w1)) + (leaf_count (ch_node ch1) - card (ch_D ch1)) < 2 ^ 32"
    using room by (simp add: ch1(5) same(1))
  have chain: "map_of (s_chains (w_state w1)) c = Some ch1" using ch1(1) core_sel(2) [of held w1] by simp
  obtain oc2 w2 ch2 where loop: "advance_loop (Suc (leaf_count (ch_node ch1))) ops v (context_of ch1) c capture
        (record_persist_error e default_outcome) ready w1 = Some (oc2, w2)" "adv_ok c ch2 [] (core_of held w2)"
    using advance_loop_ok [OF adv _ room1 refl, of "Suc (leaf_count (ch_node ch1))"] by fastforce
  obtain oc3 w3 where fin: "complete_chain c retain oc2 (publish_chain_progress c w2) = (oc3, w3)"
    by (cases "complete_chain c retain oc2 (publish_chain_progress c w2)")
  have "process_chain_advance ops v c ready cs capture retain w = Some (oc3, w3)"
    using c chain loop(1) fin by (simp add: process_chain_advance_def Let_def context_of_def)
  moreover have "ginv held w3" by (rule complete_ok [OF _ _ fin]) (use loop(2) in \<open>simp_all add: adv_ok_def\<close>)
  ultimately show ?thesis by blast
qed

section \<open>Finishing a job and retrying admissions\<close>

lemma finish_single_ok:
  assumes k: "kinv X k" "chains_ok {} k" and x: "k_job k j = Some x0" "job_is_terminal x" and link: "k_link k j = None"
  shows "kinv (X - {j}) (k_finish j x (job_leaf_status x code) k)" "chains_ok {} (k_finish j x (job_leaf_status x code) k)"
  using kinv_finish [OF k(1) x matches_self] chains_ok_same [OF k(2) k_chain_finish_single [OF link]] by simp_all

text \<open>A failed leaf whose transition is dropped leaves the chain in order.\<close>

lemma finish_dropped_ok:
  assumes k: "kinv X k" "chains_ok {} k" and x: "k_job k j = Some x0" "\<not> job_is_terminal x0" "job_is_terminal x"
    and l: "job_leaf_status x code \<noteq> LDone 0"
  shows "kinv (X - {j}) (k_finish j x (job_leaf_status x code) k)" "chains_ok {} (k_finish j x (job_leaf_status x code) k)"
proof -
  show "kinv (X - {j}) (k_finish j x (job_leaf_status x code) k)" by (rule kinv_finish [OF k(1) x(1,3) matches_self])
  show "chains_ok {} (k_finish j x (job_leaf_status x code) k)"
  proof (cases "k_link k j")
    case None
    then show ?thesis using chains_ok_same [OF k(2) k_chain_finish_single] by blast
  next
    case (Some ci)
    obtain c i where ci: "ci = (c, i)" by (cases ci)
    obtain ch where ch: "k_chain k c = Some ch" "ch_lj ch i = Some j" using backD [OF k(1), of j c i] Some ci by blast
    have ok: "chain_ok (ch_node ch) ((ch_st ch)(i \<mapsto> job_leaf_status x code)) (ch_D ch)"
      by (rule chain_ok_dropped [OF chains_okD [OF k(2) ch(1)] _ live_leaf [OF k(1) ch x(1,2)] l]) (use ch(2) in auto)
    have kc: "k_chain (k_finish j x (job_leaf_status x code) k) = (k_chain k)(c \<mapsto> set_leaf_status i (job_leaf_status x code) ch)"
      by (rule k_chain_finish [OF k(1) _ ch(1)]) (simp add: Some ci)
    show ?thesis by (rule chains_ok_upd [OF k(2) kc]) (use ok in simp_all)
  qed
qed

lemma end_and_advance_ok:
  assumes w: "ginv held w" and u: "job_is_terminal (tu_status u)" "tu_advance_chain u"
    and room: "\<And>c ch. k_chain (core_of held w) c = Some ch \<Longrightarrow> unat (k_next (core_of held w)) + leaf_count (ch_node ch) < 2 ^ 32"
  shows "\<exists>e w2. end_and_advance ops v j u w = Some (e, w2) \<and> ginv held w2"
proof -
  let ?k = "core_of held w" and ?l = "job_leaf_status (tu_status u) (tu_exit_code u)"
  have k: "kinv {} ?k" "chains_ok {} ?k" using w by (simp_all add: ginv_def)
  obtain t w1 where s: "set_job_terminal_state ops v j u w = (t, w1)" by (cases "set_job_terminal_state ops v j u w")
  show ?thesis
  proof (cases "\<exists>x. k_job ?k j = Some x \<and> \<not> job_is_terminal x")
    case False
    then show ?thesis
      using set_terminal_dead [OF s] w ginv_core by (fastforce simp: end_and_advance_def s)
  next
    case True
    then obtain x where x: "k_job ?k j = Some x" "\<not> job_is_terminal x" by blast
    note live = set_terminal_live [OF s x u(1)]
    show ?thesis
    proof (cases "k_link ?k j")
      case None
      then have "ginv held w1" using finish_single_ok [OF k x(1) u(1) None] live(1) by (simp add: ginv_def)
      then show ?thesis using live(2) None by (simp add: end_and_advance_def s)
    next
      case (Some ci)
      obtain c i where ci: "ci = (c, i)" by (cases ci)
      then have link: "k_link ?k j = Some (c, i)" using Some by simp
      obtain ch where ch: "k_chain ?k c = Some ch" "ch_lj ch i = Some j" using backD [OF k(1) link] by blast
      let ?n = "ch_node ch" and ?st1 = "(ch_st ch)(i \<mapsto> ?l)"
      obtain a where a: "to_chain_advance t = Some a" "ca_chain_id a = c" "map fst (ca_newly_ready a) = ready_after ?n 0 i ?st1"
          "ca_to_cancel a = cancel_after ?n 0 i ?st1"
        using live(3) [OF u(2) link ch(1)] by blast
      let ?ch1 = "set_leaf_status i ?l ch"
      have kc: "k_chain (core_of held w1) = (k_chain ?k)(c \<mapsto> ?ch1)" using k_chain_finish [OF k(1) link ch(1)] live(1) by simp
      have "\<exists>oc w2. process_chain_advance ops v c (ca_newly_ready a) (ca_to_cancel a) 0 False w1 = Some (oc, w2) \<and> ginv held w2"
      proof (rule process_advance_ok)
        show "kinv {} (core_of held w1)" using kinv_finish [OF k(1) x(1) u(1) matches_self] live(1) by simp
        show "chains_ok {c} (core_of held w1)" by (rule chains_ok_upd [OF k(2) kc]) simp_all
        show "k_chain (core_of held w1) c = Some ?ch1" by (simp add: kc)
        show "unat (k_next (core_of held w1)) + leaf_count (ch_node ?ch1) < 2 ^ 32" using room [OF ch(1)] live(1) by simp
        fix st2 assume "settled (ca_to_cancel a) (ch_D ?ch1) (ch_st ?ch1) st2"
        then have st2: "settled (cancel_after ?n 0 i ?st1) (ch_D ch) ?st1 st2" using a(4) by simp
        have "chain_ok ?n st2 (ch_D ch) \<and> queue_ok ?n st2 (ch_D ch) ([] @ ready_after ?n 0 i ?st1)"
          by (rule chain_ok_finish [OF chains_okD [OF k(2) ch(1)] _ _ live_leaf [OF k(1) ch x] _ _ refl st2])
            (use ch(2) u(1) in \<open>auto simp: queue_ok_def\<close>)
        then show "chain_ok (ch_node ?ch1) st2 (ch_D ?ch1) \<and> queue_ok (ch_node ?ch1) st2 (ch_D ?ch1) (map fst (ca_newly_ready a))"
          using a(3) by simp
      qed
      then show ?thesis using a(1,2) by (auto simp: end_and_advance_def s)
    qed
  qed
qed

end

end
