(* ===== verification/ExecRetry.thy ===== *)
theory ExecRetry
  imports ExecRun
begin

text \<open>
  Spawning jobs and chains and retrying the admission of jobs that wait for resources: both return and
  keep the invariant.
\<close>

section \<open>Retrying admission\<close>

lemma core_pop: "core_of h (on_state (\<lambda>s. s\<lparr>s_pending_resource_jobs := js\<rparr>) w) = (core_of h w)\<lparr>k_queue := js\<rparr>"
  by (simp add: core_of_def on_state_def)

lemma core_unpend: "core_of h (on_state (\<lambda>s. s\<lparr>s_pending_resource := AList.delete j (s_pending_resource s)\<rparr>) w) =
    (core_of h w)\<lparr>k_pend := k_pend (core_of h w) - {j}\<rparr>"
  by (auto simp: core_of_def on_state_def AList.delete_conv' dom_def)

lemma core_requeue: "core_of h (on_state (\<lambda>s. (case map_of (s_jobs s) j of None \<Rightarrow> s
      | Some e \<Rightarrow> put_job j (e\<lparr>je_pending_reason := r\<rparr>) s)\<lparr>s_pending_resource_jobs := s_pending_resource_jobs s @ [j]\<rparr>) w) =
    (core_of h w)\<lparr>k_queue := k_queue (core_of h w) @ [j]\<rparr>"
  by (auto simp: core_of_def on_state_def put_job_def AList.update_conv' fun_eq_iff split: option.splits)

lemma core_note_unpend: "core_of h (on_state (\<lambda>s. (case map_of (s_jobs s) j of None \<Rightarrow> s
      | Some e \<Rightarrow> put_job j (e\<lparr>je_pending_reason := r\<rparr>) s)\<lparr>s_pending_resource := AList.delete j (s_pending_resource s)\<rparr>) w) =
    (core_of h w)\<lparr>k_pend := k_pend (core_of h w) - {j}\<rparr>"
  by (auto simp: core_of_def on_state_def put_job_def AList.update_conv' AList.delete_conv' dom_def fun_eq_iff split: option.splits)

lemma kinv_pop:
  assumes "kinv {} k" "k_queue k = j # js"
  shows "kinv {j} (k\<lparr>k_queue := js\<rparr>)" and "j \<in> k_pend k"
proof -
  have p: "distinct (j # js)" "insert j (set js) = k_pend k" using kinvD(7) [OF assms(1)] assms(2) by (auto simp: pend_inv_def)
  then show "j \<in> k_pend k" by auto
  have "pend_inv {j} (k\<lparr>k_queue := js\<rparr>)" using kinvD(7) [OF assms(1)] p by (auto simp: pend_inv_def)
  then show "kinv {j} (k\<lparr>k_queue := js\<rparr>)"
    using kinvD [OF assms(1)] by (auto simp: kinv_def link_inv_def back_inv_def match_inv_def form_inv_def held_inv_def wait_inv_def fresh_inv_def)
qed

lemma kinv_requeue:
  assumes "kinv {j} k" "j \<in> k_pend k"
  shows "kinv {} (k\<lparr>k_queue := k_queue k @ [j]\<rparr>)"
proof -
  have "pend_inv {} (k\<lparr>k_queue := k_queue k @ [j]\<rparr>)" using kinvD(7) [OF assms(1)] assms(2) by (auto simp: pend_inv_def)
  then show ?thesis
    using kinvD [OF assms(1)] by (auto simp: kinv_def link_inv_def back_inv_def match_inv_def form_inv_def held_inv_def wait_inv_def fresh_inv_def)
qed

text \<open>A waiting job is admitted.\<close>

definition k_resume :: "job_id \<Rightarrow> job_id set \<Rightarrow> core \<Rightarrow> core" where
  "k_resume j H k =
     (let k1 = k\<lparr>k_held := H, k_pend := k_pend k - {j}, k_job := (k_job k)(j \<mapsto> Running)\<rparr>
      in case k_link k j of None \<Rightarrow> k1 | Some (c, i) \<Rightarrow> k_leaf c i LRunning k1)"

lemma k_resume_simps [simp]:
  "k_job (k_resume j H k) = (k_job k)(j \<mapsto> Running)" "k_link (k_resume j H k) = k_link k" "k_wait (k_resume j H k) = k_wait k"
  "k_pend (k_resume j H k) = k_pend k - {j}" "k_queue (k_resume j H k) = k_queue k" "k_next (k_resume j H k) = k_next k"
  "k_next_chain (k_resume j H k) = k_next_chain k" "k_held (k_resume j H k) = H"
  by (simp_all add: k_resume_def Let_def split: option.splits)

lemma resume_ok:
  assumes k: "kinv {j} k" "chains_ok {} k" and j: "k_job k j = Some Pending" and H: "H \<subseteq> insert j (k_held k)"
  shows "kinv {} (k_resume j H k)" and "chains_ok {} (k_resume j H k)"
proof -
  let ?k = "k_resume j H k"
  have "link_inv ?k \<and> back_inv ?k \<and> match_inv ?k \<and> form_inv ?k \<and> fresh_inv ?k \<and> chains_ok {} ?k"
  proof (cases "k_link k j")
    case None
    then have kc: "k_chain ?k = k_chain k" by (simp add: k_resume_def)
    have "link_inv ?k" "back_inv ?k" "form_inv ?k"
      using kinvD [OF k(1)] by (simp_all add: link_inv_def back_inv_def form_inv_def kc)
    moreover have "match_inv ?k" using kinvD(3) [OF k(1)] None by (auto simp: match_inv_def kc)
    moreover have "fresh_inv ?k" using kinvD(8) [OF k(1)] j by (auto simp: fresh_inv_def kc)
    ultimately show ?thesis using chains_ok_same [OF k(2) kc] by blast
  next
    case (Some ci)
    obtain c i where ci: "ci = (c, i)" by (cases ci)
    then have link: "k_link k j = Some (c, i)" using Some by simp
    obtain ch where ch: "k_chain k c = Some ch" "ch_lj ch i = Some j" using backD [OF k(1) link] by blast
    have kc: "k_chain ?k = (k_chain k)(c \<mapsto> set_leaf_status i LRunning ch)" using link ch(1) by (simp add: k_resume_def k_chain_leaf)
    have "link_inv ?k" "back_inv ?k" "form_inv ?k" using leaf_struct [OF k(1) ch(1) kc] by simp_all
    moreover have "match_inv ?k"
      by (rule match_set [OF k(1) ch(1) link _ kc]) (simp_all add: leaf_matches_def job_leaf_status_def)
    moreover have "fresh_inv ?k" using kinvD(8) [OF k(1)] ch j unfolding fresh_inv_def kc by auto
    moreover have "chains_ok {} ?k"
      using chain_ok_park(1) [OF chains_okD [OF k(2) ch(1)] _ live_leaf [OF k(1) ch j], of LRunning] ch(2)
      by (intro chains_ok_upd [OF k(2) kc]) auto
    ultimately show ?thesis by blast
  qed
  moreover have "held_inv ?k" using kinvD(5) [OF k(1)] H by (auto simp: held_inv_def)
  moreover have "wait_inv ?k" using kinvD(6) [OF k(1)] by (auto simp: wait_inv_def)
  moreover have "pend_inv {} ?k" using kinvD(7) [OF k(1)] by (auto simp: pend_inv_def)
  ultimately show "kinv {} ?k" "chains_ok {} ?k" by (simp_all add: kinv_def)
qed

lemma k_finish_unpend: "k_finish j x l (k\<lparr>k_pend := k_pend k - {j}\<rparr>) = k_finish j x l k"
  by (simp add: k_finish_def k_leaf_def k_drop_def k_put_def split: option.splits prod.splits)

context resource_manager
begin

lemma fail_ok:
  assumes s: "set_job_terminal_state ops v j (failed_update sc) w = (t, w1)"
    and x: "k_job (core_of held w) j = Some x" "\<not> job_is_terminal x"
    and k: "kinv X k" "chains_ok {} k" "k_finish j Failed (job_leaf_status Failed EXIT_CODE_UNAVAILABLE) (core_of held w) =
      k_finish j Failed (job_leaf_status Failed EXIT_CODE_UNAVAILABLE) k" "k_job k j = Some x" "X \<subseteq> {j}"
  shows "ginv held w1"
proof -
  have "core_of held w1 = k_finish j Failed (job_leaf_status Failed EXIT_CODE_UNAVAILABLE) k"
    using set_terminal_live(1) [OF s x] k(3) by (simp add: failed_update_def)
  moreover have "X - {j} = {}" using k(5) by auto
  moreover have "job_leaf_status Failed EXIT_CODE_UNAVAILABLE \<noteq> LDone 0" by (simp add: job_leaf_status_def)
  note finish_dropped_ok [OF k(1,2,4) x(2) _ this]
  ultimately show ?thesis unfolding ginv_def by (metis job_is_terminal.simps)
qed

lemma retry_one_ok:
  assumes k: "kinv {j} (core_of held w)" "chains_ok {} (core_of held w)" and j: "j \<in> k_pend (core_of held w)"
  shows "ginv held (retry_one ops v j w)"
proof -
  let ?k = "core_of held w"
  have p: "k_job ?k j = Some Pending" "j \<notin> k_held ?k"
    using j kinvD(5,7) [OF k(1)] by (auto simp: pend_inv_def held_inv_def)
  obtain p where pr: "map_of (s_pending_resource (w_state w)) j = Some p" using j by (auto simp: core_sel)
  obtain a w1 where ad: "admit ops v j (pr_base_scope p) (pr_needs p) w = (a, w1)"
    by (cases "admit ops v j (pr_base_scope p) (pr_needs p) w")
  obtain H where H: "core_of held w1 = ?k\<lparr>k_held := H\<rparr>" "w_state w1 = w_state w" "H \<subseteq> insert j (k_held ?k)"
      "(\<forall>sc. a \<noteq> Inr (AdmissionGranted sc)) \<longrightarrow> H \<subseteq> k_held ?k"
    using admit_core [OF ad] by metis
  have st: "map_option je_status (map_of (s_jobs (w_state w)) j) = Some Pending" using p(1) by (simp add: core_sel)
  obtain e where e: "map_of (s_jobs (w_state w)) j = Some e" "je_status e = Pending" using st by auto
  note eq1 = retry_one_def [of ops v j w, unfolded pr option.case, unfolded st, simplified]
  have calm: "kinv {j} (core_of held w1)" "chains_ok {} (core_of held w1)" if "\<forall>sc. a \<noteq> Inr (AdmissionGranted sc)"
    using kinv_held [OF k(1), of H] H(1,4) that k(2) by (auto simp: chains_ok_def)
  consider (wait) reason where "a = Inr (AdmissionPending reason)" | (go) sc where "a = Inr (AdmissionGranted sc)" | (err) msg where "a = Inl msg"
    by (metis old.sum.exhaust resource_admission.exhaust)
  then show ?thesis
  proof cases
    case wait
    have "core_of held (retry_one ops v j w) = (core_of held w1)\<lparr>k_queue := k_queue (core_of held w1) @ [j]\<rparr>"
      unfolding eq1 ad wait by (simp add: core_requeue)
    moreover have "j \<in> k_pend (core_of held w1)" using j H(1) by simp
    ultimately show ?thesis using kinv_requeue [of j "core_of held w1"] calm wait by (simp add: ginv_def chains_ok_def)
  next
    case go
    define w2 where "w2 = on_state (\<lambda>s. s\<lparr>s_pending_resource := AList.delete j (s_pending_resource s)\<rparr>) w1"
    define w3 where "w3 = on_state (put_job j (e\<lparr>je_status := Running, je_pending_reason := None, je_start_scope := Some sc\<rparr>)) w2"
    define w4 where "w4 = on_state (\<lambda>s. case map_of (s_job_to_chain s) j of None \<Rightarrow> s | Some (c, i) \<Rightarrow> update_leaf c i LRunning s) w3"
    define w5 where "w5 = publish_job_state_changed j (je_status e) Running None w4"
    define w6 where "w6 = (case je_chain_id e of None \<Rightarrow> w5 | Some c \<Rightarrow> publish_chain_progress c w5)"
    obtain r w7 where sp: "spawn_process_job v j (pr_plan p) sc (pr_options p) w6 = (r, w7)"
      by (cases "spawn_process_job v j (pr_plan p) sc (pr_options p) w6")
    have e2: "map_of (s_jobs (w_state w2)) j = Some e" using e(1) H(2) by (simp add: w2_def on_state_def)
    have eq: "retry_one ops v j w = (case r of None \<Rightarrow> w7 | Some _ \<Rightarrow> snd (set_job_terminal_state ops v j (failed_update sc) w7))"
      using e2 sp unfolding eq1 ad go w2_def w3_def w4_def w5_def w6_def by (simp add: Let_def split: option.splits)
    have l: "map_of (s_job_to_chain (w_state w3)) j = k_link ?k j"
      using H(2) by (simp add: w3_def w2_def on_state_def put_job_def core_sel)
    have "core_of held w3 = ?k\<lparr>k_held := H, k_pend := k_pend ?k - {j}, k_job := (k_job ?k)(j \<mapsto> Running)\<rparr>"
      by (simp add: w3_def w2_def core_unpend H(1) k_put_def)
    moreover have "core_of held w4 = (case k_link ?k j of None \<Rightarrow> core_of held w3 | Some (c, i) \<Rightarrow> k_leaf c i LRunning (core_of held w3))"
      using l core_update_leaf [of held _ _ LRunning w3] by (auto simp: w4_def on_state_def split: option.splits prod.splits)
    ultimately have c6: "core_of held w6 = k_resume j H ?k"
      by (simp add: w6_def w5_def k_resume_def Let_def split: option.splits)
    have c7: "core_of held w7 = k_resume j H ?k"
      using core_spawn_process [of held v j "pr_plan p" sc "pr_options p" w6] sp c6 by simp
    note ok = resume_ok [OF k p(1) H(3)]
    show ?thesis
    proof (cases r)
      case None
      then show ?thesis using eq c7 ok by (simp add: ginv_def)
    next
      case (Some m)
      obtain t w8 where s: "set_job_terminal_state ops v j (failed_update sc) w7 = (t, w8)"
        by (cases "set_job_terminal_state ops v j (failed_update sc) w7")
      have "ginv held w8" by (rule fail_ok [OF s _ _ ok, of Running]) (simp_all add: c7)
      then show ?thesis using eq Some s by simp
    qed
  next
    case err
    define w2 where "w2 = on_state (\<lambda>s. (case map_of (s_jobs s) j of None \<Rightarrow> s
      | Some x \<Rightarrow> put_job j (x\<lparr>je_pending_reason := Some msg\<rparr>) s)\<lparr>s_pending_resource := AList.delete j (s_pending_resource s)\<rparr>) w1"
    have c2: "core_of held w2 = (core_of held w1)\<lparr>k_pend := k_pend (core_of held w1) - {j}\<rparr>"
      unfolding w2_def by (rule core_note_unpend)
    obtain t w3 where s: "set_job_terminal_state ops v j (failed_update (pr_base_scope p)) w2 = (t, w3)"
      by (cases "set_job_terminal_state ops v j (failed_update (pr_base_scope p)) w2")
    have "retry_one ops v j w = w3" using s unfolding eq1 ad err w2_def by simp
    moreover have "ginv held w3"
    proof (rule fail_ok [OF s _ _ calm, of Pending])
      show "k_finish j Failed (job_leaf_status Failed EXIT_CODE_UNAVAILABLE) (core_of held w2) =
          k_finish j Failed (job_leaf_status Failed EXIT_CODE_UNAVAILABLE) (core_of held w1)"
        unfolding c2 by (rule k_finish_unpend)
    qed (use c2 H(1) p(1) err in simp_all)
    ultimately show ?thesis by simp
  qed
qed

lemma retry_loop_ok: "ginv held w \<Longrightarrow> ginv held (retry_loop n ops v w)"
proof (induction n arbitrary: w)
  case (Suc n)
  show ?case
  proof (cases "s_pending_resource_jobs (w_state w)")
    case (Cons j js)
    let ?w = "on_state (\<lambda>s. s\<lparr>s_pending_resource_jobs := js\<rparr>) w"
    have q: "k_queue (core_of held w) = j # js" using Cons by (simp add: core_sel)
    have k: "kinv {} (core_of held w)" "chains_ok {} (core_of held w)" using Suc.prems by (simp_all add: ginv_def)
    have "ginv held (retry_one ops v j ?w)"
      by (rule retry_one_ok) (use kinv_pop [OF k(1) q] k(2) in \<open>simp_all add: core_pop chains_ok_def\<close>)
    then show ?thesis using Suc.IH Cons by simp
  qed (use Suc.prems in simp)
qed simp

lemma retry_ok: "ginv held w \<Longrightarrow> ginv held (retry_pending_resource_admissions ops v w)"
  by (simp add: retry_pending_resource_admissions_def retry_loop_ok)

end

end
