(* ===== verification/ExecTurn.thy ===== *)
theory ExecTurn
  imports ExecRetry
begin

text \<open>
  The messages and commands on jobs and chains as one transition system.  A turn handles one message;
  the answers of the other actors may differ from turn to turn.
\<close>

section \<open>The transition system\<close>

datatype exec_msg =
    MsgSpawn spawn_request
  | MsgFinished job_id i32
  | MsgKill string
  | MsgCancel string
  | MsgRetry bool string
  | MsgCancelJob job_id
  | MsgCancelChain chain_id
  | MsgWait string u64 u32
  | MsgPruned "job_id list"

definition forget_jobs :: "job_id list \<Rightarrow> scheduler_state \<Rightarrow> scheduler_state" where
  "forget_jobs js s = s\<lparr>s_jobs := fold AList.delete js (s_jobs s)\<rparr>"

fun exec_turn :: "'r resource_ops \<Rightarrow> exec_env \<Rightarrow> exec_msg \<Rightarrow> 'r exec_world \<Rightarrow> 'r exec_world option" where
  "exec_turn ops v (MsgSpawn q) w = map_option snd (spawn_chain ops v q w)"
| "exec_turn ops v (MsgFinished j code) w = handle_job_finished ops v j code w"
| "exec_turn ops v (MsgKill i) w = map_option snd (handle_kill_job ops v i w)"
| "exec_turn ops v (MsgCancel i) w = map_option snd (handle_cancel_job ops v i w)"
| "exec_turn ops v (MsgRetry wrapper i) w = map_option snd (handle_retry ops v wrapper i w)"
| "exec_turn ops v (MsgCancelJob j) w = map_option snd (cancel_job_execution ops v j w)"
| "exec_turn ops v (MsgCancelChain c) w = map_option snd (cancel_chain_execution ops v c w)"
| "exec_turn ops v (MsgWait i c rid) w = Some (on_state (\<lambda>s. snd (handle_wait_command i c rid s)) w)"
| "exec_turn ops v (MsgPruned js) w = Some (on_state (forget_jobs js) w)"

text \<open>The chain a message asks to start, if any.\<close>

fun msg_chain :: "exec_msg \<Rightarrow> scheduler_state \<Rightarrow> chain_node option" where
  "msg_chain (MsgSpawn q) s = Some (sp_chain q)"
| "msg_chain (MsgRetry _ i) s =
     Option.bind (sched_parse_job_id i) (\<lambda>j. Option.bind (map_of (s_jobs s) j) (\<lambda>e.
       case parse_chain_text (je_pipeline_text e) of Inr ch \<Rightarrow> Some ch | Inl _ \<Rightarrow> None))"
| "msg_chain _ s = None"

text \<open>The 32-bit id counters do not wrap in the turn.\<close>

definition room_for :: "nat \<Rightarrow> u32 \<Rightarrow> bool" where
  "room_for k n \<longleftrightarrow> uint n + int k < 2 ^ 32"

definition ids_left :: "exec_msg \<Rightarrow> scheduler_state \<Rightarrow> bool" where
  "ids_left m s \<longleftrightarrow>
     (\<forall>(_, ch)\<in>set (s_chains s). room_for (leaf_count (ch_node ch)) (s_next_job s)) \<and>
     (case msg_chain m s of None \<Rightarrow> True | Some n \<Rightarrow> room_for (leaf_count n) (s_next_job s)) \<and> room_for 1 (s_next_chain s)"

lemma power2_32: "(2 :: int) ^ 32 = 4294967296" "(2 :: nat) ^ 32 = 4294967296"
  by simp_all

lemma room_for_iff: "room_for k n \<longleftrightarrow> unat n + k < 2 ^ 32"
proof -
  have u: "uint n = int (unat n)" by simp
  have "int (unat n) + int k < 4294967296 \<longleftrightarrow> unat n + k < 4294967296" by linarith
  then show ?thesis unfolding room_for_def u power2_32 .
qed

text \<open>
  The history drops only rows of ended jobs (the prune statement selects them), and the text of a job
  never makes the parser panic.
\<close>

definition msg_ok :: "exec_msg \<Rightarrow> scheduler_state \<Rightarrow> bool" where
  "msg_ok m s \<longleftrightarrow>
     (case m of
        MsgPruned js \<Rightarrow> (\<forall>j\<in>set js. case map_of (s_jobs s) j of None \<Rightarrow> True | Some e \<Rightarrow> job_is_terminal (je_status e))
      | MsgRetry _ i \<Rightarrow> 
          (case Option.bind (sched_parse_job_id i) (map_of (s_jobs s)) of
             None \<Rightarrow> True | Some e \<Rightarrow> parse_chain_text (je_pipeline_text e) \<noteq> Inl ChainTextPanic)
      | _ \<Rightarrow> True)"

section \<open>Starting jobs and chains\<close>

lemma kinv_single:
  fixes k :: core
  defines "j \<equiv> JobId (k_next k)"
  assumes k: "kinv X k" and room: "unat (k_next k) + 1 < 2 ^ 32" and H: "H \<subseteq> insert j (k_held k)"
  shows "kinv X (k_put j Running (k\<lparr>k_next := k_next k + 1, k_held := H\<rparr>))"
proof -
  note fresh = fresh_job [OF k, folded j_def]
  let ?k = "k_put j Running (k\<lparr>k_next := k_next k + 1, k_held := H\<rparr>)"
  have "link_inv ?k" "back_inv ?k" "form_inv ?k" using kinvD [OF k] by (simp_all add: link_inv_def back_inv_def form_inv_def)
  moreover have "match_inv ?k" using kinvD(3) [OF k] fresh(2) by (auto simp: match_inv_def)
  moreover have "held_inv ?k" using kinvD(5) [OF k] H by (auto simp: held_inv_def)
  moreover have "wait_inv ?k" using kinvD(6) [OF k] fresh(4) by (auto simp: wait_inv_def)
  moreover have "pend_inv X ?k" using kinvD(7) [OF k] fresh(5) by (auto simp: pend_inv_def)
  moreover have "fresh_inv ?k" using kinvD(8) [OF k] word_next_less [OF room] by (auto simp: fresh_inv_def j_def)
  ultimately show ?thesis by (simp add: kinv_def)
qed

lemma kinv_single_wait:
  fixes k :: core
  defines "j \<equiv> JobId (k_next k)"
  assumes k: "kinv {} k" and room: "unat (k_next k) + 1 < 2 ^ 32" and H: "H \<subseteq> k_held k"
  shows "kinv {} (k_wait_res j (k_put j Pending (k_put j Pending (k\<lparr>k_next := k_next k + 1, k_held := H\<rparr>))))"
proof -
  note fresh = fresh_job [OF k, folded j_def]
  let ?k = "k_wait_res j (k_put j Pending (k_put j Pending (k\<lparr>k_next := k_next k + 1, k_held := H\<rparr>)))"
  have q: "j \<notin> set (k_queue k)" using kinvD(7) [OF k] fresh(5) by (simp add: pend_inv_def)
  then have q': "k_queue ?k = k_queue k @ [j]" by (simp add: k_wait_res_def)
  have "link_inv ?k" "back_inv ?k" "form_inv ?k" using kinvD [OF k] by (simp_all add: link_inv_def back_inv_def form_inv_def)
  moreover have "match_inv ?k" using kinvD(3) [OF k] fresh(2) by (auto simp: match_inv_def)
  moreover have "held_inv ?k" using kinvD(5) [OF k] H fresh(3) by (auto simp: held_inv_def)
  moreover have "wait_inv ?k" using kinvD(6) [OF k] fresh(4) by (auto simp: wait_inv_def)
  moreover have "pend_inv {} ?k" using kinvD(7) [OF k] q unfolding pend_inv_def q' by auto
  moreover have "fresh_inv ?k" using kinvD(8) [OF k] word_next_less [OF room] by (auto simp: fresh_inv_def j_def)
  ultimately show ?thesis by (simp add: kinv_def)
qed

lemma core_enter_single: "core_of h (enter_single q j leaf start reason w) = k_put j Running (core_of h w)"
  by (simp add: enter_single_def single_entry_def)

lemma update_status [simp]: "tu_status (failed_update sc) = Failed" "tu_status (done_update sc) = job_status.Done"
  by (simp_all add: failed_update_def done_update_def)

lemma answered: "\<exists>e w2. x = Some (e, w2) \<and> P w2 \<Longrightarrow> \<exists>r w2. map_option (\<lambda>(e, w). (f e, w)) x = Some (r, w2) \<and> P w2"
  by auto

lemma map_of_const: "map_of (map (\<lambda>l. (g l, c)) xs) i = (if i \<in> g ` set xs then Some c else None)"
  by (induction xs) auto

lemma flat_index: "set (map fl_index (flatten_leaves n)) = {..<leaf_count n}"
proof -
  have "map fl_index (flatten_leaves n) = [0..<leaf_count n]"
    by (simp add: flatten_leaves_eq number_leaves_def comp_def case_prod_beta map_fst_zip [unfolded id_def])
  then show ?thesis by (simp add: atLeast_upt)
qed

lemma map_of_fold_delete: "map_of (fold AList.delete js xs) = (\<lambda>j. if j \<in> set js then None else map_of xs j)"
  by (induction js arbitrary: xs) (auto simp: AList.delete_conv' fun_eq_iff)

lemma new_chain_status: "ch_st (new_chain q) i = (if i < leaf_count (sp_chain q) then Some LPending else None)"
  using flat_index [of "sp_chain q"] by (simp add: new_chain_def map_of_const)

lemma kinv_new_chain:
  assumes k: "kinv {} k" and room: "unat (k_next_chain k) + 1 < 2 ^ 32"
    and v: "sp_scope_enabled q \<Longrightarrow> validate_scope_transform_support (sp_chain q) = Inr ()"
  shows "kinv {} (k\<lparr>k_chain := (k_chain k)(ChainId (k_next_chain k) \<mapsto> new_chain q), k_next_chain := k_next_chain k + 1\<rparr>)"
proof -
  let ?c = "ChainId (k_next_chain k)"
  let ?k = "k\<lparr>k_chain := (k_chain k)(?c \<mapsto> new_chain q), k_next_chain := k_next_chain k + 1\<rparr>"
  have fresh: "k_chain k ?c = None" using kinvD(8) [OF k] by (auto simp: fresh_inv_def)
  then have nl: "k_link k j \<noteq> Some (?c, i)" for j i using backD [OF k] by fastforce
  have "link_inv ?k" using kinvD(1) [OF k] by (auto simp: link_inv_def new_chain_def)
  moreover have "back_inv ?k" using kinvD(2) [OF k] nl unfolding back_inv_def by fastforce
  moreover have "match_inv ?k" using kinvD(3) [OF k] nl by (auto simp: match_inv_def split: if_splits)
  moreover have "form_inv ?k" using kinvD(4) [OF k] v by (auto simp: form_inv_def new_chain_def)
  moreover have "fresh_inv ?k" using kinvD(8) [OF k] word_next_less [OF room] by (auto simp: fresh_inv_def)
  ultimately show ?thesis using kinvD(5-7) [OF k] by (simp add: kinv_def held_inv_def wait_inv_def pend_inv_def)
qed

context resource_manager
begin

lemma end_single_ok:
  assumes s: "set_job_terminal_state ops v j u w = (t, w1)" and w: "ginv held w"
    and x: "k_job (core_of held w) j = Some Running" "k_link (core_of held w) j = None" and u: "job_is_terminal (tu_status u)"
  shows "ginv held w1"
  using set_terminal_live(1) [OF s x(1) _ u] finish_single_ok [OF _ _ x(1) u x(2), of "{}"] w by (simp add: ginv_def)

lemma spawn_single_process_ok:
  assumes k: "kinv {} k" "chains_ok {} k" and room: "unat (k_next k) + 1 < 2 ^ 32" and j: "j = JobId (k_next k)"
    and w: "core_of held w = k\<lparr>k_next := k_next k + 1\<rparr>"
  shows "ginv held (snd (spawn_single_process ops v q j leaf w))"
proof -
  let ?needs = "lo_needs (pc_launch (sp_process q))" and ?sc = "sp_scope_hash q"
  note fresh = fresh_job [OF k(1), folded j]
  obtain a w1 where ad: "admit ops v j ?sc ?needs w = (a, w1)" by (cases "admit ops v j ?sc ?needs w")
  obtain H where H: "core_of held w1 = (core_of held w)\<lparr>k_held := H\<rparr>" "H \<subseteq> insert j (k_held k)"
      "(\<forall>sc. a \<noteq> Inr (AdmissionGranted sc)) \<longrightarrow> H \<subseteq> k_held k"
    by (rule admit_core [OF ad]) (simp add: w)
  have c1: "core_of held w1 = k\<lparr>k_next := k_next k + 1, k_held := H\<rparr>" using H(1) w by simp
  have run: "ginv held w2" if "core_of held w2 = k_put j Running (core_of held w1)" for w2
    using kinv_single [OF k(1) room, folded j, OF H(2)] that k(2) c1 by (simp add: ginv_def chains_ok_def)
  have fail: "ginv held (snd (set_job_terminal_state ops v j (failed_update sc) w2))"
    if "core_of held w2 = k_put j Running (core_of held w1)" for w2 sc
  proof -
    obtain t w3 where s: "set_job_terminal_state ops v j (failed_update sc) w2 = (t, w3)"
      by (cases "set_job_terminal_state ops v j (failed_update sc) w2")
    have "ginv held w3" by (rule end_single_ok [OF s run [OF that]]) (use that c1 fresh(2) in simp_all)
    then show ?thesis using s by simp
  qed
  note defs = spawn_single_process_def [of ops v q j leaf w, unfolded Let_def ad prod.case]
  consider (wait) reason where "a = Inr (AdmissionPending reason)" | (go) sc where "a = Inr (AdmissionGranted sc)" | (err) msg where "a = Inl msg"
    by (metis old.sum.exhaust resource_admission.exhaust)
  then show ?thesis
  proof cases
    case wait
    have "kinv {} (k_wait_res j (k_put j Pending (k_put j Pending (k\<lparr>k_next := k_next k + 1, k_held := H\<rparr>))))"
      unfolding j by (rule kinv_single_wait [OF k(1) room]) (use H(3) wait in simp)
    then show ?thesis
      unfolding defs wait ginv_def using k(2) by (simp add: core_record_pending c1 single_entry_def chains_ok_def)
  next
    case go
    obtain r w2 where sp: "spawn_process_job v j (fl_plan leaf) sc (process_job_options_of (sp_process q) (sp_session_id q))
        (enter_single q j leaf sc None w1) = (r, w2)"
      by (cases "spawn_process_job v j (fl_plan leaf) sc (process_job_options_of (sp_process q) (sp_session_id q)) (enter_single q j leaf sc None w1)")
    have c2: "core_of held w2 = k_put j Running (core_of held w1)"
      using core_spawn_process [of held v j "fl_plan leaf" sc "process_job_options_of (sp_process q) (sp_session_id q)"
          "enter_single q j leaf sc None w1"] sp by (simp add: core_enter_single)
    show ?thesis
    proof (cases r)
      case None
      then show ?thesis using run [OF c2] sp unfolding defs go by simp
    next
      case (Some m)
      then show ?thesis using fail [OF c2, of sc] sp unfolding defs go by (simp add: case_prod_beta)
    qed
  next
    case err
    then show ?thesis
      using fail [of "enter_single q j leaf ?sc (Some msg) w1" ?sc] unfolding defs err
      by (simp add: core_enter_single case_prod_beta)
  qed
qed

lemma spawn_single_ok:
  assumes w: "ginv held w" and room: "unat (s_next_job (w_state w)) + 1 < 2 ^ 32"
  shows "ginv held (snd (spawn_single ops v q leaf w))"
proof -
  let ?k = "core_of held w" and ?j = "JobId (s_next_job (w_state w))"
  let ?w1 = "w\<lparr>w_state := (w_state w)\<lparr>s_next_job := s_next_job (w_state w) + 1\<rparr>\<rparr>"
  have k: "kinv {} ?k" "chains_ok {} ?k" using w by (simp_all add: ginv_def)
  have j: "?j = JobId (k_next ?k)" and room': "unat (k_next ?k) + 1 < 2 ^ 32" using room by (simp_all add: core_sel)
  have c1: "core_of held ?w1 = ?k\<lparr>k_next := k_next ?k + 1\<rparr>" by (simp add: core_next core_sel)
  note fresh = fresh_job [OF k(1), folded j]
  have enter: "ginv held (enter_single q ?j leaf sc r ?w1)" for sc r
  proof -
    have "kinv {} (k_put ?j Running (?k\<lparr>k_next := k_next ?k + 1, k_held := k_held ?k\<rparr>))"
      unfolding j by (rule kinv_single [OF k(1) room']) auto
    moreover have "?k\<lparr>k_next := k_next ?k + 1, k_held := k_held ?k\<rparr> = ?k\<lparr>k_next := k_next ?k + 1\<rparr>" by simp
    ultimately show ?thesis using k(2) by (simp add: ginv_def core_enter_single c1 chains_ok_def)
  qed
  have ended: "ginv held (snd (set_job_terminal_state ops v ?j u (enter_single q ?j leaf sc r ?w1)))" if "job_is_terminal (tu_status u)" for u sc r
  proof -
    obtain t w3 where s: "set_job_terminal_state ops v ?j u (enter_single q ?j leaf sc r ?w1) = (t, w3)"
      by (cases "set_job_terminal_state ops v ?j u (enter_single q ?j leaf sc r ?w1)")
    have "ginv held w3"
      by (rule end_single_ok [OF s enter]) (use that fresh(2) in \<open>simp_all add: core_enter_single c1\<close>)
    then show ?thesis using s by simp
  qed
  let ?r = "if sp_scope_enabled q then scope_transform_from_command (flat_leaf_command leaf) else Inr None"
  note defs = spawn_single_def [of ops v q leaf w, unfolded alloc_job_def prod.case Let_def]
  consider (bad) msg where "?r = Inl msg" | (plain) "?r = Inr None" | (move) t where "?r = Inr (Some t)"
    by (metis old.sum.exhaust option.exhaust)
  then show ?thesis
  proof cases
    case bad
    show ?thesis
      unfolding defs bad using ended [of "failed_update (sp_scope_hash q)" "sp_scope_hash q" None]
      by (simp add: case_prod_beta)
  next
    case plain
    show ?thesis unfolding defs plain using spawn_single_process_ok [OF k room' j c1] by simp
  next
    case move
    show ?thesis
      unfolding defs move spawn_single_transform_def Let_def
      using ended [of "failed_update (sp_scope_hash q)" "sp_scope_hash q" None] ended [of "done_update _" "sp_scope_hash q" None]
      by (simp add: case_prod_beta split: sum.splits)
  qed
qed

lemma spawn_chain_ok:
  assumes w: "ginv held w" and room: "unat (s_next_job (w_state w)) + leaf_count (sp_chain q) < 2 ^ 32"
    "unat (s_next_chain (w_state w)) + 1 < 2 ^ 32"
  shows "\<exists>r w2. spawn_chain ops v q w = Some (r, w2) \<and> ginv held w2"
proof (cases "if sp_scope_enabled q then validate_scope_transform_support (sp_chain q) else Inr ()")
  case (Inl msg)
  then show ?thesis using w unfolding spawn_chain_def by simp
next
  case (Inr un)
  then have v: "sp_scope_enabled q \<Longrightarrow> validate_scope_transform_support (sp_chain q) = Inr ()" by simp
  note defs = spawn_chain_def [of ops v q w, unfolded Inr sum.case Let_def alloc_chain_def prod.case]
  show ?thesis
  proof (cases "length (flatten_leaves (sp_chain q)) = 1")
    case True
    then have "leaf_count (sp_chain q) = 1" by (simp add: flatten_leaves_eq)
    then have "ginv held (snd (spawn_single ops v q (hd (flatten_leaves (sp_chain q))) w))"
      using spawn_single_ok [OF w] room(1) by simp
    then show ?thesis unfolding defs using True by (cases "spawn_single ops v q (hd (flatten_leaves (sp_chain q))) w") simp
  next
    case False
    let ?k = "core_of held w" and ?c = "ChainId (s_next_chain (w_state w))"
    define w1 where "w1 = w\<lparr>w_state := put_chain ?c (new_chain q) ((w_state w)\<lparr>s_next_chain := s_next_chain (w_state w) + 1\<rparr>)\<rparr>"
    have k: "kinv {} ?k" "chains_ok {} ?k" using w by (simp_all add: ginv_def)
    have c1: "core_of held w1 = ?k\<lparr>k_chain := (k_chain ?k)(ChainId (k_next_chain ?k) \<mapsto> new_chain q), k_next_chain := k_next_chain ?k + 1\<rparr>"
      by (simp add: w1_def core_of_def put_chain_def AList.update_conv')
    have fresh: "ch_D (new_chain q) = {}" by (simp add: new_chain_def)
    have "\<exists>oc w2. process_chain_advance ops v ?c (map (\<lambda>i. (i, sp_scope_hash q)) (initially_ready (sp_chain q))) []
        (length (initially_ready (sp_chain q))) (sp_retain_completed_chain q) w1 = Some (oc, w2) \<and> ginv held w2"
    proof (rule process_advance_ok)
      show "kinv {} (core_of held w1)" unfolding c1 by (rule kinv_new_chain [OF k(1) _ v]) (use room(2) in \<open>simp_all add: core_sel\<close>)
      show "chains_ok {?c} (core_of held w1)" using k(2) by (simp add: c1 chains_ok_def core_sel)
      show "k_chain (core_of held w1) ?c = Some (new_chain q)" by (simp add: c1 core_sel)
      show "unat (k_next (core_of held w1)) + leaf_count (ch_node (new_chain q)) < 2 ^ 32"
        using room(1) by (simp add: c1 core_sel new_chain_def)
      fix st2 assume "settled [] (ch_D (new_chain q)) (ch_st (new_chain q)) st2"
      then have "st2 = ch_st (new_chain q)" by (auto simp: settled_def)
      then show "chain_ok (ch_node (new_chain q)) st2 (ch_D (new_chain q)) \<and> queue_ok (ch_node (new_chain q)) st2 (ch_D (new_chain q))
          (map fst (map (\<lambda>i. (i, sp_scope_hash q)) (initially_ready (sp_chain q))))"
        using chain_ok_new [of "ch_st (new_chain q)" "sp_chain q"] new_chain_status [of q]
        by (simp add: fresh comp_def) (simp add: new_chain_def)
    qed
    then show ?thesis unfolding defs using False by (auto simp: w1_def)
  qed
qed

section \<open>Every turn returns and keeps the invariant\<close>

lemma update_ok:
  assumes w: "ginv held w" and u: "job_is_terminal (tu_status u)" "tu_advance_chain u" and room: "ids_left m (w_state w)"
    and w1: "core_of held w1 = core_of held w"
  shows "\<exists>e w2. apply_user_terminal_job_update ops v j u w1 = Some (e, w2) \<and> ginv held w2"
proof -
  have "unat (k_next (core_of held w1)) + leaf_count (ch_node ch) < 2 ^ 32" if "k_chain (core_of held w1) c = Some ch" for c ch
    using room that w1 by (auto simp: ids_left_def room_for_iff core_sel dest!: map_of_SomeD)
  then obtain e w2 where "end_and_advance ops v j u w1 = Some (e, w2)" "ginv held w2"
    using end_and_advance_ok [OF ginv_core [OF w w1] u] by blast
  then show ?thesis using retry_ok by (auto simp: apply_user_terminal_job_update_def)
qed

lemma finished_ok:
  assumes w: "ginv held w" and room: "ids_left m (w_state w)"
  shows "\<exists>w2. handle_job_finished ops v j code w = Some w2 \<and> ginv held w2"
proof -
  let ?u = "\<lparr>tu_status = (if code = 0 then job_status.Done else Failed), tu_exit_code = code, tu_end_scope = None, tu_advance_chain = True\<rparr>"
  have "job_is_terminal (tu_status ?u)" "tu_advance_chain ?u" by simp_all
  then obtain e w2 where "apply_user_terminal_job_update ops v j ?u w = Some (e, w2)" "ginv held w2"
    using update_ok [OF w _ _ room refl, of ?u v j] by blast
  then show ?thesis by (auto simp: handle_job_finished_def apply_user_terminal_job_update_def)
qed

lemma kill_ok:
  assumes w: "ginv held w" and room: "ids_left m (w_state w)"
  shows "\<exists>r w2. handle_kill_job ops v i w = Some (r, w2) \<and> ginv held w2"
proof -
  define x w1 where "x j = fst (kill_process_job v j w)" and "w1 j = snd (kill_process_job v j w)" for j
  then have k: "kill_process_job v j w = (x j, w1 j)" for j by simp
  have c: "core_of held (w1 j) = core_of held w" for j
    using arg_cong [OF k [of j], of "\<lambda>p. core_of held (snd p)"] by (simp add: kill_process_job_def)
  have up: "\<exists>e w2. apply_user_terminal_job_update ops v j kill_update (w1 j) = Some (e, w2) \<and> ginv held w2" for j
    by (rule update_ok [OF w _ _ room c]) (simp_all add: kill_update_def)
  show ?thesis
    unfolding handle_kill_job_def using w up ginv_core [OF w c]
    by (auto simp: k simp del: map_option_eq_Some intro!: answered split: option.split)
qed

lemma cancel_command_ok:
  assumes w: "ginv held w" and room: "ids_left m (w_state w)"
  shows "\<exists>r w2. handle_cancel_job ops v i w = Some (r, w2) \<and> ginv held w2"
proof -
  define x w1 where "x b j = fst (if b then kill_process_job v j w else (None, w))"
    and "w1 b j = snd (if b then kill_process_job v j w else (None, w))" for b j
  then have k: "(if b then kill_process_job v j w else (None, w)) = (x b j, w1 b j)" for b j by simp
  have c: "core_of held (w1 b j) = core_of held w" for b j
    using arg_cong [OF k [of b j], of "\<lambda>p. core_of held (snd p)"] by (auto simp: kill_process_job_def split: if_splits)
  have up: "\<exists>e w2. apply_user_terminal_job_update ops v j user_cancel_update (w1 b j) = Some (e, w2) \<and> ginv held w2" for b j
    by (rule update_ok [OF w _ _ room c]) (simp_all add: user_cancel_update_def)
  show ?thesis
    unfolding handle_cancel_job_def k using w up ginv_core [OF w c]
    by (auto simp del: map_option_eq_Some intro!: answered split: option.split)
qed

lemma cancel_job_ok:
  assumes w: "ginv held w" and room: "ids_left m (w_state w)"
  shows "\<exists>r w2. cancel_job_execution ops v j w = Some (r, w2) \<and> ginv held w2"
proof -
  define x w1 where "x b = fst (if b then cancel_process_job v j w else (None, w))"
    and "w1 b = snd (if b then cancel_process_job v j w else (None, w))" for b
  then have k: "(if b then cancel_process_job v j w else (None, w)) = (x b, w1 b)" for b by simp
  have c: "core_of held (w1 b) = core_of held w" for b
    using arg_cong [OF k [of b], of "\<lambda>p. core_of held (snd p)"] by (auto split: if_splits)
  have up: "\<exists>e w2. apply_user_terminal_job_update ops v j user_cancel_update (w1 b) = Some (e, w2) \<and> ginv held w2" for b
    by (rule update_ok [OF w _ _ room c]) (simp_all add: user_cancel_update_def)
  show ?thesis
    unfolding cancel_job_execution_def k using w up ginv_core [OF w c]
    by (auto simp del: map_option_eq_Some intro!: answered split: option.split)
qed

lemma cancel_chain_ok:
  assumes w: "ginv held w" and room: "ids_left m (w_state w)"
  shows "\<exists>r w2. cancel_chain_execution ops v c w = Some (r, w2) \<and> ginv held w2"
proof (cases "map_of (s_chains (w_state w)) c")
  case None
  then show ?thesis using w by (simp add: cancel_chain_execution_def)
next
  case (Some ch)
  have k: "kinv {} (core_of held w)" "chains_ok {} (core_of held w)" "k_chain (core_of held w) c = Some ch"
    using w Some by (simp_all add: ginv_def core_sel)
  have "\<exists>oc w2. process_chain_advance ops v c [] (map fl_index (flatten_leaves (ch_node ch))) 0 False w = Some (oc, w2) \<and> ginv held w2"
  proof (rule process_advance_ok [OF k(1) _ k(3)])
    show "chains_ok {c} (core_of held w)" using k(2) by (auto simp: chains_ok_def)
    show "unat (k_next (core_of held w)) + leaf_count (ch_node ch) < 2 ^ 32"
      using room Some by (auto simp: ids_left_def room_for_iff core_sel dest!: map_of_SomeD)
    fix st2 assume s: "settled (map fl_index (flatten_leaves (ch_node ch))) (ch_D ch) (ch_st ch) st2"
    have "\<forall>i\<in>set (map fl_index (flatten_leaves (ch_node ch))). i < leaf_count (ch_node ch)" unfolding flat_index by simp
    then have "chain_ok (ch_node ch) st2 (ch_D ch)" using chain_ok_cancel [OF chains_okD [OF k(2,3)] s] by blast
    then show "chain_ok (ch_node ch) st2 (ch_D ch) \<and> queue_ok (ch_node ch) st2 (ch_D ch) (map fst [])" by (simp add: queue_ok_def)
  qed
  then show ?thesis using Some by (auto simp: cancel_chain_execution_def)
qed

lemma wait_ok:
  assumes w: "ginv held w"
  shows "ginv held (on_state (\<lambda>s. snd (handle_wait_command i c rid s)) w)"
proof -
  let ?k = "core_of held w" and ?w = "on_state (\<lambda>s. snd (handle_wait_command i c rid s)) w"
  have "core_of held ?w = ?k \<or> (\<exists>j x. k_job ?k j = Some x \<and> \<not> job_is_terminal x \<and> core_of held ?w = ?k\<lparr>k_wait := insert j (k_wait ?k)\<rparr>)"
    by (auto simp: handle_wait_command_def core_of_def on_state_def Let_def AList.update_conv' dom_def split: option.splits sum.splits)
  then show ?thesis
  proof
    assume "\<exists>j x. k_job ?k j = Some x \<and> \<not> job_is_terminal x \<and> core_of held ?w = ?k\<lparr>k_wait := insert j (k_wait ?k)\<rparr>"
    then obtain j x where j: "k_job ?k j = Some x" "\<not> job_is_terminal x" "core_of held ?w = ?k\<lparr>k_wait := insert j (k_wait ?k)\<rparr>" by blast
    have k: "kinv {} ?k" "chains_ok {} ?k" using w by (simp_all add: ginv_def)
    have "kinv {} (?k\<lparr>k_wait := insert j (k_wait ?k)\<rparr>)" using kinvD [OF k(1)] j(1,2) unfolding kinv_def inv_defs by auto
    then show ?thesis using j(3) k(2) by (simp add: ginv_def chains_ok_def)
  qed (rule ginv_core [OF w])
qed

lemma pruned_ok:
  assumes w: "ginv held w" and ok: "msg_ok (MsgPruned js) (w_state w)"
  shows "ginv held (on_state (forget_jobs js) w)"
proof -
  let ?k = "core_of held w" and ?w = "on_state (forget_jobs js) w"
  have k: "kinv {} ?k" "chains_ok {} ?k" using w by (simp_all add: ginv_def)
  have t: "job_is_terminal x" if "j \<in> set js" "k_job ?k j = Some x" for j x
    using ok that by (fastforce simp: msg_ok_def core_sel)
  have c: "core_of held ?w = ?k\<lparr>k_job := (\<lambda>j. if j \<in> set js then None else k_job ?k j)\<rparr>"
    by (auto simp: core_of_def on_state_def forget_jobs_def map_of_fold_delete)
  let ?k' = "?k\<lparr>k_job := (\<lambda>j. if j \<in> set js then None else k_job ?k j)\<rparr>"
  have "match_inv ?k'"
    unfolding match_inv_def
  proof (intro allI impI)
    fix j c i ch assume a: "k_link ?k' j = Some (c, i)" "k_chain ?k' c = Some ch"
    then obtain l where l: "ch_st ch i = Some l" "leaf_matches (k_job ?k j) l" using matchD [OF k(1), of j c i ch] by auto
    have "leaf_matches None l" if "j \<in> set js"
      using l(2) t [OF that] matches_terminal by (cases "k_job ?k j") (auto simp: leaf_matches_def)
    then show "\<exists>l. ch_st ch i = Some l \<and> leaf_matches (k_job ?k' j) l" using l by auto
  qed
  moreover have "held_inv ?k'" using kinvD(5) [OF k(1)] t by (fastforce simp: held_inv_def)
  moreover have "wait_inv ?k'" using kinvD(6) [OF k(1)] t by (fastforce simp: wait_inv_def)
  moreover have "pend_inv {} ?k'" using kinvD(7) [OF k(1)] t by (fastforce simp: pend_inv_def)
  moreover have "fresh_inv ?k'" using kinvD(8) [OF k(1)] by (auto simp: fresh_inv_def)
  ultimately have "kinv {} ?k'" using kinvD(1,2,4) [OF k(1)] by (simp add: kinv_def link_inv_def back_inv_def form_inv_def)
  then show ?thesis using k(2) by (simp add: ginv_def c chains_ok_def)
qed

lemma retry_command_ok:
  assumes w: "ginv held w" and room: "ids_left (MsgRetry b i) (w_state w)" and ok: "msg_ok (MsgRetry b i) (w_state w)"
  shows "\<exists>r w2. handle_retry ops v b i w = Some (r, w2) \<and> ginv held w2"
proof (cases "Option.bind (sched_parse_job_id i) (map_of (s_jobs (w_state w)))")
  case None
  then show ?thesis using w by (auto simp: handle_retry_def split: option.splits)
next
  case (Some e)
  then obtain j where j: "sched_parse_job_id i = Some j" "map_of (s_jobs (w_state w)) j = Some e" by (auto simp: bind_eq_Some_conv)
  show ?thesis
  proof (cases "parse_chain_text (je_pipeline_text e)")
    case (Inl err)
    then show ?thesis using w j ok by (auto simp: handle_retry_def msg_ok_def split: option.splits chain_text_error.splits)
  next
    case (Inr n)
    let ?q = "\<lambda>start. \<lparr>sp_chain = n, sp_scope_hash = start, sp_process = retry_default b, sp_scope_enabled = False,
      sp_warnings = [], sp_retain_completed_chain = False, sp_session_id = je_session_id e\<rparr>"
    have "\<exists>r w2. spawn_chain ops v (?q start) w = Some (r, w2) \<and> ginv held w2" for start
      by (rule spawn_chain_ok [OF w]) (use room j Inr in \<open>simp_all add: ids_left_def room_for_iff\<close>)
    then show ?thesis using w j Inr by (auto simp: handle_retry_def split: option.splits)
  qed
qed

theorem turn_ok:
  assumes w: "ginv held w" and room: "ids_left m (w_state w)" and ok: "msg_ok m (w_state w)"
  shows "\<exists>w2. exec_turn ops v m w = Some w2 \<and> ginv held w2"
proof (cases m)
  case (MsgSpawn q)
  have "\<exists>r w2. spawn_chain ops v q w = Some (r, w2) \<and> ginv held w2"
    by (rule spawn_chain_ok [OF w]) (use room MsgSpawn in \<open>simp_all add: ids_left_def room_for_iff\<close>)
  then show ?thesis using MsgSpawn by auto
next
  case (MsgFinished j code)
  then show ?thesis using finished_ok [OF w room] by simp
next
  case (MsgKill i)
  then show ?thesis using kill_ok [OF w room, of v i] by auto
next
  case (MsgCancel i)
  then show ?thesis using cancel_command_ok [OF w room, of v i] by auto
next
  case (MsgRetry b i)
  then show ?thesis using retry_command_ok [OF w, of b i v] room ok by auto
next
  case (MsgCancelJob j)
  then show ?thesis using cancel_job_ok [OF w room, of v j] by auto
next
  case (MsgCancelChain c)
  then show ?thesis using cancel_chain_ok [OF w room, of v c] by auto
next
  case (MsgWait i c rid)
  then show ?thesis using wait_ok [OF w] by simp
next
  case (MsgPruned js)
  then show ?thesis using pruned_ok [OF w] ok by simp
qed

end

end
