(* ===== verification/ExecWait.thy ===== *)
theory ExecWait
  imports ExecTurn
begin

text \<open>
  Clients waiting for the end of a job.  Every operation either keeps a waiter or answers it with the
  entry of the ended job.
\<close>

section \<open>Waiters are kept or answered\<close>

definition waiting :: "job_id \<Rightarrow> pending_wait \<Rightarrow> 'r exec_world \<Rightarrow> bool" where
  "waiting j p w \<longleftrightarrow> (\<exists>ws. map_of (s_job_waiters (w_state w)) j = Some ws \<and> p \<in> set ws)"

definition answered_in :: "pending_wait \<Rightarrow> effect list \<Rightarrow> bool" where
  "answered_in p es \<longleftrightarrow> (\<exists>e. EffJobInfo (pw_client_id p) (pw_request_id p) e \<in> set es \<and> job_is_terminal (je_status e))"

text \<open>From \<open>w\<close> to \<open>w'\<close> the log grows by some effects, and a waiter that is gone is answered there.\<close>

definition serves :: "'r exec_world \<Rightarrow> 'r exec_world \<Rightarrow> bool" where
  "serves w w' \<longleftrightarrow> (\<exists>es. w_log w' = w_log w @ es \<and> (\<forall>j p. waiting j p w \<longrightarrow> waiting j p w' \<or> answered_in p es))"

lemma serves_refl [simp]: "serves w w"
  by (simp add: serves_def)

lemma serves_trans [trans]: "serves w w1 \<Longrightarrow> serves w1 w2 \<Longrightarrow> serves w w2"
  by (fastforce simp: serves_def answered_in_def)

lemma serves_same:
  assumes "s_job_waiters (w_state w') = s_job_waiters (w_state w)" "\<exists>es. w_log w' = w_log w @ es"
  shows "serves w w'"
  using assms by (auto simp: serves_def waiting_def)

lemma serves_step: "serves w w1 \<Longrightarrow> s_job_waiters (w_state w2) = s_job_waiters (w_state w1) \<Longrightarrow> \<exists>es. w_log w2 = w_log w1 @ es \<Longrightarrow> serves w w2"
  by (blast intro: serves_trans serves_same)

text \<open>Operations that leave the waiters alone and only add to the log.\<close>

definition silent :: "'r exec_world \<Rightarrow> 'r exec_world \<Rightarrow> bool" where
  "silent w w' \<longleftrightarrow> s_job_waiters (w_state w') = s_job_waiters (w_state w) \<and> (\<exists>es. w_log w' = w_log w @ es)"

lemma silent_refl [simp]: "silent w w"
  by (simp add: silent_def)

lemma silent_trans [trans]: "silent w w1 \<Longrightarrow> silent w1 w2 \<Longrightarrow> silent w w2"
  by (auto simp: silent_def)

lemma silent_serves: "silent w w' \<Longrightarrow> serves w w'"
  by (simp add: silent_def serves_same)

lemma silent_ops:
  "silent w (emit e w)"
  "(\<And>s. s_job_waiters (f s) = s_job_waiters s) \<Longrightarrow> silent w (on_state f w)"
  "silent w (w\<lparr>w_res := r\<rparr>)"
  by (auto simp: silent_def emit_def on_state_def)

lemma waiters_put [simp]:
  "s_job_waiters (put_job j e s) = s_job_waiters s" "s_job_waiters (put_chain c ch s) = s_job_waiters s"
  "s_job_waiters (update_leaf c i l s) = s_job_waiters s" "s_job_waiters (forget_resource_pending j s) = s_job_waiters s"
  "s_job_waiters (record_resource_pending j reason p s) = s_job_waiters s"
  "s_job_waiters (synchronize_pending_script_chain c info s) = s_job_waiters s"
  by (simp_all add: put_job_def put_chain_def update_leaf_def forget_resource_pending_def record_resource_pending_def
      synchronize_pending_script_chain_def Let_def split: option.splits)

lemma silent_publish:
  "silent w (publish_job_created j t sc hint w)" "silent w (publish_job_state_changed j a b es w)"
  "silent w (publish_chain_progress c w)"
  by (auto simp: publish_job_created_def publish_job_state_changed_def publish_chain_progress_def
      intro: silent_ops silent_trans [OF silent_ops(2) silent_ops(1)] split: option.splits)

lemma serves_put: "serves w (on_state (put_job j e) w)"
  by (rule silent_serves [OF silent_ops(2)]) simp

lemma serves_leaf: "serves w (on_state (update_leaf c i l) w)"
  by (rule silent_serves [OF silent_ops(2)]) simp

lemma silent_admit: "admit ops v j base needs w = (a, w1) \<Longrightarrow> silent w w1"
  by (auto simp: admit_def silent_ops split: prod.splits)

lemma silent_process:
  "spawn_process_job v j plan sc opts w = (r, w1) \<Longrightarrow> silent w w1"
  "kill_process_job v j w = (e, w1) \<Longrightarrow> silent w w1" "cancel_process_job v j w = (e, w1) \<Longrightarrow> silent w w1"
  by (auto simp: spawn_process_job_def kill_process_job_def cancel_process_job_def silent_ops split: option.splits sum.splits if_splits)

lemma silent_complete: "complete_chain c retain oc w = (oc1, w1) \<Longrightarrow> silent w w1"
  by (auto simp: complete_chain_def Let_def intro!: silent_ops split: option.splits if_splits)

section \<open>The end of a job answers its waiters\<close>

lemma emit_all_log [simp]: "w_log (emit_all es w) = w_log w @ es" "w_state (emit_all es w) = w_state w"
  by (induction es arbitrary: w) (simp_all add: emit_def)

lemma serves_notify:
  assumes "map_of (s_jobs (w_state w)) j = Some e" "job_is_terminal (je_status e)"
  shows "serves w (notify_job_waiters j w)"
proof (cases "map_of (s_job_waiters (w_state w)) j")
  case None
  then show ?thesis by (simp add: notify_job_waiters_def)
next
  case (Some ws)
  let ?es = "map (\<lambda>p. EffJobInfo (pw_client_id p) (pw_request_id p) e) ws"
  have n: "notify_job_waiters j w = emit_all ?es (on_state (\<lambda>s. s\<lparr>s_job_waiters := AList.delete j (s_job_waiters s)\<rparr>) w)"
    using Some assms(1) by (simp add: notify_job_waiters_def on_state_def Let_def)
  have "answered_in p ?es" if "p \<in> set ws" for p using that assms(2) by (auto simp: answered_in_def)
  then show ?thesis
    unfolding serves_def n using Some by (auto simp: waiting_def on_state_def AList.delete_conv')
qed

lemma serves_finish:
  assumes "job_is_terminal (tu_status u)" "finish_job ops v j e u w = (t, w1)"
  shows "serves w w1"
proof -
  let ?e = "e\<lparr>je_status := tu_status u, je_exit_code := Some (tu_exit_code u), je_end_scope := or_else (tu_end_scope u) (je_start_scope e)\<rparr>"
  let ?es = "or_else (je_end_scope ?e) (je_start_scope ?e)"
  let ?a = "on_state (put_job j ?e) w"
  let ?b = "on_state (forget_resource_pending j) (?a\<lparr>w_res := ro_release ops j (w_res ?a)\<rparr>)"
  let ?c = "publish_job_state_changed j (je_status e) (tu_status u) ?es ?b"
  have "silent w ?a" by (rule silent_ops(2)) simp
  also have "silent ?a (?a\<lparr>w_res := ro_release ops j (w_res ?a)\<rparr>)" by (rule silent_ops(3))
  also have "silent (?a\<lparr>w_res := ro_release ops j (w_res ?a)\<rparr>) ?b" by (rule silent_ops(2)) simp
  also have "silent ?b ?c" by (rule silent_publish)
  finally have "silent w ?c" .
  moreover have "serves ?c (notify_job_waiters j ?c)"
    by (rule serves_notify [of _ _ ?e])
      (simp_all add: assms(1) publish_job_state_changed_def emit_def on_state_def put_job_def forget_resource_pending_def
        AList.update_conv' split: option.splits)
  moreover have "silent (notify_job_waiters j ?c) w1"
    using assms unfolding finish_job_def Let_def
    by (auto simp: silent_ops split: option.splits prod.splits if_splits)
  ultimately show ?thesis by (meson silent_serves serves_trans)
qed

lemma serves_end:
  assumes "job_is_terminal (tu_status u)" "set_job_terminal_state ops v j u w = (t, w1)"
  shows "serves w w1"
  using assms(2) serves_finish [OF assms(1)]
  by (auto simp: set_job_terminal_state_def end_of_terminal_job_def Let_def serves_put split: option.splits if_splits)

lemma serves_end_snd: "job_is_terminal (tu_status u) \<Longrightarrow> serves w (snd (set_job_terminal_state ops v j u w))"
  by (cases "set_job_terminal_state ops v j u w") (simp add: serves_end)

lemma updates_terminal [simp]:
  "job_is_terminal (tu_status cancel_update)" "job_is_terminal (tu_status kill_update)"
  "job_is_terminal (tu_status user_cancel_update)"
  by (simp_all add: cancel_update_def kill_update_def user_cancel_update_def)

section \<open>Advancing and starting\<close>

lemma serves_cancel_leaves: "cancel_chain_leaves ops v c is w = (e, w1) \<Longrightarrow> serves w w1"
proof (induction "is" arbitrary: w e w1)
  case (Cons i js)
  show ?case
  proof (cases "Option.bind (map_of (s_chains (w_state w)) c) (\<lambda>ch. map_of (ch_leaf_jobs ch) i)")
    case None
    then have "serves (on_state (update_leaf c i LCancelled) w) w1" using Cons by simp
    then show ?thesis using serves_leaf serves_trans by blast
  next
    case (Some j)
    let ?run = "map_option je_status (map_of (s_jobs (w_state w)) j) = Some Running"
    obtain err wa where a: "(if ?run then cancel_process_job v j w else (None, w)) = (err, wa)" by (metis surj_pair)
    then have qa: "serves w wa" by (auto intro!: silent_serves silent_process split: if_splits)
    obtain t wb where b: "set_job_terminal_state ops v j cancel_update wa = (t, wb)" by (metis surj_pair)
    have qb: "serves wa wb" by (rule serves_end [OF _ b]) simp
    have eq: "cancel_chain_leaves ops v c (i # js) w = (case err of
        Some _ \<Rightarrow> cancel_chain_leaves ops v c js wa
      | None \<Rightarrow> (case cancel_chain_leaves ops v c js wb of (e, w3) \<Rightarrow> (or_else (to_persist_error t) e, w3)))"
      unfolding cancel_chain_leaves.simps Some option.case Let_def a prod.case b by (rule refl)
    show ?thesis
      using Cons.prems Cons.IH qa qb unfolding eq by (auto split: option.splits prod.splits intro: serves_trans)
  qed
qed simp

lemma serves_apply: "apply_terminal_chain_advance ops v c t oc wq w = (oc1, wq1, w1) \<Longrightarrow> serves w w1"
  by (auto simp: apply_terminal_chain_advance_def Let_def dest: serves_cancel_leaves split: option.splits prod.splits)

lemma serves_end_leaf:
  "end_leaf ops v c j u oc wq w = (oc1, wq1, w1) \<Longrightarrow> job_is_terminal (tu_status u) \<Longrightarrow> serves w w1"
  by (auto simp: end_leaf_def split: prod.splits intro: serves_trans dest!: serves_end serves_apply)

lemma silent_note:
  "silent w (on_state (\<lambda>s. case map_of (s_jobs s) j of None \<Rightarrow> s | Some e \<Rightarrow> put_job j (f e) s) w)"
  by (rule silent_ops(2)) (simp split: option.splits)

lemma serves_start_process:
  assumes "start_process_leaf ops v cx c j i leaf start oc wq w = (oc1, wq1, w1)"
  shows "serves w w1"
proof -
  let ?needs = "lo_needs (pc_launch (cx_process cx))"
  obtain a wa where a: "admit ops v j start ?needs w = (a, wa)" by (metis surj_pair)
  note wa = silent_serves [OF silent_admit [OF a]]
  note defs = assms [unfolded start_process_leaf_def Let_def a prod.case]
  consider (wait) reason where "a = Inr (AdmissionPending reason)" | (go) sc where "a = Inr (AdmissionGranted sc)" | (err) msg where "a = Inl msg"
    by (metis old.sum.exhaust resource_admission.exhaust)
  then show ?thesis
  proof cases
    case wait
    have "silent wa w1" using defs unfolding wait by (auto intro!: silent_trans [OF silent_ops(2) silent_ops(2)])
    then show ?thesis using wa by (blast intro: silent_serves serves_trans)
  next
    case go
    let ?b = "on_state (\<lambda>s. case map_of (s_jobs s) j of None \<Rightarrow> s | Some e \<Rightarrow> put_job j (e\<lparr>je_start_scope := Some sc\<rparr>) s) wa"
    have b: "serves wa ?b" by (rule silent_serves [OF silent_note])
    obtain r wc where c: "spawn_process_job v j (fl_plan leaf) sc (process_job_options_of (cx_process cx) (cx_session_id cx)) ?b = (r, wc)"
      by (rule prod.exhaust)
    have "serves wc w1" using defs unfolding go by (auto simp: c dest: serves_end_leaf split: option.splits)
    then show ?thesis using wa b silent_serves [OF silent_process(1) [OF c]] by (blast intro: serves_trans)
  next
    case err
    let ?b = "on_state (\<lambda>s. case map_of (s_jobs s) j of None \<Rightarrow> s | Some x \<Rightarrow> put_job j (x\<lparr>je_pending_reason := Some msg\<rparr>) s) wa"
    have b: "serves wa ?b" by (rule silent_serves [OF silent_note])
    have "serves ?b w1" using defs unfolding err by (auto dest: serves_end_leaf)
    then show ?thesis using wa b by (blast intro: serves_trans)
  qed
qed

lemma serves_start_leaf: "start_leaf ops v cx c j i leaf start oc wq w = (oc1, wq1, w1) \<Longrightarrow> serves w w1"
  by (auto simp: start_leaf_def dest: serves_start_process serves_end_leaf split: sum.splits option.splits if_splits)

lemma silent_enter_leaf: "silent w (enter_leaf cx c ch j i leaf start w)"
  unfolding enter_leaf_def by (rule silent_trans [OF silent_ops(2) silent_publish(1)]) simp

lemma silent_enter_single: "silent w (enter_single q j leaf start reason w)"
  unfolding enter_single_def by (rule silent_trans [OF silent_ops(2) silent_publish(1)]) simp

lemma serves_loop: "advance_loop n ops v cx c capture oc wq w = Some (oc1, w1) \<Longrightarrow> serves w w1"
proof (induction n ops v cx c capture oc wq w rule: advance_loop.induct)
  case (3 n ops v cx c capture oc i start wq w)
  let ?j = "JobId (s_next_job (w_state w))"
  let ?w1 = "w\<lparr>w_state := (w_state w)\<lparr>s_next_job := s_next_job (w_state w) + 1\<rparr>\<rparr>"
  have q: "serves w ?w1" by (rule serves_same) simp_all
  show ?case
  proof (cases "nth_opt (cx_leaves cx) i")
    case None
    then show ?thesis using "3.prems" by (simp add: alloc_job_def)
  next
    case leaf: (Some leaf)
    let ?oc = "if length (ao_captured oc) < capture then oc\<lparr>ao_captured := ao_captured oc @ [?j]\<rparr> else oc"
    show ?thesis
    proof (cases "map_of (s_chains (w_state w)) c")
      case None
      then show ?thesis using "3.prems" leaf q by (simp add: alloc_job_def)
    next
      case (Some ch)
      let ?e = "enter_leaf cx c ch ?j i leaf start ?w1"
      obtain oc2 wq2 w2 where l: "start_leaf ops v cx c ?j i leaf start ?oc wq ?e = (oc2, wq2, w2)" by (metis prod_cases3)
      have rest: "advance_loop n ops v cx c capture oc2 wq2 w2 = Some (oc1, w1)"
        using "3.prems" leaf Some l by (simp add: alloc_job_def Let_def)
      have "serves w2 w1"
        by (rule "3.IH" [OF _ refl leaf refl _ l [symmetric] refl rest]) (simp_all add: alloc_job_def Some)
      then show ?thesis
        using q silent_serves [OF silent_enter_leaf, of ?w1 cx c ch ?j i leaf start] serves_start_leaf [OF l] by (blast intro: serves_trans)
    qed
  qed
qed auto

lemma serves_advance:
  assumes "process_chain_advance ops v c ready cs capture retain w = Some (oc, w2)"
  shows "serves w w2"
proof -
  obtain e wa where a: "cancel_chain_leaves ops v c cs w = (e, wa)" by (metis surj_pair)
  note wa = serves_cancel_leaves [OF a]
  show ?thesis
  proof (cases "map_of (s_chains (w_state wa)) c")
    case None
    then show ?thesis using assms wa by (simp add: process_chain_advance_def a Let_def)
  next
    case (Some ch)
    obtain cx n oc0 oc1 wb where b: "advance_loop n ops v cx c capture oc0 ready wa = Some (oc1, wb)"
        "complete_chain c retain oc1 (publish_chain_progress c wb) = (oc, w2)"
      using assms unfolding process_chain_advance_def a prod.case Let_def Some option.case by auto
    show ?thesis
      using wa serves_loop [OF b(1)] silent_serves [OF silent_publish(3), of wb c] silent_serves [OF silent_complete [OF b(2)]]
      by (blast intro: serves_trans)
  qed
qed

lemma serves_spawn_process:
  assumes "spawn_single_process ops v q j leaf w = (r, w1)"
  shows "serves w w1"
proof -
  let ?needs = "lo_needs (pc_launch (sp_process q))" and ?sc = "sp_scope_hash q"
  obtain a wa where a: "admit ops v j ?sc ?needs w = (a, wa)" by (metis surj_pair)
  note wa = silent_serves [OF silent_admit [OF a]]
  note defs = assms [unfolded spawn_single_process_def Let_def a prod.case]
  note enter = silent_serves [OF silent_enter_single, of _ q j leaf]
  consider (wait) reason where "a = Inr (AdmissionPending reason)" | (go) sc where "a = Inr (AdmissionGranted sc)" | (err) msg where "a = Inl msg"
    by (metis old.sum.exhaust resource_admission.exhaust)
  then show ?thesis
  proof cases
    case wait
    have "silent wa w1"
      using defs unfolding wait by (auto intro!: silent_trans [OF silent_trans [OF silent_ops(2) silent_ops(2)] silent_publish(1)])
    then show ?thesis using wa by (blast intro: silent_serves serves_trans)
  next
    case go
    obtain x wb where b: "spawn_process_job v j (fl_plan leaf) sc (process_job_options_of (sp_process q) (sp_session_id q))
        (enter_single q j leaf sc None wa) = (x, wb)" by (metis surj_pair)
    have "serves wb w1" using defs unfolding go by (auto simp: b dest!: serves_end [rotated] split: option.splits prod.splits)
    then show ?thesis using wa enter [of wa sc None] silent_serves [OF silent_process(1) [OF b]] by (blast intro: serves_trans)
  next
    case err
    have "serves (enter_single q j leaf ?sc (Some msg) wa) w1"
      using defs unfolding err by (auto dest!: serves_end [rotated] split: prod.splits)
    then show ?thesis using wa enter [of wa ?sc "Some msg"] by (blast intro: serves_trans)
  qed
qed

lemma serves_spawn_single:
  assumes "spawn_single ops v q leaf w = (r, w1)"
  shows "serves w w1"
proof -
  let ?j = "JobId (s_next_job (w_state w))"
  let ?w1 = "w\<lparr>w_state := (w_state w)\<lparr>s_next_job := s_next_job (w_state w) + 1\<rparr>\<rparr>"
  have q: "serves w ?w1" by (rule serves_same) simp_all
  note enter = silent_serves [OF silent_enter_single, of ?w1 q ?j leaf]
  let ?r = "if sp_scope_enabled q then scope_transform_from_command (flat_leaf_command leaf) else Inr None"
  note defs = assms [unfolded spawn_single_def alloc_job_def prod.case Let_def]
  consider (bad) msg where "?r = Inl msg" | (plain) "?r = Inr None" | (move) t where "?r = Inr (Some t)"
    by (metis old.sum.exhaust option.exhaust)
  then show ?thesis
  proof cases
    case bad
    have "serves (enter_single q ?j leaf (sp_scope_hash q) None ?w1) w1"
      using defs unfolding bad by (auto dest!: serves_end [rotated] split: prod.splits)
    then show ?thesis using q enter [of "sp_scope_hash q" None] by (blast intro: serves_trans)
  next
    case plain
    then have "serves ?w1 w1" using defs serves_spawn_process by auto
    then show ?thesis using q by (blast intro: serves_trans)
  next
    case move
    have "serves (enter_single q ?j leaf (sp_scope_hash q) None ?w1) w1"
      using defs unfolding move spawn_single_transform_def Let_def
      by (auto dest!: serves_end [rotated] split: prod.splits sum.splits)
    then show ?thesis using q enter [of "sp_scope_hash q" None] by (blast intro: serves_trans)
  qed
qed

lemma serves_spawn_chain:
  assumes "spawn_chain ops v q w = Some (r, w2)"
  shows "serves w w2"
proof -
  let ?w1 = "w\<lparr>w_state := put_chain (ChainId (s_next_chain (w_state w))) (new_chain q) ((w_state w)\<lparr>s_next_chain := s_next_chain (w_state w) + 1\<rparr>)\<rparr>"
  have q: "serves w ?w1" by (rule serves_same) simp_all
  show ?thesis
    using assms unfolding spawn_chain_def alloc_chain_def prod.case Let_def
    by (auto split: sum.splits if_splits dest!: serves_advance dest: serves_spawn_single intro: serves_trans [OF q])
qed

section \<open>Retries and handlers\<close>

lemma silent_retry_state:
  "silent w (on_state (\<lambda>s. s\<lparr>s_pending_resource := AList.delete j (s_pending_resource s)\<rparr>) w)"
  "silent w (on_state (\<lambda>s. (case map_of (s_jobs s) j of None \<Rightarrow> s | Some e \<Rightarrow> put_job j (f e) s)
      \<lparr>s_pending_resource_jobs := s_pending_resource_jobs s @ [j]\<rparr>) w)"
  "silent w (on_state (\<lambda>s. (case map_of (s_jobs s) j of None \<Rightarrow> s | Some e \<Rightarrow> put_job j (f e) s)
      \<lparr>s_pending_resource := AList.delete j (s_pending_resource s)\<rparr>) w)"
  "silent w (on_state (\<lambda>s. case map_of (s_job_to_chain s) j of None \<Rightarrow> s | Some (c, i) \<Rightarrow> update_leaf c i l s) w)"
  by (rule silent_ops(2), simp split: option.splits)+

lemma serves_retry_one: "serves w (retry_one ops v j w)"
proof (cases "map_of (s_pending_resource (w_state w)) j")
  case None
  then show ?thesis by (simp add: retry_one_def)
next
  case (Some p)
  show ?thesis
  proof (cases "map_option je_status (map_of (s_jobs (w_state w)) j) = Some Pending")
    case False
    then show ?thesis using Some by (simp add: retry_one_def silent_serves [OF silent_retry_state(1)])
  next
    case True
    obtain a wa where a: "admit ops v j (pr_base_scope p) (pr_needs p) w = (a, wa)" by (metis surj_pair)
    note wa = silent_serves [OF silent_admit [OF a]]
    consider (wait) reason where "a = Inr (AdmissionPending reason)" | (go) sc where "a = Inr (AdmissionGranted sc)" | (err) msg where "a = Inl msg"
      by (metis old.sum.exhaust resource_admission.exhaust)
    then show ?thesis
    proof cases
      case wait
      then show ?thesis
        using Some True a serves_trans [OF wa silent_serves [OF silent_retry_state(2)]] by (simp add: retry_one_def)
    next
      case go
      let ?w2 = "on_state (\<lambda>s. s\<lparr>s_pending_resource := AList.delete j (s_pending_resource s)\<rparr>) wa"
      have w2: "serves w ?w2" by (rule serves_trans [OF wa silent_serves [OF silent_retry_state(1)]])
      show ?thesis
      proof (cases "map_of (s_jobs (w_state ?w2)) j")
        case None
        then show ?thesis using Some True a go w2 by (simp add: retry_one_def Let_def)
      next
        case e: (Some e)
        define w4 where "w4 = on_state (\<lambda>s. case map_of (s_job_to_chain s) j of None \<Rightarrow> s | Some (c, i) \<Rightarrow> update_leaf c i LRunning s)
          (on_state (put_job j (e\<lparr>je_status := Running, je_pending_reason := None, je_start_scope := Some sc\<rparr>)) ?w2)"
        define w5 where "w5 = publish_job_state_changed j (je_status e) Running None w4"
        define w6 where "w6 = (case je_chain_id e of None \<Rightarrow> w5 | Some c \<Rightarrow> publish_chain_progress c w5)"
        obtain x w7 where x: "spawn_process_job v j (pr_plan p) sc (pr_options p) w6 = (x, w7)" by (metis surj_pair)
        have "serves ?w2 w4" unfolding w4_def using serves_put silent_serves [OF silent_retry_state(4)] by (blast intro: serves_trans)
        moreover have "serves w4 w5" unfolding w5_def by (rule silent_serves [OF silent_publish(2)])
        moreover have "serves w5 w6" unfolding w6_def by (simp add: silent_serves [OF silent_publish(3)] split: option.splits)
        ultimately have w7: "serves w w7" using w2 silent_serves [OF silent_process(1) [OF x]] by (blast intro: serves_trans)
        have eq: "retry_one ops v j w = (case x of None \<Rightarrow> w7 | Some _ \<Rightarrow> snd (set_job_terminal_state ops v j (failed_update sc) w7))"
          unfolding retry_one_def Some option.case if_not_P [OF not_not [THEN iffD2, OF True]] a go prod.case sum.case resource_admission.case Let_def e
          unfolding w4_def [symmetric] w5_def [symmetric] w6_def [symmetric] x prod.case by (rule refl)
        have "serves w7 (snd (set_job_terminal_state ops v j (failed_update sc) w7))" by (rule serves_end_snd) simp
        then show ?thesis unfolding eq using w7 by (auto split: option.splits intro: serves_trans)
      qed
    next
      case err
      let ?b = "on_state (\<lambda>s. (case map_of (s_jobs s) j of None \<Rightarrow> s | Some x \<Rightarrow> put_job j (x\<lparr>je_pending_reason := Some msg\<rparr>) s)
        \<lparr>s_pending_resource := AList.delete j (s_pending_resource s)\<rparr>) wa"
      have "serves w ?b" by (rule serves_trans [OF wa silent_serves [OF silent_retry_state(3)]])
      also have "serves ?b (snd (set_job_terminal_state ops v j (failed_update (pr_base_scope p)) ?b))" by (rule serves_end_snd) simp
      finally show ?thesis
        unfolding retry_one_def Some option.case if_not_P [OF not_not [THEN iffD2, OF True]] a err prod.case sum.case .
    qed
  qed
qed

lemma serves_retry_loop: "serves w (retry_loop n ops v w)"
proof (induction n arbitrary: w)
  case (Suc n)
  have q: "serves w (on_state (\<lambda>s. s\<lparr>s_pending_resource_jobs := js\<rparr>) w)" for js by (rule silent_serves [OF silent_ops(2)]) simp
  show ?case using serves_trans [OF serves_trans [OF q serves_retry_one] Suc] by (auto split: list.splits)
qed simp

lemma serves_retry: "serves w (retry_pending_resource_admissions ops v w)"
  by (simp add: retry_pending_resource_admissions_def serves_retry_loop)

lemma serves_end_advance:
  assumes "end_and_advance ops v j u w = Some (e, w2)" "job_is_terminal (tu_status u)"
  shows "serves w w2"
  using assms by (auto simp: end_and_advance_def split: prod.splits option.splits intro: serves_trans
      dest!: serves_end [OF assms(2)] serves_advance)

lemma serves_update:
  assumes "apply_user_terminal_job_update ops v j u w = Some (e, w2)" "job_is_terminal (tu_status u)"
  shows "serves w w2"
  using assms by (auto simp: apply_user_terminal_job_update_def intro: serves_trans [OF _ serves_retry] dest!: serves_end_advance)

lemma serves_wait: "serves w (on_state (\<lambda>s. snd (handle_wait_command i c rid s)) w)"
  by (auto simp: serves_def waiting_def on_state_def handle_wait_command_def Let_def AList.update_conv'
      split: option.splits sum.splits)

theorem turn_serves:
  assumes "exec_turn ops v m w = Some w2"
  shows "serves w w2"
proof (cases m)
  case (MsgSpawn q)
  then show ?thesis using assms serves_spawn_chain by auto
next
  case (MsgFinished j code)
  then show ?thesis
    using assms by (auto simp: handle_job_finished_def intro: serves_trans [OF _ serves_retry] dest!: serves_end_advance)
next
  case (MsgKill i)
  then show ?thesis
    using assms by (auto simp: handle_kill_job_def split: option.splits prod.splits if_splits
        intro: serves_trans dest!: serves_update silent_process(2) [THEN silent_serves])
next
  case (MsgCancel i)
  then show ?thesis
    using assms by (auto simp: handle_cancel_job_def split: option.splits prod.splits if_splits
        intro: serves_trans dest!: serves_update silent_process(2) [THEN silent_serves])
next
  case (MsgRetry b i)
  then show ?thesis
    using assms by (auto simp: handle_retry_def split: option.splits sum.splits chain_text_error.splits if_splits dest!: serves_spawn_chain)
next
  case (MsgCancelJob j)
  then show ?thesis
    using assms by (auto simp: cancel_job_execution_def split: option.splits prod.splits if_splits
        intro: serves_trans dest!: serves_update silent_process(3) [THEN silent_serves])
next
  case (MsgCancelChain c)
  then show ?thesis using assms by (auto simp: cancel_chain_execution_def split: option.splits dest!: serves_advance)
next
  case (MsgWait i c rid)
  then show ?thesis using assms serves_wait by auto
next
  case (MsgPruned js)
  then show ?thesis using assms by (auto simp: forget_jobs_def intro!: silent_serves silent_ops(2))
qed

end
