(* ===== verification/ExecTheorems.thy ===== *)
theory ExecTheorems
  imports ExecWait
begin

text \<open>
  The properties of job and chain execution, over every sequence of turns from the state the daemon
  starts in.  The contract \<open>resource_manager\<close> is interpreted on the resource registry.
\<close>

section \<open>The registry as a resource manager\<close>

text \<open>
  A routing panic of the registry cannot happen for a registry built from providers, see
  \<open>registry_ops_exact\<close>; it is reported as a rejection of the provider.
\<close>

definition reject_of :: "reserve_error \<Rightarrow> reject_group" where
  "reject_of e = (case e of Rejected g \<Rightarrow> g | RoutePanic p \<Rightarrow> \<lparr>rg_provider = p, rg_reject = reject_new []\<rparr>)"

definition registry_ops :: "'s registry resource_ops" where
  "registry_ops =
     \<lparr>ro_reserve = (\<lambda>j needs R. case try_reserve j needs R of
        (Inl e, R') \<Rightarrow> (Inl (reject_of e), R') | (Inr gs, R') \<Rightarrow> (Inr gs, R')),
      ro_release = (\<lambda>j R. snd (registry_release j R))\<rparr>"

definition registry_held :: "'s registry \<Rightarrow> job_id set" where
  "registry_held R = dom (map_of (reservations R))"

lemma reserve_loop_no_panic:
  "\<forall>i\<in>fst ` set items. bt_get ps i \<noteq> None \<Longrightarrow> reserve_loop ps job need items A st \<noteq> (Inl (RoutePanic p), st')"
  by (induction items arbitrary: A st) (auto split: option.splits prod.splits sum.splits)

lemma registry_ops_exact:
  assumes "registry_ok R"
  shows "ro_reserve registry_ops j needs R = (Inl g, R') \<longleftrightarrow> try_reserve j needs R = (Inl (Rejected g), R')"
    and "ro_reserve registry_ops j needs R = (Inr gs, R') \<longleftrightarrow> try_reserve j needs R = (Inr gs, R')"
proof -
  let ?items = "group_keys (key_to_provider R) (bt_keys needs)"
  have "\<forall>i\<in>fst ` set ?items. bt_get (by_id R) i \<noteq> None"
    using group_items [OF refl, of "key_to_provider R" "bt_keys needs"] assms by (auto simp: registry_ok_def)
  then have "reserve_loop (by_id R) j needs ?items [] (pstate R) \<noteq> (Inl (RoutePanic p), st)" for p st
    by (rule reserve_loop_no_panic)
  then have "try_reserve j needs R \<noteq> (Inl (RoutePanic p), R2)" for p R2
    by (auto simp: try_reserve_def Let_def split: prod.splits sum.splits)
  then show "ro_reserve registry_ops j needs R = (Inl g, R') \<longleftrightarrow> try_reserve j needs R = (Inl (Rejected g), R')"
    "ro_reserve registry_ops j needs R = (Inr gs, R') \<longleftrightarrow> try_reserve j needs R = (Inr gs, R')"
    by (auto simp: registry_ops_def reject_of_def split: prod.splits sum.splits reserve_error.splits)
qed

lemma registry_ok_kept:
  assumes "registry_ok R"
  shows "registry_ok (snd (ro_reserve registry_ops j needs R))" "registry_ok (ro_release registry_ops j R)"
  using assms unfolding registry_ok_def registry_ops_def
  by (simp_all add: try_reserve_def registry_release_def Let_def split: prod.splits sum.splits)

interpretation reg: resource_manager registry_ops registry_held
  by unfold_locales
    (auto simp: registry_ops_def registry_held_def try_reserve_def registry_release_def Let_def AList.update_conv'
      AList.delete_conv' split: prod.splits sum.splits if_splits)

section \<open>Reachable worlds\<close>

text \<open>The daemon starts without chains, waiters and reservations, and the jobs of its history have ended.\<close>

definition exec_start :: "'s registry exec_world \<Rightarrow> bool" where
  "exec_start w \<longleftrightarrow> s_chains (w_state w) = [] \<and> s_job_to_chain (w_state w) = [] \<and> s_job_waiters (w_state w) = [] \<and>
     s_pending_resource (w_state w) = [] \<and> s_pending_resource_jobs (w_state w) = [] \<and> reservations (w_res w) = [] \<and>
     (\<forall>n e. map_of (s_jobs (w_state w)) (JobId n) = Some e \<longrightarrow> job_is_terminal (je_status e) \<and> n < s_next_job (w_state w))"

text \<open>
  A turn handles one message, with any answers of the other actors; other handlers (sessions, crons)
  leave the core alone.
\<close>

inductive exec_reach :: "'s registry exec_world \<Rightarrow> bool" where
  start: "exec_start w \<Longrightarrow> exec_reach w"
| turn: "exec_reach w \<Longrightarrow> ids_left m (w_state w) \<Longrightarrow> msg_ok m (w_state w) \<Longrightarrow>
    exec_turn registry_ops v m w = Some w' \<Longrightarrow> exec_reach w'"
| other: "exec_reach w \<Longrightarrow> core_of registry_held w' = core_of registry_held w \<Longrightarrow> exec_reach w'"

lemma start_ginv:
  assumes "exec_start w"
  shows "ginv registry_held w"
proof -
  have "\<not> job_is_terminal (je_status e) \<longrightarrow> map_of (s_jobs (w_state w)) j \<noteq> Some e" for j e
    using assms by (cases j) (auto simp: exec_start_def)
  then show ?thesis
    using assms unfolding exec_start_def ginv_def kinv_def inv_defs chains_ok_def core_of_def registry_held_def
    by fastforce
qed

lemma reach_ginv: "exec_reach w \<Longrightarrow> ginv registry_held w"
proof (induction rule: exec_reach.induct)
  case (turn w m v w')
  then show ?case using reg.turn_ok [OF turn.IH turn.hyps(2,3), of v] by auto
qed (auto intro: start_ginv ginv_core)

lemma reach_core:
  assumes "exec_reach w"
  shows "kinv {} (core_of registry_held w)" "chains_ok {} (core_of registry_held w)"
  using reach_ginv [OF assms] by (simp_all add: ginv_def)

section \<open>Runs\<close>

fun exec_run :: "'r resource_ops \<Rightarrow> (exec_env \<times> exec_msg) list \<Rightarrow> 'r exec_world \<Rightarrow> 'r exec_world option" where
  "exec_run ops [] w = Some w"
| "exec_run ops ((v, m) # ms) w = Option.bind (exec_turn ops v m w) (exec_run ops ms)"

text \<open>A run in which the counters do not wrap and the messages are well formed.\<close>

fun run_ok :: "(exec_env \<times> exec_msg) list \<Rightarrow> 's registry exec_world \<Rightarrow> bool" where
  "run_ok [] w \<longleftrightarrow> True"
| "run_ok ((v, m) # ms) w \<longleftrightarrow> ids_left m (w_state w) \<and> msg_ok m (w_state w) \<and>
     (case exec_turn registry_ops v m w of None \<Rightarrow> True | Some w1 \<Rightarrow> run_ok ms w1)"

lemma run_reach: "exec_reach w \<Longrightarrow> run_ok ms w \<Longrightarrow> exec_run registry_ops ms w = Some w' \<Longrightarrow> exec_reach w'"
proof (induction ms arbitrary: w)
  case (Cons x ms)
  then show ?case by (cases x) (auto simp: bind_eq_Some_conv dest: exec_reach.turn)
qed simp

lemma run_returns: "exec_reach w \<Longrightarrow> run_ok ms w \<Longrightarrow> \<exists>w'. exec_run registry_ops ms w = Some w'"
proof (induction ms arbitrary: w)
  case (Cons x ms)
  obtain v m where x: "x = (v, m)" by (cases x)
  have g: "ids_left m (w_state w)" "msg_ok m (w_state w)" using Cons.prems(2) by (simp_all add: x)
  obtain w1 where w1: "exec_turn registry_ops v m w = Some w1" using reg.turn_ok [OF reach_ginv [OF Cons.prems(1)] g] by blast
  then show ?case using Cons.IH [OF exec_reach.turn [OF Cons.prems(1) g w1]] Cons.prems(2) by (auto simp: x)
qed simp

lemma run_serves: "exec_run ops ms w = Some w' \<Longrightarrow> serves w w'"
proof (induction ms arbitrary: w)
  case (Cons x ms)
  then show ?case by (cases x) (auto simp: bind_eq_Some_conv dest: serves_trans [OF turn_serves])
qed simp

lemma trim_show_job [simp]: "trim (show_job_id j) = show_job_id j"
proof (cases j)
  case (JobId n)
  have "word_ok (show_u32 n)" by (rule all_digits_word_ok) (simp add: all_digits_show_u32)
  then have "word_ok (''J'' @ show_u32 n)" by (intro word_ok_append) (simp_all add: word_ok_def is_whitespace_def)
  then show ?thesis using JobId by (simp add: trim_word)
qed

lemma sched_parse_show [simp]: "sched_parse_job_id (show_job_id j) = Some j"
  by (simp add: sched_parse_job_id_def job_codec.parse_print ok_def)

section \<open>An example\<close>

text \<open>
  A provider with one slot, actors that answer without error except that the process of a given job
  cannot be started, and a request for the slot.
\<close>

definition slot_provider :: "bool provider" where
  "slot_provider =
     \<lparr>p_id = ProviderId ''slot'', p_keys = [''slot''], p_probe = (\<lambda>s. (snapshot_at (ProviderId ''slot'') [] 0, s)),
      p_reserve = (\<lambda>r s. if s then (Inl (reject_new ''busy''), s)
        else (Inr (reservation_new 0 (ReservationId ''r'') (rr_job r) (ProviderId ''slot'')), True)),
      p_release = (\<lambda>_ _. False)\<rparr>"

definition slot_registry :: "bool registry" where
  "slot_registry =
     \<lparr>providers = [slot_provider], by_id = [(ProviderId ''slot'', slot_provider)],
      key_to_provider = [(''slot'', ProviderId ''slot'')], reservations = [], pstate = (\<lambda>_. False)\<rparr>"

definition slot_world :: "bool registry exec_world" where
  "slot_world = \<lparr>w_state = scheduler_new, w_res = slot_registry, w_log = []\<rparr>"

definition plain_env :: "job_id option \<Rightarrow> exec_env" where
  "plain_env bad =
     \<lparr>xv_persist = (\<lambda>_. None), xv_spawn = (\<lambda>j. if Some j = bad then Some ''cannot start'' else None),
      xv_kill = (\<lambda>_. Inr ()), xv_derive = (\<lambda>h _. Inr h), xv_snapshot = (\<lambda>_. Inl ''no scope''),
      xv_canonical_dir = Inr, xv_debug = (\<lambda>_. [])\<rparr>"

definition one_word :: "string \<Rightarrow> chain_node" where
  "one_word x = Leaf (PipelinePlan \<lparr>segments = [\<lparr>ps_command = [x], ps_pipe_to_next = None\<rparr>]\<rparr>)"

definition slot_request :: "chain_node \<Rightarrow> spawn_request" where
  "slot_request n =
     \<lparr>sp_chain = n, sp_scope_hash = ScopeHash [], sp_process = (retry_default False)\<lparr>pc_launch :=
        default_launch_options\<lparr>lo_needs := [(''slot'', Count 1)]\<rparr>\<rparr>,
      sp_scope_enabled = False, sp_warnings = [], sp_retain_completed_chain = False, sp_session_id = None\<rparr>"

definition slot_run :: "(exec_env \<times> exec_msg) list" where
  "slot_run =
     [(plain_env None, MsgSpawn (slot_request (one_word ''x''))),
      (plain_env None, MsgSpawn (slot_request (Serial (one_word ''a'') Always (one_word ''b''))))]"

definition waiting_world :: "bool registry exec_world" where
  "waiting_world = the (exec_run registry_ops slot_run slot_world)"

lemma slot_start: "exec_reach slot_world"
  by (rule exec_reach.start) (simp add: exec_start_def slot_world_def slot_registry_def scheduler_new_def)

definition asking_world :: "bool registry exec_world" where
  "asking_world = on_state (\<lambda>s. s\<lparr>s_job_waiters := [(JobId 1, [\<lparr>pw_client_id = 7, pw_request_id = 3\<rparr>])]\<rparr>) waiting_world"

definition end_run :: "(exec_env \<times> exec_msg) list" where
  "end_run = [(plain_env None, MsgFinished (JobId 1) 0)]"

definition stalled_leaves :: "(exec_env \<times> exec_msg) list \<Rightarrow> ((nat \<times> leaf_status) list option \<times> (job_id \<times> job_status) list \<times> job_id list) option" where
  "stalled_leaves ms =
     map_option (\<lambda>w. (map_option ch_leaf_status (map_of (s_chains (w_state w)) (ChainId 1)),
         map (\<lambda>(j, e). (j, je_status e)) (s_jobs (w_state w)), s_pending_resource_jobs (w_state w)))
       (exec_run registry_ops ms slot_world)"

text \<open>The run evaluated once.\<close>

lemma slot_facts:
  "run_ok slot_run slot_world
   \<and> map_option ch_leaf_jobs (map_of (s_chains (w_state waiting_world)) (ChainId 1)) = Some [(0, JobId 2)]
   \<and> \<not> Option.is_none (map_of (reservations (w_res waiting_world)) (JobId 1))
   \<and> authorize_session_owned_target (w_state waiting_world) (named_session_id_for_client (w_state waiting_world) 7)
       (TargetJob (JobId 1)) = Inr ()
   \<and> map_option je_status (map_of (s_jobs (w_state waiting_world)) (JobId 1)) = Some Running
   \<and> s_job_waiters (w_state waiting_world) = []
   \<and> show_job_id (JobId 1) = ''J1''
   \<and> ids_left (MsgWait ''J1'' 7 3) (w_state waiting_world)
   \<and> run_ok end_run asking_world
   \<and> Option.bind (exec_run registry_ops end_run asking_world)
       (\<lambda>w. map_option je_status (map_of (s_jobs (w_state w)) (JobId 1))) = Some job_status.Done
   \<and> stalled_leaves (slot_run @ [(plain_env (Some (JobId 2)), MsgFinished (JobId 1) 0)])
       = Some (Some [(0, LFailed EXIT_CODE_UNAVAILABLE), (1, LPending)], [(JobId 1, job_status.Done), (JobId 2, Failed)], [])
   \<and> stalled_leaves [(plain_env (Some (JobId 1)), MsgSpawn (slot_request (Serial (one_word ''a'') Always (one_word ''b''))))]
       = Some (Some [(0, LFailed EXIT_CODE_UNAVAILABLE), (1, LRunning)], [(JobId 1, Failed), (JobId 2, Running)], [])"
  by code_simp

lemma slot_run_ok: "run_ok slot_run slot_world"
  using slot_facts by (elim conjE)

lemma waiting_world: "exec_reach waiting_world"
  using run_returns [OF slot_start slot_run_ok] run_reach [OF slot_start slot_run_ok] by (auto simp: waiting_world_def)

section \<open>Properties\<close>

text \<open>
  C14. Order of a chain.  In every reachable state a leaf of a chain has a job only when every leaf its
  operators put before it has ended, and ended with success under \<^verbatim>\<open>->\<close>; the job is linked back to this
  leaf alone and the recorded status of the leaf is that of the job (the job of an ended leaf may be gone
  from the history).
\<close>

theorem chain_jobs_start_in_order:
  assumes "exec_reach w" "map_of (s_chains (w_state w)) c = Some ch" "map_of (ch_leaf_jobs ch) i = Some j"
  shows "i < leaf_count (ch_node ch) \<and> gates_open (ch_node ch) 0 (map_of (ch_leaf_status ch)) i
    \<and> map_of (s_job_to_chain (w_state w)) j = Some (c, i)
    \<and> (\<exists>l. map_of (ch_leaf_status ch) i = Some l \<and> leaf_matches (map_option je_status (map_of (s_jobs (w_state w)) j)) l)"
proof (intro conjI)
  let ?k = "core_of registry_held w"
  note k = reach_core [OF assms(1)]
  have c: "k_chain ?k c = Some ch" using assms(2) by (simp add: core_sel)
  have "chain_ok (ch_node ch) (ch_st ch) (ch_D ch)" using chains_okD [OF k(2) c] by simp
  then show "i < leaf_count (ch_node ch)" "gates_open (ch_node ch) 0 (map_of (ch_leaf_status ch)) i"
    using assms(3) by (auto simp: chain_ok_def)
  have l: "k_link ?k j = Some (c, i)" by (rule linkD [OF k(1) c assms(3)])
  then show "map_of (s_job_to_chain (w_state w)) j = Some (c, i)" by (simp add: core_sel)
  show "\<exists>l. map_of (ch_leaf_status ch) i = Some l \<and> leaf_matches (map_option je_status (map_of (s_jobs (w_state w)) j)) l"
    using matchD [OF k(1) l c] by (simp add: core_sel)
qed

theorem chain_jobs_start_in_order_witness:
  "map_of (s_job_to_chain (w_state waiting_world)) (JobId 2) = Some (ChainId 1, 0)"
proof -
  have "map_option ch_leaf_jobs (map_of (s_chains (w_state waiting_world)) (ChainId 1)) = Some [(0, JobId 2)]" using slot_facts by (elim conjE)
  then obtain ch where "map_of (s_chains (w_state waiting_world)) (ChainId 1) = Some ch" "ch_leaf_jobs ch = [(0, JobId 2)]" by auto
  then show ?thesis using chain_jobs_start_in_order [OF waiting_world, of "ChainId 1" ch 0 "JobId 2"] by simp
qed

text \<open>
  C15. Every message is handled: a run of the scheduler over well-formed messages never runs out of the
  fuel of its work queues and meets no index out of range, whatever the other actors answer.
\<close>

theorem every_run_returns:
  assumes "exec_reach w" "run_ok ms w"
  shows "\<exists>w'. exec_run registry_ops ms w = Some w' \<and> exec_reach w'"
  using run_returns [OF assms] run_reach [OF assms] by blast

theorem every_run_returns_witness: "\<exists>w'. exec_run registry_ops slot_run slot_world = Some w' \<and> exec_reach w'"
  by (rule every_run_returns [OF slot_start slot_run_ok])

text \<open>
  C16. Bookkeeping.  In every reachable state only running jobs hold reservations, the jobs pending for
  resources are exactly those recorded with their request and stand in the retry queue exactly once, and
  clients wait only for jobs that have not ended.
\<close>

theorem execution_bookkeeping_exact:
  assumes "exec_reach w"
  shows "(map_of (reservations (w_res w)) j \<noteq> None \<longrightarrow> map_option je_status (map_of (s_jobs (w_state w)) j) = Some Running)
    \<and> (map_of (s_pending_resource (w_state w)) j \<noteq> None \<longleftrightarrow> map_option je_status (map_of (s_jobs (w_state w)) j) = Some Pending)
    \<and> (j \<in> set (s_pending_resource_jobs (w_state w)) \<longleftrightarrow> map_of (s_pending_resource (w_state w)) j \<noteq> None)
    \<and> distinct (s_pending_resource_jobs (w_state w))
    \<and> (map_of (s_job_waiters (w_state w)) j \<noteq> None \<longrightarrow>
         (\<exists>e. map_of (s_jobs (w_state w)) j = Some e \<and> \<not> job_is_terminal (je_status e)))"
proof (intro conjI)
  note k = kinvD(5-7) [OF reach_core(1) [OF assms]]
  show "map_of (reservations (w_res w)) j \<noteq> None \<longrightarrow> map_option je_status (map_of (s_jobs (w_state w)) j) = Some Running"
    using k(1) by (auto simp: held_inv_def core_of_def registry_held_def)
  show "map_of (s_pending_resource (w_state w)) j \<noteq> None \<longleftrightarrow> map_option je_status (map_of (s_jobs (w_state w)) j) = Some Pending"
    "j \<in> set (s_pending_resource_jobs (w_state w)) \<longleftrightarrow> map_of (s_pending_resource (w_state w)) j \<noteq> None"
    "distinct (s_pending_resource_jobs (w_state w))"
    using k(3) by (auto simp: pend_inv_def core_of_def)
  show "map_of (s_job_waiters (w_state w)) j \<noteq> None \<longrightarrow>
       (\<exists>e. map_of (s_jobs (w_state w)) j = Some e \<and> \<not> job_is_terminal (je_status e))"
    using k(2) by (auto simp: wait_inv_def core_of_def)
qed

theorem execution_bookkeeping_exact_witness:
  "map_option je_status (map_of (s_jobs (w_state waiting_world)) (JobId 1)) = Some Running"
proof -
  have "\<not> Option.is_none (map_of (reservations (w_res waiting_world)) (JobId 1))" using slot_facts by (elim conjE)
  then have "map_of (reservations (w_res waiting_world)) (JobId 1) \<noteq> None" unfolding Option.is_none_def .
  then show ?thesis using execution_bookkeeping_exact [OF waiting_world] by blast
qed

text \<open>
  C17. No waiter is forgotten: a client that waits for a job is answered with the entry of an ended job
  in every run at whose end the job is no longer live.
\<close>

theorem waiters_are_answered:
  assumes w: "exec_reach w" "run_ok ms w" "exec_run registry_ops ms w = Some w'" and p: "waiting j p w"
    and e: "\<forall>e. map_of (s_jobs (w_state w')) j = Some e \<longrightarrow> job_is_terminal (je_status e)"
  shows "answered_in p (drop (length (w_log w)) (w_log w'))"
proof -
  obtain es where es: "w_log w' = w_log w @ es" "waiting j p w' \<or> answered_in p es"
    using run_serves [OF w(3)] p by (auto simp: serves_def)
  have "\<not> waiting j p w'"
    using kinvD(6) [OF reach_core(1) [OF run_reach [OF w]]] e by (auto simp: waiting_def wait_inv_def core_of_def)
  then show ?thesis using es by simp
qed

lemma asking_world: "exec_reach asking_world"
proof (rule exec_reach.turn [OF waiting_world, of "MsgWait ''J1'' 7 3"])
  have "show_job_id (JobId 1) = ''J1''" using slot_facts by (elim conjE)
  then have j: "sched_parse_job_id ''J1'' = Some (JobId 1)" by (metis sched_parse_show)
  have a: "authorize_session_owned_target (w_state waiting_world) (named_session_id_for_client (w_state waiting_world) 7)
      (TargetJob (JobId 1)) = Inr ()" using slot_facts by (elim conjE)
  have "map_option je_status (map_of (s_jobs (w_state waiting_world)) (JobId 1)) = Some Running" using slot_facts by (elim conjE)
  then obtain e where e: "map_of (s_jobs (w_state waiting_world)) (JobId 1) = Some e" "je_status e = Running" by auto
  have ws: "s_job_waiters (w_state waiting_world) = []" using slot_facts by (elim conjE)
  show "exec_turn registry_ops v (MsgWait ''J1'' 7 3) waiting_world = Some asking_world" for v
    by (simp add: handle_wait_command_def on_state_def asking_world_def j a e ws)
  show "ids_left (MsgWait ''J1'' 7 3) (w_state waiting_world)" using slot_facts by (elim conjE)
  show "msg_ok (MsgWait ''J1'' 7 3) (w_state waiting_world)" by (simp add: msg_ok_def)
qed

theorem waiters_are_answered_witness:
  "\<exists>w. exec_run registry_ops end_run asking_world = Some w \<and>
     answered_in \<lparr>pw_client_id = 7, pw_request_id = 3\<rparr> (drop (length (w_log asking_world)) (w_log w))"
proof -
  have ok: "run_ok end_run asking_world" using slot_facts by (elim conjE)
  obtain w where w: "exec_run registry_ops end_run asking_world = Some w" using run_returns [OF asking_world ok] by blast
  have p: "waiting (JobId 1) \<lparr>pw_client_id = 7, pw_request_id = 3\<rparr> asking_world"
    by (simp add: waiting_def asking_world_def on_state_def)
  have "Option.bind (exec_run registry_ops end_run asking_world)
      (\<lambda>w. map_option je_status (map_of (s_jobs (w_state w)) (JobId 1))) = Some job_status.Done" using slot_facts by (elim conjE)
  then have "map_option je_status (map_of (s_jobs (w_state w)) (JobId 1)) = Some job_status.Done" unfolding w by simp
  then have "answered_in \<lparr>pw_client_id = 7, pw_request_id = 3\<rparr> (drop (length (w_log asking_world)) (w_log w))"
    by (intro waiters_are_answered [OF asking_world ok w p]) auto
  then show ?thesis using w by blast
qed


end
