(* ===== verification/JobHistory.thy ===== *)
theory JobHistory
  imports ExecTheorems
begin

text \<open>
  The history of jobs: its table in the store (\<^verbatim>\<open>crates/cue-daemon/src/storage.rs\<close>) and its restoration
  and pruning by the scheduler (\<^verbatim>\<open>actor/scheduler.rs\<close>).  A row holds the status itself, not its JSON text;
  times are left out.  \<open>sql\<close> says that the statements of a call succeed.
\<close>

section \<open>The table\<close>

record stored_job =
  sj_id :: string
  sj_session_id :: "string option"
  sj_pipeline :: string
  sj_status :: job_status
  sj_exit_code :: "i32 option"
  sj_start_scope :: "scope_hash option"
  sj_end_scope :: "scope_hash option"
  sj_chain_id :: "string option"
  sj_stderr :: string

type_synonym job_rows = "(string \<times> stored_job) list"

datatype history_error = HistorySql storage_error | InvalidHistoryId string

definition upsert_job_history :: "bool \<Rightarrow> database \<Rightarrow> stored_job \<Rightarrow> job_rows \<Rightarrow> (history_error, job_rows) result" where
  "upsert_job_history sql d x rows =
     (case durable_scope_reference sql d (sj_start_scope x) of
        Inl e \<Rightarrow> Inl (HistorySql e)
      | Inr a \<Rightarrow>
          (case durable_scope_reference sql d (sj_end_scope x) of
             Inl e \<Rightarrow> Inl (HistorySql e)
           | Inr b \<Rightarrow>
               if sql then Inr (AList.update (sj_id x) (x\<lparr>sj_start_scope := a, sj_end_scope := b\<rparr>) rows)
               else Inl (HistorySql SqlError)))"

definition parse_job_history_id :: "string \<Rightarrow> (history_error, u32) result" where
  "parse_job_history_id i = (case parse_job_id i of Inr (JobId n) \<Rightarrow> Inr n | Inl _ \<Rightarrow> Inl (InvalidHistoryId i))"

definition blobs_ok :: "stored_job \<Rightarrow> bool" where
  "blobs_ok x \<longleftrightarrow> (\<forall>h\<in>set_option (sj_start_scope x) \<union> set_option (sj_end_scope x). blob_ok h)"

definition load_job_row :: "string \<times> stored_job \<Rightarrow> (history_error, u32 \<times> stored_job) result" where
  "load_job_row r =
     and_then (parse_job_history_id (fst r)) (\<lambda>n. if blobs_ok (snd r) then Inr (n, snd r) else Inl (HistorySql CorruptRow))"

definition load_job_history :: "bool \<Rightarrow> job_rows \<Rightarrow> (history_error, stored_job list) result" where
  "load_job_history sql rows =
     (if sql then map_sum id (\<lambda>xs. map snd (sort_key fst xs)) (collect_results (map load_job_row rows))
      else Inl (HistorySql SqlError))"

definition history_key :: "string \<times> stored_job \<Rightarrow> (history_error, u32 \<times> string \<times> bool) result" where
  "history_key r = and_then (parse_job_history_id (fst r)) (\<lambda>n. Inr (n, fst r, job_is_terminal (sj_status (snd r))))"

definition prune_job_history :: "bool \<Rightarrow> nat \<Rightarrow> job_rows \<Rightarrow> (history_error, string list) result \<times> job_rows" where
  "prune_job_history sql keep rows =
     (if \<not> sql then (Inl (HistorySql SqlError), rows)
      else case collect_results (map history_key rows) of
        Inl e \<Rightarrow> (Inl e, rows)
      | Inr ids \<Rightarrow>
          let ended = filter (\<lambda>(_, _, t). t) (sort_key fst ids);
              removed = map (\<lambda>(_, i, _). i) (take (length ended - keep) ended)
          in (Inr removed, fold AList.delete removed rows))"

section \<open>The scheduler\<close>

definition stored_job_from_entry :: "job_entry \<Rightarrow> stored_job" where
  "stored_job_from_entry e =
     \<lparr>sj_id = show_job_id (je_job_id e), sj_session_id = je_session_id e, sj_pipeline = je_pipeline_text e,
      sj_status = je_status e, sj_exit_code = je_exit_code e, sj_start_scope = je_start_scope e,
      sj_end_scope = je_end_scope e, sj_chain_id = map_option show_chain_id (je_chain_id e), sj_stderr = []\<rparr>"

definition persist_job_entry :: "bool \<Rightarrow> database \<Rightarrow> stored_job \<Rightarrow> job_rows \<Rightarrow> (string \<times> history_error, job_rows) result" where
  "persist_job_entry sql d x rows = map_sum (\<lambda>e. (sj_id x, e)) id (upsert_job_history sql d x rows)"

datatype restore_job_error =
    LoadHistory history_error
  | MissingSession string string
  | InvalidJobId string
  | RepairJob string history_error

definition restored_entry :: "job_id \<Rightarrow> stored_job \<Rightarrow> job_entry" where
  "restored_entry j x =
     \<lparr>je_job_id = j, je_session_id = sj_session_id x, je_pipeline_text = sj_pipeline x, je_status = sj_status x,
      je_exit_code = sj_exit_code x, je_start_scope = sj_start_scope x, je_end_scope = sj_end_scope x,
      je_open_hint = HintStream, je_chain_id = None, je_chain_index = None, je_chain_total = None, je_pending_reason = None\<rparr>"

text \<open>A job that was running when the daemon stopped is recorded as killed.\<close>

definition repaired :: "stored_job \<Rightarrow> stored_job" where
  "repaired x = (if job_is_terminal (sj_status x) then x else x\<lparr>sj_status := Killed, sj_exit_code := None\<rparr>)"

definition check_owner :: "scheduler_state \<Rightarrow> stored_job \<Rightarrow> (restore_job_error, unit) result" where
  "check_owner s x =
     (case sj_session_id x of
        Some i \<Rightarrow> if has_named_session_id s i then Inr () else Inl (MissingSession (sj_id x) i)
      | None \<Rightarrow> Inr ())"

definition restore_job :: "bool \<Rightarrow> database \<Rightarrow> stored_job \<Rightarrow> u32 \<times> scheduler_state \<times> job_rows \<Rightarrow>
    (restore_job_error, u32 \<times> scheduler_state \<times> job_rows) result" where
  "restore_job sql d x = (\<lambda>(hi, s, rows).
     and_then (check_owner s x) (\<lambda>_.
     and_then (ok_or (sched_parse_job_id (sj_id x)) (InvalidJobId (sj_id x))) (\<lambda>j.
     and_then (if job_is_terminal (sj_status x) then Inr rows
               else map_sum (RepairJob (sj_id x)) id (upsert_job_history sql d (repaired x) rows)) (\<lambda>rows1.
       case j of JobId n \<Rightarrow>
         Inr (max hi n, s\<lparr>s_jobs := AList.update j (restored_entry j (repaired x)) (s_jobs s)\<rparr>, rows1)))))"

fun restore_jobs_loop :: "bool \<Rightarrow> database \<Rightarrow> stored_job list \<Rightarrow> u32 \<times> scheduler_state \<times> job_rows \<Rightarrow>
    (restore_job_error, u32 \<times> scheduler_state \<times> job_rows) result" where
  "restore_jobs_loop sql d [] a = Inr a"
| "restore_jobs_loop sql d (x # xs) a = and_then (restore_job sql d x a) (restore_jobs_loop sql d xs)"

definition restore_jobs :: "bool \<Rightarrow> database \<Rightarrow> scheduler_state \<Rightarrow> job_rows \<Rightarrow>
    (restore_job_error, scheduler_state \<times> job_rows) result" where
  "restore_jobs sql d s rows =
     and_then (map_sum LoadHistory id (load_job_history sql rows)) (\<lambda>xs.
     and_then (restore_jobs_loop sql d xs (0, s, rows)) (\<lambda>(hi, s1, rows1).
       Inr (if 0 < hi then s1\<lparr>s_next_job := hi + 1\<rparr> else s1, rows1)))"

text \<open>Pruning removes the ended jobs beyond the limit from the table and from the state; the names are those announced as removed.\<close>

definition prune_retained_job_history :: "bool \<Rightarrow> nat \<Rightarrow> scheduler_state \<Rightarrow> job_rows \<Rightarrow>
    bool \<times> job_id list \<times> scheduler_state \<times> job_rows" where
  "prune_retained_job_history sql keep s rows =
     (case prune_job_history sql keep rows of
        (Inl _, rows1) \<Rightarrow> (False, [], s, rows1)
      | (Inr removed, rows1) \<Rightarrow>
          let js = List.map_filter sched_parse_job_id removed
          in (removed \<noteq> [], filter (\<lambda>j. map_of (s_jobs s) j \<noteq> None) js,
              forget_jobs js s, rows1))"

section \<open>Rows of the scheduler\<close>

text \<open>The rows the scheduler writes: one per job, under its printed id.\<close>

definition rows_ok :: "job_rows \<Rightarrow> bool" where
  "rows_ok rows \<longleftrightarrow> distinct (map fst rows) \<and>
     (\<forall>(i, x)\<in>set rows. sj_id x = i \<and> (\<exists>j. i = show_job_id j) \<and> blobs_ok x)"

lemma show_job_inj: "show_job_id i = show_job_id j \<longleftrightarrow> i = j"
  by (metis sched_parse_show option.inject)

lemma history_id_show [simp]: "parse_job_history_id (show_job_id (JobId n)) = Inr n"
  by (simp add: parse_job_history_id_def job_codec.parse_print del: show_job_id.simps)

definition row_num :: "string \<Rightarrow> u32" where
  "row_num i = (case parse_job_history_id i of Inr n \<Rightarrow> n | Inl _ \<Rightarrow> 0)"

lemma row_num_show [simp]: "row_num (show_job_id (JobId n)) = n"
  by (simp add: row_num_def del: show_job_id.simps)

lemma rows_okD:
  assumes "rows_ok rows" "(i, x) \<in> set rows"
  shows "i = show_job_id (JobId (row_num i))" "sj_id x = i" "blobs_ok x" "parse_job_history_id i = Inr (row_num i)"
    "sched_parse_job_id i = Some (JobId (row_num i))"
proof -
  obtain j where "i = show_job_id j" using assms unfolding rows_ok_def by blast
  then obtain n where "i = show_job_id (JobId n)" by (cases j) blast
  then show "i = show_job_id (JobId (row_num i))" "parse_job_history_id i = Inr (row_num i)"
    "sched_parse_job_id i = Some (JobId (row_num i))" by (simp_all del: show_job_id.simps)
  show "sj_id x = i" "blobs_ok x" using assms by (auto simp: rows_ok_def)
qed

lemma row_num_inj: "rows_ok rows \<Longrightarrow> inj_on row_num (fst ` set rows)"
  by (rule inj_onI) (metis imageE prod.collapse rows_okD(1))

lemma collect_rows:
  assumes "\<And>r. r \<in> set rows \<Longrightarrow> f r = Inr (g r)"
  shows "collect_results (map f rows) = Inr (map g rows)"
  using assms by (induction rows) auto

section \<open>Pruning\<close>

text \<open>The oldest entries of a strictly sorted list are those with at least \<open>keep\<close> larger ones.\<close>

lemma take_oldest:
  assumes s: "sorted_wrt (\<lambda>a b. f a < f b) xs" and x: "x \<in> set xs"
  shows "x \<in> set (take (length xs - keep) xs) \<longleftrightarrow> keep \<le> card {y \<in> set xs. f x < (f y :: 'b :: linorder)}"
proof -
  obtain k where k: "k < length xs" "x = xs ! k" using x by (auto simp: in_set_conv_nth)
  have less: "f (xs ! a) < f (xs ! b)" if "a < b" "b < length xs" for a b using sorted_wrt_nth_less [OF s] that by blast
  then have ord: "f (xs ! a) < f (xs ! b) \<longleftrightarrow> a < b" if "a < length xs" "b < length xs" for a b
    using that by (metis less_asym linorder_neqE_nat)
  have inj: "xs ! a = xs ! b \<longleftrightarrow> a = b" if "a < length xs" "b < length xs" for a b
    using ord [OF that] ord [OF that(2,1)] by (metis less_irrefl linorder_neqE_nat)
  have "{y \<in> set xs. f x < f y} = (!) xs ` {Suc k..<length xs}"
    using ord k by (force simp: in_set_conv_nth)
  moreover have "inj_on ((!) xs) {Suc k..<length xs}" using inj by (auto simp: inj_on_def)
  ultimately have "card {y \<in> set xs. f x < f y} = length xs - Suc k" by (simp add: card_image)
  moreover have "x \<in> set (take (length xs - keep) xs) \<longleftrightarrow> k < length xs - keep"
    using inj k by (auto simp: in_set_conv_nth)
  ultimately show ?thesis using k by auto
qed

lemma distinct_map_sort: "distinct (map f (sort_key k xs)) \<longleftrightarrow> distinct (map f xs)"
  by (simp add: distinct_map)

lemma strict_sort_key:
  assumes "distinct (map f xs)"
  shows "sorted_wrt (\<lambda>a b. f a < (f b :: 'b :: linorder)) (sort_key f xs)"
proof -
  have "sorted (map f (sort_key f xs))" "distinct (map f (sort_key f xs))"
    using assms by (simp_all add: distinct_map_sort)
  then have "sorted_wrt (<) (map f (sort_key f xs))" by (simp add: strict_sorted_iff)
  then show ?thesis by (simp add: sorted_wrt_map)
qed

definition ended_rows :: "job_rows \<Rightarrow> (string \<times> stored_job) set" where
  "ended_rows rows = {r \<in> set rows. job_is_terminal (sj_status (snd r))}"

lemma fold_delete_filter: "fold AList.delete js xs = filter (\<lambda>r. fst r \<notin> set js) xs"
proof (induction js arbitrary: xs)
  case (Cons j js)
  then show ?case by (simp add: AList.delete_eq) (rule filter_cong, auto)
qed simp

lemma prune_removed:
  assumes ok: "rows_ok rows"
  obtains removed where "prune_job_history True keep rows = (Inr removed, filter (\<lambda>r. fst r \<notin> set removed) rows)"
    and "set removed = {fst r |r. r \<in> ended_rows rows \<and> keep \<le> card {q \<in> ended_rows rows. row_num (fst r) < row_num (fst q)}}"
proof -
  let ?g = "\<lambda>r :: string \<times> stored_job. (row_num (fst r), fst r, job_is_terminal (sj_status (snd r)))"
  have key: "collect_results (map history_key rows) = Inr (map ?g rows)"
    by (rule collect_rows) (auto simp: history_key_def rows_okD(4) [OF ok] and_then_def)
  let ?e = "filter (\<lambda>(_, _, t). t) (sort_key fst (map ?g rows))"
  let ?removed = "map (\<lambda>(_, i, _). i) (take (length ?e - keep) ?e)"
  have d: "distinct (map fst rows)" using ok by (simp add: rows_ok_def)
  have inj: "inj_on row_num (fst ` set rows)" by (rule row_num_inj [OF ok])
  have "distinct (map fst (map ?g rows))" using d inj by (auto simp: distinct_map comp_def inj_on_def)
  then have "sorted_wrt (\<lambda>a b. fst a < fst b) ?e" by (intro sorted_wrt_filter strict_sort_key)
  note old = take_oldest [OF this, of _ keep]
  have se: "set ?e = ?g ` ended_rows rows" by (auto simp: ended_rows_def)
  have card: "card {y \<in> set ?e. n < fst y} = card {q \<in> ended_rows rows. n < row_num (fst q)}" for n
  proof -
    have "{y \<in> set ?e. n < fst y} = ?g ` {q \<in> ended_rows rows. n < row_num (fst q)}" unfolding se by auto
    moreover have "inj_on ?g {q \<in> ended_rows rows. n < row_num (fst q)}"
      using d by (auto simp: inj_on_def ended_rows_def dest: eq_key_imp_eq_value)
    ultimately show ?thesis by (simp add: card_image)
  qed
  have mem: "?g r \<in> set (take (length ?e - keep) ?e) \<longleftrightarrow> keep \<le> card {q \<in> ended_rows rows. row_num (fst r) < row_num (fst q)}"
    if "r \<in> ended_rows rows" for r
    using old [of "?g r"] that unfolding se card [symmetric] by simp
  have "set ?removed = {fst r |r. r \<in> ended_rows rows \<and> keep \<le> card {q \<in> ended_rows rows. row_num (fst r) < row_num (fst q)}}"
  proof (intro set_eqI iffI)
    fix i assume "i \<in> set ?removed"
    then obtain y where y: "y \<in> set (take (length ?e - keep) ?e)" "i = fst (snd y)" by auto
    then have "y \<in> set ?e" by (meson in_set_takeD)
    then obtain r where r: "r \<in> ended_rows rows" "y = ?g r" unfolding se by blast
    then have "keep \<le> card {q \<in> ended_rows rows. row_num (fst r) < row_num (fst q)}" using y(1) mem by blast
    moreover have "i = fst r" using r(2) y(2) by simp
    ultimately show "i \<in> {fst r |r. r \<in> ended_rows rows \<and> keep \<le> card {q \<in> ended_rows rows. row_num (fst r) < row_num (fst q)}}"
      using r(1) by blast
  next
    fix i assume "i \<in> {fst r |r. r \<in> ended_rows rows \<and> keep \<le> card {q \<in> ended_rows rows. row_num (fst r) < row_num (fst q)}}"
    then obtain r where "r \<in> ended_rows rows" "i = fst r" "?g r \<in> set (take (length ?e - keep) ?e)" using mem by blast
    then show "i \<in> set ?removed" by force
  qed
  moreover have "prune_job_history True keep rows = (Inr ?removed, filter (\<lambda>r. fst r \<notin> set ?removed) rows)"
    unfolding prune_job_history_def key Let_def by (simp add: fold_delete_filter)
  ultimately show thesis by (rule that [rotated])
qed

text \<open>
  C21. Retention.  Pruning never fails on rows of the scheduler; it removes exactly the ended jobs that have
  at least \<open>keep\<close> ended jobs with a larger number, so every live row and the \<open>keep\<close> newest ended ones stay.
\<close>

theorem prune_exact:
  assumes "rows_ok rows"
  shows "\<exists>removed. prune_job_history True keep rows = (Inr removed, filter (\<lambda>r. fst r \<notin> set removed) rows)
    \<and> (\<forall>r\<in>set rows. fst r \<in> set removed \<longleftrightarrow> job_is_terminal (sj_status (snd r)) \<and>
         keep \<le> card {q \<in> set rows. job_is_terminal (sj_status (snd q)) \<and> row_num (fst r) < row_num (fst q)})"
proof -
  obtain removed where r: "prune_job_history True keep rows = (Inr removed, filter (\<lambda>r. fst r \<notin> set removed) rows)"
    "set removed = {fst r |r. r \<in> ended_rows rows \<and> keep \<le> card {q \<in> ended_rows rows. row_num (fst r) < row_num (fst q)}}"
    by (rule prune_removed [OF assms])
  have same: "q = x" if "q \<in> set rows" "x \<in> set rows" "fst q = fst x" for q x
    using assms that by (cases q, cases x) (auto simp: rows_ok_def dest: eq_key_imp_eq_value)
  have set: "{q \<in> ended_rows rows. n < row_num (fst q)} = {q \<in> set rows. job_is_terminal (sj_status (snd q)) \<and> n < row_num (fst q)}" for n
    by (auto simp: ended_rows_def)
  have "fst x \<in> set removed \<longleftrightarrow> x \<in> ended_rows rows \<and> keep \<le> card {q \<in> ended_rows rows. row_num (fst x) < row_num (fst q)}"
    if x: "x \<in> set rows" for x
  proof
    assume "fst x \<in> set removed"
    then obtain q where q: "q \<in> ended_rows rows" "fst x = fst q" "keep \<le> card {p \<in> ended_rows rows. row_num (fst q) < row_num (fst p)}"
      unfolding r(2) by blast
    have "q = x" by (rule same [OF _ x q(2) [symmetric]]) (use q(1) in \<open>simp add: ended_rows_def\<close>)
    then show "x \<in> ended_rows rows \<and> keep \<le> card {q \<in> ended_rows rows. row_num (fst x) < row_num (fst q)}" using q by simp
  qed (unfold r(2), blast)
  then have "\<forall>x\<in>set rows. fst x \<in> set removed \<longleftrightarrow> job_is_terminal (sj_status (snd x)) \<and>
      keep \<le> card {q \<in> set rows. job_is_terminal (sj_status (snd q)) \<and> row_num (fst x) < row_num (fst q)}"
    unfolding set by (simp add: ended_rows_def)
  then show ?thesis using r(1) by blast
qed

text \<open>Two ended jobs and one that was running when the daemon stopped.\<close>

definition sample_row :: "u32 \<Rightarrow> job_status \<Rightarrow> string \<times> stored_job" where
  "sample_row n st = (show_job_id (JobId n),
     \<lparr>sj_id = show_job_id (JobId n), sj_session_id = None, sj_pipeline = ''make'', sj_status = st, sj_exit_code = None,
      sj_start_scope = None, sj_end_scope = None, sj_chain_id = None, sj_stderr = []\<rparr>)"

definition sample_rows :: job_rows where
  "sample_rows = [sample_row 1 job_status.Done, sample_row 2 Running, sample_row 3 Failed]"

lemma sample_row_simps [simp]: "fst (sample_row n st) = show_job_id (JobId n)" "sj_status (snd (sample_row n st)) = st"
  "sample_row n st = sample_row m st' \<longleftrightarrow> n = m \<and> st = st'"
  by (auto simp: sample_row_def show_job_inj simp del: show_job_id.simps)

lemma sample_rows_ok: "rows_ok sample_rows"
  unfolding rows_ok_def sample_rows_def by (simp add: show_job_inj sample_row_def blobs_ok_def del: show_job_id.simps)

theorem prune_exact_witness:
  "\<exists>removed. prune_job_history True 1 sample_rows = (Inr removed, filter (\<lambda>r. fst r \<notin> set removed) sample_rows)
     \<and> show_job_id (JobId 1) \<in> set removed \<and> show_job_id (JobId 2) \<notin> set removed \<and> show_job_id (JobId 3) \<notin> set removed"
proof -
  have c: "{q \<in> set sample_rows. job_is_terminal (sj_status (snd q)) \<and> 1 < row_num (fst q)} = {sample_row 3 Failed}"
    "{q \<in> set sample_rows. job_is_terminal (sj_status (snd q)) \<and> 3 < row_num (fst q)} = {}"
    unfolding sample_rows_def by (auto simp: sample_row_def simp del: show_job_id.simps sample_row_simps)
  obtain removed where r: "prune_job_history True 1 sample_rows = (Inr removed, filter (\<lambda>r. fst r \<notin> set removed) sample_rows)"
    "\<forall>r\<in>set sample_rows. fst r \<in> set removed \<longleftrightarrow> job_is_terminal (sj_status (snd r)) \<and>
       1 \<le> card {q \<in> set sample_rows. job_is_terminal (sj_status (snd q)) \<and> row_num (fst r) < row_num (fst q)}"
    using prune_exact [OF sample_rows_ok, of 1] by blast
  have m: "sample_row 1 job_status.Done \<in> set sample_rows" "sample_row 2 Running \<in> set sample_rows" "sample_row 3 Failed \<in> set sample_rows"
    by (simp_all add: sample_rows_def)
  show ?thesis
    using r(1) bspec [OF r(2) m(1)] bspec [OF r(2) m(2)] bspec [OF r(2) m(3)] by (auto simp: c simp del: show_job_id.simps)
qed

section \<open>Restoring\<close>

definition durable_row :: "database \<Rightarrow> stored_job \<Rightarrow> stored_job" where
  "durable_row d x =
     (let keep = (\<lambda>h. if h \<in> scope_hashes d then Some h else None)
      in x\<lparr>sj_start_scope := Option.bind (sj_start_scope x) keep, sj_end_scope := Option.bind (sj_end_scope x) keep\<rparr>)"

lemma upsert_job_ok: "upsert_job_history True d x rows = Inr (AList.update (sj_id x) (durable_row d x) rows)"
  by (auto simp: upsert_job_history_def durable_row_def durable_scope_reference_def is_persisted_scope_def and_then_def
      split: option.splits)

definition job_num :: "stored_job \<Rightarrow> job_id" where
  "job_num x = JobId (row_num (sj_id x))"

definition put_restored :: "stored_job \<Rightarrow> (job_id \<times> job_entry) list \<Rightarrow> (job_id \<times> job_entry) list" where
  "put_restored x = AList.update (job_num x) (restored_entry (job_num x) (repaired x))"

definition repair_row :: "database \<Rightarrow> stored_job \<Rightarrow> job_rows \<Rightarrow> job_rows" where
  "repair_row d x rows = (if job_is_terminal (sj_status x) then rows else AList.update (sj_id x) (durable_row d (repaired x)) rows)"

lemma restore_job_ok:
  assumes "check_owner s x = Inr ()" "sched_parse_job_id (sj_id x) = Some (job_num x)"
  shows "restore_job True d x (hi, s, rows) =
    Inr (max hi (row_num (sj_id x)), s\<lparr>s_jobs := put_restored x (s_jobs s)\<rparr>, repair_row d x rows)"
  using assms by (auto simp: restore_job_def and_then_def ok_or_def upsert_job_ok repair_row_def put_restored_def job_num_def repaired_def)

lemma check_owner_jobs [simp]: "check_owner (s\<lparr>s_jobs := m\<rparr>) x = check_owner s x"
  by (simp add: check_owner_def has_named_session_id_def split: option.splits)

lemma restore_loop_ok:
  assumes "\<And>x. x \<in> set xs \<Longrightarrow> check_owner s x = Inr () \<and> sched_parse_job_id (sj_id x) = Some (job_num x)"
  shows "restore_jobs_loop True d xs (hi, s, rows) =
    Inr (fold (\<lambda>x n. max n (row_num (sj_id x))) xs hi, s\<lparr>s_jobs := fold put_restored xs (s_jobs s)\<rparr>, fold (repair_row d) xs rows)"
  using assms
proof (induction xs arbitrary: hi s rows)
  case (Cons x xs)
  have x: "restore_job True d x (hi, s, rows) =
      Inr (max hi (row_num (sj_id x)), s\<lparr>s_jobs := put_restored x (s_jobs s)\<rparr>, repair_row d x rows)"
    by (rule restore_job_ok) (use Cons.prems in auto)
  have "restore_jobs_loop True d xs (max hi (row_num (sj_id x)), s\<lparr>s_jobs := put_restored x (s_jobs s)\<rparr>, repair_row d x rows) =
    Inr (fold (\<lambda>x n. max n (row_num (sj_id x))) xs (max hi (row_num (sj_id x))),
      s\<lparr>s_jobs := put_restored x (s_jobs s)\<rparr>\<lparr>s_jobs := fold put_restored xs (put_restored x (s_jobs s))\<rparr>, fold (repair_row d) xs (repair_row d x rows))"
    using Cons.IH [of "s\<lparr>s_jobs := put_restored x (s_jobs s)\<rparr>"] Cons.prems by simp
  then show ?case using x by (simp add: and_then_def)
qed simp

lemma map_of_restored:
  "map_of (fold put_restored xs m) j = (case filter (\<lambda>x. job_num x = j) xs of
     [] \<Rightarrow> map_of m j | ys \<Rightarrow> Some (restored_entry j (repaired (last ys))))"
  by (induction xs arbitrary: m) (auto simp: put_restored_def AList.update_conv' split: list.splits)

lemma fold_max_ge: "hi \<le> fold (\<lambda>x n. max n (f x)) xs hi \<and> (\<forall>x\<in>set xs. f x \<le> fold (\<lambda>x n. max n (f x)) xs (hi :: 'b :: linorder))"
proof (induction xs arbitrary: hi)
  case (Cons x xs)
  let ?m = "fold (\<lambda>x n. max n (f x)) xs (max hi (f x))"
  have "max hi (f x) \<le> ?m \<and> (\<forall>y\<in>set xs. f y \<le> ?m)" by (rule Cons)
  then show ?case by simp
qed simp

lemma fold_max_mem: "fold (\<lambda>x n. max n (f x)) xs hi \<in> insert (hi :: 'b :: linorder) (f ` set xs)"
proof (induction xs arbitrary: hi)
  case (Cons x xs)
  then show ?case using Cons [of "max hi (f x)"] by (auto simp: max_def split: if_splits)
qed simp

lemma fold_max_next:
  fixes f :: "'a \<Rightarrow> u32"
  assumes "\<And>x. x \<in> set xs \<Longrightarrow> f x < 4294967295" "x \<in> set xs"
  shows "f x < fold (\<lambda>x n. max n (f x)) xs 0 + 1"
proof -
  let ?hi = "fold (\<lambda>x n. max n (f x)) xs 0"
  have "?hi < 4294967295" using fold_max_mem [of f xs 0] assms(1) by auto
  then have "unat ?hi < unat (4294967295 :: u32)" by (simp only: word_less_nat_alt)
  then have "unat ?hi + 1 < 2 ^ 32" by simp
  then have "?hi < ?hi + 1" by (rule word_next_less)
  moreover have "f x \<le> ?hi" using fold_max_ge [of 0 f xs] assms(2) by auto
  ultimately show ?thesis by simp
qed

lemma repaired_terminal [simp]: "job_is_terminal (sj_status (repaired x))" "sj_id (repaired x) = sj_id x"
  by (simp_all add: repaired_def)

lemma durable_status [simp]: "sj_status (durable_row d x) = sj_status x"
  by (simp add: durable_row_def Let_def)

lemma repair_terminal:
  assumes "\<And>i x. map_of rows i = Some x \<Longrightarrow> \<not> job_is_terminal (sj_status x) \<Longrightarrow> \<exists>y\<in>set xs. sj_id y = i \<and> \<not> job_is_terminal (sj_status y)"
    and "map_of (fold (repair_row d) xs rows) i = Some x"
  shows "job_is_terminal (sj_status x)"
  using assms
proof (induction xs arbitrary: rows)
  case (Cons y xs)
  have "\<exists>z\<in>set xs. sj_id z = i \<and> \<not> job_is_terminal (sj_status z)"
    if "map_of (repair_row d y rows) i = Some x" "\<not> job_is_terminal (sj_status x)" for i x
    using that Cons.prems(1) [of i x] by (auto simp: repair_row_def AList.update_conv' split: if_splits)
  then show ?case using Cons.IH [of "repair_row d y rows"] Cons.prems(2) by simp
qed auto

lemma repair_dom:
  assumes "\<forall>x\<in>set xs. map_of rows (sj_id x) \<noteq> None"
  shows "map_of (fold (repair_row d) xs rows) i = None \<longleftrightarrow> map_of rows i = None"
  using assms
proof (induction xs arbitrary: rows)
  case (Cons y xs)
  have y: "map_of (repair_row d y rows) k = None \<longleftrightarrow> map_of rows k = None" for k
    using Cons.prems by (auto simp: repair_row_def AList.update_conv')
  have "map_of (fold (repair_row d) xs (repair_row d y rows)) i = None \<longleftrightarrow> map_of (repair_row d y rows) i = None"
    by (rule Cons.IH) (unfold y, use Cons.prems in simp)
  then show ?case unfolding y by simp
qed simp

lemma load_ok:
  assumes "rows_ok rows"
  obtains xs where "load_job_history True rows = Inr xs" "set xs = snd ` set rows" "distinct (map sj_id xs)"
proof -
  let ?g = "\<lambda>r :: string \<times> stored_job. (row_num (fst r), snd r)"
  have "collect_results (map load_job_row rows) = Inr (map ?g rows)"
    by (rule collect_rows) (auto simp: load_job_row_def rows_okD(3,4) [OF assms] and_then_def)
  then have l: "load_job_history True rows = Inr (map snd (sort_key fst (map ?g rows)))" by (simp add: load_job_history_def)
  have e: "map sj_id (map snd (map ?g rows)) = map fst rows" using rows_okD(2) [OF assms] by (auto simp: comp_def)
  have "distinct (map sj_id (map snd (map ?g rows)))" unfolding e using assms by (simp add: rows_ok_def)
  then have "distinct (map (sj_id \<circ> snd) (map ?g rows))" by (simp only: map_map comp_assoc)
  then have "distinct (map (sj_id \<circ> snd) (sort_key fst (map ?g rows)))" by (simp only: distinct_map_sort)
  moreover have "set (map snd (sort_key fst (map ?g rows))) = snd ` set rows" by force
  ultimately show thesis using that [OF l] by simp
qed

text \<open>The row of a job, and the job of a row.\<close>

lemma row_of_job:
  assumes ok: "rows_ok rows" and xs: "set xs = snd ` set rows" "distinct (map sj_id xs)"
  shows "filter (\<lambda>x. job_num x = j) xs = (case map_of rows (show_job_id j) of None \<Rightarrow> [] | Some x \<Rightarrow> [x])"
proof -
  have num: "job_num x = j \<longleftrightarrow> (show_job_id j, x) \<in> set rows" if x: "x \<in> set xs" for x
  proof -
    obtain i where i: "(i, x) \<in> set rows" using x unfolding xs(1) by auto
    have ix: "sj_id y = k \<and> k = show_job_id (job_num y)" if "(k, y) \<in> set rows" for k y
      using rows_okD(1,2) [OF ok that] unfolding job_num_def by argo
    show ?thesis
    proof
      assume j: "job_num x = j"
      have "(show_job_id (job_num x), x) \<in> set rows" using i ix [OF i] by argo
      then show "(show_job_id j, x) \<in> set rows" unfolding j .
    next
      assume "(show_job_id j, x) \<in> set rows"
      from ix [OF this] show "job_num x = j" unfolding show_job_inj by blast
    qed
  qed
  have d: "distinct (map fst rows)" using ok by (simp add: rows_ok_def)
  show ?thesis
  proof (cases "map_of rows (show_job_id j)")
    case None
    then have "job_num x \<noteq> j" if "x \<in> set xs" for x
      using num [OF that] by (force simp: map_of_eq_None_iff)
    then show ?thesis using None by (simp add: filter_empty_conv)
  next
    case (Some x)
    have x: "x \<in> set xs" using map_of_SomeD [OF Some] xs(1) by force
    have only: "job_num y = j \<longleftrightarrow> y = x" if "y \<in> set xs" for y
      using num [OF that] num [OF x] map_of_SomeD [OF Some] d by (metis eq_key_imp_eq_value)
    have "distinct xs" using xs(2) by (simp add: distinct_map)
    then have "filter (\<lambda>y. y = x) xs = [x]" using x by (induction xs) (auto simp: filter_empty_conv)
    then show ?thesis using Some only by (simp cong: filter_cong)
  qed
qed



end
