(* ===== verification/ScriptSnapshots.thy ===== *)
theory ScriptSnapshots
  imports Sessions
begin

text \<open>
  The results of finished scripts that clients can still ask for (\<^verbatim>\<open>crates/cue-daemon/src/actor/scheduler.rs\<close>):
  recording, expiry, eviction within the limits, and the answer to a query.  \<open>sz\<close> is the length of the
  JSON text of a result, which the serialization library computes.
\<close>

section \<open>Operations\<close>

definition SCRIPT_SNAPSHOT_RESPONSE_CAPACITY :: nat where "SCRIPT_SNAPSHOT_RESPONSE_CAPACITY = 1024"
definition SCRIPT_SNAPSHOT_MAX_ITEM_BYTES :: nat where "SCRIPT_SNAPSHOT_MAX_ITEM_BYTES = 8 * 1024 * 1024"
definition SCRIPT_SNAPSHOT_MAX_TOTAL_BYTES :: nat where "SCRIPT_SNAPSHOT_MAX_TOTAL_BYTES = 64 * 1024 * 1024"
definition SCRIPT_SNAPSHOT_TTL_NS :: int where "SCRIPT_SNAPSHOT_TTL_NS = 15 * 60 * 1000000000"

definition snapshot_expired :: "instant \<Rightarrow> completed_script_snapshot \<Rightarrow> bool" where
  "snapshot_expired now x \<longleftrightarrow> SCRIPT_SNAPSHOT_TTL_NS \<le> max 0 (instant_ns now - instant_ns (cs_completed_at x))"

definition drop_snapshot :: "script_id \<Rightarrow> scheduler_state \<Rightarrow> scheduler_state" where
  "drop_snapshot i s =
     (case map_of (s_completed_script_snapshots s) i of
        None \<Rightarrow> s
      | Some x \<Rightarrow>
          let s1 = s\<lparr>s_completed_script_snapshots := AList.delete i (s_completed_script_snapshots s)\<rparr>
          in if cs_info x = None then s1
             else s1\<lparr>s_completed_script_snapshot_responses := s_completed_script_snapshot_responses s - 1,
                     s_completed_script_snapshot_bytes := s_completed_script_snapshot_bytes s - cs_response_bytes x\<rparr>)"

text \<open>The loop pops expired identifiers from the front of the order.\<close>

fun prune_order :: "instant \<Rightarrow> script_id list \<Rightarrow> scheduler_state \<Rightarrow> scheduler_state" where
  "prune_order now [] s = s\<lparr>s_completed_script_snapshot_order := []\<rparr>"
| "prune_order now (i # is) s =
     (if (case map_of (s_completed_script_snapshots s) i of None \<Rightarrow> True | Some x \<Rightarrow> snapshot_expired now x)
      then prune_order now is (drop_snapshot i s)
      else s\<lparr>s_completed_script_snapshot_order := i # is\<rparr>)"

definition prune_completed_script_snapshots :: "instant \<Rightarrow> scheduler_state \<Rightarrow> scheduler_state" where
  "prune_completed_script_snapshots now s = prune_order now (s_completed_script_snapshot_order s) s"

definition results_over_limits :: "scheduler_state \<Rightarrow> bool" where
  "results_over_limits s \<longleftrightarrow> SCRIPT_SNAPSHOT_RESPONSE_CAPACITY < s_completed_script_snapshot_responses s
     \<or> SCRIPT_SNAPSHOT_MAX_TOTAL_BYTES < s_completed_script_snapshot_bytes s"

definition has_result :: "scheduler_state \<Rightarrow> script_id \<Rightarrow> bool" where
  "has_result s i \<longleftrightarrow> (case map_of (s_completed_script_snapshots s) i of None \<Rightarrow> False | Some x \<Rightarrow> cs_info x \<noteq> None)"

definition forget_result :: "script_id \<Rightarrow> completed_script_snapshot \<Rightarrow> scheduler_state \<Rightarrow> scheduler_state" where
  "forget_result i x s =
     s\<lparr>s_completed_script_snapshots := AList.update i (x\<lparr>cs_info := None, cs_response_bytes := 0\<rparr>) (s_completed_script_snapshots s),
       s_completed_script_snapshot_responses := s_completed_script_snapshot_responses s - 1,
       s_completed_script_snapshot_bytes := s_completed_script_snapshot_bytes s - cs_response_bytes x\<rparr>"

definition result_weight :: "script_id \<times> completed_script_snapshot \<Rightarrow> nat" where
  "result_weight r = (if cs_info (snd r) = None then 0 else 1)"

lemma weight_update:
  "sum_list (map f (AList.update k v xs)) + (case map_of xs k of None \<Rightarrow> 0 | Some x \<Rightarrow> f (k, x)) = sum_list (map f xs) + (f (k, v) :: nat)"
  by (induction xs) (auto split: option.splits)

function evict_results :: "scheduler_state \<Rightarrow> scheduler_state" where
  "evict_results s =
     (if \<not> results_over_limits s then s
      else case find (has_result s) (s_completed_script_snapshot_order s) of
        None \<Rightarrow> s
      | Some i \<Rightarrow>
          (case map_of (s_completed_script_snapshots s) i of
             None \<Rightarrow> s
           | Some x \<Rightarrow> evict_results (forget_result i x s)))"
  by pat_completeness auto

termination
proof (relation "measure (\<lambda>s. sum_list (map result_weight (s_completed_script_snapshots s)))", simp)
  fix s i x
  assume "find (has_result s) (s_completed_script_snapshot_order s) = Some i" and x: "map_of (s_completed_script_snapshots s) i = Some x"
  then have "has_result s i" by (auto simp: find_Some_iff)
  then have "cs_info x \<noteq> None" using x by (simp add: has_result_def)
  then show "(forget_result i x s, s) \<in> measure (\<lambda>s. sum_list (map result_weight (s_completed_script_snapshots s)))"
    using weight_update [of result_weight i "x\<lparr>cs_info := None, cs_response_bytes := 0\<rparr>" "s_completed_script_snapshots s"] x
    by (auto simp: forget_result_def result_weight_def)
qed

declare evict_results.simps [simp del]

text \<open>Recording a result.  \<open>None\<close> is the panic on an identifier that does not parse.\<close>

definition put_snapshot :: "script_id \<Rightarrow> completed_script_snapshot \<Rightarrow> scheduler_state \<Rightarrow> scheduler_state" where
  "put_snapshot i x s =
     (let s1 = s\<lparr>s_completed_script_snapshots := AList.update i x (s_completed_script_snapshots s)\<rparr>;
          s2 = (case map_of (s_completed_script_snapshots s) i of
                  None \<Rightarrow> s1
                | Some p \<Rightarrow>
                    (if cs_info p = None then s1
                     else s1\<lparr>s_completed_script_snapshot_responses := s_completed_script_snapshot_responses s - 1,
                             s_completed_script_snapshot_bytes := s_completed_script_snapshot_bytes s - cs_response_bytes p\<rparr>)
                    \<lparr>s_completed_script_snapshot_order := filter (\<lambda>k. k \<noteq> i) (s_completed_script_snapshot_order s)\<rparr>);
          s3 = (if 0 < cs_response_bytes x
                then s2\<lparr>s_completed_script_snapshot_responses := s_completed_script_snapshot_responses s2 + 1,
                        s_completed_script_snapshot_bytes := s_completed_script_snapshot_bytes s2 + cs_response_bytes x\<rparr>
                else s2)
      in s3\<lparr>s_completed_script_snapshot_order := s_completed_script_snapshot_order s3 @ [i]\<rparr>)"

definition new_snapshot :: "(script_info \<Rightarrow> nat) \<Rightarrow> instant \<Rightarrow> script_info \<Rightarrow> string option \<Rightarrow> completed_script_snapshot" where
  "new_snapshot sz now info session =
     (if sz info \<le> SCRIPT_SNAPSHOT_MAX_ITEM_BYTES
      then \<lparr>cs_info = Some info, cs_session_id = session, cs_completed_at = now, cs_response_bytes = sz info\<rparr>
      else \<lparr>cs_info = None, cs_session_id = session, cs_completed_at = now, cs_response_bytes = 0\<rparr>)"

definition record_completed_script_snapshot ::
    "(script_info \<Rightarrow> nat) \<Rightarrow> instant \<Rightarrow> script_info \<Rightarrow> string option \<Rightarrow> scheduler_state \<Rightarrow> scheduler_state option" where
  "record_completed_script_snapshot sz now info session s =
     map_option (\<lambda>i. evict_results (put_snapshot i (new_snapshot sz now info session) (prune_completed_script_snapshots now s)))
       (sched_parse_script_id (sn_script_id info))"

definition script_info_response :: "(script_info \<Rightarrow> nat) \<Rightarrow> instant \<Rightarrow> string \<Rightarrow> u64 \<Rightarrow> scheduler_state \<Rightarrow>
    script_info response_payload \<times> scheduler_state" where
  "script_info_response sz now i c s =
     (case sched_parse_script_id i of
        None \<Rightarrow> (RespErr ''INVALID_REQUEST'' (''invalid script id '' @ i), s)
      | Some k \<Rightarrow>
          let s1 = prune_completed_script_snapshots now s
          in (case authorize_session_owned_target s1 (named_session_id_for_client s1 c) (TargetScript k) of
                Inl t \<Rightarrow> access_denied_response t
              | Inr _ \<Rightarrow>
                  (case map_of (s_pending_scripts s1) k of
                     Some p \<Rightarrow>
                       let info = \<lparr>sn_script_id = show_script_id k, sn_status = ScriptRunning, sn_items = ps_created_items p,
                                   sn_exit_code = None, sn_failed_item_index = None, sn_submit_error = None\<rparr>
                       in if SCRIPT_SNAPSHOT_MAX_ITEM_BYTES < sz info
                          then RespErr ''INVALID_STATE'' (''script '' @ show_script_id k @ '' recovery snapshot exceeds the replay limit'')
                          else RespOther info
                   | None \<Rightarrow>
                       (case map_of (s_completed_script_snapshots s1) k of
                          Some x \<Rightarrow>
                            (case cs_info x of
                               Some info \<Rightarrow> RespOther info
                             | None \<Rightarrow> RespErr ''INVALID_STATE''
                                 (''script '' @ show_script_id k @ '' completed, but its recovery snapshot is unavailable''))
                        | None \<Rightarrow>
                            (case k of ScriptId n \<Rightarrow>
                               if n < s_next_script s1
                               then RespErr ''INVALID_STATE'' (''script '' @ show_script_id k @ '' recovery snapshot expired or is unavailable'')
                               else RespErr ''NOT_FOUND'' (''script '' @ show_script_id k @ '' not found'')))), s1))"

section \<open>The table and its counters\<close>

text \<open>
  \<open>H\<close> is the history: the last result recorded for each script, with its time.  An entry holds the result,
  unless it was too large or its place was needed.
\<close>

type_synonym script_history = "script_id \<Rightarrow> (script_info \<times> instant) option"

definition snapshot_ok :: "(script_info \<Rightarrow> nat) \<Rightarrow> script_history \<Rightarrow> script_id \<Rightarrow> completed_script_snapshot \<Rightarrow> bool" where
  "snapshot_ok sz H i x \<longleftrightarrow> (\<exists>info. H i = Some (info, cs_completed_at x) \<and>
     (cs_info x = Some info \<and> cs_response_bytes x = sz info \<and> sz info \<le> SCRIPT_SNAPSHOT_MAX_ITEM_BYTES
      \<or> cs_info x = None \<and> cs_response_bytes x = 0))"

definition bytes_weight :: "script_id \<times> completed_script_snapshot \<Rightarrow> nat" where
  "bytes_weight r = cs_response_bytes (snd r)"

definition table_ok :: "(script_info \<Rightarrow> nat) \<Rightarrow> script_history \<Rightarrow> script_id list \<Rightarrow> scheduler_state \<Rightarrow> bool" where
  "table_ok sz H Q s \<longleftrightarrow> distinct (map fst (s_completed_script_snapshots s)) \<and> distinct Q
     \<and> set Q = fst ` set (s_completed_script_snapshots s)
     \<and> (\<forall>i x. map_of (s_completed_script_snapshots s) i = Some x \<longrightarrow> snapshot_ok sz H i x)
     \<and> s_completed_script_snapshot_responses s = sum_list (map result_weight (s_completed_script_snapshots s))
     \<and> s_completed_script_snapshot_bytes s = sum_list (map bytes_weight (s_completed_script_snapshots s))"

lemma table_okD:
  assumes "table_ok sz H Q s"
  shows "distinct (map fst (s_completed_script_snapshots s))" "distinct Q" "set Q = fst ` set (s_completed_script_snapshots s)"
    "\<And>i x. map_of (s_completed_script_snapshots s) i = Some x \<Longrightarrow> snapshot_ok sz H i x"
    "s_completed_script_snapshot_responses s = sum_list (map result_weight (s_completed_script_snapshots s))"
    "s_completed_script_snapshot_bytes s = sum_list (map bytes_weight (s_completed_script_snapshots s))"
  using assms by (simp_all add: table_ok_def)

lemma table_mem: "table_ok sz H Q s \<Longrightarrow> i \<in> set Q \<longleftrightarrow> (\<exists>x. map_of (s_completed_script_snapshots s) i = Some x)"
  using table_okD(3) by (metis map_of_eq_None_iff not_None_eq)

lemma weight_delete:
  assumes "distinct (map fst xs)"
  shows "sum_list (map f (AList.delete k xs)) + (case map_of xs k of None \<Rightarrow> 0 | Some x \<Rightarrow> f (k, x)) = (sum_list (map f xs) :: nat)"
  using assms
proof (induction xs)
  case (Cons r xs)
  then show ?case
    by (cases r) (auto simp: AList.delete_eq map_of_eq_None_iff split: option.splits dest: map_of_SomeD
        intro!: arg_cong [where f = sum_list] filter_True image_eqI)
qed (simp add: AList.delete_eq)

lemma weight_le: "map_of xs k = Some x \<Longrightarrow> f (k, x) \<le> (sum_list (map f xs) :: nat)"
  by (rule member_le_sum_list) (auto dest: map_of_SomeD)

lemma weight_bytes_none: "snapshot_ok sz H i x \<Longrightarrow> cs_info x = None \<Longrightarrow> cs_response_bytes x = 0"
  by (auto simp: snapshot_ok_def)

lemma drop_ok:
  assumes t: "table_ok sz H (i # is) s"
  shows "table_ok sz H is (drop_snapshot i s)"
    and "s_completed_script_snapshots (drop_snapshot i s) = AList.delete i (s_completed_script_snapshots s)"
proof -
  note d = table_okD [OF t]
  obtain x where x: "map_of (s_completed_script_snapshots s) i = Some x" using table_mem [OF t, of i] by auto
  note wd = weight_delete [OF d(1), of _ i, unfolded x option.case]
  have S: "s_completed_script_snapshots (drop_snapshot i s) = AList.delete i (s_completed_script_snapshots s)"
    by (simp add: drop_snapshot_def x Let_def)
  then show "s_completed_script_snapshots (drop_snapshot i s) = AList.delete i (s_completed_script_snapshots s)" .
  have "s_completed_script_snapshot_responses (drop_snapshot i s) = sum_list (map result_weight (AList.delete i (s_completed_script_snapshots s)))"
    using wd [of result_weight] d(5) by (cases "cs_info x") (simp_all add: drop_snapshot_def x Let_def result_weight_def)
  moreover have "s_completed_script_snapshot_bytes (drop_snapshot i s) = sum_list (map bytes_weight (AList.delete i (s_completed_script_snapshots s)))"
    using wd [of bytes_weight] d(6) weight_bytes_none [OF d(4) [OF x]]
    by (cases "cs_info x") (simp_all add: drop_snapshot_def x Let_def bytes_weight_def)
  moreover have "distinct (map fst (AList.delete i (s_completed_script_snapshots s)))" by (rule AList.distinct_delete [OF d(1)])
  moreover have "set is = fst ` set (AList.delete i (s_completed_script_snapshots s))"
  proof -
    have "fst ` set (AList.delete i (s_completed_script_snapshots s)) = fst ` set (s_completed_script_snapshots s) - {i}"
      by (auto simp: AList.delete_eq)
    then show ?thesis using d(2) unfolding d(3) [symmetric] by auto
  qed
  ultimately show "table_ok sz H is (drop_snapshot i s)"
    unfolding table_ok_def S using d(2,4) by (auto simp: AList.delete_conv' split: if_splits)
qed

lemma prune_frame:
  "s_client_sessions (prune_order now Q s) = s_client_sessions s \<and> s_sessions (prune_order now Q s) = s_sessions s
   \<and> s_pending_scripts (prune_order now Q s) = s_pending_scripts s"
proof (induction Q arbitrary: s)
  case (Cons i Q)
  have "s_client_sessions (drop_snapshot i s) = s_client_sessions s \<and> s_sessions (drop_snapshot i s) = s_sessions s
      \<and> s_pending_scripts (drop_snapshot i s) = s_pending_scripts s"
    by (simp add: drop_snapshot_def Let_def split: option.splits)
  then show ?case using Cons [of "drop_snapshot i s"] by (auto split: option.splits)
qed simp

lemma prune_less:
  "s_completed_script_snapshot_responses (prune_order now Q s) \<le> s_completed_script_snapshot_responses s
   \<and> s_completed_script_snapshot_bytes (prune_order now Q s) \<le> s_completed_script_snapshot_bytes s"
proof (induction Q arbitrary: s)
  case (Cons i Q)
  have "s_completed_script_snapshot_responses (drop_snapshot i s) \<le> s_completed_script_snapshot_responses s
      \<and> s_completed_script_snapshot_bytes (drop_snapshot i s) \<le> s_completed_script_snapshot_bytes s"
    by (simp add: drop_snapshot_def Let_def split: option.splits)
  then show ?case using Cons [of "drop_snapshot i s"] by (auto split: option.splits)
qed simp

lemma prune_ok:
  assumes "table_ok sz H Q s"
  obtains D Q' where "Q = D @ Q'" "\<And>i x. i \<in> set D \<Longrightarrow> map_of (s_completed_script_snapshots s) i = Some x \<Longrightarrow> snapshot_expired now x"
    "\<And>x. Q' \<noteq> [] \<Longrightarrow> map_of (s_completed_script_snapshots s) (hd Q') = Some x \<Longrightarrow> \<not> snapshot_expired now x"
    "s_completed_script_snapshot_order (prune_order now Q s) = Q'" "table_ok sz H Q' (prune_order now Q s)"
    "map_of (s_completed_script_snapshots (prune_order now Q s)) = (\<lambda>i. if i \<in> set D then None else map_of (s_completed_script_snapshots s) i)"
  using assms
proof (induction Q arbitrary: s thesis)
  case Nil
  show ?case by (rule Nil(1) [of "[]" "[]"]) (use Nil(2) in \<open>simp_all add: table_ok_def\<close>)
next
  case (Cons i Q)
  obtain x where x: "map_of (s_completed_script_snapshots s) i = Some x" using table_mem [OF Cons.prems(2), of i] by auto
  note d = drop_ok [OF Cons.prems(2)]
  have m: "map_of (s_completed_script_snapshots (drop_snapshot i s)) k = (if k = i then None else map_of (s_completed_script_snapshots s) k)" for k
    by (simp add: d(2) AList.delete_conv')
  show ?case
  proof (cases "snapshot_expired now x")
    case True
    have p: "prune_order now (i # Q) s = prune_order now Q (drop_snapshot i s)" using True x by simp
    obtain D Q' where i: "Q = D @ Q'" "\<And>k x. k \<in> set D \<Longrightarrow> map_of (s_completed_script_snapshots (drop_snapshot i s)) k = Some x \<Longrightarrow> snapshot_expired now x"
      "\<And>x. Q' \<noteq> [] \<Longrightarrow> map_of (s_completed_script_snapshots (drop_snapshot i s)) (hd Q') = Some x \<Longrightarrow> \<not> snapshot_expired now x"
      "s_completed_script_snapshot_order (prune_order now Q (drop_snapshot i s)) = Q'" "table_ok sz H Q' (prune_order now Q (drop_snapshot i s))"
      "map_of (s_completed_script_snapshots (prune_order now Q (drop_snapshot i s))) = (\<lambda>k. if k \<in> set D then None else map_of (s_completed_script_snapshots (drop_snapshot i s)) k)"
      using Cons.IH [OF _ d(1)] by blast
    have ni: "i \<notin> set Q" using table_okD(2) [OF Cons.prems(2)] by simp
    show ?thesis
    proof (rule Cons.prems(1) [of "i # D" Q'])
      show "i # Q = (i # D) @ Q'" using i(1) by simp
      show "snapshot_expired now y" if "k \<in> set (i # D)" "map_of (s_completed_script_snapshots s) k = Some y" for k y
        using that True x i(2) [of k y] by (cases "k = i") (auto simp: m)
      show "\<not> snapshot_expired now y" if "Q' \<noteq> []" "map_of (s_completed_script_snapshots s) (hd Q') = Some y" for y
        using that i(3) [of y] i(1) ni by (cases Q') (auto simp: m)
      show "map_of (s_completed_script_snapshots (prune_order now (i # Q) s)) =
          (\<lambda>k. if k \<in> set (i # D) then None else map_of (s_completed_script_snapshots s) k)"
        unfolding p i(6) by (auto simp: m)
    qed (use i p in simp_all)
  next
    case False
    show ?thesis by (rule Cons.prems(1) [of "[]" "i # Q"]) (use False x Cons.prems(2) in \<open>simp_all add: table_ok_def\<close>)
  qed
qed

lemma put_ok:
  fixes now session
  assumes t: "table_ok sz H Q s" and Q: "s_completed_script_snapshot_order s = Q" and pos: "0 < sz info"
  defines "x \<equiv> new_snapshot sz now info session"
  shows "table_ok sz (H(i \<mapsto> (info, now))) (filter (\<lambda>k. k \<noteq> i) Q @ [i]) (put_snapshot i x s)"
    and "s_completed_script_snapshot_order (put_snapshot i x s) = filter (\<lambda>k. k \<noteq> i) Q @ [i]"
    and "s_completed_script_snapshots (put_snapshot i x s) = AList.update i x (s_completed_script_snapshots s)"
proof -
  let ?S = "s_completed_script_snapshots s"
  note d = table_okD [OF t]
  have fresh: "filter (\<lambda>k. k \<noteq> i) Q = Q" if "map_of ?S i = None"
    using that table_mem [OF t, of i] by (auto simp: filter_id_conv)
  have S: "s_completed_script_snapshots (put_snapshot i x s) = AList.update i x ?S"
    by (simp add: put_snapshot_def Let_def split: option.splits)
  show O: "s_completed_script_snapshot_order (put_snapshot i x s) = filter (\<lambda>k. k \<noteq> i) Q @ [i]"
    using fresh Q by (simp add: put_snapshot_def Let_def split: option.splits)
  show "s_completed_script_snapshots (put_snapshot i x s) = AList.update i x ?S" by (rule S)
  have xw: "result_weight (i, x) = (if 0 < cs_response_bytes x then 1 else 0)"
    using pos by (simp add: x_def new_snapshot_def result_weight_def)
  have old: "result_weight (i, p) = (if cs_info p = None then 0 else 1)" "cs_info p = None \<Longrightarrow> cs_response_bytes p = 0"
    if "map_of ?S i = Some p" for p using weight_bytes_none [OF d(4) [OF that]] by (simp_all add: result_weight_def)
  have "s_completed_script_snapshot_responses (put_snapshot i x s) = sum_list (map result_weight (AList.update i x ?S))"
    using weight_update [of result_weight i x ?S] d(5) xw old weight_le [of ?S i _ result_weight]
    by (cases "map_of ?S i") (fastforce simp: put_snapshot_def Let_def)+
  moreover have "s_completed_script_snapshot_bytes (put_snapshot i x s) = sum_list (map bytes_weight (AList.update i x ?S))"
    using weight_update [of bytes_weight i x ?S] d(6) old weight_le [of ?S i _ bytes_weight]
    by (cases "map_of ?S i") (fastforce simp: put_snapshot_def Let_def bytes_weight_def)+
  moreover have "snapshot_ok sz (H(i \<mapsto> (info, now))) i x" by (simp add: snapshot_ok_def x_def new_snapshot_def)
  moreover have "snapshot_ok sz (H(i \<mapsto> (info, now))) k y" if "map_of ?S k = Some y" "k \<noteq> i" for k y
    using d(4) [OF that(1)] that(2) by (simp add: snapshot_ok_def)
  moreover have "distinct (map fst (AList.update i x ?S))" by (rule AList.distinct_update [OF d(1)])
  moreover have "set (filter (\<lambda>k. k \<noteq> i) Q @ [i]) = fst ` set (AList.update i x ?S)"
    using d(3) AList.dom_update [of i x ?S] by auto
  ultimately show "table_ok sz (H(i \<mapsto> (info, now))) (filter (\<lambda>k. k \<noteq> i) Q @ [i]) (put_snapshot i x s)"
    unfolding table_ok_def S using d(2) by (auto simp: AList.update_conv' split: if_splits)
qed

section \<open>Eviction\<close>

text \<open>The newest results are kept: a result that fits is missing only when all older ones are.\<close>

definition newest_kept :: "(script_info \<Rightarrow> nat) \<Rightarrow> script_history \<Rightarrow> scheduler_state \<Rightarrow> bool" where
  "newest_kept sz H s \<longleftrightarrow> sorted_wrt (\<lambda>i j. has_result s i \<longrightarrow> has_result s j \<or>
     (\<exists>info t. H j = Some (info, t) \<and> SCRIPT_SNAPSHOT_MAX_ITEM_BYTES < sz info)) (s_completed_script_snapshot_order s)"

lemma forget_ok:
  assumes t: "table_ok sz H Q s" and f: "find (has_result s) Q = Some i" and x: "map_of (s_completed_script_snapshots s) i = Some x"
  shows "table_ok sz H Q (forget_result i x s)"
proof -
  note d = table_okD [OF t]
  let ?y = "x\<lparr>cs_info := None, cs_response_bytes := 0\<rparr>" and ?S = "s_completed_script_snapshots s"
  have h: "cs_info x \<noteq> None" using f x by (auto simp: find_Some_iff has_result_def)
  have "sum_list (map result_weight (AList.update i ?y ?S)) + 1 = sum_list (map result_weight ?S)"
    using weight_update [of result_weight i ?y ?S] x h by (simp add: result_weight_def)
  moreover have "sum_list (map bytes_weight (AList.update i ?y ?S)) + cs_response_bytes x = sum_list (map bytes_weight ?S)"
    using weight_update [of bytes_weight i ?y ?S] x by (simp add: bytes_weight_def)
  moreover have "snapshot_ok sz H i ?y" using d(4) [OF x] by (auto simp: snapshot_ok_def)
  moreover have "distinct (map fst (AList.update i ?y ?S))" by (rule AList.distinct_update [OF d(1)])
  moreover have "fst ` set (AList.update i ?y ?S) = fst ` set ?S"
    using AList.dom_update [of i ?y ?S] map_of_SomeD [OF x] by (auto simp: image_iff) force
  ultimately show ?thesis
    unfolding table_ok_def using d by (auto simp: forget_result_def AList.update_conv' split: if_splits)
qed

lemma has_forget: "has_result (forget_result i x s) k \<longleftrightarrow> k \<noteq> i \<and> has_result s k"
  by (simp add: has_result_def forget_result_def AList.update_conv')

lemma newest_forget:
  assumes n: "newest_kept sz H s" and f: "find (has_result s) (s_completed_script_snapshot_order s) = Some i"
    and d: "distinct (s_completed_script_snapshot_order s)"
  shows "newest_kept sz H (forget_result i x s)"
proof -
  obtain n where n': "n < length (s_completed_script_snapshot_order s)" "s_completed_script_snapshot_order s ! n = i"
      "\<forall>j<n. \<not> has_result s (s_completed_script_snapshot_order s ! j)"
    using f by (auto simp: find_Some_iff)
  have o: "s_completed_script_snapshot_order (forget_result i x s) = s_completed_script_snapshot_order s" by (simp add: forget_result_def)
  show ?thesis
    unfolding newest_kept_def o has_forget sorted_wrt_iff_nth_less
  proof (intro allI impI)
    fix a b assume ab: "a < b" "b < length (s_completed_script_snapshot_order s)"
      "s_completed_script_snapshot_order s ! a \<noteq> i \<and> has_result s (s_completed_script_snapshot_order s ! a)"
    then have "n < a" using n' by (metis linorder_neqE_nat)
    then have "s_completed_script_snapshot_order s ! b \<noteq> i" using ab n' d by (auto simp: nth_eq_iff_index_eq)
    moreover have "has_result s (s_completed_script_snapshot_order s ! b) \<or>
        (\<exists>info t. H (s_completed_script_snapshot_order s ! b) = Some (info, t) \<and> SCRIPT_SNAPSHOT_MAX_ITEM_BYTES < sz info)"
      using n ab by (auto simp: newest_kept_def sorted_wrt_iff_nth_less)
    ultimately show "s_completed_script_snapshot_order s ! b \<noteq> i \<and> has_result s (s_completed_script_snapshot_order s ! b) \<or>
        (\<exists>info t. H (s_completed_script_snapshot_order s ! b) = Some (info, t) \<and> SCRIPT_SNAPSHOT_MAX_ITEM_BYTES < sz info)"
      by blast
  qed
qed

lemma no_results:
  assumes t: "table_ok sz H Q s" and f: "find (has_result s) Q = None"
  shows "\<not> results_over_limits s"
proof -
  have z: "cs_info x = None \<and> cs_response_bytes x = 0" if "(i, x) \<in> set (s_completed_script_snapshots s)" for i x
  proof -
    have m: "map_of (s_completed_script_snapshots s) i = Some x" using that table_okD(1) [OF t] by simp
    then have "i \<in> set Q" using table_mem [OF t] by blast
    then have "\<not> has_result s i" using f by (auto simp: find_None_iff)
    then show ?thesis using m weight_bytes_none [OF table_okD(4) [OF t m]] by (simp add: has_result_def)
  qed
  have "sum_list (map result_weight (s_completed_script_snapshots s)) = 0" "sum_list (map bytes_weight (s_completed_script_snapshots s)) = 0"
    using z by (auto simp: result_weight_def bytes_weight_def sum_list_eq_0_iff)
  then show ?thesis unfolding results_over_limits_def table_okD(5,6) [OF t] by (simp only: not_less_zero simp_thms)
qed

lemma evict_ok:
  assumes "table_ok sz H (s_completed_script_snapshot_order s) s" "newest_kept sz H s"
  shows "table_ok sz H (s_completed_script_snapshot_order s) (evict_results s) \<and> newest_kept sz H (evict_results s)
    \<and> s_completed_script_snapshot_order (evict_results s) = s_completed_script_snapshot_order s \<and> \<not> results_over_limits (evict_results s)"
  using assms
proof (induction s rule: evict_results.induct)
  case (1 s)
  let ?Q = "s_completed_script_snapshot_order s"
  consider (fine) "\<not> results_over_limits s" | (none) "results_over_limits s" "find (has_result s) ?Q = None"
    | (some) i x where "results_over_limits s" "find (has_result s) ?Q = Some i" "map_of (s_completed_script_snapshots s) i = Some x"
    | (odd) i where "find (has_result s) ?Q = Some i" "map_of (s_completed_script_snapshots s) i = None"
    by (metis not_None_eq)
  then show ?case
  proof cases
    case some
    have Q: "s_completed_script_snapshot_order (forget_result i x s) = ?Q" by (simp add: forget_result_def)
    have "evict_results s = evict_results (forget_result i x s)" using some by (subst evict_results.simps) simp
    then show ?thesis
      using "1.IH" [OF _ some(2,3)] some(1) forget_ok [OF "1.prems"(1) some(2,3)] newest_forget [OF "1.prems"(2) some(2)] table_okD(2) [OF "1.prems"(1)] Q
      by simp
  next
    case none
    then show ?thesis using no_results [OF "1.prems"(1)] by blast
  next
    case odd
    then have "has_result s i" by (auto simp: find_Some_iff)
    then show ?thesis using odd by (simp add: has_result_def)
  qed (use "1.prems" in \<open>simp add: evict_results.simps\<close>)
qed

section \<open>Every history\<close>

definition completed_ns :: "script_history \<Rightarrow> script_id \<Rightarrow> int" where
  "completed_ns H i = (case H i of None \<Rightarrow> 0 | Some (_, t) \<Rightarrow> instant_ns t)"

definition fresh_at :: "instant \<Rightarrow> instant \<Rightarrow> bool" where
  "fresh_at now t \<longleftrightarrow> instant_ns now - instant_ns t < SCRIPT_SNAPSHOT_TTL_NS"

definition results_inv :: "(script_info \<Rightarrow> nat) \<Rightarrow> instant \<Rightarrow> script_history \<Rightarrow> scheduler_state \<Rightarrow> bool" where
  "results_inv sz now H s \<longleftrightarrow> table_ok sz H (s_completed_script_snapshot_order s) s \<and> newest_kept sz H s \<and> \<not> results_over_limits s
     \<and> sorted (map (completed_ns H) (s_completed_script_snapshot_order s))
     \<and> (\<forall>i\<in>set (s_completed_script_snapshot_order s). completed_ns H i \<le> instant_ns now)
     \<and> (\<forall>i info t. H i = Some (info, t) \<longrightarrow> fresh_at now t \<longrightarrow> i \<in> set (s_completed_script_snapshot_order s))"

text \<open>
  A history: time passes, results are recorded and expired ones pruned, in any order; other handlers
  leave the table alone.
\<close>

definition same_results :: "scheduler_state \<Rightarrow> scheduler_state \<Rightarrow> bool" where
  "same_results s s' \<longleftrightarrow> s_completed_script_snapshots s' = s_completed_script_snapshots s
     \<and> s_completed_script_snapshot_order s' = s_completed_script_snapshot_order s
     \<and> s_completed_script_snapshot_responses s' = s_completed_script_snapshot_responses s
     \<and> s_completed_script_snapshot_bytes s' = s_completed_script_snapshot_bytes s"

inductive results_reach :: "(script_info \<Rightarrow> nat) \<Rightarrow> instant \<Rightarrow> script_history \<Rightarrow> scheduler_state \<Rightarrow> bool"
  for sz :: "script_info \<Rightarrow> nat" where
  start: "same_results scheduler_new s \<Longrightarrow> results_reach sz now (\<lambda>_. None) s"
| later: "results_reach sz now H s \<Longrightarrow> instant_ns now \<le> instant_ns now' \<Longrightarrow> results_reach sz now' H s"
| prune: "results_reach sz now H s \<Longrightarrow> results_reach sz now H (prune_completed_script_snapshots now s)"
| save: "results_reach sz now H s \<Longrightarrow> sched_parse_script_id (sn_script_id info) = Some i \<Longrightarrow>
    record_completed_script_snapshot sz now info session s = Some s' \<Longrightarrow> results_reach sz now (H(i \<mapsto> (info, now))) s'"
| other: "results_reach sz now H s \<Longrightarrow> same_results s s' \<Longrightarrow> results_reach sz now H s'"

lemma entry_time:
  assumes "table_ok sz H Q s" "map_of (s_completed_script_snapshots s) i = Some x"
  shows "completed_ns H i = instant_ns (cs_completed_at x)" "\<exists>info. H i = Some (info, cs_completed_at x)"
  using table_okD(4) [OF assms] by (auto simp: snapshot_ok_def completed_ns_def)

lemma expired_iff: "snapshot_expired now x \<longleftrightarrow> \<not> fresh_at now (cs_completed_at x)"
  by (auto simp: snapshot_expired_def fresh_at_def SCRIPT_SNAPSHOT_TTL_NS_def)

lemma results_prune_inv:
  assumes inv: "results_inv sz now H s"
  defines "s' \<equiv> prune_completed_script_snapshots now s"
  shows "results_inv sz now H s'"
    and "map_of (s_completed_script_snapshots s') i = (case H i of
      None \<Rightarrow> None | Some (_, t) \<Rightarrow> if fresh_at now t then map_of (s_completed_script_snapshots s) i else None)"
proof -
  let ?Q = "s_completed_script_snapshot_order s"
  have t: "table_ok sz H ?Q s" and n: "newest_kept sz H s" and sorted: "sorted (map (completed_ns H) ?Q)"
    using inv by (simp_all add: results_inv_def)
  obtain D Q' where p: "?Q = D @ Q'" "\<And>i x. i \<in> set D \<Longrightarrow> map_of (s_completed_script_snapshots s) i = Some x \<Longrightarrow> snapshot_expired now x"
    "\<And>x. Q' \<noteq> [] \<Longrightarrow> map_of (s_completed_script_snapshots s) (hd Q') = Some x \<Longrightarrow> \<not> snapshot_expired now x"
    "s_completed_script_snapshot_order (prune_order now ?Q s) = Q'" "table_ok sz H Q' (prune_order now ?Q s)"
    "map_of (s_completed_script_snapshots (prune_order now ?Q s)) = (\<lambda>i. if i \<in> set D then None else map_of (s_completed_script_snapshots s) i)"
    by (rule prune_ok [OF t, where now = now]) blast
  have s': "s' = prune_order now ?Q s" by (simp add: s'_def prune_completed_script_snapshots_def)
  have gone: "i \<in> set D \<longleftrightarrow> snapshot_expired now x" if x: "map_of (s_completed_script_snapshots s) i = Some x" for i x
  proof
    assume e: "snapshot_expired now x"
    have "i \<in> set ?Q" using table_mem [OF t] x by blast
    moreover have "i \<notin> set Q'"
    proof
      assume i: "i \<in> set Q'"
      then have ne: "Q' \<noteq> []" by auto
      then have "hd Q' \<in> set ?Q" using p(1) by simp
      then obtain y where y: "map_of (s_completed_script_snapshots s) (hd Q') = Some y" using table_mem [OF t] by blast
      have "completed_ns H (hd Q') \<le> completed_ns H i"
        using sorted p(1) ne i by (cases Q') (auto simp: sorted_append)
      then have "\<not> fresh_at now (cs_completed_at y)"
        using e entry_time(1) [OF t x] entry_time(1) [OF t y] unfolding expired_iff fresh_at_def by simp
      then show False using p(3) [OF ne y] by (simp add: expired_iff)
    qed
    ultimately show "i \<in> set D" using p(1) by auto
  qed (rule p(2) [OF _ x])
  have hr: "has_result s' i \<longleftrightarrow> i \<notin> set D \<and> has_result s i" for i by (simp add: has_result_def s' p(6))
  have q: "s_completed_script_snapshot_order s' = Q'" "table_ok sz H Q' s'" using p(4,5) by (simp_all add: s')
  have "distinct (D @ Q')" using table_okD(2) [OF t] p(1) by simp
  then have same: "has_result s' i \<longleftrightarrow> has_result s i" if "i \<in> set Q'" for i using that hr by auto
  have "sorted_wrt (\<lambda>i j. has_result s i \<longrightarrow> has_result s j \<or>
      (\<exists>info t. H j = Some (info, t) \<and> SCRIPT_SNAPSHOT_MAX_ITEM_BYTES < sz info)) Q'"
    using n unfolding newest_kept_def p(1) sorted_wrt_append by (elim conjE)
  then have "newest_kept sz H s'" unfolding newest_kept_def q(1) by (rule sorted_wrt_mono_rel [rotated]) (simp only: same)
  moreover have "\<not> results_over_limits s'" using inv prune_less [of now ?Q s] unfolding s' results_inv_def results_over_limits_def by linarith
  moreover have "i \<in> set Q'" if "H i = Some (info, t')" "fresh_at now t'" for i info t'
  proof -
    have "i \<in> set ?Q" using inv that by (auto simp: results_inv_def)
    then obtain x where x: "map_of (s_completed_script_snapshots s) i = Some x" using table_mem [OF t] by blast
    then have "cs_completed_at x = t'" using entry_time(2) [OF t x] that(1) by auto
    then have "i \<notin> set D" using gone [OF x] that(2) by (simp add: expired_iff)
    then show ?thesis using \<open>i \<in> set ?Q\<close> p(1) by auto
  qed
  ultimately show "results_inv sz now H s'"
    using q(2) sorted inv unfolding results_inv_def q(1) p(1) by (auto simp: sorted_append)
  show "map_of (s_completed_script_snapshots s') i = (case H i of
      None \<Rightarrow> None | Some (_, t) \<Rightarrow> if fresh_at now t then map_of (s_completed_script_snapshots s) i else None)"
  proof (cases "map_of (s_completed_script_snapshots s) i")
    case None
    then show ?thesis by (simp add: s' p(6) split: option.splits)
  next
    case (Some x)
    then show ?thesis using gone [OF Some] entry_time(2) [OF t Some] by (auto simp: s' p(6) expired_iff)
  qed
qed

lemma put_inv:
  fixes session i
  assumes inv: "results_inv sz now H s" and pos: "0 < sz info"
  defines "H' \<equiv> H(i \<mapsto> (info, now))" and "s' \<equiv> evict_results (put_snapshot i (new_snapshot sz now info session) s)"
  shows "results_inv sz now H' s'"
proof -
  let ?Q = "s_completed_script_snapshot_order s" and ?x = "new_snapshot sz now info session"
  let ?p = "put_snapshot i ?x s" and ?F = "filter (\<lambda>k. k \<noteq> i) ?Q"
  have t: "table_ok sz H ?Q s" and n: "newest_kept sz H s" and sorted: "sorted (map (completed_ns H) ?Q)"
    and old: "\<forall>k\<in>set ?Q. completed_ns H k \<le> instant_ns now"
    using inv by (simp_all add: results_inv_def)
  note put = put_ok [OF t refl pos, of i now session, folded H'_def]
  have hr: "has_result ?p k \<longleftrightarrow> (if k = i then cs_info ?x \<noteq> None else has_result s k)" for k
    by (simp add: has_result_def put(3) AList.update_conv')
  have Hk: "H' k = H k" "completed_ns H' k = completed_ns H k" if "k \<noteq> i" for k using that by (simp_all add: H'_def completed_ns_def)
  have Hi: "H' i = Some (info, now)" "completed_ns H' i = instant_ns now" by (simp_all add: H'_def completed_ns_def)
  have "sorted_wrt (\<lambda>a b. has_result s a \<longrightarrow> has_result s b \<or> (\<exists>info t. H b = Some (info, t) \<and> SCRIPT_SNAPSHOT_MAX_ITEM_BYTES < sz info)) ?F"
    using n by (auto simp: newest_kept_def intro: sorted_wrt_filter)
  then have "sorted_wrt (\<lambda>a b. has_result ?p a \<longrightarrow> has_result ?p b \<or> (\<exists>info t. H' b = Some (info, t) \<and> SCRIPT_SNAPSHOT_MAX_ITEM_BYTES < sz info)) ?F"
    by (rule sorted_wrt_mono_rel [rotated]) (auto simp: hr Hk)
  moreover have "has_result ?p i \<or> SCRIPT_SNAPSHOT_MAX_ITEM_BYTES < sz info" unfolding hr by (simp add: new_snapshot_def)
  ultimately have "newest_kept sz H' ?p" unfolding newest_kept_def put(2) by (auto simp: sorted_wrt_append Hi(1))
  from evict_ok [OF _ this] have e: "table_ok sz H' (?F @ [i]) s'" "newest_kept sz H' s'" "s_completed_script_snapshot_order s' = ?F @ [i]" "\<not> results_over_limits s'"
    using put(1,2) by (auto simp: s'_def)
  have m: "map (completed_ns H') ?F = map (completed_ns H) ?F" using Hk(2) by simp
  have "sorted (map (completed_ns H) ?F)" using sorted by (rule sorted_filter)
  then have "sorted (map (completed_ns H') (?F @ [i]))" unfolding map_append m using old by (auto simp: sorted_append Hi)
  moreover have "k \<in> set (?F @ [i])" if k: "H' k = Some (info', t')" "fresh_at now t'" for k info' t'
  proof (cases "k = i")
    case False
    then have "k \<in> set ?Q" using inv k Hk(1) unfolding results_inv_def by metis
    then show ?thesis using False by simp
  qed simp
  moreover have "\<forall>k\<in>set (?F @ [i]). completed_ns H' k \<le> instant_ns now" using old Hi(2) Hk(2) by simp
  ultimately show ?thesis using e unfolding results_inv_def e(3) by blast
qed

lemma same_inv: "results_inv sz now H s \<Longrightarrow> same_results s s' \<Longrightarrow> results_inv sz now H s'"
proof -
  assume inv: "results_inv sz now H s" and "same_results s s'"
  then have e: "s_completed_script_snapshots s' = s_completed_script_snapshots s"
    "s_completed_script_snapshot_order s' = s_completed_script_snapshot_order s"
    "s_completed_script_snapshot_responses s' = s_completed_script_snapshot_responses s"
    "s_completed_script_snapshot_bytes s' = s_completed_script_snapshot_bytes s" by (simp_all add: same_results_def)
  show "results_inv sz now H s'" using inv unfolding results_inv_def table_ok_def newest_kept_def results_over_limits_def has_result_def e .
qed

lemma start_results: "same_results scheduler_new s \<Longrightarrow> results_inv sz now (\<lambda>_. None) s"
  by (simp add: results_inv_def same_results_def scheduler_new_def table_ok_def newest_kept_def results_over_limits_def)

lemma reach_results_inv:
  assumes "results_reach sz now H s" "\<And>x. 0 < sz x"
  shows "results_inv sz now H s"
  using assms(1)
proof (induction rule: results_reach.induct)
  case (later now H s now')
  then have "fresh_at now' t \<Longrightarrow> fresh_at now t" for t by (simp add: fresh_at_def)
  then show ?case using later unfolding results_inv_def by (meson order_trans)
next
  case (save now H s info i session s')
  have s': "s' = evict_results (put_snapshot i (new_snapshot sz now info session) (prune_completed_script_snapshots now s))"
    using save.hyps by (simp add: record_completed_script_snapshot_def)
  show ?case unfolding s' by (rule put_inv [OF results_prune_inv(1) [OF save.IH] assms(2)])
qed (auto intro: start_results results_prune_inv(1) same_inv)

lemma trim_show_script [simp]: "trim (show_script_id j) = show_script_id j"
proof (cases j)
  case (ScriptId n)
  have "word_ok (show_u32 n)" by (rule all_digits_word_ok) (simp add: all_digits_show_u32)
  then have "word_ok (''R'' @ show_u32 n)" by (intro word_ok_append) (simp_all add: word_ok_def is_whitespace_def)
  then show ?thesis using ScriptId by (simp add: trim_word)
qed

lemma sched_parse_script_show [simp]: "sched_parse_script_id (show_script_id j) = Some j"
  by (simp add: sched_parse_script_id_def script_codec.parse_print ok_def del: show_script_id.simps)

text \<open>
  C22. Results of scripts.  Over every history the results kept stay within the limits, only the oldest
  give way, and a client outside named sessions that asks for a finished script gets its result back
  unchanged exactly while the result is kept and not older than its time to live.
\<close>

theorem script_results_exact:
  assumes "results_reach sz now H s" "\<And>x. 0 < sz x" "named_session_id_for_client s c = None" "map_of (s_pending_scripts s) i = None"
  shows "(fst (script_info_response sz now (show_script_id i) c s) = RespOther info \<longleftrightarrow>
      (\<exists>t. H i = Some (info, t) \<and> fresh_at now t \<and> has_result s i))
    \<and> s_completed_script_snapshot_responses s \<le> SCRIPT_SNAPSHOT_RESPONSE_CAPACITY
    \<and> s_completed_script_snapshot_bytes s \<le> SCRIPT_SNAPSHOT_MAX_TOTAL_BYTES
    \<and> newest_kept sz H s"
proof -
  let ?s = "prune_completed_script_snapshots now s"
  have inv: "results_inv sz now H s" by (rule reach_results_inv) (rule assms)+
  note p = results_prune_inv [OF inv]
  have frame: "named_session_id_for_client ?s c = None" "map_of (s_pending_scripts ?s) i = None"
    using assms(3,4) prune_frame [of now "s_completed_script_snapshot_order s" s]
    by (simp_all add: prune_completed_script_snapshots_def named_session_id_for_client_def session_for_client_def)
  have res: "fst (script_info_response sz now (show_script_id i) c s) = RespOther info \<longleftrightarrow>
      (\<exists>x. map_of (s_completed_script_snapshots ?s) i = Some x \<and> cs_info x = Some info)"
    by (simp add: script_info_response_def Let_def frame authorize_session_owned_target_def split: option.splits script_id.splits)
  have t: "table_ok sz H (s_completed_script_snapshot_order s) s" using inv by (simp add: results_inv_def)
  have "(\<exists>x. map_of (s_completed_script_snapshots ?s) i = Some x \<and> cs_info x = Some info) \<longleftrightarrow>
      (\<exists>t. H i = Some (info, t) \<and> fresh_at now t \<and> has_result s i)"
  proof (cases "map_of (s_completed_script_snapshots s) i")
    case None
    then show ?thesis by (simp add: p(2) has_result_def split: option.splits)
  next
    case (Some x)
    then show ?thesis
      using table_okD(4) [OF t Some] by (auto simp: p(2) has_result_def snapshot_ok_def split: if_splits)
  qed
  then show ?thesis using res inv by (auto simp: results_inv_def results_over_limits_def)
qed

definition finished_info :: script_info where
  "finished_info = \<lparr>sn_script_id = show_script_id (ScriptId 1), sn_status = ScriptDone, sn_items = [], sn_exit_code = Some 0,
     sn_failed_item_index = None, sn_submit_error = None\<rparr>"

theorem script_results_exact_witness:
  "\<exists>s. record_completed_script_snapshot (\<lambda>_. 2) \<lparr>in_secs = 0, in_nanos = 0\<rparr> finished_info None scheduler_new = Some s
     \<and> fst (script_info_response (\<lambda>_. 2) \<lparr>in_secs = 5, in_nanos = 0\<rparr> (show_script_id (ScriptId 1)) 7 s) = RespOther finished_info"
proof -
  let ?a = "\<lparr>in_secs = 0, in_nanos = 0\<rparr>" and ?b = "\<lparr>in_secs = 5, in_nanos = 0\<rparr>"
  let ?x = "new_snapshot (\<lambda>_. 2) ?a finished_info None"
  define s where "s = put_snapshot (ScriptId 1) ?x scheduler_new"
  have fits: "?x = \<lparr>cs_info = Some finished_info, cs_session_id = None, cs_completed_at = ?a, cs_response_bytes = 2\<rparr>"
    by (simp add: new_snapshot_def SCRIPT_SNAPSHOT_MAX_ITEM_BYTES_def)
  have lim: "\<not> results_over_limits s"
    unfolding s_def fits by (simp add: put_snapshot_def scheduler_new_def results_over_limits_def Let_def
        SCRIPT_SNAPSHOT_RESPONSE_CAPACITY_def SCRIPT_SNAPSHOT_MAX_TOTAL_BYTES_def)
  have p: "prune_completed_script_snapshots ?a scheduler_new = scheduler_new"
    by (simp add: prune_completed_script_snapshots_def scheduler_new_def)
  have r: "record_completed_script_snapshot (\<lambda>_. 2) ?a finished_info None scheduler_new = Some s"
  proof -
    have i: "sched_parse_script_id (sn_script_id finished_info) = Some (ScriptId 1)" by (simp add: finished_info_def del: show_script_id.simps)
    have "evict_results s = s" using lim by (simp add: evict_results.simps)
    then show ?thesis unfolding record_completed_script_snapshot_def p i by (simp add: s_def)
  qed
  have "results_reach (\<lambda>_. 2) ?a ((\<lambda>_. None)(ScriptId 1 \<mapsto> (finished_info, ?a))) s"
    by (rule results_reach.save [OF results_reach.start _ r]) (simp_all add: same_results_def finished_info_def del: show_script_id.simps)
  then have reach: "results_reach (\<lambda>_. 2) ?b ((\<lambda>_. None)(ScriptId 1 \<mapsto> (finished_info, ?a))) s"
    by (rule results_reach.later) (simp add: instant_ns_def)
  have "fst (script_info_response (\<lambda>_. 2) ?b (show_script_id (ScriptId 1)) 7 s) = RespOther finished_info"
    using script_results_exact [OF reach, of 7 "ScriptId 1" finished_info]
    unfolding s_def fits by (simp add: put_snapshot_def scheduler_new_def named_session_id_for_client_def session_for_client_def
        has_result_def Let_def fresh_at_def instant_ns_def SCRIPT_SNAPSHOT_TTL_NS_def del: show_script_id.simps)
  then show ?thesis using r by blast
qed

end
