(* ===== verification/Spec2Isabelle.thy ===== *)
theory Spec2Isabelle
  imports ChainExec RingBuffer CommandSpec Job ScopeStore Nvidia Ledger Tokenizer Parser Resolver CronTable EventBus Editor GatewayClose
    SessionTheorems JobHistory ScriptSnapshots
begin

text \<open>
  A verification library for cue-shell, a shell whose daemon runs jobs, chains of jobs and scheduled
  jobs for several clients at once.

  \<^bold>\<open>The program.\<close>  Clients send requests over a socket.  The gateway routes them to actors: the scheduler
  (jobs, chains, scripts, cron entries, named sessions), the scope store (immutable environments),
  the process manager (operating system processes) and the event bus (fan-out of events to
  subscribed clients).  An input line is expanded by aliases, tokenized, parsed and resolved to a
  command; a chain of jobs is driven by a pure transition engine; a job that declares resource needs
  is admitted by a registry of providers; side-effecting requests pass an idempotency ledger; cron
  entries and scopes are kept in a database.

  \<^bold>\<open>Conventions.\<close>  A string is the list of its UTF-8 bytes, so slices are at byte offsets as in the source
  and slicing inside a character is a panic.  Sizes (\<^verbatim>\<open>usize\<close>) are naturals, with saturation written
  out where the source has it; \<^verbatim>\<open>u32\<close>, \<^verbatim>\<open>u64\<close> and \<^verbatim>\<open>i32\<close> are words.  A hash map is an association list whose
  order is the iteration order, a tree map the theory \<^verbatim>\<open>BTree\<close>.  Errors are values of a sum type,
  panics are results of their own.  Code that is not in the repository is an argument: the hash
  function, the database's answers, the device library, the clock and the calendar.  Loops are
  structural recursions or carry a termination proof.  Fuel is used in the eviction loop of the ledger and
  in the work queue of a chain (one more than the number of its leaves); both bounds are proved enough.

  \<^bold>\<open>Theories\<close> (sources under \<^verbatim>\<open>src/crates\<close>).
  \<^item> \<^verbatim>\<open>Prelude\<close>, \<^verbatim>\<open>Interfaces\<close>, \<^verbatim>\<open>BTree\<close>: shared lemmas on text, numbers and maps; the contracts several components
    share as locales (print and parse, machines with an invariant, bounded byte logs, stores), each
    interpreted on the model's definitions.
  \<^item> \<^verbatim>\<open>Ids\<close>, \<^verbatim>\<open>Pipeline\<close>, \<^verbatim>\<open>Job\<close>, \<^verbatim>\<open>Resource\<close> (\<^verbatim>\<open>cue-core/src\<close>): identifiers, pipelines and chain trees, job and
    process status, mode parameters, event channels, resource quantities and needs, with their
    printed forms and the round trips.
  \<^item> \<^verbatim>\<open>Chain\<close>, \<^verbatim>\<open>ChainExec\<close> (\<^verbatim>\<open>cue-core/src/chain.rs\<close>): the transition engine and the transition system it is
    part of; order of execution, termination of chains, and the chains that stall.
  \<^item> \<^verbatim>\<open>CommandSpec\<close> (\<^verbatim>\<open>command_spec.rs\<close>): the command catalogue and its edit distance, equal to the least cost of an
    alignment.
  \<^item> \<^verbatim>\<open>RingBuffer\<close> (\<^verbatim>\<open>cue-daemon/src/ring_buffer.rs\<close>): refinement of the last bytes written.
  \<^item> \<^verbatim>\<open>Scope\<close>, \<^verbatim>\<open>Storage\<close>, \<^verbatim>\<open>ScopeStore\<close> (\<^verbatim>\<open>scope.rs\<close>, \<^verbatim>\<open>word_expansion.rs\<close>, \<^verbatim>\<open>storage.rs\<close>, \<^verbatim>\<open>actor/scope_store.rs\<close>): environments,
    expansion, the scope table; credentials never reach the table, garbage collection is exact.
  \<^item> \<^verbatim>\<open>Registry\<close>, \<^verbatim>\<open>Nvidia\<close> (\<^verbatim>\<open>resource\<close>): reservations over several providers are all or nothing; grants of GPUs.
  \<^item> \<^verbatim>\<open>Ledger\<close> (\<^verbatim>\<open>actor/operation_ledger.rs\<close>): at most one execution per operation id, replay, bounds.
  \<^item> \<^verbatim>\<open>Tokenizer\<close>, \<^verbatim>\<open>Parser\<close>, \<^verbatim>\<open>Resolver\<close> (\<^verbatim>\<open>parser\<close>): from bytes to commands; tokens tile the line, the parser
    accepts exactly the grammar, printing and parsing round-trip, nothing panics on valid UTF-8.
  \<^item> \<^verbatim>\<open>Cron\<close>, \<^verbatim>\<open>CronTime\<close>, \<^verbatim>\<open>CronTable\<close> (\<^verbatim>\<open>cron.rs\<close>, \<^verbatim>\<open>actor/cron_schedule.rs\<close>, the cron entries of \<^verbatim>\<open>actor/scheduler.rs\<close> and
    \<^verbatim>\<open>storage.rs\<close>): schedules and their text, the next occurrence, the table of entries with its rows;
    the look-ahead is the source's (14 days, and five years of minutes).
  \<^item> \<^verbatim>\<open>EventBus\<close> (\<^verbatim>\<open>actor/event_bus.rs\<close>): subscriptions, the session filter and the effect of a publication on every
    client.
  \<^item> \<^verbatim>\<open>Editor\<close> (\<^verbatim>\<open>config.rs\<close>, \<^verbatim>\<open>actor/gateway.rs\<close>): aliases, hints, completion and highlighting.
  \<^item> \<^verbatim>\<open>Gateway\<close>, \<^verbatim>\<open>GatewayRun\<close>, \<^verbatim>\<open>GatewayClose\<close> (\<^verbatim>\<open>actor/gateway.rs\<close>): the event fence, the operation-id check and the
    routing of every request; the client handlers, the dispatch loop and the bus as one transition
    system with a turn per task; a switch of sessions is a barrier, event streams lose nothing
    silently, and closed clients leave nothing behind.
  \<^item> \<^verbatim>\<open>SchedState\<close>, \<^verbatim>\<open>Sessions\<close>, \<^verbatim>\<open>SessionRun\<close>, \<^verbatim>\<open>SessionTheorems\<close> (\<^verbatim>\<open>actor/scheduler.rs\<close>, \<^verbatim>\<open>storage.rs\<close>): the state of the scheduler,
    ephemeral and named sessions with their table; connection counters are exact, sessions survive a
    restart, every command is answered, only idle sessions are archived.
  \<^item> \<^verbatim>\<open>Execution\<close> (\<^verbatim>\<open>actor/scheduler.rs\<close>): spawning, advancing, cancelling, killing, retrying and finishing jobs and
    chains, with resource admission and its retries.  \<^verbatim>\<open>ChainQueue\<close>, \<^verbatim>\<open>ExecCore\<close>, \<^verbatim>\<open>ExecInv\<close>, \<^verbatim>\<open>ExecAdvance\<close>, \<^verbatim>\<open>ExecRun\<close>,
    \<^verbatim>\<open>ExecRetry\<close>, \<^verbatim>\<open>ExecTurn\<close>: the invariant of the execution state and its preservation by every operation, for any
    resource manager that keeps the contract \<open>resource_manager\<close>; \<^verbatim>\<open>ExecWait\<close>: waiting clients.  \<^verbatim>\<open>ExecTheorems\<close>: the
    contract holds for the registry, and over every sequence of messages chains start their jobs in
    order, every message is handled, reservations and queues are exact, waiters are answered; a chain
    whose deferred start fails hangs.
  \<^item> \<^verbatim>\<open>JobHistory\<close> (\<^verbatim>\<open>storage.rs\<close>, \<^verbatim>\<open>actor/scheduler.rs\<close>): the table of jobs, its restoration and pruning.
  \<^item> \<^verbatim>\<open>ScriptSnapshots\<close> (\<^verbatim>\<open>actor/scheduler.rs\<close>): the results of finished scripts, kept within limits and for a limited time.

  \<^bold>\<open>Interaction.\<close>  \<^verbatim>\<open>Gateway\<close> uses \<^verbatim>\<open>Editor\<close> and \<^verbatim>\<open>Resolver\<close> on input lines, \<^verbatim>\<open>Ledger\<close> on operation ids and \<^verbatim>\<open>EventBus\<close> through
  its mailbox; \<^verbatim>\<open>CronTable\<close> stores the schedules \<^verbatim>\<open>Resolver\<close> makes in the text of \<^verbatim>\<open>Cron\<close> and asks \<^verbatim>\<open>CronTime\<close> for
  the next instant; \<^verbatim>\<open>ScopeStore\<close> writes through \<^verbatim>\<open>Storage\<close>; \<^verbatim>\<open>Registry\<close> drives \<^verbatim>\<open>Nvidia\<close> through the provider interface;
  \<^verbatim>\<open>Execution\<close> uses \<^verbatim>\<open>Chain\<close> for the order of leaves and \<^verbatim>\<open>Registry\<close> for admission, and starts from what \<^verbatim>\<open>JobHistory\<close> restores.

  \<^bold>\<open>Simplifications.\<close>  One clock reading per operation of the cron table.  The escapes of characters
  outside ASCII in quoted error texts are not modelled, nor rows whose status is not valid JSON.  In
  the gateway the mailboxes of the scheduler and the process manager are not bounded, actors do not
  stop, and a client id is not reused.  The 32-bit counters of jobs and chains do not wrap within a run.
  The half second \<^verbatim>\<open>:retry\<close> sleeps is left out.

  \<^bold>\<open>Not modelled.\<close>  The terminal interface, the client library and the command lines: rendering, sockets
  and process spawning.  The process manager: operating system processes, terminals and mounts.  The
  lifecycle object, services and most of the configuration: files and service managers.  Of the
  scheduler, the runs of scripts, the text of its listings and its shutdown; of the storage, the tables
  of scripts.
\<close>

end
